(* ===== verification/Prelude.thy ===== *)
theory Prelude
  imports Main "HOL-Library.Word" "HOL-Library.Monad_Syntax"
begin

text \<open>
  Shared vocabulary of the development: how a C call that may not return is written, the error
  codes of \<open>libs/error.h\<close>, and the generic lemmas the components share.

  A C function is a HOL function on the component's state. A call that does not return, because an
  \<open>assert\<close> or a \<open>panic\<close> stops the machine or because a loop never ends, is \<open>None\<close>; a call that
  returns is \<open>Some\<close> of its result and the new state. Error codes are the negative integers the
  source returns.
\<close>

type_synonym u8 = "8 word"
type_synonym u16 = "16 word"
type_synonym u32 = "32 word"
type_synonym u64 = "64 word"

named_theorems c_simps \<open>unfolding of the small C idioms\<close>

section \<open>Assertions\<close>

definition c_assert :: "bool \<Rightarrow> unit option" where
  "c_assert b = (if b then Some () else None)"

lemma c_assert_True [simp]: "c_assert True = Some ()"
  by (simp add: c_assert_def)

lemma c_assert_False [simp]: "c_assert False = None"
  by (simp add: c_assert_def)

lemma c_assert_bind_eq_Some [simp]:
  "(c_assert b \<bind> f = Some r) = (b \<and> f () = Some r)"
  by (simp add: c_assert_def)

lemma c_assert_bind_eq_None:
  "(c_assert b \<bind> f = None) = (b \<longrightarrow> f () = None)"
  by (simp add: c_assert_def)

lemma c_assert_bind [c_simps]: "c_assert b \<bind> f = (if b then f () else None)"
  by (simp add: c_assert_def)

section \<open>Error codes\<close>

definition E_INVAL :: int where "E_INVAL = 3"
definition E_NO_MEM :: int where "E_NO_MEM = 4"
definition E_NO_FREE_PROC :: int where "E_NO_FREE_PROC = 5"
definition E_BAD_PROC :: int where "E_BAD_PROC = 2"
definition E_KILLED :: int where "E_KILLED = 9"
definition E_NO_DEV :: int where "E_NO_DEV = 13"
definition E_NA_DEV :: int where "E_NA_DEV = 14"
definition E_BUSY :: int where "E_BUSY = 15"
definition E_NOENT :: int where "E_NOENT = 16"
definition E_ISDIR :: int where "E_ISDIR = 17"
definition E_NOTDIR :: int where "E_NOTDIR = 18"
definition E_XDEV :: int where "E_XDEV = 19"
definition E_UNIMP :: int where "E_UNIMP = 20"
definition E_MAX_OPEN :: int where "E_MAX_OPEN = 22"
definition E_EXISTS :: int where "E_EXISTS = 23"
definition E_NOTEMPTY :: int where "E_NOTEMPTY = 24"
definition E_TOO_BIG :: int where "E_TOO_BIG = 12"

lemmas error_codes = E_INVAL_def E_NO_MEM_def E_NO_FREE_PROC_def E_BAD_PROC_def E_KILLED_def
  E_NO_DEV_def E_NA_DEV_def E_BUSY_def E_NOENT_def E_ISDIR_def E_NOTDIR_def E_XDEV_def E_UNIMP_def
  E_MAX_OPEN_def E_EXISTS_def E_NOTEMPTY_def E_TOO_BIG_def

section \<open>Lists and words\<close>

lemma bind_eq_SomeE:
  assumes "m \<bind> f = Some r"
  obtains x where "m = Some x" "f x = Some r"
  using assms by (cases m) auto

lemma sum_list_eq_0_natD: "sum_list xs = (0::nat) \<Longrightarrow> x \<in> set xs \<Longrightarrow> x = 0"
  by auto

lemma remove1_append_notin: "x \<notin> set xs \<Longrightarrow> remove1 x (xs @ x # ys) = xs @ ys"
  by (simp add: remove1_append)

end
