(* ===== verification/DList.thy ===== *)
theory DList
  imports Prelude
begin

text \<open>
  The intrusive circular doubly linked list of \<open>libs/list.h\<close> (every lab carries the same file):
  the two pointer fields of all list entries as maps from entries to entries, each inline function
  as the pointer assignments it makes, and the abstraction \<open>dlist h r xs\<close>: the entries after the
  head \<open>r\<close>, in \<open>next\<close> order, are exactly \<open>xs\<close>, and \<open>prev\<close> is the inverse of \<open>next\<close>.
\<close>

section \<open>The pointer fields\<close>

record 'a links =
  lprev :: "'a \<Rightarrow> 'a"
  lnext :: "'a \<Rightarrow> 'a"

definition set_next :: "'a \<Rightarrow> 'a \<Rightarrow> 'a links \<Rightarrow> 'a links" where
  "set_next p v h = h\<lparr>lnext := (lnext h)(p := v)\<rparr>"

definition set_prev :: "'a \<Rightarrow> 'a \<Rightarrow> 'a links \<Rightarrow> 'a links" where
  "set_prev p v h = h\<lparr>lprev := (lprev h)(p := v)\<rparr>"

lemma lnext_set_next [simp]: "lnext (set_next p v h) = (lnext h)(p := v)"
  by (simp add: set_next_def)

lemma lprev_set_next [simp]: "lprev (set_next p v h) = lprev h"
  by (simp add: set_next_def)

lemma lprev_set_prev [simp]: "lprev (set_prev p v h) = (lprev h)(p := v)"
  by (simp add: set_prev_def)

lemma lnext_set_prev [simp]: "lnext (set_prev p v h) = lnext h"
  by (simp add: set_prev_def)

section \<open>The operations of list.h\<close>

definition list_init :: "'a \<Rightarrow> 'a links \<Rightarrow> 'a links" where
  "list_init elm h = set_prev elm elm (set_next elm elm h)"

text \<open>\<open>__list_add\<close>: \<open>prev->next = next->prev = elm; elm->next = next; elm->prev = prev\<close>.\<close>

definition raw_list_add :: "'a \<Rightarrow> 'a \<Rightarrow> 'a \<Rightarrow> 'a links \<Rightarrow> 'a links" where
  "raw_list_add elm prev next h =
     set_prev elm prev (set_next elm next (set_next prev elm (set_prev next elm h)))"

definition raw_list_del :: "'a \<Rightarrow> 'a \<Rightarrow> 'a links \<Rightarrow> 'a links" where
  "raw_list_del prev next h = set_prev next prev (set_next prev next h)"

definition list_add_after :: "'a \<Rightarrow> 'a \<Rightarrow> 'a links \<Rightarrow> 'a links" where
  "list_add_after listelm elm h = raw_list_add elm listelm (lnext h listelm) h"

definition list_add :: "'a \<Rightarrow> 'a \<Rightarrow> 'a links \<Rightarrow> 'a links" where
  "list_add listelm elm h = list_add_after listelm elm h"

definition list_add_before :: "'a \<Rightarrow> 'a \<Rightarrow> 'a links \<Rightarrow> 'a links" where
  "list_add_before listelm elm h = raw_list_add elm (lprev h listelm) listelm h"

definition list_del :: "'a \<Rightarrow> 'a links \<Rightarrow> 'a links" where
  "list_del listelm h = raw_list_del (lprev h listelm) (lnext h listelm) h"

definition list_del_init :: "'a \<Rightarrow> 'a links \<Rightarrow> 'a links" where
  "list_del_init listelm h = list_init listelm (list_del listelm h)"

definition list_empty :: "'a \<Rightarrow> 'a links \<Rightarrow> bool" where
  "list_empty list h = (lnext h list = list)"

definition list_next :: "'a \<Rightarrow> 'a links \<Rightarrow> 'a" where
  "list_next listelm h = lnext h listelm"

definition list_prev :: "'a \<Rightarrow> 'a links \<Rightarrow> 'a" where
  "list_prev listelm h = lprev h listelm"

lemmas list_ops_defs = list_init_def raw_list_add_def raw_list_del_def list_add_after_def
  list_add_def list_add_before_def list_del_def list_del_init_def list_empty_def list_next_def
  list_prev_def

section \<open>Segments and circular lists\<close>

text \<open>\<open>dseg h p xs q\<close>: following \<open>next\<close> from \<open>p\<close> visits \<open>xs\<close> and then \<open>q\<close>, and \<open>prev\<close> leads back.\<close>

fun dseg :: "'a links \<Rightarrow> 'a \<Rightarrow> 'a list \<Rightarrow> 'a \<Rightarrow> bool" where
  "dseg h p [] q = (lnext h p = q \<and> lprev h q = p)"
| "dseg h p (x # xs) q = (lnext h p = x \<and> lprev h x = p \<and> dseg h x xs q)"

definition dlist :: "'a links \<Rightarrow> 'a \<Rightarrow> 'a list \<Rightarrow> bool" where
  "dlist h r xs \<longleftrightarrow> distinct (r # xs) \<and> dseg h r xs r"

lemma dseg_append [simp]:
  "dseg h p (xs @ y # ys) q \<longleftrightarrow> dseg h p xs y \<and> dseg h y ys q"
  by (induction xs arbitrary: p) auto

lemma dseg_set_next [simp]:
  "a \<notin> set (p # xs) \<Longrightarrow> dseg (set_next a v h) p xs q = dseg h p xs q"
  by (induction xs arbitrary: p) auto

lemma dseg_set_prev [simp]:
  "a \<notin> set (q # xs) \<Longrightarrow> dseg (set_prev a v h) p xs q = dseg h p xs q"
  by (induction xs arbitrary: p) auto

text \<open>Only the fields of the segment matter, so two link heaps that agree there have the same lists.\<close>

lemma dseg_cong:
  assumes "dseg h p xs q"
    and "\<And>a. a \<in> set (p # xs) \<Longrightarrow> lnext h' a = lnext h a"
    and "\<And>a. a \<in> set (q # xs) \<Longrightarrow> lprev h' a = lprev h a"
  shows "dseg h' p xs q"
  using assms by (induction xs arbitrary: p) auto

lemma dlist_cong:
  assumes "dlist h r xs"
    and "\<And>a. a \<in> set (r # xs) \<Longrightarrow> lnext h' a = lnext h a"
    and "\<And>a. a \<in> set (r # xs) \<Longrightarrow> lprev h' a = lprev h a"
  shows "dlist h' r xs"
  using assms by (auto simp: dlist_def intro: dseg_cong)

lemma dseg_lnext: "dseg h p xs q \<Longrightarrow> lnext h p = hd (xs @ [q])"
  by (cases xs) auto

lemma dseg_lprev: "dseg h p xs q \<Longrightarrow> lprev h q = last (p # xs)"
  by (induction xs arbitrary: p) auto

lemma dlist_lnext_head: "dlist h r xs \<Longrightarrow> lnext h r = hd (xs @ [r])"
  by (simp add: dlist_def dseg_lnext)

lemma dlist_lprev_head: "dlist h r xs \<Longrightarrow> lprev h r = last (r # xs)"
  by (auto simp: dlist_def dest: dseg_lprev)

lemma dlist_lnext_elem: "dlist h r (xs @ x # ys) \<Longrightarrow> lnext h x = hd (ys @ [r])"
  by (simp add: dlist_def dseg_lnext)

lemma dlist_lprev_elem: "dlist h r (xs @ x # ys) \<Longrightarrow> lprev h x = last (r # xs)"
  by (auto simp: dlist_def dest: dseg_lprev)

lemma dlist_distinct: "dlist h r xs \<Longrightarrow> distinct xs"
  by (simp add: dlist_def)

lemma dlist_head_notin: "dlist h r xs \<Longrightarrow> r \<notin> set xs"
  by (simp add: dlist_def)

section \<open>What each operation does to the abstract list\<close>

lemma list_init_dlist: "dlist (list_init r h) r []"
  by (simp add: list_init_def dlist_def)

lemma raw_list_add_dlist:
  assumes "dlist h r (xs @ ys)" and "elm \<notin> set (r # xs @ ys)"
  shows "dlist (raw_list_add elm (last (r # xs)) (hd (ys @ [r])) h) r (xs @ elm # ys)"
  using assms by (cases xs rule: rev_cases; cases ys) (auto simp: dlist_def raw_list_add_def)

lemma list_add_dlist:
  assumes "dlist h r xs" and "elm \<notin> set (r # xs)"
  shows "dlist (list_add r elm h) r (elm # xs)"
  using raw_list_add_dlist [of h r "[]" xs elm] assms
  by (simp add: list_add_def list_add_after_def dlist_lnext_head)

lemma list_add_elem_dlist:
  assumes "dlist h r (xs @ x # ys)" and "elm \<notin> set (r # xs @ x # ys)"
  shows "dlist (list_add x elm h) r (xs @ x # elm # ys)"
  using raw_list_add_dlist [of h r "xs @ [x]" ys elm] assms
  by (simp add: list_add_def list_add_after_def dlist_lnext_elem)

lemma list_add_before_head_dlist:
  assumes "dlist h r xs" and "elm \<notin> set (r # xs)"
  shows "dlist (list_add_before r elm h) r (xs @ [elm])"
  using raw_list_add_dlist [of h r xs "[]" elm] assms
  by (simp add: list_add_before_def dlist_lprev_head)

lemma list_add_before_elem_dlist:
  assumes "dlist h r (xs @ x # ys)" and "elm \<notin> set (r # xs @ x # ys)"
  shows "dlist (list_add_before x elm h) r (xs @ elm # x # ys)"
  using raw_list_add_dlist [of h r xs "x # ys" elm] assms
  by (simp add: list_add_before_def dlist_lprev_elem)

lemma list_del_dlist:
  assumes "dlist h r (xs @ x # ys)"
  shows "dlist (list_del x h) r (xs @ ys)"
proof -
  have "dlist (raw_list_del (last (r # xs)) (hd (ys @ [r])) h) r (xs @ ys)"
    using assms by (cases xs rule: rev_cases; cases ys) (auto simp: dlist_def raw_list_del_def)
  then show ?thesis
    using assms by (simp add: list_del_def dlist_lprev_elem dlist_lnext_elem)
qed

lemma list_del_init_dlist:
  assumes "dlist h r (xs @ x # ys)"
  shows "dlist (list_del_init x h) r (xs @ ys)" and "list_empty x (list_del_init x h)"
proof -
  have "dlist (list_del x h) r (xs @ ys)" by (rule list_del_dlist [OF assms])
  moreover have "x \<notin> set (r # xs @ ys)" using assms by (auto simp: dlist_def)
  ultimately show "dlist (list_del_init x h) r (xs @ ys)"
    by (auto simp: list_del_init_def list_init_def elim!: dlist_cong)
  show "list_empty x (list_del_init x h)"
    by (simp add: list_empty_def list_del_init_def list_init_def)
qed

lemma list_empty_dlist: "dlist h r xs \<Longrightarrow> list_empty r h \<longleftrightarrow> xs = []"
  by (cases xs) (auto simp: list_empty_def dlist_def)

lemma list_next_head_dlist: "dlist h r xs \<Longrightarrow> list_next r h = hd (xs @ [r])"
  by (simp add: list_next_def dlist_lnext_head)

lemma list_next_elem_dlist: "dlist h r (xs @ x # ys) \<Longrightarrow> list_next x h = hd (ys @ [r])"
  by (simp add: list_next_def dlist_lnext_elem)

lemma list_prev_head_dlist: "dlist h r xs \<Longrightarrow> list_prev r h = last (r # xs)"
  by (simp add: list_prev_def dlist_lprev_head)

lemma list_prev_elem_dlist: "dlist h r (xs @ x # ys) \<Longrightarrow> list_prev x h = last (r # xs)"
  by (simp add: list_prev_def dlist_lprev_elem)

text \<open>The abstraction is a function of the pointers: an entry heads at most one list.\<close>

lemma dseg_unique:
  "dseg h p xs q \<Longrightarrow> dseg h p ys q \<Longrightarrow> q \<notin> set xs \<Longrightarrow> q \<notin> set ys \<Longrightarrow> xs = ys"
proof (induction xs arbitrary: p ys)
  case Nil
  then show ?case by (cases ys) auto
next
  case (Cons x xs)
  then show ?case by (cases ys) auto
qed

lemma dlist_unique: "dlist h r xs \<Longrightarrow> dlist h r ys \<Longrightarrow> xs = ys"
  by (auto simp: dlist_def intro: dseg_unique)

section \<open>Other lists are not touched\<close>

text \<open>
  An operation on one list leaves every list with other entries alone. \<open>apart\<close> says that two lists
  share no entry, heads included.
\<close>

definition apart :: "'a \<Rightarrow> 'a list \<Rightarrow> 'a \<Rightarrow> 'a list \<Rightarrow> bool" where
  "apart r xs q ys \<longleftrightarrow> set (r # xs) \<inter> set (q # ys) = {}"

lemma lnext_in: "dlist h r xs \<Longrightarrow> a \<in> set (r # xs) \<Longrightarrow> lnext h a \<in> set (r # xs)"
proof -
  assume dl: "dlist h r xs" and a: "a \<in> set (r # xs)"
  show ?thesis
  proof (cases "a = r")
    case True
    then show ?thesis using dlist_lnext_head [OF dl] by (cases xs) auto
  next
    case False
    then obtain us vs where xs: "xs = us @ a # vs" using a by (auto dest: split_list)
    then have "lnext h a = hd (vs @ [r])" using dl dlist_lnext_elem [of h r us a vs] by simp
    then show ?thesis using xs by (cases vs) auto
  qed
qed

lemma lprev_in: "dlist h r xs \<Longrightarrow> a \<in> set (r # xs) \<Longrightarrow> lprev h a \<in> set (r # xs)"
proof -
  assume dl: "dlist h r xs" and a: "a \<in> set (r # xs)"
  show ?thesis
  proof (cases "a = r")
    case True
    then show ?thesis using dlist_lprev_head [OF dl] last_in_set [of "r # xs"] by auto
  next
    case False
    then obtain us vs where xs: "xs = us @ a # vs" using a by (auto dest: split_list)
    then have "lprev h a = last (r # us)" using dl dlist_lprev_elem [of h r us a vs] by simp
    then show ?thesis using last_in_set [of "r # us"] xs by auto
  qed
qed

lemma list_add_other:
  assumes "dlist h r xs" and "dlist h q ys" and "apart r xs q ys" and "elm \<notin> set (q # ys)"
    and "a \<in> set (r # xs)"
  shows "dlist (list_add a elm h) q ys"
proof -
  have n: "lnext h a \<notin> set (q # ys)" "a \<notin> set (q # ys)"
    using lnext_in [OF assms(1,5)] assms(3,5) by (auto simp: apart_def)
  show ?thesis
    by (rule dlist_cong [OF assms(2)]) (use n assms(4) in \<open>auto simp: list_ops_defs\<close>)
qed

lemma list_add_before_other:
  assumes "dlist h r xs" and "dlist h q ys" and "apart r xs q ys" and "elm \<notin> set (q # ys)"
    and "a \<in> set (r # xs)"
  shows "dlist (list_add_before a elm h) q ys"
proof -
  have n: "lprev h a \<notin> set (q # ys)" "a \<notin> set (q # ys)"
    using lprev_in [OF assms(1,5)] assms(3,5) by (auto simp: apart_def)
  show ?thesis
    by (rule dlist_cong [OF assms(2)]) (use n assms(4) in \<open>auto simp: list_ops_defs\<close>)
qed

lemma list_del_other:
  assumes "dlist h r xs" and "dlist h q ys" and "apart r xs q ys" and "a \<in> set (r # xs)"
  shows "dlist (list_del a h) q ys"
proof -
  have n: "lnext h a \<notin> set (q # ys)" "lprev h a \<notin> set (q # ys)"
    using lnext_in [OF assms(1,4)] lprev_in [OF assms(1,4)] assms(3) by (auto simp: apart_def)
  show ?thesis
    by (rule dlist_cong [OF assms(2)]) (use n in \<open>auto simp: list_ops_defs\<close>)
qed

lemma list_init_other: "dlist h q ys \<Longrightarrow> r \<notin> set (q # ys) \<Longrightarrow> dlist (list_init r h) q ys"
  by (rule dlist_cong) (auto simp: list_ops_defs)

lemma list_del_init_other:
  assumes "dlist h r xs" and "dlist h q ys" and "apart r xs q ys" and "a \<in> set (r # xs)"
  shows "dlist (list_del_init a h) q ys"
proof -
  have "a \<notin> set (q # ys)" using assms(3,4) by (auto simp: apart_def)
  then show ?thesis
    unfolding list_del_init_def by (intro list_init_other list_del_other [OF assms])
qed

text \<open>An unlinked entry stays unlinked when a list it is not on changes.\<close>

lemma list_empty_add_before:
  "dlist h r xs \<Longrightarrow> a \<in> set (r # xs) \<Longrightarrow> e \<notin> set (r # xs) \<Longrightarrow> e \<noteq> elm \<Longrightarrow>
   list_empty e (list_add_before a elm h) = list_empty e h"
  using lprev_in [of h r xs a] by (auto simp: list_ops_defs)

lemma list_empty_del_init:
  "dlist h r xs \<Longrightarrow> a \<in> set xs \<Longrightarrow> e \<notin> set (r # xs) \<Longrightarrow>
   list_empty e (list_del_init a h) = list_empty e h"
  using lprev_in [of h r xs a] by (auto simp: list_ops_defs)

lemma list_empty_elem: "dlist h r (xs @ x # ys) \<Longrightarrow> \<not> list_empty x h"
  using dlist_lnext_elem [of h r xs x ys] by (cases ys) (auto simp: dlist_def list_empty_def)

end
