(* ===== verification/PageAlloc.thy ===== *)
theory PageAlloc
  imports DList
begin

text \<open>
  The physical page descriptors (\<open>struct Page\<close> of \<open>kern/mm/memlayout.h\<close>), the free area and the
  code the first-fit and best-fit managers have in common: resetting the descriptors of a block,
  the insertion loop and the two coalescing steps.

  A \<open>struct Page *\<close> is the index of the descriptor in the array \<open>pages\<close>, so \<open>p + n\<close> and \<open>p < q\<close> are
  those of the code. \<open>property\<close> and \<open>nr_free\<close> count page frames, of which there are fewer than
  \<open>2^32\<close> (\<open>npage\<close> is \<open>maxpa / PGSIZE\<close>), so they are natural numbers. The free list is kept at
  pointer level, because one of the insertion loops corrupts a \<open>prev\<close> pointer.
\<close>

section \<open>Descriptors and the free area\<close>

record page =
  ref :: int
  flags :: u64
  property :: nat

datatype le = FreeList | PageLink nat

text \<open>\<open>le2page\<close> on the list head is not a page; the loops test for the head before they call it.\<close>

fun le2page :: "le \<Rightarrow> nat" where
  "le2page (PageLink p) = p"

record free_area =
  pages :: "nat \<Rightarrow> page"
  links :: "le links"
  nr_free :: nat

definition PG_reserved :: nat where "PG_reserved = 0"
definition PG_property :: nat where "PG_property = 1"

definition PageReserved :: "page \<Rightarrow> bool" where
  "PageReserved pg = bit (flags pg) PG_reserved"

definition PageProperty :: "page \<Rightarrow> bool" where
  "PageProperty pg = bit (flags pg) PG_property"

definition SetPageReserved :: "page \<Rightarrow> page" where
  "SetPageReserved pg = pg\<lparr>flags := set_bit PG_reserved (flags pg)\<rparr>"

definition SetPageProperty :: "page \<Rightarrow> page" where
  "SetPageProperty pg = pg\<lparr>flags := set_bit PG_property (flags pg)\<rparr>"

definition ClearPageProperty :: "page \<Rightarrow> page" where
  "ClearPageProperty pg = pg\<lparr>flags := unset_bit PG_property (flags pg)\<rparr>"

lemma PageProperty_Set [simp]: "PageProperty (SetPageProperty pg)"
  by (simp add: PageProperty_def SetPageProperty_def PG_property_def bit_set_bit_iff)

lemma PageProperty_Clear [simp]: "\<not> PageProperty (ClearPageProperty pg)"
  by (simp add: PageProperty_def ClearPageProperty_def PG_property_def bit_unset_bit_iff)

lemma PageReserved_Set [simp]: "PageReserved (SetPageProperty pg) = PageReserved pg"
  by (simp add: PageReserved_def SetPageProperty_def PG_property_def PG_reserved_def bit_set_bit_iff)

lemma PageReserved_Clear [simp]: "PageReserved (ClearPageProperty pg) = PageReserved pg"
  by (simp add: PageReserved_def ClearPageProperty_def PG_property_def PG_reserved_def
      bit_unset_bit_iff)

lemma PageReserved_SetPageReserved [simp]: "PageReserved (SetPageReserved pg)"
  by (simp add: PageReserved_def SetPageReserved_def PG_reserved_def bit_set_bit_iff)

lemma property_flag_ops [simp]:
  "property (SetPageProperty pg) = property pg"
  "property (ClearPageProperty pg) = property pg"
  "ref (SetPageProperty pg) = ref pg"
  "ref (ClearPageProperty pg) = ref pg"
  by (simp_all add: SetPageProperty_def ClearPageProperty_def)

lemma flags_property_update [simp]:
  "PageProperty (pg\<lparr>property := n\<rparr>) = PageProperty pg"
  "PageReserved (pg\<lparr>property := n\<rparr>) = PageReserved pg"
  "PageProperty (pg\<lparr>ref := r\<rparr>) = PageProperty pg"
  "PageReserved (pg\<lparr>ref := r\<rparr>) = PageReserved pg"
  by (simp_all add: PageProperty_def PageReserved_def)

lemma flags_zero [simp]:
  "\<not> PageProperty (pg\<lparr>flags := 0\<rparr>)" "\<not> PageReserved (pg\<lparr>flags := 0\<rparr>)"
  by (simp_all add: PageProperty_def PageReserved_def)

definition upd_page :: "nat \<Rightarrow> (page \<Rightarrow> page) \<Rightarrow> free_area \<Rightarrow> free_area" where
  "upd_page p f s = s\<lparr>pages := (pages s)(p := f (pages s p))\<rparr>"

lemma upd_page_simps [simp]:
  "pages (upd_page p f s) = (pages s)(p := f (pages s p))"
  "links (upd_page p f s) = links s"
  "nr_free (upd_page p f s) = nr_free s"
  by (simp_all add: upd_page_def)

section \<open>Resetting the descriptors of a block\<close>

text \<open>The loop of \<open>*_init_memmap\<close>: every page must be reserved; flags, property and ref become 0.\<close>

fun reset_reserved :: "nat \<Rightarrow> nat \<Rightarrow> (nat \<Rightarrow> page) \<Rightarrow> (nat \<Rightarrow> page) option" where
  "reset_reserved p 0 pg = Some pg"
| "reset_reserved p (Suc k) pg = do {
     c_assert (PageReserved (pg p));
     reset_reserved (Suc p) k (pg(p := (pg p)\<lparr>flags := 0, property := 0, ref := 0\<rparr>))
   }"

text \<open>The loop of \<open>*_free_pages\<close>: no page may be reserved or head a free block; \<open>property\<close> is kept.\<close>

fun reset_allocated :: "nat \<Rightarrow> nat \<Rightarrow> (nat \<Rightarrow> page) \<Rightarrow> (nat \<Rightarrow> page) option" where
  "reset_allocated p 0 pg = Some pg"
| "reset_allocated p (Suc k) pg = do {
     c_assert (\<not> PageReserved (pg p) \<and> \<not> PageProperty (pg p));
     reset_allocated (Suc p) k (pg(p := (pg p)\<lparr>flags := 0, ref := 0\<rparr>))
   }"

lemma reset_reserved_Some:
  "(\<forall>q \<in> {p..<p + k}. PageReserved (pg q)) \<Longrightarrow>
   reset_reserved p k pg =
     Some (\<lambda>q. if q \<in> {p..<p + k} then (pg q)\<lparr>flags := 0, property := 0, ref := 0\<rparr> else pg q)"
  by (induction k arbitrary: p pg) (auto simp: fun_eq_iff)

lemma reset_reserved_None:
  "q \<in> {p..<p + k} \<Longrightarrow> \<not> PageReserved (pg q) \<Longrightarrow> reset_reserved p k pg = None"
proof (induction k arbitrary: p pg)
  case (Suc k)
  then show ?case
    by (cases "q = p") (auto simp: c_assert_bind_eq_None)
qed simp

lemma reset_allocated_Some:
  "(\<forall>q \<in> {p..<p + k}. \<not> PageReserved (pg q) \<and> \<not> PageProperty (pg q)) \<Longrightarrow>
   reset_allocated p k pg =
     Some (\<lambda>q. if q \<in> {p..<p + k} then (pg q)\<lparr>flags := 0, ref := 0\<rparr> else pg q)"
  by (induction k arbitrary: p pg) (auto simp: fun_eq_iff)

lemma reset_allocated_None:
  "q \<in> {p..<p + k} \<Longrightarrow> PageReserved (pg q) \<or> PageProperty (pg q) \<Longrightarrow> reset_allocated p k pg = None"
proof (induction k arbitrary: p pg)
  case (Suc k)
  then show ?case
    by (cases "q = p") (auto simp: c_assert_bind_eq_None)
qed simp

section \<open>Inserting a block in address order\<close>

text \<open>
  The loop of \<open>default_init_memmap\<close>, \<open>default_free_pages\<close> and \<open>best_fit_free_pages\<close>. After the
  append (\<open>list_add(le, base)\<close>) there is no \<open>break\<close>: the loop goes on with the same \<open>le\<close>.
\<close>

partial_function (option) insert_loop :: "nat \<Rightarrow> le \<Rightarrow> le links \<Rightarrow> le links option" where
  "insert_loop base le h =
     (let le' = list_next le h in
      if le' = FreeList then Some h
      else if base < le2page le' then Some (list_add_before le' (PageLink base) h)
      else if list_next le' h = FreeList
        then insert_loop base le' (list_add le' (PageLink base) h)
      else insert_loop base le' h)"

declare insert_loop.simps [code]

definition insert_block :: "nat \<Rightarrow> le links \<Rightarrow> le links option" where
  "insert_block base h =
     (if list_empty FreeList h then Some (list_add FreeList (PageLink base) h)
      else insert_loop base FreeList h)"

lemma insert_loop_before:
  assumes "dlist h FreeList (map PageLink (us @ vs))"
    and "base \<notin> set (us @ vs)" and "\<exists>v \<in> set vs. base < v"
  shows "\<exists>h'. insert_loop base (last (FreeList # map PageLink us)) h = Some h' \<and>
    dlist h' FreeList (map PageLink
      (us @ takeWhile (\<lambda>v. v < base) vs @ base # dropWhile (\<lambda>v. v < base) vs))"
  using assms
proof (induction vs arbitrary: us)
  case Nil
  then show ?case by simp
next
  case (Cons v vs)
  let ?le = "last (FreeList # map PageLink us)"
  have nxt: "list_next ?le h = PageLink v"
  proof (cases us rule: rev_cases)
    case Nil
    then show ?thesis using Cons.prems(1) by (simp add: list_next_head_dlist)
  next
    case (snoc us' u)
    then show ?thesis
      using Cons.prems(1) list_next_elem_dlist [of h FreeList "map PageLink us'" "PageLink u"]
      by simp
  qed
  show ?case
  proof (cases "base < v")
    case True
    have "dlist (list_add_before (PageLink v) (PageLink base) h) FreeList
        (map PageLink us @ PageLink base # PageLink v # map PageLink vs)"
      using Cons.prems(1,2)
      by (intro list_add_before_elem_dlist) auto
    then show ?thesis
      using True nxt by (subst insert_loop.simps) (simp add: Let_def)
  next
    case False
    with Cons.prems(2) have lt: "v < base" by simp
    with Cons.prems(3) obtain w ws where vs: "vs = w # ws" and ex: "\<exists>v \<in> set vs. base < v"
      by (cases vs) auto
    have nv: "list_next (PageLink v) h \<noteq> FreeList"
      using Cons.prems(1) vs
        list_next_elem_dlist [of h FreeList "map PageLink us" "PageLink v" "map PageLink vs"]
      by simp
    have "insert_loop base ?le h = insert_loop base (PageLink v) h"
      using False nxt nv by (subst insert_loop.simps) (simp add: Let_def)
    moreover have "last (FreeList # map PageLink (us @ [v])) = PageLink v" by simp
    ultimately show ?thesis
      using Cons.IH [of "us @ [v]"] Cons.prems ex lt by simp
  qed
qed

lemma insert_block_sorted:
  assumes "dlist h FreeList (map PageLink xs)" and "base \<notin> set xs"
    and "xs = [] \<or> (\<exists>v \<in> set xs. base < v)"
  shows "\<exists>h'. insert_block base h = Some h' \<and>
    dlist h' FreeList (map PageLink
      (takeWhile (\<lambda>v. v < base) xs @ base # dropWhile (\<lambda>v. v < base) xs))"
proof (cases "xs = []")
  case True
  then have "dlist (list_add FreeList (PageLink base) h) FreeList [PageLink base]"
    using assms(1) by (intro list_add_dlist) auto
  then show ?thesis
    using True assms(1) by (simp add: insert_block_def list_empty_dlist)
next
  case False
  then show ?thesis
    using insert_loop_before [of h "[]" xs base] assms
    by (simp add: insert_block_def list_empty_dlist)
qed

text \<open>
  A block that goes behind every block of a non-empty list: the loop appends it and then, one
  iteration later, adds it after itself, which leaves its \<open>prev\<close> pointing at itself.
\<close>

lemma insert_loop_append:
  assumes "dlist h FreeList (map PageLink (us @ vs))"
    and "vs \<noteq> []" and "base \<notin> set (us @ vs)" and "\<forall>v \<in> set vs. v < base"
  shows "insert_loop base (last (FreeList # map PageLink us)) h =
    Some (list_add (PageLink base) (PageLink base) (list_add (PageLink (last vs)) (PageLink base) h))"
  using assms
proof (induction vs arbitrary: us)
  case Nil
  then show ?case by simp
next
  case (Cons v vs)
  let ?le = "last (FreeList # map PageLink us)"
  have nxt: "list_next ?le h = PageLink v"
  proof (cases us rule: rev_cases)
    case Nil
    then show ?thesis using Cons.prems(1) by (simp add: list_next_head_dlist)
  next
    case (snoc us' u)
    then show ?thesis
      using Cons.prems(1) list_next_elem_dlist [of h FreeList "map PageLink us'" "PageLink u"]
      by simp
  qed
  have nv: "list_next (PageLink v) h = hd (map PageLink vs @ [FreeList])"
    using Cons.prems(1)
      list_next_elem_dlist [of h FreeList "map PageLink us" "PageLink v" "map PageLink vs"]
    by simp
  show ?case
  proof (cases vs)
    case Nil
    let ?h1 = "list_add (PageLink v) (PageLink base) h"
    let ?h2 = "list_add (PageLink base) (PageLink base) ?h1"
    from Nil nv have end_v: "list_next (PageLink v) h = FreeList" by simp
    have neq: "base \<noteq> v" using Cons.prems(3) by auto
    have n1: "list_next (PageLink v) ?h1 = PageLink base"
      "list_next (PageLink base) ?h1 = FreeList"
      "list_next (PageLink base) ?h2 = FreeList"
      using end_v neq by (auto simp: list_ops_defs)
    have "insert_loop base ?le h = insert_loop base (PageLink v) ?h1"
      using nxt end_v Cons.prems(4) by (subst insert_loop.simps) (simp add: Let_def)
    also have "\<dots> = insert_loop base (PageLink base) ?h2"
      using n1 by (subst insert_loop.simps) (simp add: Let_def)
    also have "\<dots> = Some ?h2"
      using n1 by (subst insert_loop.simps) (simp add: Let_def)
    finally show ?thesis using Nil by simp
  next
    case (Cons w ws)
    have "insert_loop base ?le h = insert_loop base (PageLink v) h"
      using nxt nv Cons Cons.prems(4) by (subst insert_loop.simps) (simp add: Let_def)
    moreover have "last (FreeList # map PageLink (us @ [v])) = PageLink v" by simp
    ultimately show ?thesis
      using Cons.IH [of "us @ [v]"] Cons.prems Cons by simp
  qed
qed

lemma insert_block_append:
  assumes "dlist h FreeList (map PageLink xs)" and "xs \<noteq> []" and "\<forall>v \<in> set xs. v < base"
  shows "insert_block base h =
    Some (list_add (PageLink base) (PageLink base) (list_add (PageLink (last xs)) (PageLink base) h))"
  using insert_loop_append [of h "[]" xs base] assms
  by (auto simp: insert_block_def list_empty_dlist)

section \<open>Taking pages from a block, coalescing two blocks\<close>

text \<open>
  What \<open>default_alloc_pages\<close> and \<open>best_fit_alloc_pages\<close> do with the block they found: unlink it,
  put back what is left behind its first \<open>n\<close> pages, adjust \<open>nr_free\<close>, clear the head's flag.
\<close>

definition take_block :: "nat \<Rightarrow> nat \<Rightarrow> free_area \<Rightarrow> free_area" where
  "take_block n page s =
     (let prev = list_prev (PageLink page) (links s);
          s1 = s\<lparr>links := list_del (PageLink page) (links s)\<rparr>;
          s2 = (if property (pages s1 page) > n
                then let p = page + n;
                         s' = upd_page p (\<lambda>pg. SetPageProperty
                                (pg\<lparr>property := property (pages s1 page) - n\<rparr>)) s1
                     in s'\<lparr>links := list_add prev (PageLink p) (links s')\<rparr>
                else s1);
          s3 = s2\<lparr>nr_free := nr_free s2 - n\<rparr>
      in upd_page page ClearPageProperty s3)"

definition merge_prev :: "nat \<Rightarrow> free_area \<Rightarrow> nat \<times> free_area" where
  "merge_prev base s =
     (let le = list_prev (PageLink base) (links s) in
      if le \<noteq> FreeList then
        let p = le2page le in
        if p + property (pages s p) = base then
          let s1 = upd_page p (\<lambda>pg. pg\<lparr>property := property pg + property (pages s base)\<rparr>) s;
              s2 = upd_page base ClearPageProperty s1
          in (p, s2\<lparr>links := list_del (PageLink base) (links s2)\<rparr>)
        else (base, s)
      else (base, s))"

definition merge_next :: "nat \<Rightarrow> free_area \<Rightarrow> free_area" where
  "merge_next base s =
     (let le = list_next (PageLink base) (links s) in
      if le \<noteq> FreeList then
        let p = le2page le in
        if base + property (pages s base) = p then
          let s1 = upd_page base (\<lambda>pg. pg\<lparr>property := property pg + property (pages s p)\<rparr>) s;
              s2 = upd_page p ClearPageProperty s1
          in s2\<lparr>links := list_del (PageLink p) (links s2)\<rparr>
        else s
      else s)"

section \<open>The invariant of the free list\<close>

text \<open>A page that is neither reserved nor the head of a free block.\<close>

definition page_clean :: "page \<Rightarrow> bool" where
  "page_clean pg \<longleftrightarrow> \<not> PageReserved pg \<and> \<not> PageProperty pg"

text \<open>
  \<open>gaps c prop xs\<close>: the blocks headed by \<open>xs\<close> are in address order, disjoint, and at least \<open>c\<close>
  pages apart. With \<open>c = 1\<close> no two free blocks are adjacent.
\<close>

definition gaps :: "nat \<Rightarrow> (nat \<Rightarrow> page) \<Rightarrow> nat list \<Rightarrow> bool" where
  "gaps c pg xs \<longleftrightarrow> sorted_wrt (\<lambda>p q. p + property (pg p) + c \<le> q) xs"

definition block :: "(nat \<Rightarrow> page) \<Rightarrow> nat \<Rightarrow> nat set" where
  "block pg p = {p..<p + property (pg p)}"

definition head_ok :: "(nat \<Rightarrow> page) \<Rightarrow> nat \<Rightarrow> bool" where
  "head_ok pg p \<longleftrightarrow> 0 < property (pg p) \<and> PageProperty (pg p) \<and>
     (\<forall>q \<in> block pg p. \<not> PageReserved (pg q) \<and> (q \<noteq> p \<longrightarrow> \<not> PageProperty (pg q)))"

definition free_inv :: "nat \<Rightarrow> free_area \<Rightarrow> nat list \<Rightarrow> bool" where
  "free_inv c s xs \<longleftrightarrow>
     dlist (links s) FreeList (map PageLink xs) \<and> gaps c (pages s) xs \<and>
     (\<forall>p \<in> set xs. head_ok (pages s) p) \<and>
     nr_free s = sum_list (map (\<lambda>p. property (pages s p)) xs)"

definition free_frames :: "free_area \<Rightarrow> nat list \<Rightarrow> nat set" where
  "free_frames s xs = (\<Union>p \<in> set xs. block (pages s) p)"

lemma gaps_mono: "gaps c pg xs \<Longrightarrow> d \<le> c \<Longrightarrow> gaps d pg xs"
  unfolding gaps_def by (erule sorted_wrt_mono_rel [rotated]) auto

lemma gaps_cong:
  "gaps c pg xs \<Longrightarrow> (\<And>p. p \<in> set xs \<Longrightarrow> property (pg' p) = property (pg p)) \<Longrightarrow> gaps c pg' xs"
  unfolding gaps_def by (erule sorted_wrt_mono_rel [rotated]) auto

lemma gaps_append:
  "gaps c pg (xs @ ys) \<longleftrightarrow> gaps c pg xs \<and> gaps c pg ys \<and>
     (\<forall>x \<in> set xs. \<forall>y \<in> set ys. x + property (pg x) + c \<le> y)"
  by (simp add: gaps_def sorted_wrt_append)

lemma gaps_Cons:
  "gaps c pg (x # ys) \<longleftrightarrow> (\<forall>y \<in> set ys. x + property (pg x) + c \<le> y) \<and> gaps c pg ys"
  by (simp add: gaps_def)

lemma gaps_Nil [simp]: "gaps c pg []"
  by (simp add: gaps_def)

lemma head_ok_cong:
  "head_ok pg p \<Longrightarrow> (\<And>q. q \<in> block pg p \<Longrightarrow> pg' q = pg q) \<Longrightarrow> head_ok pg' p"
  by (auto simp: head_ok_def block_def)

lemma head_ok_pos: "head_ok pg p \<Longrightarrow> 0 < property (pg p)"
  by (simp add: head_ok_def)

lemma free_inv_mono: "free_inv c s xs \<Longrightarrow> d \<le> c \<Longrightarrow> free_inv d s xs"
  by (auto simp: free_inv_def intro: gaps_mono)

lemma free_inv_nr_free_card:
  assumes "free_inv c s xs"
  shows "nr_free s = card (free_frames s xs)"
proof -
  have "gaps 0 (pages s) xs" using assms by (auto simp: free_inv_def intro: gaps_mono)
  then have "card (\<Union>p \<in> set xs. block (pages s) p) = sum_list (map (\<lambda>p. property (pages s p)) xs)"
  proof (induction xs)
    case (Cons x xs)
    have "block (pages s) x \<inter> (\<Union>p \<in> set xs. block (pages s) p) = {}"
      using Cons.prems by (fastforce simp: gaps_Cons block_def)
    then have "card (block (pages s) x \<union> (\<Union>p \<in> set xs. block (pages s) p)) =
        card (block (pages s) x) + card (\<Union>p \<in> set xs. block (pages s) p)"
      by (intro card_Un_disjoint) (auto simp: block_def)
    then show ?case using Cons by (simp add: gaps_Cons) (simp add: block_def)
  qed simp
  then show ?thesis using assms by (simp add: free_inv_def free_frames_def)
qed

section \<open>The helpers keep the invariant\<close>

lemma sum_property_cong:
  "(\<And>q. q \<in> set xs \<Longrightarrow> pg' q = pg q) \<Longrightarrow>
   (\<Sum>p\<leftarrow>xs. property (pg' p)) = (\<Sum>p\<leftarrow>xs. property (pg p))"
  by (induction xs) auto

lemma list_add_last_dlist:
  assumes "dlist h FreeList (map PageLink (us @ vs))" and "q \<notin> set (us @ vs)"
  shows "dlist (list_add (last (FreeList # map PageLink us)) (PageLink q) h) FreeList
    (map PageLink (us @ q # vs))"
proof (cases us rule: rev_cases)
  case Nil
  then show ?thesis using assms list_add_dlist [of h FreeList "map PageLink vs" "PageLink q"] by auto
next
  case (snoc us' u)
  then show ?thesis
    using assms list_add_elem_dlist [of h FreeList "map PageLink us'" "PageLink u"
        "map PageLink vs" "PageLink q"] by auto
qed

lemma take_block_dlist:
  assumes inv: "free_inv c s (us @ p # vs)" and n: "0 < n" "n \<le> property (pages s p)"
  shows "dlist (links (take_block n p s)) FreeList
    (map PageLink (us @ (if n < property (pages s p) then [p + n] else []) @ vs))"
proof -
  have dl: "dlist (links s) FreeList (map PageLink (us @ p # vs))"
    and g: "gaps 0 (pages s) (us @ p # vs)"
    and ok: "\<And>q. q \<in> set (us @ p # vs) \<Longrightarrow> head_ok (pages s) q"
    using inv by (auto simp: free_inv_def intro: gaps_mono)
  have del: "dlist (list_del (PageLink p) (links s)) FreeList (map PageLink (us @ vs))"
    using list_del_dlist [of "links s" FreeList "map PageLink us" "PageLink p" "map PageLink vs"] dl
    by simp
  have prv: "list_prev (PageLink p) (links s) = last (FreeList # map PageLink us)"
    using list_prev_elem_dlist [of "links s" FreeList "map PageLink us" "PageLink p"
        "map PageLink vs"] dl by simp
  show ?thesis
  proof (cases "n < property (pages s p)")
    case True
    have "p + n \<notin> set us"
      using g n True ok head_ok_pos by (force simp: gaps_append gaps_Cons)
    moreover have "p + n \<notin> set vs"
      using g n True by (fastforce simp: gaps_append gaps_Cons)
    ultimately show ?thesis
      using True del prv list_add_last_dlist [OF del, of "p + n"]
      by (simp add: take_block_def Let_def del: last.simps)
  next
    case False
    then show ?thesis using del by (simp add: take_block_def Let_def)
  qed
qed

lemma take_block_pages:
  "pages (take_block n p s) =
     (if n < property (pages s p)
      then (pages s)(p + n := SetPageProperty ((pages s (p + n))\<lparr>property := property (pages s p) - n\<rparr>))
      else pages s)
     (p := ClearPageProperty ((if n < property (pages s p)
        then (pages s)(p + n := SetPageProperty ((pages s (p + n))\<lparr>property := property (pages s p) - n\<rparr>))
        else pages s) p))"
  by (simp add: take_block_def Let_def)

lemma take_block_nr_free: "nr_free (take_block n p s) = nr_free s - n"
  by (simp add: take_block_def Let_def)

lemma gaps_block_disjoint:
  assumes "gaps 0 pg (us @ p # vs)" and "q \<in> set us \<union> set vs"
  shows "block pg q \<inter> block pg p = {}"
  using assms by (fastforce simp: gaps_append gaps_Cons block_def)

lemma take_block_inv:
  assumes inv: "free_inv c s (us @ p # vs)" and n: "0 < n" "n \<le> property (pages s p)"
  defines "xs' \<equiv> us @ (if n < property (pages s p) then [p + n] else []) @ vs"
  shows "free_inv c (take_block n p s) xs'"
    and "free_frames (take_block n p s) xs' = free_frames s (us @ p # vs) - {p..<p + n}"
proof -
  let ?pg = "pages s" and ?pg' = "pages (take_block n p s)"
  have g: "gaps c ?pg (us @ p # vs)" and g0: "gaps 0 ?pg (us @ p # vs)"
    and ok: "\<And>q. q \<in> set (us @ p # vs) \<Longrightarrow> head_ok ?pg q"
    and nr: "nr_free s = sum_list (map (\<lambda>p. property (?pg p)) (us @ p # vs))"
    using inv by (auto simp: free_inv_def intro: gaps_mono)
  have other: "\<And>q r. q \<in> set us \<union> set vs \<Longrightarrow> r \<in> block ?pg q \<Longrightarrow> ?pg' r = ?pg r"
  proof -
    fix q r assume qr: "q \<in> set us \<union> set vs" "r \<in> block ?pg q"
    have "r \<notin> block ?pg p" using gaps_block_disjoint [OF g0 qr(1)] qr(2) by auto
    then have "r \<noteq> p" "n < property (?pg p) \<longrightarrow> r \<noteq> p + n"
      using n by (auto simp: block_def)
    then show "?pg' r = ?pg r" by (simp add: take_block_pages)
  qed
  have otherh: "\<And>q. q \<in> set us \<union> set vs \<Longrightarrow> ?pg' q = ?pg q"
    using ok [THEN head_ok_pos] by (intro other) (auto simp: block_def)
  have rest: "n < property (?pg p) \<Longrightarrow> property (?pg' (p + n)) = property (?pg p) - n"
    using n by (simp add: take_block_pages)
  have gaps': "gaps c ?pg' xs'"
  proof -
    have us: "gaps c ?pg' us" and vs: "gaps c ?pg' vs"
      using g otherh by (auto simp: gaps_append gaps_Cons intro: gaps_cong)
    show ?thesis
      using g us vs otherh rest n
      by (fastforce simp: xs'_def gaps_append gaps_Cons)
  qed
  have ok': "head_ok ?pg' q" if "q \<in> set xs'" for q
  proof (cases "q \<in> set us \<union> set vs")
    case True
    then show ?thesis using ok other by (auto intro!: head_ok_cong [of ?pg q ?pg'])
  next
    case False
    with that have q: "q = p + n" and lt: "n < property (?pg p)"
      by (auto simp: xs'_def split: if_splits)
    have "head_ok ?pg p" using ok by simp
    then show ?thesis
      using lt n unfolding q head_ok_def block_def
      by (auto simp: take_block_pages)
  qed
  have nr': "nr_free (take_block n p s) = sum_list (map (\<lambda>p. property (?pg' p)) xs')"
  proof -
    have "(\<Sum>p\<leftarrow>us. property (?pg' p)) = (\<Sum>p\<leftarrow>us. property (?pg p))"
      "(\<Sum>p\<leftarrow>vs. property (?pg' p)) = (\<Sum>p\<leftarrow>vs. property (?pg p))"
      using otherh by (intro sum_property_cong; simp)+
    then show ?thesis using nr n rest by (simp add: take_block_nr_free xs'_def)
  qed
  show "free_inv c (take_block n p s) xs'"
    using take_block_dlist [OF inv n] gaps' ok' nr' by (simp add: free_inv_def xs'_def)
  have b: "\<And>q. q \<in> set us \<union> set vs \<Longrightarrow> block ?pg' q = block ?pg q"
    using otherh by (simp add: block_def)
  have dis: "\<And>q. q \<in> set us \<union> set vs \<Longrightarrow> block ?pg q - {p..<p + n} = block ?pg q"
    using gaps_block_disjoint [OF g0] n by (fastforce simp: block_def)
  have "free_frames (take_block n p s) xs' =
      (\<Union>q \<in> set us \<union> set vs. block ?pg q) \<union> (block ?pg p - {p..<p + n})"
    using b rest n by (auto simp: free_frames_def xs'_def) (auto simp: block_def split: if_splits)
  also have "\<dots> = free_frames s (us @ p # vs) - {p..<p + n}"
    using dis by (auto simp: free_frames_def)
  finally show "free_frames (take_block n p s) xs' = free_frames s (us @ p # vs) - {p..<p + n}" .
qed


lemma merge_prev_inv:
  assumes inv: "free_inv 0 s (us @ b # vs)"
    and gu: "gaps c (pages s) us" and gv: "gaps c (pages s) vs" and c: "c \<le> 1"
    and res: "merge_prev b s = (b', s')"
  shows "\<exists>us'. free_inv 0 s' (us' @ b' # vs) \<and> gaps c (pages s') (us' @ [b']) \<and>
    gaps c (pages s') vs \<and> free_frames s' (us' @ b' # vs) = free_frames s (us @ b # vs) \<and>
    nr_free s' = nr_free s"
proof -
  let ?pg = "pages s"
  have dl: "dlist (links s) FreeList (map PageLink (us @ b # vs))"
    and g0: "gaps 0 ?pg (us @ b # vs)"
    and ok: "\<And>q. q \<in> set (us @ b # vs) \<Longrightarrow> head_ok ?pg q"
    and nr: "nr_free s = sum_list (map (\<lambda>p. property (?pg p)) (us @ b # vs))"
    using inv by (auto simp: free_inv_def)
  have prv: "list_prev (PageLink b) (links s) = last (FreeList # map PageLink us)"
    using list_prev_elem_dlist [of "links s" FreeList "map PageLink us" "PageLink b"
        "map PageLink vs"] dl by simp
  show ?thesis
  proof (cases us rule: rev_cases)
    case Nil
    then have "b' = b" "s' = s" using res prv by (auto simp: merge_prev_def)
    then show ?thesis using Nil inv gv by (intro exI [of _ "[]"]) (auto simp: gaps_Cons)
  next
    case (snoc ws u)
    have prv': "list_prev (PageLink b) (links s) = PageLink u" using prv snoc by simp
    show ?thesis
    proof (cases "u + property (?pg u) = b")
      case False
      then have "b' = b" "s' = s" using res prv' by (auto simp: merge_prev_def)
      moreover have "u + property (?pg u) + 1 \<le> b"
        using False g0 snoc by (auto simp: gaps_append gaps_Cons)
      moreover have "\<forall>x \<in> set ws. x + property (?pg x) + c \<le> b"
        using gu g0 snoc by (fastforce simp: gaps_append gaps_Cons)
      ultimately show ?thesis
        using inv gu gv c snoc
        by (intro exI [of _ us]) (auto simp: gaps_append gaps_Cons)
    next
      case True
      have upos: "0 < property (?pg u)" "0 < property (?pg b)"
        using ok [THEN head_ok_pos] snoc by auto
      have ub: "u \<noteq> b" using True upos by simp
      have b': "b' = u" and pg': "pages s' =
          ?pg(u := (?pg u)\<lparr>property := property (?pg u) + property (?pg b)\<rparr>,
              b := ClearPageProperty (?pg b))"
        and l': "links s' = list_del (PageLink b) (links s)" and n': "nr_free s' = nr_free s"
        using res prv' True ub by (auto simp: merge_prev_def Let_def)
      have dl': "dlist (links s') FreeList (map PageLink (ws @ u # vs))"
        using list_del_dlist [of "links s" FreeList "map PageLink us" "PageLink b"
            "map PageLink vs"] dl snoc by (simp add: l')
      have g0': "gaps 0 ?pg (ws @ u # b # vs)" using g0 snoc by simp
      have other: "pages s' r = ?pg r" if "q \<in> set ws \<union> set vs" "r \<in> block ?pg q" for q r
      proof -
        have "r \<notin> block ?pg u" "r \<notin> block ?pg b"
          using that g0' by (fastforce simp: gaps_append gaps_Cons block_def)+
        then have "r \<noteq> u" "r \<noteq> b" using upos by (auto simp: block_def)
        then show ?thesis by (simp add: pg')
      qed
      have otherh: "pages s' q = ?pg q" if "q \<in> set ws \<union> set vs" for q
        using that ok [THEN head_ok_pos] snoc by (intro other) (auto simp: block_def)
      have pu: "property (pages s' u) = property (?pg u) + property (?pg b)"
        using ub by (simp add: pg')
      have gws: "gaps c (pages s') ws" using gu otherh snoc
        by (auto simp: gaps_append intro: gaps_cong)
      have gvs: "gaps c (pages s') vs" using gv otherh by (auto intro: gaps_cong)
      have gl: "gaps c (pages s') (ws @ [u])"
        using gws gu snoc otherh by (auto simp: gaps_append gaps_Cons)
      have gr: "\<forall>y \<in> set vs. u + property (pages s' u) \<le> y"
        using g0' True pu by (fastforce simp: gaps_append gaps_Cons)
      have gall: "gaps 0 (pages s') (ws @ u # vs)"
        using gl gvs gr g0' otherh
        by (auto simp: gaps_append gaps_Cons intro: gaps_mono)
      have bu: "block (pages s') u = block ?pg u \<union> block ?pg b"
        using pu True by (auto simp: block_def)
      have okall: "head_ok (pages s') q" if "q \<in> set (ws @ u # vs)" for q
      proof (cases "q = u")
        case False
        then show ?thesis
          using that ok other snoc by (auto intro!: head_ok_cong [of ?pg q "pages s'"])
      next
        case True
        have "head_ok ?pg u" "head_ok ?pg b" using ok snoc by auto
        then show ?thesis
          unfolding True head_ok_def bu
          using ub upos pu by (auto simp: pg')
      qed
      have "(\<Sum>p\<leftarrow>ws. property (pages s' p)) = (\<Sum>p\<leftarrow>ws. property (?pg p))"
        "(\<Sum>p\<leftarrow>vs. property (pages s' p)) = (\<Sum>p\<leftarrow>vs. property (?pg p))"
        using otherh by (intro sum_property_cong; simp)+
      then have nr': "nr_free s' = sum_list (map (\<lambda>p. property (pages s' p)) (ws @ u # vs))"
        using nr n' pu snoc by simp
      have "block (pages s') q = block ?pg q" if "q \<in> set ws \<union> set vs" for q
        using otherh [OF that] by (simp add: block_def)
      then have "free_frames s' (ws @ u # vs) = free_frames s (us @ b # vs)"
        using bu snoc by (auto simp: free_frames_def)
      then show ?thesis
        using dl' gall okall nr' gl gvs n' unfolding b'
        by (intro exI [of _ ws]) (auto simp: free_inv_def)
    qed
  qed
qed

lemma merge_next_inv:
  assumes inv: "free_inv 0 s (us @ b # vs)"
    and gu: "gaps c (pages s) (us @ [b])" and gv: "gaps c (pages s) vs" and c: "c \<le> 1"
  shows "\<exists>xs. free_inv c (merge_next b s) xs \<and>
    free_frames (merge_next b s) xs = free_frames s (us @ b # vs) \<and>
    nr_free (merge_next b s) = nr_free s"
proof -
  let ?pg = "pages s"
  define s' where "s' = merge_next b s"
  have dl: "dlist (links s) FreeList (map PageLink (us @ b # vs))"
    and g0: "gaps 0 ?pg (us @ b # vs)"
    and ok: "\<And>q. q \<in> set (us @ b # vs) \<Longrightarrow> head_ok ?pg q"
    and nr: "nr_free s = sum_list (map (\<lambda>p. property (?pg p)) (us @ b # vs))"
    using inv by (auto simp: free_inv_def)
  have nxt: "list_next (PageLink b) (links s) = hd (map PageLink vs @ [FreeList])"
    using list_next_elem_dlist [of "links s" FreeList "map PageLink us" "PageLink b"
        "map PageLink vs"] dl by simp
  have pos: "0 < property (?pg q)" if "q \<in> set (us @ b # vs)" for q
    using ok [OF that] by (rule head_ok_pos)
  show ?thesis
  proof (cases vs)
    case Nil
    then have "s' = s" using nxt by (simp add: s'_def merge_next_def)
    then show ?thesis
      using Nil inv gu unfolding s'_def [symmetric]
      by (intro exI [of _ "us @ [b]"]) (auto simp: free_inv_def)
  next
    case (Cons v ws)
    have nxt': "list_next (PageLink b) (links s) = PageLink v" using nxt Cons by simp
    show ?thesis
    proof (cases "b + property (?pg b) = v")
      case False
      then have s': "s' = s" using nxt' by (simp add: s'_def merge_next_def)
      have "b + property (?pg b) + 1 \<le> v"
        using False g0 Cons by (auto simp: gaps_append gaps_Cons)
      moreover have "\<forall>y \<in> set ws. v < y"
        using g0 Cons pos [of v] by (fastforce simp: gaps_append gaps_Cons)
      moreover have "\<forall>x \<in> set us. \<forall>y \<in> set vs. x + property (?pg x) + c \<le> y"
        using gu g0 by (fastforce simp: gaps_append gaps_Cons)
      ultimately have "gaps c ?pg (us @ b # vs)"
        using gu gv c Cons by (fastforce simp: gaps_append gaps_Cons)
      then show ?thesis
        using s' inv unfolding s'_def [symmetric]
        by (intro exI [of _ "us @ b # vs"]) (auto simp: free_inv_def)
    next
      case True
      have bv: "b \<noteq> v" using True pos [of b] by auto
      have pg': "pages s' = ?pg(b := (?pg b)\<lparr>property := property (?pg b) + property (?pg v)\<rparr>,
          v := ClearPageProperty (?pg v))"
        and l': "links s' = list_del (PageLink v) (links s)" and n': "nr_free s' = nr_free s"
        using nxt' True bv by (auto simp: s'_def merge_next_def Let_def)
      have dl': "dlist (links s') FreeList (map PageLink (us @ b # ws))"
        using list_del_dlist [of "links s" FreeList "map PageLink (us @ [b])" "PageLink v"
            "map PageLink ws"] dl Cons by (simp add: l')
      have g0': "gaps 0 ?pg (us @ b # v # ws)" using g0 Cons by simp
      have posb: "0 < property (?pg b)" "0 < property (?pg v)" using pos Cons by auto
      have other: "pages s' r = ?pg r" if "q \<in> set us \<union> set ws" "r \<in> block ?pg q" for q r
      proof -
        have "r \<notin> block ?pg b" "r \<notin> block ?pg v"
          using that g0' by (fastforce simp: gaps_append gaps_Cons block_def)+
        then have "r \<noteq> b" "r \<noteq> v" using posb by (auto simp: block_def)
        then show ?thesis by (simp add: pg')
      qed
      have otherh: "pages s' q = ?pg q" if "q \<in> set us \<union> set ws" for q
        using that pos Cons by (intro other) (auto simp: block_def)
      have pb: "property (pages s' b) = property (?pg b) + property (?pg v)"
        using bv by (simp add: pg')
      have gl: "gaps c (pages s') (us @ [b])"
        using gu otherh by (auto simp: gaps_append gaps_Cons intro: gaps_cong)
      have gws: "gaps c (pages s') ws"
        using gv otherh Cons by (auto simp: gaps_Cons intro: gaps_cong)
      have gr: "\<forall>y \<in> set ws. b + property (pages s' b) + c \<le> y"
        using gv True pb Cons by (fastforce simp: gaps_Cons)
      have gur: "\<forall>x \<in> set us. \<forall>y \<in> set ws. x + property (?pg x) + c \<le> y"
        using gu g0' by (fastforce simp: gaps_append gaps_Cons)
      have gall: "gaps c (pages s') (us @ b # ws)"
        using gl gws gr gur otherh by (auto simp: gaps_append gaps_Cons)
      have bb: "block (pages s') b = block ?pg b \<union> block ?pg v"
        using pb True by (auto simp: block_def)
      have okall: "head_ok (pages s') q" if "q \<in> set (us @ b # ws)" for q
      proof (cases "q = b")
        case False
        then show ?thesis
          using that ok other Cons by (auto intro!: head_ok_cong [of ?pg q "pages s'"])
      next
        case True
        have "head_ok ?pg b" "head_ok ?pg v" using ok Cons by auto
        then show ?thesis
          unfolding True head_ok_def bb
          using bv posb pb by (auto simp: pg')
      qed
      have "(\<Sum>p\<leftarrow>us. property (pages s' p)) = (\<Sum>p\<leftarrow>us. property (?pg p))"
        "(\<Sum>p\<leftarrow>ws. property (pages s' p)) = (\<Sum>p\<leftarrow>ws. property (?pg p))"
        using otherh by (intro sum_property_cong; simp)+
      then have nr': "nr_free s' = sum_list (map (\<lambda>p. property (pages s' p)) (us @ b # ws))"
        using nr n' pb Cons by simp
      have "block (pages s') q = block ?pg q" if "q \<in> set us \<union> set ws" for q
        using otherh [OF that] by (simp add: block_def)
      then have "free_frames s' (us @ b # ws) = free_frames s (us @ b # vs)"
        using bb Cons by (auto simp: free_frames_def)
      then show ?thesis
        using dl' gall okall nr' n' unfolding s'_def [symmetric]
        by (intro exI [of _ "us @ b # ws"]) (auto simp: free_inv_def)
    qed
  qed
qed

lemma set_heads_frames:
  assumes "free_inv c s xs" shows "set xs \<subseteq> free_frames s xs"
  using assms by (fastforce simp: free_inv_def free_frames_def block_def head_ok_def)

lemma take_block_frame:
  assumes inv: "free_inv c s (us @ p # vs)" and n: "0 < n" "n \<le> property (pages s p)"
    and q: "q \<notin> free_frames s (us @ p # vs)"
  shows "pages (take_block n p s) q = pages s q"
proof -
  have "q \<noteq> p" "n < property (pages s p) \<longrightarrow> q \<noteq> p + n"
    using q n by (auto simp: free_frames_def block_def)
  then show ?thesis by (simp add: take_block_pages)
qed

lemma take_block_clean:
  assumes inv: "free_inv c s (us @ p # vs)" and n: "0 < n" "n \<le> property (pages s p)"
    and q: "q \<in> {p..<p + n}"
  shows "page_clean (pages (take_block n p s) q)"
proof -
  have "head_ok (pages s) p" using inv by (simp add: free_inv_def)
  then show ?thesis
    using n q by (auto simp: take_block_pages page_clean_def head_ok_def block_def)
qed

lemma merge_prev_frame:
  assumes dl: "dlist (links s) FreeList (map PageLink (us @ b # vs))"
    and res: "merge_prev b s = (b', s')" and q: "q \<notin> set (us @ b # vs)"
  shows "pages s' q = pages s q"
proof -
  have "list_prev (PageLink b) (links s) = last (FreeList # map PageLink us)"
    using list_prev_elem_dlist [of "links s" FreeList "map PageLink us" "PageLink b"
        "map PageLink vs"] dl by simp
  moreover have "us \<noteq> [] \<Longrightarrow> q \<noteq> last us" using q last_in_set by auto
  ultimately show ?thesis
    using res q by (cases us rule: rev_cases) (auto simp: merge_prev_def Let_def split: if_splits)
qed

lemma merge_next_frame:
  assumes dl: "dlist (links s) FreeList (map PageLink (us @ b # vs))"
    and q: "q \<notin> set (us @ b # vs)"
  shows "pages (merge_next b s) q = pages s q"
proof -
  have "list_next (PageLink b) (links s) = hd (map PageLink vs @ [FreeList])"
    using list_next_elem_dlist [of "links s" FreeList "map PageLink us" "PageLink b"
        "map PageLink vs"] dl by simp
  then show ?thesis
    using q by (cases vs) (auto simp: merge_next_def Let_def)
qed

section \<open>Publishing a block as free\<close>

text \<open>\<open>base->property = n; SetPageProperty(base); nr_free += n\<close>.\<close>

definition set_free_head :: "nat \<Rightarrow> nat \<Rightarrow> free_area \<Rightarrow> free_area" where
  "set_free_head base n s =
     (let s1 = upd_page base (\<lambda>pg. SetPageProperty (pg\<lparr>property := n\<rparr>)) s
      in s1\<lparr>nr_free := nr_free s1 + n\<rparr>)"

lemma page_clean_reset:
  "page_clean (pg\<lparr>flags := 0, ref := r\<rparr>)" "page_clean (pg\<lparr>flags := 0, property := k, ref := r\<rparr>)"
  by (simp_all add: page_clean_def PageReserved_def PageProperty_def)

text \<open>The block does not go behind every free block, unless there is none.\<close>

definition not_at_end :: "nat set \<Rightarrow> nat \<Rightarrow> bool" where
  "not_at_end F base \<longleftrightarrow> F = {} \<or> (\<exists>f \<in> F. base < f)"

lemma not_at_end_heads:
  assumes inv: "free_inv c s xs" and dis: "base \<notin> free_frames s xs"
    and at: "not_at_end (free_frames s xs) base"
  shows "xs = [] \<or> (\<exists>v \<in> set xs. base < v)"
proof (cases "xs = []")
  case False
  then have "hd xs \<in> free_frames s xs"
    using inv by (cases xs) (auto simp: free_frames_def free_inv_def block_def dest: head_ok_pos)
  with at obtain f where "f \<in> free_frames s xs" "base < f"
    by (auto simp: not_at_end_def)
  then obtain v where "v \<in> set xs" "f \<in> block (pages s) v" by (auto simp: free_frames_def)
  then show ?thesis
    using dis \<open>base < f\<close> by (fastforce simp: free_frames_def block_def)
qed simp

lemma insert_inv:
  assumes inv: "free_inv c s xs" and n: "0 < n"
    and dis: "{base..<base + n} \<inter> free_frames s xs = {}"
    and at: "not_at_end (free_frames s xs) base"
    and pg_out: "\<And>q. q \<notin> {base..<base + n} \<Longrightarrow> pg' q = pages s q"
    and pg_in: "\<And>q. q \<in> {base..<base + n} \<Longrightarrow> page_clean (pg' q)"
  defines "s1 \<equiv> set_free_head base n (s\<lparr>pages := pg'\<rparr>)"
    and "us \<equiv> takeWhile (\<lambda>v. v < base) xs" and "vs \<equiv> dropWhile (\<lambda>v. v < base) xs"
  shows "\<exists>h'. insert_block base (links s1) = Some h' \<and> free_inv 0 (s1\<lparr>links := h'\<rparr>) (us @ base # vs) \<and>
    gaps c (pages s1) us \<and> gaps c (pages s1) vs \<and>
    free_frames (s1\<lparr>links := h'\<rparr>) (us @ base # vs) = free_frames s xs \<union> {base..<base + n} \<and>
    nr_free s1 = nr_free s + n"
proof -
  let ?pg = "pages s" and ?pg1 = "pages s1"
  have xs: "xs = us @ vs" by (simp add: us_def vs_def)
  have dl: "dlist (links s) FreeList (map PageLink xs)"
    and g: "gaps c ?pg xs" and ok: "\<And>q. q \<in> set xs \<Longrightarrow> head_ok ?pg q"
    and nr: "nr_free s = sum_list (map (\<lambda>p. property (?pg p)) xs)"
    using inv by (auto simp: free_inv_def)
  have b: "base \<in> {base..<base + n}" using n by simp
  have notin: "base \<notin> set xs"
    using dis b ok by (fastforce simp: free_frames_def block_def dest: head_ok_pos)
  have bn: "base \<notin> free_frames s xs" using dis b by blast
  have pg1: "?pg1 = pg'(base := SetPageProperty ((pg' base)\<lparr>property := n\<rparr>))"
    and l1: "links s1 = links s" and n1: "nr_free s1 = nr_free s + n"
    by (simp_all add: s1_def set_free_head_def Let_def)
  obtain h' where h': "insert_block base (links s1) = Some h'"
    and dl': "dlist h' FreeList (map PageLink (us @ base # vs))"
    using insert_block_sorted [OF dl notin not_at_end_heads [OF inv bn at]]
    unfolding l1 us_def vs_def by blast
  have same: "?pg1 r = ?pg r" if "q \<in> set xs" "r \<in> block ?pg q" for q r
  proof -
    have "r \<in> free_frames s xs" using that by (auto simp: free_frames_def)
    then have "r \<notin> {base..<base + n}" using dis by blast
    then show ?thesis using pg_out [of r] b by (auto simp: pg1)
  qed
  have sameh: "?pg1 q = ?pg q" if "q \<in> set xs" for q
    using that ok [THEN head_ok_pos] by (intro same) (auto simp: block_def)
  have pb: "property (?pg1 base) = n" by (simp add: pg1)
  have gus: "gaps c ?pg1 us" and gvs: "gaps c ?pg1 vs"
    using g sameh unfolding xs by (auto simp: gaps_append intro: gaps_cong)
  have us_lt: "u + property (?pg u) \<le> base" if "u \<in> set us" for u
  proof -
    have "u < base" using that by (auto simp: us_def dest: set_takeWhileD)
    moreover have "base \<notin> block ?pg u"
      using that bn by (auto simp: free_frames_def xs)
    ultimately show ?thesis by (auto simp: block_def)
  qed
  have vs_gt: "base + n \<le> v" if v: "v \<in> set vs" for v
  proof -
    obtain w ws where vw: "vs = w # ws" using v by (cases vs) auto
    have "\<not> w < base" using vw vs_def by (metis dropWhile_eq_Cons_conv)
    moreover have "w \<le> v" using g v unfolding xs vw by (auto simp: gaps_append gaps_Cons)
    ultimately have "base \<le> v" by simp
    moreover have "v \<notin> {base..<base + n}"
      using dis v ok [of v] by (fastforce simp: xs free_frames_def block_def dest: head_ok_pos)
    ultimately show ?thesis by simp
  qed
  have gall: "gaps 0 ?pg1 (us @ base # vs)"
    using gus gvs us_lt vs_gt sameh pb g unfolding xs
    by (fastforce simp: gaps_append gaps_Cons intro: gaps_mono)
  have okall: "head_ok ?pg1 q" if "q \<in> set (us @ base # vs)" for q
  proof (cases "q = base")
    case False
    with that have "q \<in> set xs" by (auto simp: xs)
    then show ?thesis using ok same by (auto intro!: head_ok_cong [of ?pg q ?pg1])
  next
    case True
    then show ?thesis
      using n pg_in unfolding head_ok_def block_def
      by (auto simp: pg1 page_clean_def)
  qed
  have "(\<Sum>p\<leftarrow>us. property (?pg1 p)) = (\<Sum>p\<leftarrow>us. property (?pg p))"
    "(\<Sum>p\<leftarrow>vs. property (?pg1 p)) = (\<Sum>p\<leftarrow>vs. property (?pg p))"
    using sameh by (intro sum_property_cong; simp add: xs)+
  then have nr': "nr_free s1 = sum_list (map (\<lambda>p. property (?pg1 p)) (us @ base # vs))"
    using nr n1 pb by (simp add: xs)
  have "block ?pg1 q = block ?pg q" if "q \<in> set xs" for q
    using sameh [OF that] by (simp add: block_def)
  then have "free_frames (s1\<lparr>links := h'\<rparr>) (us @ base # vs) = free_frames s xs \<union> {base..<base + n}"
    using pb by (auto simp: free_frames_def xs) (auto simp: block_def)
  then show ?thesis
    using h' dl' gall okall nr' gus gvs n1 by (auto simp: free_inv_def)
qed

lemma set_free_head_frame [simp]: "q \<noteq> base \<Longrightarrow> pages (set_free_head base n s) q = pages s q"
  by (simp add: set_free_head_def Let_def)

section \<open>A small concrete free area\<close>

text \<open>Pages 2 to 9 form one free block; pages 0 and 1 are allocated,
  and all other pages are reserved. Used by the witnesses.\<close>

definition demo_area :: free_area where
  "demo_area = \<lparr>pages = (\<lambda>p. if p = 2 then \<lparr>ref = 0, flags = 2, property = 8\<rparr>
       else if p \<in> {3..<10} then \<lparr>ref = 0, flags = 0, property = 0\<rparr>
       else if p < 2 then \<lparr>ref = 1, flags = 0, property = 0\<rparr>
       else \<lparr>ref = 0, flags = 1, property = 0\<rparr>),
     links = \<lparr>lprev = (\<lambda>e. if e = FreeList then PageLink 2 else FreeList),
              lnext = (\<lambda>e. if e = FreeList then PageLink 2 else FreeList)\<rparr>,
     nr_free = 8\<rparr>"

lemma demo_area_inv: "free_inv 1 demo_area [2]"
  by (auto simp: demo_area_def free_inv_def dlist_def gaps_Cons head_ok_def block_def
      PageProperty_def PageReserved_def PG_property_def PG_reserved_def bit_simps split: if_splits)

lemma demo_area_frames: "free_frames demo_area [2] = {2..<10}"
  by (simp add: free_frames_def block_def demo_area_def)

end
