(* ===== verification/PmmManager.thy ===== *)
theory PmmManager
  imports PageAlloc
begin

text \<open>
  The interface \<open>struct pmm_manager\<close> (\<open>kern/mm/pmm.h\<close>): the three operations the rest of the
  kernel calls through function pointers, with the laws a manager promises about the set of free
  page frames, and what a client can conclude from these laws alone: two live allocations never
  overlap, and freeing what was allocated restores the free set. The first-fit and best-fit managers
  interpret it in their own theories.
\<close>

section \<open>The laws of a page manager\<close>

definition releasable :: "free_area \<Rightarrow> nat set \<Rightarrow> nat \<Rightarrow> nat \<Rightarrow> bool" where
  "releasable s F base n \<longleftrightarrow> 0 < n \<and> {base..<base + n} \<inter> F = {} \<and>
     (\<forall>q \<in> {base..<base + n}. page_clean (pages s q)) \<and> not_at_end F base"

text \<open>
  The steps both \<open>default_free_pages\<close> and \<open>best_fit_free_pages\<close> make with a releasable block: the
  descriptors are reset, the block is published and inserted, and merged with its neighbours.
\<close>

lemma release_inv:
  assumes inv: "free_inv c s xs" and c: "c \<le> 1" and rel: "releasable s (free_frames s xs) base n"
  shows "\<exists>pg h b' s3 xs'. reset_allocated base n (pages s) = Some pg \<and>
    insert_block base (links (set_free_head base n (s\<lparr>pages := pg\<rparr>))) = Some h \<and>
    merge_prev base (set_free_head base n (s\<lparr>pages := pg\<rparr>)\<lparr>links := h\<rparr>) = (b', s3) \<and>
    free_inv c (merge_next b' s3) xs' \<and>
    free_frames (merge_next b' s3) xs' = free_frames s xs \<union> {base..<base + n} \<and>
    nr_free (merge_next b' s3) = nr_free s + n \<and>
    (\<forall>q. q \<notin> free_frames s xs \<union> {base..<base + n} \<longrightarrow>
      pages (merge_next b' s3) q = pages s q)"
proof -
  have n: "0 < n" and dis: "{base..<base + n} \<inter> free_frames s xs = {}"
    and clean: "\<forall>q \<in> {base..<base + n}. page_clean (pages s q)"
    and at: "not_at_end (free_frames s xs) base"
    using rel by (auto simp: releasable_def)
  define pg where "pg = (\<lambda>q. if q \<in> {base..<base + n} then (pages s q)\<lparr>flags := 0, ref := 0\<rparr>
    else pages s q)"
  have pgS: "reset_allocated base n (pages s) = Some pg"
    unfolding pg_def using clean by (intro reset_allocated_Some) (auto simp: page_clean_def)
  have out: "\<And>q. q \<notin> {base..<base + n} \<Longrightarrow> pg q = pages s q" unfolding pg_def by (simp only: if_False)
  have cln: "\<And>q. q \<in> {base..<base + n} \<Longrightarrow> page_clean (pg q)"
    unfolding pg_def by (simp only: if_True page_clean_reset)
  let ?s1 = "set_free_head base n (s\<lparr>pages := pg\<rparr>)"
  let ?us = "takeWhile (\<lambda>v. v < base) xs" and ?vs = "dropWhile (\<lambda>v. v < base) xs"
  obtain h where h: "insert_block base (links ?s1) = Some h"
    and i2: "free_inv 0 (?s1\<lparr>links := h\<rparr>) (?us @ base # ?vs)"
    and g2: "gaps c (pages ?s1) ?us" "gaps c (pages ?s1) ?vs"
    and f2: "free_frames (?s1\<lparr>links := h\<rparr>) (?us @ base # ?vs) =
      free_frames s xs \<union> {base..<base + n}"
    and nr2: "nr_free ?s1 = nr_free s + n"
    using insert_inv [OF inv n dis at out cln] by blast
  obtain b' s3 where m: "merge_prev base (?s1\<lparr>links := h\<rparr>) = (b', s3)" by force
  from merge_prev_inv [OF i2 _ _ c m] g2 obtain us' where
    i3: "free_inv 0 s3 (us' @ b' # ?vs)" and g3: "gaps c (pages s3) (us' @ [b'])"
      "gaps c (pages s3) ?vs"
    and f3: "free_frames s3 (us' @ b' # ?vs) = free_frames s xs \<union> {base..<base + n}"
    and nr3: "nr_free s3 = nr_free s + n"
    using f2 nr2 by auto
  from merge_next_inv [OF i3 g3 c] obtain xs' where
    i4: "free_inv c (merge_next b' s3) xs'"
    and f4: "free_frames (merge_next b' s3) xs' = free_frames s xs \<union> {base..<base + n}"
    and nr4: "nr_free (merge_next b' s3) = nr_free s + n"
    using f3 nr3 by auto
  have frame: "pages (merge_next b' s3) q = pages s q"
    if q: "q \<notin> free_frames s xs \<union> {base..<base + n}" for q
  proof -
    have q2: "q \<notin> set (?us @ base # ?vs)" using set_heads_frames [OF i2] f2 q by blast
    have q3: "q \<notin> set (us' @ b' # ?vs)" using set_heads_frames [OF i3] f3 q by blast
    have "pages (merge_next b' s3) q = pages s3 q"
      using i3 q3 by (intro merge_next_frame) (auto simp: free_inv_def)
    also have "\<dots> = pages (?s1\<lparr>links := h\<rparr>) q"
      using i2 q2 m by (intro merge_prev_frame) (auto simp: free_inv_def)
    also have "\<dots> = pages s q" using q q2 out [of q] by simp
    finally show ?thesis .
  qed
  show ?thesis using pgS h m i4 f4 nr4 frame by blast
qed

text \<open>Reference counts: only the pages that are freed lose theirs.\<close>

lemma ref_take_block: "ref (pages (take_block n p s) q) = ref (pages s q)"
  by (simp add: take_block_def Let_def upd_page_def ClearPageProperty_def SetPageProperty_def)

lemma ref_set_free_head: "ref (pages (set_free_head b n s) q) = ref (pages s q)"
  by (simp add: set_free_head_def Let_def upd_page_def SetPageProperty_def)

lemma ref_merge_prev: "merge_prev b s = (b', s') \<Longrightarrow> ref (pages s' q) = ref (pages s q)"
  by (auto simp: merge_prev_def Let_def upd_page_def ClearPageProperty_def split: if_splits)

lemma ref_merge_next: "ref (pages (merge_next b s) q) = ref (pages s q)"
  by (simp add: merge_next_def Let_def upd_page_def ClearPageProperty_def)

lemma ref_reset_allocated:
  "reset_allocated p k pg = Some pg' \<Longrightarrow> ref (pg' q) = (if q \<in> {p..<p + k} then 0 else ref (pg q))"
  by (induction k arbitrary: p pg) (auto split: if_splits)

text \<open>The state holds an intact, coalesced free list whose blocks are exactly the frames \<open>F\<close>.\<close>

definition pmm_inv :: "free_area \<Rightarrow> nat set \<Rightarrow> bool" where
  "pmm_inv s F \<longleftrightarrow> (\<exists>xs. free_inv 1 s xs \<and> F = free_frames s xs)"

lemma pmm_inv_cong:
  assumes "pmm_inv s F" and "links s' = links s" and "nr_free s' = nr_free s"
    and "\<forall>q \<in> F. pages s' q = pages s q"
  shows "pmm_inv s' F"
proof -
  from assms(1) obtain xs where xs: "free_inv 1 s xs" "F = free_frames s xs" by (auto simp: pmm_inv_def)
  have h: "p \<in> F" if p: "p \<in> set xs" for p
  proof -
    have "p \<in> block (pages s) p" using xs(1) p by (simp add: free_inv_def head_ok_def block_def)
    then show ?thesis using p unfolding xs(2) free_frames_def by blast
  qed
  have pr: "property (pages s' p) = property (pages s p)" if "p \<in> set xs" for p
    using assms(4) h [OF that] by simp
  have b: "block (pages s') p = block (pages s) p" if "p \<in> set xs" for p
    using pr [OF that] by (simp add: block_def)
  have bF: "block (pages s) p \<subseteq> F" if "p \<in> set xs" for p
    using xs(2) that by (auto simp: free_frames_def)
  have "head_ok (pages s') p" if p: "p \<in> set xs" for p
  proof -
    have "head_ok (pages s) p" using xs(1) p by (simp add: free_inv_def)
    moreover have "pages s' q = pages s q" if "q \<in> block (pages s) p" for q
      using assms(4) bF [OF p] that by blast
    ultimately show ?thesis using assms(4) h [OF p] b [OF p] unfolding head_ok_def by simp
  qed
  moreover have "(\<Sum>p\<leftarrow>xs. property (pages s p)) = (\<Sum>p\<leftarrow>xs. property (pages s' p))"
    using pr by (simp cong: map_cong)
  moreover have "gaps 1 (pages s') xs"
    using xs(1) gaps_cong [of 1 "pages s" xs "pages s'"] pr by (simp add: free_inv_def)
  ultimately have "free_inv 1 s' xs"
    using xs(1) assms(2,3) by (simp add: free_inv_def cong: map_cong)
  moreover have "free_frames s' xs = F" using xs(2) b by (simp add: free_frames_def)
  ultimately show ?thesis by (auto simp: pmm_inv_def)
qed

text \<open>As the blocks are coalesced, frames that are free one after the other lie in one block.\<close>

lemma gaps_pair:
  assumes "gaps c pg xs" and "p \<in> set xs" and "q \<in> set xs" and "p \<noteq> q"
  shows "p + property (pg p) + c \<le> q \<or> q + property (pg q) + c \<le> p"
proof -
  obtain us vs where "xs = us @ p # vs" using assms(2) by (meson split_list)
  then show ?thesis using assms by (auto simp: gaps_append gaps_Cons)
qed

lemma pmm_inv_block:
  assumes "pmm_inv s F" and "0 < n" and "{q..<q + n} \<subseteq> F"
  shows "\<exists>xs. free_inv 1 s xs \<and> (\<exists>p \<in> set xs. n \<le> property (pages s p))"
proof -
  from assms obtain xs where xs: "free_inv 1 s xs" "F = free_frames s xs" by (auto simp: pmm_inv_def)
  have g: "gaps 1 (pages s) xs" using xs(1) by (simp add: free_inv_def)
  have in_block: "\<exists>p \<in> set xs. p \<le> x \<and> x < p + property (pages s p)" if "x \<in> {q..<q + n}" for x
    using that assms(3) xs(2) by (force simp: free_frames_def block_def)
  obtain p where p: "p \<in> set xs" "p \<le> q" "q < p + property (pages s p)" using in_block [of q] assms(2) by auto
  have "q + n \<le> p + property (pages s p)"
  proof (rule ccontr)
    let ?e = "p + property (pages s p)"
    assume "\<not> q + n \<le> ?e"
    then obtain p' where p': "p' \<in> set xs" "p' \<le> ?e" "?e < p' + property (pages s p')" using in_block [of ?e] p(3) by auto
    then show False using gaps_pair [OF g p(1) p'(1)] by (cases "p' = p") auto
  qed
  then have "n \<le> property (pages s p)" using p(2) by simp
  then show ?thesis using xs(1) p(1) by blast
qed

locale pmm_manager =
  fixes alloc :: "nat \<Rightarrow> free_area \<Rightarrow> (nat option \<times> free_area) option"
    and free :: "nat \<Rightarrow> nat \<Rightarrow> free_area \<Rightarrow> free_area option"
    and nr_free_pages :: "free_area \<Rightarrow> nat"
    and inv :: "free_area \<Rightarrow> nat set \<Rightarrow> bool"
  assumes alloc_returns: "inv s F \<Longrightarrow> 0 < n \<Longrightarrow> \<exists>r s'. alloc n s = Some (r, s')"
    and alloc_null: "alloc n s = Some (None, s') \<Longrightarrow> s' = s"
    and alloc_some: "inv s F \<Longrightarrow> alloc n s = Some (Some p, s') \<Longrightarrow>
      {p..<p + n} \<subseteq> F \<and> inv s' (F - {p..<p + n})"
    and alloc_clean: "inv s F \<Longrightarrow> alloc n s = Some (Some p, s') \<Longrightarrow>
      (\<forall>q \<in> {p..<p + n}. page_clean (pages s' q)) \<and> (\<forall>q. q \<notin> F \<longrightarrow> pages s' q = pages s q)"
    and alloc_pos: "alloc n s = Some (r, s') \<Longrightarrow> 0 < n"
    and free_returns: "inv s F \<Longrightarrow> releasable s F base n \<Longrightarrow>
      \<exists>s'. free base n s = Some s' \<and> inv s' (F \<union> {base..<base + n}) \<and>
        (\<forall>q. q \<notin> F \<union> {base..<base + n} \<longrightarrow> pages s' q = pages s q)"
    and alloc_fits: "inv s F \<Longrightarrow> {q..<q + n} \<subseteq> F \<Longrightarrow> alloc n s = Some (r, s') \<Longrightarrow> r \<noteq> None"
    and alloc_ref: "alloc n s = Some (r, s') \<Longrightarrow> ref (pages s' q) = ref (pages s q)"
    and free_ref: "free base n s = Some s' \<Longrightarrow>
      ref (pages s' q) = (if q \<in> {base..<base + n} then 0 else ref (pages s q))"
    and inv_cong: "inv s F \<Longrightarrow> links s' = links s \<Longrightarrow> nr_free s' = nr_free s \<Longrightarrow>
      \<forall>q \<in> F. pages s' q = pages s q \<Longrightarrow> inv s' F"
    and nr_free_card: "inv s F \<Longrightarrow> nr_free_pages s = card F"
begin

text \<open>A single page is handed out as long as one is free.\<close>

lemma alloc_one: "inv s F \<Longrightarrow> F \<noteq> {} \<Longrightarrow> alloc 1 s = Some (r, s') \<Longrightarrow> r \<noteq> None"
proof -
  assume a: "inv s F" "F \<noteq> {}" "alloc 1 s = Some (r, s')"
  then obtain q where "q \<in> F" by blast
  then have "{q..<q + 1} \<subseteq> F" by auto
  then show ?thesis using alloc_fits a by blast
qed

text \<open>Two allocations in a row give disjoint blocks.\<close>

lemma alloc_alloc_disjoint:
  assumes "inv s F" and "alloc n s = Some (Some p, s1)" and "alloc m s1 = Some (Some q, s2)"
  shows "{p..<p + n} \<inter> {q..<q + m} = {}"
  using alloc_some [OF assms(1,2)] alloc_some [of s1 "F - {p..<p + n}" m q s2] assms(3) by blast

text \<open>Freeing an allocated block gives back the free set and the number of free pages.\<close>

lemma alloc_free_restores:
  assumes "inv s F" and "alloc n s = Some (Some p, s1)" and "not_at_end (F - {p..<p + n}) p"
  shows "\<exists>s2. free p n s1 = Some s2 \<and> inv s2 F \<and> nr_free_pages s2 = nr_free_pages s"
proof -
  have sub: "{p..<p + n} \<subseteq> F" and inv1: "inv s1 (F - {p..<p + n})"
    using alloc_some [OF assms(1,2)] by auto
  have "releasable s1 (F - {p..<p + n}) p n"
    using alloc_clean [OF assms(1,2)] alloc_pos [OF assms(2)] assms(3)
    by (auto simp: releasable_def)
  from free_returns [OF inv1 this] obtain s2 where "free p n s1 = Some s2"
    and "inv s2 (F - {p..<p + n} \<union> {p..<p + n})" by auto
  moreover have "F - {p..<p + n} \<union> {p..<p + n} = F" using sub by auto
  ultimately show ?thesis using nr_free_card assms(1) by auto
qed

end

text \<open>
  Any number of clients that allocate and free in any order. \<open>live\<close> is the ledger of the blocks
  handed out and not yet returned.
\<close>

inductive client_run ::
  "(nat \<Rightarrow> free_area \<Rightarrow> (nat option \<times> free_area) option) \<Rightarrow>
   (nat \<Rightarrow> nat \<Rightarrow> free_area \<Rightarrow> free_area option) \<Rightarrow>
   free_area \<Rightarrow> nat set \<Rightarrow> free_area \<Rightarrow> nat set \<Rightarrow> (nat \<times> nat) set \<Rightarrow> bool"
  for alloc free s0 F0 where
  start: "client_run alloc free s0 F0 s0 F0 {}"
| alloc: "client_run alloc free s0 F0 s F live \<Longrightarrow> alloc n s = Some (Some p, s') \<Longrightarrow>
    client_run alloc free s0 F0 s' (F - {p..<p + n}) (insert (p, n) live)"
| fail: "client_run alloc free s0 F0 s F live \<Longrightarrow> alloc n s = Some (None, s') \<Longrightarrow>
    client_run alloc free s0 F0 s' F live"
| free: "client_run alloc free s0 F0 s F live \<Longrightarrow> (p, n) \<in> live \<Longrightarrow> not_at_end F p \<Longrightarrow>
    free p n s = Some s' \<Longrightarrow>
    client_run alloc free s0 F0 s' (F \<union> {p..<p + n}) (live - {(p, n)})"

definition frames_of :: "nat \<times> nat \<Rightarrow> nat set" where
  "frames_of b = {fst b..<fst b + snd b}"

definition ledger_ok :: "free_area \<Rightarrow> nat set \<Rightarrow> (nat \<times> nat) set \<Rightarrow> bool" where
  "ledger_ok s F live \<longleftrightarrow>
     (\<forall>b \<in> live. 0 < snd b \<and> frames_of b \<inter> F = {} \<and> (\<forall>q \<in> frames_of b. page_clean (pages s q))) \<and>
     (\<forall>b \<in> live. \<forall>c \<in> live. b \<noteq> c \<longrightarrow> frames_of b \<inter> frames_of c = {})"

context pmm_manager
begin

lemma client_run_ledger:
  assumes "client_run alloc free s0 F0 s F live" and "inv s0 F0"
  shows "inv s F \<and> ledger_ok s F live"
  using assms(1)
proof (induction rule: client_run.induct)
  case start
  then show ?case using assms(2) by (simp add: ledger_ok_def)
next
  case (alloc s F live n p s')
  then have inv: "inv s F" and led: "ledger_ok s F live" by auto
  have sub: "{p..<p + n} \<subseteq> F" and inv': "inv s' (F - {p..<p + n})"
    using alloc_some [OF inv alloc.hyps(2)] by auto
  have clean: "\<forall>q \<in> {p..<p + n}. page_clean (pages s' q)"
    and frame: "\<And>q. q \<notin> F \<Longrightarrow> pages s' q = pages s q"
    using alloc_clean [OF inv alloc.hyps(2)] by auto
  have "0 < n" by (rule alloc_pos [OF alloc.hyps(2)])
  moreover have old: "page_clean (pages s' q)" if "b \<in> live" "q \<in> frames_of b" for b q
  proof -
    have "q \<notin> F" using led that by (auto simp: ledger_ok_def)
    then show ?thesis using led that frame by (auto simp: ledger_ok_def)
  qed
  moreover have "frames_of b \<inter> {p..<p + n} = {}" if "b \<in> live" for b
    using led that sub by (auto simp: ledger_ok_def)
  ultimately have "ledger_ok s' (F - {p..<p + n}) (insert (p, n) live)"
    using led clean by (fastforce simp: ledger_ok_def frames_of_def)
  then show ?case using inv' by simp
next
  case (fail s F live n s')
  then show ?case using alloc_null by blast
next
  case (free s F live p n s')
  then have inv: "inv s F" and led: "ledger_ok s F live" by auto
  have b: "0 < n" "{p..<p + n} \<inter> F = {}" "\<forall>q \<in> {p..<p + n}. page_clean (pages s q)"
    using led free.hyps(2) by (auto simp: ledger_ok_def frames_of_def dest!: bspec)
  then have "releasable s F p n" using free.hyps(3) by (simp add: releasable_def)
  from free_returns [OF inv this] free.hyps(4)
  have inv': "inv s' (F \<union> {p..<p + n})"
    and frame: "\<And>q. q \<notin> F \<union> {p..<p + n} \<Longrightarrow> pages s' q = pages s q" by auto
  have dis: "frames_of b \<inter> {p..<p + n} = {}" if "b \<in> live - {(p, n)}" for b
    using led that free.hyps(2) by (fastforce simp: ledger_ok_def frames_of_def)
  have "ledger_ok s' (F \<union> {p..<p + n}) (live - {(p, n)})"
    unfolding ledger_ok_def
  proof (intro conjI ballI impI)
    fix b assume bl: "b \<in> live - {(p, n)}"
    then show "0 < snd b" using led by (auto simp: ledger_ok_def)
    show fr: "frames_of b \<inter> (F \<union> {p..<p + n}) = {}"
      using led bl dis [OF bl] by (auto simp: ledger_ok_def)
    fix q assume q: "q \<in> frames_of b"
    then have "q \<notin> F \<union> {p..<p + n}" using fr by auto
    then show "page_clean (pages s' q)" using frame led bl q by (auto simp: ledger_ok_def)
  next
    fix b c assume "b \<in> live - {(p, n)}" "c \<in> live - {(p, n)}" "b \<noteq> c"
    then show "frames_of b \<inter> frames_of c = {}" using led by (auto simp: ledger_ok_def)
  qed
  then show ?case using inv' by simp
qed

lemma client_run_no_overlap:
  assumes "client_run alloc free s0 F0 s F live" and "inv s0 F0"
    and "b \<in> live" and "c \<in> live" and "b \<noteq> c"
  shows "frames_of b \<inter> frames_of c = {}"
  using client_run_ledger [OF assms(1,2)] assms(3-5) by (auto simp: ledger_ok_def)

end

end
