(* ===== verification/FirstFit.thy ===== *)
theory FirstFit
  imports PmmManager
begin

text \<open>
  The first-fit manager of \<open>kern/mm/default_pmm.c\<close>: its operations on the pointer-level free list,
  their functional correctness, the interpretation of the manager interface, and the failure of the
  insertion loop for a block behind all free blocks.
\<close>

section \<open>The operations\<close>

definition default_init :: "free_area \<Rightarrow> free_area" where
  "default_init s = s\<lparr>links := list_init FreeList (links s), nr_free := 0\<rparr>"

definition default_init_memmap :: "nat \<Rightarrow> nat \<Rightarrow> free_area \<Rightarrow> free_area option" where
  "default_init_memmap base n s = do {
     c_assert (n > 0);
     pg \<leftarrow> reset_reserved base n (pages s);
     let s1 = set_free_head base n (s\<lparr>pages := pg\<rparr>);
     h \<leftarrow> insert_block base (links s1);
     Some (s1\<lparr>links := h\<rparr>)
   }"

text \<open>The search loop: the first block with at least \<open>n\<close> pages.\<close>

partial_function (option) ff_search :: "nat \<Rightarrow> le \<Rightarrow> free_area \<Rightarrow> nat option option" where
  "ff_search n le s =
     (let le' = list_next le (links s) in
      if le' = FreeList then Some None
      else if property (pages s (le2page le')) \<ge> n then Some (Some (le2page le'))
      else ff_search n le' s)"

declare ff_search.simps [code]

definition default_alloc_pages :: "nat \<Rightarrow> free_area \<Rightarrow> (nat option \<times> free_area) option" where
  "default_alloc_pages n s = do {
     c_assert (n > 0);
     if n > nr_free s then Some (None, s)
     else do {
       page \<leftarrow> ff_search n FreeList s;
       (case page of
          None \<Rightarrow> Some (None, s)
        | Some p \<Rightarrow> Some (Some p, take_block n p s))
     }
   }"

definition default_free_pages :: "nat \<Rightarrow> nat \<Rightarrow> free_area \<Rightarrow> free_area option" where
  "default_free_pages base n s = do {
     c_assert (n > 0);
     pg \<leftarrow> reset_allocated base n (pages s);
     let s1 = set_free_head base n (s\<lparr>pages := pg\<rparr>);
     h \<leftarrow> insert_block base (links s1);
     let s2 = s1\<lparr>links := h\<rparr>;
     let (base', s3) = merge_prev base s2;
     Some (merge_next base' s3)
   }"

definition default_nr_free_pages :: "free_area \<Rightarrow> nat" where
  "default_nr_free_pages s = nr_free s"

section \<open>Functional correctness\<close>

lemma ff_search_from:
  assumes "dlist (links s) FreeList (map PageLink (us @ vs))"
  shows "ff_search n (last (FreeList # map PageLink us)) s =
    Some (find (\<lambda>p. n \<le> property (pages s p)) vs)"
  using assms
proof (induction vs arbitrary: us)
  case Nil
  have "list_next (last (FreeList # map PageLink us)) (links s) = FreeList"
  proof (cases us rule: rev_cases)
    case (snoc us' u)
    then show ?thesis
      using Nil list_next_elem_dlist [of "links s" FreeList "map PageLink us'" "PageLink u" "[]"]
      by simp
  qed (use Nil in \<open>simp add: list_next_head_dlist\<close>)
  then show ?case by (subst ff_search.simps) simp
next
  case (Cons v vs)
  have "list_next (last (FreeList # map PageLink us)) (links s) = PageLink v"
  proof (cases us rule: rev_cases)
    case (snoc us' u)
    then show ?thesis
      using Cons.prems list_next_elem_dlist [of "links s" FreeList "map PageLink us'" "PageLink u"]
      by simp
  qed (use Cons.prems in \<open>simp add: list_next_head_dlist\<close>)
  then show ?case
    using Cons.IH [of "us @ [v]"] Cons.prems
    by (subst ff_search.simps) (simp add: Let_def)
qed

lemma ff_search_find:
  assumes "free_inv c s xs"
  shows "ff_search n FreeList s = Some (find (\<lambda>p. n \<le> property (pages s p)) xs)"
  using ff_search_from [of s "[]" xs n] assms by (simp add: free_inv_def)

text \<open>
  \<open>default_alloc_pages\<close> returns the first block with room, shrunk from the front, and \<open>NULL\<close> with
  nothing changed when there is none.
\<close>

lemma default_alloc_pages_Some:
  assumes inv: "free_inv c s (us @ p # vs)" and n: "0 < n" "n \<le> property (pages s p)"
    and first: "\<forall>q \<in> set us. property (pages s q) < n"
  shows "default_alloc_pages n s = Some (Some p, take_block n p s)"
proof -
  have "property (pages s p) \<le> nr_free s" using inv by (simp add: free_inv_def)
  moreover have "find (\<lambda>p. n \<le> property (pages s p)) (us @ p # vs) = Some p"
    using first n by (induction us) (auto simp: not_le)
  ultimately show ?thesis
    using n ff_search_find [OF inv, of n] by (simp add: default_alloc_pages_def)
qed

lemma default_alloc_pages_None:
  assumes inv: "free_inv c s xs" and n: "0 < n"
    and none: "\<forall>q \<in> set xs. property (pages s q) < n"
  shows "default_alloc_pages n s = Some (None, s)"
proof -
  have "find (\<lambda>p. n \<le> property (pages s p)) xs = None"
    using none by (auto simp: find_None_iff not_le)
  then show ?thesis using n ff_search_find [OF inv, of n] by (simp add: default_alloc_pages_def)
qed

lemma default_alloc_pages_cases:
  assumes inv: "free_inv c s xs" and n: "0 < n"
  obtains (fail) "\<forall>q \<in> set xs. property (pages s q) < n" "default_alloc_pages n s = Some (None, s)"
  | (found) us p vs where "xs = us @ p # vs" "n \<le> property (pages s p)"
      "\<forall>q \<in> set us. property (pages s q) < n"
      "default_alloc_pages n s = Some (Some p, take_block n p s)"
proof (cases "\<forall>q \<in> set xs. property (pages s q) < n")
  case True
  then show ?thesis using fail default_alloc_pages_None [OF inv n] by blast
next
  case False
  then have "\<exists>q \<in> set xs. n \<le> property (pages s q)" by (auto simp: not_less)
  then obtain us p vs where "xs = us @ p # vs" "n \<le> property (pages s p)"
    "\<forall>q \<in> set us. \<not> n \<le> property (pages s q)"
    using split_list_first_prop [of xs "\<lambda>q. n \<le> property (pages s q)"] by auto
  then show ?thesis using found default_alloc_pages_Some inv n by (metis not_le)
qed

lemma default_init_memmap_inv:
  assumes inv: "free_inv 0 s xs" and n: "0 < n"
    and res: "\<forall>q \<in> {base..<base + n}. PageReserved (pages s q)"
    and at: "not_at_end (free_frames s xs) base"
  shows "\<exists>s' xs'. default_init_memmap base n s = Some s' \<and> free_inv 0 s' xs' \<and>
    free_frames s' xs' = free_frames s xs \<union> {base..<base + n} \<and> nr_free s' = nr_free s + n"
proof -
  have dis: "{base..<base + n} \<inter> free_frames s xs = {}"
    using inv res by (fastforce simp: free_inv_def free_frames_def head_ok_def)
  define pg where "pg = (\<lambda>q. if q \<in> {base..<base + n}
    then (pages s q)\<lparr>flags := 0, property := 0, ref := 0\<rparr> else pages s q)"
  have pgS: "reset_reserved base n (pages s) = Some pg"
    unfolding pg_def using res by (intro reset_reserved_Some) auto
  have out: "\<And>q. q \<notin> {base..<base + n} \<Longrightarrow> pg q = pages s q" unfolding pg_def by (simp only: if_False)
  have cln: "\<And>q. q \<in> {base..<base + n} \<Longrightarrow> page_clean (pg q)"
    unfolding pg_def by (simp only: if_True page_clean_reset)
  have "\<exists>h'. insert_block base (links (set_free_head base n (s\<lparr>pages := pg\<rparr>))) = Some h' \<and>
    free_inv 0 (set_free_head base n (s\<lparr>pages := pg\<rparr>)\<lparr>links := h'\<rparr>)
      (takeWhile (\<lambda>v. v < base) xs @ base # dropWhile (\<lambda>v. v < base) xs) \<and>
    free_frames (set_free_head base n (s\<lparr>pages := pg\<rparr>)\<lparr>links := h'\<rparr>)
      (takeWhile (\<lambda>v. v < base) xs @ base # dropWhile (\<lambda>v. v < base) xs) =
        free_frames s xs \<union> {base..<base + n} \<and>
    nr_free (set_free_head base n (s\<lparr>pages := pg\<rparr>)) = nr_free s + n"
    using insert_inv [OF inv n dis at out cln] by blast
  then show ?thesis
    using n pgS by (fastforce simp: default_init_memmap_def)
qed

lemma default_init_inv: "free_inv c (default_init s) []"
  by (simp add: default_init_def free_inv_def list_init_dlist)

lemma default_free_pages_inv:
  assumes "free_inv c s xs" and "c \<le> 1" and "releasable s (free_frames s xs) base n"
  shows "\<exists>s' xs'. default_free_pages base n s = Some s' \<and> free_inv c s' xs' \<and>
    free_frames s' xs' = free_frames s xs \<union> {base..<base + n} \<and> nr_free s' = nr_free s + n \<and>
    (\<forall>q. q \<notin> free_frames s xs \<union> {base..<base + n} \<longrightarrow> pages s' q = pages s q)"
proof -
  have "0 < n" using assms(3) by (simp add: releasable_def)
  then show ?thesis
    using release_inv [OF assms] by (fastforce simp: default_free_pages_def)
qed

section \<open>The first-fit manager is a page manager\<close>

lemma default_alloc_pages_pos: "default_alloc_pages n s = Some r \<Longrightarrow> 0 < n"
  by (simp add: default_alloc_pages_def)

lemma default_alloc_pages_step:
  assumes inv: "free_inv c s xs" and res: "default_alloc_pages n s = Some (Some p, s')"
  shows "\<exists>us vs. xs = us @ p # vs \<and> 0 < n \<and> n \<le> property (pages s p) \<and>
    (\<forall>q \<in> set us. property (pages s q) < n) \<and> s' = take_block n p s"
  using default_alloc_pages_cases [OF inv default_alloc_pages_pos [OF res]] res
    default_alloc_pages_pos [OF res] by (metis Pair_inject option.distinct(1) option.inject)

interpretation ff: pmm_manager default_alloc_pages default_free_pages default_nr_free_pages pmm_inv
proof (unfold_locales, goal_cases)
  case (1 s F n)
  then show ?case
    by (auto simp: pmm_inv_def elim!: default_alloc_pages_cases)
next
  case (2 n s s')
  then show ?case
    by (auto simp: default_alloc_pages_def split: if_splits option.splits elim!: bind_eq_SomeE)
next
  case (3 s F n p s')
  then obtain xs where xs: "free_inv 1 s xs" "F = free_frames s xs" by (auto simp: pmm_inv_def)
  from default_alloc_pages_step [OF xs(1) 3(2)] obtain us vs where
    s: "xs = us @ p # vs" "0 < n" "n \<le> property (pages s p)" "s' = take_block n p s" by blast
  have "{p..<p + n} \<subseteq> F" using s xs(2) by (auto simp: free_frames_def block_def)
  then show ?case
    using take_block_inv [of 1 s us p vs n] s xs by (auto simp: pmm_inv_def)
next
  case (4 s F n p s')
  then obtain xs where xs: "free_inv 1 s xs" "F = free_frames s xs" by (auto simp: pmm_inv_def)
  from default_alloc_pages_step [OF xs(1) 4(2)] obtain us vs where
    s: "xs = us @ p # vs" "0 < n" "n \<le> property (pages s p)" "s' = take_block n p s" by blast
  show ?case
    using take_block_clean [of 1 s us p vs n] take_block_frame [of 1 s us p vs n] s xs by simp
next
  case (5 n s r s')
  then show ?case by (rule default_alloc_pages_pos)
next
  case (6 s F base n)
  then obtain xs where "free_inv 1 s xs" "F = free_frames s xs" by (auto simp: pmm_inv_def)
  then show ?case
    using default_free_pages_inv [of 1 s xs base n] 6(2) by (auto simp: pmm_inv_def)
next
  case (7 s F q n r s')
  then have n: "0 < n" using default_alloc_pages_pos by blast
  from pmm_inv_block [OF 7(1) n 7(2)] obtain xs p where x: "free_inv 1 s xs" "p \<in> set xs" "n \<le> property (pages s p)" by blast
  show ?case
    by (rule default_alloc_pages_cases [OF x(1) n]) (use 7(3) x(2,3) in auto)
next
  case (8 n s r s' q)
  then show ?case
    by (auto simp: default_alloc_pages_def ref_take_block split: if_splits option.splits elim!: bind_eq_SomeE)
next
  case (9 base n s s' q)
  then obtain pg h b' s3 where
    "reset_allocated base n (pages s) = Some pg"
    "merge_prev base (set_free_head base n (s\<lparr>pages := pg\<rparr>)\<lparr>links := h\<rparr>) = (b', s3)" "s' = merge_next b' s3"
    by (auto simp: default_free_pages_def Let_def split: prod.splits elim!: bind_eq_SomeE)
  then show ?case
    by (simp add: ref_merge_next ref_merge_prev ref_set_free_head ref_reset_allocated)
next
  case (10 s F s')
  then show ?case by (rule pmm_inv_cong)
next
  case (11 s F)
  then show ?case
    by (auto simp: pmm_inv_def default_nr_free_pages_def free_inv_nr_free_card)
qed

section \<open>The insertion behind all free blocks\<close>

lemma append_prev_self:
  assumes "base \<noteq> v"
  shows "list_prev (PageLink base) (list_add (PageLink base) (PageLink base)
      (list_add (PageLink v) (PageLink base) h)) = PageLink base"
    and "list_next (PageLink base) h' = FreeList \<Longrightarrow> h' = (list_add (PageLink v) (PageLink base) h) \<Longrightarrow>
      list_next (PageLink base) (list_add (PageLink base) (PageLink base) h') = FreeList"
  using assms by (auto simp: list_ops_defs)

lemma default_free_pages_append:
  assumes inv: "free_inv c s xs" and ne: "xs \<noteq> []" and beyond: "\<forall>x \<in> set xs. x < base"
    and n: "0 < n" and clean: "\<forall>q \<in> {base..<base + n}. page_clean (pages s q)"
  shows "\<exists>s'. default_free_pages base n s = Some s' \<and>
    links s' = list_add (PageLink base) (PageLink base)
      (list_add (PageLink (last xs)) (PageLink base) (links s)) \<and>
    list_prev (PageLink base) (links s') = PageLink base \<and>
    list_next (PageLink base) (links s') = FreeList \<and>
    nr_free s' = nr_free s + n \<and> property (pages s' base) = n \<and>
    (\<forall>q. q \<notin> {base..<base + n} \<longrightarrow> pages s' q = pages s q)"
proof -
  have dl: "dlist (links s) FreeList (map PageLink xs)" using inv by (simp add: free_inv_def)
  define pg where "pg = (\<lambda>q. if q \<in> {base..<base + n} then (pages s q)\<lparr>flags := 0, ref := 0\<rparr>
    else pages s q)"
  have pgS: "reset_allocated base n (pages s) = Some pg"
    unfolding pg_def using clean by (intro reset_allocated_Some) (auto simp: page_clean_def)
  let ?s1 = "set_free_head base n (s\<lparr>pages := pg\<rparr>)"
  let ?h1 = "list_add (PageLink (last xs)) (PageLink base) (links s)"
  let ?h = "list_add (PageLink base) (PageLink base) ?h1"
  have s1: "links ?s1 = links s" "nr_free ?s1 = nr_free s + n" "property (pages ?s1 base) = n"
    "\<forall>q. q \<notin> {base..<base + n} \<longrightarrow> pages ?s1 q = pages s q"
    using n by (auto simp: set_free_head_def Let_def pg_def)
  have ins: "insert_block base (links ?s1) = Some ?h"
    using insert_block_append [OF dl ne beyond] by (simp add: s1)
  have neq: "base \<noteq> last xs" using ne beyond last_in_set by fastforce
  have "list_next (PageLink (last xs)) (links s) = FreeList"
    using list_next_elem_dlist [of "links s" FreeList "map PageLink (butlast xs)"
        "PageLink (last xs)" "[]"] dl ne
    by (metis append.left_neutral append_butlast_last_id list.sel(1) list.simps(8) list.simps(9)
        map_append)
  then have ptrs: "list_prev (PageLink base) ?h = PageLink base"
    "list_next (PageLink base) ?h = FreeList"
    using neq by (auto simp: list_ops_defs)
  have "merge_prev base (?s1\<lparr>links := ?h\<rparr>) = (base, ?s1\<lparr>links := ?h\<rparr>)"
    and "merge_next base (?s1\<lparr>links := ?h\<rparr>) = ?s1\<lparr>links := ?h\<rparr>"
    using ptrs n s1(3) by (simp_all add: merge_prev_def merge_next_def Let_def)
  then have "default_free_pages base n s = Some (?s1\<lparr>links := ?h\<rparr>)"
    using n pgS ins by (simp add: default_free_pages_def)
  then show ?thesis using ptrs s1 by simp
qed

text \<open>
  The damaged list can still be followed forwards. \<open>nchain h p xs q\<close>: the \<open>next\<close> pointers lead from
  \<open>p\<close> over the blocks \<open>xs\<close> to \<open>q\<close>.
\<close>

fun nchain :: "le links \<Rightarrow> le \<Rightarrow> nat list \<Rightarrow> le \<Rightarrow> bool" where
  "nchain h p [] q = (list_next p h = q)"
| "nchain h p (x # xs) q = (list_next p h = PageLink x \<and> nchain h (PageLink x) xs q)"

lemma dseg_nchain: "dseg h p (map PageLink xs) q \<Longrightarrow> nchain h p xs q"
  by (induction xs arbitrary: p) (auto simp: list_next_def)

lemma nchain_redirect:
  "nchain h p xs q \<Longrightarrow> distinct (p # map PageLink xs) \<Longrightarrow>
   list_next (last (p # map PageLink xs)) h' = q' \<Longrightarrow>
   (\<And>a. a \<in> set (p # map PageLink xs) \<Longrightarrow> a \<noteq> last (p # map PageLink xs) \<Longrightarrow>
     list_next a h' = list_next a h) \<Longrightarrow> nchain h' p xs q'"
proof (induction xs arbitrary: p)
  case (Cons x xs)
  have ne: "p \<noteq> last (PageLink x # map PageLink xs)"
    using Cons.prems(2) last_in_set [of "PageLink x # map PageLink xs"] by auto
  have "nchain h' (PageLink x) xs q'" using Cons.prems by (intro Cons.IH) auto
  moreover have "list_next p h' = list_next p h" using ne by (intro Cons.prems(4)) auto
  ultimately show ?case using Cons.prems(1) by simp
qed simp

lemma nchain_cong:
  "nchain h p xs q \<Longrightarrow> (\<And>a. a \<in> set (p # map PageLink xs) \<Longrightarrow> list_next a h' = list_next a h) \<Longrightarrow>
   nchain h' p xs q"
  by (induction xs arbitrary: p) auto

lemma ff_search_nchain:
  assumes "nchain (links s) p xs (PageLink b)" and "\<forall>x \<in> set xs. property (pages s x) < n"
    and "n \<le> property (pages s b)"
  shows "ff_search n p s = Some (Some b)"
  using assms by (induction xs arbitrary: p) (subst ff_search.simps; simp add: Let_def)+

text \<open>An allocation that fits the self-linked block exactly hands it out and leaves it in the list.\<close>

lemma default_alloc_self_linked:
  assumes chain: "nchain (links s) FreeList xs (PageLink b)" and b: "b \<notin> set xs"
    and self: "list_prev (PageLink b) (links s) = PageLink b" "list_next (PageLink b) (links s) = FreeList"
    and small: "\<forall>x \<in> set xs. property (pages s x) < n" and n: "0 < n" "property (pages s b) = n"
    and nr: "n \<le> nr_free s"
  shows "default_alloc_pages n s = Some (Some b, take_block n b s)"
    and "nchain (links (take_block n b s)) FreeList xs (PageLink b)"
    and "list_prev (PageLink b) (links (take_block n b s)) = PageLink b"
    and "list_next (PageLink b) (links (take_block n b s)) = FreeList"
    and "\<forall>x. property (pages (take_block n b s) x) = property (pages s x)"
proof -
  show "default_alloc_pages n s = Some (Some b, take_block n b s)"
    using ff_search_nchain [OF chain small] n nr by (simp add: default_alloc_pages_def)
  have l: "links (take_block n b s) = list_del (PageLink b) (links s)"
    using n by (simp add: take_block_def Let_def)
  show "nchain (links (take_block n b s)) FreeList xs (PageLink b)"
    unfolding l using self b by (intro nchain_cong [OF chain]) (auto simp: list_ops_defs)
  show "list_prev (PageLink b) (links (take_block n b s)) = PageLink b"
    and "list_next (PageLink b) (links (take_block n b s)) = FreeList"
    unfolding l using self by (auto simp: list_ops_defs)
  show "\<forall>x. property (pages (take_block n b s) x) = property (pages s x)"
    using n by (simp add: take_block_pages ClearPageProperty_def)
qed

text \<open>Two free blocks of two pages with other pages before, between and behind them.\<close>

definition demo_two :: free_area where
  "demo_two = \<lparr>pages = (\<lambda>p. if p = 2 \<or> p = 6 then \<lparr>ref = 0, flags = 2, property = 2\<rparr>
       else \<lparr>ref = 0, flags = 0, property = 0\<rparr>),
     links = \<lparr>lprev = (\<lambda>e. if e = FreeList then PageLink 6 else if e = PageLink 6 then PageLink 2 else FreeList),
              lnext = (\<lambda>e. if e = FreeList then PageLink 2 else if e = PageLink 2 then PageLink 6 else FreeList)\<rparr>,
     nr_free = 4\<rparr>"

lemma demo_two_inv: "free_inv 1 demo_two [2, 6]"
  by (auto simp: demo_two_def free_inv_def dlist_def gaps_Cons head_ok_def block_def
      PageProperty_def PageReserved_def PG_property_def PG_reserved_def bit_simps split: if_splits)

section \<open>Properties\<close>

text \<open>
  C1: On an intact free list \<open>default_alloc_pages\<close> always returns, and it is first fit: the result is
  the first block in list order with at least \<open>n\<close> pages. Without one it is \<open>NULL\<close> and nothing
  changes; with one, exactly its first \<open>n\<close> frames leave the free set and the list stays intact.
\<close>

theorem first_fit_alloc:
  assumes "free_inv 1 s xs" and "0 < n"
  shows "\<exists>s' xs'. default_alloc_pages n s = Some (find (\<lambda>p. n \<le> property (pages s p)) xs, s') \<and>
    (case find (\<lambda>p. n \<le> property (pages s p)) xs of
       None \<Rightarrow> s' = s
     | Some p \<Rightarrow> {p..<p + n} \<subseteq> free_frames s xs \<and> free_inv 1 s' xs' \<and>
         free_frames s' xs' = free_frames s xs - {p..<p + n} \<and> nr_free s' = nr_free s - n)"
  using assms
proof (cases rule: default_alloc_pages_cases)
  case fail
  then have "find (\<lambda>p. n \<le> property (pages s p)) xs = None" by (auto simp: find_None_iff not_le)
  then show ?thesis using fail by simp
next
  case (found us p vs)
  have "find (\<lambda>p. n \<le> property (pages s p)) xs = Some p"
    using found(1-3) by (induction us arbitrary: xs) (auto simp: not_le)
  moreover have "{p..<p + n} \<subseteq> free_frames s xs"
    using found(1,2) by (auto simp: free_frames_def block_def)
  ultimately show ?thesis
    using found take_block_inv [of 1 s us p vs n] assms by (auto simp: take_block_nr_free)
qed

theorem first_fit_alloc_witness:
  "\<exists>s' xs'. default_alloc_pages 3 demo_area = Some (Some 2, s') \<and>
     free_inv 1 s' xs' \<and> free_frames s' xs' = {5..<10}"
proof -
  have p: "property (pages demo_area 2) = 8" by (simp add: demo_area_def)
  have eq: "{2..<10} - {2..<2 + 3} = {5..<(10::nat)}" by auto
  show ?thesis
    using first_fit_alloc [OF demo_area_inv, of 3] p eq by (auto simp: demo_area_frames)
qed

text \<open>
  C2: \<open>default_free_pages\<close> on an allocated block that does not lie behind every block of a non-empty
  free list (\<open>releasable\<close>; for a block that does, the list is damaged, see C14) returns,
  adds exactly the block's frames to the free set, and leaves an intact list in which no two free
  blocks are adjacent (both coalescing steps are complete).
\<close>

theorem first_fit_free_coalesces:
  assumes "free_inv 1 s xs" and "releasable s (free_frames s xs) base n"
  shows "\<exists>s' xs'. default_free_pages base n s = Some s' \<and> free_inv 1 s' xs' \<and>
    free_frames s' xs' = free_frames s xs \<union> {base..<base + n} \<and> nr_free s' = nr_free s + n"
  using default_free_pages_inv [OF assms(1) _ assms(2)] by auto

theorem first_fit_free_coalesces_witness:
  "\<exists>s' xs'. default_free_pages 0 2 demo_area = Some s' \<and> free_inv 1 s' xs' \<and>
     free_frames s' xs' = {2..<10} \<union> {0..<0 + 2}"
proof -
  have "releasable demo_area (free_frames demo_area [2]) 0 2"
    unfolding demo_area_frames
    by (auto simp: releasable_def not_at_end_def page_clean_def demo_area_def
        PageReserved_def PageProperty_def PG_reserved_def PG_property_def)
  from first_fit_free_coalesces [OF demo_area_inv this] show ?thesis
    unfolding demo_area_frames by blast
qed

text \<open>
  C3: However clients interleave \<open>default_alloc_pages\<close> and \<open>default_free_pages\<close>, as long as each block
  is given back once and at a moment when it does not lie behind every block of a non-empty free list
  (the case of C14), two blocks that are live at the same time never share a page
  frame.
\<close>

theorem first_fit_no_overlap:
  assumes "pmm_inv s0 F0"
    and "client_run default_alloc_pages default_free_pages s0 F0 s F live"
    and "b \<in> live" and "c \<in> live" and "b \<noteq> c"
  shows "frames_of b \<inter> frames_of c = {}"
  by (rule ff.client_run_no_overlap [OF assms(2,1,3,4,5)])

theorem first_fit_no_overlap_witness:
  "\<exists>s F b c. client_run default_alloc_pages default_free_pages demo_area {2..<10} s F {b, c} \<and>
     b \<noteq> c \<and> frames_of b \<inter> frames_of c = {}"
proof -
  have i0: "pmm_inv demo_area {2..<10}"
    using demo_area_inv demo_area_frames by (auto simp: pmm_inv_def)
  have inv: "free_inv 1 demo_area ([] @ 2 # [])" using demo_area_inv by simp
  have p: "property (pages demo_area 2) = 8" by (simp add: demo_area_def)
  let ?s1 = "take_block 3 2 demo_area"
  have a1: "default_alloc_pages 3 demo_area = Some (Some 2, ?s1)"
    using default_alloc_pages_Some [OF inv] p by simp
  have i1: "free_inv 1 ?s1 ([] @ 5 # [])" using take_block_inv(1) [OF inv, of 3] p by simp
  have "property (pages ?s1 5) = 5" using p by (simp add: take_block_pages)
  then have a2: "default_alloc_pages 2 ?s1 = Some (Some 5, take_block 2 5 ?s1)"
    using default_alloc_pages_Some [OF i1] by simp
  have r1: "client_run default_alloc_pages default_free_pages demo_area {2..<10}
      ?s1 ({2..<10} - {2..<2 + 3}) {(2, 3)}"
    by (rule client_run.alloc, rule client_run.start, rule a1)
  have r: "client_run default_alloc_pages default_free_pages demo_area {2..<10}
      (take_block 2 5 ?s1) ({2..<10} - {2..<2 + 3} - {5..<5 + 2}) {(5, 2), (2, 3)}"
    by (rule client_run.alloc, rule r1, rule a2)
  have d: "frames_of (5, 2) \<inter> frames_of (2, 3) = {}"
    by (rule first_fit_no_overlap [OF i0 r]) auto
  show ?thesis by (intro exI conjI, rule r, simp, rule d)
qed

text \<open>
  C14: When a block of \<open>n\<close> pages is freed that lies behind every block of a non-empty free list, its
  \<open>prev\<close> pointer is left pointing at itself (the insertion loop has no \<open>break\<close> after the append and
  adds the block a second time, after itself), so no doubly linked list contains it any more. If the
  other free blocks are all smaller and together have at least \<open>n\<close> pages, two calls of
  \<open>default_alloc_pages\<close> for \<open>n\<close> pages that follow hand out this same block twice, without a free in
  between: \<open>list_del\<close> cannot take it off the list.
\<close>

theorem first_fit_double_allocation:
  assumes "free_inv c s xs" and "xs \<noteq> []" and "\<forall>x \<in> set xs. x < base" and "0 < n"
    and "\<forall>q \<in> {base..<base + n}. page_clean (pages s q)"
    and "\<forall>x \<in> set xs. property (pages s x) < n" and "n \<le> nr_free s"
  shows "\<exists>s1 s2 s3. default_free_pages base n s = Some s1 \<and>
    list_prev (PageLink base) (links s1) = PageLink base \<and>
    (\<nexists>us vs. dlist (links s1) FreeList (map PageLink (us @ base # vs))) \<and>
    default_alloc_pages n s1 = Some (Some base, s2) \<and>
    default_alloc_pages n s2 = Some (Some base, s3)"
proof -
  obtain s1 where s1: "default_free_pages base n s = Some s1"
    and l1: "links s1 = list_add (PageLink base) (PageLink base)
      (list_add (PageLink (last xs)) (PageLink base) (links s))"
    and self: "list_prev (PageLink base) (links s1) = PageLink base"
      "list_next (PageLink base) (links s1) = FreeList"
    and c1: "nr_free s1 = nr_free s + n" "property (pages s1 base) = n"
      "\<forall>q. q \<notin> {base..<base + n} \<longrightarrow> pages s1 q = pages s q"
    using default_free_pages_append [OF assms(1-5)] by blast
  have dl: "dlist (links s) FreeList (map PageLink xs)" using assms(1) by (simp add: free_inv_def)
  have notin: "base \<notin> set xs" using assms(3) by auto
  have "last xs \<in> set xs" using assms(2) by simp
  then have chain: "nchain (links s1) FreeList xs (PageLink base)"
    unfolding l1 using dl notin assms(2)
    by (intro nchain_redirect [OF dseg_nchain]) (auto simp: dlist_def last_map list_ops_defs)
  have small: "\<forall>x \<in> set xs. property (pages s1 x) < n" using assms(3,6) c1(3) by auto
  note first = default_alloc_self_linked [OF chain notin self small assms(4) c1(2)]
  have nr1: "n \<le> nr_free s1" and nr2: "n \<le> nr_free (take_block n base s1)"
    using assms(7) c1(1) by (simp_all add: take_block_nr_free)
  have "default_alloc_pages n (take_block n base s1) =
      Some (Some base, take_block n base (take_block n base s1))"
    using default_alloc_self_linked(1) [OF first(2) notin first(3,4) _ assms(4) _ nr2]
      first(5) small c1(2) nr1 by simp
  moreover have "\<not> dlist (links s1) FreeList (map PageLink (us @ base # vs))" for us vs
  proof
    assume d: "dlist (links s1) FreeList (map PageLink (us @ base # vs))"
    have "last (FreeList # map PageLink us) = PageLink base"
      using list_prev_elem_dlist [of "links s1" FreeList "map PageLink us" "PageLink base"
          "map PageLink vs"] d self by simp
    moreover have "base \<notin> set us" using d by (auto simp: dlist_def)
    ultimately show False
      using last_in_set [of us] by (auto simp: last_map split: if_splits)
  qed
  ultimately show ?thesis using s1 self first(1) [OF nr1] by blast
qed

theorem first_fit_double_allocation_witness:
  "\<exists>s1 s2 s3. default_free_pages 10 3 demo_two = Some s1 \<and>
     default_alloc_pages 3 s1 = Some (Some 10, s2) \<and> default_alloc_pages 3 s2 = Some (Some 10, s3)"
proof -
  have "\<forall>q \<in> {10..<10 + 3}. page_clean (pages demo_two q)"
    by (simp add: demo_two_def page_clean_def PageReserved_def PageProperty_def)
  moreover have "\<forall>x \<in> set [2, 6]. property (pages demo_two x) < 3" "3 \<le> nr_free demo_two"
    by (simp_all add: demo_two_def)
  ultimately show ?thesis
    using first_fit_double_allocation [OF demo_two_inv, of 10 3] by auto
qed

end
