(* ===== verification/BestFit.thy ===== *)
theory BestFit
  imports PmmManager
begin

text \<open>
  The best-fit manager of \<open>lab2/kern/mm/best_fit_pmm.c\<close>: it searches the whole free list for the
  smallest block with room and shares the other steps with the first-fit manager. Its own
  \<open>init_memmap\<close> loop puts a block that lies behind all free blocks at the head of the list.
\<close>

section \<open>The operations\<close>

definition best_fit_init :: "free_area \<Rightarrow> free_area" where
  "best_fit_init s = s\<lparr>links := list_init FreeList (links s), nr_free := 0\<rparr>"

text \<open>The loop leaves with \<open>le\<close> back at the list head, and the code then calls \<open>list_add(le, base)\<close>.\<close>

partial_function (option) bf_insert_loop :: "nat \<Rightarrow> le \<Rightarrow> le links \<Rightarrow> le links option" where
  "bf_insert_loop base le h =
     (let le' = list_next le h in
      if le' = FreeList then Some (list_add le' (PageLink base) h)
      else if base < le2page le' then Some (list_add_before le' (PageLink base) h)
      else bf_insert_loop base le' h)"

declare bf_insert_loop.simps [code]

definition best_fit_init_memmap :: "nat \<Rightarrow> nat \<Rightarrow> free_area \<Rightarrow> free_area option" where
  "best_fit_init_memmap base n s = do {
     c_assert (n > 0);
     pg \<leftarrow> reset_reserved base n (pages s);
     let s1 = set_free_head base n (s\<lparr>pages := pg\<rparr>);
     h \<leftarrow> (if list_empty FreeList (links s1)
          then Some (list_add FreeList (PageLink base) (links s1))
          else bf_insert_loop base FreeList (links s1));
     Some (s1\<lparr>links := h\<rparr>)
   }"

text \<open>The search loop with its two accumulators \<open>best_page\<close> and \<open>min_size\<close>.\<close>

partial_function (option) bf_search ::
  "nat \<Rightarrow> le \<Rightarrow> nat option \<Rightarrow> nat \<Rightarrow> free_area \<Rightarrow> nat option option" where
  "bf_search n le best_page min_size s =
     (let le' = list_next le (links s) in
      if le' = FreeList then Some best_page
      else
        let p = le2page le' in
        if property (pages s p) \<ge> n \<and> property (pages s p) < min_size
        then bf_search n le' (Some p) (property (pages s p)) s
        else bf_search n le' best_page min_size s)"

declare bf_search.simps [code]

definition best_fit_alloc_pages :: "nat \<Rightarrow> free_area \<Rightarrow> (nat option \<times> free_area) option" where
  "best_fit_alloc_pages n s = do {
     c_assert (n > 0);
     if n > nr_free s then Some (None, s)
     else do {
       best_page \<leftarrow> bf_search n FreeList None (nr_free s + 1) s;
       (case best_page of
          None \<Rightarrow> Some (None, s)
        | Some p \<Rightarrow> Some (Some p, take_block n p s))
     }
   }"

definition best_fit_free_pages :: "nat \<Rightarrow> nat \<Rightarrow> free_area \<Rightarrow> free_area option" where
  "best_fit_free_pages base n s = do {
     c_assert (n > 0);
     pg \<leftarrow> reset_allocated base n (pages s);
     let s1 = set_free_head base n (s\<lparr>pages := pg\<rparr>);
     h \<leftarrow> insert_block base (links s1);
     let s2 = s1\<lparr>links := h\<rparr>;
     let (base', s3) = merge_prev base s2;
     Some (merge_next base' s3)
   }"

definition best_fit_nr_free_pages :: "free_area \<Rightarrow> nat" where
  "best_fit_nr_free_pages s = nr_free s"

section \<open>The search\<close>

fun best_of :: "(nat \<Rightarrow> nat) \<Rightarrow> nat \<Rightarrow> nat option \<Rightarrow> nat \<Rightarrow> nat list \<Rightarrow> nat option" where
  "best_of sz n best m [] = best"
| "best_of sz n best m (p # ps) =
     (if sz p \<ge> n \<and> sz p < m then best_of sz n (Some p) (sz p) ps else best_of sz n best m ps)"

lemma best_of_result:
  "(best_of sz n best m xs = best \<and> (\<forall>q \<in> set xs. n \<le> sz q \<longrightarrow> m \<le> sz q)) \<or>
   (\<exists>p \<in> set xs. best_of sz n best m xs = Some p \<and> n \<le> sz p \<and> sz p < m \<and>
      (\<forall>q \<in> set xs. n \<le> sz q \<longrightarrow> sz p \<le> sz q))"
proof (induction xs arbitrary: best m)
  case (Cons x xs)
  show ?case
  proof (cases "n \<le> sz x \<and> sz x < m")
    case True
    then show ?thesis using Cons.IH [of "Some x" "sz x"] by auto
  next
    case False
    then show ?thesis using Cons.IH [of best m] by auto
  qed
qed simp

lemma list_next_last:
  assumes "dlist h FreeList (map PageLink (us @ vs))"
  shows "list_next (last (FreeList # map PageLink us)) h = hd (map PageLink vs @ [FreeList])"
proof (cases us rule: rev_cases)
  case (snoc us' u)
  then show ?thesis
    using assms list_next_elem_dlist [of h FreeList "map PageLink us'" "PageLink u"] by simp
qed (use assms in \<open>simp add: list_next_head_dlist\<close>)

lemma bf_search_from:
  assumes "dlist (links s) FreeList (map PageLink (us @ vs))"
  shows "bf_search n (last (FreeList # map PageLink us)) best m s =
    Some (best_of (\<lambda>p. property (pages s p)) n best m vs)"
  using assms
proof (induction vs arbitrary: us best m)
  case Nil
  then show ?case using list_next_last [OF Nil] by (subst bf_search.simps) simp
next
  case (Cons v vs)
  then show ?case
    using list_next_last [OF Cons.prems] Cons.IH [of "us @ [v]"]
    by (subst bf_search.simps) (simp add: Let_def)
qed

lemma best_fit_alloc_pages_cases:
  assumes inv: "free_inv c s xs" and n: "0 < n"
  obtains (fail) "\<forall>q \<in> set xs. property (pages s q) < n" "best_fit_alloc_pages n s = Some (None, s)"
  | (found) us p vs where "xs = us @ p # vs" "n \<le> property (pages s p)"
      "\<forall>q \<in> set xs. n \<le> property (pages s q) \<longrightarrow> property (pages s p) \<le> property (pages s q)"
      "best_fit_alloc_pages n s = Some (Some p, take_block n p s)"
proof -
  have le: "property (pages s q) \<le> nr_free s" if "q \<in> set xs" for q
    using inv that by (auto simp: free_inv_def intro: member_le_sum_list)
  have srch: "bf_search n FreeList None (nr_free s + 1) s =
      Some (best_of (\<lambda>p. property (pages s p)) n None (nr_free s + 1) xs)"
    using bf_search_from [of s "[]" xs] inv by (simp add: free_inv_def)
  from best_of_result [of "\<lambda>p. property (pages s p)" n None "nr_free s + 1" xs]
  show ?thesis
  proof (elim disjE bexE conjE)
    assume r: "best_of (\<lambda>p. property (pages s p)) n None (nr_free s + 1) xs = None"
      and "\<forall>q \<in> set xs. n \<le> property (pages s q) \<longrightarrow> nr_free s + 1 \<le> property (pages s q)"
    then have "\<forall>q \<in> set xs. property (pages s q) < n" using le by (fastforce simp: not_le)
    then show ?thesis using fail r srch n by (simp add: best_fit_alloc_pages_def)
  next
    fix p assume p: "p \<in> set xs" "n \<le> property (pages s p)"
      and r: "best_of (\<lambda>p. property (pages s p)) n None (nr_free s + 1) xs = Some p"
      and best: "\<forall>q \<in> set xs. n \<le> property (pages s q) \<longrightarrow> property (pages s p) \<le> property (pages s q)"
    from p(1) obtain us vs where xs: "xs = us @ p # vs" by (meson split_list)
    have "n \<le> nr_free s" using le [OF p(1)] p(2) by simp
    then have "best_fit_alloc_pages n s = Some (Some p, take_block n p s)"
      using r srch n by (simp add: best_fit_alloc_pages_def)
    then show ?thesis using found xs p(2) best by blast
  qed
qed

lemma best_fit_alloc_pages_pos: "best_fit_alloc_pages n s = Some r \<Longrightarrow> 0 < n"
  by (simp add: best_fit_alloc_pages_def)

lemma best_fit_alloc_pages_step:
  assumes inv: "free_inv c s xs" and res: "best_fit_alloc_pages n s = Some (Some p, s')"
  shows "\<exists>us vs. xs = us @ p # vs \<and> 0 < n \<and> n \<le> property (pages s p) \<and> s' = take_block n p s"
  using best_fit_alloc_pages_cases [OF inv best_fit_alloc_pages_pos [OF res]] res
    best_fit_alloc_pages_pos [OF res] by (metis Pair_inject option.distinct(1) option.inject)

lemma best_fit_free_pages_inv:
  assumes "free_inv c s xs" and "c \<le> 1" and "releasable s (free_frames s xs) base n"
  shows "\<exists>s' xs'. best_fit_free_pages base n s = Some s' \<and> free_inv c s' xs' \<and>
    free_frames s' xs' = free_frames s xs \<union> {base..<base + n} \<and> nr_free s' = nr_free s + n \<and>
    (\<forall>q. q \<notin> free_frames s xs \<union> {base..<base + n} \<longrightarrow> pages s' q = pages s q)"
proof -
  have "0 < n" using assms(3) by (simp add: releasable_def)
  then show ?thesis
    using release_inv [OF assms] by (fastforce simp: best_fit_free_pages_def)
qed

section \<open>The best-fit manager is a page manager\<close>

interpretation bf: pmm_manager best_fit_alloc_pages best_fit_free_pages best_fit_nr_free_pages pmm_inv
proof (unfold_locales, goal_cases)
  case (1 s F n)
  then show ?case
    by (auto simp: pmm_inv_def elim!: best_fit_alloc_pages_cases)
next
  case (2 n s s')
  then show ?case
    by (auto simp: best_fit_alloc_pages_def split: if_splits option.splits elim!: bind_eq_SomeE)
next
  case (3 s F n p s')
  then obtain xs where xs: "free_inv 1 s xs" "F = free_frames s xs" by (auto simp: pmm_inv_def)
  from best_fit_alloc_pages_step [OF xs(1) 3(2)] obtain us vs where
    s: "xs = us @ p # vs" "0 < n" "n \<le> property (pages s p)" "s' = take_block n p s" by blast
  have "{p..<p + n} \<subseteq> F" using s xs(2) by (auto simp: free_frames_def block_def)
  then show ?case
    using take_block_inv [of 1 s us p vs n] s xs by (auto simp: pmm_inv_def)
next
  case (4 s F n p s')
  then obtain xs where xs: "free_inv 1 s xs" "F = free_frames s xs" by (auto simp: pmm_inv_def)
  from best_fit_alloc_pages_step [OF xs(1) 4(2)] obtain us vs where
    s: "xs = us @ p # vs" "0 < n" "n \<le> property (pages s p)" "s' = take_block n p s" by blast
  show ?case
    using take_block_clean [of 1 s us p vs n] take_block_frame [of 1 s us p vs n] s xs by simp
next
  case (5 n s r s')
  then show ?case by (rule best_fit_alloc_pages_pos)
next
  case (6 s F base n)
  then obtain xs where "free_inv 1 s xs" "F = free_frames s xs" by (auto simp: pmm_inv_def)
  then show ?case
    using best_fit_free_pages_inv [of 1 s xs base n] 6(2) by (auto simp: pmm_inv_def)
next
  case (7 s F q n r s')
  then have n: "0 < n" using best_fit_alloc_pages_pos by blast
  from pmm_inv_block [OF 7(1) n 7(2)] obtain xs p where x: "free_inv 1 s xs" "p \<in> set xs" "n \<le> property (pages s p)" by blast
  show ?case
    by (rule best_fit_alloc_pages_cases [OF x(1) n]) (use 7(3) x(2,3) in auto)
next
  case (8 n s r s' q)
  then show ?case
    by (auto simp: best_fit_alloc_pages_def ref_take_block split: if_splits option.splits elim!: bind_eq_SomeE)
next
  case (9 base n s s' q)
  then obtain pg h b' s3 where
    "reset_allocated base n (pages s) = Some pg"
    "merge_prev base (set_free_head base n (s\<lparr>pages := pg\<rparr>)\<lparr>links := h\<rparr>) = (b', s3)" "s' = merge_next b' s3"
    by (auto simp: best_fit_free_pages_def Let_def split: prod.splits elim!: bind_eq_SomeE)
  then show ?case
    by (simp add: ref_merge_next ref_merge_prev ref_set_free_head ref_reset_allocated)
next
  case (10 s F s')
  then show ?case by (rule pmm_inv_cong)
next
  case (11 s F)
  then show ?case
    by (auto simp: pmm_inv_def best_fit_nr_free_pages_def free_inv_nr_free_card)
qed

section \<open>Where \<open>best_fit_init_memmap\<close> puts the last block\<close>

lemma bf_insert_loop_append:
  assumes "dlist h FreeList (map PageLink (us @ vs))" and "\<forall>v \<in> set vs. v < base"
  shows "bf_insert_loop base (last (FreeList # map PageLink us)) h =
    Some (list_add FreeList (PageLink base) h)"
  using assms
proof (induction vs arbitrary: us)
  case Nil
  then show ?case using list_next_last [OF Nil(1)] by (subst bf_insert_loop.simps) simp
next
  case (Cons v vs)
  then show ?case
    using list_next_last [OF Cons.prems(1)] Cons.IH [of "us @ [v]"]
    by (subst bf_insert_loop.simps) (simp add: Let_def)
qed

lemma best_fit_init_memmap_head:
  assumes inv: "free_inv 0 s xs" and n: "0 < n" and beyond: "\<forall>x \<in> set xs. x < base"
    and res: "\<forall>q \<in> {base..<base + n}. PageReserved (pages s q)"
  shows "\<exists>s'. best_fit_init_memmap base n s = Some s' \<and>
    dlist (links s') FreeList (map PageLink (base # xs)) \<and> nr_free s' = nr_free s + n"
proof -
  have dl: "dlist (links s) FreeList (map PageLink xs)" using inv by (simp add: free_inv_def)
  let ?h = "list_add FreeList (PageLink base) (links s)"
  let ?ins = "if list_empty FreeList (links s) then Some ?h else bf_insert_loop base FreeList (links s)"
  have ins: "?ins = Some ?h"
    using bf_insert_loop_append [of "links s" "[]" xs base] dl beyond by simp
  have dl': "dlist ?h FreeList (map PageLink (base # xs))"
    using list_add_dlist [OF dl, of "PageLink base"] beyond by auto
  obtain pg where "reset_reserved base n (pages s) = Some pg"
    using reset_reserved_Some [of base n "pages s"] res by blast
  then have "best_fit_init_memmap base n s =
      Some (set_free_head base n (s\<lparr>pages := pg\<rparr>)\<lparr>links := ?h\<rparr>)"
    using n ins by (auto simp: best_fit_init_memmap_def set_free_head_def Let_def split: if_splits)
  then show ?thesis using dl' by (simp add: set_free_head_def Let_def)
qed

section \<open>Properties\<close>

text \<open>
  C4: On an intact free list \<open>best_fit_alloc_pages\<close> always returns; it returns \<open>NULL\<close> and changes
  nothing exactly when no free block has \<open>n\<close> pages, and otherwise the head of a free block that is
  smallest among those with room, whose first \<open>n\<close> frames leave the free set.
\<close>

theorem best_fit_alloc_minimal:
  assumes "free_inv 1 s xs" and "0 < n"
  shows "(\<forall>q \<in> set xs. property (pages s q) < n) \<and> best_fit_alloc_pages n s = Some (None, s) \<or>
    (\<exists>p s' xs'. best_fit_alloc_pages n s = Some (Some p, s') \<and> p \<in> set xs \<and>
      n \<le> property (pages s p) \<and>
      (\<forall>q \<in> set xs. n \<le> property (pages s q) \<longrightarrow> property (pages s p) \<le> property (pages s q)) \<and>
      free_inv 1 s' xs' \<and> free_frames s' xs' = free_frames s xs - {p..<p + n})"
  using assms
proof (cases rule: best_fit_alloc_pages_cases)
  case (found us p vs)
  have "free_inv 1 (take_block n p s) (us @ (if n < property (pages s p) then [p + n] else []) @ vs)"
    "free_frames (take_block n p s) (us @ (if n < property (pages s p) then [p + n] else []) @ vs) =
      free_frames s xs - {p..<p + n}"
    using take_block_inv [of 1 s us p vs n] assms found(1,2) by simp_all
  moreover have "p \<in> set xs" using found(1) by simp
  ultimately show ?thesis using found(2-4) by blast
qed simp

theorem best_fit_alloc_minimal_witness:
  "\<exists>p s' xs'. best_fit_alloc_pages 3 demo_area = Some (Some p, s') \<and> p = 2 \<and>
     free_inv 1 s' xs' \<and> free_frames s' xs' = {5..<10}"
proof -
  have p: "property (pages demo_area 2) = 8" by (simp add: demo_area_def)
  have eq: "{2..<10} - {2..<2 + 3} = {5..<(10::nat)}" by auto
  show ?thesis
    using best_fit_alloc_minimal [OF demo_area_inv, of 3] p eq by (auto simp: demo_area_frames)
qed

text \<open>
  However clients interleave \<open>best_fit_alloc_pages\<close> and \<open>best_fit_free_pages\<close> (each block given
  back once, never behind every free block), two blocks that are live at the same time never share
  a page frame.
\<close>

theorem best_fit_no_overlap:
  assumes "pmm_inv s0 F0"
    and "client_run best_fit_alloc_pages best_fit_free_pages s0 F0 s F live"
    and "b \<in> live" and "c \<in> live" and "b \<noteq> c"
  shows "frames_of b \<inter> frames_of c = {}"
  by (rule bf.client_run_no_overlap [OF assms(2,1,3,4,5)])

theorem best_fit_no_overlap_witness:
  "\<exists>s F b c. client_run best_fit_alloc_pages best_fit_free_pages demo_area {2..<10} s F {b, c} \<and>
     b \<noteq> c \<and> frames_of b \<inter> frames_of c = {}"
proof -
  have i0: "pmm_inv demo_area {2..<10}"
    using demo_area_inv demo_area_frames by (auto simp: pmm_inv_def)
  obtain s1 where a1: "best_fit_alloc_pages 3 demo_area = Some (Some 2, s1)"
    and l1: "property (pages s1 5) = 5" and i1: "free_inv 1 s1 [5]"
  proof -
    have inv: "free_inv 1 demo_area ([] @ 2 # [])" using demo_area_inv by simp
    have p: "property (pages demo_area 2) = 8" by (simp add: demo_area_def)
    have "best_fit_alloc_pages 3 demo_area = Some (Some 2, take_block 3 2 demo_area)"
      by (rule best_fit_alloc_pages_cases [OF demo_area_inv, of 3]) (use p in \<open>auto simp: Cons_eq_append_conv\<close>)
    moreover have "free_inv 1 (take_block 3 2 demo_area) [5]"
      using take_block_inv(1) [OF inv, of 3] p by simp
    moreover have "property (pages (take_block 3 2 demo_area) 5) = 5"
      using p by (simp add: take_block_pages)
    ultimately show ?thesis using that by blast
  qed
  have a2: "best_fit_alloc_pages 2 s1 = Some (Some 5, take_block 2 5 s1)"
    by (rule best_fit_alloc_pages_cases [OF i1, of 2]) (use l1 in \<open>auto simp: Cons_eq_append_conv\<close>)
  have r1: "client_run best_fit_alloc_pages best_fit_free_pages demo_area {2..<10}
      s1 ({2..<10} - {2..<2 + 3}) {(2, 3)}"
    by (rule client_run.alloc, rule client_run.start, rule a1)
  have r: "client_run best_fit_alloc_pages best_fit_free_pages demo_area {2..<10}
      (take_block 2 5 s1) ({2..<10} - {2..<2 + 3} - {5..<5 + 2}) {(5, 2), (2, 3)}"
    by (rule client_run.alloc, rule r1, rule a2)
  have d: "frames_of (5, 2) \<inter> frames_of (2, 3) = {}"
    by (rule best_fit_no_overlap [OF i0 r]) auto
  show ?thesis by (intro exI conjI, rule r, simp, rule d)
qed

text \<open>
  \<open>best_fit_init_memmap\<close> on a block that lies behind every free block puts it at the head of the
  free list, not at its tail: the list is then no longer in address order.
\<close>

theorem best_fit_init_memmap_appends_at_head:
  assumes "free_inv 0 s xs" and "xs \<noteq> []" and "0 < n" and "\<forall>x \<in> set xs. x < base"
    and "\<forall>q \<in> {base..<base + n}. PageReserved (pages s q)"
  shows "\<exists>s'. best_fit_init_memmap base n s = Some s' \<and>
    dlist (links s') FreeList (map PageLink (base # xs)) \<and> \<not> sorted (base # xs)"
proof -
  have "\<not> sorted (base # xs)" using assms(2,4) by (cases xs) auto
  then show ?thesis using best_fit_init_memmap_head [OF assms(1,3,4,5)] by blast
qed

theorem best_fit_init_memmap_appends_at_head_witness:
  "\<exists>s'. best_fit_init_memmap 12 4 demo_area = Some s' \<and>
     dlist (links s') FreeList [PageLink 12, PageLink 2]"
proof -
  have "\<forall>q \<in> {12..<12 + 4}. PageReserved (pages demo_area q)"
    by (auto simp: demo_area_def PageReserved_def PG_reserved_def)
  moreover have "free_inv 0 demo_area [2]" by (rule free_inv_mono [OF demo_area_inv]) simp
  ultimately show ?thesis
    using best_fit_init_memmap_appends_at_head [where s = demo_area and xs = "[2]" and n = 4
        and base = 12] by auto
qed

end
