(* ===== verification/Buddy.thy ===== *)
theory Buddy
  imports PageAlloc
begin

text \<open>
  The buddy manager of \<open>lab2/kern/mm/buddy_pmm.c\<close>: eleven free lists, one per order, all linked
  through the same \<open>page_link\<close> fields. Physical addresses are 64-bit words; \<open>pa2page\<close> panics
  beyond \<open>npage\<close> as in \<open>pmm.h\<close>. An access to \<open>buddy_free_area[11]\<close>, one past the array, has no
  result in the model.
\<close>

section \<open>State and address arithmetic\<close>

datatype ble = FL nat | BL nat

fun ble_page :: "ble \<Rightarrow> nat" where
  "ble_page (BL p) = p"

record buddy =
  bpages :: "nat \<Rightarrow> page"
  blinks :: "ble links"
  bnr_free :: "nat \<Rightarrow> nat"
  npage :: u64

definition MAX_ORDER :: nat where "MAX_ORDER = 10"
definition nbase :: u64 where "nbase = 0x80000"

definition page2pa :: "nat \<Rightarrow> u64" where
  "page2pa p = push_bit 12 (of_nat p + nbase)"

definition pa2page :: "buddy \<Rightarrow> u64 \<Rightarrow> nat option" where
  "pa2page s pa = do {
     c_assert (drop_bit 12 pa < npage s \<and> nbase \<le> drop_bit 12 pa);
     Some (unat (drop_bit 12 pa - nbase))
   }"

definition upd_bpage :: "nat \<Rightarrow> (page \<Rightarrow> page) \<Rightarrow> buddy \<Rightarrow> buddy" where
  "upd_bpage p f s = s\<lparr>bpages := (bpages s)(p := f (bpages s p))\<rparr>"

lemma upd_bpage_simps [simp]:
  "bpages (upd_bpage p f s) = (bpages s)(p := f (bpages s p))"
  "blinks (upd_bpage p f s) = blinks s"
  "bnr_free (upd_bpage p f s) = bnr_free s"
  "npage (upd_bpage p f s) = npage s"
  by (simp_all add: upd_bpage_def)

text \<open>\<open>list_add(&buddy_free_area[order].free_list, &(p->page_link))\<close> and the counter.\<close>

definition push_free :: "nat \<Rightarrow> nat \<Rightarrow> buddy \<Rightarrow> buddy" where
  "push_free ord p s =
     s\<lparr>blinks := list_add (FL ord) (BL p) (blinks s),
       bnr_free := (bnr_free s)(ord := bnr_free s ord + 1)\<rparr>"

lemma push_free_simps [simp]:
  "bpages (push_free ord p s) = bpages s"
  "blinks (push_free ord p s) = list_add (FL ord) (BL p) (blinks s)"
  "bnr_free (push_free ord p s) = (bnr_free s)(ord := bnr_free s ord + 1)"
  "npage (push_free ord p s) = npage s"
  by (simp_all add: push_free_def)

section \<open>The operations\<close>

fun init_orders :: "nat \<Rightarrow> buddy \<Rightarrow> buddy" where
  "init_orders 0 s = s"
| "init_orders (Suc i) s =
     (let s' = init_orders i s in
      s'\<lparr>blinks := list_init (FL i) (blinks s'), bnr_free := (bnr_free s')(i := 0)\<rparr>)"

definition buddy_init :: "buddy \<Rightarrow> buddy" where
  "buddy_init s = init_orders (Suc MAX_ORDER) s"

text \<open>\<open>while ((1 << order) > n) order--;\<close>\<close>

fun down_order :: "nat \<Rightarrow> nat \<Rightarrow> nat" where
  "down_order 0 n = 0"
| "down_order (Suc ord) n = (if 2 ^ Suc ord > n then down_order ord n else Suc ord)"

text \<open>
  \<open>while ((1 << order) < n) order++;\<close> The shift is one of a 32-bit \<open>int\<close>, sign-extended to the
  64-bit \<open>size_t\<close> of \<open>n\<close>: \<open>1 << 31\<close> compares as \<open>2 ^ 64 - 2 ^ 31\<close>, where the loop ends for every
  number of pages there can be. Shifts by 32 and more, which are undefined, are not reached.
\<close>

definition int_shl :: "nat \<Rightarrow> nat" where
  "int_shl ord = unat (word_of_int (sint (push_bit ord 1 :: 32 word)) :: 64 word)"

function up_order :: "nat \<Rightarrow> nat \<Rightarrow> nat" where
  "up_order ord n = (if ord < 32 \<and> int_shl ord < n then up_order (Suc ord) n else ord)"
  by pat_completeness auto
termination
  by (relation "measure (\<lambda>(ord, n). 32 - ord)") auto

declare up_order.simps [simp del]

definition buddy_init_memmap :: "nat \<Rightarrow> nat \<Rightarrow> buddy \<Rightarrow> buddy option" where
  "buddy_init_memmap base n s = do {
     c_assert (n > 0);
     let ord = down_order MAX_ORDER n;
     let s1 = s\<lparr>blinks := list_add (FL ord) (BL base) (blinks s)\<rparr>;
     let s2 = upd_bpage base (\<lambda>pg. SetPageProperty (pg\<lparr>property := 2 ^ ord\<rparr>)) s1;
     Some (s2\<lparr>bnr_free := (bnr_free s2)(ord := bnr_free s2 ord + 1)\<rparr>)
   }"

text \<open>The splitting loop: from order \<open>cur\<close> down to \<open>ord\<close>, the upper halves go to the free lists.\<close>

fun split_down :: "nat \<Rightarrow> nat \<Rightarrow> nat \<Rightarrow> buddy \<Rightarrow> buddy" where
  "split_down ord 0 page s = s"
| "split_down ord (Suc cur) page s =
     (if ord < Suc cur then
        let bd = page + 2 ^ cur;
            s1 = upd_bpage bd (\<lambda>pg. SetPageProperty (pg\<lparr>property := 2 ^ cur\<rparr>)) s
        in split_down ord cur page (push_free cur bd s1)
      else s)"

text \<open>The search over the orders; \<open>k\<close> counts the orders left, \<open>Suc MAX_ORDER - cur\<close>.\<close>

fun alloc_from :: "nat \<Rightarrow> nat \<Rightarrow> nat \<Rightarrow> nat \<Rightarrow> buddy \<Rightarrow> nat option \<times> buddy" where
  "alloc_from 0 cur ord n s = (None, s)"
| "alloc_from (Suc k) cur ord n s =
     (if \<not> list_empty (FL cur) (blinks s) then
        let le = list_next (FL cur) (blinks s);
            page = ble_page le;
            s1 = s\<lparr>blinks := list_del le (blinks s),
                    bnr_free := (bnr_free s)(cur := bnr_free s cur - 1)\<rparr>;
            s2 = split_down ord cur page s1;
            s3 = upd_bpage page ClearPageProperty s2
        in (Some page, upd_bpage page (\<lambda>pg. pg\<lparr>property := n\<rparr>) s3)
      else alloc_from k (Suc cur) ord n s)"

definition buddy_alloc_pages :: "nat \<Rightarrow> buddy \<Rightarrow> nat option \<times> buddy" where
  "buddy_alloc_pages n s =
     (let ord = up_order 0 n in
      if ord > MAX_ORDER then (None, s)
      else alloc_from (Suc MAX_ORDER - ord) ord ord n s)"

text \<open>The merging loop: \<open>base\<close>'s buddy at each order, from its physical address.\<close>

fun merge_up :: "nat \<Rightarrow> nat \<Rightarrow> nat \<Rightarrow> buddy \<Rightarrow> (nat \<times> nat \<times> buddy) option" where
  "merge_up 0 ord base s = Some (ord, base, s)"
| "merge_up (Suc k) ord base s = do {
     let buddy_addr = xor (page2pa base) (push_bit (12 + ord) 1);
     bd \<leftarrow> pa2page s buddy_addr;
     if buddy_addr \<ge> npage s * 4096 \<or> \<not> PageProperty (bpages s bd) \<or>
        property (bpages s bd) \<noteq> 2 ^ ord
     then Some (ord, base, s)
     else do {
       let s1 = s\<lparr>blinks := list_del (BL bd) (blinks s)\<rparr>;
       let s2 = upd_bpage bd ClearPageProperty s1;
       merge_up k (Suc ord) (if base < bd then base else bd) s2
     }
   }"

definition buddy_free_pages :: "nat \<Rightarrow> nat \<Rightarrow> buddy \<Rightarrow> buddy option" where
  "buddy_free_pages base n s =
     (let ord = up_order 0 n in
      if PageProperty (bpages s base) then Some s
      else do {
        let s1 = upd_bpage base (\<lambda>pg. SetPageProperty (pg\<lparr>property := 2 ^ ord\<rparr>)) s;
        (ord', base', s2) \<leftarrow> merge_up (Suc MAX_ORDER - ord) ord base s1;
        c_assert (ord' \<le> MAX_ORDER);
        Some (push_free ord' base' s2)
      })"

definition buddy_nr_free_pages :: "buddy \<Rightarrow> nat" where
  "buddy_nr_free_pages s = (\<Sum>i \<leftarrow> [0..<Suc MAX_ORDER]. bnr_free s i * 2 ^ i)"

section \<open>Orders\<close>

lemma int_shl_small: "ord < 31 \<Longrightarrow> int_shl ord = 2 ^ ord"
proof -
  assume "ord < 31"
  then have "ord \<in> set [0..<31]" by simp
  moreover have "\<forall>i \<in> set [0..<31]. int_shl i = 2 ^ i" by (simp add: upt_rec int_shl_def)
  ultimately show ?thesis by blast
qed

lemma int_shl_31: "int_shl 31 = 2 ^ 64 - 2 ^ 31"
  by (simp add: int_shl_def)

lemma up_order_bounds:
  assumes "n \<le> 2 ^ 31" and "ord \<le> 31"
  shows "n \<le> 2 ^ up_order ord n \<and> ord \<le> up_order ord n \<and>
    (up_order ord n = ord \<or> 2 ^ (up_order ord n - 1) < n)"
  using assms
proof (induction ord n rule: up_order.induct)
  case (1 ord n)
  show ?case
  proof (cases "ord = 31")
    case True
    then show ?thesis using 1(2) by (simp add: up_order.simps [of 31 n] int_shl_31)
  next
    case False
    then have o: "ord < 31" using 1(3) by simp
    show ?thesis
    proof (cases "2 ^ ord < n")
      case True
      then have "n \<le> 2 ^ up_order (Suc ord) n \<and> Suc ord \<le> up_order (Suc ord) n \<and>
          (up_order (Suc ord) n = Suc ord \<or> 2 ^ (up_order (Suc ord) n - 1) < n)"
        using 1 o by (simp add: int_shl_small)
      then show ?thesis using True o by (auto simp: up_order.simps [of ord n] int_shl_small)
    qed (simp add: up_order.simps [of ord n] int_shl_small o)
  qed
qed

lemma up_order_large:
  assumes "2 ^ j < n" and "j < 31" and "ord \<le> Suc j"
  shows "j < up_order ord n"
  using assms
proof (induction ord n rule: up_order.induct)
  case (1 ord n)
  show ?case
  proof (cases "ord \<le> j")
    case True
    then have "(2::nat) ^ ord \<le> 2 ^ j" by simp
    then have "2 ^ ord < n" using 1(2) by (rule le_less_trans)
    then show ?thesis using 1 True by (simp add: up_order.simps [of ord n] int_shl_small)
  next
    case False
    have "ord \<le> up_order ord n"
    proof (induction ord n rule: up_order.induct)
      case (1 ord n)
      then show ?case by (cases "ord < 32 \<and> int_shl ord < n") (auto simp: up_order.simps [of ord n])
    qed
    then show ?thesis using False by simp
  qed
qed

lemma up_order_max: "up_order 0 n > MAX_ORDER \<longleftrightarrow> n > 2 ^ MAX_ORDER"
proof (cases "n > 2 ^ MAX_ORDER")
  case True
  then show ?thesis using up_order_large [of MAX_ORDER n 0] by (simp add: MAX_ORDER_def)
next
  case False
  then have "n \<le> 2 ^ 31" "\<not> up_order 0 n > MAX_ORDER"
  proof -
    show n: "n \<le> 2 ^ 31" using False by (simp add: MAX_ORDER_def)
    show "\<not> up_order 0 n > MAX_ORDER"
    proof
      assume m: "up_order 0 n > MAX_ORDER"
      then have "2 ^ (up_order 0 n - 1) < n" using up_order_bounds [OF n, of 0] by auto
      moreover have "(2::nat) ^ MAX_ORDER \<le> 2 ^ (up_order 0 n - 1)"
        using m by (intro power_increasing) auto
      ultimately show False using False by linarith
    qed
  qed
  then show ?thesis using False by simp
qed

lemma down_order_bounds: "0 < n \<Longrightarrow> 2 ^ down_order ord n \<le> n \<and> down_order ord n \<le> ord \<and>
    (down_order ord n = ord \<or> n < 2 ^ Suc (down_order ord n))"
proof (induction ord)
  case (Suc ord)
  show ?case
  proof (cases "2 ^ Suc ord > n")
    case True
    then have "down_order (Suc ord) n = down_order ord n" by simp
    with Suc True show ?thesis by (metis le_Suc_eq)
  qed simp
qed simp

section \<open>The invariant of the free lists\<close>

definition border :: "(nat \<Rightarrow> nat list) \<Rightarrow> nat \<Rightarrow> nat set" where
  "border bl ord = (\<Union>p \<in> set (bl ord). {p..<p + 2 ^ ord})"

definition blocks_disjoint :: "(nat \<Rightarrow> nat list) \<Rightarrow> bool" where
  "blocks_disjoint bl \<longleftrightarrow>
     (\<forall>i \<le> MAX_ORDER. \<forall>j \<le> MAX_ORDER. \<forall>p \<in> set (bl i). \<forall>q \<in> set (bl j).
        (i, p) \<noteq> (j, q) \<longrightarrow> {p..<p + 2 ^ i} \<inter> {q..<q + 2 ^ j} = {})"

text \<open>Every order's list is intact, no two free blocks overlap, and the counters are right.\<close>

definition buddy_inv :: "buddy \<Rightarrow> (nat \<Rightarrow> nat list) \<Rightarrow> bool" where
  "buddy_inv s bl \<longleftrightarrow>
     (\<forall>i \<le> MAX_ORDER. dlist (blinks s) (FL i) (map BL (bl i)) \<and> bnr_free s i = length (bl i)) \<and>
     blocks_disjoint bl"

definition buddy_frames :: "(nat \<Rightarrow> nat list) \<Rightarrow> nat set" where
  "buddy_frames bl = (\<Union>i \<in> {..MAX_ORDER}. \<Union>p \<in> set (bl i). {p..<p + 2 ^ i})"

lemma blocks_disjointD:
  "blocks_disjoint bl \<Longrightarrow> i \<le> MAX_ORDER \<Longrightarrow> j \<le> MAX_ORDER \<Longrightarrow> p \<in> set (bl i) \<Longrightarrow> q \<in> set (bl j) \<Longrightarrow>
   i \<noteq> j \<or> p \<noteq> q \<Longrightarrow> {p..<p + 2 ^ i} \<inter> {q..<q + 2 ^ j} = {}"
  unfolding blocks_disjoint_def by blast

lemma blocks_disjoint_subset:
  "blocks_disjoint bl \<Longrightarrow> (\<And>i. set (bl' i) \<subseteq> set (bl i)) \<Longrightarrow> blocks_disjoint bl'"
  unfolding blocks_disjoint_def by (meson subsetD)

lemma blocks_disjoint_push:
  assumes dis: "blocks_disjoint bl" and i: "i \<le> MAX_ORDER"
    and new: "{p..<p + 2 ^ i} \<inter> buddy_frames bl = {}"
  shows "blocks_disjoint (bl(i := p # bl i))"
proof -
  have n: "{p..<p + 2 ^ i} \<inter> {q..<q + 2 ^ j} = {}" if "j \<le> MAX_ORDER" "q \<in> set (bl j)" for j q
  proof -
    have "{q..<q + 2 ^ j} \<subseteq> buddy_frames bl" using that unfolding buddy_frames_def by blast
    then show ?thesis using new by blast
  qed
  show ?thesis
    unfolding blocks_disjoint_def
  proof (intro allI impI ballI)
    fix j k q r assume j: "j \<le> MAX_ORDER" and k: "k \<le> MAX_ORDER"
      and q: "q \<in> set ((bl(i := p # bl i)) j)" and r: "r \<in> set ((bl(i := p # bl i)) k)"
      and ne: "(j, q) \<noteq> (k, r)"
    consider "j = i" "q = p" | "q \<in> set (bl j)" using q by (auto split: if_splits)
    then show "{q..<q + 2 ^ j} \<inter> {r..<r + 2 ^ k} = {}"
    proof cases
      case 1
      then have "r \<in> set (bl k)" using r ne by (auto split: if_splits)
      then show ?thesis using n [OF k] 1 by simp
    next
      case 2
      consider "k = i" "r = p" | "r \<in> set (bl k)" using r by (auto split: if_splits)
      then show ?thesis
      proof cases
        case 1
        then show ?thesis using n [OF j 2] by (simp add: Int_commute)
      next
        case rr: 2
        then show ?thesis using blocks_disjointD [OF dis j k 2 rr] ne by blast
      qed
    qed
  qed
qed

lemma buddy_inv_apart:
  assumes "buddy_inv s bl" and "i \<le> MAX_ORDER" "j \<le> MAX_ORDER" "i \<noteq> j"
  shows "apart (FL i) (map BL (bl i)) (FL j) (map BL (bl j))"
proof -
  have "p \<noteq> q" if pq: "p \<in> set (bl i)" "q \<in> set (bl j)" for p q
  proof
    assume "p = q"
    moreover have "{p..<p + 2 ^ i} \<inter> {q..<q + 2 ^ j} = {}"
      using assms pq by (intro blocks_disjointD) (auto simp: buddy_inv_def)
    moreover have "p \<in> {p..<p + 2 ^ i}" "q \<in> {q..<q + 2 ^ j}" by simp_all
    ultimately show False by blast
  qed
  then show ?thesis using assms(4) by (auto simp: apart_def)
qed

lemma push_free_inv:
  assumes inv: "buddy_inv s bl" and i: "i \<le> MAX_ORDER"
    and new: "{p..<p + 2 ^ i} \<inter> buddy_frames bl = {}"
  shows "buddy_inv (push_free i p s) (bl(i := p # bl i))"
proof -
  have pnew: "p \<notin> set (bl j)" if "j \<le> MAX_ORDER" for j
  proof
    assume "p \<in> set (bl j)"
    then have "p \<in> buddy_frames bl" using that unfolding buddy_frames_def by fastforce
    moreover have "p \<in> {p..<p + 2 ^ i}" by simp
    ultimately show False using new by blast
  qed
  have dl: "dlist (blinks s) (FL j) (map BL (bl j))" "bnr_free s j = length (bl j)"
    if "j \<le> MAX_ORDER" for j using inv that by (auto simp: buddy_inv_def)
  have "dlist (blinks (push_free i p s)) (FL j) (map BL ((bl(i := p # bl i)) j))"
    if j: "j \<le> MAX_ORDER" for j
  proof (cases "j = i")
    case True
    then show ?thesis
      using pnew [OF i] list_add_dlist [OF dl(1) [OF i], of "BL p"] by auto
  next
    case False
    have "BL p \<notin> set (FL j # map BL (bl j))" using pnew [OF j] by auto
    then show ?thesis
      using False list_add_other [OF dl(1) [OF i] dl(1) [OF j] buddy_inv_apart [OF inv i j], of "BL p" "FL i"]
      by auto
  qed
  moreover have "blocks_disjoint (bl(i := p # bl i))"
    using inv i new by (intro blocks_disjoint_push) (auto simp: buddy_inv_def)
  ultimately show ?thesis
    using dl(2) unfolding buddy_inv_def by simp
qed

lemma upd_bpage_inv [simp]: "buddy_inv (upd_bpage p f s) bl = buddy_inv s bl"
  by (simp add: buddy_inv_def)

lemma buddy_frames_push: "i \<le> MAX_ORDER \<Longrightarrow>
    buddy_frames (bl(i := p # bl i)) = buddy_frames bl \<union> {p..<p + 2 ^ i}"
  by (auto simp: buddy_frames_def split: if_splits) (metis UN_I atMost_iff)+

lemma split_down_inv:
  assumes "buddy_inv s bl" and "ord \<le> cur" and "cur \<le> MAX_ORDER"
    and "{page..<page + 2 ^ cur} \<inter> buddy_frames bl = {}"
  shows "\<exists>bl'. buddy_inv (split_down ord cur page s) bl' \<and>
    buddy_frames bl' = buddy_frames bl \<union> {page + 2 ^ ord..<page + 2 ^ cur}"
  using assms
proof (induction cur arbitrary: s bl)
  case 0
  then show ?case by (intro exI [of _ bl]) auto
next
  case (Suc cur)
  show ?case
  proof (cases "ord < Suc cur")
    case False
    with Suc.prems(2) have "ord = Suc cur" by simp
    then show ?thesis using Suc.prems(1) by (intro exI [of _ bl]) simp
  next
    case True
    let ?bd = "page + 2 ^ cur"
    let ?s1 = "upd_bpage ?bd (\<lambda>pg. SetPageProperty (pg\<lparr>property := 2 ^ cur\<rparr>)) s"
    let ?bl1 = "bl(cur := ?bd # bl cur)"
    have cur: "cur \<le> MAX_ORDER" using Suc.prems(3) by simp
    have "{?bd..<?bd + 2 ^ cur} \<subseteq> {page..<page + 2 ^ Suc cur}" by auto
    then have "{?bd..<?bd + 2 ^ cur} \<inter> buddy_frames bl = {}" using Suc.prems(4) by blast
    then have i1: "buddy_inv (push_free cur ?bd ?s1) ?bl1"
      using Suc.prems(1) cur by (intro push_free_inv) simp_all
    have f1: "buddy_frames ?bl1 = buddy_frames bl \<union> {?bd..<?bd + 2 ^ cur}"
      using cur by (rule buddy_frames_push)
    have "{page..<page + 2 ^ cur} \<subseteq> {page..<page + 2 ^ Suc cur}" by auto
    then have "{page..<page + 2 ^ cur} \<inter> buddy_frames bl = {}" using Suc.prems(4) by blast
    moreover have "{page..<page + 2 ^ cur} \<inter> {?bd..<?bd + 2 ^ cur} = {}" by auto
    ultimately have "{page..<page + 2 ^ cur} \<inter> buddy_frames ?bl1 = {}"
      unfolding f1 by blast
    from Suc.IH [OF i1 _ cur this] True obtain bl' where
      bl': "buddy_inv (split_down ord cur page (push_free cur ?bd ?s1)) bl'"
      "buddy_frames bl' = buddy_frames ?bl1 \<union> {page + 2 ^ ord..<page + 2 ^ cur}"
      using less_Suc_eq_le by blast
    have "(2::nat) ^ ord \<le> 2 ^ cur" using True by (intro power_increasing) auto
    moreover have "{page + b..<page + b + b} \<union> {page + a..<page + b} = {page + a..<page + 2 * b}"
      if "a \<le> b" for a b using that by auto
    ultimately have "{?bd..<?bd + 2 ^ cur} \<union> {page + 2 ^ ord..<page + 2 ^ cur} =
        {page + 2 ^ ord..<page + 2 ^ Suc cur}" by (metis power_Suc)
    then have "buddy_frames bl' = buddy_frames bl \<union> {page + 2 ^ ord..<page + 2 ^ Suc cur}"
      unfolding bl'(2) f1 by blast
    then show ?thesis using bl'(1) True by (auto simp: Let_def)
  qed
qed

lemma alloc_from_inv:
  assumes "buddy_inv s bl" and "ord \<le> cur" and "cur + k = Suc MAX_ORDER"
  shows "(\<forall>i. cur \<le> i \<and> i \<le> MAX_ORDER \<longrightarrow> bl i = []) \<and> alloc_from k cur ord n s = (None, s) \<or>
    (\<exists>p s' bl'. alloc_from k cur ord n s = (Some p, s') \<and> buddy_inv s' bl' \<and>
      {p..<p + 2 ^ ord} \<subseteq> buddy_frames bl \<and>
      buddy_frames bl' = buddy_frames bl - {p..<p + 2 ^ ord})"
  using assms
proof (induction k arbitrary: cur)
  case 0
  then show ?case by auto
next
  case (Suc k)
  have cur: "cur \<le> MAX_ORDER" using Suc.prems(3) by simp
  have dl: "dlist (blinks s) (FL cur) (map BL (bl cur))"
    using Suc.prems(1) cur by (simp add: buddy_inv_def)
  show ?case
  proof (cases "bl cur")
    case Nil
    then have "list_empty (FL cur) (blinks s)" using list_empty_dlist [OF dl] by simp
    then have eq: "alloc_from (Suc k) cur ord n s = alloc_from k (Suc cur) ord n s" by simp
    have "bl i = []" if "\<forall>i. Suc cur \<le> i \<and> i \<le> MAX_ORDER \<longrightarrow> bl i = []" "cur \<le> i" "i \<le> MAX_ORDER" for i
      using that Nil by (cases "i = cur") auto
    then show ?thesis
      using Suc.IH [of "Suc cur"] Suc.prems unfolding eq by fastforce
  next
    case (Cons p ps)
    let ?s1 = "s\<lparr>blinks := list_del (BL p) (blinks s), bnr_free := (bnr_free s)(cur := bnr_free s cur - 1)\<rparr>"
    let ?bl1 = "bl(cur := ps)"
    have ne: "\<not> list_empty (FL cur) (blinks s)" using list_empty_dlist [OF dl] Cons by simp
    have nxt: "list_next (FL cur) (blinks s) = BL p"
      using list_next_head_dlist [OF dl] Cons by simp
    have dlj: "dlist (blinks s) (FL j) (map BL (bl j))" "bnr_free s j = length (bl j)"
      if "j \<le> MAX_ORDER" for j using Suc.prems(1) that by (auto simp: buddy_inv_def)
    have "dlist (blinks ?s1) (FL j) (map BL (?bl1 j))" if j: "j \<le> MAX_ORDER" for j
    proof (cases "j = cur")
      case True
      then show ?thesis
        using dl Cons list_del_dlist [of "blinks s" "FL cur" "[]" "BL p" "map BL ps"] by simp
    next
      case False
      then show ?thesis
        using Cons list_del_other [OF dl dlj(1) [OF j] buddy_inv_apart [OF Suc.prems(1) cur j], of "BL p"]
        by auto
    qed
    moreover have sub: "set (?bl1 j) \<subseteq> set (bl j)" for j using Cons by auto
    moreover have dj: "blocks_disjoint bl" using Suc.prems(1) by (simp add: buddy_inv_def)
    moreover have "blocks_disjoint ?bl1" by (rule blocks_disjoint_subset [OF dj sub])
    ultimately have i1: "buddy_inv ?s1 ?bl1"
      using dlj(2) Cons unfolding buddy_inv_def by auto
    have pin: "{p..<p + 2 ^ cur} \<subseteq> buddy_frames bl"
      unfolding buddy_frames_def using Cons cur by fastforce
    have "p \<notin> set ps" using dlist_distinct [OF dl] Cons by (auto simp: distinct_map)
    have dis: "{p..<p + 2 ^ cur} \<inter> {q..<q + 2 ^ j} = {}"
      if j: "j \<le> MAX_ORDER" and q: "q \<in> set (?bl1 j)" for j q
    proof (rule blocks_disjointD [OF dj cur j])
      show "p \<in> set (bl cur)" using Cons by simp
      show "q \<in> set (bl j)" using q sub by blast
      show "cur \<noteq> j \<or> p \<noteq> q" using q \<open>p \<notin> set ps\<close> by auto
    qed
    then have f1: "{p..<p + 2 ^ cur} \<inter> buddy_frames ?bl1 = {}"
      unfolding buddy_frames_def by blast
    have f2: "buddy_frames bl = buddy_frames ?bl1 \<union> {p..<p + 2 ^ cur}"
      using buddy_frames_push [OF cur, of ?bl1 p] Cons by (simp add: fun_upd_idem)
    from split_down_inv [OF i1 Suc.prems(2) cur f1] obtain bl' where
      bl': "buddy_inv (split_down ord cur p ?s1) bl'"
      "buddy_frames bl' = buddy_frames ?bl1 \<union> {p + 2 ^ ord..<p + 2 ^ cur}" by blast
    have le: "(2::nat) ^ ord \<le> 2 ^ cur" using Suc.prems(2) by (intro power_increasing) auto
    have eq: "{p + 2 ^ ord..<p + 2 ^ cur} = {p..<p + 2 ^ cur} - {p..<p + 2 ^ ord}"
      and sub2: "{p..<p + 2 ^ ord} \<subseteq> {p..<p + 2 ^ cur}" using le by auto
    have "buddy_frames bl' = buddy_frames bl - {p..<p + 2 ^ ord}"
      unfolding bl'(2) f2 eq using f1 sub2 by blast
    moreover have "{p..<p + 2 ^ ord} \<subseteq> buddy_frames bl" using pin sub2 by blast
    ultimately show ?thesis
      using ne nxt bl'(1) by (auto simp: Let_def)
  qed
qed

section \<open>Properties\<close>

text \<open>
  C5: \<open>buddy_alloc_pages\<close> rounds the request up to a power of two \<open>2^k\<close> (for up to \<open>2^31\<close> pages, the
  range of the \<open>int\<close> shift; \<open>k\<close> exceeds the largest order exactly when the request does). When it
  fails, the state is unchanged and the request is larger than the largest order or no block of order \<open>k\<close> or more is
  free; when it succeeds, \<open>2^k\<close> contiguous frames that were free leave the free set, everything split
  off stays free, and the lists and counters stay intact.
\<close>

theorem buddy_alloc_correct:
  assumes "buddy_inv s bl"
  shows "let k = up_order 0 n in
    (n \<le> 2 ^ 31 \<longrightarrow> n \<le> 2 ^ k \<and> (k = 0 \<or> 2 ^ (k - 1) < n)) \<and> (k > MAX_ORDER \<longleftrightarrow> n > 2 ^ MAX_ORDER) \<and>
    ((k > MAX_ORDER \<or> (\<forall>i. k \<le> i \<and> i \<le> MAX_ORDER \<longrightarrow> bl i = [])) \<and>
       buddy_alloc_pages n s = (None, s) \<or>
     (\<exists>p s' bl'. buddy_alloc_pages n s = (Some p, s') \<and> buddy_inv s' bl' \<and>
       {p..<p + 2 ^ k} \<subseteq> buddy_frames bl \<and>
       buddy_frames bl' = buddy_frames bl - {p..<p + 2 ^ k}))"
proof (cases "up_order 0 n > MAX_ORDER")
  case True
  then show ?thesis using up_order_bounds [of n 0] up_order_max [of n] by (simp add: buddy_alloc_pages_def)
next
  case False
  then show ?thesis
    using up_order_bounds [of n 0] up_order_max [of n]
      alloc_from_inv [OF assms order_refl, of "up_order 0 n" "Suc MAX_ORDER - up_order 0 n" n]
    by (simp add: buddy_alloc_pages_def Let_def)
qed

text \<open>Sixteen pages above \<open>nbase\<close>, page 0 heads one free block of order 3.\<close>

definition demo_buddy :: buddy where
  "demo_buddy = \<lparr>bpages = (\<lambda>p. \<lparr>ref = 0, flags = (if p = 0 then 2 else 0), property = (if p = 0 then 8 else 0)\<rparr>),
     blinks = \<lparr>lprev = (\<lambda>e. case e of FL i \<Rightarrow> (if i = 3 then BL 0 else FL i) | BL p \<Rightarrow> FL 3),
               lnext = (\<lambda>e. case e of FL i \<Rightarrow> (if i = 3 then BL 0 else FL i) | BL p \<Rightarrow> FL 3)\<rparr>,
     bnr_free = (\<lambda>i. if i = 3 then 1 else 0), npage = 0x80010\<rparr>"

lemma demo_buddy_inv: "buddy_inv demo_buddy (\<lambda>i. if i = 3 then [0] else [])"
  by (auto simp: demo_buddy_def buddy_inv_def dlist_def blocks_disjoint_def split: if_splits)

theorem buddy_alloc_correct_witness:
  "\<exists>p s' bl'. buddy_alloc_pages 3 demo_buddy = (Some p, s') \<and> buddy_inv s' bl' \<and>
     {p..<p + 4} \<subseteq> {0..<8} \<and> buddy_frames bl' = {0..<8} - {p..<p + 4}"
proof -
  have k: "up_order 0 3 = 2" by (simp add: up_order.simps int_shl_def)
  have f: "buddy_frames (\<lambda>i. if i = 3 then [0] else []) = {0..<8}"
    by (auto simp: buddy_frames_def MAX_ORDER_def split: if_splits)
  have "\<not> (\<forall>i::nat. 2 \<le> i \<and> i \<le> 10 \<longrightarrow> (if i = 3 then [0::nat] else []) = [])"
    by (auto intro!: exI [of _ "3::nat"])
  then show ?thesis
    using buddy_alloc_correct [OF demo_buddy_inv, of 3] by (auto simp: k f MAX_ORDER_def)
qed

text \<open>
  \<open>buddy_init_memmap\<close> keeps only the largest power-of-two prefix of the region, at most
  \<open>2^MAX_ORDER\<close> pages: it adds one block of order \<open>k\<close> with \<open>2^k \<le> n\<close>, and \<open>buddy_nr_free_pages\<close>
  grows by \<open>2^k\<close>, so every page of the region behind it is never handed out.
\<close>

theorem buddy_init_memmap_keeps_one_block:
  assumes "0 < n"
  shows "\<exists>s'. buddy_init_memmap base n s = Some s' \<and>
    buddy_nr_free_pages s' = buddy_nr_free_pages s + 2 ^ down_order MAX_ORDER n \<and>
    2 ^ down_order MAX_ORDER n \<le> n \<and> 2 ^ down_order MAX_ORDER n \<le> (1024::nat)"
proof -
  let ?k = "down_order MAX_ORDER n"
  have k: "2 ^ ?k \<le> n" "?k \<le> MAX_ORDER" using down_order_bounds [OF assms, of MAX_ORDER] by auto
  then have "(2::nat) ^ ?k \<le> 2 ^ MAX_ORDER" by (intro power_increasing) auto
  moreover have "(\<Sum>i \<leftarrow> [0..<m]. ((f(k := f k + 1)) i) * 2 ^ i) =
      (\<Sum>i \<leftarrow> [0..<m]. f i * 2 ^ i) + (if k < m then 2 ^ k else (0::nat))" for f :: "nat \<Rightarrow> nat" and k m
    by (induction m) (auto simp: less_Suc_eq algebra_simps)
  ultimately show ?thesis
    using k assms by (simp add: buddy_init_memmap_def buddy_nr_free_pages_def MAX_ORDER_def less_Suc_eq_le
        Let_def)
qed

theorem buddy_init_memmap_keeps_one_block_witness:
  "\<exists>s'. buddy_init_memmap 0 5000 demo_buddy = Some s' \<and>
     buddy_nr_free_pages s' \<le> buddy_nr_free_pages demo_buddy + 1024"
  using buddy_init_memmap_keeps_one_block [of 5000 0 demo_buddy] by fastforce

text \<open>The free pages before and after the round trip, and the \<open>property\<close> of the freed page.\<close>

definition buddy_roundtrip :: "(nat \<times> nat \<times> nat) option" where
  "buddy_roundtrip =
     (case buddy_alloc_pages 1 demo_buddy of
        (None, _) \<Rightarrow> None
      | (Some p, s1) \<Rightarrow> do {
          s2 \<leftarrow> buddy_free_pages p 1 s1;
          Some (buddy_nr_free_pages demo_buddy, buddy_nr_free_pages s2, property (bpages s2 p))
        })"

text \<open>
  Allocating one page from a single free block of eight and giving it back does not restore the
  counters: merging does not decrement the counters of the orders it empties, so
  \<open>buddy_nr_free_pages\<close> then reports 15 free pages of 8, and the merged block keeps the
  \<open>property\<close> of one page.
\<close>

theorem buddy_roundtrip_miscounts: "buddy_roundtrip = Some (8, 15, 1)"
  by code_simp

end
