(* ===== verification/SkewHeap.thy ===== *)
theory SkewHeap
  imports Prelude "HOL-Library.Tree_Multiset"
begin

text \<open>
  The pointer-based skew heap of \<open>libs/skew_heap.h\<close> (the same file in labs 6 to 8): entries with
  parent, left and right pointers, merged destructively. \<open>sk_tree h p t\<close> says that the pointer \<open>p\<close>
  leads to the shape \<open>t\<close>, \<open>kids_par\<close> that the parent pointers below the root are right. Each
  operation is shown to be a function on shapes, whatever the comparison function does.
\<close>

section \<open>Entries and operations\<close>

record 'a skew =
  parent :: "'a \<Rightarrow> 'a option"
  left :: "'a \<Rightarrow> 'a option"
  right :: "'a \<Rightarrow> 'a option"

definition set_parent :: "'a \<Rightarrow> 'a option \<Rightarrow> 'a skew \<Rightarrow> 'a skew" where
  "set_parent x v h = h\<lparr>parent := (parent h)(x := v)\<rparr>"

definition set_left :: "'a \<Rightarrow> 'a option \<Rightarrow> 'a skew \<Rightarrow> 'a skew" where
  "set_left x v h = h\<lparr>left := (left h)(x := v)\<rparr>"

definition set_right :: "'a \<Rightarrow> 'a option \<Rightarrow> 'a skew \<Rightarrow> 'a skew" where
  "set_right x v h = h\<lparr>right := (right h)(x := v)\<rparr>"

lemma set_fields [simp]:
  "parent (set_parent x v h) = (parent h)(x := v)" "left (set_parent x v h) = left h"
  "right (set_parent x v h) = right h" "parent (set_left x v h) = parent h"
  "left (set_left x v h) = (left h)(x := v)" "right (set_left x v h) = right h"
  "parent (set_right x v h) = parent h" "left (set_right x v h) = left h"
  "right (set_right x v h) = (right h)(x := v)"
  by (simp_all add: set_parent_def set_left_def set_right_def)

definition skew_heap_init :: "'a \<Rightarrow> 'a skew \<Rightarrow> 'a skew" where
  "skew_heap_init a h = set_left a None (set_right a None (set_parent a None h))"

definition link_parent :: "'a option \<Rightarrow> 'a option \<Rightarrow> 'a skew \<Rightarrow> 'a skew" where
  "link_parent l p h = (case l of None \<Rightarrow> h | Some z \<Rightarrow> set_parent z p h)"

partial_function (option) skew_heap_merge ::
  "('a \<Rightarrow> 'a \<Rightarrow> int) \<Rightarrow> 'a option \<Rightarrow> 'a option \<Rightarrow> 'a skew \<Rightarrow> ('a option \<times> 'a skew) option" where
  "skew_heap_merge cmp a b h =
     (case a of
        None \<Rightarrow> Some (b, h)
      | Some x \<Rightarrow>
          (case b of
             None \<Rightarrow> Some (a, h)
           | Some y \<Rightarrow>
               if cmp x y = -1 then do {
                 let r = left h x;
                 (l, h1) \<leftarrow> skew_heap_merge cmp (right h x) b h;
                 Some (a, link_parent l a (set_right x r (set_left x l h1)))
               } else do {
                 let r = left h y;
                 (l, h1) \<leftarrow> skew_heap_merge cmp a (right h y) h;
                 Some (b, link_parent l b (set_right y r (set_left y l h1)))
               }))"

declare skew_heap_merge.simps [code]

definition skew_heap_insert ::
  "('a \<Rightarrow> 'a \<Rightarrow> int) \<Rightarrow> 'a option \<Rightarrow> 'a \<Rightarrow> 'a skew \<Rightarrow> ('a option \<times> 'a skew) option" where
  "skew_heap_insert cmp a b h = skew_heap_merge cmp a (Some b) (skew_heap_init b h)"

definition skew_heap_remove ::
  "('a \<Rightarrow> 'a \<Rightarrow> int) \<Rightarrow> 'a option \<Rightarrow> 'a \<Rightarrow> 'a skew \<Rightarrow> ('a option \<times> 'a skew) option" where
  "skew_heap_remove cmp a b h = do {
     let p = parent h b;
     (rep, h1) \<leftarrow> skew_heap_merge cmp (left h b) (right h b) h;
     let h2 = link_parent rep p h1;
     (case p of
        None \<Rightarrow> Some (rep, h2)
      | Some q \<Rightarrow>
          if left h2 q = Some b then Some (a, set_left q rep h2)
          else Some (a, set_right q rep h2))
   }"

section \<open>Shapes\<close>

fun sk_tree :: "'a skew \<Rightarrow> 'a option \<Rightarrow> 'a tree \<Rightarrow> bool" where
  "sk_tree h p Leaf = (p = None)"
| "sk_tree h p (Node l x r) = (p = Some x \<and> sk_tree h (left h x) l \<and> sk_tree h (right h x) r)"

fun root :: "'a tree \<Rightarrow> 'a option" where
  "root Leaf = None"
| "root (Node l x r) = Some x"

definition root_par :: "'a skew \<Rightarrow> 'a option \<Rightarrow> 'a tree \<Rightarrow> bool" where
  "root_par h q t \<longleftrightarrow> (\<forall>x. root t = Some x \<longrightarrow> parent h x = q)"

fun kids_par :: "'a skew \<Rightarrow> 'a tree \<Rightarrow> bool" where
  "kids_par h Leaf = True"
| "kids_par h (Node l x r) =
     (root_par h (Some x) l \<and> root_par h (Some x) r \<and> kids_par h l \<and> kids_par h r)"

definition sk_heap :: "'a skew \<Rightarrow> 'a option \<Rightarrow> 'a tree \<Rightarrow> bool" where
  "sk_heap h p t \<longleftrightarrow> sk_tree h p t \<and> kids_par h t \<and> distinct (inorder t)"

lemma root_in: "root t = Some x \<Longrightarrow> x \<in> set_tree t"
  by (cases t) auto

lemma sk_tree_root: "sk_tree h p t \<Longrightarrow> p = root t"
  by (cases t) auto

lemma sk_tree_cong:
  "sk_tree h p t \<Longrightarrow> (\<And>x. x \<in> set_tree t \<Longrightarrow> left h' x = left h x \<and> right h' x = right h x) \<Longrightarrow>
   sk_tree h' p t"
  by (induction t arbitrary: p) auto

lemma root_par_cong:
  "root_par h q t \<Longrightarrow> (\<And>x. x \<in> set_tree t \<Longrightarrow> parent h' x = parent h x) \<Longrightarrow> root_par h' q t"
  by (auto simp: root_par_def dest: root_in)

lemma kids_par_cong:
  "kids_par h t \<Longrightarrow> (\<And>x. x \<in> set_tree t \<Longrightarrow> parent h' x = parent h x) \<Longrightarrow> kids_par h' t"
  by (induction t) (auto intro: root_par_cong)

lemma kids_par_cong_nonroot:
  "kids_par h t \<Longrightarrow> distinct (inorder t) \<Longrightarrow>
   (\<And>x. x \<in> set_tree t \<Longrightarrow> Some x \<noteq> root t \<Longrightarrow> parent h' x = parent h x) \<Longrightarrow> kids_par h' t"
  by (cases t) (auto intro!: root_par_cong [of h] kids_par_cong [of h])

text \<open>Merging shapes.\<close>

function smerge :: "('a \<Rightarrow> 'a \<Rightarrow> int) \<Rightarrow> 'a tree \<Rightarrow> 'a tree \<Rightarrow> 'a tree" where
  "smerge cmp Leaf t = t"
| "smerge cmp (Node l x r) Leaf = Node l x r"
| "smerge cmp (Node l1 x r1) (Node l2 y r2) =
     (if cmp x y = -1 then Node (smerge cmp r1 (Node l2 y r2)) x l1
      else Node (smerge cmp (Node l1 x r1) r2) y l2)"
  by pat_completeness auto
termination
  by (relation "measure (\<lambda>(c, s, t). size s + size t)") auto

lemma smerge_Leaf2 [simp]: "smerge cmp t Leaf = t"
  by (cases t) auto

lemma mset_smerge: "mset_tree (smerge cmp s t) = mset_tree s + mset_tree t"
  by (induction cmp s t rule: smerge.induct) (auto simp: ac_simps)

lemma set_smerge [simp]: "set_tree (smerge cmp s t) = set_tree s \<union> set_tree t"
  by (induction cmp s t rule: smerge.induct) auto

lemma distinct_smerge:
  "distinct (inorder s) \<Longrightarrow> distinct (inorder t) \<Longrightarrow> set_tree s \<inter> set_tree t = {} \<Longrightarrow>
   distinct (inorder (smerge cmp s t))"
  by (induction cmp s t rule: smerge.induct) (auto simp: disjoint_iff)

section \<open>The pointer operations compute the shapes\<close>

text \<open>
  One level of the merge: \<open>x\<close> heads \<open>Node l x r\<close>, the merge of \<open>r\<close> with another heap has left the
  entries outside \<open>U\<close> alone and returned \<open>p\<close>, the root of \<open>u\<close>; the node is rebuilt with \<open>u\<close> on the
  left and its old left child on the right.
\<close>

lemma merge_node_step:
  assumes h: "sk_heap h (Some x) (Node l x r)" and sk: "sk_heap h1 p u"
    and xU: "x \<notin> set_tree u" and lU: "set_tree l \<inter> set_tree u = {}"
    and fr: "\<And>z. z \<notin> set_tree u \<Longrightarrow>
      left h1 z = left h z \<and> right h1 z = right h z \<and> parent h1 z = parent h z"
  defines "h' \<equiv> link_parent p (Some x) (set_right x (left h x) (set_left x p h1))"
  shows "sk_heap h' (Some x) (Node u x l)"
    and "z \<notin> insert x (set_tree u) \<Longrightarrow>
      left h' z = left h z \<and> right h' z = right h z \<and> parent h' z = parent h z"
    and "parent h' x = parent h x"
proof -
  have proot: "p = root u" using sk by (auto simp: sk_heap_def dest: sk_tree_root)
  have pin: "\<And>z. p = Some z \<Longrightarrow> z \<in> set_tree u" using proot root_in by metis
  have lr: "left h' = (left h1)(x := p)" "right h' = (right h1)(x := left h x)"
    unfolding h'_def by (auto simp: link_parent_def split: option.splits)
  have par: "parent h' z = (if p = Some z then Some x else parent h1 z)" for z
    unfolding h'_def by (auto simp: link_parent_def split: option.splits)
  have xl: "x \<notin> set_tree l" "distinct (inorder l)" using h by (auto simp: sk_heap_def)
  have lout: "z \<notin> set_tree u" "p \<noteq> Some z" "z \<noteq> x" if "z \<in> set_tree l" for z
    using that lU pin xl by auto
  have "sk_tree h' p u" using sk xU lr by (auto simp: sk_heap_def elim!: sk_tree_cong)
  moreover have "sk_tree h' (left h x) l"
    by (rule sk_tree_cong [of h]) (use h fr lout lr in \<open>auto simp: sk_heap_def\<close>)
  moreover have "root_par h' (Some x) u" using proot par by (auto simp: root_par_def)
  moreover have "root_par h' (Some x) l"
    by (rule root_par_cong [of h]) (use h fr lout par in \<open>auto simp: sk_heap_def\<close>)
  moreover have "kids_par h' u"
    using sk proot par by (auto simp: sk_heap_def intro: kids_par_cong_nonroot [of h1])
  moreover have "kids_par h' l"
    by (rule kids_par_cong [of h]) (use h fr lout par in \<open>auto simp: sk_heap_def\<close>)
  moreover have "distinct (inorder (Node u x l))"
    using sk xU lU xl by (auto simp: sk_heap_def)
  ultimately show "sk_heap h' (Some x) (Node u x l)" using lr by (simp add: sk_heap_def)
  show "z \<notin> insert x (set_tree u) \<Longrightarrow>
      left h' z = left h z \<and> right h' z = right h z \<and> parent h' z = parent h z"
    using fr [of z] lr par pin by auto
  show "parent h' x = parent h x" using fr [OF xU] par pin xU by auto
qed

lemma skew_heap_merge_refines:
  assumes "sk_heap h a s" and "sk_heap h b t" and "set_tree s \<inter> set_tree t = {}"
  shows "\<exists>p h'. skew_heap_merge cmp a b h = Some (p, h') \<and> sk_heap h' p (smerge cmp s t) \<and>
    (\<forall>z. z \<notin> set_tree s \<union> set_tree t \<longrightarrow>
       left h' z = left h z \<and> right h' z = right h z \<and> parent h' z = parent h z) \<and>
    (\<forall>z. p = Some z \<longrightarrow> parent h' z = parent h z)"
  using assms
proof (induction cmp s t arbitrary: a b h rule: smerge.induct)
  case (1 cmp t)
  then show ?case by (subst skew_heap_merge.simps) (auto simp: sk_heap_def)
next
  case (2 cmp l x r)
  then show ?case by (subst skew_heap_merge.simps) (auto simp: sk_heap_def)
next
  case (3 cmp l1 x r1 l2 y r2)
  let ?s = "Node l1 x r1" and ?t = "Node l2 y r2"
  have a: "a = Some x" and b: "b = Some y" using 3(3,4) by (auto simp: sk_heap_def)
  show ?case
  proof (cases "cmp x y = -1")
    case True
    have "sk_heap h (right h x) r1" "set_tree r1 \<inter> set_tree ?t = {}"
      using 3(3,5) by (auto simp: sk_heap_def)
    then obtain p h1 where m: "skew_heap_merge cmp (right h x) b h = Some (p, h1)"
      and sk: "sk_heap h1 p (smerge cmp r1 ?t)"
      and fr: "\<And>z. z \<notin> set_tree (smerge cmp r1 ?t) \<Longrightarrow>
        left h1 z = left h z \<and> right h1 z = right h z \<and> parent h1 z = parent h z"
      using 3(1) [OF True _ 3(4)] unfolding set_smerge by blast
    let ?h' = "link_parent p (Some x) (set_right x (left h x) (set_left x p h1))"
    have out: "x \<notin> set_tree (smerge cmp r1 ?t)" "set_tree l1 \<inter> set_tree (smerge cmp r1 ?t) = {}"
      using 3(3,5) by (auto simp: sk_heap_def)
    note step = merge_node_step [OF 3(3) [unfolded a] sk out fr]
    have "skew_heap_merge cmp a b h = Some (Some x, ?h')"
      using True m a b by (subst skew_heap_merge.simps) simp
    then show ?thesis using step True by auto
  next
    case False
    have "sk_heap h (right h y) r2" "set_tree ?s \<inter> set_tree r2 = {}"
      using 3(4,5) by (auto simp: sk_heap_def)
    then obtain p h1 where m: "skew_heap_merge cmp a (right h y) h = Some (p, h1)"
      and sk: "sk_heap h1 p (smerge cmp ?s r2)"
      and fr: "\<And>z. z \<notin> set_tree (smerge cmp ?s r2) \<Longrightarrow>
        left h1 z = left h z \<and> right h1 z = right h z \<and> parent h1 z = parent h z"
      using 3(2) [OF False 3(3)] unfolding set_smerge by blast
    let ?h' = "link_parent p (Some y) (set_right y (left h y) (set_left y p h1))"
    have out: "y \<notin> set_tree (smerge cmp ?s r2)" "set_tree l2 \<inter> set_tree (smerge cmp ?s r2) = {}"
      using 3(4,5) by (auto simp: sk_heap_def)
    note step = merge_node_step [OF 3(4) [unfolded b] sk out fr]
    have "skew_heap_merge cmp a b h = Some (Some y, ?h')"
      using False m a b by (subst skew_heap_merge.simps) simp
    then show ?thesis using step False by auto
  qed
qed

text \<open>A queue: a heap whose root has no parent.\<close>

definition sk_queue :: "'a skew \<Rightarrow> 'a option \<Rightarrow> 'a tree \<Rightarrow> bool" where
  "sk_queue h p t \<longleftrightarrow> sk_heap h p t \<and> root_par h None t"

definition sinsert :: "('a \<Rightarrow> 'a \<Rightarrow> int) \<Rightarrow> 'a tree \<Rightarrow> 'a \<Rightarrow> 'a tree" where
  "sinsert cmp t b = smerge cmp t (Node Leaf b Leaf)"

lemma skew_heap_insert_refines:
  assumes q: "sk_queue h a t" and b: "b \<notin> set_tree t"
  shows "\<exists>p h'. skew_heap_insert cmp a b h = Some (p, h') \<and> sk_queue h' p (sinsert cmp t b) \<and>
    (\<forall>z. z \<notin> insert b (set_tree t) \<longrightarrow>
       left h' z = left h z \<and> right h' z = right h z \<and> parent h' z = parent h z)"
proof -
  let ?h0 = "skew_heap_init b h"
  have out: "left ?h0 z = left h z" "right ?h0 z = right h z" "parent ?h0 z = parent h z"
    if "z \<noteq> b" for z using that by (auto simp: skew_heap_init_def)
  have ne: "z \<noteq> b" if "z \<in> set_tree t" for z using that b by auto
  have "sk_tree ?h0 a t"
    by (rule sk_tree_cong [of h]) (use q out ne in \<open>auto simp: sk_queue_def sk_heap_def\<close>)
  moreover have "kids_par ?h0 t"
    by (rule kids_par_cong [of h]) (use q out ne in \<open>auto simp: sk_queue_def sk_heap_def\<close>)
  ultimately have q0: "sk_heap ?h0 a t" using q by (simp add: sk_queue_def sk_heap_def)
  have r0: "root_par ?h0 None t"
    by (rule root_par_cong [of h]) (use q out ne in \<open>auto simp: sk_queue_def\<close>)
  have n0: "sk_heap ?h0 (Some b) (Node Leaf b Leaf)"
    by (auto simp: sk_heap_def skew_heap_init_def root_par_def)
  from skew_heap_merge_refines [OF q0 n0, of cmp] b obtain p h' where
    m: "skew_heap_merge cmp a (Some b) ?h0 = Some (p, h')"
    and sk: "sk_heap h' p (smerge cmp t (Node Leaf b Leaf))"
    and fr: "\<forall>z. z \<notin> set_tree t \<union> set_tree (Node Leaf b Leaf) \<longrightarrow>
       left h' z = left ?h0 z \<and> right h' z = right ?h0 z \<and> parent h' z = parent ?h0 z"
    and pr: "\<forall>z. p = Some z \<longrightarrow> parent h' z = parent ?h0 z" by auto
  have "root (smerge cmp t (Node Leaf b Leaf)) \<in> {root t, Some b}"
    by (cases t) auto
  then have "root_par h' None (smerge cmp t (Node Leaf b Leaf))"
    using sk pr r0 by (auto simp: root_par_def sk_heap_def skew_heap_init_def dest!: sk_tree_root)
  then show ?thesis
    using m sk fr out by (auto simp: skew_heap_insert_def sk_queue_def sinsert_def)
qed

text \<open>Removing an entry: its two subtrees are merged in its place.\<close>

fun sremove :: "('a \<Rightarrow> 'a \<Rightarrow> int) \<Rightarrow> 'a \<Rightarrow> 'a tree \<Rightarrow> 'a tree" where
  "sremove cmp b Leaf = Leaf"
| "sremove cmp b (Node l x r) =
     (if x = b then smerge cmp l r else Node (sremove cmp b l) x (sremove cmp b r))"

fun subtree_at :: "'a \<Rightarrow> 'a tree \<Rightarrow> 'a tree" where
  "subtree_at b Leaf = Leaf"
| "subtree_at b (Node l x r) =
     (if x = b then Node l x r else if b \<in> set_tree l then subtree_at b l else subtree_at b r)"

lemma sremove_notin [simp]: "b \<notin> set_tree t \<Longrightarrow> sremove cmp b t = t"
  by (induction t) auto

lemma subtree_at_set: "set_tree (subtree_at b t) \<subseteq> set_tree t"
  by (induction t) auto

lemma mset_sremove:
  "b \<in> set_tree t \<Longrightarrow> distinct (inorder t) \<Longrightarrow> mset_tree (sremove cmp b t) + {#b#} = mset_tree t"
proof (induction t)
  case (Node l x r)
  show ?case
  proof (cases "x = b")
    case False
    with Node.prems consider "b \<in> set_tree l" "b \<notin> set_tree r" | "b \<in> set_tree r" "b \<notin> set_tree l"
      by auto
    then show ?thesis using Node False by cases (auto simp: ac_simps)
  qed (simp add: mset_smerge)
qed simp

lemma set_sremove: "distinct (inorder t) \<Longrightarrow> set_tree (sremove cmp b t) = set_tree t - {b}"
  by (induction t) auto

lemma distinct_sremove: "distinct (inorder t) \<Longrightarrow> distinct (inorder (sremove cmp b t))"
  by (induction t) (auto simp: set_sremove intro!: distinct_smerge)

lemma subtree_at_Node:
  "b \<in> set_tree t \<Longrightarrow> \<exists>l r. subtree_at b t = Node l b r"
  by (induction t) auto

lemma subtree_at_sk:
  "sk_tree h p t \<Longrightarrow> kids_par h t \<Longrightarrow> distinct (inorder t) \<Longrightarrow> b \<in> set_tree t \<Longrightarrow>
   sk_heap h (Some b) (subtree_at b t)"
  by (induction t arbitrary: p) (auto simp: sk_heap_def split: if_splits)

lemma parent_in:
  "kids_par h t \<Longrightarrow> b \<in> set_tree t \<Longrightarrow> root t \<noteq> Some b \<Longrightarrow> \<exists>q \<in> set_tree t. parent h b = Some q"
proof (induction t)
  case (Node l x r)
  then have "b \<in> set_tree l \<or> b \<in> set_tree r" by auto
  then show ?case
    using Node by (auto simp: root_par_def)
qed simp

text \<open>
  Removing an entry below the root: the parent's child pointer that leads to \<open>b\<close> is redirected to
  the merge of the subtrees of \<open>b\<close>.
\<close>

lemma root_sremove: "root t \<noteq> Some b \<Longrightarrow> root (sremove cmp b t) = root t"
  by (cases t) auto

lemma sremove_cases:
  assumes "b \<in> set_tree (Node l x r)" "distinct (inorder (Node l x r))" "x \<noteq> b"
  obtains "b \<in> set_tree l" "b \<notin> set_tree r" "sremove cmp b (Node l x r) = Node (sremove cmp b l) x r"
  | "b \<in> set_tree r" "b \<notin> set_tree l" "sremove cmp b (Node l x r) = Node l x (sremove cmp b r)"
  using assms by auto

text \<open>
  \<open>redirected h h' q b u\<close>: \<open>h'\<close> holds the shape \<open>u\<close> under a pointer \<open>p\<close>, its root has parent \<open>q\<close>, the
  child pointer of \<open>q\<close> that led to \<open>b\<close> is now \<open>p\<close>, and nothing else outside \<open>u\<close> has changed.
\<close>

definition redirected :: "'a skew \<Rightarrow> 'a skew \<Rightarrow> 'a \<Rightarrow> 'a \<Rightarrow> 'a tree \<Rightarrow> bool" where
  "redirected h h' q b u \<longleftrightarrow>
     sk_heap h' (root u) u \<and> root_par h' (Some q) u \<and> q \<notin> set_tree u \<and>
     (\<forall>z. z \<notin> set_tree u \<longrightarrow> parent h' z = parent h z) \<and>
     (\<forall>z. z \<notin> insert q (set_tree u) \<longrightarrow> left h' z = left h z \<and> right h' z = right h z) \<and>
     (if left h q = Some b then left h' q = root u \<and> right h' q = right h q
      else left h' q = left h q \<and> right h' q = root u)"

lemma redirected_keeps:
  assumes "redirected h h' q b u" "sk_tree h p t" "kids_par h t" "q \<notin> set_tree t"
    "set_tree t \<inter> set_tree u = {}"
  shows "sk_tree h' p t" "kids_par h' t" "root_par h x t \<Longrightarrow> root_par h' x t"
proof -
  have ne: "z \<noteq> q" "z \<notin> set_tree u" if "z \<in> set_tree t" for z using that assms(4,5) by auto
  show "sk_tree h' p t"
    by (rule sk_tree_cong [OF assms(2)]) (use assms(1) ne in \<open>auto simp: redirected_def\<close>)
  show "kids_par h' t"
    by (rule kids_par_cong [OF assms(3)]) (use assms(1) ne in \<open>auto simp: redirected_def\<close>)
  show "root_par h x t \<Longrightarrow> root_par h' x t"
    by (erule root_par_cong) (use assms(1) ne in \<open>auto simp: redirected_def\<close>)
qed

lemma redirect_at_root:
  assumes t: "sk_tree h p (Node l x r)" "kids_par h (Node l x r)" "distinct (inorder (Node l x r))"
    and rd: "redirected h h' x b u"
  shows "root l = Some b \<Longrightarrow> set_tree u \<subseteq> set_tree l \<Longrightarrow>
      sk_tree h' p (Node u x r) \<and> kids_par h' (Node u x r)"
    and "root r = Some b \<Longrightarrow> set_tree u \<subseteq> set_tree r \<Longrightarrow>
      sk_tree h' p (Node l x u) \<and> kids_par h' (Node l x u)"
proof -
  have lr: "left h x = root l" "right h x = root r" using t(1) by (auto dest: sk_tree_root)
  have u: "sk_tree h' (root u) u" "kids_par h' u" "root_par h' (Some x) u"
    using rd by (auto simp: redirected_def sk_heap_def)
  { assume "root l = Some b" "set_tree u \<subseteq> set_tree l"
    then have "set_tree r \<inter> set_tree u = {}" "left h' x = root u" "right h' x = right h x"
      using t(3) rd lr by (auto simp: redirected_def)
    then show "sk_tree h' p (Node u x r) \<and> kids_par h' (Node u x r)"
      using redirected_keeps [OF rd, of "right h x" r] t u by auto }
  { assume r: "root r = Some b" "set_tree u \<subseteq> set_tree r"
    then have "b \<in> set_tree r" by (auto dest: root_in)
    then have "b \<notin> set_tree l" using t(3) by auto
    then have "left h x \<noteq> Some b" using lr root_in [of l b] by auto
    then have "set_tree l \<inter> set_tree u = {}" "left h' x = left h x" "right h' x = root u"
      using t(3) rd r(2) by (auto simp: redirected_def)
    then show "sk_tree h' p (Node l x u) \<and> kids_par h' (Node l x u)"
      using redirected_keeps [OF rd, of "left h x" l] t u by auto }
qed

lemma root_notin_subtree:
  "root t \<noteq> Some b \<Longrightarrow> distinct (inorder t) \<Longrightarrow> root t = Some x \<Longrightarrow> x \<notin> set_tree (subtree_at b t)"
  by (cases t) (use subtree_at_set in \<open>auto dest: subsetD [OF subtree_at_set]\<close>)

lemma redirect_sremove:
  assumes "sk_tree h p t" "kids_par h t" "distinct (inorder t)" "b \<in> set_tree t" "root t \<noteq> Some b"
    and "parent h b = Some q" and "subtree_at b t = Node lb b rb"
    and "redirected h h' q b (smerge cmp lb rb)"
  shows "sk_tree h' p (sremove cmp b t) \<and> kids_par h' (sremove cmp b t)"
  using assms
proof (induction t arbitrary: p)
  case (Node l x r)
  let ?u = "smerge cmp lb rb"
  have xb: "x \<noteq> b" using Node.prems(5) by auto
  have xt: "x \<notin> set_tree l" "x \<notin> set_tree r" "distinct (inorder l)" "distinct (inorder r)"
    "set_tree l \<inter> set_tree r = {}" using Node.prems(3) by auto
  have h'x: "left h' x = left h x" "right h' x = right h x" if "x \<noteq> q" "x \<notin> set_tree ?u"
    using Node.prems(8) that by (auto simp: redirected_def)
  show ?case
  proof (cases rule: sremove_cases [OF Node.prems(4,3) xb, where cmp = cmp, case_names L R])
    case L
    then have sl: "subtree_at b l = Node lb b rb" using Node.prems(7) xb by simp
    have ul: "set_tree ?u \<subseteq> set_tree l" using subtree_at_set [of b l] sl by auto
    show ?thesis
    proof (cases "root l = Some b")
      case True
      then have "q = x" "sremove cmp b l = ?u"
        using Node.prems(2,6) sl by (cases l; auto simp: root_par_def)+
      then show ?thesis using redirect_at_root(1) [OF Node.prems(1-3)] Node.prems(8) True ul L by simp
    next
      case False
      then have q: "q \<in> set_tree l" using parent_in [of h l b] L Node.prems(2,6) by auto
      then have qn: "q \<notin> set_tree r" "set_tree r \<inter> set_tree ?u = {}" "x \<noteq> q" "x \<notin> set_tree ?u"
        using xt ul by auto
      have IH: "sk_tree h' (left h x) (sremove cmp b l) \<and> kids_par h' (sremove cmp b l)"
        by (rule Node.IH(1)) (use Node.prems sl L False in \<open>auto\<close>)
      have "root_par h' (Some x) (sremove cmp b l)"
        using Node.prems(2,8) False sl root_notin_subtree [OF False xt(3)]
        by (auto simp: root_par_def root_sremove redirected_def)
      then show ?thesis
        using IH L h'x [OF qn(3,4)] redirected_keeps [OF Node.prems(8), of "right h x" r]
          Node.prems(1,2) qn by auto
    qed
  next
    case R
    then have sr: "subtree_at b r = Node lb b rb" using Node.prems(7) xb by simp
    have ur: "set_tree ?u \<subseteq> set_tree r" using subtree_at_set [of b r] sr by auto
    show ?thesis
    proof (cases "root r = Some b")
      case True
      then have "q = x" "sremove cmp b r = ?u"
        using Node.prems(2,6) sr by (cases r; auto simp: root_par_def)+
      then show ?thesis using redirect_at_root(2) [OF Node.prems(1-3)] Node.prems(8) True ur R by simp
    next
      case False
      then have q: "q \<in> set_tree r" using parent_in [of h r b] R Node.prems(2,6) by auto
      then have qn: "q \<notin> set_tree l" "set_tree l \<inter> set_tree ?u = {}" "x \<noteq> q" "x \<notin> set_tree ?u"
        using xt ur by auto
      have IH: "sk_tree h' (right h x) (sremove cmp b r) \<and> kids_par h' (sremove cmp b r)"
        by (rule Node.IH(2)) (use Node.prems sr R False in \<open>auto\<close>)
      have "root_par h' (Some x) (sremove cmp b r)"
        using Node.prems(2,8) False sr root_notin_subtree [OF False xt(4)]
        by (auto simp: root_par_def root_sremove redirected_def)
      then show ?thesis
        using IH R h'x [OF qn(3,4)] redirected_keeps [OF Node.prems(8), of "left h x" l]
          Node.prems(1,2) qn by auto
    qed
  qed
qed simp

lemma parent_notin_subtree:
  "kids_par h t \<Longrightarrow> distinct (inorder t) \<Longrightarrow> b \<in> set_tree t \<Longrightarrow> root t \<noteq> Some b \<Longrightarrow>
   parent h b = Some q \<Longrightarrow> q \<notin> set_tree (subtree_at b t)"
proof (induction t)
  case (Node l x r)
  have *: "q \<notin> set_tree (subtree_at b s)"
    if "s \<in> {l, r}" "b \<in> set_tree s" "kids_par h s" "distinct (inorder s)" "root_par h (Some x) s"
      "x \<notin> set_tree s" for s
  proof (cases "root s = Some b")
    case True
    then have "q = x" using that(5) Node.prems(5) by (simp add: root_par_def)
    then show ?thesis using that(6) subtree_at_set [of b s] by auto
  next
    case False
    then show ?thesis using that Node.IH Node.prems(5) by auto
  qed
  show ?case using Node.prems *[of l] *[of r] by auto
qed simp

lemma skew_heap_remove_refines:
  assumes q: "sk_queue h a t" and b: "b \<in> set_tree t"
  shows "\<exists>p h'. skew_heap_remove cmp a b h = Some (p, h') \<and> sk_queue h' p (sremove cmp b t) \<and>
    (\<forall>z. z \<notin> set_tree t \<longrightarrow>
       left h' z = left h z \<and> right h' z = right h z \<and> parent h' z = parent h z)"
proof -
  from q have t: "sk_tree h a t" "kids_par h t" "distinct (inorder t)" "root_par h None t"
    by (auto simp: sk_queue_def sk_heap_def)
  obtain lb rb where s: "subtree_at b t = Node lb b rb" using subtree_at_Node [OF b] by blast
  have sub: "set_tree (Node lb b rb) \<subseteq> set_tree t" using subtree_at_set [of b t] s by simp
  let ?u = "smerge cmp lb rb"
  have sb: "sk_heap h (Some b) (Node lb b rb)" using subtree_at_sk [OF t(1-3) b] s by simp
  then have "sk_heap h (left h b) lb" "sk_heap h (right h b) rb" "set_tree lb \<inter> set_tree rb = {}"
    and bu: "b \<notin> set_tree ?u" by (auto simp: sk_heap_def)
  from skew_heap_merge_refines [OF this(1-3), of cmp] obtain rep h1 where
    m: "skew_heap_merge cmp (left h b) (right h b) h = Some (rep, h1)"
    and sk: "sk_heap h1 rep ?u"
    and fr: "\<And>z. z \<notin> set_tree ?u \<Longrightarrow>
      left h1 z = left h z \<and> right h1 z = right h z \<and> parent h1 z = parent h z"
    unfolding set_smerge by blast
  have rep: "rep = root ?u" using sk by (auto simp: sk_heap_def dest: sk_tree_root)
  define h2 where "h2 = link_parent rep (parent h b) h1"
  have lr2: "left h2 = left h1" "right h2 = right h1"
    by (auto simp: h2_def link_parent_def split: option.splits)
  have par2: "parent h2 z = (if rep = Some z then parent h b else parent h1 z)" for z
    by (auto simp: h2_def link_parent_def split: option.splits)
  have sk2: "sk_heap h2 rep ?u" "root_par h2 (parent h b) ?u"
    using sk rep par2 lr2
    by (auto simp: sk_heap_def root_par_def intro: kids_par_cong_nonroot [of h1] sk_tree_cong [of h1])
  have fr2: "left h2 z = left h z \<and> right h2 z = right h z \<and> parent h2 z = parent h z"
    if "z \<notin> set_tree ?u" for z
    using fr [OF that] lr2 par2 rep that by (auto dest: root_in)
  show ?thesis
  proof (cases "root t = Some b")
    case True
    then have "sremove cmp b t = ?u" "parent h b = None" using s t(4) by (cases t; auto simp: root_par_def)+
    moreover from this have "skew_heap_remove cmp a b h = Some (rep, h2)"
      using m by (simp add: skew_heap_remove_def Let_def h2_def)
    moreover have "z \<notin> set_tree ?u" if "z \<notin> set_tree t" for z using that sub by auto
    ultimately show ?thesis using sk2 fr2 by (simp add: sk_queue_def)
  next
    case False
    then obtain q where qt: "q \<in> set_tree t" and pq: "parent h b = Some q"
      using parent_in [OF t(2) b] by blast
    define h3 where "h3 = (if left h2 q = Some b then set_left q rep h2 else set_right q rep h2)"
    have rm: "skew_heap_remove cmp a b h = Some (a, h3)"
      using m pq by (simp add: skew_heap_remove_def Let_def h3_def h2_def)
    have "q \<notin> set_tree (subtree_at b t)" using parent_notin_subtree [OF t(2,3) b False pq] .
    then have qu: "q \<notin> set_tree ?u" using s by simp
    have h3: "parent h3 = parent h2" "z \<noteq> q \<Longrightarrow> left h3 z = left h2 z \<and> right h3 z = right h2 z" for z
      by (auto simp: h3_def)
    have ne: "z \<noteq> q" if "z \<in> set_tree ?u" for z using qu that by auto
    have "sk_tree h3 rep ?u"
      by (rule sk_tree_cong [of h2]) (use sk2(1) h3(2) ne in \<open>auto simp: sk_heap_def\<close>)
    moreover have "kids_par h3 ?u"
      by (rule kids_par_cong [of h2]) (use sk2(1) h3(1) in \<open>auto simp: sk_heap_def\<close>)
    ultimately have "sk_heap h3 rep ?u" using sk2(1) by (simp add: sk_heap_def)
    moreover have "root_par h3 (Some q) ?u" using sk2(2) pq h3 by (simp add: root_par_def)
    ultimately have rd: "redirected h h3 q b ?u"
      using fr2 h3 qu rep by (auto simp: redirected_def h3_def)
    from redirect_sremove [OF t(1-3) b False pq s rd]
    have "sk_tree h3 a (sremove cmp b t)" "kids_par h3 (sremove cmp b t)" by auto
    moreover have "root_par h3 None (sremove cmp b t)"
      using t(4) h3 fr2 root_notin_subtree [OF False t(3)] s
      by (auto simp: root_par_def root_sremove [OF False])
    ultimately have "sk_queue h3 a (sremove cmp b t)"
      using distinct_sremove [OF t(3)] by (simp add: sk_queue_def sk_heap_def)
    moreover have "left h3 z = left h z \<and> right h3 z = right h z \<and> parent h3 z = parent h z"
      if "z \<notin> set_tree t" for z
    proof -
      have "z \<noteq> q" "z \<notin> set_tree ?u" using that qt sub by auto
      then show ?thesis using h3(1) h3(2) [of z] fr2 [of z] by simp
    qed
    ultimately show ?thesis using rm by blast
  qed
qed

section \<open>The heap order\<close>

text \<open>
  \<open>cmp x y = -1\<close> says that \<open>x\<close> goes before \<open>y\<close>. On entries where that is a strict weak order, merging
  and removing keep the order, so the root is an entry that nothing goes before.
\<close>

definition weak_order :: "('a \<Rightarrow> 'a \<Rightarrow> int) \<Rightarrow> 'a set \<Rightarrow> bool" where
  "weak_order cmp S \<longleftrightarrow>
     (\<forall>x\<in>S. \<forall>y\<in>S. cmp x y = -1 \<longrightarrow> cmp y x \<noteq> -1) \<and>
     (\<forall>x\<in>S. \<forall>y\<in>S. \<forall>z\<in>S. cmp x y \<noteq> -1 \<longrightarrow> cmp y z \<noteq> -1 \<longrightarrow> cmp x z \<noteq> -1)"

fun heap_by :: "('a \<Rightarrow> 'a \<Rightarrow> int) \<Rightarrow> 'a tree \<Rightarrow> bool" where
  "heap_by cmp Leaf = True"
| "heap_by cmp (Node l x r) =
     ((\<forall>y \<in> set_tree l \<union> set_tree r. cmp y x \<noteq> -1) \<and> heap_by cmp l \<and> heap_by cmp r)"

lemma weak_order_mono: "weak_order cmp S \<Longrightarrow> T \<subseteq> S \<Longrightarrow> weak_order cmp T"
  unfolding weak_order_def by blast

lemma weak_order_trans:
  "weak_order cmp S \<Longrightarrow> x \<in> S \<Longrightarrow> y \<in> S \<Longrightarrow> z \<in> S \<Longrightarrow> cmp x y \<noteq> -1 \<Longrightarrow> cmp y z \<noteq> -1 \<Longrightarrow> cmp x z \<noteq> -1"
  unfolding weak_order_def by blast

lemma weak_order_asym:
  "weak_order cmp S \<Longrightarrow> x \<in> S \<Longrightarrow> y \<in> S \<Longrightarrow> cmp x y = -1 \<Longrightarrow> cmp y x \<noteq> -1"
  unfolding weak_order_def by blast

lemma heap_by_smerge:
  "weak_order cmp (set_tree s \<union> set_tree t) \<Longrightarrow> heap_by cmp s \<Longrightarrow> heap_by cmp t \<Longrightarrow>
   heap_by cmp (smerge cmp s t)"
proof (induction cmp s t rule: smerge.induct)
  case (3 cmp l1 x r1 l2 y r2)
  let ?s = "Node l1 x r1" and ?t = "Node l2 y r2"
  let ?S = "set_tree ?s \<union> set_tree ?t"
  have w: "weak_order cmp (set_tree r1 \<union> set_tree ?t)" "weak_order cmp (set_tree ?s \<union> set_tree r2)"
    by (rule weak_order_mono [OF 3(3)], auto)+
  show ?case
  proof (cases "cmp x y = -1")
    case True
    have "cmp y x \<noteq> -1" by (rule weak_order_asym [OF 3(3) _ _ True]) auto
    moreover have "cmp z x \<noteq> -1" if "z \<in> set_tree l2 \<union> set_tree r2" for z
      by (rule weak_order_trans [OF 3(3), of z y]) (use that 3(5) calculation in auto)
    ultimately show ?thesis using True 3(1) [OF True w(1)] 3(4,5) by auto
  next
    case False
    have "cmp z y \<noteq> -1" if "z \<in> set_tree l1 \<union> set_tree r1" for z
      by (rule weak_order_trans [OF 3(3), of z x]) (use that 3(4) False in auto)
    then show ?thesis using False 3(2) [OF False w(2)] 3(4,5) by auto
  qed
qed auto

lemma heap_by_sremove:
  "weak_order cmp (set_tree t) \<Longrightarrow> distinct (inorder t) \<Longrightarrow> heap_by cmp t \<Longrightarrow> heap_by cmp (sremove cmp b t)"
proof (induction t)
  case (Node l x r)
  have w: "weak_order cmp (set_tree l)" "weak_order cmp (set_tree r)"
    "weak_order cmp (set_tree l \<union> set_tree r)"
    by (rule weak_order_mono [OF Node.prems(1)], auto)+
  show ?case
    using Node.IH(1) [OF w(1)] Node.IH(2) [OF w(2)] Node.prems(2,3) heap_by_smerge [OF w(3)]
    by (auto simp: set_sremove)
qed simp

lemma heap_by_root: "heap_by cmp t \<Longrightarrow> root t = Some x \<Longrightarrow> y \<in> set_tree t \<Longrightarrow> y \<noteq> x \<Longrightarrow> cmp y x \<noteq> -1"
  by (cases t) auto

lemma heap_by_cong:
  "(\<And>x y. x \<in> set_tree t \<Longrightarrow> y \<in> set_tree t \<Longrightarrow> cmp' x y = cmp x y) \<Longrightarrow> heap_by cmp' t = heap_by cmp t"
  by (induction t) auto

end
