(* ===== verification/Sched.thy ===== *)
theory Sched
  imports DList SkewHeap
begin

text \<open>
  The scheduling framework of \<open>kern/schedule/sched.c\<close>: process entries, the run queue, the struct of
  function pointers \<open>sched_class\<close> as a record of operations, and \<open>wakeup_proc\<close> and \<open>schedule\<close> over
  an arbitrary class. The locale \<open>scheduler\<close> states what a class promises about the set of queued
  processes; from these laws alone the framework keeps the queue equal to the set of runnable
  processes that are not on the CPU. The classes are in \<open>RoundRobin\<close> and \<open>Stride\<close>.
\<close>

section \<open>State\<close>

datatype proc_state = PROC_UNINIT | PROC_SLEEPING | PROC_RUNNABLE | PROC_ZOMBIE

record proc_struct =
  state :: proc_state
  runs :: int
  need_resched :: bool
  wait_state :: u32
  on_rq :: bool
  time_slice :: int
  lab6_stride :: u32
  lab6_priority :: u32

text \<open>The entries of \<open>rq->run_list\<close>: the list head and the \<open>run_link\<close> of each process.\<close>

datatype rq_ent = RunList | RunLink nat

record sched =
  procs :: "nat \<Rightarrow> proc_struct"
  current :: nat
  idleproc :: nat
  run_links :: "rq_ent links"
  run_pool :: "nat option"
  pool :: "nat skew"
  proc_num :: u32
  max_time_slice :: int

definition upd_proc :: "nat \<Rightarrow> (proc_struct \<Rightarrow> proc_struct) \<Rightarrow> sched \<Rightarrow> sched" where
  "upd_proc p f s = s\<lparr>procs := (procs s)(p := f (procs s p))\<rparr>"

lemma upd_proc_sel [simp]:
  "procs (upd_proc p f s) = (procs s)(p := f (procs s p))"
  "current (upd_proc p f s) = current s" "idleproc (upd_proc p f s) = idleproc s"
  "run_links (upd_proc p f s) = run_links s" "run_pool (upd_proc p f s) = run_pool s"
  "pool (upd_proc p f s) = pool s" "proc_num (upd_proc p f s) = proc_num s"
  "max_time_slice (upd_proc p f s) = max_time_slice s"
  by (simp_all add: upd_proc_def)

record sched_class =
  sc_init :: "sched \<Rightarrow> sched"
  sc_enqueue :: "nat \<Rightarrow> sched \<Rightarrow> sched option"
  sc_dequeue :: "nat \<Rightarrow> sched \<Rightarrow> sched option"
  sc_pick_next :: "sched \<Rightarrow> (nat option \<times> sched) option"
  sc_proc_tick :: "nat \<Rightarrow> sched \<Rightarrow> sched"

section \<open>The framework\<close>

definition MAX_TIME_SLICE :: int where "MAX_TIME_SLICE = 5"

definition sched_class_enqueue :: "sched_class \<Rightarrow> nat \<Rightarrow> sched \<Rightarrow> sched option" where
  "sched_class_enqueue sc p s = (if p \<noteq> idleproc s then sc_enqueue sc p s else Some s)"

definition sched_class_dequeue :: "sched_class \<Rightarrow> nat \<Rightarrow> sched \<Rightarrow> sched option" where
  "sched_class_dequeue sc p s = sc_dequeue sc p s"

definition sched_class_pick_next :: "sched_class \<Rightarrow> sched \<Rightarrow> (nat option \<times> sched) option" where
  "sched_class_pick_next sc s = sc_pick_next sc s"

definition sched_class_proc_tick :: "sched_class \<Rightarrow> nat \<Rightarrow> sched \<Rightarrow> sched" where
  "sched_class_proc_tick sc p s =
     (if p \<noteq> idleproc s then sc_proc_tick sc p s
      else upd_proc p (\<lambda>q. q\<lparr>need_resched := True\<rparr>) s)"

definition sched_init :: "sched_class \<Rightarrow> sched \<Rightarrow> sched" where
  "sched_init sc s = sc_init sc (s\<lparr>max_time_slice := MAX_TIME_SLICE\<rparr>)"

text \<open>\<open>warn\<close> in the last branch only prints.\<close>

definition wakeup_proc :: "sched_class \<Rightarrow> nat \<Rightarrow> sched \<Rightarrow> sched option" where
  "wakeup_proc sc p s = do {
     c_assert (state (procs s p) \<noteq> PROC_ZOMBIE);
     if state (procs s p) \<noteq> PROC_RUNNABLE then do {
       let s1 = upd_proc p (\<lambda>q. q\<lparr>state := PROC_RUNNABLE, wait_state := 0\<rparr>) s;
       if p \<noteq> current s1 then sched_class_enqueue sc p s1 else Some s1
     } else Some s
   }"

text \<open>
  \<open>proc_run\<close> (\<open>lab6/kern/process/proc.c\<close>) makes \<open>p\<close> the current process, loads its page table and
  switches context; only the first is visible to the scheduler.
\<close>

definition proc_run :: "nat \<Rightarrow> sched \<Rightarrow> sched" where
  "proc_run p s = (if p \<noteq> current s then s\<lparr>current := p\<rparr> else s)"

definition schedule :: "sched_class \<Rightarrow> sched \<Rightarrow> sched option" where
  "schedule sc s = do {
     let s1 = upd_proc (current s) (\<lambda>q. q\<lparr>need_resched := False\<rparr>) s;
     s2 \<leftarrow> (if state (procs s1 (current s1)) = PROC_RUNNABLE
            then sched_class_enqueue sc (current s1) s1 else Some s1);
     (nxt, s3) \<leftarrow> sched_class_pick_next sc s2;
     s4 \<leftarrow> (case nxt of Some p \<Rightarrow> sched_class_dequeue sc p s3 | None \<Rightarrow> Some s3);
     let n = (case nxt of Some p \<Rightarrow> p | None \<Rightarrow> idleproc s4);
     let s5 = upd_proc n (\<lambda>q. q\<lparr>runs := runs q + 1\<rparr>) s4;
     Some (if n \<noteq> current s5 then proc_run n s5 else s5)
   }"

text \<open>Wait states (\<open>kern/process/proc.h\<close>).\<close>

definition WT_INTERRUPTED :: u32 where "WT_INTERRUPTED = 0x80000000"
definition WT_CHILD :: u32 where "WT_CHILD = 0x80000001"
definition WT_TIMER :: u32 where "WT_TIMER = 0x80000002"
definition WT_KSEM :: u32 where "WT_KSEM = 0x00000100"

section \<open>What a scheduling class promises\<close>

text \<open>
  \<open>keeps s s'\<close>: a class operation may change the queue, time slices and strides, but not who is
  running, who is runnable, nor the priorities.
\<close>

definition keeps :: "sched \<Rightarrow> sched \<Rightarrow> bool" where
  "keeps s s' \<longleftrightarrow> current s' = current s \<and> idleproc s' = idleproc s \<and>
     (\<forall>p. state (procs s' p) = state (procs s p) \<and>
          wait_state (procs s' p) = wait_state (procs s p) \<and>
          lab6_priority (procs s' p) = lab6_priority (procs s p))"

text \<open>\<open>same_queue s s'\<close>: what a class keeps in the state is the same in both.\<close>

definition same_queue :: "sched \<Rightarrow> sched \<Rightarrow> bool" where
  "same_queue s s' \<longleftrightarrow> run_links s' = run_links s \<and> run_pool s' = run_pool s \<and> pool s' = pool s \<and>
     proc_num s' = proc_num s \<and> max_time_slice s' = max_time_slice s \<and>
     (\<forall>p. on_rq (procs s' p) = on_rq (procs s p) \<and>
          lab6_priority (procs s' p) = lab6_priority (procs s p))"

lemma keeps_refl [simp]: "keeps s s"
  by (simp add: keeps_def)

lemma keeps_trans: "keeps s t \<Longrightarrow> keeps t u \<Longrightarrow> keeps s u"
  by (simp add: keeps_def)

locale scheduler =
  fixes sc :: sched_class and P :: "nat set" and rep :: "sched \<Rightarrow> nat set \<Rightarrow> bool"
  assumes rep_cong: "rep s R \<Longrightarrow> same_queue s s' \<Longrightarrow> rep s' R"
    and enqueue_ok: "rep s R \<Longrightarrow> p \<in> P \<Longrightarrow> p \<notin> R \<Longrightarrow>
      \<exists>s'. sc_enqueue sc p s = Some s' \<and> rep s' (insert p R) \<and> keeps s s'"
    and dequeue_ok: "rep s R \<Longrightarrow> p \<in> R \<Longrightarrow>
      \<exists>s'. sc_dequeue sc p s = Some s' \<and> rep s' (R - {p}) \<and> keeps s s'"
    and pick_ok: "rep s R \<Longrightarrow>
      \<exists>r s'. sc_pick_next sc s = Some (r, s') \<and> rep s' R \<and> keeps s s' \<and>
        (case r of None \<Rightarrow> R = {} | Some p \<Rightarrow> p \<in> R)"
    and tick_ok: "rep s R \<Longrightarrow> rep (sc_proc_tick sc p s) R \<and> keeps s (sc_proc_tick sc p s)"
begin

text \<open>The processes that should be queued: runnable, not running, not the idle process.\<close>

definition ready :: "sched \<Rightarrow> nat set" where
  "ready s = {p \<in> P. state (procs s p) = PROC_RUNNABLE \<and> p \<noteq> current s \<and> p \<noteq> idleproc s}"

definition ok :: "sched \<Rightarrow> bool" where
  "ok s \<longleftrightarrow> rep s (ready s) \<and> current s \<in> insert (idleproc s) P"

lemma ready_keeps: "keeps s s' \<Longrightarrow> ready s' = ready s"
  by (auto simp: keeps_def ready_def)

lemma wakeup_proc_ok:
  assumes "ok s" and "p \<in> P" and "state (procs s p) \<noteq> PROC_ZOMBIE"
  shows "\<exists>s'. wakeup_proc sc p s = Some s' \<and> ok s' \<and> state (procs s' p) = PROC_RUNNABLE \<and>
    current s' = current s \<and> idleproc s' = idleproc s \<and>
    (\<forall>q. q \<noteq> p \<longrightarrow> state (procs s' q) = state (procs s q)) \<and>
    (\<forall>q. wait_state (procs s' q) = (if state (procs s p) \<noteq> PROC_RUNNABLE \<and> q = p then 0
       else wait_state (procs s q)))"
proof (cases "state (procs s p) = PROC_RUNNABLE")
  case True
  then show ?thesis using assms by (auto simp: wakeup_proc_def)
next
  case False
  define s1 where "s1 = upd_proc p (\<lambda>q. q\<lparr>state := PROC_RUNNABLE, wait_state := 0\<rparr>) s"
  have sq: "same_queue s s1" by (simp add: same_queue_def s1_def)
  have r1: "rep s1 (ready s)" using rep_cong sq assms(1) by (auto simp: ok_def)
  have pn: "p \<notin> ready s" using False by (simp add: ready_def)
  have rd: "ready s1 = (if p \<noteq> current s \<and> p \<noteq> idleproc s then insert p (ready s) else ready s)"
    using assms(2) by (auto simp: ready_def s1_def)
  show ?thesis
  proof (cases "p \<noteq> current s \<and> p \<noteq> idleproc s")
    case True
    from enqueue_ok [OF r1 assms(2) pn] obtain s' where
      e: "sc_enqueue sc p s1 = Some s'" "rep s' (insert p (ready s))" "keeps s1 s'" by blast
    have "wakeup_proc sc p s = Some s'"
      using True False assms(3) e(1)
      by (simp add: wakeup_proc_def sched_class_enqueue_def Let_def s1_def)
    moreover have "ok s'" using e(2,3) rd True ready_keeps [OF e(3)] assms(1)
      by (auto simp: ok_def keeps_def s1_def)
    ultimately show ?thesis using e(3) False by (auto simp: keeps_def s1_def)
  next
    case no: False
    then have "wakeup_proc sc p s = Some s1"
      using False assms(3) by (auto simp: wakeup_proc_def sched_class_enqueue_def Let_def s1_def)
    moreover have "ready s1 = ready s" using rd no by auto
    ultimately show ?thesis using r1 assms(1) False by (auto simp: ok_def s1_def)
  qed
qed

lemma tick_current_ok: "ok s \<Longrightarrow> ok (sched_class_proc_tick sc p s)"
proof -
  assume ok: "ok s"
  show ?thesis
  proof (cases "p \<noteq> idleproc s")
    case True
    then have r: "rep (sched_class_proc_tick sc p s) (ready s)"
      and k: "keeps s (sched_class_proc_tick sc p s)"
      using tick_ok ok by (auto simp: sched_class_proc_tick_def ok_def)
    show ?thesis using r ok k unfolding ok_def ready_keeps [OF k] by (simp add: keeps_def)
  next
    case False
    let ?s = "upd_proc p (\<lambda>q. q\<lparr>need_resched := True\<rparr>) s"
    have sq: "same_queue s ?s" and k: "keeps s ?s" by (auto simp: same_queue_def keeps_def)
    have "rep ?s (ready ?s)" using ok rep_cong [OF _ sq] ready_keeps [OF k] by (simp add: ok_def)
    then show ?thesis using False ok by (simp add: sched_class_proc_tick_def ok_def)
  qed
qed

lemma schedule_ok:
  assumes "ok s"
  shows "\<exists>s'. schedule sc s = Some s' \<and> ok s' \<and>
    (\<forall>q. state (procs s' q) = state (procs s q)) \<and> idleproc s' = idleproc s \<and>
    (\<forall>q. wait_state (procs s' q) = wait_state (procs s q)) \<and>
    (let Q = ready s \<union> (if state (procs s (current s)) = PROC_RUNNABLE then {current s} else {})
             - {idleproc s}
     in if Q = {} then current s' = idleproc s else current s' \<in> Q)"
proof -
  let ?c = "current s" and ?i = "idleproc s"
  define Q where "Q = ready s \<union>
    (if state (procs s ?c) = PROC_RUNNABLE then {?c} else {}) - {?i}"
  define s1 where "s1 = upd_proc ?c (\<lambda>q. q\<lparr>need_resched := False\<rparr>) s"
  have k1: "keeps s s1" and q1: "same_queue s s1"
    by (auto simp: keeps_def same_queue_def s1_def)
  have r1: "rep s1 (ready s)" using rep_cong q1 assms by (auto simp: ok_def)
  have cn: "?c \<notin> ready s" "?i \<notin> ready s" by (auto simp: ready_def)
  have "\<exists>s2. (if state (procs s1 (current s1)) = PROC_RUNNABLE
      then sched_class_enqueue sc (current s1) s1 else Some s1) = Some s2 \<and> rep s2 Q \<and> keeps s s2"
  proof (cases "state (procs s ?c) = PROC_RUNNABLE \<and> ?c \<noteq> ?i")
    case True
    then have "?c \<in> P" using assms by (simp add: ok_def)
    from enqueue_ok [OF r1 this cn(1)] obtain s2 where
      "sc_enqueue sc ?c s1 = Some s2" "rep s2 (insert ?c (ready s))" "keeps s1 s2" by blast
    moreover have "insert ?c (ready s) = Q" using True cn by (auto simp: Q_def)
    ultimately show ?thesis using True keeps_trans [OF k1]
      by (auto simp: sched_class_enqueue_def s1_def)
  next
    case False
    then have "Q = ready s" using cn by (auto simp: Q_def)
    then show ?thesis using r1 k1 False by (auto simp: sched_class_enqueue_def s1_def)
  qed
  then obtain s2 where s2: "(if state (procs s1 (current s1)) = PROC_RUNNABLE
      then sched_class_enqueue sc (current s1) s1 else Some s1) = Some s2"
    and r2: "rep s2 Q" and k2: "keeps s s2" by blast
  from pick_ok [OF r2] obtain r s3 where p: "sc_pick_next sc s2 = Some (r, s3)" and r3: "rep s3 Q"
    and k3: "keeps s2 s3" and rQ: "case r of None \<Rightarrow> Q = {} | Some p \<Rightarrow> p \<in> Q" by blast
  define n where "n = (case r of Some p \<Rightarrow> p | None \<Rightarrow> ?i)"
  have "\<exists>s4. (case r of Some p \<Rightarrow> sched_class_dequeue sc p s3 | None \<Rightarrow> Some s3) = Some s4 \<and>
    rep s4 (Q - {n}) \<and> keeps s3 s4"
    using rQ dequeue_ok [OF r3] r3
    by (auto simp: n_def sched_class_dequeue_def split: option.splits)
  then obtain s4 where s4: "(case r of Some p \<Rightarrow> sched_class_dequeue sc p s3 | None \<Rightarrow> Some s3) = Some s4"
    and r4: "rep s4 (Q - {n})" and k34: "keeps s3 s4" by blast
  have k4: "keeps s s4" using k2 k3 k34 keeps_trans by blast
  define s5 where "s5 = upd_proc n (\<lambda>q. q\<lparr>runs := runs q + 1\<rparr>) s4"
  define s' where "s' = s5\<lparr>current := n\<rparr>"
  have i4: "idleproc s4 = ?i" using k4 by (simp add: keeps_def)
  have nn: "(case r of Some p \<Rightarrow> p | None \<Rightarrow> idleproc s4) = n" unfolding n_def i4 ..
  have run: "(if n \<noteq> current s5 then proc_run n s5 else s5) = s'"
    by (simp add: proc_run_def s'_def)
  have sch: "schedule sc s = Some s'"
    using s2 p s4
    by (simp add: schedule_def sched_class_pick_next_def Let_def del: upd_proc_sel
      split del: if_split flip: s1_def) (unfold nn, fold s5_def, rule run)
  have "same_queue s4 s'" by (auto simp: same_queue_def s'_def s5_def)
  then have r': "rep s' (Q - {n})" using rep_cong r4 by blast
  have st: "state (procs s' q) = state (procs s q)"
    "wait_state (procs s' q) = wait_state (procs s q)" for q
    using k4 by (auto simp: keeps_def s'_def s5_def)
  have id': "idleproc s' = ?i" "current s' = n" using i4 by (auto simp: s'_def s5_def)
  have cin: "?c \<in> insert ?i P" using assms by (simp add: ok_def)
  have "ready s' = Q - {n}"
    using st id' cin by (auto simp: ready_def Q_def)
  moreover have "n \<in> insert ?i P"
    using rQ cin by (auto simp: n_def Q_def ready_def split: option.splits if_splits)
  ultimately have "ok s'" using r' id' by (simp add: ok_def)
  moreover have "if Q = {} then current s' = ?i else current s' \<in> Q"
    using rQ id' by (auto simp: n_def split: option.splits)
  ultimately show ?thesis using sch st id' unfolding Let_def Q_def by blast
qed

end

end
