(* ===== verification/RoundRobin.thy ===== *)
theory RoundRobin
  imports Sched
begin

text \<open>
  The round-robin class of \<open>lab6/kern/schedule/default_sched_c.c\<close>: a FIFO over \<open>rq->run_list\<close>. It
  interprets the scheduler contract; on top of the contract the order is proved: the queue rotates,
  so every runnable process runs once in each round, and a process gives up the CPU after its slice.
\<close>

section \<open>The class\<close>

definition RR_init :: "sched \<Rightarrow> sched" where
  "RR_init s = s\<lparr>run_links := list_init RunList (run_links s), proc_num := 0\<rparr>"

definition refill_slice :: "nat \<Rightarrow> sched \<Rightarrow> sched" where
  "refill_slice p s =
     (if time_slice (procs s p) = 0 \<or> time_slice (procs s p) > max_time_slice s
      then upd_proc p (\<lambda>q. q\<lparr>time_slice := max_time_slice s\<rparr>) s else s)"

definition RR_enqueue :: "nat \<Rightarrow> sched \<Rightarrow> sched option" where
  "RR_enqueue p s = do {
     c_assert (list_empty (RunLink p) (run_links s));
     let s1 = s\<lparr>run_links := list_add_before RunList (RunLink p) (run_links s)\<rparr>;
     let s2 = refill_slice p s1;
     let s3 = upd_proc p (\<lambda>q. q\<lparr>on_rq := True\<rparr>) s2;
     Some (s3\<lparr>proc_num := proc_num s3 + 1\<rparr>)
   }"

definition RR_dequeue :: "nat \<Rightarrow> sched \<Rightarrow> sched option" where
  "RR_dequeue p s = do {
     c_assert (\<not> list_empty (RunLink p) (run_links s) \<and> on_rq (procs s p));
     Some (s\<lparr>run_links := list_del_init (RunLink p) (run_links s), proc_num := proc_num s - 1\<rparr>)
   }"

text \<open>\<open>le2proc(le, run_link)\<close>; it is only applied to entries other than the list head.\<close>

fun le2proc :: "rq_ent \<Rightarrow> nat" where
  "le2proc (RunLink p) = p"
| "le2proc RunList = 0"

definition RR_pick_next :: "sched \<Rightarrow> (nat option \<times> sched) option" where
  "RR_pick_next s = (let le = list_next RunList (run_links s)
     in Some (if le \<noteq> RunList then Some (le2proc le) else None, s))"

definition RR_proc_tick :: "nat \<Rightarrow> sched \<Rightarrow> sched" where
  "RR_proc_tick p s =
     (let s1 = (if time_slice (procs s p) > 0
                then upd_proc p (\<lambda>q. q\<lparr>time_slice := time_slice q - 1\<rparr>) s else s)
      in if time_slice (procs s1 p) = 0 then upd_proc p (\<lambda>q. q\<lparr>need_resched := True\<rparr>) s1 else s1)"

definition RR_class :: sched_class where
  "RR_class = \<lparr>sc_init = RR_init, sc_enqueue = RR_enqueue, sc_dequeue = RR_dequeue,
     sc_pick_next = RR_pick_next, sc_proc_tick = RR_proc_tick\<rparr>"

lemma RR_class_sel [simp]:
  "sc_init RR_class = RR_init" "sc_enqueue RR_class = RR_enqueue"
  "sc_dequeue RR_class = RR_dequeue" "sc_pick_next RR_class = RR_pick_next"
  "sc_proc_tick RR_class = RR_proc_tick"
  by (simp_all add: RR_class_def)

section \<open>The queue\<close>

text \<open>
  \<open>rr_queue P s xs\<close>: the run list holds the processes \<open>xs\<close> in this order, every other process of \<open>P\<close>
  has an unlinked \<open>run_link\<close>, and \<open>proc_num\<close> counts them.
\<close>

definition rr_queue :: "nat set \<Rightarrow> sched \<Rightarrow> nat list \<Rightarrow> bool" where
  "rr_queue P s xs \<longleftrightarrow> dlist (run_links s) RunList (map RunLink xs) \<and> set xs \<subseteq> P \<and>
     (\<forall>p \<in> P - set xs. list_empty (RunLink p) (run_links s)) \<and>
     (\<forall>p \<in> set xs. on_rq (procs s p)) \<and> proc_num s = of_nat (length xs)"

definition rr_rep :: "nat set \<Rightarrow> sched \<Rightarrow> nat set \<Rightarrow> bool" where
  "rr_rep P s R \<longleftrightarrow> (\<exists>xs. rr_queue P s xs \<and> R = set xs)"

lemma refill_slice_sel [simp]:
  "current (refill_slice p s) = current s" "idleproc (refill_slice p s) = idleproc s"
  "run_links (refill_slice p s) = run_links s" "proc_num (refill_slice p s) = proc_num s"
  "run_pool (refill_slice p s) = run_pool s" "pool (refill_slice p s) = pool s"
  "max_time_slice (refill_slice p s) = max_time_slice s"
  "state (procs (refill_slice p s) q) = state (procs s q)"
  "wait_state (procs (refill_slice p s) q) = wait_state (procs s q)"
  "on_rq (procs (refill_slice p s) q) = on_rq (procs s q)"
  "lab6_stride (procs (refill_slice p s) q) = lab6_stride (procs s q)"
  "lab6_priority (procs (refill_slice p s) q) = lab6_priority (procs s q)"
  by (simp_all add: refill_slice_def)

lemma rr_queueD:
  assumes "rr_queue P s xs"
  shows "dlist (run_links s) RunList (map RunLink xs)" and "set xs \<subseteq> P" and "distinct xs"
    and "p \<in> P \<Longrightarrow> p \<notin> set xs \<Longrightarrow> list_empty (RunLink p) (run_links s)"
    and "p \<in> set xs \<Longrightarrow> on_rq (procs s p)"
    and "p \<in> set xs \<Longrightarrow> \<not> list_empty (RunLink p) (run_links s)"
proof -
  show dl: "dlist (run_links s) RunList (map RunLink xs)" using assms by (simp add: rr_queue_def)
  then show "distinct xs" by (auto simp: dlist_def distinct_map)
  show "p \<in> set xs \<Longrightarrow> \<not> list_empty (RunLink p) (run_links s)"
    using dl by (auto dest!: split_list dest: list_empty_elem)
qed (use assms in \<open>auto simp: rr_queue_def\<close>)

lemma RR_enqueue_queue:
  assumes q: "rr_queue P s xs" and p: "p \<in> P" "p \<notin> set xs"
  shows "\<exists>s'. RR_enqueue p s = Some s' \<and> rr_queue P s' (xs @ [p]) \<and> keeps s s'"
proof -
  let ?h = "list_add_before RunList (RunLink p) (run_links s)"
  have "dlist ?h RunList (map RunLink (xs @ [p]))"
    using list_add_before_head_dlist [OF rr_queueD(1) [OF q], of "RunLink p"] p by auto
  moreover have "list_empty (RunLink r) ?h" if "r \<in> P" "r \<notin> set (xs @ [p])" for r
    using list_empty_add_before [OF rr_queueD(1) [OF q], of RunList "RunLink r" "RunLink p"]
      rr_queueD(4) [OF q] that by auto
  ultimately show ?thesis
    using q p rr_queueD(4) [OF q p] by (auto simp: RR_enqueue_def Let_def rr_queue_def keeps_def)
qed

lemma RR_dequeue_queue:
  assumes q: "rr_queue P s (xs @ p # ys)"
  shows "\<exists>s'. RR_dequeue p s = Some s' \<and> rr_queue P s' (xs @ ys) \<and> keeps s s' \<and>
    procs s' = procs s"
proof -
  let ?h = "list_del_init (RunLink p) (run_links s)"
  have dl: "dlist (run_links s) RunList (map RunLink xs @ RunLink p # map RunLink ys)"
    using rr_queueD(1) [OF q] by simp
  note del = list_del_init_dlist [OF dl]
  have "list_empty (RunLink r) ?h" if "r \<in> P" "r \<notin> set (xs @ ys)" for r
  proof (cases "r = p")
    case False
    then show ?thesis
      using list_empty_del_init [OF dl, of "RunLink p" "RunLink r"] rr_queueD(4) [OF q] that by auto
  qed (use del in simp)
  then show ?thesis
    using q del rr_queueD(5,6) [OF q, of p] by (auto simp: RR_dequeue_def rr_queue_def keeps_def)
qed

lemma RR_pick_next_queue:
  assumes "rr_queue P s xs"
  shows "RR_pick_next s = Some (case xs of [] \<Rightarrow> None | p # _ \<Rightarrow> Some p, s)"
  using list_next_head_dlist [OF rr_queueD(1) [OF assms]]
  by (cases xs) (auto simp: RR_pick_next_def)

interpretation rr: scheduler RR_class P "rr_rep P" for P
proof (unfold_locales, goal_cases)
  case (1 s R s')
  then show ?case by (fastforce simp: rr_rep_def rr_queue_def same_queue_def)
next
  case (2 s R p)
  then show ?case using RR_enqueue_queue [of P s _ p] by (fastforce simp: rr_rep_def)
next
  case (3 s R p)
  then obtain xs ys where q: "rr_queue P s (xs @ p # ys)" and R: "R = set (xs @ p # ys)"
    by (auto simp: rr_rep_def dest!: split_list)
  then have "R - {p} = set (xs @ ys)" using rr_queueD(3) [OF q] by auto
  then show ?case using RR_dequeue_queue [OF q] unfolding rr_rep_def RR_class_sel by blast
next
  case (4 s R)
  then obtain xs where "rr_queue P s xs" "R = set xs" by (auto simp: rr_rep_def)
  then show ?case using RR_pick_next_queue [of P s xs]
    by (cases xs) (fastforce simp: rr_rep_def)+
next
  case (5 s R p)
  have "same_queue s (RR_proc_tick p s)" "keeps s (RR_proc_tick p s)"
    by (auto simp: RR_proc_tick_def Let_def same_queue_def keeps_def)
  then show ?case using 5 by (auto simp: rr_rep_def rr_queue_def same_queue_def)
qed

section \<open>Rotation\<close>

text \<open>\<open>rr_state P s c xs\<close>: \<open>c\<close> runs, it and the queued processes are runnable, none is the idle one.\<close>

definition rr_state :: "nat set \<Rightarrow> sched \<Rightarrow> nat list \<Rightarrow> bool" where
  "rr_state P s zs \<longleftrightarrow> zs \<noteq> [] \<and> current s = hd zs \<and> rr_queue P s (tl zs) \<and> distinct zs \<and>
     set zs \<subseteq> P \<and> idleproc s \<notin> set zs \<and> (\<forall>p \<in> set zs. state (procs s p) = PROC_RUNNABLE)"

fun schedule_n :: "sched_class \<Rightarrow> nat \<Rightarrow> sched \<Rightarrow> sched option" where
  "schedule_n sc 0 s = Some s"
| "schedule_n sc (Suc n) s = schedule sc s \<bind> schedule_n sc n"

lemma rr_queue_same: "rr_queue P s xs \<Longrightarrow> same_queue s s' \<Longrightarrow> rr_queue P s' xs"
  by (auto simp: rr_queue_def same_queue_def)

lemma schedule_rotates:
  assumes "rr_state P s (c # xs)"
  shows "\<exists>s'. schedule RR_class s = Some s' \<and> rr_state P s' (xs @ [c])"
proof -
  from assms have c: "current s = c" "c \<in> P" "c \<notin> set xs" "c \<noteq> idleproc s"
    "state (procs s c) = PROC_RUNNABLE" "rr_queue P s xs" "distinct xs" "set xs \<subseteq> P"
    "idleproc s \<notin> set xs" "\<forall>p \<in> set xs. state (procs s p) = PROC_RUNNABLE"
    by (auto simp: rr_state_def)
  define s1 where "s1 = upd_proc c (\<lambda>q. q\<lparr>need_resched := False\<rparr>) s"
  have q1: "rr_queue P s1 xs" and k1: "keeps s s1"
    using rr_queue_same [OF c(6), of s1] by (auto simp: s1_def same_queue_def keeps_def)
  from RR_enqueue_queue [OF q1 c(2,3)] obtain s2 where
    e: "RR_enqueue c s1 = Some s2" and q2: "rr_queue P s2 (xs @ [c])" and k2: "keeps s1 s2" by blast
  obtain n zs where z: "xs @ [c] = n # zs" by (cases xs) auto
  from RR_dequeue_queue [of P s2 "[]" n zs] q2 z obtain s4 where
    d: "RR_dequeue n s2 = Some s4" and q4: "rr_queue P s4 zs" and k4: "keeps s2 s4" by auto
  have k: "keeps s s4" using k1 k2 k4 keeps_trans by blast
  define s5 where "s5 = upd_proc n (\<lambda>q. q\<lparr>runs := runs q + 1\<rparr>) s4"
  define s' where "s' = (if n \<noteq> current s5 then proc_run n s5 else s5)"
  have p: "RR_pick_next s2 = Some (Some n, s2)" using RR_pick_next_queue [OF q2] z by simp
  have "schedule RR_class s = Some s'"
    using e p d c k1
    by (simp add: schedule_def sched_class_enqueue_def sched_class_pick_next_def
        sched_class_dequeue_def Let_def s'_def s5_def s1_def)
  moreover have "same_queue s4 s'" by (auto simp: same_queue_def s'_def s5_def proc_run_def)
  then have "rr_queue P s' zs" using rr_queue_same q4 by blast
  moreover have "current s' = n" "idleproc s' = idleproc s"
    "\<And>q. state (procs s' q) = state (procs s q)"
    using k by (auto simp: s'_def s5_def proc_run_def keeps_def)
  moreover have "set (n # zs) = insert c (set xs)" "distinct (n # zs)"
    unfolding z [symmetric] using c by auto
  ultimately have "schedule RR_class s = Some s' \<and> rr_state P s' (xs @ [c])"
    using c z by (auto simp: rr_state_def)
  then show ?thesis by blast
qed

lemma schedule_n_rotates:
  "rr_state P s zs \<Longrightarrow> \<exists>s'. schedule_n RR_class n s = Some s' \<and> rr_state P s' (rotate n zs)"
proof (induction n arbitrary: s zs)
  case (Suc n)
  obtain c xs where z: "zs = c # xs" using Suc.prems by (cases zs) (auto simp: rr_state_def)
  from schedule_rotates Suc.prems z obtain s1 where
    s1: "schedule RR_class s = Some s1" "rr_state P s1 (rotate1 zs)" by fastforce
  from Suc.IH [OF this(2)] show ?case using s1(1) by (simp add: rotate1_rotate_swap)
qed simp

section \<open>Time slices\<close>

lemma RR_proc_tick_slice:
  "time_slice (procs s p) > 0 \<Longrightarrow>
   time_slice (procs (RR_proc_tick p s) p) = time_slice (procs s p) - 1 \<and>
   (need_resched (procs (RR_proc_tick p s) p) \<longleftrightarrow>
      need_resched (procs s p) \<or> time_slice (procs s p) = 1)"
  by (auto simp: RR_proc_tick_def Let_def)

lemma RR_ticks:
  "int n \<le> time_slice (procs s p) \<Longrightarrow> 0 < time_slice (procs s p) \<Longrightarrow> \<not> need_resched (procs s p) \<Longrightarrow>
   time_slice (procs ((RR_proc_tick p ^^ n) s) p) = time_slice (procs s p) - int n \<and>
   (need_resched (procs ((RR_proc_tick p ^^ n) s) p) \<longleftrightarrow> int n = time_slice (procs s p))"
proof (induction n)
  case (Suc n)
  then have IH: "time_slice (procs ((RR_proc_tick p ^^ n) s) p) = time_slice (procs s p) - int n"
    "\<not> need_resched (procs ((RR_proc_tick p ^^ n) s) p)" by auto
  have "time_slice (procs ((RR_proc_tick p ^^ n) s) p) > 0" using IH Suc.prems by simp
  from RR_proc_tick_slice [OF this] IH Suc.prems show ?case by auto
qed auto

section \<open>A concrete run queue\<close>

text \<open>Process 1 runs, 2 and 3 are queued, 4 sleeps, 0 is the idle process.\<close>

definition demo_proc :: "proc_state \<Rightarrow> proc_struct" where
  "demo_proc st = \<lparr>state = st, runs = 0, need_resched = False, wait_state = 0, on_rq = True,
     time_slice = 3, lab6_stride = 0, lab6_priority = 1\<rparr>"

definition rr_demo :: sched where
  "rr_demo = \<lparr>procs = (\<lambda>p. demo_proc (if p = 4 then PROC_SLEEPING else PROC_RUNNABLE)),
     current = 1, idleproc = 0,
     run_links = list_add_before RunList (RunLink 3) (list_add_before RunList (RunLink 2)
       (list_init RunList \<lparr>lprev = id, lnext = id\<rparr>)),
     run_pool = None, pool = \<lparr>parent = (\<lambda>_. None), left = (\<lambda>_. None), right = (\<lambda>_. None)\<rparr>,
     proc_num = 2, max_time_slice = MAX_TIME_SLICE\<rparr>"

lemma rr_demo_queue: "rr_queue {1, 2, 3, 4} rr_demo [2, 3]"
  by (auto simp: rr_queue_def rr_demo_def demo_proc_def list_ops_defs dlist_def)

lemma rr_demo_state: "rr_state {1, 2, 3, 4} rr_demo [1, 2, 3]"
  using rr_demo_queue by (auto simp: rr_state_def) (auto simp: rr_demo_def demo_proc_def)

lemma rr_demo_rep: "rr_rep {1, 2, 3, 4} rr_demo
  {p \<in> {1, 2, 3, 4}. state (procs rr_demo p) = PROC_RUNNABLE \<and> p \<noteq> current rr_demo \<and>
     p \<noteq> idleproc rr_demo}"
  unfolding rr_rep_def
  by (rule exI [of _ "[2, 3]"]) (use rr_demo_queue in \<open>auto simp: rr_demo_def demo_proc_def\<close>)

lemma rr_demo_sel [simp]: "current rr_demo = 1" "idleproc rr_demo = 0"
  "state (procs rr_demo p) = (if p = 4 then PROC_SLEEPING else PROC_RUNNABLE)"
  "time_slice (procs rr_demo p) = 3" "\<not> need_resched (procs rr_demo p)"
  by (simp_all add: rr_demo_def demo_proc_def)

section \<open>Properties\<close>

text \<open>
  C6: Under the round-robin class the run queue always holds exactly the processes that are
  runnable, not on the CPU and not the idle process: from such a state, \<open>schedule\<close> always returns,
  in such a state again, and puts on the CPU a process that was ready (the running one counts when
  it is still runnable), or the idle process only when nothing is ready.
\<close>

theorem rr_schedule_keeps_ready_queue:
  assumes "rr_rep P s {p \<in> P. state (procs s p) = PROC_RUNNABLE \<and> p \<noteq> current s \<and> p \<noteq> idleproc s}"
    and "current s \<in> insert (idleproc s) P"
    and "Q = {p \<in> P. state (procs s p) = PROC_RUNNABLE \<and> p \<noteq> idleproc s}"
  shows "\<exists>s'. schedule RR_class s = Some s' \<and>
    rr_rep P s' {p \<in> P. state (procs s' p) = PROC_RUNNABLE \<and> p \<noteq> current s' \<and> p \<noteq> idleproc s'} \<and>
    (\<forall>q. state (procs s' q) = state (procs s q)) \<and>
    (if Q = {} then current s' = idleproc s else current s' \<in> Q)"
proof -
  have ok: "rr.ok P s" using assms(1,2) by (simp add: rr.ok_def rr.ready_def)
  have Q: "Q = rr.ready P s \<union>
      (if state (procs s (current s)) = PROC_RUNNABLE then {current s} else {}) - {idleproc s}"
    using assms(2,3) by (auto simp: rr.ready_def)
  from rr.schedule_ok [OF ok] obtain s' where s': "schedule RR_class s = Some s'" "rr.ok P s'"
    "\<forall>q. state (procs s' q) = state (procs s q)" "idleproc s' = idleproc s"
    "if Q = {} then current s' = idleproc s else current s' \<in> Q"
    unfolding Let_def Q [symmetric] by blast
  show ?thesis
    by (rule exI [of _ s']) (use s' in \<open>simp add: rr.ok_def rr.ready_def\<close>)
qed

lemma rr_schedule_keeps_ready_queue_witness:
  "\<exists>s'. schedule RR_class rr_demo = Some s' \<and> current s' \<in> {1, 2, 3}"
proof -
  have "{1, 2, 3} = {p \<in> {1, 2, 3, 4}. state (procs rr_demo p) = PROC_RUNNABLE \<and> p \<noteq> idleproc rr_demo}"
    by auto
  from rr_schedule_keeps_ready_queue [OF rr_demo_rep _ this] show ?thesis by auto
qed

text \<open>
  C7: \<open>wakeup_proc\<close> never loses a wake-up: called on any process that is not a zombie it returns with
  the process runnable and the run queue again exactly the runnable processes that are not running;
  no other process changes state.
\<close>

theorem rr_wakeup_not_lost:
  assumes "rr_rep P s {p \<in> P. state (procs s p) = PROC_RUNNABLE \<and> p \<noteq> current s \<and> p \<noteq> idleproc s}"
    and "current s \<in> insert (idleproc s) P" and "p \<in> P" and "state (procs s p) \<noteq> PROC_ZOMBIE"
  shows "\<exists>s'. wakeup_proc RR_class p s = Some s' \<and> state (procs s' p) = PROC_RUNNABLE \<and>
    rr_rep P s' {q \<in> P. state (procs s' q) = PROC_RUNNABLE \<and> q \<noteq> current s' \<and> q \<noteq> idleproc s'} \<and>
    (\<forall>q. q \<noteq> p \<longrightarrow> state (procs s' q) = state (procs s q))"
proof -
  have "rr.ok P s" using assms(1,2) by (simp add: rr.ok_def rr.ready_def)
  from rr.wakeup_proc_ok [OF this assms(3,4)] show ?thesis
    unfolding rr.ok_def rr.ready_def by auto
qed

lemma rr_wakeup_not_lost_witness:
  "\<exists>s'. wakeup_proc RR_class 4 rr_demo = Some s' \<and> state (procs s' 4) = PROC_RUNNABLE"
  using rr_wakeup_not_lost [OF rr_demo_rep, of 4] by auto

text \<open>
  C8: No process starves under round robin: with the processes \<open>zs\<close> runnable, the first of them on the
  CPU and the others queued in this order, every sequence of \<open>schedule\<close> calls returns, and after \<open>n\<close>
  of them the process at position \<open>n mod length zs\<close> runs.
\<close>

theorem rr_no_starvation:
  assumes "rr_state P s zs"
  shows "\<exists>s'. schedule_n RR_class n s = Some s' \<and> current s' = zs ! (n mod length zs)"
proof -
  have "zs \<noteq> []" using assms by (simp add: rr_state_def)
  then show ?thesis
    using schedule_n_rotates [OF assms, of n] by (auto simp: rr_state_def hd_rotate_conv_nth)
qed

lemma rr_no_starvation_witness:
  "\<exists>s'. schedule_n RR_class 5 rr_demo = Some s' \<and> current s' = 3"
  using rr_no_starvation [OF rr_demo_state, of 5] by simp

text \<open>
  A time slice of \<open>k\<close> ticks is exactly that: the timer interrupt asks for rescheduling at the
  \<open>k\<close>-th tick of the running process and at none before.
\<close>

theorem rr_slice_exhausted:
  assumes "0 < time_slice (procs s p)" and "\<not> need_resched (procs s p)"
    and "int n \<le> time_slice (procs s p)"
  shows "need_resched (procs ((RR_proc_tick p ^^ n) s) p) \<longleftrightarrow> int n = time_slice (procs s p)"
  using RR_ticks [OF assms(3,1,2)] by simp

lemma rr_slice_exhausted_witness:
  "need_resched (procs ((RR_proc_tick 1 ^^ 3) rr_demo) 1)"
  using rr_slice_exhausted [of rr_demo 1 3] by simp

end
