(* ===== verification/Stride.thy ===== *)
theory Stride
  imports RoundRobin
begin

text \<open>
  The stride class of \<open>lab6/kern/schedule/default_sched.c\<close> with the skew heap as run pool: strides
  are 32-bit and compared by their signed difference. It interprets the scheduler contract; the
  selection of a least stride is proved for strides within half the 32-bit range, and the value
  chosen for \<open>BIG_STRIDE\<close> is shown to make a process of priority 1 run for ever.
\<close>

section \<open>The class\<close>

definition BIG_STRIDE :: u32 where "BIG_STRIDE = - 1"

definition proc_stride_comp_f :: "sched \<Rightarrow> nat \<Rightarrow> nat \<Rightarrow> int" where
  "proc_stride_comp_f s a b =
     (let c = sint (lab6_stride (procs s a) - lab6_stride (procs s b))
      in if c > 0 then 1 else if c = 0 then 0 else - 1)"

definition stride_init :: "sched \<Rightarrow> sched" where
  "stride_init s =
     s\<lparr>run_links := list_init RunList (run_links s), run_pool := None, proc_num := 0\<rparr>"

definition stride_enqueue :: "nat \<Rightarrow> sched \<Rightarrow> sched option" where
  "stride_enqueue p s = do {
     (r, h) \<leftarrow> skew_heap_insert (proc_stride_comp_f s) (run_pool s) p (pool s);
     let s1 = s\<lparr>run_pool := r, pool := h\<rparr>;
     let s2 = refill_slice p s1;
     let s3 = upd_proc p (\<lambda>q. q\<lparr>on_rq := True\<rparr>) s2;
     Some (s3\<lparr>proc_num := proc_num s3 + 1\<rparr>)
   }"

definition stride_dequeue :: "nat \<Rightarrow> sched \<Rightarrow> sched option" where
  "stride_dequeue p s = do {
     (r, h) \<leftarrow> skew_heap_remove (proc_stride_comp_f s) (run_pool s) p (pool s);
     Some (s\<lparr>run_pool := r, pool := h, proc_num := proc_num s - 1\<rparr>)
   }"

text \<open>The division by \<open>lab6_priority\<close> is undefined for priority 0, which the model rules out.\<close>

definition stride_pick_next :: "sched \<Rightarrow> (nat option \<times> sched) option" where
  "stride_pick_next s =
     (case run_pool s of
        Some p \<Rightarrow> do {
          c_assert (lab6_priority (procs s p) \<noteq> 0);
          Some (Some p, upd_proc p (\<lambda>q. q\<lparr>lab6_stride :=
            lab6_stride q + BIG_STRIDE div lab6_priority q\<rparr>) s)
        }
      | None \<Rightarrow> Some (None, s))"

definition stride_proc_tick :: "nat \<Rightarrow> sched \<Rightarrow> sched" where
  "stride_proc_tick p s =
     (let s1 = (if time_slice (procs s p) > 0
                then upd_proc p (\<lambda>q. q\<lparr>time_slice := time_slice q - 1\<rparr>) s else s)
      in if time_slice (procs s1 p) = 0 then upd_proc p (\<lambda>q. q\<lparr>need_resched := True\<rparr>) s1 else s1)"

definition stride_class :: sched_class where
  "stride_class = \<lparr>sc_init = stride_init, sc_enqueue = stride_enqueue, sc_dequeue = stride_dequeue,
     sc_pick_next = stride_pick_next, sc_proc_tick = stride_proc_tick\<rparr>"

lemma stride_class_sel [simp]:
  "sc_init stride_class = stride_init" "sc_enqueue stride_class = stride_enqueue"
  "sc_dequeue stride_class = stride_dequeue" "sc_pick_next stride_class = stride_pick_next"
  "sc_proc_tick stride_class = stride_proc_tick"
  by (simp_all add: stride_class_def)

section \<open>The run pool\<close>

definition stride_pool :: "nat set \<Rightarrow> sched \<Rightarrow> nat tree \<Rightarrow> bool" where
  "stride_pool P s t \<longleftrightarrow> sk_queue (pool s) (run_pool s) t \<and> set_tree t \<subseteq> P \<and>
     (\<forall>p \<in> P. lab6_priority (procs s p) \<noteq> 0)"

definition stride_rep :: "nat set \<Rightarrow> sched \<Rightarrow> nat set \<Rightarrow> bool" where
  "stride_rep P s R \<longleftrightarrow> (\<exists>t. stride_pool P s t \<and> R = set_tree t)"

lemma sk_queue_root: "sk_queue h p t \<Longrightarrow> p = SkewHeap.root t"
  by (auto simp: sk_queue_def sk_heap_def dest: sk_tree_root)

lemma sk_queue_distinct: "sk_queue h p t \<Longrightarrow> distinct (inorder t)"
  by (auto simp: sk_queue_def sk_heap_def)

lemma set_sinsert [simp]: "set_tree (sinsert cmp t b) = insert b (set_tree t)"
  by (simp add: sinsert_def)

lemma stride_enqueue_pool:
  assumes q: "stride_pool P s t" and p: "p \<in> P" "p \<notin> set_tree t"
  shows "\<exists>s'. stride_enqueue p s = Some s' \<and>
    stride_pool P s' (sinsert (proc_stride_comp_f s) t p) \<and> keeps s s' \<and>
    (\<forall>q. lab6_stride (procs s' q) = lab6_stride (procs s q))"
proof -
  from q have "sk_queue (pool s) (run_pool s) t" by (simp add: stride_pool_def)
  from skew_heap_insert_refines [OF this p(2), of "proc_stride_comp_f s"] obtain r h where
    "skew_heap_insert (proc_stride_comp_f s) (run_pool s) p (pool s) = Some (r, h)"
    "sk_queue h r (sinsert (proc_stride_comp_f s) t p)" by blast
  then show ?thesis
    using q p by (auto simp: stride_enqueue_def Let_def stride_pool_def keeps_def)
qed

lemma stride_dequeue_pool:
  assumes q: "stride_pool P s t" and p: "p \<in> set_tree t"
  shows "\<exists>s'. stride_dequeue p s = Some s' \<and>
    stride_pool P s' (sremove (proc_stride_comp_f s) p t) \<and> keeps s s' \<and> procs s' = procs s"
proof -
  from q have sk: "sk_queue (pool s) (run_pool s) t" by (simp add: stride_pool_def)
  from skew_heap_remove_refines [OF this p, of "proc_stride_comp_f s"] obtain r h where
    "skew_heap_remove (proc_stride_comp_f s) (run_pool s) p (pool s) = Some (r, h)"
    "sk_queue h r (sremove (proc_stride_comp_f s) p t)" by blast
  then show ?thesis
    using q p set_sremove [OF sk_queue_distinct [OF sk]]
    by (auto simp: stride_dequeue_def stride_pool_def keeps_def)
qed

lemma stride_pick_pool:
  assumes q: "stride_pool P s t"
  shows "\<exists>s'. stride_pick_next s = Some (SkewHeap.root t, s') \<and> stride_pool P s' t \<and> keeps s s' \<and>
    (\<forall>q. lab6_stride (procs s' q) = (if SkewHeap.root t = Some q
       then lab6_stride (procs s q) + BIG_STRIDE div lab6_priority (procs s q)
       else lab6_stride (procs s q)))"
proof (cases "SkewHeap.root t")
  case None
  then show ?thesis using q sk_queue_root [of "pool s" "run_pool s" t]
    by (auto simp: stride_pick_next_def stride_pool_def)
next
  case (Some p)
  then have "run_pool s = Some p" "lab6_priority (procs s p) \<noteq> 0"
    using q sk_queue_root [of "pool s" "run_pool s" t] root_in [of t p]
    by (auto simp: stride_pool_def)
  then show ?thesis using q Some
    by (auto simp: stride_pick_next_def stride_pool_def keeps_def)
qed

interpretation stride: scheduler stride_class P "stride_rep P" for P
proof (unfold_locales, goal_cases)
  case (1 s R s')
  then show ?case by (fastforce simp: stride_rep_def stride_pool_def same_queue_def)
next
  case (2 s R p)
  then obtain t where t: "stride_pool P s t" "R = set_tree t" by (auto simp: stride_rep_def)
  then show ?case using stride_enqueue_pool [OF t(1), of p] 2
    unfolding stride_rep_def stride_class_sel by (metis set_sinsert)
next
  case (3 s R p)
  then obtain t where t: "stride_pool P s t" "R = set_tree t" by (auto simp: stride_rep_def)
  then have "set_tree (sremove (proc_stride_comp_f s) p t) = R - {p}"
    by (auto simp: stride_pool_def set_sremove sk_queue_distinct)
  then show ?case using stride_dequeue_pool [OF t(1), of p] 3 t(2)
    unfolding stride_rep_def stride_class_sel by metis
next
  case (4 s R)
  then obtain t where t: "stride_pool P s t" "R = set_tree t" by (auto simp: stride_rep_def)
  then show ?case using stride_pick_pool [OF t(1)]
    by (cases t) (fastforce simp: stride_rep_def)+
next
  case (5 s R p)
  have "same_queue s (stride_proc_tick p s)" "keeps s (stride_proc_tick p s)"
    by (auto simp: stride_proc_tick_def Let_def same_queue_def keeps_def)
  then show ?case using 5 by (fastforce simp: stride_rep_def stride_pool_def same_queue_def)
qed

section \<open>Comparing strides\<close>

text \<open>\<open>in_window s R\<close>: the strides of \<open>R\<close> lie within half of the 32-bit circle.\<close>

definition in_window :: "u32 \<Rightarrow> sched \<Rightarrow> nat set \<Rightarrow> bool" where
  "in_window b s R \<longleftrightarrow> (\<forall>p \<in> R. unat (lab6_stride (procs s p) - b) < 2 ^ 31)"

lemma sint_diff_small:
  fixes x y :: u32
  assumes "unat x < 2 ^ 31" and "unat y < 2 ^ 31"
  shows "sint (x - y) = int (unat x) - int (unat y)"
proof -
  have i: "uint x < 2 ^ 31" "uint y < 2 ^ 31"
    using assms by (metis uint_nat of_nat_less_iff of_nat_numeral of_nat_power)+
  have u: "0 \<le> uint x" "0 \<le> uint y" by simp_all
  have "uint (x - y) = take_bit 32 (uint x - uint y)"
    by (simp only: uint_word_ariths(2) take_bit_eq_mod) simp
  then have "sint (x - y) = signed_take_bit 31 (take_bit 32 (uint x - uint y))"
    by (simp add: sint_uint)
  also have "\<dots> = signed_take_bit 31 (uint x - uint y)"
    by (simp add: signed_take_bit_take_bit)
  also have "\<dots> = uint x - uint y"
    by (rule signed_take_bit_int_eq_self) (use i u in linarith)+
  finally show ?thesis by simp
qed

lemma comp_window:
  assumes "in_window b s R" "p \<in> R" "q \<in> R"
  shows "proc_stride_comp_f s p q = - 1 \<longleftrightarrow>
    unat (lab6_stride (procs s p) - b) < unat (lab6_stride (procs s q) - b)"
proof -
  have "lab6_stride (procs s p) - lab6_stride (procs s q) =
    (lab6_stride (procs s p) - b) - (lab6_stride (procs s q) - b)" by simp
  then show ?thesis
    using sint_diff_small [of "lab6_stride (procs s p) - b" "lab6_stride (procs s q) - b"] assms
    by (simp add: proc_stride_comp_f_def Let_def in_window_def flip: word_less_nat_alt)
      (auto simp: word_less_def)
qed

lemma weak_order_window: "in_window b s R \<Longrightarrow> weak_order (proc_stride_comp_f s) R"
  unfolding weak_order_def by (auto simp: comp_window)

lemma in_window_mono: "in_window b s R \<Longrightarrow> T \<subseteq> R \<Longrightarrow> in_window b s T"
  by (auto simp: in_window_def)

lemma comp_cong:
  "lab6_stride (procs s' p) = lab6_stride (procs s p) \<Longrightarrow>
   lab6_stride (procs s' q) = lab6_stride (procs s q) \<Longrightarrow>
   proc_stride_comp_f s' p q = proc_stride_comp_f s p q"
  by (simp add: proc_stride_comp_f_def)

section \<open>Selection\<close>

lemma stride_enqueue_order:
  assumes "stride_pool P s t" "heap_by (proc_stride_comp_f s) t" "in_window b s (insert p (set_tree t))"
    "p \<in> P" "p \<notin> set_tree t"
  shows "\<exists>s' t'. stride_enqueue p s = Some s' \<and> stride_pool P s' t' \<and>
    heap_by (proc_stride_comp_f s') t' \<and> set_tree t' = insert p (set_tree t)"
proof -
  from stride_enqueue_pool [OF assms(1,4,5)] obtain s' where
    s': "stride_enqueue p s = Some s'" "stride_pool P s' (sinsert (proc_stride_comp_f s) t p)"
    "\<forall>q. lab6_stride (procs s' q) = lab6_stride (procs s q)" by blast
  have "weak_order (proc_stride_comp_f s) (set_tree t \<union> set_tree (Node Leaf p Leaf))"
    using weak_order_window [OF assms(3)] by simp
  from heap_by_smerge [OF this assms(2)] have "heap_by (proc_stride_comp_f s) (sinsert (proc_stride_comp_f s) t p)"
    by (simp add: sinsert_def)
  then have "heap_by (proc_stride_comp_f s') (sinsert (proc_stride_comp_f s) t p)"
    using s'(3) heap_by_cong [of _ "proc_stride_comp_f s'" "proc_stride_comp_f s"] comp_cong by metis
  then show ?thesis using s' set_sinsert by metis
qed

text \<open>Picking the root and taking it off the pool, as \<open>schedule\<close> does.\<close>

lemma stride_pick_dequeue:
  assumes pl: "stride_pool P s t" and hp: "heap_by (proc_stride_comp_f s) t"
    and w: "in_window b s (set_tree t)" and t: "t \<noteq> Leaf"
  shows "\<exists>p s1 s2 t'. stride_pick_next s = Some (Some p, s1) \<and> p \<in> set_tree t \<and>
    (\<forall>q \<in> set_tree t. unat (lab6_stride (procs s p) - b) \<le> unat (lab6_stride (procs s q) - b)) \<and>
    stride_dequeue p s1 = Some s2 \<and> stride_pool P s2 t' \<and> set_tree t' = set_tree t - {p} \<and>
    heap_by (proc_stride_comp_f s2) t' \<and>
    lab6_stride (procs s2 p) = lab6_stride (procs s p) + BIG_STRIDE div lab6_priority (procs s p)"
proof -
  obtain l p r where n: "t = Node l p r" using t by (cases t) auto
  from stride_pick_pool [OF pl] n obtain s1 where
    s1: "stride_pick_next s = Some (Some p, s1)" "stride_pool P s1 t"
    "\<And>q. lab6_stride (procs s1 q) = (if q = p
       then lab6_stride (procs s q) + BIG_STRIDE div lab6_priority (procs s q)
       else lab6_stride (procs s q))" by fastforce
  have d: "distinct (inorder t)" using pl by (auto simp: stride_pool_def sk_queue_distinct)
  from stride_dequeue_pool [OF s1(2), of p] n obtain s2 where
    s2: "stride_dequeue p s1 = Some s2" "stride_pool P s2 (sremove (proc_stride_comp_f s1) p t)"
    "procs s2 = procs s1" by auto
  let ?t = "sremove (proc_stride_comp_f s1) p t"
  have st: "set_tree ?t = set_tree t - {p}" by (rule set_sremove [OF d])
  have lr: "p \<notin> set_tree l" "p \<notin> set_tree r" using d n by auto
  have eq: "proc_stride_comp_f s1 x y = proc_stride_comp_f s x y"
    if "x \<in> set_tree l \<union> set_tree r" "y \<in> set_tree l \<union> set_tree r" for x y
    using that lr by (intro comp_cong) (auto simp: s1(3))
  have w1: "weak_order (proc_stride_comp_f s1) (set_tree l \<union> set_tree r)"
  proof (rule weak_order_window)
    show "in_window b s1 (set_tree l \<union> set_tree r)"
      unfolding in_window_def
    proof
      fix x assume "x \<in> set_tree l \<union> set_tree r"
      then have "x \<noteq> p" "x \<in> set_tree t" using lr n by auto
      then show "unat (lab6_stride (procs s1 x) - b) < 2 ^ 31"
        using w unfolding in_window_def s1(3) by simp
    qed
  qed
  have "heap_by (proc_stride_comp_f s1) l = heap_by (proc_stride_comp_f s) l"
    by (rule heap_by_cong) (rule eq, auto)
  moreover have "heap_by (proc_stride_comp_f s1) r = heap_by (proc_stride_comp_f s) r"
    by (rule heap_by_cong) (rule eq, auto)
  ultimately have "heap_by (proc_stride_comp_f s1) (smerge (proc_stride_comp_f s1) l r)"
    using heap_by_smerge [OF w1] hp n by simp
  then have h1: "heap_by (proc_stride_comp_f s1) ?t" using n by simp
  have "heap_by (proc_stride_comp_f s2) ?t = heap_by (proc_stride_comp_f s1) ?t"
    by (rule heap_by_cong, rule comp_cong) (simp_all add: s2(3))
  with h1 have h2: "heap_by (proc_stride_comp_f s2) ?t" by blast
  have "unat (lab6_stride (procs s p) - b) \<le> unat (lab6_stride (procs s q) - b)"
    if q: "q \<in> set_tree t" for q
  proof (cases "q = p")
    case False
    then have "proc_stride_comp_f s q p \<noteq> -1" using heap_by_root [OF hp _ q] n by simp
    then show ?thesis using comp_window [OF w q] n by simp
  qed simp
  then have least: "\<forall>q \<in> set_tree t. unat (lab6_stride (procs s p) - b) \<le> unat (lab6_stride (procs s q) - b)"
    by blast
  show ?thesis
    by (rule exI [of _ p], rule exI [of _ s1], rule exI [of _ s2], rule exI [of _ ?t])
      (intro conjI, rule s1(1), simp add: n, rule least, rule s2(1), rule s2(2), rule st, rule h2,
        simp add: s1(3) s2(3))
qed

section \<open>Priority one\<close>

text \<open>
  Two runnable processes: \<open>c\<close> runs and has priority 1, \<open>q\<close> is queued and its stride is \<open>k\<close> ahead.
\<close>

definition duel :: "nat \<Rightarrow> nat \<Rightarrow> nat \<Rightarrow> sched \<Rightarrow> bool" where
  "duel c q k s \<longleftrightarrow> c \<noteq> q \<and> current s = c \<and> c \<noteq> idleproc s \<and>
     state (procs s c) = PROC_RUNNABLE \<and> lab6_priority (procs s c) = 1 \<and>
     lab6_priority (procs s q) \<noteq> 0 \<and> k < 2 ^ 31 \<and>
     lab6_stride (procs s q) = lab6_stride (procs s c) + of_nat k \<and>
     sk_queue (pool s) (run_pool s) (Node Leaf q Leaf)"

lemma BIG_STRIDE_div_1: "BIG_STRIDE div (1::u32) = - 1"
  by (simp add: BIG_STRIDE_def)

lemma duel_step:
  assumes "duel c q k s" and "Suc k < 2 ^ 31"
  shows "\<exists>s'. schedule stride_class s = Some s' \<and> duel c q (Suc k) s'"
proof -
  define s1 where "s1 = upd_proc c (\<lambda>x. x\<lparr>need_resched := False\<rparr>) s"
  from assms(1) have a: "c \<noteq> q" "current s = c" "c \<noteq> idleproc s"
    "state (procs s c) = PROC_RUNNABLE" "lab6_priority (procs s c) = 1" "k < 2 ^ 31"
    "lab6_priority (procs s q) \<noteq> 0"
    "lab6_stride (procs s q) = lab6_stride (procs s c) + of_nat k"
    "sk_queue (pool s) (run_pool s) (Node Leaf q Leaf)" by (auto simp: duel_def)
  have pl1: "stride_pool {c, q} s1 (Node Leaf q Leaf)" and k1: "keeps s s1"
    using a by (auto simp: stride_pool_def s1_def keeps_def)
  have cmp: "proc_stride_comp_f s1 q c \<noteq> -1"
  proof -
    have "sint (lab6_stride (procs s1 q) - lab6_stride (procs s1 c)) = sint (of_nat k :: u32)"
      using a(1,8) by (simp add: s1_def)
    also have "\<dots> = int k"
      using sint_diff_small [of "of_nat k" 0] a(6) by (simp add: unat_of_nat)
    finally show ?thesis by (simp add: proc_stride_comp_f_def Let_def)
  qed
  from stride_enqueue_pool [OF pl1, of c] a(1) obtain s2 where
    e: "stride_enqueue c s1 = Some s2" and k2: "keeps s1 s2"
    and pl2: "stride_pool {c, q} s2 (sinsert (proc_stride_comp_f s1) (Node Leaf q Leaf) c)"
    and st2: "\<And>x. lab6_stride (procs s2 x) = lab6_stride (procs s1 x)" by auto
  have tr: "sinsert (proc_stride_comp_f s1) (Node Leaf q Leaf) c = Node (Node Leaf q Leaf) c Leaf"
    using cmp by (simp add: sinsert_def)
  from stride_pick_pool [OF pl2] obtain s3 where
    p: "stride_pick_next s2 = Some (Some c, s3)" and k3: "keeps s2 s3"
    and pl3: "stride_pool {c, q} s3 (Node (Node Leaf q Leaf) c Leaf)"
    and st3: "\<And>x. lab6_stride (procs s3 x) = (if x = c
       then lab6_stride (procs s2 x) + BIG_STRIDE div lab6_priority (procs s2 x)
       else lab6_stride (procs s2 x))" unfolding tr by fastforce
  from stride_dequeue_pool [OF pl3, of c] obtain s4 where
    d: "stride_dequeue c s3 = Some s4" and pl4: "stride_pool {c, q} s4 (Node Leaf q Leaf)"
    and k4: "keeps s3 s4" and st4: "procs s4 = procs s3" by auto
  have kp: "keeps s s2" "keeps s s4" using k1 k2 k3 k4 keeps_trans by blast+
  define s' where "s' = upd_proc c (\<lambda>x. x\<lparr>runs := runs x + 1\<rparr>) s4"
  have cur: "current s4 = c" using kp a by (simp add: keeps_def)
  have "schedule stride_class s = Some s'"
    using e p d a k1 cur
    by (simp add: schedule_def sched_class_enqueue_def sched_class_pick_next_def
        sched_class_dequeue_def Let_def s'_def s1_def)
  moreover have "lab6_stride (procs s' c) = lab6_stride (procs s c) - 1"
    using a st2 st3 st4 kp(1) BIG_STRIDE_div_1 by (simp add: s'_def s1_def keeps_def)
  moreover have "lab6_stride (procs s' q) = lab6_stride (procs s q)"
    using a st2 st3 st4 by (simp add: s'_def s1_def)
  ultimately show ?thesis
    using a kp pl4 assms(2) by (auto simp: duel_def s'_def stride_pool_def keeps_def)
qed

lemma duel_n:
  "duel c q k s \<Longrightarrow> k + n < 2 ^ 31 \<Longrightarrow>
   \<exists>s'. schedule_n stride_class n s = Some s' \<and> duel c q (k + n) s'"
proof (induction n arbitrary: k s)
  case (Suc n)
  then obtain s1 where "schedule stride_class s = Some s1" "duel c q (Suc k) s1"
    using duel_step [of c q k s] by auto
  then show ?case using Suc.IH [of "Suc k" s1] Suc.prems(2) by simp
qed auto

section \<open>A concrete run pool\<close>

text \<open>The run queue of \<open>rr_demo\<close> with process 2 in the run pool.\<close>

definition stride_demo :: sched where
  "stride_demo = rr_demo\<lparr>run_pool := Some 2\<rparr>"

lemma stride_demo_pool: "stride_pool {1, 2} stride_demo (Node Leaf 2 Leaf)"
  by (auto simp: stride_pool_def stride_demo_def rr_demo_def demo_proc_def sk_queue_def sk_heap_def
      root_par_def)

lemma stride_demo_strides [simp]: "lab6_stride (procs stride_demo p) = 0"
  "lab6_priority (procs stride_demo p) = 1"
  by (simp_all add: stride_demo_def rr_demo_def demo_proc_def)

lemma stride_demo_sel [simp]: "current stride_demo = 1" "idleproc stride_demo = 0"
  "state (procs stride_demo p) = (if p = 4 then PROC_SLEEPING else PROC_RUNNABLE)"
  by (simp_all add: stride_demo_def)

lemma stride_demo_duel: "duel 1 2 0 stride_demo"
  using stride_demo_pool by (simp add: duel_def stride_pool_def)

section \<open>Properties\<close>

text \<open>
  C12: Taking an entry out of a skew heap of \<open>libs/skew_heap.h\<close> always returns, and leaves a well-linked
  heap of exactly the other entries, still in heap order when the comparison is a weak order.
\<close>

theorem skew_heap_remove_correct:
  assumes "sk_queue h a t" and "b \<in> set_tree t" and "heap_by cmp t" and "weak_order cmp (set_tree t)"
  shows "\<exists>p h' t'. skew_heap_remove cmp a b h = Some (p, h') \<and> sk_queue h' p t' \<and>
    mset_tree t' + {#b#} = mset_tree t \<and> heap_by cmp t'"
proof -
  have d: "distinct (inorder t)" by (rule sk_queue_distinct [OF assms(1)])
  show ?thesis
    using skew_heap_remove_refines [OF assms(1,2), of cmp] mset_sremove [OF assms(2) d, of cmp]
      heap_by_sremove [OF assms(4) d assms(3), of b] by blast
qed

lemma skew_heap_remove_correct_witness:
  "\<exists>p h' t'. skew_heap_remove (\<lambda>x y. if x < y then - 1 else 1) (Some 2) (2::nat)
      (pool stride_demo) = Some (p, h') \<and> sk_queue h' p t' \<and> mset_tree t' + {#2#} = {#2#}"
proof -
  have "sk_queue (pool stride_demo) (Some 2) (Node Leaf 2 Leaf)"
    using stride_demo_pool by (simp add: stride_pool_def stride_demo_def)
  from skew_heap_remove_correct [OF this, of 2 "\<lambda>x y. if x < y then - 1 else 1"] show ?thesis
    by (auto simp: weak_order_def)
qed

text \<open>
  C13: The stride class picks a process of least stride. As long as the strides of the queued processes
  lie within half of the 32-bit circle, \<open>stride_pick_next\<close> returns one that no queued process is
  behind, advances its stride by \<open>BIG_STRIDE / priority\<close>, and after \<open>stride_dequeue\<close> the pool holds
  the other processes, still ordered.
\<close>

theorem stride_picks_least:
  assumes "stride_pool P s t" and "heap_by (proc_stride_comp_f s) t"
    and "in_window b s (set_tree t)" and "t \<noteq> Leaf"
  shows "\<exists>p s1 s2 t'. stride_pick_next s = Some (Some p, s1) \<and> p \<in> set_tree t \<and>
    (\<forall>q \<in> set_tree t. unat (lab6_stride (procs s p) - b) \<le> unat (lab6_stride (procs s q) - b)) \<and>
    stride_dequeue p s1 = Some s2 \<and> stride_pool P s2 t' \<and> set_tree t' = set_tree t - {p} \<and>
    heap_by (proc_stride_comp_f s2) t' \<and>
    lab6_stride (procs s2 p) = lab6_stride (procs s p) + BIG_STRIDE div lab6_priority (procs s p)"
  by (rule stride_pick_dequeue [OF assms])

lemma stride_picks_least_witness:
  "\<exists>p s1. stride_pick_next stride_demo = Some (Some p, s1) \<and> p \<in> {2}"
  using stride_picks_least [OF stride_demo_pool, of 0] by (auto simp: in_window_def)

text \<open>
  Under the stride class the run pool always holds exactly the runnable processes that are not on
  the CPU (nor the idle one): \<open>schedule\<close> always returns, keeps this, and dispatches a ready process
  whenever there is one.
\<close>

theorem stride_schedule_keeps_ready_queue:
  assumes "stride_rep P s {p \<in> P. state (procs s p) = PROC_RUNNABLE \<and> p \<noteq> current s \<and> p \<noteq> idleproc s}"
    and "current s \<in> insert (idleproc s) P"
    and "Q = {p \<in> P. state (procs s p) = PROC_RUNNABLE \<and> p \<noteq> idleproc s}"
  shows "\<exists>s'. schedule stride_class s = Some s' \<and>
    stride_rep P s' {p \<in> P. state (procs s' p) = PROC_RUNNABLE \<and> p \<noteq> current s' \<and> p \<noteq> idleproc s'} \<and>
    (if Q = {} then current s' = idleproc s else current s' \<in> Q)"
proof -
  have ok: "stride.ok P s" using assms(1,2) by (simp add: stride.ok_def stride.ready_def)
  have Q: "Q = stride.ready P s \<union>
      (if state (procs s (current s)) = PROC_RUNNABLE then {current s} else {}) - {idleproc s}"
    using assms(2,3) by (auto simp: stride.ready_def)
  from stride.schedule_ok [OF ok] obtain s' where s': "schedule stride_class s = Some s'"
    "stride.ok P s'" "idleproc s' = idleproc s"
    "if Q = {} then current s' = idleproc s else current s' \<in> Q"
    unfolding Let_def Q [symmetric] by blast
  show ?thesis
    by (rule exI [of _ s']) (use s' in \<open>simp add: stride.ok_def stride.ready_def\<close>)
qed

lemma stride_schedule_keeps_ready_queue_witness:
  "\<exists>s'. schedule stride_class stride_demo = Some s' \<and> current s' \<in> {1, 2}"
proof -
  have c: "current stride_demo = 1" "idleproc stride_demo = 0"
    "\<And>p. p \<in> {1, 2} \<Longrightarrow> state (procs stride_demo p) = PROC_RUNNABLE" by auto
  then have "{p \<in> {1, 2}. state (procs stride_demo p) = PROC_RUNNABLE \<and> p \<noteq> current stride_demo \<and>
      p \<noteq> idleproc stride_demo} = set_tree (Node Leaf 2 Leaf)" by auto
  then have r: "stride_rep {1, 2} stride_demo {p \<in> {1, 2}. state (procs stride_demo p) = PROC_RUNNABLE \<and>
      p \<noteq> current stride_demo \<and> p \<noteq> idleproc stride_demo}"
    using stride_demo_pool unfolding stride_rep_def by metis
  have "{1, 2} = {p \<in> {1, 2}. state (procs stride_demo p) = PROC_RUNNABLE \<and> p \<noteq> idleproc stride_demo}"
    using c by auto
  from stride_schedule_keeps_ready_queue [OF r _ this] c show ?thesis by auto
qed

text \<open>
  The chosen \<open>BIG_STRIDE = 0xFFFFFFFF\<close> is too big: with priority 1 a pick adds \<open>- 1\<close> to the
  stride. Of two runnable processes with equal strides, one of them running with priority 1, the
  other is not dispatched by any of the next \<open>2 ^ 31 - 1\<close> calls of \<open>schedule\<close>, whatever its priority.
\<close>

theorem stride_priority_one_starves:
  assumes "duel c q 0 s" and "n < 2 ^ 31"
  shows "\<exists>s'. schedule_n stride_class n s = Some s' \<and> current s' = c"
  using duel_n [OF assms(1), of n] assms(2) by (auto simp: duel_def)

lemma stride_priority_one_starves_witness:
  "\<exists>s'. schedule_n stride_class 1000000 stride_demo = Some s' \<and> current s' = 1"
  using stride_priority_one_starves [OF stride_demo_duel, of 1000000] by simp

end
