(* ===== verification/Timer.thy ===== *)
theory Timer
  imports RoundRobin
begin

text \<open>
  The kernel timers of \<open>lab8/kern/schedule/sched.c\<close>. The timer list is delta encoded: each entry
  stores the ticks to wait after the entry before it. The abstraction is the list of deadlines, the
  prefix sums; inserting and deleting keep every other deadline, and the clock tick makes each
  deadline one smaller and wakes the owners of those that reach zero.
\<close>

unbundle bit_operations_syntax

section \<open>State and operations\<close>

record timer =
  expires :: u32
  tproc :: "nat option"

datatype tent = TimerList | TimerLink nat

record ktimers =
  tlinks :: "tent links"
  timers :: "nat \<Rightarrow> timer"

fun le2timer :: "tent \<Rightarrow> nat" where
  "le2timer (TimerLink t) = t"
| "le2timer TimerList = 0"

definition set_expires :: "nat \<Rightarrow> u32 \<Rightarrow> ktimers \<Rightarrow> ktimers" where
  "set_expires t e k = k\<lparr>timers := (timers k)(t := (timers k t)\<lparr>expires := e\<rparr>)\<rparr>"

lemma set_expires_sel [simp]:
  "tlinks (set_expires t e k) = tlinks k"
  "timers (set_expires t e k) = (timers k)(t := (timers k t)\<lparr>expires := e\<rparr>)"
  by (simp_all add: set_expires_def)

definition timer_init :: "nat \<Rightarrow> nat option \<Rightarrow> u32 \<Rightarrow> ktimers \<Rightarrow> ktimers" where
  "timer_init t p e k = k\<lparr>timers := (timers k)(t := \<lparr>expires = e, tproc = p\<rparr>),
     tlinks := list_init (TimerLink t) (tlinks k)\<rparr>"

partial_function (option) add_loop :: "nat \<Rightarrow> tent \<Rightarrow> ktimers \<Rightarrow> (tent \<times> ktimers) option" where
  "add_loop t le k =
     (if le = TimerList then Some (le, k)
      else let nx = le2timer le in
        if expires (timers k t) < expires (timers k nx)
        then Some (le, set_expires nx (expires (timers k nx) - expires (timers k t)) k)
        else add_loop t (list_next le (tlinks k))
               (set_expires t (expires (timers k t) - expires (timers k nx)) k))"

declare add_loop.simps [code]

definition add_timer :: "nat \<Rightarrow> ktimers \<Rightarrow> ktimers option" where
  "add_timer t k = do {
     c_assert (expires (timers k t) > 0 \<and> tproc (timers k t) \<noteq> None);
     c_assert (list_empty (TimerLink t) (tlinks k));
     (le, k1) \<leftarrow> add_loop t (list_next TimerList (tlinks k)) k;
     Some (k1\<lparr>tlinks := list_add_before le (TimerLink t) (tlinks k1)\<rparr>)
   }"

definition del_timer :: "nat \<Rightarrow> ktimers \<Rightarrow> ktimers" where
  "del_timer t k =
     (if \<not> list_empty (TimerLink t) (tlinks k) then
        let k1 = (if expires (timers k t) \<noteq> 0 then
                    let le = list_next (TimerLink t) (tlinks k) in
                    if le \<noteq> TimerList then
                      let nx = le2timer le
                      in set_expires nx (expires (timers k nx) + expires (timers k t)) k
                    else k
                  else k)
        in k1\<lparr>tlinks := list_del_init (TimerLink t) (tlinks k1)\<rparr>
      else k)"

text \<open>One round of the inner loop: the owner is woken and the timer taken off the list.\<close>

definition fire_timer :: "sched_class \<Rightarrow> nat \<Rightarrow> ktimers \<Rightarrow> sched \<Rightarrow> (ktimers \<times> sched) option" where
  "fire_timer sc t k s = do {
     p \<leftarrow> tproc (timers k t);
     c_assert (wait_state (procs s p) \<noteq> 0 \<longrightarrow> wait_state (procs s p) AND WT_INTERRUPTED \<noteq> 0);
     s1 \<leftarrow> wakeup_proc sc p s;
     Some (del_timer t k, s1)
   }"

partial_function (option) run_loop ::
  "sched_class \<Rightarrow> nat \<Rightarrow> ktimers \<Rightarrow> sched \<Rightarrow> (ktimers \<times> sched) option" where
  "run_loop sc t k s =
     (if expires (timers k t) = 0 then do {
        let le = list_next (TimerLink t) (tlinks k);
        (k1, s1) \<leftarrow> fire_timer sc t k s;
        if le = TimerList then Some (k1, s1) else run_loop sc (le2timer le) k1 s1
      } else Some (k, s))"

declare run_loop.simps [code]

definition run_timer_list :: "sched_class \<Rightarrow> ktimers \<Rightarrow> sched \<Rightarrow> (ktimers \<times> sched) option" where
  "run_timer_list sc k s = do {
     let le = list_next TimerList (tlinks k);
     (k1, s1) \<leftarrow> (if le \<noteq> TimerList then do {
         let t = le2timer le;
         c_assert (expires (timers k t) \<noteq> 0);
         run_loop sc t (set_expires t (expires (timers k t) - 1) k) s
       } else Some (k, s));
     Some (k1, sched_class_proc_tick sc (current s1) s1)
   }"

section \<open>Deadlines\<close>

definition timer_queue :: "ktimers \<Rightarrow> nat list \<Rightarrow> bool" where
  "timer_queue k xs \<longleftrightarrow> dlist (tlinks k) TimerList (map TimerLink xs)"

definition ticks :: "ktimers \<Rightarrow> nat \<Rightarrow> nat" where
  "ticks k t = unat (expires (timers k t))"

fun deadlines :: "ktimers \<Rightarrow> nat \<Rightarrow> nat list \<Rightarrow> nat list" where
  "deadlines k a [] = []"
| "deadlines k a (t # ts) = (a + ticks k t) # deadlines k (a + ticks k t) ts"

lemma length_deadlines [simp]: "length (deadlines k a xs) = length xs"
  by (induction xs arbitrary: a) auto

lemma deadlines_append:
  "deadlines k a (xs @ ys) = deadlines k a xs @ deadlines k (a + sum_list (map (ticks k) xs)) ys"
  by (induction xs arbitrary: a) (auto simp: add.assoc)

lemma deadlines_cong:
  "(\<And>t. t \<in> set xs \<Longrightarrow> ticks k' t = ticks k t) \<Longrightarrow> deadlines k' a xs = deadlines k a xs"
  by (induction xs arbitrary: a) auto

lemma deadlines_upper: "d \<in> set (deadlines k a xs) \<Longrightarrow> d \<le> a + sum_list (map (ticks k) xs)"
  by (induction xs arbitrary: a) fastforce+

lemma deadlines_lower: "d \<in> set (deadlines k a xs) \<Longrightarrow> a + ticks k (hd xs) \<le> d"
proof (induction xs arbitrary: a)
  case (Cons x xs)
  then show ?case by (cases xs) fastforce+
qed simp

lemma timer_queue_distinct: "timer_queue k xs \<Longrightarrow> distinct xs"
  by (auto simp: timer_queue_def dlist_def distinct_map)

lemma timer_queue_next:
  "timer_queue k (us @ x # vs) \<Longrightarrow>
   list_next (TimerLink x) (tlinks k) = hd (map TimerLink vs @ [TimerList])"
  using list_next_elem_dlist [of "tlinks k" TimerList "map TimerLink us" "TimerLink x" "map TimerLink vs"]
  by (simp add: timer_queue_def)

section \<open>Adding a timer\<close>

lemma ticks_set [simp]: "ticks (set_expires t e k) u = (if u = t then unat e else ticks k u)"
  by (simp add: ticks_def)

lemma add_loop_correct:
  assumes "timer_queue k (us @ vs)" and "t \<notin> set (us @ vs)"
  shows "\<exists>vs1 vs2 k'. vs = vs1 @ vs2 \<and>
    add_loop t (hd (map TimerLink vs @ [TimerList])) k = Some (hd (map TimerLink vs2 @ [TimerList]), k') \<and>
    tlinks k' = tlinks k \<and> ticks k t = sum_list (map (ticks k) vs1) + ticks k' t \<and>
    (\<forall>u. u \<notin> insert t (set (take 1 vs2)) \<longrightarrow> ticks k' u = ticks k u) \<and>
    (\<forall>u. tproc (timers k' u) = tproc (timers k u)) \<and>
    (vs2 \<noteq> [] \<longrightarrow> ticks k (hd vs2) = ticks k' t + ticks k' (hd vs2) \<and> 0 < ticks k' (hd vs2))"
  using assms
proof (induction vs arbitrary: us k)
  case Nil
  have "add_loop t TimerList k = Some (TimerList, k)" by (subst add_loop.simps) simp
  then show ?case by (intro exI [of _ "[]"] exI [of _ k]) auto
next
  case (Cons v vs)
  have tv: "t \<noteq> v" using Cons.prems(2) by auto
  show ?case
  proof (cases "expires (timers k t) < expires (timers k v)")
    case True
    let ?k = "set_expires v (expires (timers k v) - expires (timers k t)) k"
    have "add_loop t (TimerLink v) k = Some (TimerLink v, ?k)"
      by (subst add_loop.simps) (simp add: True Let_def)
    moreover have "ticks k v = ticks ?k t + ticks ?k v \<and> 0 < ticks ?k v"
      using True tv by (simp add: ticks_def unat_sub word_less_nat_alt order_less_imp_le)
    ultimately show ?thesis using tv by (intro exI [of _ "[]"] exI [of _ "v # vs"] exI [of _ ?k]) auto
  next
    case False
    define k1 where "k1 = set_expires t (expires (timers k t) - expires (timers k v)) k"
    have nx: "list_next (TimerLink v) (tlinks k) = hd (map TimerLink vs @ [TimerList])"
      by (rule timer_queue_next [OF Cons.prems(1)])
    have step: "add_loop t (TimerLink v) k = add_loop t (hd (map TimerLink vs @ [TimerList])) k1"
      by (subst add_loop.simps) (simp add: False Let_def nx k1_def)
    have tk: "ticks k t = ticks k v + ticks k1 t"
      using False by (simp add: ticks_def k1_def unat_sub word_less_nat_alt word_le_nat_alt)
    have "timer_queue k1 ((us @ [v]) @ vs)" "t \<notin> set ((us @ [v]) @ vs)"
      using Cons.prems by (auto simp: timer_queue_def k1_def)
    from Cons.IH [OF this] obtain vs1 vs2 k' where
      IH: "vs = vs1 @ vs2"
      "add_loop t (hd (map TimerLink vs @ [TimerList])) k1 = Some (hd (map TimerLink vs2 @ [TimerList]), k')"
      "tlinks k' = tlinks k1" "ticks k1 t = sum_list (map (ticks k1) vs1) + ticks k' t"
      "\<forall>u. u \<notin> insert t (set (take 1 vs2)) \<longrightarrow> ticks k' u = ticks k1 u"
      "\<forall>u. tproc (timers k' u) = tproc (timers k1 u)"
      "vs2 \<noteq> [] \<longrightarrow> ticks k1 (hd vs2) = ticks k' t + ticks k' (hd vs2) \<and> 0 < ticks k' (hd vs2)"
      by blast
    have tl1: "tlinks k1 = tlinks k" "tproc (timers k1 u) = tproc (timers k u)" for u
      by (simp_all add: k1_def)
    have eq: "ticks k1 u = ticks k u" if "u \<noteq> t" for u using that by (simp add: k1_def)
    have "map (ticks k1) vs1 = map (ticks k) vs1" using Cons.prems(2) IH(1) by (intro map_cong refl eq) auto
    then have "sum_list (map (ticks k1) vs1) = sum_list (map (ticks k) vs1)" by (rule arg_cong)
    moreover have "vs2 \<noteq> [] \<Longrightarrow> ticks k1 (hd vs2) = ticks k (hd vs2)"
      using Cons.prems(2) IH(1) by (intro eq) (cases vs2; auto)
    moreover have "ticks k' u = ticks k u" if "u \<notin> insert t (set (take 1 vs2))" for u
      using IH(5) that eq [of u] by simp
    ultimately have "v # vs = (v # vs1) @ vs2 \<and>
      add_loop t (hd (map TimerLink (v # vs) @ [TimerList])) k = Some (hd (map TimerLink vs2 @ [TimerList]), k') \<and>
      tlinks k' = tlinks k \<and> ticks k t = sum_list (map (ticks k) (v # vs1)) + ticks k' t \<and>
      (\<forall>u. u \<notin> insert t (set (take 1 vs2)) \<longrightarrow> ticks k' u = ticks k u) \<and>
      (\<forall>u. tproc (timers k' u) = tproc (timers k u)) \<and>
      (vs2 \<noteq> [] \<longrightarrow> ticks k (hd vs2) = ticks k' t + ticks k' (hd vs2) \<and> 0 < ticks k' (hd vs2))"
      using IH(1-4,6,7) step tk tl1 by simp
    then show ?thesis by blast
  qed
qed

text \<open>The timer list as a set of deadlines: the head expires in at least one tick.\<close>

lemma add_timer_correct:
  assumes q: "timer_queue k xs" and t: "t \<notin> set xs" and un: "list_empty (TimerLink t) (tlinks k)"
    and e: "0 < ticks k t" and p: "tproc (timers k t) \<noteq> None"
  shows "\<exists>us vs k'. xs = us @ vs \<and> add_timer t k = Some k' \<and> timer_queue k' (us @ t # vs) \<and>
    deadlines k' 0 us = deadlines k 0 us \<and>
    deadlines k' 0 (us @ t # vs) = deadlines k 0 us @ ticks k t # drop (length us) (deadlines k 0 xs) \<and>
    (\<forall>d \<in> set (deadlines k 0 us). d \<le> ticks k t) \<and>
    (\<forall>d \<in> set (drop (length us) (deadlines k 0 xs)). ticks k t < d)"
proof -
  have "timer_queue k ([] @ xs)" "t \<notin> set ([] @ xs)" using q t by auto
  from add_loop_correct [OF this] obtain us vs k1 where x: "xs = us @ vs"
    and l: "add_loop t (hd (map TimerLink xs @ [TimerList])) k = Some (hd (map TimerLink vs @ [TimerList]), k1)"
    and tl: "tlinks k1 = tlinks k" and tk: "ticks k t = sum_list (map (ticks k) us) + ticks k1 t"
    and fr: "\<forall>u. u \<notin> insert t (set (take 1 vs)) \<longrightarrow> ticks k1 u = ticks k u"
    and hv: "vs \<noteq> [] \<longrightarrow> ticks k (hd vs) = ticks k1 t + ticks k1 (hd vs) \<and> 0 < ticks k1 (hd vs)"
    by blast
  define k' where "k' = k1\<lparr>tlinks := list_add_before (hd (map TimerLink vs @ [TimerList])) (TimerLink t) (tlinks k1)\<rparr>"
  have add: "add_timer t k = Some k'"
    using un e p l list_next_head_dlist [of "tlinks k" TimerList "map TimerLink xs"] q
    by (simp add: add_timer_def k'_def timer_queue_def ticks_def unat_gt_0 word_gt_0)
  have d: "distinct xs" by (rule timer_queue_distinct [OF q])
  have q': "timer_queue k' (us @ t # vs)"
  proof (cases vs)
    case Nil
    then show ?thesis
      using q x t tl list_add_before_head_dlist [of "tlinks k" TimerList "map TimerLink us" "TimerLink t"]
      by (auto simp: timer_queue_def k'_def)
  next
    case (Cons v vs')
    then show ?thesis
      using q x t tl list_add_before_elem_dlist
        [of "tlinks k" TimerList "map TimerLink us" "TimerLink v" "map TimerLink vs'" "TimerLink t"]
      by (auto simp: timer_queue_def k'_def)
  qed
  have tk': "ticks k' = ticks k1" by (auto simp: ticks_def k'_def)
  have us: "ticks k' u = ticks k u" if "u \<in> set us" for u
    using that fr t d x tk' by (cases vs) auto
  then have dus: "deadlines k' 0 us = deadlines k 0 us" by (intro deadlines_cong) simp
  have sus: "sum_list (map (ticks k') us) = sum_list (map (ticks k) us)"
    using us by (metis map_eq_conv)
  have vs: "deadlines k' (ticks k t) vs = deadlines k (sum_list (map (ticks k) us)) vs"
  proof (cases vs)
    case (Cons v vs')
    have "deadlines k' a vs' = deadlines k a vs'" for a
      by (rule deadlines_cong) (use fr t d x tk' Cons in auto)
    then show ?thesis using hv Cons tk tk' by (simp add: add.assoc)
  qed simp
  have full: "deadlines k' 0 (us @ t # vs) = deadlines k 0 us @ ticks k t # drop (length us) (deadlines k 0 xs)"
    using dus sus vs tk tk' x by (simp add: deadlines_append)
  have "\<forall>d \<in> set (deadlines k 0 us). d \<le> ticks k t" using deadlines_upper tk by fastforce
  moreover have "\<forall>d \<in> set (drop (length us) (deadlines k 0 xs)). ticks k t < d"
  proof (cases vs)
    case (Cons v vs')
    then have "ticks k t < sum_list (map (ticks k) us) + ticks k (hd vs)" using hv tk by simp
    then show ?thesis using deadlines_lower [of _ k "sum_list (map (ticks k) us)" vs] x
      by (fastforce simp: deadlines_append)
  qed (use x in simp)
  ultimately show ?thesis using x add q' dus full by blast
qed

section \<open>Deleting a timer\<close>

lemma del_timer_correct:
  assumes q: "timer_queue k (us @ t # vs)"
    and bound: "ticks k t + ticks k (hd vs) < 2 ^ 32"
  shows "timer_queue (del_timer t k) (us @ vs) \<and> list_empty (TimerLink t) (tlinks (del_timer t k)) \<and>
    deadlines (del_timer t k) 0 (us @ vs) = deadlines k 0 us @ tl (drop (length us) (deadlines k 0 (us @ t # vs))) \<and>
    (\<forall>u. tproc (timers (del_timer t k) u) = tproc (timers k u)) \<and>
    (\<forall>u. u \<notin> set vs \<longrightarrow> ticks (del_timer t k) u = ticks k u)"
proof -
  have d: "distinct (us @ t # vs)" by (rule timer_queue_distinct [OF q])
  have dl: "dlist (tlinks k) TimerList (map TimerLink us @ TimerLink t # map TimerLink vs)"
    using q by (simp add: timer_queue_def)
  have nx: "list_next (TimerLink t) (tlinks k) = hd (map TimerLink vs @ [TimerList])"
    by (rule timer_queue_next [OF q])
  have ne: "\<not> list_empty (TimerLink t) (tlinks k)" by (rule list_empty_elem [OF dl])
  define k1 where "k1 = (if ticks k t \<noteq> 0 \<and> vs \<noteq> []
    then set_expires (hd vs) (expires (timers k (hd vs)) + expires (timers k t)) k else k)"
  have del: "del_timer t k = k1\<lparr>tlinks := list_del_init (TimerLink t) (tlinks k1)\<rparr>"
    using ne nx by (cases vs) (auto simp: del_timer_def Let_def k1_def ticks_def unat_eq_0)
  have tl: "tlinks k1 = tlinks k" by (simp add: k1_def)
  have tk: "ticks (del_timer t k) u = (if vs \<noteq> [] \<and> u = hd vs then ticks k t + ticks k u else ticks k u)" for u
  proof -
    have "unat (expires (timers k (hd vs)) + expires (timers k t)) = ticks k t + ticks k (hd vs)"
      using bound unat_add_lem [of "expires (timers k (hd vs))" "expires (timers k t)"]
      by (simp add: ticks_def)
    moreover have "ticks (del_timer t k) u = ticks k1 u" by (simp add: del ticks_def)
    ultimately show ?thesis by (simp add: k1_def)
  qed
  have "timer_queue (del_timer t k) (us @ vs)" "list_empty (TimerLink t) (tlinks (del_timer t k))"
    using list_del_init_dlist [OF dl] by (auto simp: timer_queue_def del tl)
  moreover have "deadlines (del_timer t k) a us = deadlines k a us" for a
    by (rule deadlines_cong) (use d tk in \<open>cases vs; auto\<close>)
  moreover have "map (ticks (del_timer t k)) us = map (ticks k) us"
    using d tk by (cases vs) auto
  then have "sum_list (map (ticks (del_timer t k)) us) = sum_list (map (ticks k) us)" by (rule arg_cong)
  moreover have "deadlines (del_timer t k) a vs = tl (deadlines k a (t # vs))" for a
  proof (cases vs)
    case (Cons v vs')
    have "deadlines (del_timer t k) b vs' = deadlines k b vs'" for b
      by (rule deadlines_cong) (use d tk Cons in auto)
    then show ?thesis using Cons tk by (simp add: add.assoc)
  qed simp
  moreover have "\<forall>u. tproc (timers (del_timer t k) u) = tproc (timers k u)"
    by (simp add: del k1_def)
  moreover have "\<forall>u. u \<notin> set vs \<longrightarrow> ticks (del_timer t k) u = ticks k u"
    using tk by (cases vs) auto
  ultimately show ?thesis by (simp add: deadlines_append)
qed

section \<open>The clock tick\<close>

lemma del_timer_expired:
  assumes q: "timer_queue k (us @ t # vs)" and e: "expires (timers k t) = 0"
  shows "timer_queue (del_timer t k) (us @ vs)" and "timers (del_timer t k) = timers k"
proof -
  have dl: "dlist (tlinks k) TimerList (map TimerLink us @ TimerLink t # map TimerLink vs)"
    using q by (simp add: timer_queue_def)
  have "\<not> list_empty (TimerLink t) (tlinks k)" by (rule list_empty_elem [OF dl])
  then have del: "del_timer t k = k\<lparr>tlinks := list_del_init (TimerLink t) (tlinks k)\<rparr>"
    using e by (simp add: del_timer_def)
  show "timer_queue (del_timer t k) (us @ vs)" "timers (del_timer t k) = timers k"
    using list_del_init_dlist(1) [OF dl] by (simp_all add: del timer_queue_def)
qed

text \<open>The owner of a queued timer is a live process, asleep in an interruptible wait or awake.\<close>

definition timer_owner :: "nat set \<Rightarrow> ktimers \<Rightarrow> sched \<Rightarrow> nat \<Rightarrow> bool" where
  "timer_owner P k s t \<longleftrightarrow> (\<exists>p \<in> P. tproc (timers k t) = Some p \<and>
     state (procs s p) \<noteq> PROC_ZOMBIE \<and>
     (wait_state (procs s p) \<noteq> 0 \<longrightarrow> wait_state (procs s p) AND WT_INTERRUPTED \<noteq> 0))"

text \<open>\<open>woken k s s' ts\<close>: the owners of \<open>ts\<close> are runnable in \<open>s'\<close>, and nobody has stopped being so.\<close>

definition woken :: "ktimers \<Rightarrow> sched \<Rightarrow> sched \<Rightarrow> nat list \<Rightarrow> bool" where
  "woken k s s' ts \<longleftrightarrow>
     (\<forall>t \<in> set ts. \<forall>p. tproc (timers k t) = Some p \<longrightarrow> state (procs s' p) = PROC_RUNNABLE) \<and>
     (\<forall>p. state (procs s p) = PROC_RUNNABLE \<longrightarrow> state (procs s' p) = PROC_RUNNABLE)"

lemma woken_Cons:
  assumes "woken k s s1 [t]" and "woken k1 s1 s' ts" and "timers k1 = timers k"
  shows "woken k s s' (t # ts)"
  using assms unfolding woken_def by auto

context scheduler
begin

lemma fire_timer_ok:
  assumes "ok s" and q: "timer_queue k (t # vs)" and "timer_owner P k s t"
    and e: "expires (timers k t) = 0"
  shows "\<exists>s1. fire_timer sc t k s = Some (del_timer t k, s1) \<and> ok s1 \<and> woken k s s1 [t] \<and>
    (\<forall>u. timer_owner P k s u \<longrightarrow> timer_owner P k s1 u)"
proof -
  from assms(3) obtain p where p: "p \<in> P" "tproc (timers k t) = Some p" "state (procs s p) \<noteq> PROC_ZOMBIE"
    "wait_state (procs s p) \<noteq> 0 \<longrightarrow> wait_state (procs s p) AND WT_INTERRUPTED \<noteq> 0"
    by (auto simp: timer_owner_def)
  from wakeup_proc_ok [OF assms(1) p(1,3)] obtain s1 where w: "wakeup_proc sc p s = Some s1"
    "ok s1" "state (procs s1 p) = PROC_RUNNABLE"
    "\<forall>q. q \<noteq> p \<longrightarrow> state (procs s1 q) = state (procs s q)"
    "\<forall>q. wait_state (procs s1 q) = (if state (procs s p) \<noteq> PROC_RUNNABLE \<and> q = p then 0
       else wait_state (procs s q))" by blast
  have "fire_timer sc t k s = Some (del_timer t k, s1)"
    using p w(1) by (simp add: fire_timer_def)
  moreover have "woken k s s1 [t]" using p(2) w(3,4) unfolding woken_def by fastforce
  moreover have "timer_owner P k s1 u" if "timer_owner P k s u" for u
  proof -
    from that obtain q where q: "q \<in> P" "tproc (timers k u) = Some q" "state (procs s q) \<noteq> PROC_ZOMBIE"
      "wait_state (procs s q) \<noteq> 0 \<longrightarrow> wait_state (procs s q) AND WT_INTERRUPTED \<noteq> 0"
      by (auto simp: timer_owner_def)
    have "state (procs s1 q) \<noteq> PROC_ZOMBIE" using w(3,4) q(3) by (cases "q = p") auto
    then show ?thesis using q w(5) unfolding timer_owner_def by auto
  qed
  ultimately show ?thesis using w(2) by blast
qed

lemma run_loop_ok:
  assumes "ok s" and "timer_queue k (t # vs)" and "\<forall>u \<in> set (t # vs). timer_owner P k s u"
  shows "\<exists>k' s'. run_loop sc t k s = Some (k', s') \<and> ok s' \<and>
    timers k' = timers k \<and> timer_queue k' (dropWhile (\<lambda>u. ticks k u = 0) (t # vs)) \<and>
    woken k s s' (takeWhile (\<lambda>u. ticks k u = 0) (t # vs))"
  using assms
proof (induction vs arbitrary: t k s)
  case Nil
  show ?case
  proof (cases "expires (timers k t) = 0")
    case True
    from fire_timer_ok [OF Nil(1,2) _ True] Nil(3) obtain s1 where
      f: "fire_timer sc t k s = Some (del_timer t k, s1)" "ok s1" "woken k s s1 [t]" by auto
    have "list_next (TimerLink t) (tlinks k) = TimerList"
      using timer_queue_next [of k "[]" t "[]"] Nil(2) by simp
    then have "run_loop sc t k s = Some (del_timer t k, s1)"
      using f True by (subst run_loop.simps) simp
    then show ?thesis using f True del_timer_expired [of k "[]" t "[]"] Nil(2)
      by (simp add: ticks_def)
  next
    case False
    then show ?thesis using Nil
      by (subst run_loop.simps) (auto simp: ticks_def unat_eq_0 woken_def)
  qed
next
  case (Cons v vs)
  show ?case
  proof (cases "expires (timers k t) = 0")
    case True
    from fire_timer_ok [OF Cons.prems(1,2) _ True] Cons.prems(3) obtain s1 where
      f: "fire_timer sc t k s = Some (del_timer t k, s1)" "ok s1" "woken k s s1 [t]"
      and ow: "\<forall>u. timer_owner P k s u \<longrightarrow> timer_owner P k s1 u" by auto
    note del = del_timer_expired [of k "[]" t "v # vs", simplified, OF Cons.prems(2) True]
    have "\<forall>u \<in> set (v # vs). timer_owner P (del_timer t k) s1 u"
      using Cons.prems(3) ow del(2) by (auto simp: timer_owner_def)
    from Cons.IH [OF f(2) del(1) this] obtain k' s' where
      IH: "run_loop sc v (del_timer t k) s1 = Some (k', s')" "ok s'" "timers k' = timers (del_timer t k)"
      "timer_queue k' (dropWhile (\<lambda>u. ticks (del_timer t k) u = 0) (v # vs))"
      "woken (del_timer t k) s1 s' (takeWhile (\<lambda>u. ticks (del_timer t k) u = 0) (v # vs))" by blast
    have tk: "ticks (del_timer t k) = ticks k" using del(2) by (auto simp: ticks_def)
    have "list_next (TimerLink t) (tlinks k) = TimerLink v"
      using timer_queue_next [of k "[]" t "v # vs"] Cons.prems(2) by simp
    then have "run_loop sc t k s = Some (k', s')"
      using f True IH(1) by (subst run_loop.simps) simp
    moreover have "ticks k t = 0" using True by (simp add: ticks_def)
    moreover have "woken k s s' (t # takeWhile (\<lambda>u. ticks k u = 0) (v # vs))"
      using woken_Cons [OF f(3) IH(5) del(2)] unfolding tk .
    ultimately show ?thesis using IH(2-4) unfolding tk del(2) by simp
  next
    case False
    then show ?thesis using Cons.prems
      by (subst run_loop.simps) (auto simp: ticks_def unat_eq_0 woken_def)
  qed
qed

end

lemma ticks_pred: "0 < ticks k t \<Longrightarrow> unat (expires (timers k t) - 1) = ticks k t - 1"
  by (simp add: ticks_def unat_minus_one unat_gt_0)

lemma deadlines_tick:
  assumes "distinct (t # vs)" and "0 < ticks k t"
  shows "deadlines (set_expires t (expires (timers k t) - 1) k) 0 (t # vs) =
    map (\<lambda>d. d - 1) (deadlines k 0 (t # vs))"
proof -
  let ?k = "set_expires t (expires (timers k t) - 1) k"
  have *: "deadlines ?k a vs' = map (\<lambda>d. d - 1) (deadlines k (Suc a) vs')" if "t \<notin> set vs'" for a vs'
    using that by (induction vs' arbitrary: a) (auto simp: ticks_def)
  have "ticks ?k t = ticks k t - 1" using ticks_pred [OF assms(2)] by simp
  moreover have "deadlines ?k (ticks k t - 1) vs = map (\<lambda>d. d - 1) (deadlines k (ticks k t) vs)"
    using assms * [of vs "ticks k t - 1"] by simp
  ultimately show ?thesis by (simp del: ticks_set)
qed

lemma expired_prefix:
  "takeWhile (\<lambda>u. ticks k u = 0) xs = take (length (takeWhile (\<lambda>d. d = 0) (deadlines k 0 xs))) xs"
  "dropWhile (\<lambda>u. ticks k u = 0) xs = drop (length (takeWhile (\<lambda>d. d = 0) (deadlines k 0 xs))) xs"
  by (induction xs) auto

lemma deadlines_dropWhile:
  "deadlines k 0 (dropWhile (\<lambda>u. ticks k u = 0) xs) = dropWhile (\<lambda>d. d = 0) (deadlines k 0 xs)"
  by (induction xs) auto

lemma woken_tick:
  "woken k s s' ts \<Longrightarrow> (\<forall>p. state (procs s'' p) = state (procs s' p)) \<Longrightarrow> timers k1 = timers k \<Longrightarrow>
   woken k1 s s'' ts"
  by (simp add: woken_def)

context scheduler
begin

lemma tick_state: "ok s \<Longrightarrow> state (procs (sched_class_proc_tick sc p s) q) = state (procs s q)"
  using tick_ok [of s "ready s" p] by (auto simp: sched_class_proc_tick_def ok_def keeps_def)

lemma run_timer_list_ok:
  assumes ok: "ok s" and q: "timer_queue k xs" and ow: "\<forall>u \<in> set xs. timer_owner P k s u"
    and pos: "xs \<noteq> [] \<Longrightarrow> 0 < ticks k (hd xs)"
  shows "\<exists>k' s'. run_timer_list sc k s = Some (k', s') \<and> ok s' \<and>
    timer_queue k' (drop (length (takeWhile (\<lambda>d. d = 1) (deadlines k 0 xs))) xs) \<and>
    deadlines k' 0 (drop (length (takeWhile (\<lambda>d. d = 1) (deadlines k 0 xs))) xs) =
      map (\<lambda>d. d - 1) (dropWhile (\<lambda>d. d = 1) (deadlines k 0 xs)) \<and>
    woken k s s' (take (length (takeWhile (\<lambda>d. d = 1) (deadlines k 0 xs))) xs)"
proof (cases xs)
  case Nil
  then have "list_next TimerList (tlinks k) = TimerList"
    using q list_next_head_dlist [of "tlinks k" TimerList "[]"] by (simp add: timer_queue_def)
  then have "run_timer_list sc k s = Some (k, sched_class_proc_tick sc (current s) s)"
    by (simp add: run_timer_list_def)
  then show ?thesis using Nil q ok tick_current_ok tick_state by (simp add: woken_def)
next
  case (Cons t vs)
  have tpos: "0 < ticks k t" using pos Cons by simp
  then have dpos: "\<forall>d \<in> set (deadlines k 0 xs). 0 < d"
    using deadlines_lower [of _ k 0 xs] Cons by fastforce
  define k1 where "k1 = set_expires t (expires (timers k t) - 1) k"
  have d1: "deadlines k1 0 xs = map (\<lambda>d. d - 1) (deadlines k 0 xs)"
    unfolding Cons k1_def
    by (rule deadlines_tick) (use timer_queue_distinct [OF q] tpos Cons in simp_all)
  have q1: "timer_queue k1 (t # vs)" using q Cons by (simp add: timer_queue_def k1_def)
  have tp: "tproc (timers k1 u) = tproc (timers k u)" for u by (simp add: k1_def)
  have "\<forall>u \<in> set (t # vs). timer_owner P k1 s u" using ow Cons tp by (simp add: timer_owner_def)
  from run_loop_ok [OF ok q1 this] obtain k' s1 where
    l: "run_loop sc t k1 s = Some (k', s1)" "ok s1" "timers k' = timers k1"
    "timer_queue k' (dropWhile (\<lambda>u. ticks k1 u = 0) xs)"
    "woken k1 s s1 (takeWhile (\<lambda>u. ticks k1 u = 0) xs)" using Cons by blast
  define s' where "s' = sched_class_proc_tick sc (current s1) s1"
  have "list_next TimerList (tlinks k) = TimerLink t"
    using q Cons list_next_head_dlist [of "tlinks k" TimerList "map TimerLink xs"]
    by (simp add: timer_queue_def)
  then have run: "run_timer_list sc k s = Some (k', s')"
    using l(1) tpos by (simp add: run_timer_list_def s'_def k1_def ticks_def unat_gt_0 Let_def)
  have tw: "length (takeWhile (\<lambda>d. d = 0) (deadlines k1 0 xs)) =
      length (takeWhile (\<lambda>d. d = 1) (deadlines k 0 xs))"
  proof -
    have "takeWhile ((\<lambda>d. d = 0) \<circ> (\<lambda>d. d - 1)) (deadlines k 0 xs) = takeWhile (\<lambda>d. d = 1) (deadlines k 0 xs)"
      by (rule takeWhile_cong) (use dpos in auto)
    then show ?thesis by (simp add: d1 takeWhile_map)
  qed
  have dw: "dropWhile (\<lambda>d. d = 0) (deadlines k1 0 xs) =
      map (\<lambda>d. d - 1) (dropWhile (\<lambda>d. d = 1) (deadlines k 0 xs))"
  proof -
    have "dropWhile ((\<lambda>d. d = 0) \<circ> (\<lambda>d. d - 1)) (deadlines k 0 xs) = dropWhile (\<lambda>d. d = 1) (deadlines k 0 xs)"
      by (rule dropWhile_cong) (use dpos in auto)
    then show ?thesis by (simp add: d1 dropWhile_map)
  qed
  have tk: "ticks k' = ticks k1" using l(3) by (auto simp: ticks_def)
  have "deadlines k' 0 (dropWhile (\<lambda>u. ticks k1 u = 0) xs) = dropWhile (\<lambda>d. d = 0) (deadlines k1 0 xs)"
    using deadlines_dropWhile [of k1 xs] deadlines_cong [of _ k' k1] tk by simp
  moreover have "woken k s s' (takeWhile (\<lambda>u. ticks k1 u = 0) xs)"
    using l(2,5) tick_state tp by (simp add: woken_def s'_def)
  ultimately show ?thesis
    using run l(2,4) tick_current_ok dw unfolding expired_prefix tw s'_def by auto
qed

end

section \<open>A concrete timer list\<close>

text \<open>Timers 10 (deadline 1, owner 4) and 11 (deadline 3, owner 2) are queued, 12 is initialised.\<close>

definition timer_demo :: ktimers where
  "timer_demo = \<lparr>
     tlinks = list_init (TimerLink 12) (list_add_before TimerList (TimerLink 11)
       (list_add_before TimerList (TimerLink 10) (list_init TimerList \<lparr>lprev = id, lnext = id\<rparr>))),
     timers = (\<lambda>t. if t = 10 then \<lparr>expires = 1, tproc = Some 4\<rparr>
       else if t = 11 then \<lparr>expires = 2, tproc = Some 2\<rparr> else \<lparr>expires = 2, tproc = Some 3\<rparr>)\<rparr>"

lemma timer_demo_queue: "timer_queue timer_demo [10, 11]"
  by (simp add: timer_queue_def timer_demo_def list_ops_defs dlist_def)

lemma timer_demo_ticks [simp]:
  "ticks timer_demo t = (if t = 10 then 1 else 2)"
  "tproc (timers timer_demo t) = Some (if t = 10 then 4 else if t = 11 then 2 else 3)"
  by (simp_all add: timer_demo_def ticks_def)

section \<open>Properties\<close>

text \<open>
  C10: Adding a timer keeps everyone's deadline: \<open>add_timer\<close> returns, the new timer expires after
  exactly its \<open>expires\<close> ticks, no other deadline moves, and the list stays sorted by deadline.
\<close>

theorem add_timer_keeps_deadlines:
  assumes "timer_queue k xs" and "t \<notin> set xs" and "list_empty (TimerLink t) (tlinks k)"
    and "0 < ticks k t" and "tproc (timers k t) \<noteq> None"
  shows "\<exists>us vs k'. xs = us @ vs \<and> add_timer t k = Some k' \<and> timer_queue k' (us @ t # vs) \<and>
    deadlines k' 0 (us @ t # vs) = deadlines k 0 us @ ticks k t # drop (length us) (deadlines k 0 xs) \<and>
    (\<forall>d \<in> set (deadlines k 0 us). d \<le> ticks k t) \<and>
    (\<forall>d \<in> set (drop (length us) (deadlines k 0 xs)). ticks k t < d)"
  using add_timer_correct [OF assms] by blast

lemma add_timer_keeps_deadlines_witness:
  "\<exists>us vs k'. [10, 11] = us @ vs \<and> add_timer 12 timer_demo = Some k' \<and> timer_queue k' (us @ 12 # vs)"
proof -
  have "list_empty (TimerLink 12) (tlinks timer_demo)"
    by (simp add: timer_demo_def list_ops_defs)
  from add_timer_keeps_deadlines [OF timer_demo_queue _ this] show ?thesis by auto
qed

text \<open>
  Cancelling a timer keeps everyone else's deadline: \<open>del_timer\<close> unlinks the timer, its entry can be
  queued again, and the remaining timers expire when they would have, as long as the two adjacent
  waits add up to less than \<open>2 ^ 32\<close> ticks.
\<close>

theorem del_timer_keeps_deadlines:
  assumes "timer_queue k (us @ t # vs)" and "ticks k t + ticks k (hd vs) < 2 ^ 32"
  shows "timer_queue (del_timer t k) (us @ vs) \<and> list_empty (TimerLink t) (tlinks (del_timer t k)) \<and>
    deadlines (del_timer t k) 0 (us @ vs) = deadlines k 0 us @ tl (drop (length us) (deadlines k 0 (us @ t # vs)))"
  using del_timer_correct [OF assms] by blast

lemma del_timer_keeps_deadlines_witness:
  "timer_queue (del_timer 10 timer_demo) [11] \<and> deadlines (del_timer 10 timer_demo) 0 [11] = [3]"
  using del_timer_keeps_deadlines [of timer_demo "[]" 10 "[11]"] timer_demo_queue by simp

text \<open>
  C11: A clock tick: \<open>run_timer_list\<close> returns, takes off exactly the timers with one tick left and wakes
  their owners, makes every other deadline one smaller, and keeps the run queue equal to the runnable
  processes that are not running.
\<close>

theorem run_timer_list_ticks:
  assumes "rr_rep P s {p \<in> P. state (procs s p) = PROC_RUNNABLE \<and> p \<noteq> current s \<and> p \<noteq> idleproc s}"
    and "current s \<in> insert (idleproc s) P" and "timer_queue k xs"
    and "\<forall>u \<in> set xs. timer_owner P k s u" and "0 < ticks k (hd xs)"
    and "ds = deadlines k 0 xs" and "n = length (takeWhile (\<lambda>d. d = 1) ds)"
  shows "\<exists>k' s'. run_timer_list RR_class k s = Some (k', s') \<and> timer_queue k' (drop n xs) \<and>
    deadlines k' 0 (drop n xs) = map (\<lambda>d. d - 1) (drop n ds) \<and> woken k s s' (take n xs) \<and>
    rr_rep P s' {p \<in> P. state (procs s' p) = PROC_RUNNABLE \<and> p \<noteq> current s' \<and> p \<noteq> idleproc s'}"
proof -
  have ok: "rr.ok P s" using assms(1,2) by (simp add: rr.ok_def rr.ready_def)
  from rr.run_timer_list_ok [OF ok assms(3,4)] assms(5) obtain k' s' where
    "run_timer_list RR_class k s = Some (k', s')" "rr.ok P s'" "timer_queue k' (drop n xs)"
    "deadlines k' 0 (drop n xs) = map (\<lambda>d. d - 1) (dropWhile (\<lambda>d. d = 1) ds)"
    "woken k s s' (take n xs)" unfolding assms(6,7) by blast
  then show ?thesis
    unfolding rr.ok_def rr.ready_def dropWhile_eq_drop assms(7) by blast
qed

lemma run_timer_list_ticks_witness:
  "\<exists>k' s'. run_timer_list RR_class timer_demo rr_demo = Some (k', s') \<and> timer_queue k' [11] \<and>
     deadlines k' 0 [11] = [2] \<and> state (procs s' 4) = PROC_RUNNABLE"
proof -
  have "\<forall>u \<in> set [10, 11]. timer_owner {1, 2, 3, 4} timer_demo rr_demo u"
    by (simp add: timer_owner_def) (simp add: rr_demo_def demo_proc_def)
  from run_timer_list_ticks [OF rr_demo_rep _ timer_demo_queue this _ refl refl] show ?thesis
    by (fastforce simp: woken_def)
qed

end
