(* ===== verification/WaitSem.thy ===== *)
theory WaitSem
  imports RoundRobin
begin

text \<open>
  Wait queues (\<open>lab8/kern/sync/wait.c\<close>) and the semaphores built on them (\<open>sem.c\<close>). A wait queue is
  an intrusive FIFO of wait entries; \<open>wait_queue k q ws\<close> is its abstraction. \<open>down\<close> is split at its
  call of \<open>schedule\<close> into what the caller does before it gives up the CPU and after it runs again.
\<close>

section \<open>State\<close>

record wait =
  wproc :: "nat option"
  wakeup_flags :: u32
  wqueue :: "nat option"

text \<open>Entries of wait lists: the head of a queue and the \<open>wait_link\<close> of a wait entry.\<close>

datatype went = WaitHead nat | WaitLink nat

record ksync =
  wlinks :: "went links"
  waits :: "nat \<Rightarrow> wait"
  sem_value :: "nat \<Rightarrow> int"

fun le2wait :: "went \<Rightarrow> nat" where
  "le2wait (WaitLink w) = w"
| "le2wait (WaitHead q) = q"

section \<open>Wait queues\<close>

definition wait_init :: "nat \<Rightarrow> nat option \<Rightarrow> ksync \<Rightarrow> ksync" where
  "wait_init w p k = k\<lparr>
     waits := (waits k)(w := (waits k w)\<lparr>wproc := p, wakeup_flags := WT_INTERRUPTED\<rparr>),
     wlinks := list_init (WaitLink w) (wlinks k)\<rparr>"

definition wait_queue_init :: "nat \<Rightarrow> ksync \<Rightarrow> ksync" where
  "wait_queue_init q k = k\<lparr>wlinks := list_init (WaitHead q) (wlinks k)\<rparr>"

definition wait_queue_add :: "nat \<Rightarrow> nat \<Rightarrow> ksync \<Rightarrow> ksync option" where
  "wait_queue_add q w k = do {
     c_assert (list_empty (WaitLink w) (wlinks k) \<and> wproc (waits k w) \<noteq> None);
     Some (k\<lparr>waits := (waits k)(w := (waits k w)\<lparr>wqueue := Some q\<rparr>),
             wlinks := list_add_before (WaitHead q) (WaitLink w) (wlinks k)\<rparr>)
   }"

definition wait_queue_del :: "nat \<Rightarrow> nat \<Rightarrow> ksync \<Rightarrow> ksync option" where
  "wait_queue_del q w k = do {
     c_assert (\<not> list_empty (WaitLink w) (wlinks k) \<and> wqueue (waits k w) = Some q);
     Some (k\<lparr>wlinks := list_del_init (WaitLink w) (wlinks k)\<rparr>)
   }"

definition wait_queue_next :: "nat \<Rightarrow> nat \<Rightarrow> ksync \<Rightarrow> nat option option" where
  "wait_queue_next q w k = do {
     c_assert (\<not> list_empty (WaitLink w) (wlinks k) \<and> wqueue (waits k w) = Some q);
     let le = list_next (WaitLink w) (wlinks k);
     Some (if le \<noteq> WaitHead q then Some (le2wait le) else None)
   }"

definition wait_queue_prev :: "nat \<Rightarrow> nat \<Rightarrow> ksync \<Rightarrow> nat option option" where
  "wait_queue_prev q w k = do {
     c_assert (\<not> list_empty (WaitLink w) (wlinks k) \<and> wqueue (waits k w) = Some q);
     let le = list_prev (WaitLink w) (wlinks k);
     Some (if le \<noteq> WaitHead q then Some (le2wait le) else None)
   }"

definition wait_queue_first :: "nat \<Rightarrow> ksync \<Rightarrow> nat option" where
  "wait_queue_first q k = (let le = list_next (WaitHead q) (wlinks k)
     in if le \<noteq> WaitHead q then Some (le2wait le) else None)"

definition wait_queue_last :: "nat \<Rightarrow> ksync \<Rightarrow> nat option" where
  "wait_queue_last q k = (let le = list_prev (WaitHead q) (wlinks k)
     in if le \<noteq> WaitHead q then Some (le2wait le) else None)"

definition wait_queue_empty :: "nat \<Rightarrow> ksync \<Rightarrow> bool" where
  "wait_queue_empty q k = list_empty (WaitHead q) (wlinks k)"

definition wait_in_queue :: "nat \<Rightarrow> ksync \<Rightarrow> bool" where
  "wait_in_queue w k = (\<not> list_empty (WaitLink w) (wlinks k))"

definition wakeup_wait ::
  "sched_class \<Rightarrow> nat \<Rightarrow> nat \<Rightarrow> u32 \<Rightarrow> bool \<Rightarrow> ksync \<Rightarrow> sched \<Rightarrow> (ksync \<times> sched) option" where
  "wakeup_wait sc q w flags del k s = do {
     k1 \<leftarrow> (if del then wait_queue_del q w k else Some k);
     let k2 = k1\<lparr>waits := (waits k1)(w := (waits k1 w)\<lparr>wakeup_flags := flags\<rparr>)\<rparr>;
     p \<leftarrow> wproc (waits k2 w);
     s1 \<leftarrow> wakeup_proc sc p s;
     Some (k2, s1)
   }"

definition wakeup_first ::
  "sched_class \<Rightarrow> nat \<Rightarrow> u32 \<Rightarrow> bool \<Rightarrow> ksync \<Rightarrow> sched \<Rightarrow> (ksync \<times> sched) option" where
  "wakeup_first sc q flags del k s =
     (case wait_queue_first q k of
        Some w \<Rightarrow> wakeup_wait sc q w flags del k s
      | None \<Rightarrow> Some (k, s))"

partial_function (option) wakeup_del_loop ::
  "sched_class \<Rightarrow> nat \<Rightarrow> nat \<Rightarrow> u32 \<Rightarrow> ksync \<Rightarrow> sched \<Rightarrow> (ksync \<times> sched) option" where
  "wakeup_del_loop sc q w flags k s = do {
     (k1, s1) \<leftarrow> wakeup_wait sc q w flags True k s;
     (case wait_queue_first q k1 of
        Some w1 \<Rightarrow> wakeup_del_loop sc q w1 flags k1 s1
      | None \<Rightarrow> Some (k1, s1))
   }"

partial_function (option) wakeup_keep_loop ::
  "sched_class \<Rightarrow> nat \<Rightarrow> nat \<Rightarrow> u32 \<Rightarrow> ksync \<Rightarrow> sched \<Rightarrow> (ksync \<times> sched) option" where
  "wakeup_keep_loop sc q w flags k s = do {
     (k1, s1) \<leftarrow> wakeup_wait sc q w flags False k s;
     nx \<leftarrow> wait_queue_next q w k1;
     (case nx of
        Some w1 \<Rightarrow> wakeup_keep_loop sc q w1 flags k1 s1
      | None \<Rightarrow> Some (k1, s1))
   }"

declare wakeup_del_loop.simps [code] wakeup_keep_loop.simps [code]

definition wakeup_queue ::
  "sched_class \<Rightarrow> nat \<Rightarrow> u32 \<Rightarrow> bool \<Rightarrow> ksync \<Rightarrow> sched \<Rightarrow> (ksync \<times> sched) option" where
  "wakeup_queue sc q flags del k s =
     (case wait_queue_first q k of
        None \<Rightarrow> Some (k, s)
      | Some w \<Rightarrow> if del then wakeup_del_loop sc q w flags k s
                  else wakeup_keep_loop sc q w flags k s)"

definition wait_current_set :: "nat \<Rightarrow> nat \<Rightarrow> u32 \<Rightarrow> ksync \<Rightarrow> sched \<Rightarrow> (ksync \<times> sched) option" where
  "wait_current_set q w ws k s = do {
     let k1 = wait_init w (Some (current s)) k;
     let s1 = upd_proc (current s) (\<lambda>p. p\<lparr>state := PROC_SLEEPING, wait_state := ws\<rparr>) s;
     k2 \<leftarrow> wait_queue_add q w k1;
     Some (k2, s1)
   }"

definition wait_current_del :: "nat \<Rightarrow> nat \<Rightarrow> ksync \<Rightarrow> ksync option" where
  "wait_current_del q w k = (if wait_in_queue w k then wait_queue_del q w k else Some k)"

section \<open>Semaphores\<close>

definition sem_init :: "nat \<Rightarrow> int \<Rightarrow> ksync \<Rightarrow> ksync" where
  "sem_init q v k = wait_queue_init q (k\<lparr>sem_value := (sem_value k)(q := v)\<rparr>)"

definition up_with :: "sched_class \<Rightarrow> nat \<Rightarrow> u32 \<Rightarrow> ksync \<Rightarrow> sched \<Rightarrow> (ksync \<times> sched) option" where
  "up_with sc q ws k s =
     (case wait_queue_first q k of
        None \<Rightarrow> Some (k\<lparr>sem_value := (sem_value k)(q := sem_value k q + 1)\<rparr>, s)
      | Some w \<Rightarrow> do {
          p \<leftarrow> wproc (waits k w);
          c_assert (wait_state (procs s p) = ws);
          wakeup_wait sc q w ws True k s
        })"

text \<open>
  \<open>__down\<close> up to its call of \<open>schedule\<close>: \<open>True\<close> when the semaphore was taken at once, \<open>False\<close> when
  the caller now sleeps on the wait entry \<open>w\<close>, which lives on its stack. \<open>down_end\<close> is the rest,
  after \<open>schedule\<close> has returned; its result is the return value of \<open>__down\<close>.
\<close>

definition down_begin :: "nat \<Rightarrow> u32 \<Rightarrow> nat \<Rightarrow> ksync \<Rightarrow> sched \<Rightarrow> (bool \<times> ksync \<times> sched) option" where
  "down_begin q ws w k s =
     (if sem_value k q > 0
      then Some (True, k\<lparr>sem_value := (sem_value k)(q := sem_value k q - 1)\<rparr>, s)
      else do {
        (k1, s1) \<leftarrow> wait_current_set q w ws k s;
        Some (False, k1, s1)
      })"

definition down_end :: "nat \<Rightarrow> u32 \<Rightarrow> nat \<Rightarrow> ksync \<Rightarrow> (u32 \<times> ksync) option" where
  "down_end q ws w k = do {
     k1 \<leftarrow> wait_current_del q w k;
     Some (if wakeup_flags (waits k1 w) \<noteq> ws then wakeup_flags (waits k1 w) else 0, k1)
   }"

definition up :: "sched_class \<Rightarrow> nat \<Rightarrow> ksync \<Rightarrow> sched \<Rightarrow> (ksync \<times> sched) option" where
  "up sc q k s = up_with sc q WT_KSEM k s"

text \<open>\<open>down\<close> around the same two points; its assertion is that \<open>__down\<close> returned 0.\<close>

definition down_enter :: "nat \<Rightarrow> nat \<Rightarrow> ksync \<Rightarrow> sched \<Rightarrow> (bool \<times> ksync \<times> sched) option" where
  "down_enter q w k s = down_begin q WT_KSEM w k s"

definition down_leave :: "nat \<Rightarrow> nat \<Rightarrow> ksync \<Rightarrow> ksync option" where
  "down_leave q w k = do {
     (flags, k1) \<leftarrow> down_end q WT_KSEM w k;
     c_assert (flags = 0);
     Some k1
   }"

definition try_down :: "nat \<Rightarrow> ksync \<Rightarrow> bool \<times> ksync" where
  "try_down q k =
     (if sem_value k q > 0 then (True, k\<lparr>sem_value := (sem_value k)(q := sem_value k q - 1)\<rparr>)
      else (False, k))"

section \<open>The queue as a list\<close>

definition wait_queue :: "ksync \<Rightarrow> nat \<Rightarrow> nat list \<Rightarrow> bool" where
  "wait_queue k q ws \<longleftrightarrow> dlist (wlinks k) (WaitHead q) (map WaitLink ws) \<and>
     (\<forall>w \<in> set ws. wqueue (waits k w) = Some q)"

lemma wait_queue_unique: "wait_queue k q ws \<Longrightarrow> wait_queue k q vs \<Longrightarrow> vs = ws"
  using dlist_unique [of "wlinks k" "WaitHead q" "map WaitLink ws" "map WaitLink vs"]
  by (auto simp: wait_queue_def inj_on_def dest!: map_injective)

lemma wait_queue_distinct: "wait_queue k q ws \<Longrightarrow> distinct ws"
  by (auto simp: wait_queue_def dlist_def distinct_map)

lemma wait_queue_first_eq:
  "wait_queue k q ws \<Longrightarrow> wait_queue_first q k = (case ws of [] \<Rightarrow> None | w # _ \<Rightarrow> Some w)"
  using list_next_head_dlist [of "wlinks k" "WaitHead q" "map WaitLink ws"]
  by (cases ws) (auto simp: wait_queue_first_def wait_queue_def)

lemma wait_queue_last_eq:
  "wait_queue k q ws \<Longrightarrow> wait_queue_last q k = (if ws = [] then None else Some (last ws))"
  using list_prev_head_dlist [of "wlinks k" "WaitHead q" "map WaitLink ws"]
  by (auto simp: wait_queue_last_def wait_queue_def last_map)

lemma wait_queue_linked:
  "wait_queue k q (us @ w # vs) \<Longrightarrow> \<not> list_empty (WaitLink w) (wlinks k) \<and> wqueue (waits k w) = Some q"
  using list_empty_elem [of "wlinks k" "WaitHead q" "map WaitLink us" "WaitLink w" "map WaitLink vs"]
  by (auto simp: wait_queue_def)

lemma wait_queue_next_eq:
  assumes "wait_queue k q (us @ w # vs)"
  shows "wait_queue_next q w k = Some (case vs of [] \<Rightarrow> None | v # _ \<Rightarrow> Some v)"
    and "wait_queue_prev q w k = Some (if us = [] then None else Some (last us))"
  using wait_queue_linked [OF assms] assms
    list_next_elem_dlist [of "wlinks k" "WaitHead q" "map WaitLink us" "WaitLink w" "map WaitLink vs"]
    list_prev_elem_dlist [of "wlinks k" "WaitHead q" "map WaitLink us" "WaitLink w" "map WaitLink vs"]
  by (auto simp: wait_queue_next_def wait_queue_prev_def wait_queue_def last_map split: list.splits)

lemma wait_queue_add_ok:
  assumes "wait_queue k q ws" and "w \<notin> set ws" and "list_empty (WaitLink w) (wlinks k)"
    and "wproc (waits k w) \<noteq> None"
  shows "\<exists>k'. wait_queue_add q w k = Some k' \<and> wait_queue k' q (ws @ [w]) \<and> sem_value k' = sem_value k \<and>
    (\<forall>v. wproc (waits k' v) = wproc (waits k v) \<and> wakeup_flags (waits k' v) = wakeup_flags (waits k v))"
  using assms list_add_before_head_dlist [of "wlinks k" "WaitHead q" "map WaitLink ws" "WaitLink w"]
  by (auto simp: wait_queue_add_def wait_queue_def)

lemma wait_queue_del_ok:
  assumes "wait_queue k q (us @ w # vs)"
  shows "\<exists>k'. wait_queue_del q w k = Some k' \<and> wait_queue k' q (us @ vs) \<and> waits k' = waits k \<and>
    sem_value k' = sem_value k \<and> list_empty (WaitLink w) (wlinks k')"
  using wait_queue_linked [OF assms] assms
    list_del_init_dlist [of "wlinks k" "WaitHead q" "map WaitLink us" "WaitLink w" "map WaitLink vs"]
  by (auto simp: wait_queue_del_def wait_queue_def)

lemma wait_init_queue:
  "wait_queue k q ws \<Longrightarrow> w \<notin> set ws \<Longrightarrow> wait_queue (wait_init w p k) q ws"
  by (auto simp: wait_queue_def wait_init_def intro: list_init_other)

section \<open>Sleepers\<close>

text \<open>
  \<open>sleepers P k s ws\<close>: each entry of \<open>ws\<close> belongs to a different process of \<open>P\<close>, which sleeps in the
  uninterruptible wait of a semaphore.
\<close>

definition sleepers :: "nat set \<Rightarrow> ksync \<Rightarrow> sched \<Rightarrow> nat list \<Rightarrow> bool" where
  "sleepers P k s ws \<longleftrightarrow> distinct (map (\<lambda>w. wproc (waits k w)) ws) \<and>
     (\<forall>w \<in> set ws. \<exists>p \<in> P. wproc (waits k w) = Some p \<and> state (procs s p) = PROC_SLEEPING \<and>
        wait_state (procs s p) = WT_KSEM)"

lemma sleepers_cong:
  "sleepers P k s ws \<Longrightarrow> (\<And>w. w \<in> set ws \<Longrightarrow> wproc (waits k' w) = wproc (waits k w)) \<Longrightarrow>
   (\<And>p. state (procs s p) = PROC_SLEEPING \<Longrightarrow> \<exists>w \<in> set ws. wproc (waits k w) = Some p \<Longrightarrow>
      state (procs s' p) = PROC_SLEEPING \<and> wait_state (procs s' p) = wait_state (procs s p)) \<Longrightarrow>
   sleepers P k' s' ws"
  unfolding sleepers_def by (fastforce cong: map_cong)

context scheduler
begin

lemma wakeup_wait_ok:
  assumes ok: "ok s" and q: "wait_queue k q (w # vs)" and sl: "sleepers P k s (w # vs)"
  shows "\<exists>k' s' p. wakeup_wait sc q w flags True k s = Some (k', s') \<and> ok s' \<and>
    wait_queue k' q vs \<and> sleepers P k' s' vs \<and> sem_value k' = sem_value k \<and>
    wproc (waits k w) = Some p \<and> state (procs s' p) = PROC_RUNNABLE \<and>
    current s' = current s \<and> (\<forall>r. r \<noteq> p \<longrightarrow> state (procs s' r) = state (procs s r)) \<and>
    wakeup_flags (waits k' w) = flags \<and> list_empty (WaitLink w) (wlinks k') \<and>
    (\<forall>v. wproc (waits k' v) = wproc (waits k v))"
proof -
  from sl obtain p where p: "p \<in> P" "wproc (waits k w) = Some p" "state (procs s p) = PROC_SLEEPING"
    by (auto simp: sleepers_def)
  from wait_queue_del_ok [of k q "[]" w vs] q obtain k1 where
    d: "wait_queue_del q w k = Some k1" "wait_queue k1 q vs" "waits k1 = waits k"
      "sem_value k1 = sem_value k" "list_empty (WaitLink w) (wlinks k1)" by auto
  define k2 where "k2 = k1\<lparr>waits := (waits k1)(w := (waits k1 w)\<lparr>wakeup_flags := flags\<rparr>)\<rparr>"
  from wakeup_proc_ok [OF ok p(1)] p(3) obtain s1 where w: "wakeup_proc sc p s = Some s1" "ok s1"
    "state (procs s1 p) = PROC_RUNNABLE" "current s1 = current s"
    "\<forall>r. r \<noteq> p \<longrightarrow> state (procs s1 r) = state (procs s r)"
    "\<forall>r. r \<noteq> p \<longrightarrow> wait_state (procs s1 r) = wait_state (procs s r)" by auto
  have run: "wakeup_wait sc q w flags True k s = Some (k2, s1)"
    using d(1,3) p(2) w(1) by (simp add: wakeup_wait_def k2_def Let_def)
  have q2: "wait_queue k2 q vs"
    using d(2) wait_queue_distinct [OF q] by (auto simp: wait_queue_def k2_def)
  have np: "p \<noteq> r" if "v \<in> set vs" "wproc (waits k v) = Some r" for v r
    using sl p(2) that by (force simp: sleepers_def)
  have "sleepers P k s vs" using sl by (simp add: sleepers_def)
  then have "sleepers P k2 s1 vs"
  proof (rule sleepers_cong)
    show "wproc (waits k2 v) = wproc (waits k v)" for v by (simp add: k2_def d(3))
    fix r assume "\<exists>v \<in> set vs. wproc (waits k v) = Some r" "state (procs s r) = PROC_SLEEPING"
    then show "state (procs s1 r) = PROC_SLEEPING \<and> wait_state (procs s1 r) = wait_state (procs s r)"
      using np w(5,6) by metis
  qed
  then show ?thesis
    using run q2 p w d by (intro exI [of _ k2] exI [of _ s1] exI [of _ p]) (auto simp: k2_def)
qed

lemma up_ok:
  assumes ok: "ok s" and q: "wait_queue k q ws" and sl: "sleepers P k s ws"
  shows "\<exists>k' s'. up sc q k s = Some (k', s') \<and> ok s' \<and> wait_queue k' q (tl ws) \<and>
    sleepers P k' s' (tl ws) \<and>
    sem_value k' q = (if ws = [] then sem_value k q + 1 else sem_value k q) \<and>
    (\<forall>w p. ws \<noteq> [] \<longrightarrow> w = hd ws \<longrightarrow> wproc (waits k w) = Some p \<longrightarrow>
       state (procs s' p) = PROC_RUNNABLE \<and> down_leave q w k' = Some k')"
proof (cases ws)
  case Nil
  let ?k = "k\<lparr>sem_value := (sem_value k)(q := sem_value k q + 1)\<rparr>"
  have "up sc q k s = Some (?k, s)"
    using wait_queue_first_eq [OF q] Nil by (simp add: up_def up_with_def)
  moreover have "wait_queue ?k q []" "sleepers P ?k s []"
    using q Nil by (auto simp: wait_queue_def sleepers_def)
  ultimately show ?thesis using ok Nil by auto
next
  case (Cons w vs)
  from wakeup_wait_ok [OF ok, of k q w vs WT_KSEM] q sl Cons obtain k' s' p where
    w: "wakeup_wait sc q w WT_KSEM True k s = Some (k', s')" "ok s'" "wait_queue k' q vs"
      "sleepers P k' s' vs" "sem_value k' = sem_value k" "wproc (waits k w) = Some p"
      "state (procs s' p) = PROC_RUNNABLE" "wakeup_flags (waits k' w) = WT_KSEM"
      "list_empty (WaitLink w) (wlinks k')" by blast
  have "wait_state (procs s p) = WT_KSEM" using sl Cons w(6) by (auto simp: sleepers_def)
  then have "up sc q k s = Some (k', s')"
    using wait_queue_first_eq [OF q] Cons w(1,6) by (simp add: up_def up_with_def)
  moreover have "down_leave q w k' = Some k'"
    using w(8,9) by (simp add: down_leave_def down_end_def wait_current_del_def wait_in_queue_def)
  ultimately show ?thesis using w Cons by auto
qed

lemma down_enter_ok:
  assumes ok: "ok s" and q: "wait_queue k q ws" and sl: "sleepers P k s ws" and w: "w \<notin> set ws"
    and cur: "current s \<in> P" "state (procs s (current s)) = PROC_RUNNABLE"
  shows "\<exists>k' s'. down_enter q w k s = Some (sem_value k q > 0, k', s') \<and> ok s' \<and>
    (if sem_value k q > 0
     then s' = s \<and> wait_queue k' q ws \<and> sleepers P k' s ws \<and> sem_value k' q = sem_value k q - 1
     else wait_queue k' q (ws @ [w]) \<and> sleepers P k' s' (ws @ [w]) \<and> sem_value k' = sem_value k \<and>
       state (procs s' (current s)) = PROC_SLEEPING \<and> current s' = current s)"
proof (cases "sem_value k q > 0")
  case True
  then show ?thesis using ok q sl
    by (auto simp: down_enter_def down_begin_def wait_queue_def sleepers_def)
next
  case False
  define k1 where "k1 = wait_init w (Some (current s)) k"
  define s1 where "s1 = upd_proc (current s) (\<lambda>p. p\<lparr>state := PROC_SLEEPING, wait_state := WT_KSEM\<rparr>) s"
  have q1: "wait_queue k1 q ws" using wait_init_queue [OF q w] by (simp add: k1_def)
  have w1: "list_empty (WaitLink w) (wlinks k1)" "wproc (waits k1 w) = Some (current s)"
    by (auto simp: k1_def wait_init_def list_ops_defs)
  from wait_queue_add_ok [OF q1 w w1(1)] w1(2) obtain k2 where
    a: "wait_queue_add q w k1 = Some k2" "wait_queue k2 q (ws @ [w])" "sem_value k2 = sem_value k1"
      "\<forall>v. wproc (waits k2 v) = wproc (waits k1 v)" by auto
  have run: "down_enter q w k s = Some (False, k2, s1)"
    using False a(1) by (simp add: down_enter_def down_begin_def wait_current_set_def Let_def k1_def s1_def)
  have "same_queue s s1" by (simp add: same_queue_def s1_def)
  moreover have "ready s1 = ready s" by (auto simp: ready_def s1_def)
  ultimately have ok1: "ok s1" using ok rep_cong by (auto simp: ok_def s1_def)
  have wp: "wproc (waits k2 v) = (if v = w then Some (current s) else wproc (waits k v))" for v
    using a(4) by (simp add: k1_def wait_init_def)
  have nc: "wproc (waits k v) \<noteq> Some (current s)" if "v \<in> set ws" for v
    using sl that cur(2) by (auto simp: sleepers_def)
  have "distinct (map (\<lambda>v. wproc (waits k2 v)) (ws @ [w]))"
  proof -
    have m: "map (\<lambda>v. wproc (waits k2 v)) ws = map (\<lambda>v. wproc (waits k v)) ws"
      using w wp by (intro map_cong) auto
    have "distinct (map (\<lambda>v. wproc (waits k2 v)) ws)"
      unfolding m using sl by (simp add: sleepers_def)
    moreover have "wproc (waits k2 w) \<notin> set (map (\<lambda>v. wproc (waits k2 v)) ws)"
    proof -
      have "wproc (waits k2 w) = Some (current s)" by (simp add: wp)
      then show ?thesis unfolding m using nc by (auto dest: sym)
    qed
    ultimately show ?thesis by simp
  qed
  moreover have "\<exists>p \<in> P. wproc (waits k2 v) = Some p \<and> state (procs s1 p) = PROC_SLEEPING \<and>
      wait_state (procs s1 p) = WT_KSEM" if "v \<in> set (ws @ [w])" for v
  proof (cases "v = w")
    case True
    then show ?thesis using cur(1) wp by (simp add: s1_def)
  next
    case False
    then have "v \<in> set ws" using that by simp
    then obtain p where "p \<in> P" "wproc (waits k v) = Some p" "state (procs s p) = PROC_SLEEPING"
      "wait_state (procs s p) = WT_KSEM" "p \<noteq> current s"
      using sl nc by (fastforce simp: sleepers_def)
    then show ?thesis using False wp by (intro bexI [of _ p]) (simp_all add: s1_def)
  qed
  ultimately have "sleepers P k2 s1 (ws @ [w])" unfolding sleepers_def by blast
  then show ?thesis
    using run ok1 a(2,3) False by (simp add: k1_def wait_init_def s1_def)
qed

end

section \<open>Any interleaving of downs and ups\<close>

text \<open>
  \<open>sem_run sc q v k0 s0 k s acq rel\<close>: from a semaphore initialised to \<open>v\<close>, processes have called the
  semaphore operations in any order, with the scheduler running in between; \<open>acq\<close> counts the times
  the semaphore has been granted, \<open>rel\<close> the calls of \<open>up\<close>.
\<close>

inductive sem_run ::
  "sched_class \<Rightarrow> nat \<Rightarrow> int \<Rightarrow> ksync \<Rightarrow> sched \<Rightarrow> ksync \<Rightarrow> sched \<Rightarrow> nat \<Rightarrow> nat \<Rightarrow> bool"
  for sc q v k0 s0 where
  start: "sem_run sc q v k0 s0 (sem_init q v k0) s0 0 0"
| take: "sem_run sc q v k0 s0 k s acq rel \<Longrightarrow> down_enter q w k s = Some (True, k', s') \<Longrightarrow>
    sem_run sc q v k0 s0 k' s' (Suc acq) rel"
| block: "sem_run sc q v k0 s0 k s acq rel \<Longrightarrow> \<not> wait_in_queue w k \<Longrightarrow> current s \<noteq> idleproc s \<Longrightarrow>
    state (procs s (current s)) = PROC_RUNNABLE \<Longrightarrow>
    down_enter q w k s = Some (False, k', s') \<Longrightarrow> schedule sc s' = Some s'' \<Longrightarrow>
    sem_run sc q v k0 s0 k' s'' acq rel"
| attempt: "sem_run sc q v k0 s0 k s acq rel \<Longrightarrow> try_down q k = (r, k') \<Longrightarrow>
    sem_run sc q v k0 s0 k' s (if r then Suc acq else acq) rel"
| release: "sem_run sc q v k0 s0 k s acq rel \<Longrightarrow> up sc q k s = Some (k', s') \<Longrightarrow>
    sem_run sc q v k0 s0 k' s' (if wait_queue_first q k = None then acq else Suc acq) (Suc rel)"
| preempt: "sem_run sc q v k0 s0 k s acq rel \<Longrightarrow> schedule sc s = Some s' \<Longrightarrow>
    sem_run sc q v k0 s0 k s' acq rel"

definition sem_inv :: "nat set \<Rightarrow> nat \<Rightarrow> int \<Rightarrow> ksync \<Rightarrow> sched \<Rightarrow> nat \<Rightarrow> nat \<Rightarrow> bool" where
  "sem_inv P q v k s acq rel \<longleftrightarrow> (\<exists>ws. wait_queue k q ws \<and> sleepers P k s ws \<and>
     0 \<le> sem_value k q \<and> (ws \<noteq> [] \<longrightarrow> sem_value k q = 0)) \<and>
     sem_value k q = v + int rel - int acq"

lemma sem_inv_take:
  assumes "sem_inv P q v k s acq rel" and "0 < sem_value k q"
  shows "sem_inv P q v (k\<lparr>sem_value := (sem_value k)(q := sem_value k q - 1)\<rparr>) s (Suc acq) rel"
proof -
  have "wait_queue k q [] \<and> sem_value k q = v + int rel - int acq"
    using assms by (auto simp: sem_inv_def)
  then show ?thesis using assms(2) unfolding sem_inv_def
    by (intro conjI exI [of _ "[]"]) (auto simp: wait_queue_def sleepers_def)
qed

lemma sleepers_states:
  "sleepers P k s ws \<Longrightarrow> (\<forall>p. state (procs s' p) = state (procs s p)) \<Longrightarrow>
   (\<forall>p. wait_state (procs s' p) = wait_state (procs s p)) \<Longrightarrow> sleepers P k s' ws"
  by (simp add: sleepers_def)

context scheduler
begin

lemma sem_run_inv:
  assumes "sem_run sc q v k0 s0 k s acq rel" and "ok s0" and "0 \<le> v"
  shows "ok s \<and> sem_inv P q v k s acq rel"
  using assms(1)
proof (induction rule: sem_run.induct)
  case start
  have "wait_queue (sem_init q v k0) q []"
    by (simp add: wait_queue_def sem_init_def wait_queue_init_def list_init_dlist)
  moreover have "sem_value (sem_init q v k0) q = v" by (simp add: sem_init_def wait_queue_init_def)
  ultimately show ?case using assms(2,3) by (force simp: sem_inv_def sleepers_def)
next
  case (take k s acq rel w k' s')
  have "sem_value k q > 0" and k': "k' = k\<lparr>sem_value := (sem_value k)(q := sem_value k q - 1)\<rparr>" "s' = s"
    using take.hyps(2) by (auto simp: down_enter_def down_begin_def split: if_splits elim!: bind_eq_SomeE)
  then show ?case using take.IH sem_inv_take by blast
next
  case (block k s acq rel w k' s' s'')
  then obtain ws where ws: "wait_queue k q ws" "sleepers P k s ws" "0 \<le> sem_value k q"
    by (auto simp: sem_inv_def)
  have wn: "w \<notin> set ws" using block.hyps(2) wait_queue_linked ws(1)
    by (fastforce simp: wait_in_queue_def dest!: split_list)
  have cP: "current s \<in> P" using block.IH block.hyps(3) by (auto simp: ok_def)
  have v0: "\<not> sem_value k q > 0"
    using block.hyps(5) by (auto simp: down_enter_def down_begin_def split: if_splits)
  from down_enter_ok [OF _ ws(1,2) wn cP block.hyps(4)] block.IH block.hyps(5) v0 have
    d: "ok s'" "wait_queue k' q (ws @ [w])" "sleepers P k' s' (ws @ [w])" "sem_value k' = sem_value k"
    by auto
  from schedule_ok [OF d(1)] block.hyps(6) have "ok s''" and
    "\<forall>p. state (procs s'' p) = state (procs s' p)"
    "\<forall>p. wait_state (procs s'' p) = wait_state (procs s' p)" by auto
  then show ?case using d sleepers_states [OF d(3)] v0 ws(3) block.IH by (auto simp: sem_inv_def)
next
  case (attempt k s acq rel r k')
  then show ?case using sem_inv_take by (auto simp: try_down_def split: if_splits)
next
  case (release k s acq rel k' s')
  from release.IH obtain ws where ws: "wait_queue k q ws" "sleepers P k s ws" "0 \<le> sem_value k q"
    "ws \<noteq> [] \<longrightarrow> sem_value k q = 0" unfolding sem_inv_def by blast
  from up_ok [OF _ ws(1,2)] release.IH release.hyps(2) have
    u: "ok s'" "wait_queue k' q (tl ws)" "sleepers P k' s' (tl ws)"
      "sem_value k' q = (if ws = [] then sem_value k q + 1 else sem_value k q)" by auto
  have "wait_queue_first q k = None \<longleftrightarrow> ws = []" using wait_queue_first_eq [OF ws(1)] by (cases ws) auto
  then show ?case using u ws(3,4) release.IH by (cases ws) (auto simp: sem_inv_def)
next
  case (preempt k s acq rel s')
  from schedule_ok [of s] preempt have "ok s'" and
    "\<forall>p. state (procs s' p) = state (procs s p)"
    "\<forall>p. wait_state (procs s' p) = wait_state (procs s p)" by auto
  then show ?case using preempt.IH sleepers_states by (auto simp: sem_inv_def)
qed

end

section \<open>Waking everybody\<close>

context scheduler
begin

lemma wakeup_del_loop_ok:
  "ok s \<Longrightarrow> wait_queue k q (w # vs) \<Longrightarrow> sleepers P k s (w # vs) \<Longrightarrow>
   \<exists>k' s'. wakeup_del_loop sc q w flags k s = Some (k', s') \<and> ok s' \<and> wait_queue k' q [] \<and>
     (\<forall>u \<in> set (w # vs). \<forall>p. wproc (waits k u) = Some p \<longrightarrow> state (procs s' p) = PROC_RUNNABLE) \<and>
     (\<forall>p. state (procs s p) = PROC_RUNNABLE \<longrightarrow> state (procs s' p) = PROC_RUNNABLE)"
proof (induction vs arbitrary: w k s)
  case Nil
  from wakeup_wait_ok [OF Nil.prems, of flags] obtain k' s' p where
    w: "wakeup_wait sc q w flags True k s = Some (k', s')" "ok s'" "wait_queue k' q []"
    "wproc (waits k w) = Some p" "state (procs s' p) = PROC_RUNNABLE"
    "\<forall>r. r \<noteq> p \<longrightarrow> state (procs s' r) = state (procs s r)" by blast
  then have "wakeup_del_loop sc q w flags k s = Some (k', s')"
    using wait_queue_first_eq [OF w(3)] by (subst wakeup_del_loop.simps) simp
  then show ?case using w by fastforce
next
  case (Cons v vs)
  from wakeup_wait_ok [OF Cons.prems, of flags] obtain k1 s1 p where
    w: "wakeup_wait sc q w flags True k s = Some (k1, s1)" "ok s1" "wait_queue k1 q (v # vs)"
    "sleepers P k1 s1 (v # vs)" "wproc (waits k w) = Some p" "state (procs s1 p) = PROC_RUNNABLE"
    "\<forall>r. r \<noteq> p \<longrightarrow> state (procs s1 r) = state (procs s r)"
    "\<forall>v. wproc (waits k1 v) = wproc (waits k v)" by blast
  from Cons.IH [OF w(2-4)] obtain k' s' where
    l: "wakeup_del_loop sc q v flags k1 s1 = Some (k', s')" "ok s'" "wait_queue k' q []"
    "\<forall>u \<in> set (v # vs). \<forall>p. wproc (waits k1 u) = Some p \<longrightarrow> state (procs s' p) = PROC_RUNNABLE"
    "\<forall>p. state (procs s1 p) = PROC_RUNNABLE \<longrightarrow> state (procs s' p) = PROC_RUNNABLE" by blast
  have "wakeup_del_loop sc q w flags k s = Some (k', s')"
    using w(1) l(1) wait_queue_first_eq [OF w(3)] by (subst wakeup_del_loop.simps) simp
  moreover have "\<forall>r. state (procs s r) = PROC_RUNNABLE \<longrightarrow> state (procs s' r) = PROC_RUNNABLE"
    using w(6,7) l(5) by metis
  moreover have "\<forall>u \<in> set (w # v # vs). \<forall>p. wproc (waits k u) = Some p \<longrightarrow> state (procs s' p) = PROC_RUNNABLE"
    using w(5,6,8) l(4,5) by auto
  ultimately show ?case using l(2,3) by blast
qed

lemma wakeup_queue_ok:
  assumes "ok s" and "wait_queue k q ws" and "sleepers P k s ws"
  shows "\<exists>k' s'. wakeup_queue sc q flags True k s = Some (k', s') \<and> ok s' \<and> wait_queue k' q [] \<and>
     (\<forall>u \<in> set ws. \<forall>p. wproc (waits k u) = Some p \<longrightarrow> state (procs s' p) = PROC_RUNNABLE)"
proof (cases ws)
  case Nil
  then show ?thesis
    using assms wait_queue_first_eq [OF assms(2)] by (auto simp: wakeup_queue_def)
next
  case (Cons w vs)
  from wakeup_del_loop_ok [OF assms(1), of k q w vs flags] assms(2,3) Cons obtain k' s' where
    "wakeup_del_loop sc q w flags k s = Some (k', s')" "ok s'" "wait_queue k' q []"
    "\<forall>u \<in> set ws. \<forall>p. wproc (waits k u) = Some p \<longrightarrow> state (procs s' p) = PROC_RUNNABLE" by blast
  then show ?thesis using wait_queue_first_eq [OF assms(2)] Cons by (simp add: wakeup_queue_def)
qed

end

section \<open>A concrete semaphore\<close>

text \<open>A fresh semaphore 0 with one unit on the run queue of \<open>rr_demo\<close>.\<close>

definition sem_demo :: ksync where
  "sem_demo = \<lparr>wlinks = \<lparr>lprev = id, lnext = id\<rparr>,
     waits = (\<lambda>w. \<lparr>wproc = None, wakeup_flags = 0, wqueue = None\<rparr>), sem_value = (\<lambda>q. 0)\<rparr>"

text \<open>Process 4 sleeps on semaphore 0, whose value is 0; its wait entry is 7.\<close>

definition sem_demo_blocked :: ksync where
  "sem_demo_blocked = \<lparr>
     wlinks = list_add_before (WaitHead 0) (WaitLink 7) (list_init (WaitHead 0) \<lparr>lprev = id, lnext = id\<rparr>),
     waits = (\<lambda>w. \<lparr>wproc = Some 4, wakeup_flags = WT_INTERRUPTED, wqueue = Some 0\<rparr>),
     sem_value = (\<lambda>q. 0)\<rparr>"

definition sched_demo_blocked :: sched where
  "sched_demo_blocked = upd_proc 4 (\<lambda>p. p\<lparr>wait_state := WT_KSEM\<rparr>) rr_demo"

lemma demo_blocked_queue: "wait_queue sem_demo_blocked 0 [7]"
  by (simp add: wait_queue_def sem_demo_blocked_def list_ops_defs dlist_def)

lemma demo_blocked_sleepers: "sleepers {1, 2, 3, 4} sem_demo_blocked sched_demo_blocked [7]"
  by (simp add: sleepers_def sem_demo_blocked_def sched_demo_blocked_def)

lemma demo_blocked_rep: "rr_rep {1, 2, 3, 4} sched_demo_blocked
  {p \<in> {1, 2, 3, 4}. state (procs sched_demo_blocked p) = PROC_RUNNABLE \<and>
     p \<noteq> current sched_demo_blocked \<and> p \<noteq> idleproc sched_demo_blocked}"
proof -
  have "same_queue rr_demo sched_demo_blocked"
    by (simp add: same_queue_def sched_demo_blocked_def)
  then have "rr_queue {1, 2, 3, 4} sched_demo_blocked [2, 3]" using rr_queue_same rr_demo_queue by blast
  moreover have "{p \<in> {1, 2, 3, 4}. state (procs sched_demo_blocked p) = PROC_RUNNABLE \<and>
     p \<noteq> current sched_demo_blocked \<and> p \<noteq> idleproc sched_demo_blocked} = set [2, 3]"
    by (auto simp: sched_demo_blocked_def)
  ultimately show ?thesis unfolding rr_rep_def by metis
qed

section \<open>Properties\<close>

text \<open>
  C9: Semaphores exclude: in any interleaving of \<open>down\<close>, \<open>try_down\<close> and \<open>up\<close> on a semaphore
  initialised to \<open>v\<close>, the number of grants never exceeds \<open>v\<close> plus the number of releases, the counter
  is exactly the difference and never negative, and a process waits only while it is zero.
\<close>

theorem semaphore_excludes:
  assumes "sem_run RR_class q v k0 s0 k s acq rel" and "0 \<le> v"
    and "rr_rep P s0 {p \<in> P. state (procs s0 p) = PROC_RUNNABLE \<and> p \<noteq> current s0 \<and> p \<noteq> idleproc s0}"
    and "current s0 \<in> insert (idleproc s0) P"
  shows "int acq \<le> v + int rel \<and> sem_value k q = v + int rel - int acq \<and>
    (\<exists>ws. wait_queue k q ws \<and> sleepers P k s ws \<and> (ws \<noteq> [] \<longrightarrow> sem_value k q = 0))"
proof -
  have "rr.ok P s0" using assms(3,4) by (simp add: rr.ok_def rr.ready_def)
  from rr.sem_run_inv [OF assms(1) this assms(2)] show ?thesis
    unfolding sem_inv_def by auto
qed

lemma semaphore_excludes_witness:
  "\<exists>k s. sem_run RR_class 0 1 sem_demo rr_demo k s 1 0 \<and> sem_value k 0 = 0"
proof -
  let ?k = "(sem_init 0 1 sem_demo)\<lparr>sem_value := (sem_value (sem_init 0 1 sem_demo))(0 := 0)\<rparr>"
  have "down_enter 0 7 (sem_init 0 1 sem_demo) rr_demo = Some (True, ?k, rr_demo)"
    by (simp add: down_enter_def down_begin_def sem_init_def wait_queue_init_def)
  then have r: "sem_run RR_class 0 1 sem_demo rr_demo ?k rr_demo (Suc 0) 0"
    by (rule sem_run.take [OF sem_run.start])
  from semaphore_excludes [OF r _ rr_demo_rep] have "sem_value ?k 0 = 0" by simp
  with r show ?thesis by auto
qed

text \<open>
  \<open>up\<close> hands the semaphore over: with waiters it returns, the one that has waited longest is taken
  off the queue and made runnable without the counter changing, the rest of its \<open>down\<close> returns
  normally, and the run queue stays exactly the runnable processes that are not running; without
  waiters it increments the counter.
\<close>

theorem up_wakes_longest_waiter:
  assumes "rr_rep P s {p \<in> P. state (procs s p) = PROC_RUNNABLE \<and> p \<noteq> current s \<and> p \<noteq> idleproc s}"
    and "current s \<in> insert (idleproc s) P" and "wait_queue k q ws" and "sleepers P k s ws"
  shows "\<exists>k' s'. up RR_class q k s = Some (k', s') \<and> wait_queue k' q (tl ws) \<and> sleepers P k' s' (tl ws) \<and>
    sem_value k' q = (if ws = [] then sem_value k q + 1 else sem_value k q) \<and>
    (\<forall>w p. ws \<noteq> [] \<longrightarrow> w = hd ws \<longrightarrow> wproc (waits k w) = Some p \<longrightarrow>
       state (procs s' p) = PROC_RUNNABLE \<and> down_leave q w k' = Some k') \<and>
    rr_rep P s' {p \<in> P. state (procs s' p) = PROC_RUNNABLE \<and> p \<noteq> current s' \<and> p \<noteq> idleproc s'}"
proof -
  have "rr.ok P s" using assms(1,2) by (simp add: rr.ok_def rr.ready_def)
  from rr.up_ok [OF this assms(3,4)] show ?thesis unfolding rr.ok_def rr.ready_def by blast
qed

lemma up_wakes_longest_waiter_witness:
  "\<exists>k' s'. up RR_class 0 sem_demo_blocked sched_demo_blocked = Some (k', s') \<and>
     wait_queue k' 0 [] \<and> state (procs s' 4) = PROC_RUNNABLE"
proof -
  have "wproc (waits sem_demo_blocked 7) = Some 4" "current sched_demo_blocked = 1"
    by (simp_all add: sem_demo_blocked_def sched_demo_blocked_def)
  with up_wakes_longest_waiter [OF demo_blocked_rep _ demo_blocked_queue demo_blocked_sleepers]
  show ?thesis by fastforce
qed

text \<open>
  Waking a whole queue: \<open>wakeup_queue\<close> with deletion returns, empties the wait queue and makes
  every process that slept on it runnable.
\<close>

theorem wakeup_queue_wakes_all:
  assumes "rr_rep P s {p \<in> P. state (procs s p) = PROC_RUNNABLE \<and> p \<noteq> current s \<and> p \<noteq> idleproc s}"
    and "current s \<in> insert (idleproc s) P" and "wait_queue k q ws" and "sleepers P k s ws"
  shows "\<exists>k' s'. wakeup_queue RR_class q flags True k s = Some (k', s') \<and> wait_queue k' q [] \<and>
    (\<forall>u \<in> set ws. \<forall>p. wproc (waits k u) = Some p \<longrightarrow> state (procs s' p) = PROC_RUNNABLE)"
proof -
  have "rr.ok P s" using assms(1,2) by (simp add: rr.ok_def rr.ready_def)
  from rr.wakeup_queue_ok [OF this assms(3,4)] show ?thesis by blast
qed

lemma wakeup_queue_wakes_all_witness:
  "\<exists>k' s'. wakeup_queue RR_class 0 WT_KSEM True sem_demo_blocked sched_demo_blocked = Some (k', s') \<and>
     state (procs s' 4) = PROC_RUNNABLE"
proof -
  have "wproc (waits sem_demo_blocked 7) = Some 4" "current sched_demo_blocked = 1"
    by (simp_all add: sem_demo_blocked_def sched_demo_blocked_def)
  with wakeup_queue_wakes_all [OF demo_blocked_rep _ demo_blocked_queue demo_blocked_sleepers]
  show ?thesis by fastforce
qed

end
