(* ===== verification/CString.thy ===== *)
theory CString
  imports Prelude
begin

text \<open>
  The string library \<open>libs/string.c\<close>: memory is a function from addresses to bytes, each routine is the
  loop the source has. A loop over a string that is not terminated has no result. \<open>cstring m s xs\<close>
  says that the bytes \<open>xs\<close> and a terminating 0 are stored at \<open>s\<close>.
\<close>

type_synonym mem = "nat \<Rightarrow> u8"

abbreviation ch :: "char \<Rightarrow> u8" where "ch c \<equiv> of_char c"

section \<open>Routines\<close>

partial_function (option) strlen_loop :: "mem \<Rightarrow> nat \<Rightarrow> nat \<Rightarrow> nat option" where
  "strlen_loop m s cnt = (if m s \<noteq> 0 then strlen_loop m (s + 1) (cnt + 1) else Some cnt)"

definition strlen :: "mem \<Rightarrow> nat \<Rightarrow> nat option" where
  "strlen m s = strlen_loop m s 0"

function strnlen_loop :: "mem \<Rightarrow> nat \<Rightarrow> nat \<Rightarrow> nat \<Rightarrow> nat" where
  "strnlen_loop m s n cnt = (if cnt < n \<and> m s \<noteq> 0 then strnlen_loop m (s + 1) n (cnt + 1) else cnt)"
  by pat_completeness auto
termination by (relation "measure (\<lambda>(m, s, n, cnt). n - cnt)") auto

declare strnlen_loop.simps [simp del]

definition strnlen :: "mem \<Rightarrow> nat \<Rightarrow> nat \<Rightarrow> nat" where
  "strnlen m s n = strnlen_loop m s n 0"

partial_function (option) strcpy_loop :: "mem \<Rightarrow> nat \<Rightarrow> nat \<Rightarrow> mem option" where
  "strcpy_loop m p src =
     (let m1 = m(p := m src) in if m1 p \<noteq> 0 then strcpy_loop m1 (p + 1) (src + 1) else Some m1)"

definition strcpy :: "mem \<Rightarrow> nat \<Rightarrow> nat \<Rightarrow> mem option" where
  "strcpy m dst src = strcpy_loop m dst src"

fun strncpy :: "mem \<Rightarrow> nat \<Rightarrow> nat \<Rightarrow> nat \<Rightarrow> mem" where
  "strncpy m p src 0 = m"
| "strncpy m p src (Suc n) =
     (let m1 = m(p := m src) in strncpy m1 (p + 1) (if m1 p \<noteq> 0 then src + 1 else src) n)"

definition strcat :: "mem \<Rightarrow> nat \<Rightarrow> nat \<Rightarrow> mem option" where
  "strcat m dst src = do { n \<leftarrow> strlen m dst; strcpy m (dst + n) src }"

partial_function (option) strcmp :: "mem \<Rightarrow> nat \<Rightarrow> nat \<Rightarrow> int option" where
  "strcmp m s1 s2 =
     (if m s1 \<noteq> 0 \<and> m s1 = m s2 then strcmp m (s1 + 1) (s2 + 1)
      else Some (uint (m s1) - uint (m s2)))"

fun strncmp :: "mem \<Rightarrow> nat \<Rightarrow> nat \<Rightarrow> nat \<Rightarrow> int" where
  "strncmp m s1 s2 0 = 0"
| "strncmp m s1 s2 (Suc n) =
     (if m s1 \<noteq> 0 \<and> m s1 = m s2 then strncmp m (s1 + 1) (s2 + 1) n
      else uint (m s1) - uint (m s2))"

partial_function (option) strchr :: "mem \<Rightarrow> nat \<Rightarrow> u8 \<Rightarrow> nat option option" where
  "strchr m s c =
     (if m s \<noteq> 0 then (if m s = c then Some (Some s) else strchr m (s + 1) c) else Some None)"

partial_function (option) strfind :: "mem \<Rightarrow> nat \<Rightarrow> u8 \<Rightarrow> nat option" where
  "strfind m s c =
     (if m s \<noteq> 0 then (if m s = c then Some s else strfind m (s + 1) c) else Some s)"

partial_function (option) skip_blanks :: "mem \<Rightarrow> nat \<Rightarrow> nat option" where
  "skip_blanks m s = (if m s = ch CHR '' '' \<or> m s = 9 then skip_blanks m (s + 1) else Some s)"

text \<open>The digit a character stands for; \<open>None\<close> is the \<open>break\<close>.\<close>

definition digit_of :: "u8 \<Rightarrow> nat option" where
  "digit_of c =
     (if ch CHR ''0'' \<le> c \<and> c \<le> ch CHR ''9'' then Some (unat c - 48)
      else if ch CHR ''a'' \<le> c \<and> c \<le> ch CHR ''z'' then Some (unat c - 97 + 10)
      else if ch CHR ''A'' \<le> c \<and> c \<le> ch CHR ''Z'' then Some (unat c - 65 + 10)
      else None)"

text \<open>\<open>val\<close> is a \<open>long\<close>; as the source notes, overflow is not detected, the word wraps.\<close>

partial_function (option) strtol_digits :: "mem \<Rightarrow> nat \<Rightarrow> nat \<Rightarrow> u64 \<Rightarrow> (u64 \<times> nat) option" where
  "strtol_digits m s base val =
     (case digit_of (m s) of
        None \<Rightarrow> Some (val, s)
      | Some d \<Rightarrow> if d \<ge> base then Some (val, s)
                  else strtol_digits m (s + 1) base (val * of_nat base + of_nat d))"

definition strtol_prefix :: "mem \<Rightarrow> nat \<Rightarrow> nat \<Rightarrow> nat \<times> nat" where
  "strtol_prefix m s base =
     (if (base = 0 \<or> base = 16) \<and> m s = ch CHR ''0'' \<and> m (s + 1) = ch CHR ''x'' then (s + 2, 16)
      else if base = 0 \<and> m s = ch CHR ''0'' then (s + 1, 8)
      else if base = 0 then (s, 10)
      else (s, base))"

text \<open>The result is the value and the address stored in \<open>*endptr\<close>.\<close>

definition strtol :: "mem \<Rightarrow> nat \<Rightarrow> nat \<Rightarrow> (u64 \<times> nat) option" where
  "strtol m s base = do {
     s1 \<leftarrow> skip_blanks m s;
     let (s2, neg) = (if m s1 = ch CHR ''+'' then (s1 + 1, False)
                      else if m s1 = ch CHR ''-'' then (s1 + 1, True) else (s1, False));
     let (s3, b) = strtol_prefix m s2 base;
     (val, e) \<leftarrow> strtol_digits m s3 b 0;
     Some (if neg then - val else val, e)
   }"

fun memset :: "mem \<Rightarrow> nat \<Rightarrow> u8 \<Rightarrow> nat \<Rightarrow> mem" where
  "memset m p c 0 = m"
| "memset m p c (Suc n) = memset (m(p := c)) (p + 1) c n"

fun copy_up :: "mem \<Rightarrow> nat \<Rightarrow> nat \<Rightarrow> nat \<Rightarrow> mem" where
  "copy_up m d s 0 = m"
| "copy_up m d s (Suc n) = copy_up (m(d := m s)) (d + 1) (s + 1) n"

text \<open>\<open>d\<close> and \<open>s\<close> are one past the next byte to copy.\<close>

fun copy_down :: "mem \<Rightarrow> nat \<Rightarrow> nat \<Rightarrow> nat \<Rightarrow> mem" where
  "copy_down m d s 0 = m"
| "copy_down m d s (Suc n) = copy_down (m(d - 1 := m (s - 1))) (d - 1) (s - 1) n"

definition memmove :: "mem \<Rightarrow> nat \<Rightarrow> nat \<Rightarrow> nat \<Rightarrow> mem" where
  "memmove m dst src n =
     (if src < dst \<and> src + n > dst then copy_down m (dst + n) (src + n) n
      else copy_up m dst src n)"

definition memcpy :: "mem \<Rightarrow> nat \<Rightarrow> nat \<Rightarrow> nat \<Rightarrow> mem" where
  "memcpy m dst src n = copy_up m dst src n"

fun memcmp :: "mem \<Rightarrow> nat \<Rightarrow> nat \<Rightarrow> nat \<Rightarrow> int" where
  "memcmp m s1 s2 0 = 0"
| "memcmp m s1 s2 (Suc n) =
     (if m s1 \<noteq> m s2 then uint (m s1) - uint (m s2) else memcmp m (s1 + 1) (s2 + 1) n)"

declare strlen_loop.simps [code] strcpy_loop.simps [code] strcmp.simps [code] strchr.simps [code]
  strfind.simps [code] skip_blanks.simps [code] strtol_digits.simps [code]

section \<open>Strings in memory\<close>

fun bytes_at :: "mem \<Rightarrow> nat \<Rightarrow> u8 list \<Rightarrow> bool" where
  "bytes_at m s [] = True"
| "bytes_at m s (x # xs) = (m s = x \<and> bytes_at m (s + 1) xs)"

fun cstring :: "mem \<Rightarrow> nat \<Rightarrow> u8 list \<Rightarrow> bool" where
  "cstring m s [] = (m s = 0)"
| "cstring m s (x # xs) = (x \<noteq> 0 \<and> m s = x \<and> cstring m (s + 1) xs)"

lemma cstring_bytes: "cstring m s xs = (bytes_at m s xs \<and> 0 \<notin> set xs \<and> m (s + length xs) = 0)"
  by (induction xs arbitrary: s) auto

lemma bytes_at_nth: "bytes_at m s xs = (\<forall>i < length xs. m (s + i) = xs ! i)"
proof (induction xs arbitrary: s)
  case (Cons x xs)
  show ?case
  proof
    assume "bytes_at m s (x # xs)"
    then have "m s = x" "\<forall>i < length xs. m (Suc s + i) = xs ! i" using Cons by auto
    then show "\<forall>i < length (x # xs). m (s + i) = (x # xs) ! i"
      by (auto simp: less_Suc_eq_0_disj)
  next
    assume a: "\<forall>i < length (x # xs). m (s + i) = (x # xs) ! i"
    have "m s = x" using a by fastforce
    moreover have "\<forall>i < length xs. m (s + 1 + i) = xs ! i" using a by fastforce
    ultimately show "bytes_at m s (x # xs)" using Cons by simp
  qed
qed simp

lemma cstring_nth: "cstring m s xs \<Longrightarrow> i < length xs \<Longrightarrow> m (s + i) = xs ! i \<and> xs ! i \<noteq> 0"
  unfolding cstring_bytes bytes_at_nth by (metis nth_mem)

lemma strlen_loop_cstring: "cstring m s xs \<Longrightarrow> strlen_loop m s cnt = Some (cnt + length xs)"
  by (induction xs arbitrary: s cnt) (subst strlen_loop.simps, simp)+

lemma strlen_cstring: "cstring m s xs \<Longrightarrow> strlen m s = Some (length xs)"
  by (simp add: strlen_def strlen_loop_cstring)

lemma strnlen_loop_cstring:
  "cstring m s xs \<Longrightarrow> cnt \<le> n \<Longrightarrow> strnlen_loop m s n cnt = min n (cnt + length xs)"
proof (induction xs arbitrary: s cnt)
  case (Cons x xs)
  then show ?case by (subst strnlen_loop.simps) auto
qed (subst strnlen_loop.simps, simp)

lemma strcpy_loop_cstring:
  assumes "cstring m src xs" and "p + length xs < src \<or> src + length xs < p"
  shows "\<exists>m'. strcpy_loop m p src = Some m' \<and> cstring m' p xs \<and>
    (\<forall>a. a \<notin> {p..p + length xs} \<longrightarrow> m' a = m a)"
  using assms
proof (induction xs arbitrary: m p src)
  case Nil
  then show ?case by (subst strcpy_loop.simps) auto
next
  case (Cons x xs)
  let ?m = "m(p := m src)"
  have ne: "m src = x" "x \<noteq> 0" using Cons.prems(1) by auto
  have "bytes_at ?m (src + 1) xs" "?m (src + 1 + length xs) = 0"
    using Cons.prems unfolding cstring_bytes bytes_at_nth by auto
  then have cs: "cstring ?m (src + 1) xs" using Cons.prems(1) by (auto simp: cstring_bytes)
  have "p + 1 + length xs < src + 1 \<or> src + 1 + length xs < p + 1" using Cons.prems(2) by auto
  from Cons.IH [OF cs this] obtain m' where m': "strcpy_loop ?m (p + 1) (src + 1) = Some m'"
    "cstring m' (p + 1) xs" "\<forall>a. a \<notin> {p + 1..p + 1 + length xs} \<longrightarrow> m' a = ?m a" by blast
  have "strcpy_loop m p src = Some m'" using m'(1) ne by (subst strcpy_loop.simps) simp
  moreover have "m' p = x" using m'(3) [rule_format, of p] ne by simp
  moreover have "m' a = m a" if "a \<notin> {p..p + length (x # xs)}" for a
    using m'(3) [rule_format, of a] that by auto
  ultimately show ?case using m'(2) ne by auto
qed

lemma strcmp_cstring:
  "cstring m a xs \<Longrightarrow> cstring m b ys \<Longrightarrow>
   \<exists>r. strcmp m a b = Some r \<and> (r = 0 \<longleftrightarrow> xs = ys) \<and>
     (r < 0 \<longleftrightarrow> (xs, ys) \<in> lexord {(x, y). x < y})"
proof (induction xs arbitrary: a b ys)
  case Nil
  then show ?case
    by (subst strcmp.simps) (cases ys; auto simp: word_less_def word_neq_0_conv)
next
  case (Cons x xs)
  show ?case
  proof (cases ys)
    case Nil
    then show ?thesis using Cons.prems
      by (subst strcmp.simps) (auto simp: uint_0_iff)
  next
    case (Cons y ys')
    show ?thesis
    proof (cases "x = y")
      case True
      then have "strcmp m a b = strcmp m (a + 1) (b + 1)"
        using Cons.prems \<open>ys = y # ys'\<close> by (subst strcmp.simps) auto
      then show ?thesis using Cons.IH [of "a + 1" "b + 1" ys'] Cons.prems True \<open>ys = y # ys'\<close> by auto
    next
      case False
      then have "strcmp m a b = Some (uint x - uint y)"
        using Cons.prems \<open>ys = y # ys'\<close> by (subst strcmp.simps) auto
      then show ?thesis using False \<open>ys = y # ys'\<close>
        by (auto simp: word_less_def word_uint_eq_iff)
    qed
  qed
qed

section \<open>Moving memory\<close>

lemma copy_up_bytes:
  "(d \<le> s \<or> s + n \<le> d) \<Longrightarrow>
   copy_up m d s n a = (if d \<le> a \<and> a < d + n then m (s + (a - d)) else m a)"
proof (induction n arbitrary: m d s)
  case (Suc n)
  define m1 where "m1 = m(d := m s)"
  have "d + 1 \<le> s + 1 \<or> s + 1 + n \<le> d + 1" using Suc.prems by auto
  have st: "copy_up m d s (Suc n) = copy_up m1 (d + 1) (s + 1) n" by (simp add: m1_def)
  note c = Suc.IH [OF \<open>d + 1 \<le> s + 1 \<or> s + 1 + n \<le> d + 1\<close>, of m1, folded st]
  show ?case
  proof (cases "d + 1 \<le> a \<and> a < d + 1 + n")
    case True
    then have "s + 1 + (a - (d + 1)) = s + (a - d)" "s + (a - d) \<noteq> d" using Suc.prems by auto
    then show ?thesis unfolding c using True by (simp add: m1_def)
  next
    case False
    then show ?thesis unfolding c by (auto simp: m1_def)
  qed
qed auto

lemma copy_down_bytes:
  "s < d \<Longrightarrow> copy_down m (d + n) (s + n) n a = (if d \<le> a \<and> a < d + n then m (s + (a - d)) else m a)"
proof (induction n arbitrary: m)
  case (Suc n)
  define m1 where "m1 = m(d + n := m (s + n))"
  have st: "copy_down m (d + Suc n) (s + Suc n) (Suc n) = copy_down m1 (d + n) (s + n) n"
    by (simp add: m1_def)
  note c = Suc.IH [OF Suc.prems, of m1, folded st]
  show ?case
  proof (cases "d \<le> a \<and> a < d + n")
    case True
    then have "s + (a - d) \<noteq> d + n" using Suc.prems by auto
    then show ?thesis unfolding c using True by (simp add: m1_def)
  next
    case False
    then show ?thesis unfolding c by (auto simp: m1_def)
  qed
qed auto

lemma memset_bytes: "memset m p c n a = (if p \<le> a \<and> a < p + n then c else m a)"
  by (induction n arbitrary: m p) auto

section \<open>Parsing numbers\<close>

text \<open>The value of a digit string in a base.\<close>

fun number_of :: "nat \<Rightarrow> nat \<Rightarrow> nat list \<Rightarrow> nat" where
  "number_of b v [] = v"
| "number_of b v (d # ds) = number_of b (v * b + d) ds"

definition digit_char :: "nat \<Rightarrow> u8" where
  "digit_char d = (if d < 10 then of_nat (48 + d) else of_nat (97 + (d - 10)))"

lemma digit_char_cases: "d < 16 \<Longrightarrow> P 0 \<Longrightarrow> P 1 \<Longrightarrow> P 2 \<Longrightarrow> P 3 \<Longrightarrow> P 4 \<Longrightarrow> P 5 \<Longrightarrow> P 6 \<Longrightarrow> P 7 \<Longrightarrow>
  P 8 \<Longrightarrow> P 9 \<Longrightarrow> P 10 \<Longrightarrow> P 11 \<Longrightarrow> P 12 \<Longrightarrow> P 13 \<Longrightarrow> P 14 \<Longrightarrow> P 15 \<Longrightarrow> P (d::nat)"
  by (simp add: numeral_eq_Suc less_Suc_eq) blast

lemma digit_of_digit_char: "d < 16 \<Longrightarrow> digit_of (digit_char d) = Some d"
  by (erule digit_char_cases) (simp_all add: digit_of_def digit_char_def)

lemma digit_char_facts:
  "d < 16 \<Longrightarrow> digit_char d \<noteq> 0 \<and> digit_char d \<noteq> ch CHR '' '' \<and> digit_char d \<noteq> 9 \<and>
     digit_char d \<noteq> ch CHR ''+'' \<and> digit_char d \<noteq> ch CHR ''-'' \<and> digit_char d \<noteq> ch CHR ''x''"
  by (erule digit_char_cases) (simp_all add: digit_char_def)

lemma strtol_digits_correct:
  assumes "bytes_at m s (map digit_char ds)" and "\<forall>d \<in> set ds. d < b" and "b \<le> 16"
    and "digit_of (m (s + length ds)) = None"
  shows "strtol_digits m s b (of_nat v) = Some (of_nat (number_of b v ds), s + length ds)"
  using assms
proof (induction ds arbitrary: s v)
  case Nil
  then show ?case by (subst strtol_digits.simps) simp
next
  case (Cons d ds)
  then have "d < b" "d < 16" by auto
  then have "strtol_digits m s b (of_nat v) = strtol_digits m (s + 1) b (of_nat (v * b + d))"
    using Cons.prems(1) digit_of_digit_char [of d] by (subst strtol_digits.simps) simp
  then show ?case using Cons.IH [of "s + 1" "v * b + d"] Cons.prems by simp
qed

section \<open>Properties\<close>

text \<open>The strings \<open>ab\<close> at address 0 and \<open>abc\<close> at address 10.\<close>

definition demo_mem :: mem where
  "demo_mem = (\<lambda>_. 0)(0 := 97, 1 := 98, 10 := 97, 11 := 98, 12 := 99)"

lemma demo_strings: "cstring demo_mem 0 [97, 98]" "cstring demo_mem 10 [97, 98, 99]"
  by (simp_all add: demo_mem_def)

text \<open>
  \<open>strcmp\<close> on two terminated strings returns, with 0 exactly for equal strings and a negative
  number exactly when the first comes first in the dictionary order of unsigned bytes.
\<close>

theorem strcmp_is_dictionary_order:
  assumes "cstring m a xs" and "cstring m b ys"
  shows "\<exists>r. strcmp m a b = Some r \<and> (r = 0 \<longleftrightarrow> xs = ys) \<and>
    (r < 0 \<longleftrightarrow> (xs, ys) \<in> lexord {(x, y). x < y})"
  by (rule strcmp_cstring [OF assms])

theorem strcmp_is_dictionary_order_witness: "\<exists>r. strcmp demo_mem 0 10 = Some r \<and> r < 0"
  using strcmp_is_dictionary_order [OF demo_strings] by auto

text \<open>
  \<open>memmove\<close> copies correctly also when the regions overlap, in either direction: afterwards the
  destination holds the old bytes of the source, and no other byte has changed.
\<close>

theorem memmove_overlap:
  "memmove m dst src n a = (if dst \<le> a \<and> a < dst + n then m (src + (a - dst)) else m a)"
proof (cases "src < dst \<and> src + n > dst")
  case True
  then show ?thesis using copy_down_bytes [of src dst m n a] by (simp add: memmove_def)
next
  case False
  then have "dst \<le> src \<or> src + n \<le> dst" by auto
  moreover have "memmove m dst src n = copy_up m dst src n" using False by (auto simp: memmove_def)
  ultimately show ?thesis using copy_up_bytes [of dst src n m a] by simp
qed

text \<open>
  \<open>strcat\<close> to a destination that does not overlap the source returns, leaves the concatenated
  string there and writes nothing else.
\<close>

theorem strcat_concatenates:
  assumes "cstring m dst xs" and "cstring m src ys"
    and "dst + length xs + length ys < src \<or> src + length ys < dst"
  shows "\<exists>m'. strcat m dst src = Some m' \<and> cstring m' dst (xs @ ys) \<and>
    (\<forall>a. a \<notin> {dst + length xs..dst + length xs + length ys} \<longrightarrow> m' a = m a)"
proof -
  have "dst + length xs + length ys < src \<or> src + length ys < dst + length xs"
    using assms(3) by auto
  from strcpy_loop_cstring [OF assms(2) this] obtain m' where
    m': "strcpy_loop m (dst + length xs) src = Some m'" "cstring m' (dst + length xs) ys"
    "\<forall>a. a \<notin> {dst + length xs..dst + length xs + length ys} \<longrightarrow> m' a = m a" by blast
  have "m' (dst + i) = xs ! i \<and> xs ! i \<noteq> 0" if "i < length xs" for i
    using m'(3) cstring_nth [OF assms(1) that] that by simp
  then have "bytes_at m' dst xs" "0 \<notin> set xs" by (auto simp: bytes_at_nth in_set_conv_nth)
  moreover have "bytes_at m' dst (xs @ ys) = (bytes_at m' dst xs \<and> bytes_at m' (dst + length xs) ys)"
    by (induction xs arbitrary: dst) auto
  ultimately have "cstring m' dst (xs @ ys)" using m'(2) by (auto simp: cstring_bytes add.assoc)
  then show ?thesis
    using m' strlen_cstring [OF assms(1)] by (simp add: strcat_def strcpy_def)
qed

theorem strcat_concatenates_witness:
  "\<exists>m'. strcat demo_mem 0 10 = Some m' \<and> cstring m' 0 [97, 98, 97, 98, 99]"
  using strcat_concatenates [OF demo_strings] by auto

end
