(* ===== verification/Printf.thy ===== *)
theory Printf
  imports CString
begin

text \<open>
  Formatted output, \<open>libs/printfmt.c\<close>. The characters handed to \<open>putch\<close> are collected in a list. A
  variable argument is the 64-bit slot the calling convention gives it, or a pointer to a string; the
  format is a string without its terminating 0, which a read at its end returns. Reading an argument
  that is not there, or of the wrong kind, has no result.
\<close>

section \<open>Numbers\<close>

definition digit_table :: "u8 list" where
  "digit_table = map of_char ''0123456789abcdef''"

definition pad :: "u8 \<Rightarrow> int \<Rightarrow> u8 list" where
  "pad c n = replicate (nat n) c"

partial_function (option) printnum :: "u64 \<Rightarrow> u64 \<Rightarrow> int \<Rightarrow> u8 \<Rightarrow> u8 list option" where
  "printnum num base width padc = do {
     c_assert (base \<noteq> 0);
     pre \<leftarrow> (if num \<ge> base then printnum (num div base) base (width - 1) padc
            else Some (pad padc (width - 1)));
     Some (pre @ [digit_table ! unat (num mod base)])
   }"

declare printnum.simps [code]

section \<open>Arguments\<close>

datatype va_arg = VInt u64 | VStr "u8 list option"

text \<open>\<open>va_arg(ap, unsigned int)\<close> and \<open>va_arg(ap, int)\<close> use the low half of the slot.\<close>

fun getuint :: "va_arg list \<Rightarrow> nat \<Rightarrow> (u64 \<times> va_arg list) option" where
  "getuint (VInt v # ap) lflag =
     Some (if lflag \<ge> 2 then v else if lflag > 0 then v else take_bit 32 v, ap)"
| "getuint _ lflag = None"

fun getint :: "va_arg list \<Rightarrow> nat \<Rightarrow> (u64 \<times> va_arg list) option" where
  "getint (VInt v # ap) lflag =
     Some (if lflag \<ge> 2 then v else if lflag > 0 then v else signed_take_bit 31 v, ap)"
| "getint _ lflag = None"

fun get_int_arg :: "va_arg list \<Rightarrow> (int \<times> va_arg list) option" where
  "get_int_arg (VInt v # ap) = Some (sint (signed_take_bit 31 v), ap)"
| "get_int_arg _ = None"

fun get_str_arg :: "va_arg list \<Rightarrow> (u8 list option \<times> va_arg list) option" where
  "get_str_arg (VStr s # ap) = Some (s, ap)"
| "get_str_arg _ = None"

section \<open>The formatter\<close>

text \<open>The locals of one \<open>%\<close>-escape.\<close>

record fmt_state =
  padc :: u8
  width :: int
  precision :: int
  lflag :: nat
  altflag :: bool

definition new_escape :: fmt_state where
  "new_escape = \<lparr>padc = ch CHR '' '', width = - 1, precision = - 1, lflag = 0, altflag = False\<rparr>"

definition fmt_at :: "u8 list \<Rightarrow> nat \<Rightarrow> u8 option" where
  "fmt_at f i = (if i < length f then Some (f ! i) else if i = length f then Some 0 else None)"

definition is_digit :: "u8 \<Rightarrow> bool" where
  "is_digit c \<longleftrightarrow> ch CHR ''0'' \<le> c \<and> c \<le> ch CHR ''9''"

text \<open>The width field: \<open>i\<close> is the index after \<open>c\<close>; the result is the number and the next index.\<close>

partial_function (option) read_width :: "u8 list \<Rightarrow> nat \<Rightarrow> u8 \<Rightarrow> int \<Rightarrow> (int \<times> nat) option" where
  "read_width f i c acc = do {
     let p = acc * 10 + (uint c - 48);
     d \<leftarrow> fmt_at f i;
     if is_digit d then read_width f (i + 1) d p else Some (p, i)
   }"

definition set_precision :: "int \<Rightarrow> fmt_state \<Rightarrow> fmt_state" where
  "set_precision p st =
     (if width st < 0 then st\<lparr>width := p, precision := - 1\<rparr> else st\<lparr>precision := p\<rparr>)"

text \<open>The characters of \<open>%s\<close> and the width that is left.\<close>

fun put_string :: "u8 list \<Rightarrow> bool \<Rightarrow> int \<Rightarrow> int \<Rightarrow> u8 list \<times> int" where
  "put_string [] alt prec w = ([], w)"
| "put_string (c # cs) alt prec w =
     (if prec < 0 \<or> prec - 1 \<ge> 0 then
        let (out, w') = put_string cs alt (if prec < 0 then prec else prec - 1) (w - 1)
        in ((if alt \<and> (c < ch CHR '' '' \<or> c > ch CHR ''~'') then ch CHR ''?'' else c) # out, w')
      else ([], w))"

definition strnlen_arg :: "u8 list \<Rightarrow> int \<Rightarrow> int" where
  "strnlen_arg s prec = (if prec < 0 then int (length s) else min prec (int (length s)))"

definition put_str_arg :: "u8 list \<Rightarrow> fmt_state \<Rightarrow> u8 list" where
  "put_str_arg s st =
     (let (lead, w) = (if width st > 0 \<and> padc st \<noteq> ch CHR ''-''
                       then let n = width st - strnlen_arg s (precision st)
                            in (pad (padc st) n, min n 0)
                       else ([], width st));
          (body, w') = put_string s (altflag st) (precision st) w
      in lead @ body @ pad (ch CHR '' '') w')"

definition error_string :: "nat \<Rightarrow> string option" where
  "error_string e =
     (if e = 1 then Some ''unspecified error'' else if e = 2 then Some ''bad process''
      else if e = 3 then Some ''invalid parameter'' else if e = 4 then Some ''out of memory''
      else if e = 5 then Some ''out of processes'' else if e = 6 then Some ''segmentation fault''
      else if e = 8 then Some ''invalid elf file''
      else if e = 9 then Some ''process is killed'' else if e = 10 then Some ''panic failure''
      else if e = 13 then Some ''no such device'' else if e = 14 then Some ''device not available''
      else if e = 15 then Some ''device/file is busy''
      else if e = 16 then Some ''no such file or directory'' else if e = 17 then Some ''is a directory''
      else if e = 18 then Some ''not a directory'' else if e = 19 then Some ''cross device link''
      else if e = 20 then Some ''unimplemented feature'' else if e = 21 then Some ''illegal seek''
      else if e = 22 then Some ''too many files are open''
      else if e = 23 then Some ''file or directory already exists''
      else if e = 24 then Some ''directory is not empty'' else None)"

text \<open>Scanning back to the \<open>%\<close> of an unrecognised escape: \<open>for (fmt --; fmt[-1] != '%'; fmt --)\<close>.\<close>

fun back_to_percent :: "u8 list \<Rightarrow> nat \<Rightarrow> nat option" where
  "back_to_percent f 0 = None"
| "back_to_percent f (Suc i) =
     (case fmt_at f i of
        None \<Rightarrow> None
      | Some c \<Rightarrow> if c \<noteq> ch CHR ''%'' then back_to_percent f i else Some (Suc i))"

definition bytes_of :: "string \<Rightarrow> u8 list" where
  "bytes_of s = map of_char s"

text \<open>
  One character \<open>c\<close> after the \<open>%\<close>, read from index \<open>i - 1\<close>: the cases of the \<open>switch\<close> that end in
  \<open>goto reswitch\<close>.
\<close>

definition is_flag :: "u8 \<Rightarrow> bool" where
  "is_flag c \<longleftrightarrow> c = ch CHR ''-'' \<or> is_digit c \<or> c = ch CHR ''*'' \<or> c = ch CHR ''.'' \<or>
     c = ch CHR ''#'' \<or> c = ch CHR ''l''"

definition escape_flag ::
  "u8 list \<Rightarrow> nat \<Rightarrow> u8 \<Rightarrow> fmt_state \<Rightarrow> va_arg list \<Rightarrow> (fmt_state \<times> nat \<times> va_arg list) option" where
  "escape_flag f i c st ap =
     (if c = ch CHR ''-'' then Some (st\<lparr>padc := ch CHR ''-''\<rparr>, i, ap)
      else if c = ch CHR ''0'' then Some (st\<lparr>padc := ch CHR ''0''\<rparr>, i, ap)
      else if is_digit c then do {
        (p, j) \<leftarrow> read_width f i c 0;
        Some (set_precision p st, j, ap)
      } else if c = ch CHR ''*'' then do {
        (p, ap1) \<leftarrow> get_int_arg ap;
        Some (set_precision p st, i, ap1)
      } else if c = ch CHR ''.'' then
        Some (if width st < 0 then st\<lparr>width := 0\<rparr> else st, i, ap)
      else if c = ch CHR ''#'' then Some (st\<lparr>altflag := True\<rparr>, i, ap)
      else Some (st\<lparr>lflag := lflag st + 1\<rparr>, i, ap))"

text \<open>The cases that print an argument, apart from \<open>%e\<close>, which prints through \<open>printfmt\<close> again.\<close>

definition is_conversion :: "u8 \<Rightarrow> bool" where
  "is_conversion c \<longleftrightarrow> c \<in> set (map of_char ''csduopx%'')"

definition convert :: "u8 \<Rightarrow> fmt_state \<Rightarrow> va_arg list \<Rightarrow> (u8 list \<times> va_arg list) option" where
  "convert c st ap =
     (if c = ch CHR ''c'' then do {
        (v, ap1) \<leftarrow> get_int_arg ap;
        Some ([of_int v], ap1)
      } else if c = ch CHR ''s'' then do {
        (p, ap1) \<leftarrow> get_str_arg ap;
        Some (put_str_arg (case p of None \<Rightarrow> bytes_of ''(null)'' | Some t \<Rightarrow> t) st, ap1)
      } else if c = ch CHR ''d'' then do {
        (num, ap1) \<leftarrow> getint ap (lflag st);
        out \<leftarrow> printnum (if sint num < 0 then - num else num) 10 (width st) (padc st);
        Some ((if sint num < 0 then [ch CHR ''-''] else []) @ out, ap1)
      } else if c = ch CHR ''u'' then do {
        (num, ap1) \<leftarrow> getuint ap (lflag st);
        out \<leftarrow> printnum num 10 (width st) (padc st);
        Some (out, ap1)
      } else if c = ch CHR ''o'' then do {
        (num, ap1) \<leftarrow> getuint ap (lflag st);
        out \<leftarrow> printnum num 8 (width st) (padc st);
        Some (out, ap1)
      } else if c = ch CHR ''p'' then do {
        (num, ap1) \<leftarrow> getuint ap 2;
        out \<leftarrow> printnum num 16 (width st) (padc st);
        Some ([ch CHR ''0'', ch CHR ''x''] @ out, ap1)
      } else if c = ch CHR ''x'' then do {
        (num, ap1) \<leftarrow> getuint ap (lflag st);
        out \<leftarrow> printnum num 16 (width st) (padc st);
        Some (out, ap1)
      } else Some ([c], ap))"

text \<open>
  \<open>vprintfmt\<close>: \<open>m\<close> is \<open>None\<close> in the outer loop and holds the locals of the escape at \<open>reswitch\<close>. The
  result is everything printed from here on.
\<close>

partial_function (option) vpf ::
  "u8 list \<Rightarrow> nat \<Rightarrow> va_arg list \<Rightarrow> fmt_state option \<Rightarrow> u8 list option" where
  "vpf f i ap m = do {
     c \<leftarrow> fmt_at f i;
     (case m of
        None \<Rightarrow>
          if c = ch CHR ''%'' then vpf f (i + 1) ap (Some new_escape)
          else if c = 0 then Some []
          else do { out \<leftarrow> vpf f (i + 1) ap None; Some (c # out) }
      | Some st \<Rightarrow>
          if is_flag c then do {
            (st1, j, ap1) \<leftarrow> escape_flag f (i + 1) c st ap;
            vpf f j ap1 (Some st1)
          } else if is_conversion c then do {
            (txt, ap1) \<leftarrow> convert c st ap;
            out \<leftarrow> vpf f (i + 1) ap1 None;
            Some (txt @ out)
          } else if c = ch CHR ''e'' then do {
            (v, ap1) \<leftarrow> get_int_arg ap;
            c_assert (v \<noteq> - (2 ^ 31));
            txt \<leftarrow> (case error_string (nat \<bar>v\<bar>) of
                      None \<Rightarrow> vpf (bytes_of ''error %d'') 0 [VInt (of_int \<bar>v\<bar>)] None
                    | Some t \<Rightarrow> vpf (bytes_of ''%s'') 0 [VStr (Some (bytes_of t))] None);
            out \<leftarrow> vpf f (i + 1) ap1 None;
            Some (txt @ out)
          } else do {
            j \<leftarrow> back_to_percent f i;
            out \<leftarrow> vpf f j ap None;
            Some (ch CHR ''%'' # out)
          })
   }"

declare read_width.simps [code] vpf.simps [code]

definition vprintfmt :: "u8 list \<Rightarrow> va_arg list \<Rightarrow> u8 list option" where
  "vprintfmt f ap = vpf f 0 ap None"

section \<open>Printing into a buffer\<close>

record sprintbuf =
  buf :: nat
  ebuf :: nat
  cnt :: nat

definition sprintputch :: "u8 \<Rightarrow> sprintbuf \<times> mem \<Rightarrow> sprintbuf \<times> mem" where
  "sprintputch c = (\<lambda>(b, m).
     let b1 = b\<lparr>cnt := cnt b + 1\<rparr>
     in if buf b1 < ebuf b1 then (b1\<lparr>buf := buf b1 + 1\<rparr>, m(buf b1 := c)) else (b1, m))"

text \<open>
  \<open>str + size - 1\<close> is computed in 64 bits: it lies before \<open>str\<close> when the size is 0 and when the buffer
  would run past the last address. Address 0 is \<open>NULL\<close>.
\<close>

definition vsnprintf ::
  "nat \<Rightarrow> nat \<Rightarrow> u8 list \<Rightarrow> va_arg list \<Rightarrow> mem \<Rightarrow> (int \<times> mem) option" where
  "vsnprintf str sz f ap m =
     (let b0 = \<lparr>buf = str, ebuf = (str + sz + (2 ^ 64 - 1)) mod 2 ^ 64, cnt = 0\<rparr> in
      if str = 0 \<or> buf b0 > ebuf b0 then Some (- E_INVAL, m)
      else do {
        out \<leftarrow> vprintfmt f ap;
        let (b, m1) = fold sprintputch out (b0, m);
        Some (int (cnt b), m1(buf b := 0))
      })"

lemma vsnprintf_ebuf:
  assumes "str < 2 ^ 64" and "sz < 2 ^ 64" and "0 < str"
  shows "0 < sz \<Longrightarrow> str + sz \<le> 2 ^ 64 \<Longrightarrow> (str + sz + (2 ^ 64 - 1)) mod 2 ^ 64 = str + sz - (1::nat)"
    and "sz = 0 \<or> 2 ^ 64 < str + sz \<Longrightarrow> (str + sz + (2 ^ 64 - 1)) mod 2 ^ 64 < str"
proof -
  show "(str + sz + (2 ^ 64 - 1)) mod 2 ^ 64 = str + sz - (1::nat)" if "0 < sz" "str + sz \<le> 2 ^ 64"
  proof -
    have "str + sz + (2 ^ 64 - 1) = (str + sz - 1) + 2 ^ 64" using that by simp
    then show ?thesis using that by (simp only: mod_add_self2) (simp add: mod_less)
  qed
  show "(str + sz + (2 ^ 64 - 1)) mod 2 ^ 64 < str" if "sz = 0 \<or> 2 ^ 64 < str + sz"
  proof (cases "sz = 0")
    case True
    then have "str + sz + (2 ^ 64 - 1) = (str - 1) + 2 ^ 64" using assms(3) by simp
    then show ?thesis using assms by (simp only: mod_add_self2) (simp add: mod_less)
  next
    case False
    then have "str + sz + (2 ^ 64 - 1) = (str + sz - 1 - 2 ^ 64) + 2 * 2 ^ 64" using that by simp
    moreover have "str + sz - 1 - 2 ^ 64 < 2 ^ 64" "str + sz - 1 - 2 ^ 64 < str" using assms that False by simp_all
    ultimately show ?thesis by (simp only: mod_mult_self1 mod_less)
  qed
qed

definition snprintf ::
  "nat \<Rightarrow> nat \<Rightarrow> u8 list \<Rightarrow> va_arg list \<Rightarrow> mem \<Rightarrow> (int \<times> mem) option" where
  "snprintf str sz f ap m = vsnprintf str sz f ap m"


section \<open>What printnum prints\<close>

function digits :: "nat \<Rightarrow> nat \<Rightarrow> nat list" where
  "digits b n = (if 2 \<le> b \<and> b \<le> n then digits b (n div b) @ [n mod b] else [n])"
  by pat_completeness auto
termination by (relation "measure snd") auto

declare digits.simps [simp del]

lemma digits_step: "2 \<le> b \<Longrightarrow> b \<le> n \<Longrightarrow> digits b n = digits b (n div b) @ [n mod b]"
  by (subst digits.simps) simp

lemma digits_small: "n < b \<Longrightarrow> digits b n = [n]"
  by (subst digits.simps) simp

lemma number_of_snoc: "number_of b v (ds @ [d]) = number_of b v ds * b + d"
  by (induction ds arbitrary: v) auto

lemma number_of_digits: "number_of b 0 (digits b n) = n"
proof (induction b n rule: digits.induct)
  case (1 b n)
  then show ?case by (subst digits.simps) (auto simp: number_of_snoc)
qed

lemma digits_less: "2 \<le> b \<Longrightarrow> d \<in> set (digits b n) \<Longrightarrow> d < b"
proof (induction b n rule: digits.induct)
  case (1 b n)
  from 1(3) show ?case by (subst (asm) digits.simps) (use 1(1,2) in \<open>auto split: if_splits\<close>)
qed

lemma digits_nonempty [simp]: "digits b n \<noteq> []"
  by (subst digits.simps) simp

lemma digit_table_char: "d < 16 \<Longrightarrow> digit_table ! d = digit_char d"
  by (erule digit_char_cases) (simp_all add: digit_table_def digit_char_def)

lemma printnum_digits:
  assumes "2 \<le> unat b" "unat b \<le> 16"
  shows "printnum num b w c =
    Some (pad c (w - int (length (digits (unat b) (unat num)))) @ map digit_char (digits (unat b) (unat num)))"
proof (induction "unat num" arbitrary: num w rule: less_induct)
  case less
  have b: "b \<noteq> 0" using assms by auto
  have m: "unat (num mod b) < 16"
    using assms by (metis b less_le_trans unat_mod mod_less_divisor unat_gt_0)
  show ?case
  proof (cases "num \<ge> b")
    case True
    then have d: "unat (num div b) < unat num" "unat b \<le> unat num"
      using assms by (auto simp: word_le_nat_alt unat_div)
    from less [OF d(1), of "w - 1"] True b show ?thesis
      using digit_table_char [OF m] digits_step [OF assms(1) d(2)]
      by (subst printnum.simps) (simp add: unat_div unat_mod algebra_simps)
  next
    case False
    then have "unat num < unat b" by (simp add: word_le_nat_alt)
    moreover from this have "digits (unat b) (unat num) = [unat num]" by (rule digits_small)
    moreover have "num mod b = num" using False by (simp add: mod_word_less)
    ultimately show ?thesis
      using False b digit_table_char [of "unat num"] assms
      by (subst printnum.simps) simp
  qed
qed

section \<open>Reading the number back\<close>

lemma skip_blanks_pad:
  "bytes_at m s (replicate n (ch CHR '' '')) \<Longrightarrow> m (s + n) \<noteq> ch CHR '' '' \<Longrightarrow> m (s + n) \<noteq> 9 \<Longrightarrow>
   skip_blanks m s = Some (s + n)"
  by (induction n arbitrary: s) (subst skip_blanks.simps, simp)+

lemma bytes_at_append: "bytes_at m s (xs @ ys) = (bytes_at m s xs \<and> bytes_at m (s + length xs) ys)"
  by (induction xs arbitrary: s) auto

text \<open>The digits of \<open>n\<close>, possibly after a minus sign, as \<open>strtol\<close> sees them after the blanks.\<close>

lemma strtol_prefix_digits:
  assumes "cstring m s (map digit_char (digits b n))" and b: "2 \<le> b" "b \<le> 16"
  shows "strtol_prefix m s b = (s, b)"
proof -
  have "m (s + 1) \<noteq> ch CHR ''x''" if "m s = ch CHR ''0''"
  proof -
    obtain d ds where ds: "digits b n = d # ds" by (cases "digits b n") auto
    have all: "\<forall>d \<in> set (digits b n). d < 16" using digits_less [OF b(1)] b(2) by fastforce
    show ?thesis
    proof (cases ds)
      case Nil
      then show ?thesis using assms(1) ds by simp
    next
      case (Cons d' ds')
      then show ?thesis using assms(1) ds all digit_char_facts by auto
    qed
  qed
  then show ?thesis using b by (auto simp: strtol_prefix_def)
qed

lemma strtol_number:
  assumes cs: "cstring m s (pad (ch CHR '' '') w @ (if neg then [ch CHR ''-''] else []) @
      map digit_char (digits b n))"
    and b: "2 \<le> b" "b \<le> 16"
  shows "strtol m s b = Some (if neg then - of_nat n else of_nat n,
    s + nat w + (if neg then 1 else 0) + length (digits b n))"
proof -
  obtain d ds where ds: "digits b n = d # ds" by (cases "digits b n") auto
  have all: "\<forall>d \<in> set (digits b n). d < b" "\<forall>d \<in> set (digits b n). d < 16"
    using digits_less [OF b(1)] b(2) by fastforce+
  have d: "d < 16" using all ds by simp
  let ?s1 = "s + nat w" and ?k = "if neg then 1 else 0 :: nat"
  from cs have bt: "bytes_at m s (replicate (nat w) (ch CHR '' ''))"
    "neg \<Longrightarrow> m ?s1 = ch CHR ''-''" "bytes_at m (?s1 + ?k) (map digit_char (digits b n))"
    "m (?s1 + ?k + length (digits b n)) = 0"
    by (auto simp: cstring_bytes bytes_at_append pad_def add.assoc)
  have c2: "cstring m (?s1 + ?k) (map digit_char (digits b n))"
    using cs by (auto simp: cstring_bytes bytes_at_append pad_def add.assoc)
  have hd: "m (?s1 + ?k) = digit_char d" using bt(3) ds by simp
  have s1: "m ?s1 \<noteq> ch CHR '' ''" "m ?s1 \<noteq> 9" "m ?s1 \<noteq> ch CHR ''+''"
    using bt(2) hd digit_char_facts [OF d] by (cases neg; simp)+
  have sk: "skip_blanks m s = Some ?s1" by (rule skip_blanks_pad [OF bt(1) s1(1,2)])
  have mi: "m ?s1 = ch CHR ''-'' \<longleftrightarrow> neg" using bt(2) hd digit_char_facts [OF d] by (cases neg) auto
  have "digit_of 0 = None" by (simp add: digit_of_def)
  then have dg: "strtol_digits m (?s1 + ?k) b 0 = Some (of_nat n, ?s1 + ?k + length (digits b n))"
    using strtol_digits_correct [OF bt(3) all(1) b(2), of 0] bt(4) by (simp add: number_of_digits)
  show ?thesis
    using sk s1(3) mi dg strtol_prefix_digits [OF c2 b]
    by (cases neg) (simp_all add: strtol_def Let_def)
qed

section \<open>The formatter on one conversion\<close>

lemma vpf_end: "vpf f (length f) ap None = Some []"
  by (subst vpf.simps) (simp add: fmt_at_def)

lemma vprintfmt_conversion:
  assumes "is_conversion c" "\<not> is_flag c"
  shows "vprintfmt [ch CHR ''%'', c] ap = map_option fst (convert c new_escape ap)"
proof -
  have "vpf [ch CHR ''%'', c] 0 ap None = vpf [ch CHR ''%'', c] 1 ap (Some new_escape)"
    by (subst vpf.simps) (simp add: fmt_at_def)
  also have "\<dots> = map_option fst (convert c new_escape ap)"
    using vpf_end [of "[ch CHR ''%'', c]"] assms
    by (subst vpf.simps) (cases "convert c new_escape ap", auto simp: fmt_at_def numeral_2_eq_2)
  finally show ?thesis by (simp add: vprintfmt_def)
qed

lemma conversions [simp]:
  "is_conversion (ch CHR ''d'')" "\<not> is_flag (ch CHR ''d'')" "is_conversion (ch CHR ''x'')"
  "\<not> is_flag (ch CHR ''x'')"
  by (simp_all add: is_conversion_def is_flag_def is_digit_def)

section \<open>Printing into a buffer\<close>

lemma sprintputch_step:
  "sprintputch c (\<lparr>buf = p, ebuf = e, cnt = k\<rparr>, m) =
     (if p < e then (\<lparr>buf = p + 1, ebuf = e, cnt = k + 1\<rparr>, m(p := c))
      else (\<lparr>buf = p, ebuf = e, cnt = k + 1\<rparr>, m))"
  by (simp add: sprintputch_def)

lemma sprintputch_fold:
  assumes "p \<le> e"
  shows "\<exists>m'. fold sprintputch out (\<lparr>buf = p, ebuf = e, cnt = k\<rparr>, m) =
      (\<lparr>buf = min e (p + length out), ebuf = e, cnt = k + length out\<rparr>, m') \<and>
    (\<forall>a. m' a = (if p \<le> a \<and> a < min e (p + length out) then out ! (a - p) else m a))"
  using assms
proof (induction out arbitrary: p k m)
  case (Cons c out)
  show ?case
  proof (cases "p < e")
    case True
    then have "p + 1 \<le> e" by simp
    from Cons.IH [OF this, of "k + 1" "m(p := c)"] obtain m' where
      m': "fold sprintputch out (\<lparr>buf = p + 1, ebuf = e, cnt = k + 1\<rparr>, m(p := c)) =
        (\<lparr>buf = min e (p + 1 + length out), ebuf = e, cnt = k + 1 + length out\<rparr>, m')"
      "\<forall>a. m' a = (if p + 1 \<le> a \<and> a < min e (p + 1 + length out) then out ! (a - (p + 1))
        else (m(p := c)) a)" by blast
    have mm: "m' a = (if p \<le> a \<and> a < min e (p + length (c # out)) then (c # out) ! (a - p) else m a)" for a
      using m'(2) [rule_format, of a] True by (auto simp: nth_Cons' le_Suc_eq)
    show ?thesis by (intro exI [of _ m'] conjI allI) (use m'(1) True in \<open>simp add: sprintputch_step\<close>, rule mm)
  next
    case False
    then have pe: "p = e" using Cons.prems by simp
    from Cons.IH [of p "k + 1" m] Cons.prems obtain m' where
      m': "fold sprintputch out (\<lparr>buf = p, ebuf = e, cnt = k + 1\<rparr>, m) =
        (\<lparr>buf = min e (p + length out), ebuf = e, cnt = k + 1 + length out\<rparr>, m')"
      "\<forall>a. m' a = (if p \<le> a \<and> a < min e (p + length out) then out ! (a - p) else m a)" by blast
    have mm: "m' a = (if p \<le> a \<and> a < min e (p + length (c # out)) then (c # out) ! (a - p) else m a)" for a
      using m'(2) pe by auto
    show ?thesis by (intro exI [of _ m'] conjI allI) (use m'(1) pe in \<open>simp add: sprintputch_step\<close>, rule mm)
  qed
qed auto

section \<open>Properties\<close>

text \<open>A memory that holds a given string at address 0.\<close>

definition mem_of :: "u8 list \<Rightarrow> mem" where
  "mem_of bs = (\<lambda>a. if a < length bs then bs ! a else 0)"

lemma cstring_mem_of: "0 \<notin> set bs \<Longrightarrow> cstring (mem_of bs) 0 bs"
  by (auto simp: mem_of_def cstring_bytes bytes_at_nth)

text \<open>
  C15: What \<open>printnum\<close> prints, \<open>strtol\<close> reads back: in every base from 2 to 16 and for every field width
  padded with blanks, \<open>printnum\<close> returns, and \<open>strtol\<close> on the printed string returns the number and
  stops at its end.
\<close>

theorem strtol_printnum_roundtrip:
  assumes "2 \<le> unat b" and "unat b \<le> 16"
  shows "\<exists>out. printnum num b w (ch CHR '' '') = Some out \<and>
    (\<forall>m s. cstring m s out \<longrightarrow> strtol m s (unat b) = Some (num, s + length out))"
proof -
  let ?ds = "digits (unat b) (unat num)"
  let ?w = "w - int (length ?ds)"
  have "strtol m s (unat b) = Some (num, s + (nat ?w + length ?ds))"
    if "cstring m s (pad (ch CHR '' '') ?w @ map digit_char ?ds)" for m s
    using strtol_number [of m s ?w False "unat b" "unat num"] that assms by (simp add: add.assoc)
  then show ?thesis
    using printnum_digits [OF assms, of num w "ch CHR '' ''"] by (auto simp: pad_def)
qed

theorem strtol_printnum_roundtrip_witness: "strtol (mem_of (bytes_of ''  beef'')) 0 16 = Some (48879, 6)"
proof -
  have p: "printnum 48879 16 6 (ch CHR '' '') = Some (bytes_of ''  beef'')" by code_simp
  have c: "cstring (mem_of (bytes_of ''  beef'')) 0 (bytes_of ''  beef'')"
    by (rule cstring_mem_of) (simp add: bytes_of_def)
  from strtol_printnum_roundtrip [where b = 16 and num = 48879 and w = 6] p c show ?thesis by (auto simp: bytes_of_def)
qed

text \<open>
  \<open>%d\<close> prints every \<open>int\<close> so that it can be read back: \<open>vprintfmt\<close> returns, and \<open>strtol\<close> in base 10
  on what it printed returns the argument, sign included, also for the most negative number.
\<close>

theorem printf_decimal_roundtrip:
  "\<exists>out. vprintfmt (bytes_of ''%d'') [VInt v] = Some out \<and>
    (\<forall>m s. cstring m s out \<longrightarrow> strtol m s 10 = Some (signed_take_bit 31 v, s + length out))"
proof -
  define num where "num = signed_take_bit 31 v"
  define neg where "neg = (sint num < 0)"
  define k where "k = (if neg then - num else num)"
  have p: "printnum k 10 (- 1) (ch CHR '' '') = Some (map digit_char (digits 10 (unat k)))"
    using printnum_digits [of 10 k "- 1" "ch CHR '' ''"] by (simp add: pad_def)
  let ?out = "(if neg then [ch CHR ''-''] else []) @ map digit_char (digits 10 (unat k))"
  have "vprintfmt (bytes_of ''%d'') [VInt v] = map_option fst (convert (ch CHR ''d'') new_escape [VInt v])"
    using vprintfmt_conversion [OF conversions(1,2), of "[VInt v]"] by (simp add: bytes_of_def)
  also have "convert (ch CHR ''d'') new_escape [VInt v] = Some (?out, [])"
    using p by (simp add: convert_def new_escape_def split del: if_split flip: num_def neg_def k_def)
  finally have o: "vprintfmt (bytes_of ''%d'') [VInt v] = Some ?out" by simp
  have "strtol m s 10 = Some (num, s + length ?out)" if "cstring m s ?out" for m s
    using strtol_number [of m s 0 neg 10 "unat k"] that by (auto simp: pad_def k_def)
  then show ?thesis using o unfolding num_def by blast
qed

theorem printf_decimal_roundtrip_witness:
  "strtol (mem_of (bytes_of ''-2147483648'')) 0 10 = Some (- 2147483648, 11)"
proof -
  have p: "vprintfmt (bytes_of ''%d'') [VInt 0x80000000] = Some (bytes_of ''-2147483648'')" by code_simp
  have c: "cstring (mem_of (bytes_of ''-2147483648'')) 0 (bytes_of ''-2147483648'')"
    by (rule cstring_mem_of) (simp add: bytes_of_def)
  have v: "signed_take_bit 31 (0x80000000 :: u64) = - 2147483648" by code_simp
  from printf_decimal_roundtrip [of "0x80000000"] p c v show ?thesis by (auto simp: bytes_of_def)
qed

text \<open>
  C16: \<open>vsnprintf\<close> never writes outside its buffer: with a buffer of \<open>sz\<close> bytes it returns the length of
  the whole output, the buffer holds the first \<open>sz - 1\<close> characters of it and a terminating 0, and every
  byte outside the buffer keeps its value. Without a buffer, with a size of 0, or with a buffer that
  would run past the last of the \<open>2 ^ 64\<close> addresses it returns \<open>-E_INVAL\<close> and writes nothing.
\<close>

theorem vsnprintf_bounded:
  assumes "str < 2 ^ 64" and "sz < 2 ^ 64" and "vprintfmt f ap = Some out"
  shows "if str = 0 \<or> sz = 0 \<or> 2 ^ 64 < str + sz then vsnprintf str sz f ap m = Some (- E_INVAL, m)
    else \<exists>m'. vsnprintf str sz f ap m = Some (int (length out), m') \<and>
      bytes_at m' str (take (sz - 1) out @ [0]) \<and>
      (\<forall>a. a < str \<or> str + sz \<le> a \<longrightarrow> m' a = m a)"
proof (cases "str = 0 \<or> sz = 0 \<or> 2 ^ 64 < str + sz")
  case True
  then show ?thesis using vsnprintf_ebuf(2) [OF assms(1,2)] by (auto simp: vsnprintf_def)
next
  case False
  then have pos: "0 < sz" "0 < str" "str + sz \<le> 2 ^ 64" by auto
  let ?e = "str + sz - 1" let ?n = "min (str + sz - 1) (str + length out)"
  have "str \<le> ?e" using pos(1) by simp
  from sprintputch_fold [OF this, of out 0 m] obtain m1 where
    f: "fold sprintputch out (\<lparr>buf = str, ebuf = ?e, cnt = 0\<rparr>, m) =
      (\<lparr>buf = ?n, ebuf = ?e, cnt = length out\<rparr>, m1)"
    and m1: "\<And>a. m1 a = (if str \<le> a \<and> a < ?n then out ! (a - str) else m a)" by auto
  have "\<not> ?e < str" using pos by simp
  then have v: "vsnprintf str sz f ap m = Some (int (length out), m1(?n := 0))"
    using assms(3) f pos vsnprintf_ebuf(1) [OF assms(1,2) pos(2,1,3)] unfolding vsnprintf_def Let_def by simp
  have len: "length (take (sz - 1) out) = ?n - str" using pos(1) by auto
  have "(m1(?n := 0)) (str + i) = (take (sz - 1) out @ [0]) ! i"
    if "i < length (take (sz - 1) out @ [0])" for i
  proof (cases "i < ?n - str")
    case True
    then have "str + i < ?n" by arith
    moreover from this have "str + i \<noteq> ?n" by (rule less_imp_neq)
    moreover have "i < sz - 1" using True by arith
    ultimately show ?thesis using True len m1 [of "str + i"] by (simp add: nth_append)
  next
    case False
    then have "i = ?n - str" using that len by simp
    moreover have "str + (?n - str) = ?n" using pos(1) by simp
    ultimately show ?thesis using len by (simp add: nth_append)
  qed
  then have "bytes_at (m1(?n := 0)) str (take (sz - 1) out @ [0])" by (simp add: bytes_at_nth)
  moreover have "(m1(?n := 0)) a = m a" if "a < str \<or> str + sz \<le> a" for a
    using that m1 [of a] pos(1) by auto
  ultimately show ?thesis using v False by auto
qed

theorem vsnprintf_bounded_witness:
  "\<exists>m'. vsnprintf 100 4 (bytes_of ''hello'') [] demo_mem = Some (5, m') \<and>
     bytes_at m' 100 (bytes_of ''hel'' @ [0])"
proof -
  have "vprintfmt (bytes_of ''hello'') [] = Some (bytes_of ''hello'')" by code_simp
  from vsnprintf_bounded [OF _ _ this, of 100 4 demo_mem] show ?thesis by (auto simp: bytes_of_def)
qed

text \<open>
  The \<open>-\<close> flag does not pad numbers on the right as its comment says: \<open>printnum\<close> takes the flag
  character itself as the padding, so \<open>%-5d\<close> of 42 prints three dashes before the number.
\<close>

theorem printf_minus_pads_with_dashes:
  "vprintfmt (bytes_of ''%-5d'') [VInt 42] = Some (bytes_of ''---42'')"
  by code_simp

end
