(* ===== verification/Kmalloc.thy ===== *)
theory Kmalloc
  imports FirstFit
begin

text \<open>
  The SLOB allocator, \<open>kern/mm/kmalloc.c\<close> (the same in labs 4 to 8): a circular, address-ordered list
  of free blocks in units of 16 bytes, a roving pointer into it, whole pages from the page manager
  when no block is large enough, and a list of page-sized blocks. Addresses are counted in units. The
  page manager is the function pointer \<open>pmm_manager->alloc_pages\<close>, an argument of the operations.
\<close>

section \<open>State\<close>

record slob =
  arena :: nat
  sunits :: "nat \<Rightarrow> nat"
  snext :: "nat \<Rightarrow> nat"
  slobfree :: nat
  bb_order :: "nat \<Rightarrow> nat"
  bb_pages :: "nat \<Rightarrow> nat"
  bb_next :: "nat \<Rightarrow> nat option"
  bigblocks :: "nat option"
  pmm :: free_area

definition PAGE_SIZE :: nat where "PAGE_SIZE = 4096"
definition SLOB_UNIT :: nat where "SLOB_UNIT = 16"

definition SLOB_UNITS :: "nat \<Rightarrow> nat" where
  "SLOB_UNITS sz = (sz + SLOB_UNIT - 1) div SLOB_UNIT"

definition set_units :: "nat \<Rightarrow> nat \<Rightarrow> slob \<Rightarrow> slob" where
  "set_units b v h = h\<lparr>sunits := (sunits h)(b := v)\<rparr>"

definition set_snext :: "nat \<Rightarrow> nat \<Rightarrow> slob \<Rightarrow> slob" where
  "set_snext b v h = h\<lparr>snext := (snext h)(b := v)\<rparr>"

lemma slob_set_sel [simp]:
  "sunits (set_units b v h) = (sunits h)(b := v)" "snext (set_units b v h) = snext h"
  "arena (set_units b v h) = arena h" "slobfree (set_units b v h) = slobfree h"
  "pmm (set_units b v h) = pmm h" "bigblocks (set_units b v h) = bigblocks h"
  "sunits (set_snext b v h) = sunits h" "snext (set_snext b v h) = (snext h)(b := v)"
  "arena (set_snext b v h) = arena h" "slobfree (set_snext b v h) = slobfree h"
  "pmm (set_snext b v h) = pmm h" "bigblocks (set_snext b v h) = bigblocks h"
  by (simp_all add: set_units_def set_snext_def)

text \<open>
  \<open>page2kva\<close> of a page descriptor, in units: the first page lies at \<open>0xFFFFFFFFC0000000\<close>, a page has
  256 units.
\<close>

definition page2kva_unit :: "nat \<Rightarrow> nat" where
  "page2kva_unit p = 0xFFFFFFFC000000 + 256 * p"

definition kva_unit2page :: "nat \<Rightarrow> nat" where
  "kva_unit2page a = (a - 0xFFFFFFFC000000) div 256"

type_synonym pmm_alloc = "nat \<Rightarrow> free_area \<Rightarrow> (nat option \<times> free_area) option"
type_synonym pmm_free = "nat \<Rightarrow> nat \<Rightarrow> free_area \<Rightarrow> free_area option"

section \<open>Operations\<close>

definition slob_get_free_pages :: "pmm_alloc \<Rightarrow> nat \<Rightarrow> slob \<Rightarrow> (nat option \<times> slob) option" where
  "slob_get_free_pages alloc ord h = do {
     (page, f) \<leftarrow> alloc (2 ^ ord) (pmm h);
     Some (map_option page2kva_unit page, h\<lparr>pmm := f\<rparr>)
   }"

definition slob_free_pages :: "pmm_free \<Rightarrow> nat \<Rightarrow> nat \<Rightarrow> slob \<Rightarrow> slob option" where
  "slob_free_pages free kva ord h = do {
     f \<leftarrow> free (kva_unit2page kva) (2 ^ ord) (pmm h);
     Some (h\<lparr>pmm := f\<rparr>)
   }"

text \<open>The search for the block after which \<open>b\<close> is inserted.\<close>

partial_function (option) free_point :: "slob \<Rightarrow> nat \<Rightarrow> nat \<Rightarrow> nat option" where
  "free_point h b cur =
     (if cur < b \<and> b < snext h cur then Some cur
      else if cur \<ge> snext h cur \<and> (b > cur \<or> b < snext h cur) then Some cur
      else free_point h b (snext h cur))"

declare free_point.simps [code]

definition join_next :: "nat \<Rightarrow> nat \<Rightarrow> slob \<Rightarrow> slob" where
  "join_next b nx h =
     (if b + sunits h b = nx
      then set_snext b (snext h nx) (set_units b (sunits h b + sunits h nx) h)
      else set_snext b nx h)"

definition join_prev :: "nat \<Rightarrow> nat \<Rightarrow> slob \<Rightarrow> slob" where
  "join_prev cur b h =
     (if cur + sunits h cur = b
      then set_snext cur (snext h b) (set_units cur (sunits h cur + sunits h b) h)
      else set_snext cur b h)"

definition slob_insert :: "nat \<Rightarrow> nat \<Rightarrow> slob \<Rightarrow> slob" where
  "slob_insert b cur h = (join_prev cur b (join_next b (snext h cur) h))\<lparr>slobfree := cur\<rparr>"

text \<open>\<open>slob_free\<close> of a block that is not \<open>NULL\<close>.\<close>

definition slob_free :: "nat \<Rightarrow> nat \<Rightarrow> slob \<Rightarrow> slob option" where
  "slob_free b sz h = do {
     let h1 = (if sz \<noteq> 0 then set_units b (SLOB_UNITS sz) h else h);
     cur \<leftarrow> free_point h1 b (slobfree h1);
     Some (slob_insert b cur h1)
   }"

text \<open>\<open>ALIGN\<close> of a unit address to a power of two of bytes, and the units skipped.\<close>

definition slob_align :: "nat \<Rightarrow> nat \<Rightarrow> nat" where
  "slob_align cur align = ((cur * SLOB_UNIT + align - 1) div align * align) div SLOB_UNIT"

definition slob_take :: "nat \<Rightarrow> nat \<Rightarrow> nat \<Rightarrow> nat \<Rightarrow> slob \<Rightarrow> nat \<times> slob" where
  "slob_take u delta prev0 cur0 h0 =
     (let (prev, cur, h) =
        (if delta \<noteq> 0 then
           let al = cur0 + delta;
               h1 = set_units al (sunits h0 cur0 - delta) h0;
               h2 = set_snext al (snext h1 cur0) h1;
               h3 = set_snext cur0 al h2
           in (cur0, al, set_units cur0 delta h3)
         else (prev0, cur0, h0));
       h4 = (if sunits h cur = u then set_snext prev (snext h cur) h
             else let h5 = set_snext prev (cur + u) h;
                      h6 = set_units (cur + u) (sunits h5 cur - u) h5;
                      h7 = set_snext (cur + u) (snext h6 cur) h6
                  in set_units cur u h7)
      in (cur, h4\<lparr>slobfree := prev\<rparr>))"

partial_function (option) slob_search ::
  "pmm_alloc \<Rightarrow> nat \<Rightarrow> nat \<Rightarrow> nat \<Rightarrow> nat \<Rightarrow> nat \<Rightarrow> slob \<Rightarrow> (nat option \<times> slob) option" where
  "slob_search alloc sz u align prev cur h =
     (let delta = (if align \<noteq> 0 then slob_align cur align - cur else 0) in
      if sunits h cur \<ge> u + delta then
        let (b, h1) = slob_take u delta prev cur h in Some (Some b, h1)
      else if cur = slobfree h then
        (if sz = PAGE_SIZE then Some (None, h)
         else do {
           (page, h1) \<leftarrow> slob_get_free_pages alloc 0 h;
           (case page of
              None \<Rightarrow> Some (None, h1)
            | Some c \<Rightarrow> do {
                h2 \<leftarrow> slob_free c PAGE_SIZE h1;
                slob_search alloc sz u align (slobfree h2) (snext h2 (slobfree h2)) h2
              })
         })
      else slob_search alloc sz u align cur (snext h cur) h)"

declare slob_search.simps [code]

definition slob_alloc :: "pmm_alloc \<Rightarrow> nat \<Rightarrow> nat \<Rightarrow> slob \<Rightarrow> (nat option \<times> slob) option" where
  "slob_alloc alloc sz align h = do {
     c_assert (sz + SLOB_UNIT < PAGE_SIZE);
     slob_search alloc sz (SLOB_UNITS sz) align (slobfree h) (snext h (slobfree h)) h
   }"

text \<open>
  The parameter of \<open>find_order\<close> is an \<open>int\<close>: \<open>kmalloc\<close> passes its \<open>size_t\<close> cut to 32 bits and read as
  a signed number.
\<close>

function find_order :: "int \<Rightarrow> nat" where
  "find_order sz = (if sz > 4096 then find_order (sz div 2) + 1 else 0)"
  by pat_completeness auto
termination by (relation "measure nat") auto

declare find_order.simps [simp del]

text \<open>\<open>kmalloc\<close>; the result is the address of the object, in units.\<close>

definition kmalloc :: "pmm_alloc \<Rightarrow> nat \<Rightarrow> slob \<Rightarrow> (nat option \<times> slob) option" where
  "kmalloc alloc sz h =
     (if sz < PAGE_SIZE - SLOB_UNIT then do {
        (m, h1) \<leftarrow> slob_alloc alloc (sz + SLOB_UNIT) 0 h;
        Some (map_option (\<lambda>m. m + 1) m, h1)
      } else do {
        (bb, h1) \<leftarrow> slob_alloc alloc 24 0 h;
        (case bb of
           None \<Rightarrow> Some (None, h1)
         | Some b \<Rightarrow> do {
             let ord = find_order (sint (of_nat sz :: 32 word));
             let h2 = h1\<lparr>bb_order := (bb_order h1)(b := ord)\<rparr>;
             (pg, h3) \<leftarrow> slob_get_free_pages alloc ord h2;
             (case pg of
                Some p \<Rightarrow> Some (Some p, h3\<lparr>bb_pages := (bb_pages h3)(b := p),
                   bb_next := (bb_next h3)(b := bigblocks h3), bigblocks := Some b\<rparr>)
              | None \<Rightarrow> do {
                  h4 \<leftarrow> slob_free b 24 h3;
                  Some (None, h4)
                })
           })
      })"

text \<open>The walk over the list of big blocks; \<open>prv\<close> is the entry before, \<open>None\<close> for the head.\<close>

partial_function (option) find_big :: "slob \<Rightarrow> nat \<Rightarrow> nat option \<Rightarrow> nat option \<Rightarrow> (nat option \<times> nat) option option" where
  "find_big h obj prv bb =
     (if bb = None then Some None
      else if bb_pages h (the bb) = obj then Some (Some (prv, the bb))
      else find_big h obj bb (bb_next h (the bb)))"

declare find_big.simps [code]

definition kfree :: "pmm_free \<Rightarrow> nat \<Rightarrow> slob \<Rightarrow> slob option" where
  "kfree free obj h = do {
     big \<leftarrow> (if obj mod 256 = 0 then find_big h obj None (bigblocks h) else Some None);
     (case big of
        Some (prv, b) \<Rightarrow> do {
          let h1 = (case prv of
                      None \<Rightarrow> h\<lparr>bigblocks := bb_next h b\<rparr>
                    | Some l \<Rightarrow> h\<lparr>bb_next := (bb_next h)(l := bb_next h b)\<rparr>);
          h2 \<leftarrow> slob_free_pages free obj (bb_order h b) h1;
          slob_free b 24 h2
        }
      | None \<Rightarrow> slob_free (obj - 1) 0 h)
   }"

definition ksize :: "nat \<Rightarrow> slob \<Rightarrow> nat option" where
  "ksize obj h = do {
     big \<leftarrow> (if obj mod 256 = 0 then find_big h obj None (bigblocks h) else Some None);
     Some (case big of
        Some (prv, b) \<Rightarrow> PAGE_SIZE * 2 ^ bb_order h b
      | None \<Rightarrow> sunits h (obj - 1) * SLOB_UNIT)
   }"

section \<open>The free list\<close>

fun sseg :: "slob \<Rightarrow> nat \<Rightarrow> nat list \<Rightarrow> nat \<Rightarrow> bool" where
  "sseg h p [] q = (snext h p = q)"
| "sseg h p (x # xs) q = (snext h p = x \<and> sseg h x xs q)"

text \<open>Blocks in address order, each ending before the next one begins.\<close>

fun ordered :: "(nat \<Rightarrow> nat) \<Rightarrow> nat list \<Rightarrow> bool" where
  "ordered u [] = True"
| "ordered u [x] = (0 < u x)"
| "ordered u (x # y # xs) = (0 < u x \<and> x + u x < y \<and> ordered u (y # xs))"

definition slob_inv :: "slob \<Rightarrow> nat list \<Rightarrow> bool" where
  "slob_inv h bs \<longleftrightarrow> sseg h (arena h) bs (arena h) \<and> ordered (sunits h) (arena h # bs) \<and>
     sunits h (arena h) = 1 \<and> slobfree h \<in> set (arena h # bs)"

definition blk :: "(nat \<Rightarrow> nat) \<Rightarrow> nat \<Rightarrow> nat set" where
  "blk u b = {b..<b + u b}"

definition slob_free_units :: "slob \<Rightarrow> nat list \<Rightarrow> nat set" where
  "slob_free_units h bs = (\<Union>b \<in> set bs. blk (sunits h) b)"

lemma sseg_append: "sseg h p (xs @ y # ys) q \<longleftrightarrow> sseg h p xs y \<and> sseg h y ys q"
  by (induction xs arbitrary: p) auto

lemma sseg_cong:
  "sseg h p xs q \<Longrightarrow> (\<And>a. a \<in> set (p # xs) \<Longrightarrow> snext h' a = snext h a) \<Longrightarrow> sseg h' p xs q"
  by (induction xs arbitrary: p) auto

lemma sseg_head:
  "sseg h p xs q \<Longrightarrow> snext h' p' = snext h p \<Longrightarrow> (\<And>a. a \<in> set xs \<Longrightarrow> snext h' a = snext h a) \<Longrightarrow>
   sseg h' p' xs q"
  by (cases xs) (auto intro: sseg_cong)

lemma sseg_relink:
  "sseg h p xs q \<Longrightarrow> distinct (p # xs) \<Longrightarrow> snext h' (last (p # xs)) = q' \<Longrightarrow>
   (\<And>a. a \<in> set (p # xs) \<Longrightarrow> a \<noteq> last (p # xs) \<Longrightarrow> snext h' a = snext h a) \<Longrightarrow> sseg h' p xs q'"
proof (induction xs arbitrary: p)
  case (Cons x xs)
  have "p \<noteq> last (x # xs)" using Cons.prems(2) last_in_set [of "x # xs"] by auto
  then have "snext h' p = snext h p" using Cons.prems(4) [of p] by simp
  moreover have "sseg h' x xs q'"
    by (rule Cons.IH) (use Cons.prems in auto)
  ultimately show ?case using Cons.prems(1) by simp
qed simp

lemma sseg_last: "sseg h p xs q \<Longrightarrow> snext h (last (p # xs)) = q"
  by (induction xs arbitrary: p) auto

lemma sseg_append_last:
  "sseg h p (xs @ ys) q \<longleftrightarrow> sseg h p xs (hd (ys @ [q])) \<and> sseg h (last (p # xs)) ys q"
proof (induction xs arbitrary: p)
  case Nil
  show ?case by (cases ys) auto
qed auto

lemma ordered_Cons: "ordered u (x # xs) \<longleftrightarrow> 0 < u x \<and> (xs \<noteq> [] \<longrightarrow> x + u x < hd xs) \<and> ordered u xs"
  by (cases xs) auto

lemma ordered_append:
  "ordered u (xs @ ys) \<longleftrightarrow> ordered u xs \<and> ordered u ys \<and>
     (xs \<noteq> [] \<longrightarrow> ys \<noteq> [] \<longrightarrow> last xs + u (last xs) < hd ys)"
  by (induction xs) (auto simp: ordered_Cons)

lemma ordered_pos: "ordered u xs \<Longrightarrow> x \<in> set xs \<Longrightarrow> 0 < u x"
  by (induction xs) (auto simp: ordered_Cons)

lemma ordered_less: "ordered u (x # xs) \<Longrightarrow> y \<in> set xs \<Longrightarrow> x + u x < y"
proof (induction xs arbitrary: x)
  case (Cons z zs)
  then show ?case by (cases "y = z") fastforce+
qed simp

lemma ordered_distinct: "ordered u xs \<Longrightarrow> distinct xs"
proof (induction xs)
  case (Cons x xs)
  then have "x \<notin> set xs" using ordered_less [of u x xs x] by auto
  then show ?case using Cons by (auto simp: ordered_Cons)
qed simp

lemma ordered_cong: "ordered u xs \<Longrightarrow> (\<And>x. x \<in> set xs \<Longrightarrow> v x = u x) \<Longrightarrow> ordered v xs"
  by (induction xs) (auto simp: ordered_Cons)

lemma ordered_split_less:
  "ordered u (xs @ y # ys) \<Longrightarrow> x \<in> set xs \<Longrightarrow> x + u x < y"
proof (induction xs)
  case (Cons z zs)
  then show ?case using ordered_less [of u z "zs @ y # ys" y] by (auto simp: ordered_Cons)
qed simp

section \<open>Freeing\<close>

lemma free_point_before:
  assumes "sseg h (arena h) (us @ vs) (arena h)" "ordered (sunits h) (arena h # us @ vs)"
    and "arena h < b" "\<forall>x \<in> set us. x < b" "\<forall>x \<in> set vs. b < x"
    and "arena h # us = zs @ c # ys"
  shows "free_point h b c = Some (last (arena h # us))"
  using assms(6)
proof (induction ys arbitrary: zs c)
  case Nil
  have c: "c = last (arena h # us)" using Nil by simp
  have cb: "c < b" using c assms(3,4) last_in_set [of "arena h # us"] by auto
  show ?case
  proof (cases vs)
    case Nil
    then have "snext h c = arena h" using sseg_last [OF assms(1)] c by simp
    moreover have "arena h \<le> c" using c assms(2) ordered_less [of "sunits h" "arena h" us c]
        ordered_append [of "sunits h" "arena h # us" vs] last_in_set [of us] by (cases "us = []") fastforce+
    ultimately show ?thesis using cb c by (subst free_point.simps) auto
  next
    case (Cons v vs')
    then have "sseg h (arena h) us v" using assms(1) by (simp add: sseg_append)
    then have "snext h c = v" using sseg_last c by blast
    then show ?thesis using cb c assms(5) Cons by (subst free_point.simps) auto
  qed
next
  case (Cons y ys)
  have d: "c < y"
  proof -
    have e: "arena h # us @ vs = (zs @ [c]) @ y # ys @ vs"
      using arg_cong [OF Cons.prems, of "\<lambda>l. l @ vs"] by simp
    have "ordered (sunits h) ((zs @ [c]) @ y # ys @ vs)"
      using assms(2) by (simp only: e)
    from ordered_split_less [OF this, of c] show ?thesis by simp
  qed
  have y: "y \<in> set us" using Cons.prems by (cases zs) auto
  have "snext h c = y"
  proof (cases zs)
    case Nil
    then show ?thesis using Cons.prems assms(1) by (auto simp: sseg_append)
  next
    case (Cons z zs')
    then have "us @ vs = (zs' @ [c]) @ y # (ys @ vs)" using Cons.prems by simp
    then have "sseg h (arena h) (zs' @ [c]) y" using assms(1) by (simp only: sseg_append)
    then show ?thesis using sseg_last [of h "arena h" "zs' @ [c]" y] by simp
  qed
  moreover have "free_point h b y = Some (last (arena h # us))"
    using Cons.IH [of "zs @ [c]" y] Cons.prems by simp
  ultimately show ?case using d y assms(4) by (subst free_point.simps) auto
qed

lemma free_point_after:
  assumes "sseg h (arena h) (us @ vs) (arena h)" "ordered (sunits h) (arena h # us @ vs)"
    and "arena h < b" "\<forall>x \<in> set us. x < b" "\<forall>x \<in> set vs. b < x"
    and "vs = zs @ c # ys"
  shows "free_point h b c = Some (last (arena h # us))"
  using assms(6)
proof (induction ys arbitrary: zs c)
  case Nil
  have "snext h c = arena h" using sseg_last [OF assms(1)] Nil by simp
  moreover have "free_point h b (arena h) = Some (last (arena h # us))"
    by (rule free_point_before [OF assms(1-5), of "[]" _ us]) simp
  moreover have "b < c" "arena h < c" using assms(3,5) Nil by auto
  ultimately show ?case using assms(3) by (subst free_point.simps) auto
next
  case (Cons y ys)
  have "us @ vs = (us @ zs @ [c]) @ y # ys" using Cons.prems by simp
  then have "sseg h (arena h) (us @ zs @ [c]) y" using assms(1) by (simp only: sseg_append)
  then have "snext h c = y" using sseg_last [of h "arena h" "us @ zs @ [c]" y] by simp
  moreover have "ordered (sunits h) ((arena h # us @ zs @ [c]) @ y # ys)" using assms(2) Cons.prems by simp
  from ordered_split_less [OF this, of c] have "c < y" by simp
  moreover have "b < c" using assms(5) Cons.prems by simp
  moreover have "free_point h b y = Some (last (arena h # us))"
    using Cons.IH [of "zs @ [c]" y] Cons.prems by simp
  ultimately show ?case by (subst free_point.simps) auto
qed

text \<open>The blocks below and above an address that is in none of them.\<close>

lemma split_blocks:
  assumes "ordered u bs" and "b \<notin> set bs"
  shows "\<exists>us vs. bs = us @ vs \<and> (\<forall>x \<in> set us. x < b) \<and> (\<forall>x \<in> set vs. b < (x::nat))"
proof -
  let ?us = "takeWhile (\<lambda>x. x < b) bs" let ?vs = "dropWhile (\<lambda>x. x < b) bs"
  have "\<forall>x \<in> set ?vs. b < x"
  proof (cases ?vs)
    case Nil
    then show ?thesis by (simp only: list.set) simp
  next
    case (Cons v vs')
    then have "\<not> v < b" "v \<in> set bs"
      by (metis hd_dropWhile list.distinct(1) list.sel(1), metis list.set_intros(1) set_dropWhileD)
    then have "b < v" using assms(2) by (metis nat_neq_iff)
    moreover have "ordered u (v # vs')"
      using assms(1) ordered_append [of u ?us ?vs] Cons by (metis takeWhile_dropWhile_id)
    ultimately show ?thesis using ordered_less [of u v vs'] Cons by fastforce
  qed
  moreover have "\<forall>x \<in> set ?us. x < b" by (auto dest: set_takeWhileD)
  ultimately show ?thesis using takeWhile_dropWhile_id by metis
qed

text \<open>Joining the block with the free blocks \<open>vs\<close> above it.\<close>

lemma slob_free_units_simps [simp]:
  "slob_free_units h [] = {}"
  "slob_free_units h (x # xs) = blk (sunits h) x \<union> slob_free_units h xs"
  "slob_free_units h (xs @ ys) = slob_free_units h xs \<union> slob_free_units h ys"
  by (auto simp: slob_free_units_def)

lemma slob_free_units_cong:
  "(\<And>x. x \<in> set xs \<Longrightarrow> sunits h' x = sunits h x) \<Longrightarrow> slob_free_units h' xs = slob_free_units h xs"
  by (simp add: slob_free_units_def blk_def)

lemma blk_disjoint_end:
  assumes "blk u b \<inter> blk u v = {}" "b < v" "0 < u v" shows "b + u b \<le> v"
proof (rule ccontr)
  assume "\<not> b + u b \<le> v"
  then have "v \<in> blk u b \<inter> blk u v" using assms(2,3) by (simp add: blk_def)
  then show False using assms(1) by simp
qed

lemma join_next_frame:
  "x \<noteq> b \<Longrightarrow> snext (join_next b nx h) x = snext h x" "x \<noteq> b \<Longrightarrow> sunits (join_next b nx h) x = sunits h x"
  "arena (join_next b nx h) = arena h" "pmm (join_next b nx h) = pmm h"
  by (simp_all add: join_next_def)

lemma join_next_ok:
  assumes seg: "vs \<noteq> [] \<Longrightarrow> sseg h (hd vs) (tl vs) a" and ord: "ordered (sunits h) vs"
    and b: "a < b" "0 < sunits h b" "\<forall>x \<in> set vs. b < x"
    and dis: "blk (sunits h) b \<inter> slob_free_units h vs = {}"
    and h1: "h1 = join_next b (hd (vs @ [a])) h"
  shows "\<exists>vs'. sseg h1 b vs' a \<and> ordered (sunits h1) (b # vs') \<and> set vs' \<subseteq> set vs \<and>
    slob_free_units h1 (b # vs') = blk (sunits h) b \<union> slob_free_units h vs"
proof (cases vs)
  case Nil
  then show ?thesis using b h1 by (intro exI [of _ "[]"]) (simp add: join_next_def blk_def)
next
  case (Cons v ws)
  have v: "b < v" "b \<notin> set ws" "sseg h v ws a" "ordered (sunits h) (v # ws)" using Cons b(3) seg ord by auto
  have "b + sunits h b \<le> v"
    using blk_disjoint_end [of "sunits h" b v] dis v(1,4) Cons by (auto simp: ordered_Cons)
  note n1 = join_next_frame [where b = b and nx = "hd (vs @ [a])" and h = h, folded h1]
  have ws0: "\<And>x. x \<in> set ws \<Longrightarrow> sunits h1 x = sunits h x" by (rule n1(2)) (use v(2) in auto)
  have ws: "ordered (sunits h1) ws" "slob_free_units h1 ws = slob_free_units h ws"
    using v(4) ordered_cong [OF _ ws0] slob_free_units_cong [OF ws0] by (auto simp: ordered_Cons)
  show ?thesis
  proof (cases "b + sunits h b = v")
    case True
    then have s: "snext h1 b = snext h v" "sunits h1 b = sunits h b + sunits h v"
      using h1 Cons by (simp_all add: join_next_def)
    have "sseg h1 b ws a" by (rule sseg_head [OF v(3) s(1)], rule n1(1)) (use v(2) in auto)
    moreover have "ordered (sunits h1) (b # ws)"
      using ws(1) s(2) b(2) v(4) True by (auto simp: ordered_Cons)
    moreover have "blk (sunits h1) b = blk (sunits h) b \<union> blk (sunits h) v"
      using s(2) True by (auto simp: blk_def)
    ultimately show ?thesis using Cons ws(2) by (intro exI [of _ ws]) auto
  next
    case False
    then have s: "snext h1 b = v" "sunits h1 = sunits h" using h1 Cons by (simp_all add: join_next_def)
    have "sseg h1 v ws a" by (rule sseg_cong [OF v(3)], rule n1(1)) (use v(1,2) in auto)
    moreover have "ordered (sunits h1) (b # v # ws)"
      using v(4) s(2) b(2) False \<open>b + sunits h b \<le> v\<close> by (simp add: ordered_Cons)
    ultimately show ?thesis using Cons s by (intro exI [of _ "v # ws"]) (simp add: slob_free_units_def)
  qed
qed

text \<open>Joining it with the free blocks \<open>us\<close> below it.\<close>

lemma join_prev_ok:
  assumes segu: "sseg h a us q" and du: "distinct (a # us @ b # vs)" and ou: "ordered (sunits h) (a # us)"
    and segb: "sseg h b vs a" and ob: "ordered (sunits h) (b # vs)"
    and end_le: "us \<noteq> [] \<Longrightarrow> last us + sunits h (last us) \<le> b" and ea: "a + sunits h a < b"
    and h2: "h2 = join_prev (last (a # us)) b h"
  shows "\<exists>bs. sseg h2 a bs a \<and> ordered (sunits h2) (a # bs) \<and> last (a # us) \<in> set (a # bs) \<and>
    slob_free_units h2 bs = slob_free_units h us \<union> slob_free_units h (b # vs) \<and>
    sunits h2 a = sunits h a"
proof (cases "last (a # us) + sunits h (last (a # us)) = b")
  case True
  then have "us \<noteq> []" using ea by auto
  then obtain ws t where w: "us = ws @ [t]" by (auto intro: rev_exhaust [of us])
  have tb: "t + sunits h t = b" using True w by simp
  have s: "snext h2 t = snext h b" "sunits h2 t = sunits h t + sunits h b"
    "\<And>x. x \<noteq> t \<Longrightarrow> snext h2 x = snext h x" "\<And>x. x \<noteq> t \<Longrightarrow> sunits h2 x = sunits h x"
    using h2 True w by (auto simp: join_prev_def)
  have hd1: "snext h b = hd (vs @ [a])" using segb by (cases vs) auto
  have "sseg h2 a us (hd (vs @ [a]))"
    by (rule sseg_relink [OF segu]) (use du s w hd1 in auto)
  moreover have "sseg h2 t vs a"
    by (rule sseg_head [OF segb s(1)], rule s(3)) (use du w in auto)
  ultimately have seg: "sseg h2 a (us @ vs) a" using w by (simp add: sseg_append_last)
  have "ordered (sunits h) ((a # ws) @ [t])" using ou w by simp
  then have o: "ordered (sunits h) (a # ws)" "last (a # ws) + sunits h (last (a # ws)) < t"
    unfolding ordered_append by auto
  have o1: "ordered (sunits h2) (a # ws)"
    by (rule ordered_cong [OF o(1)], rule s(4)) (use du w in auto)
  have o2: "last (a # ws) + sunits h2 (last (a # ws)) < t"
    using o(2) s(4) du w last_in_set [of "a # ws"] by auto
  have "ordered (sunits h) vs" using ob by (simp add: ordered_Cons)
  then have o3: "ordered (sunits h2) vs" by (rule ordered_cong, intro s(4)) (use du w in auto)
  then have "ordered (sunits h2) (t # vs)" using s(2) ob tb by (auto simp: ordered_Cons)
  then have "ordered (sunits h2) ((a # ws) @ t # vs)" unfolding ordered_append using o1 o2 by simp
  moreover have "slob_free_units h2 ws = slob_free_units h ws"
    by (rule slob_free_units_cong, rule s(4)) (use du w in auto)
  moreover have "slob_free_units h2 vs = slob_free_units h vs"
    by (rule slob_free_units_cong, rule s(4)) (use du w in auto)
  moreover have "blk (sunits h2) t = blk (sunits h) t \<union> blk (sunits h) b" using s(2) tb by (auto simp: blk_def)
  moreover have "sunits h2 a = sunits h a" using s(4) du w by auto
  ultimately show ?thesis using seg w by (intro exI [of _ "us @ vs"]) auto
next
  case False
  let ?t = "last (a # us)"
  have s: "sunits h2 = sunits h" "snext h2 ?t = b" "\<And>x. x \<noteq> ?t \<Longrightarrow> snext h2 x = snext h x"
    using h2 False by (auto simp: join_prev_def)
  have t: "?t \<notin> set (b # vs)" using du last_in_set [of "a # us"] by auto
  have "sseg h2 a us b" by (rule sseg_relink [OF segu]) (use du s in auto)
  moreover have "sseg h2 b vs a" by (rule sseg_cong [OF segb], rule s(3)) (use t in auto)
  ultimately have "sseg h2 a (us @ b # vs) a" by (simp add: sseg_append)
  moreover have "?t + sunits h ?t < b" using False end_le ea by (cases "us = []") auto
  then have "ordered (sunits h2) ((a # us) @ b # vs)" unfolding s(1) ordered_append using ou ob by simp
  ultimately show ?thesis using s(1) by (intro exI [of _ "us @ b # vs"]) (auto simp: slob_free_units_def)
qed

text \<open>
  Inserting a block that overlaps no free block and does not touch the arena sentinel: the list is
  intact and coalesced again and covers the old units and those of the block.
\<close>

lemma slob_insert_ok:
  assumes seg: "sseg h (arena h) (us @ vs) (arena h)" and ord: "ordered (sunits h) (arena h # us @ vs)"
    and ar: "sunits h (arena h) = 1" "arena h + 1 < b"
    and us: "\<forall>x \<in> set us. x < b" and vs: "\<forall>x \<in> set vs. b < x" and pos: "0 < sunits h b"
    and dis: "blk (sunits h) b \<inter> slob_free_units h (us @ vs) = {}"
    and h2: "h2 = slob_insert b (last (arena h # us)) h"
  shows "\<exists>bs. slob_inv h2 bs \<and> slob_free_units h2 bs = slob_free_units h (us @ vs) \<union> blk (sunits h) b \<and>
    arena h2 = arena h \<and> pmm h2 = pmm h"
proof -
  let ?a = "arena h" and ?t = "last (arena h # us)"
  have segu: "sseg h ?a us (hd (vs @ [?a]))" and segv: "vs \<noteq> [] \<Longrightarrow> sseg h (hd vs) (tl vs) ?a"
    using seg by (cases vs; simp add: sseg_append)+
  have nx: "snext h ?t = hd (vs @ [?a])" using sseg_last [OF segu] .
  have dd: "distinct (?a # us @ vs)" "b \<notin> set (?a # us @ vs)" using ordered_distinct [OF ord] us vs ar(2) by auto
  have ou: "ordered (sunits h) (?a # us)" "ordered (sunits h) vs"
    using ord ordered_append [of "sunits h" "?a # us" vs] by auto
  define h1 where "h1 = join_next b (hd (vs @ [?a])) h"
  have "?a < b" "blk (sunits h) b \<inter> slob_free_units h vs = {}" using ar dis by auto
  from join_next_ok [OF segv ou(2) this(1) pos vs this(2) h1_def] obtain vs' where
    v: "sseg h1 b vs' ?a" "ordered (sunits h1) (b # vs')" "set vs' \<subseteq> set vs"
    "slob_free_units h1 (b # vs') = blk (sunits h) b \<union> slob_free_units h vs" by blast
  note n1 = join_next_frame [where b = b and nx = "hd (vs @ [arena h])" and h = h, folded h1_def]
  have tin: "?t \<in> set (?a # us)" using last_in_set [of "?a # us"] by blast
  have s1: "sseg h1 ?a us (hd (vs @ [?a]))" by (rule sseg_cong [OF segu], rule n1(1)) (use dd in auto)
  have o1: "ordered (sunits h1) (?a # us)" by (rule ordered_cong [OF ou(1)], rule n1(2)) (use dd in auto)
  have d1: "distinct (?a # us @ b # vs')" using dd v(2,3) ordered_distinct [OF v(2)] by auto
  have e1: "last us + sunits h1 (last us) \<le> b" if "us \<noteq> []"
  proof -
    have l: "last us \<in> set us" using that by simp
    then have "last us < b" "last us \<noteq> b" using us by auto
    moreover have "blk (sunits h) (last us) \<subseteq> slob_free_units h us" using l by (auto simp: slob_free_units_def)
    ultimately show ?thesis using blk_disjoint_end [of "sunits h" "last us" b] dis pos n1(2) by auto
  qed
  have e2: "?a + sunits h1 ?a < b" using ar n1(2) [of ?a] by auto
  define h' where "h' = join_prev ?t b h1"
  from join_prev_ok [OF s1 d1 o1 v(1,2) e1 e2 h'_def] obtain bs where
    w: "sseg h' ?a bs ?a" "ordered (sunits h') (?a # bs)" "?t \<in> set (?a # bs)"
    "slob_free_units h' bs = slob_free_units h1 us \<union> slob_free_units h1 (b # vs')"
    "sunits h' ?a = sunits h1 ?a" by blast
  have e: "h2 = h'\<lparr>slobfree := ?t\<rparr>" using h2 nx by (simp add: slob_insert_def h'_def h1_def)
  have ar2: "arena h2 = ?a" "pmm h2 = pmm h"
    using e n1(3,4) by (simp_all add: h'_def join_prev_def)
  have c: "sseg h2 ?a bs ?a" by (rule sseg_cong [OF w(1)]) (simp add: e)
  have "slob_inv h2 bs"
    unfolding slob_inv_def ar2 using c w ar n1(2) [of ?a] by (simp add: e)
  moreover have "slob_free_units h1 us = slob_free_units h us"
    by (rule slob_free_units_cong, rule n1(2)) (use dd in auto)
  then have "slob_free_units h2 bs = slob_free_units h (us @ vs) \<union> blk (sunits h) b"
    using w(4) v(4) by (simp add: e slob_free_units_def) blast
  ultimately show ?thesis using ar2 by blast
qed

text \<open>
  \<open>slob_free\<close> of a block that overlaps no free block ends, whatever block the roving pointer is at.
\<close>

definition sized :: "nat \<Rightarrow> nat \<Rightarrow> slob \<Rightarrow> slob" where
  "sized b sz h = (if sz \<noteq> 0 then set_units b (SLOB_UNITS sz) h else h)"

lemma slob_inv_frame:
  assumes "slob_inv h bs" "b \<notin> set (arena h # bs)"
  shows "slob_inv (set_units b u h) bs" "slob_free_units (set_units b u h) bs = slob_free_units h bs"
proof -
  have "ordered ((sunits h)(b := u)) (arena h # bs)"
    by (rule ordered_cong [of "sunits h"]) (use assms in \<open>auto simp: slob_inv_def\<close>)
  moreover have "sseg (set_units b u h) (arena h) bs (arena h)"
    by (rule sseg_cong [of h]) (use assms in \<open>auto simp: slob_inv_def\<close>)
  ultimately show "slob_inv (set_units b u h) bs" using assms by (auto simp: slob_inv_def)
  show "slob_free_units (set_units b u h) bs = slob_free_units h bs"
    by (rule slob_free_units_cong) (use assms in auto)
qed

lemma slob_free_ok:
  assumes inv: "slob_inv h bs" and b: "arena h + 1 < b" "0 < sunits (sized b sz h) b"
    and dis: "blk (sunits (sized b sz h)) b \<inter> slob_free_units h bs = {}"
  shows "\<exists>h2 cs. slob_free b sz h = Some h2 \<and> slob_inv h2 cs \<and> arena h2 = arena h \<and> pmm h2 = pmm h \<and>
    slob_free_units h2 cs = slob_free_units h bs \<union> blk (sunits (sized b sz h)) b"
proof -
  let ?h = "sized b sz h"
  have pos: "\<forall>x \<in> set bs. 0 < sunits h x" using inv ordered_pos [of "sunits h" "arena h # bs"] by (auto simp: slob_inv_def)
  have bn: "b \<notin> set bs"
  proof
    assume "b \<in> set bs"
    then have "b \<in> slob_free_units h bs" using pos by (auto simp: slob_free_units_def blk_def)
    moreover have "b \<in> blk (sunits ?h) b" using b(2) by (simp add: blk_def)
    ultimately show False using dis by blast
  qed
  then have i: "slob_inv ?h bs" "slob_free_units ?h bs = slob_free_units h bs" "arena ?h = arena h" "pmm ?h = pmm h"
    using inv b(1) slob_inv_frame [OF inv, of b] by (auto simp: sized_def)
  have o: "ordered (sunits ?h) (arena ?h # bs)" "sseg ?h (arena ?h) bs (arena ?h)" "sunits ?h (arena ?h) = 1"
    "slobfree ?h \<in> set (arena ?h # bs)" using i(1) by (auto simp: slob_inv_def)
  from o(1) have "ordered (sunits ?h) bs" by (simp add: ordered_Cons)
  from split_blocks [OF this bn] obtain us vs where s: "bs = us @ vs" "\<forall>x \<in> set us. x < b" "\<forall>x \<in> set vs. b < x" by blast
  have fp: "free_point ?h b (slobfree ?h) = Some (last (arena ?h # us))"
  proof (cases "slobfree ?h \<in> set (arena ?h # us)")
    case True
    then obtain zs ys where "arena ?h # us = zs @ slobfree ?h # ys" by (meson split_list)
    from free_point_before [OF _ _ _ s(2,3) this] show ?thesis using o b i(3) s(1) by simp
  next
    case False
    then have "slobfree ?h \<in> set vs" using o(4) s(1) by auto
    then obtain zs ys where "vs = zs @ slobfree ?h # ys" by (meson split_list)
    from free_point_after [OF _ _ _ s(2,3) this] show ?thesis using o b i(3) s(1) by simp
  qed
  have "slob_free b sz h = Some (slob_insert b (last (arena ?h # us)) ?h)"
    using fp by (simp add: slob_free_def sized_def Let_def)
  moreover have "\<exists>cs. slob_inv (slob_insert b (last (arena ?h # us)) ?h) cs \<and>
      slob_free_units (slob_insert b (last (arena ?h # us)) ?h) cs = slob_free_units ?h (us @ vs) \<union> blk (sunits ?h) b \<and>
      arena (slob_insert b (last (arena ?h # us)) ?h) = arena ?h \<and>
      pmm (slob_insert b (last (arena ?h # us)) ?h) = pmm ?h"
    by (rule slob_insert_ok [OF _ _ o(3) _ s(2,3) b(2) _ refl]) (use o b i s dis in auto)
  ultimately show ?thesis using s(1) i by auto
qed

section \<open>Allocating\<close>

lemma slob_inv_distinct: "slob_inv h bs \<Longrightarrow> distinct (arena h # bs)"
  using ordered_distinct unfolding slob_inv_def by blast

lemma slob_inv_prev:
  assumes "slob_inv h bs" "p \<in> set (arena h # bs)" "c \<in> set bs" "snext h p = c"
  shows "\<exists>us vs. bs = us @ c # vs \<and> p = last (arena h # us)"
proof -
  have seg: "sseg h (arena h) bs (arena h)" and d: "distinct (arena h # bs)"
    using assms(1) slob_inv_distinct [OF assms(1)] by (auto simp: slob_inv_def)
  obtain us vs where b: "bs = us @ c # vs" using assms(3) by (meson split_list)
  have c: "snext h (last (arena h # us)) = c" using sseg_last seg b sseg_append by metis
  obtain zs ws where z: "arena h # bs = zs @ p # ws" using assms(2) by (meson split_list)
  show ?thesis
  proof (cases ws)
    case Nil
    then have "p = last (arena h # bs)" using z by simp
    then have "c = arena h" using sseg_last [OF seg] assms(4) by simp
    then show ?thesis using d assms(3) by simp
  next
    case (Cons y ys)
    have "sseg h p ws (arena h)"
      using seg z by (cases zs) (auto simp: sseg_append)
    then have "y = c" using Cons assms(4) by simp
    then have e: "(zs @ [p]) @ c # ys = (arena h # us) @ c # vs" using z Cons b by simp
    have "c \<notin> set (zs @ [p])"
    proof
      assume "c \<in> set (zs @ [p])"
      then have "\<not> distinct ((zs @ [p]) @ c # ys)" by auto
      moreover have "distinct ((zs @ [p]) @ c # ys)" unfolding e using d b by simp
      ultimately show False by blast
    qed
    moreover have "c \<notin> set (arena h # us)" using d b by auto
    moreover have "c \<notin> set vs" using d b by auto
    ultimately have "zs @ [p] = arena h # us" using e append_Cons_eq_iff [of c "arena h # us" vs "zs @ [p]" ys] by metis
    then have "p = last (arena h # us)" by (metis last_snoc)
    then show ?thesis using b by blast
  qed
qed

lemma slob_take_ok:
  assumes inv: "slob_inv h bs" and b: "bs = us @ c # vs" "p = last (arena h # us)"
    and u: "0 < u" "u \<le> sunits h c" and t: "slob_take u 0 p c h = (r, h2)"
  shows "r = c \<and> arena h2 = arena h \<and> pmm h2 = pmm h \<and> sunits h2 c = u \<and>
    (\<exists>cs. slob_inv h2 cs \<and> slob_free_units h2 cs = slob_free_units h bs - {c..<c + u})"
proof -
  let ?a = "arena h"
  have seg: "sseg h ?a us c" "sseg h c vs ?a" and ord: "ordered (sunits h) (?a # us @ c # vs)"
    and d: "distinct (?a # us @ c # vs)" and ar: "sunits h ?a = 1"
    using inv b(1) slob_inv_distinct [OF inv] by (auto simp: slob_inv_def sseg_append)
  have o: "ordered (sunits h) (?a # us)" "ordered (sunits h) (c # vs)" "p + sunits h p < c"
    using ord ordered_append [of "sunits h" "?a # us" "c # vs"] b(2) by auto
  have pin: "p \<in> set (?a # us)" using b(2) last_in_set [of "?a # us"] by simp
  have below: "x + sunits h x < c" if "x \<in> set us" for x
    using ordered_split_less [of "sunits h" "?a # us" c vs x] ord that by simp
  have above: "c + sunits h c < y" if "y \<in> set vs" for y using ordered_less [OF o(2) that] .
  have blks: "slob_free_units h us \<inter> {c..} = {}" "slob_free_units h vs \<inter> {..<c + sunits h c} = {}"
    using below above by (fastforce simp: slob_free_units_def blk_def)+
  have pc: "p \<noteq> c" using o(3) by simp
  have sl: "r = c" "arena h2 = ?a" "pmm h2 = pmm h" "slobfree h2 = p"
    using t by (auto simp: slob_take_def Let_def split: if_splits)
  show ?thesis
  proof (cases "sunits h c = u")
    case True
    then have s: "snext h2 = (snext h)(p := snext h c)" "sunits h2 = sunits h"
      using t by (auto simp: slob_take_def Let_def)
    have "snext h c = hd (vs @ [?a])" using seg(2) by (cases vs) auto
    then have "sseg h2 ?a us (hd (vs @ [?a]))"
      by (intro sseg_relink [OF seg(1)]) (use d b(2) s in auto)
    moreover have "sseg h2 p vs ?a" by (rule sseg_head [OF seg(2)]) (use s d pin in auto)
    ultimately have "sseg h2 ?a (us @ vs) ?a" using b(2) by (simp add: sseg_append_last)
    moreover have "ordered (sunits h) ((?a # us) @ vs)"
      unfolding ordered_append using o b(2) above [of "hd vs"] by (auto simp: ordered_Cons)
    ultimately have "slob_inv h2 (us @ vs)"
      unfolding slob_inv_def sl using s ar pin by auto
    moreover have "slob_free_units h2 (us @ vs) = slob_free_units h bs - {c..<c + u}"
      using blks s(2) b(1) True by (auto simp: slob_free_units_def blk_def)
    ultimately show ?thesis using sl s True by metis
  next
    case False
    let ?n = "c + u"
    have n: "?n \<notin> set (?a # us @ c # vs)" "?n < c + sunits h c"
      using u False below above o(1,3) pin ord ordered_split_less [of "sunits h" "?a # us" c vs ?a] by fastforce+
    have s: "snext h2 = (snext h)(p := ?n, ?n := snext h c)"
      "sunits h2 = (sunits h)(?n := sunits h c - u, c := u)"
      using t False n pin b(2) u(1) pc by (auto simp: slob_take_def Let_def)
    have pn: "p \<noteq> ?n" using pin n(1) by auto
    have "sseg h2 ?a us ?n" by (rule sseg_relink [OF seg(1)]) (use d b(2) s n pn in auto)
    moreover have "sseg h2 ?n vs ?a" by (rule sseg_head [OF seg(2)]) (use s d pin n in auto)
    ultimately have 1: "sseg h2 ?a (us @ ?n # vs) ?a" by (simp add: sseg_append)
    have "ordered (sunits h2) (?a # us)" by (rule ordered_cong [OF o(1)]) (use s n d in auto)
    moreover have "ordered (sunits h2) vs"
      by (rule ordered_cong [of "sunits h"]) (use o(2) s n d in \<open>auto simp: ordered_Cons\<close>)
    then have "ordered (sunits h2) (?n # vs)" using s n o(2) u by (auto simp: ordered_Cons)
    moreover have "p + sunits h2 p < ?n" using o(3) s pin n pc by auto
    ultimately have "ordered (sunits h2) ((?a # us) @ ?n # vs)" unfolding ordered_append using b(2) by simp
    then have "slob_inv h2 (us @ ?n # vs)"
      unfolding slob_inv_def sl using 1 s n ar d pin by auto
    moreover have "slob_free_units h2 us = slob_free_units h us" "slob_free_units h2 vs = slob_free_units h vs"
      using s n d by (auto simp: slob_free_units_def blk_def split: if_splits)
    then have "slob_free_units h2 (us @ ?n # vs) = slob_free_units h bs - {c..<c + u}"
      using blks b(1) n s(2) u by (auto simp: blk_def)
    moreover have "sunits h2 c = u" using s(2) by simp
    ultimately show ?thesis using sl \<open>slob_inv h2 (us @ ?n # vs)\<close> by blast
  qed
qed

text \<open>The ring of blocks seen from the roving pointer.\<close>

lemma slob_ring:
  assumes "slob_inv h bs"
  shows "\<exists>ys. sseg h (slobfree h) ys (slobfree h) \<and> slobfree h \<notin> set ys \<and>
    set (slobfree h # ys) = set (arena h # bs)"
proof -
  have seg: "sseg h (arena h) bs (arena h)" and d: "distinct (arena h # bs)"
    and s: "slobfree h \<in> set (arena h # bs)"
    using assms slob_inv_distinct [OF assms] by (auto simp: slob_inv_def)
  obtain zs vs where z: "arena h # bs = zs @ slobfree h # vs" using s by (meson split_list)
  show ?thesis
  proof (cases zs)
    case Nil
    then show ?thesis using seg z d by (intro exI [of _ bs]) auto
  next
    case (Cons a zs')
    then have e: "bs = zs' @ slobfree h # vs" "a = arena h" using z by auto
    then have "sseg h (slobfree h) (vs @ arena h # zs') (slobfree h)"
      using seg by (simp add: sseg_append)
    then show ?thesis using e d by (intro exI [of _ "vs @ arena h # zs'"]) auto
  qed
qed

lemma slob_search_hit:
  assumes "sseg h prv ys (slobfree h)" "slobfree h \<notin> set ys" "\<exists>x \<in> set (ys @ [slobfree h]). u \<le> sunits h x"
  shows "\<exists>p c r h2. p \<in> set (prv # ys) \<and> c \<in> set (ys @ [slobfree h]) \<and> snext h p = c \<and> u \<le> sunits h c \<and>
    slob_take u 0 p c h = (r, h2) \<and> slob_search alloc sz u 0 prv (snext h prv) h = Some (Some r, h2)"
  using assms
proof (induction ys arbitrary: prv)
  case Nil
  then show ?case by (subst slob_search.simps) (auto split: prod.splits)
next
  case (Cons y ys)
  show ?case
  proof (cases "u \<le> sunits h y")
    case True
    then show ?thesis using Cons.prems
      by (subst slob_search.simps) (auto split: prod.splits intro!: exI [of _ prv])
  next
    case False
    with Cons.prems Cons.IH [of y] obtain p c r h2 where
      *: "p \<in> set (y # ys)" "c \<in> set (ys @ [slobfree h])" "snext h p = c" "u \<le> sunits h c"
      "slob_take u 0 p c h = (r, h2)" "slob_search alloc sz u 0 y (snext h y) h = Some (Some r, h2)" by auto
    have "snext h prv = y" "y \<noteq> slobfree h" using Cons.prems by auto
    then have "slob_search alloc sz u 0 prv (snext h prv) h = Some (Some r, h2)"
      using * False by (subst slob_search.simps) simp
    then show ?thesis using * by (intro exI [of _ p] exI [of _ c] exI [of _ r] exI [of _ h2]) auto
  qed
qed

lemma slob_search_miss:
  assumes "sseg h prv ys (slobfree h)" "slobfree h \<notin> set ys" "\<forall>x \<in> set (ys @ [slobfree h]). sunits h x < u"
    and "sz \<noteq> PAGE_SIZE"
  shows "slob_search alloc sz u 0 prv (snext h prv) h = do {
     (page, h1) \<leftarrow> slob_get_free_pages alloc 0 h;
     (case page of
        None \<Rightarrow> Some (None, h1)
      | Some c \<Rightarrow> do {
          h2 \<leftarrow> slob_free c PAGE_SIZE h1;
          slob_search alloc sz u 0 (slobfree h2) (snext h2 (slobfree h2)) h2
        })
   }"
  using assms(1-3)
proof (induction ys arbitrary: prv)
  case Nil
  then show ?case using assms(4) by (subst slob_search.simps) simp
next
  case (Cons y ys)
  then have "snext h prv = y" "\<not> u \<le> sunits h y" "y \<noteq> slobfree h" by auto
  moreover have "slob_search alloc sz u 0 y (snext h y) h = do {
     (page, h1) \<leftarrow> slob_get_free_pages alloc 0 h;
     (case page of
        None \<Rightarrow> Some (None, h1)
      | Some c \<Rightarrow> do {
          h2 \<leftarrow> slob_free c PAGE_SIZE h1;
          slob_search alloc sz u 0 (slobfree h2) (snext h2 (slobfree h2)) h2
        })
   }" by (rule Cons.IH) (use Cons.prems in auto)
  ultimately show ?case by (subst slob_search.simps) simp
qed

text \<open>
  The heap and its page manager: the free list is intact, no free page of the manager lies in a free
  block, and the sentinel lies below all pages.
\<close>

definition page_units :: "nat set \<Rightarrow> nat set" where
  "page_units F = (\<Union>p \<in> F. {page2kva_unit p..<page2kva_unit p + 256})"

definition heap_inv :: "slob \<Rightarrow> nat list \<Rightarrow> nat set \<Rightarrow> bool" where
  "heap_inv h bs F \<longleftrightarrow> slob_inv h bs \<and> slob_free_units h bs \<inter> page_units F = {} \<and>
     arena h + 1 < page2kva_unit 0"

lemma page_units_disjoint: "p \<notin> F \<Longrightarrow> {page2kva_unit p..<page2kva_unit p + 256} \<inter> page_units F = {}"
proof (rule ccontr)
  assume p: "p \<notin> F" and "{page2kva_unit p..<page2kva_unit p + 256} \<inter> page_units F \<noteq> {}"
  then obtain q x where "q \<in> F" and x: "page2kva_unit p \<le> x" "x < page2kva_unit p + 256"
    "page2kva_unit q \<le> x" "x < page2kva_unit q + 256" by (auto simp: page_units_def)
  define K :: nat where "K = 0xFFFFFFFC000000"
  have k: "K + 256 * p \<le> x" "x < K + 256 * p + 256" "K + 256 * q \<le> x" "x < K + 256 * q + 256"
    using x by (simp_all add: page2kva_unit_def K_def)
  have "\<not> p < q" using k by linarith
  moreover have "\<not> q < p" using k by linarith
  ultimately have "p = q" by simp
  then show False using p \<open>q \<in> F\<close> by simp
qed

lemma page_units_split: "p \<in> F \<Longrightarrow> page_units F = page_units (F - {p}) \<union> {page2kva_unit p..<page2kva_unit p + 256}"
  by (auto simp: page_units_def)

lemma slob_units_page: "SLOB_UNITS PAGE_SIZE = 256"
  by (simp add: SLOB_UNITS_def PAGE_SIZE_def SLOB_UNIT_def)

text \<open>A refill adds a whole page to the free list; a block of 256 units is then there to be found.\<close>

lemma slob_free_page_ok:
  assumes h: "heap_inv h bs F" and p: "p \<in> F" and h1: "h1 = h\<lparr>pmm := f\<rparr>"
  shows "\<exists>h2 cs. slob_free (page2kva_unit p) PAGE_SIZE h1 = Some h2 \<and> heap_inv h2 cs (F - {p}) \<and>
    pmm h2 = f \<and> arena h2 = arena h \<and>
    slob_free_units h2 cs = slob_free_units h bs \<union> {page2kva_unit p..<page2kva_unit p + 256}"
proof -
  let ?b = "page2kva_unit p"
  have u: "blk (sunits (sized ?b PAGE_SIZE h1)) ?b = {?b..<?b + 256}" "0 < sunits (sized ?b PAGE_SIZE h1) ?b"
  proof -
    have "PAGE_SIZE \<noteq> 0" by (simp add: PAGE_SIZE_def)
    then have "sunits (sized ?b PAGE_SIZE h1) ?b = 256" by (simp add: sized_def slob_units_page)
    then show "blk (sunits (sized ?b PAGE_SIZE h1)) ?b = {?b..<?b + 256}"
      "0 < sunits (sized ?b PAGE_SIZE h1) ?b" by (simp_all add: blk_def)
  qed
  have i: "slob_inv h1 bs" "slob_free_units h1 bs = slob_free_units h bs" "arena h1 = arena h"
  proof -
    have "sseg h1 (arena h) bs (arena h)" by (rule sseg_cong [of h]) (use h in \<open>auto simp: heap_inv_def slob_inv_def h1\<close>)
    then show "slob_inv h1 bs" using h by (auto simp: heap_inv_def slob_inv_def h1)
  qed (auto simp: h1 slob_free_units_def)
  have "page2kva_unit 0 \<le> ?b" by (simp only: page2kva_unit_def add_le_cancel_left)
  then have a: "arena h1 + 1 < ?b" using h i(3) unfolding heap_inv_def by linarith
  have d: "{?b..<?b + 256} \<inter> slob_free_units h bs = {}"
    using h page_units_split [OF p] unfolding heap_inv_def by blast
  from slob_free_ok [OF i(1) a u(2), unfolded u(1) i(2), OF d] obtain h2 cs where
    s: "slob_free ?b PAGE_SIZE h1 = Some h2" "slob_inv h2 cs" "arena h2 = arena h1" "pmm h2 = pmm h1"
    "slob_free_units h2 cs = slob_free_units h bs \<union> {?b..<?b + 256}" by blast
  have "{?b..<?b + 256} \<inter> page_units (F - {p}) = {}" by (rule page_units_disjoint) simp
  then have "slob_free_units h2 cs \<inter> page_units (F - {p}) = {}"
    using s(5) page_units_split [OF p] h unfolding heap_inv_def by blast
  then have "heap_inv h2 cs (F - {p})" using s(2,3) h i(3) by (simp add: heap_inv_def)
  then show ?thesis using s i(3) h1 by (intro exI [of _ h2] exI [of _ cs]) simp
qed

lemma free_run_in_block:
  assumes "ordered u xs" "{x..<x + n} \<subseteq> (\<Union>b \<in> set xs. blk u b)" "0 < n"
  shows "\<exists>b \<in> set xs. n \<le> u b"
proof -
  have "\<exists>b \<in> set xs. {x..<x + k} \<subseteq> blk u b" if "0 < k" "k \<le> n" for k
    using that
  proof (induction k)
    case (Suc k)
    show ?case
    proof (cases "k = 0")
      case True
      then show ?thesis using assms(2,3) by fastforce
    next
      case False
      then obtain b where b: "b \<in> set xs" "{x..<x + k} \<subseteq> blk u b" using Suc by auto
      then have "x + k - 1 \<in> blk u b" using False by auto
      then have bk: "b \<le> x" "x + k \<le> b + u b" using b(2) False by (auto simp: blk_def atLeastLessThan_subset_iff)
      have "x + k \<in> {x..<x + n}" using Suc.prems by simp
      then obtain c where c: "c \<in> set xs" "x + k \<in> blk u c" using assms(2) by blast
      have "c = b"
      proof (rule ccontr)
        assume ne: "c \<noteq> b"
        obtain us vs where "xs = us @ b # vs" using b(1) by (meson split_list)
        then have o: "c \<in> set us \<Longrightarrow> c + u c < b" "c \<in> set vs \<Longrightarrow> b + u b < c"
          using assms(1) ordered_split_less [of u us b vs c] ordered_less [of u b vs c] ordered_append [of u us "b # vs"]
          by auto
        then show False using ne c \<open>xs = us @ b # vs\<close> bk by (auto simp: blk_def)
      qed
      then show ?thesis using b(1) bk c(2) by (intro bexI [of _ b]) (auto simp: blk_def)
    qed
  qed simp
  from this [of n] assms(3) obtain b where "b \<in> set xs" "{x..<x + n} \<subseteq> {b..<b + u b}" by (auto simp: blk_def)
  then show ?thesis using assms(3) by (intro bexI [of _ b]) (auto simp: atLeastLessThan_subset_iff)
qed

text \<open>A search that finds a block: what is handed out was free, and is free no longer.\<close>

lemma slob_search_found:
  assumes h: "heap_inv h bs F" and u: "2 \<le> u" and b: "\<exists>b \<in> set bs. u \<le> sunits h b"
  shows "\<exists>c h2 cs. slob_search alloc sz u 0 (slobfree h) (snext h (slobfree h)) h = Some (Some c, h2) \<and>
    heap_inv h2 cs F \<and> pmm h2 = pmm h \<and> arena h2 = arena h \<and> sunits h2 c = u \<and> arena h + 1 < c \<and>
    {c..<c + u} \<subseteq> slob_free_units h bs \<and> slob_free_units h2 cs = slob_free_units h bs - {c..<c + u}"
proof -
  have i: "slob_inv h bs" using h by (simp add: heap_inv_def)
  from slob_ring [OF i] obtain ys where ys: "sseg h (slobfree h) ys (slobfree h)" "slobfree h \<notin> set ys"
    "set (slobfree h # ys) = set (arena h # bs)" by blast
  have "\<exists>x \<in> set (ys @ [slobfree h]). u \<le> sunits h x" using b ys(3) by (metis UnCI Un_commute list.set_intros(2) set_ConsD set_append list.set_intros(1))
  from slob_search_hit [OF ys(1,2) this] obtain p c r h2 where
    s: "p \<in> set (slobfree h # ys)" "c \<in> set (ys @ [slobfree h])" "snext h p = c" "u \<le> sunits h c"
    "slob_take u 0 p c h = (r, h2)"
    "slob_search alloc sz u 0 (slobfree h) (snext h (slobfree h)) h = Some (Some r, h2)" by metis
  have pa: "p \<in> set (arena h # bs)" using s(1) ys(3) by blast
  have "c \<in> set (arena h # bs)" using s(2) ys(3) by auto
  moreover have "c \<noteq> arena h" using s(4) u i by (auto simp: slob_inv_def)
  ultimately have cb: "c \<in> set bs" by simp
  from slob_inv_prev [OF i pa cb s(3)] obtain us vs where "bs = us @ c # vs" "p = last (arena h # us)" by blast
  from slob_take_ok [OF i this _ s(4,5)] u obtain cs where
    t: "r = c" "arena h2 = arena h" "pmm h2 = pmm h" "sunits h2 c = u" "slob_inv h2 cs"
    "slob_free_units h2 cs = slob_free_units h bs - {c..<c + u}" by auto
  have "arena h + sunits h (arena h) < c"
    using i cb ordered_less [of "sunits h" "arena h" bs c] by (simp add: slob_inv_def)
  then have "arena h + 1 < c" using i by (simp add: slob_inv_def)
  moreover have "{c..<c + u} \<subseteq> slob_free_units h bs" using cb s(4) by (force simp: slob_free_units_def blk_def)
  ultimately show ?thesis using t s(6) h by (auto simp: heap_inv_def)
qed

text \<open>What an allocation may do to the page manager: nothing, or take one page.\<close>

definition refilled :: "pmm_alloc \<Rightarrow> free_area \<Rightarrow> nat set \<Rightarrow> free_area \<Rightarrow> nat set \<Rightarrow> bool" where
  "refilled al a F a' G \<longleftrightarrow> G = F \<and> a' = a \<or> (\<exists>p \<in> F. G = F - {p} \<and> al 1 a = Some (Some p, a'))"

context pmm_manager
begin

lemma slob_alloc_ok:
  assumes h: "heap_inv h bs F" "inv (pmm h) F" and u: "2 \<le> SLOB_UNITS sz" "sz + SLOB_UNIT < PAGE_SIZE"
  shows "\<exists>r h2 cs G. slob_alloc alloc sz 0 h = Some (r, h2) \<and> heap_inv h2 cs G \<and> inv (pmm h2) G \<and> G \<subseteq> F \<and>
    arena h2 = arena h \<and> refilled alloc (pmm h) F (pmm h2) G \<and>
    (case r of
       None \<Rightarrow> h2 = h \<and> cs = bs \<and> (\<forall>b \<in> set bs. sunits h b < SLOB_UNITS sz) \<and> F = {}
     | Some c \<Rightarrow> sunits h2 c = SLOB_UNITS sz \<and> arena h + 1 < c \<and>
         ((\<exists>b \<in> set bs. SLOB_UNITS sz \<le> sunits h b) \<longrightarrow> G = F) \<and>
         {c..<c + SLOB_UNITS sz} \<subseteq> slob_free_units h bs \<union> page_units (F - G) \<and>
         slob_free_units h2 cs = (slob_free_units h bs \<union> page_units (F - G)) - {c..<c + SLOB_UNITS sz})"
proof -
  have i: "slob_inv h bs" using h by (simp add: heap_inv_def)
  have start: "slob_alloc alloc sz 0 h = slob_search alloc sz (SLOB_UNITS sz) 0 (slobfree h) (snext h (slobfree h)) h"
    using u(2) by (simp add: slob_alloc_def c_assert_def)
  show ?thesis
  proof (cases "\<exists>b \<in> set bs. SLOB_UNITS sz \<le> sunits h b")
    case True
    from slob_search_found [OF h(1) u(1) True, of alloc sz] obtain c h2 cs where
      f: "slob_search alloc sz (SLOB_UNITS sz) 0 (slobfree h) (snext h (slobfree h)) h = Some (Some c, h2)"
      "heap_inv h2 cs F" "pmm h2 = pmm h" "arena h2 = arena h" "sunits h2 c = SLOB_UNITS sz" "arena h + 1 < c"
      "{c..<c + SLOB_UNITS sz} \<subseteq> slob_free_units h bs"
      "slob_free_units h2 cs = slob_free_units h bs - {c..<c + SLOB_UNITS sz}" by blast
    then show ?thesis
      using start h(2)
      by (intro exI [of _ "Some c"] exI [of _ h2] exI [of _ cs] exI [of _ F]) (auto simp: page_units_def refilled_def)
  next
    case False
    from slob_ring [OF i] obtain ys where ys: "sseg h (slobfree h) ys (slobfree h)" "slobfree h \<notin> set ys"
      "set (slobfree h # ys) = set (arena h # bs)" by blast
    have "\<forall>x \<in> set (ys @ [slobfree h]). sunits h x < SLOB_UNITS sz"
    proof
      fix x assume "x \<in> set (ys @ [slobfree h])"
      then have "x \<in> set (arena h # bs)" using ys(3) by auto
      then show "sunits h x < SLOB_UNITS sz" using False u(1) i by (auto simp: slob_inv_def not_le)
    qed
    note miss = slob_search_miss [OF ys(1,2) this, of sz alloc]
    obtain r f where a: "alloc 1 (pmm h) = Some (r, f)" using alloc_returns [OF h(2), of 1] by auto
    show ?thesis
    proof (cases r)
      case None
      have e: "F = {}" using alloc_one [OF h(2) _ a] None by blast
      from None have "f = pmm h" using a alloc_null by blast
      then have "slob_alloc alloc sz 0 h = Some (None, h)"
        using None a start miss u(2) by (simp add: slob_get_free_pages_def)
      then show ?thesis using h False e by (intro exI [of _ None] exI [of _ h] exI [of _ bs] exI [of _ F]) (auto simp: not_le refilled_def)
    next
      case (Some p)
      then have p: "p \<in> F" "inv f (F - {p})" using a alloc_some [OF h(2), of 1 p f] by auto
      from slob_free_page_ok [OF h(1) p(1) refl, of f] obtain h2 cs where
        f: "slob_free (page2kva_unit p) PAGE_SIZE (h\<lparr>pmm := f\<rparr>) = Some h2" "heap_inv h2 cs (F - {p})"
        "pmm h2 = f" "arena h2 = arena h"
        "slob_free_units h2 cs = slob_free_units h bs \<union> {page2kva_unit p..<page2kva_unit p + 256}" by blast
      have e: "slob_alloc alloc sz 0 h =
          slob_search alloc sz (SLOB_UNITS sz) 0 (slobfree h2) (snext h2 (slobfree h2)) h2"
        using start miss u(2) a Some f(1) by (simp add: slob_get_free_pages_def)
      have "ordered (sunits h2) cs" using f(2) by (simp add: heap_inv_def slob_inv_def ordered_Cons)
      moreover have "{page2kva_unit p..<page2kva_unit p + 256} \<subseteq> (\<Union>b \<in> set cs. blk (sunits h2) b)"
        using f(5) by (auto simp: slob_free_units_def)
      ultimately have "\<exists>b \<in> set cs. 256 \<le> sunits h2 b" by (rule free_run_in_block) simp
      moreover have "SLOB_UNITS sz \<le> 256" using u(2) by (simp add: SLOB_UNITS_def SLOB_UNIT_def PAGE_SIZE_def)
      ultimately have "\<exists>b \<in> set cs. SLOB_UNITS sz \<le> sunits h2 b" by (meson le_trans)
      from slob_search_found [OF f(2) u(1) this, of alloc sz] obtain c h3 ds where
        g: "slob_search alloc sz (SLOB_UNITS sz) 0 (slobfree h2) (snext h2 (slobfree h2)) h2 = Some (Some c, h3)"
        "heap_inv h3 ds (F - {p})" "pmm h3 = pmm h2" "arena h3 = arena h2" "sunits h3 c = SLOB_UNITS sz"
        "arena h2 + 1 < c" "{c..<c + SLOB_UNITS sz} \<subseteq> slob_free_units h2 cs"
        "slob_free_units h3 ds = slob_free_units h2 cs - {c..<c + SLOB_UNITS sz}" by blast
      have "refilled alloc (pmm h) F (pmm h3) (F - {p})"
        using p(1) a Some f(3) g(3) unfolding refilled_def by simp
      moreover have "F - (F - {p}) = {p}" using p(1) by auto
      then have "page_units (F - (F - {p})) = {page2kva_unit p..<page2kva_unit p + 256}" by (simp add: page_units_def)
      ultimately show ?thesis
        using g e f p False
        by (intro exI [of _ "Some c"] exI [of _ h3] exI [of _ ds] exI [of _ "F - {p}"]) auto
    qed
  qed
qed

lemma kmalloc_small_ok:
  assumes h: "heap_inv h bs F" "inv (pmm h) F" and n: "1 \<le> n" "n < 4064"
  shows "\<exists>r h2 cs G. kmalloc alloc n h = Some (r, h2) \<and> heap_inv h2 cs G \<and> inv (pmm h2) G \<and> G \<subseteq> F \<and>
    refilled alloc (pmm h) F (pmm h2) G \<and>
    (case r of
       None \<Rightarrow> h2 = h \<and> cs = bs \<and> (\<forall>b \<in> set bs. sunits h b < SLOB_UNITS n + 1) \<and> F = {}
     | Some p \<Rightarrow> sunits h2 (p - 1) = SLOB_UNITS n + 1 \<and> arena h2 + 2 < p \<and>
         ((\<exists>b \<in> set bs. SLOB_UNITS n + 1 \<le> sunits h b) \<longrightarrow> G = F) \<and>
         {p - 1..<p + SLOB_UNITS n} \<subseteq> slob_free_units h bs \<union> page_units (F - G) \<and>
         slob_free_units h2 cs = (slob_free_units h bs \<union> page_units (F - G)) - {p - 1..<p + SLOB_UNITS n})"
proof -
  have u: "SLOB_UNITS (n + SLOB_UNIT) = SLOB_UNITS n + 1" by (simp add: SLOB_UNITS_def SLOB_UNIT_def)
  have "1 \<le> SLOB_UNITS n" using n(1) by (simp add: SLOB_UNITS_def SLOB_UNIT_def)
  then have "2 \<le> SLOB_UNITS (n + SLOB_UNIT)" "n + SLOB_UNIT + SLOB_UNIT < PAGE_SIZE"
    using u n(2) by (simp_all add: SLOB_UNIT_def PAGE_SIZE_def)
  from slob_alloc_ok [OF h this, unfolded u] obtain r h2 cs G where
    a: "slob_alloc alloc (n + SLOB_UNIT) 0 h = Some (r, h2)" "heap_inv h2 cs G" "inv (pmm h2) G" "G \<subseteq> F" "arena h2 = arena h"
    "refilled alloc (pmm h) F (pmm h2) G"
    "case r of None \<Rightarrow> h2 = h \<and> cs = bs \<and> (\<forall>b \<in> set bs. sunits h b < SLOB_UNITS n + 1) \<and> F = {}
     | Some c \<Rightarrow> sunits h2 c = SLOB_UNITS n + 1 \<and> arena h + 1 < c \<and>
         ((\<exists>b \<in> set bs. SLOB_UNITS n + 1 \<le> sunits h b) \<longrightarrow> G = F) \<and>
         {c..<c + (SLOB_UNITS n + 1)} \<subseteq> slob_free_units h bs \<union> page_units (F - G) \<and>
         slob_free_units h2 cs = (slob_free_units h bs \<union> page_units (F - G)) - {c..<c + (SLOB_UNITS n + 1)}" by blast
  have "n < PAGE_SIZE - SLOB_UNIT" using n(2) by (simp add: PAGE_SIZE_def SLOB_UNIT_def)
  then have "kmalloc alloc n h = Some (map_option (\<lambda>m. m + 1) r, h2)" using a(1) by (simp add: kmalloc_def)
  then show ?thesis
    using a(2-7) by (intro exI [of _ "map_option (\<lambda>m. m + 1) r"] exI [of _ h2] exI [of _ cs] exI [of _ G]) (cases r; simp)
qed

text \<open>
  Which of the cases it is: a block that fits is used; else a page refills the heap; without one the
  result is \<open>NULL\<close> and nothing has changed.
\<close>

lemma kmalloc_small_cases:
  assumes h: "heap_inv h bs F" "inv (pmm h) F" and n: "1 \<le> n" "n < 4064"
  obtains (fits) p h2 cs where "\<exists>b \<in> set bs. SLOB_UNITS n + 1 \<le> sunits h b"
      "kmalloc alloc n h = Some (Some p, h2)" "heap_inv h2 cs F" "pmm h2 = pmm h" "arena h2 + 2 < p"
      "sunits h2 (p - 1) = SLOB_UNITS n + 1" "{p - 1..<p + SLOB_UNITS n} \<subseteq> slob_free_units h bs"
      "slob_free_units h2 cs = slob_free_units h bs - {p - 1..<p + SLOB_UNITS n}"
  | (refill) p h2 cs q where "\<forall>b \<in> set bs. sunits h b < SLOB_UNITS n + 1" "q \<in> F"
      "kmalloc alloc n h = Some (Some p, h2)" "heap_inv h2 cs (F - {q})" "inv (pmm h2) (F - {q})"
      "alloc 1 (pmm h) = Some (Some q, pmm h2)" "arena h2 + 2 < p" "sunits h2 (p - 1) = SLOB_UNITS n + 1"
      "{p - 1..<p + SLOB_UNITS n} \<subseteq> slob_free_units h bs \<union> page_units {q}"
      "slob_free_units h2 cs = (slob_free_units h bs \<union> page_units {q}) - {p - 1..<p + SLOB_UNITS n}"
  | (full) "\<forall>b \<in> set bs. sunits h b < SLOB_UNITS n + 1" "F = {}" "kmalloc alloc n h = Some (None, h)"
proof -
  from kmalloc_small_ok [OF h n] obtain r h2 cs G where
    k: "kmalloc alloc n h = Some (r, h2)" "heap_inv h2 cs G" "inv (pmm h2) G"
      "refilled alloc (pmm h) F (pmm h2) G"
    and r: "case r of
       None \<Rightarrow> h2 = h \<and> cs = bs \<and> (\<forall>b \<in> set bs. sunits h b < SLOB_UNITS n + 1) \<and> F = {}
     | Some p \<Rightarrow> sunits h2 (p - 1) = SLOB_UNITS n + 1 \<and> arena h2 + 2 < p \<and>
         ((\<exists>b \<in> set bs. SLOB_UNITS n + 1 \<le> sunits h b) \<longrightarrow> G = F) \<and>
         {p - 1..<p + SLOB_UNITS n} \<subseteq> slob_free_units h bs \<union> page_units (F - G) \<and>
         slob_free_units h2 cs = (slob_free_units h bs \<union> page_units (F - G)) - {p - 1..<p + SLOB_UNITS n}"
    by blast
  show thesis
  proof (cases r)
    case None
    then show thesis using full k(1) r by simp
  next
    case (Some p)
    note p = r [unfolded Some option.case]
    show thesis
    proof (cases "\<exists>b \<in> set bs. SLOB_UNITS n + 1 \<le> sunits h b")
      case True
      then have G: "G = F" using p by blast
      then have "F - G = {}" by simp
      moreover have "pmm h2 = pmm h" using k(4) G by (auto simp: refilled_def)
      ultimately show thesis using fits [OF True _ _ _ _ _ _ _] k(1,2) p Some G by (simp add: page_units_def)
    next
      case False
      have "ordered (sunits h) bs" using h(1) by (simp add: heap_inv_def slob_inv_def ordered_Cons)
      then have "\<not> {p - 1..<p - 1 + (SLOB_UNITS n + 1)} \<subseteq> slob_free_units h bs"
        using free_run_in_block [of "sunits h" bs "p - 1" "SLOB_UNITS n + 1"] False
        unfolding slob_free_units_def by auto
      moreover have "p - 1 + (SLOB_UNITS n + 1) = p + SLOB_UNITS n" using p by simp
      ultimately have "\<not> {p - 1..<p + SLOB_UNITS n} \<subseteq> slob_free_units h bs" by metis
      then have "G \<noteq> F" using p by (auto simp: page_units_def)
      then obtain q where q: "q \<in> F" "G = F - {q}" "alloc 1 (pmm h) = Some (Some q, pmm h2)"
        using k(4) by (auto simp: refilled_def)
      then have "F - G = {q}" by auto
      then show thesis using refill [of q p h2 cs] False k(1-3) p Some q by (simp add: not_le)
    qed
  qed
qed

end

subsection \<open>The list of big blocks\<close>

text \<open>Operations on the heap for small objects leave it as it is.\<close>

definition same_big :: "slob \<Rightarrow> slob \<Rightarrow> bool" where
  "same_big h' h \<longleftrightarrow> bigblocks h' = bigblocks h \<and> bb_next h' = bb_next h \<and> bb_pages h' = bb_pages h \<and>
     bb_order h' = bb_order h"

lemma same_big_trans: "same_big h3 h2 \<Longrightarrow> same_big h2 h1 \<Longrightarrow> same_big h3 h1"
  by (simp add: same_big_def)

lemma slob_free_big: "slob_free b sz h = Some h' \<Longrightarrow> same_big h' h"
  by (auto simp: same_big_def slob_free_def slob_insert_def join_prev_def join_next_def set_units_def
      set_snext_def Let_def bind_eq_Some_conv)

lemma slob_take_big: "slob_take u d prv c h = (b, h') \<Longrightarrow> same_big h' h"
  by (auto simp: same_big_def slob_take_def set_units_def set_snext_def Let_def split: if_splits)

lemma slob_get_free_pages_big: "slob_get_free_pages al ord h = Some (r, h') \<Longrightarrow> same_big h' h"
  by (auto simp: same_big_def slob_get_free_pages_def bind_eq_Some_conv)

lemma slob_search_big': "slob_search al sz u align prv c h = Some y \<Longrightarrow> same_big (snd y) h"
proof (induction rule: slob_search.raw_induct [rotated, consumes 1])
  case (1 search al sz u align prv c h y)
  note step = 1(2) and IH = 1(1)
  have refl: "same_big h h" by (simp add: same_big_def)
  let ?delta = "if align \<noteq> 0 then slob_align c align - c else 0"
  consider "u + ?delta \<le> sunits h c" | "\<not> u + ?delta \<le> sunits h c" "c \<noteq> slobfree h"
    | "\<not> u + ?delta \<le> sunits h c" "c = slobfree h" "sz = PAGE_SIZE"
    | "\<not> u + ?delta \<le> sunits h c" "c = slobfree h" "sz \<noteq> PAGE_SIZE" by blast
  then show ?case
  proof cases
    case 1
    obtain b h1 where t: "slob_take u ?delta prv c h = (b, h1)" by fastforce
    then have "y = (Some b, h1)" using 1 step by (simp add: Let_def)
    then show ?thesis using slob_take_big [OF t] by simp
  next
    case 2
    then have "search al sz u align c (snext h c) h = Some y" using step by (auto simp: Let_def)
    then show ?thesis by (rule IH)
  next
    case 3
    then show ?thesis using step refl by (auto simp: Let_def)
  next
    case 4
    then obtain pg h1 where g: "slob_get_free_pages al 0 h = Some (pg, h1)"
      and y: "(case pg of None \<Rightarrow> Some (None, h1)
        | Some c \<Rightarrow> slob_free c PAGE_SIZE h1 \<bind>
            (\<lambda>h2. search al sz u align (slobfree h2) (snext h2 (slobfree h2)) h2)) = Some y"
      using step by (auto simp: Let_def bind_eq_Some_conv)
    have h1: "same_big h1 h" using slob_get_free_pages_big [OF g] .
    show ?thesis
    proof (cases pg)
      case None
      then show ?thesis using y h1 by auto
    next
      case (Some p)
      then obtain h2 where f: "slob_free p PAGE_SIZE h1 = Some h2"
        and s: "search al sz u align (slobfree h2) (snext h2 (slobfree h2)) h2 = Some y"
        using y by (auto simp: bind_eq_Some_conv)
      show ?thesis using same_big_trans [OF IH [OF s]] same_big_trans [OF slob_free_big [OF f] h1] by blast
    qed
  qed
qed

lemma kmalloc_small_big: "kmalloc al n h = Some (r, h') \<Longrightarrow> n < 4064 \<Longrightarrow> same_big h' h"
  by (auto simp: kmalloc_def PAGE_SIZE_def SLOB_UNIT_def slob_alloc_def bind_eq_Some_conv
      dest!: slob_search_big')

text \<open>
  \<open>bigs h bb xs\<close>: the list of big blocks from \<open>bb\<close> on is \<open>xs\<close>. Their pages are neither free units of
  the heap nor free pages of the manager.
\<close>

fun bigs :: "slob \<Rightarrow> nat option \<Rightarrow> nat list \<Rightarrow> bool" where
  "bigs h bb [] = (bb = None)"
| "bigs h bb (x # xs) = (bb = Some x \<and> bigs h (bb_next h x) xs)"

definition big_inv :: "slob \<Rightarrow> nat list \<Rightarrow> nat set \<Rightarrow> bool" where
  "big_inv h bs F \<longleftrightarrow> (\<exists>xs. bigs h (bigblocks h) xs \<and>
     (\<forall>x \<in> set xs. bb_pages h x \<notin> slob_free_units h bs \<union> page_units F))"

lemma bigs_cong: "bb_next h' = bb_next h \<Longrightarrow> bigs h' bb xs = bigs h bb xs"
  by (induction xs arbitrary: bb) auto

lemma big_inv_cong:
  assumes "big_inv h bs F" and "same_big h' h"
    and "slob_free_units h' cs \<union> page_units G \<subseteq> slob_free_units h bs \<union> page_units F"
  shows "big_inv h' cs G"
  using assms bigs_cong [of h' h] unfolding big_inv_def same_big_def by (metis in_mono)

lemma find_big_none:
  "bigs h bb xs \<Longrightarrow> \<forall>x \<in> set xs. bb_pages h x \<noteq> obj \<Longrightarrow> find_big h obj prv bb = Some None"
proof (induction xs arbitrary: prv bb)
  case Nil
  then show ?case by (subst find_big.simps) simp
next
  case (Cons x xs)
  then show ?case by (subst find_big.simps) simp
qed

lemma find_big_small:
  assumes "big_inv h bs F" and "same_big h' h" and "obj \<in> slob_free_units h bs \<union> page_units F"
  shows "find_big h' obj None (bigblocks h') = Some None"
proof -
  obtain xs where "bigs h (bigblocks h) xs" "\<forall>x \<in> set xs. bb_pages h x \<notin> slob_free_units h bs \<union> page_units F"
    using assms(1) by (auto simp: big_inv_def)
  then show ?thesis
    using assms(2,3) bigs_cong [of h' h] by (intro find_big_none [of _ _ xs]) (auto simp: same_big_def)
qed

text \<open>Giving back an object of the heap for small objects.\<close>

lemma kfree_small_ok:
  assumes inv: "heap_inv h2 cs G" and p: "arena h2 + 2 < p" "sunits h2 (p - 1) = m + 1"
    and free: "{p - 1..<p + m} \<inter> (slob_free_units h2 cs \<union> page_units G) = {}"
    and big: "find_big h2 p None (bigblocks h2) = Some None"
  shows "\<exists>h3 ds. kfree frees p h2 = Some h3 \<and> heap_inv h3 ds G \<and> pmm h3 = pmm h2 \<and> same_big h3 h2 \<and>
    slob_free_units h3 ds = slob_free_units h2 cs \<union> {p - 1..<p + m}"
proof -
  have z: "sized (p - 1) 0 h2 = h2" by (simp add: sized_def)
  have b: "blk (sunits h2) (p - 1) = {p - 1..<p + m}" using p by (auto simp: blk_def)
  have 1: "arena h2 + 1 < p - 1" using p(1) by simp
  have i: "slob_inv h2 cs" using inv by (simp add: heap_inv_def)
  from slob_free_ok [OF i 1, of 0, unfolded z b] p(2) free obtain h3 ds where
    f: "slob_free (p - 1) 0 h2 = Some h3" "slob_inv h3 ds" "arena h3 = arena h2" "pmm h3 = pmm h2"
    "slob_free_units h3 ds = slob_free_units h2 cs \<union> {p - 1..<p + m}" by fastforce
  have "heap_inv h3 ds G" using f(2,3,5) inv free unfolding heap_inv_def by auto
  moreover have "kfree frees p h2 = Some h3" using big f(1) by (simp add: kfree_def)
  ultimately show ?thesis using f(4,5) slob_free_big [OF f(1)] by blast
qed

lemma SLOB_UNITS_pos: "1 \<le> n \<Longrightarrow> 0 < SLOB_UNITS n"
  by (simp add: SLOB_UNITS_def SLOB_UNIT_def)

lemma page_units_Diff: "q \<in> F \<Longrightarrow> page_units {q} \<inter> page_units (F - {q}) = {}"
  using page_units_disjoint [of q "F - {q}"] by (auto simp: page_units_def)

lemma page_units_insert: "q \<in> F \<Longrightarrow> page_units F = page_units {q} \<union> page_units (F - {q})"
  by (auto simp: page_units_def)

section \<open>The properties\<close>

text \<open>A small heap: one free block of 50 units, and the free pages of \<open>demo_area\<close> above it.\<close>

definition demo_heap :: slob where
  "demo_heap = \<lparr>arena = 16, sunits = (\<lambda>a. if a = 20 then 50 else 1),
     snext = (\<lambda>a. if a = 16 then 20 else 16), slobfree = 16, bb_order = (\<lambda>_. 0),
     bb_pages = (\<lambda>_. 0), bb_next = (\<lambda>_. None), bigblocks = None, pmm = demo_area\<rparr>"

lemma demo_heap_inv: "heap_inv demo_heap [20] {2..<10}" "pmm_inv (pmm demo_heap) {2..<10}"
proof -
  have "slob_free_units demo_heap [20] \<inter> page_units {2..<10} = {}"
    by (auto simp: slob_free_units_def blk_def page_units_def demo_heap_def page2kva_unit_def)
  then show "heap_inv demo_heap [20] {2..<10}"
    by (simp add: heap_inv_def slob_inv_def demo_heap_def page2kva_unit_def)
  show "pmm_inv (pmm demo_heap) {2..<10}"
    using demo_area_inv demo_area_frames by (auto simp: pmm_inv_def demo_heap_def)
qed

text \<open>
  \<open>slob_free\<close> returns wherever the roving pointer stands, adds exactly the freed block to the free
  memory, and leaves a circular list in address order with no two adjacent blocks.
\<close>

theorem slob_free_coalesces:
  assumes "slob_inv h bs" and "arena h + 1 < b" and "0 < sunits (sized b sz h) b"
    and "blk (sunits (sized b sz h)) b \<inter> slob_free_units h bs = {}"
  shows "\<exists>h2 cs. slob_free b sz h = Some h2 \<and> slob_inv h2 cs \<and>
    slob_free_units h2 cs = slob_free_units h bs \<union> blk (sunits (sized b sz h)) b"
  using slob_free_ok [OF assms] by blast

theorem slob_free_coalesces_witness:
  "\<exists>h2 cs. slob_free 70 100 demo_heap = Some h2 \<and> slob_inv h2 cs \<and> slob_free_units h2 cs = {20..<77}"
proof -
  have u: "blk (sunits (sized 70 100 demo_heap)) 70 = {70..<77}"
    by (simp add: blk_def sized_def SLOB_UNITS_def SLOB_UNIT_def)
  have f: "slob_free_units demo_heap [20] = {20..<70}" by (simp add: blk_def demo_heap_def)
  have e: "{20..<70} \<union> {70..<77} = {20..<77::nat}" by auto
  have "slob_inv demo_heap [20]" "arena demo_heap + 1 < 70" "0 < sunits (sized 70 100 demo_heap) 70"
    using demo_heap_inv(1) by (simp_all add: heap_inv_def demo_heap_def sized_def SLOB_UNITS_def SLOB_UNIT_def)
  from slob_free_coalesces [OF this, unfolded u f e] show ?thesis by auto
qed

text \<open>
  C17: On the first-fit page manager and an intact heap, \<open>kmalloc\<close> of 1 to 4063 bytes (larger sizes up
  to 4079 bytes fail an assertion, and those from 4080 on take whole pages) returns \<open>NULL\<close>, with
  nothing changed, exactly when no free block has room for the object and its header and the manager
  has no free page. Otherwise the object with its header lies in memory that was free, none of which is
  free afterwards; the heap grows by one whole page of the manager exactly when no block had room, and
  stays intact.
\<close>

theorem kmalloc_hands_out_free_memory:
  assumes "heap_inv h bs F" and "pmm_inv (pmm h) F" and "1 \<le> n" and "n < 4064"
  shows "\<exists>r h2 cs G. kmalloc default_alloc_pages n h = Some (r, h2) \<and> heap_inv h2 cs G \<and> pmm_inv (pmm h2) G \<and>
    (if \<exists>b \<in> set bs. SLOB_UNITS n + 1 \<le> sunits h b then G = F
     else if F = {} then G = F
     else (\<exists>q \<in> F. G = F - {q})) \<and>
    (case r of
       None \<Rightarrow> h2 = h \<and> F = {} \<and> (\<forall>b \<in> set bs. sunits h b < SLOB_UNITS n + 1)
     | Some p \<Rightarrow> (F \<noteq> {} \<or> (\<exists>b \<in> set bs. SLOB_UNITS n + 1 \<le> sunits h b)) \<and>
         {p - 1..<p + SLOB_UNITS n} \<subseteq> slob_free_units h bs \<union> page_units (F - G) \<and>
         slob_free_units h2 cs = (slob_free_units h bs \<union> page_units (F - G)) - {p - 1..<p + SLOB_UNITS n})"
  using assms(1,2,3,4)
proof (cases rule: ff.kmalloc_small_cases)
  case (fits p h2 cs)
  then show ?thesis
    using assms(2)
    by (intro exI [of _ "Some p"] exI [of _ h2] exI [of _ cs] exI [of _ F]) (auto simp: page_units_def)
next
  case (refill p h2 cs q)
  have "F - (F - {q}) = {q}" using refill(2) by auto
  then show ?thesis
    using refill
    by (intro exI [of _ "Some p"] exI [of _ h2] exI [of _ cs] exI [of _ "F - {q}"]) (auto simp: not_le)
next
  case full
  then show ?thesis
    using assms(1,2) by (intro exI [of _ None] exI [of _ h] exI [of _ bs] exI [of _ F]) (auto simp: not_le)
qed

theorem kmalloc_hands_out_free_memory_witness:
  "\<exists>p h2 cs. kmalloc default_alloc_pages 100 demo_heap = Some (Some p, h2) \<and> heap_inv h2 cs {2..<10} \<and>
     {p - 1..<p + 7} \<subseteq> {20..<70} \<and> slob_free_units h2 cs = {20..<70} - {p - 1..<p + 7}"
proof -
  have f: "slob_free_units demo_heap [20] = {20..<70}" by (simp add: blk_def demo_heap_def)
  have u: "SLOB_UNITS 100 = 7" by (simp add: SLOB_UNITS_def SLOB_UNIT_def)
  have b: "\<exists>b \<in> set [20]. 8 \<le> sunits demo_heap b" by (simp add: demo_heap_def)
  have "\<exists>r h2 cs G. kmalloc default_alloc_pages 100 demo_heap = Some (r, h2) \<and> heap_inv h2 cs G \<and> G = {2..<10} \<and>
    (case r of None \<Rightarrow> False
     | Some p \<Rightarrow> {p - 1..<p + 7} \<subseteq> {20..<70} \<union> page_units ({2..<10} - G) \<and>
         slob_free_units h2 cs = ({20..<70} \<union> page_units ({2..<10} - G)) - {p - 1..<p + 7})"
    using kmalloc_hands_out_free_memory [OF demo_heap_inv, of 100] b unfolding f u
    by (fastforce split: option.splits)
  then show ?thesis by (auto simp: page_units_def split: option.splits)
qed

text \<open>
  C18: \<open>kfree\<close> right after a \<open>kmalloc\<close> of 1 to 4063 bytes undoes it: it returns, and the free memory of
  the heap is again exactly what it was, plus the whole page of the manager that the allocation took
  when no free block had room (the page stays with the heap). The list of big blocks, whose pages lie
  in no free memory, is as before, so that the object is not mistaken for one of them.
\<close>

theorem kmalloc_kfree_roundtrip:
  assumes "heap_inv h bs F" and "pmm_inv (pmm h) F" and "big_inv h bs F" and "1 \<le> n" and "n < 4064"
    and "kmalloc default_alloc_pages n h = Some (Some p, h2)"
  shows "\<exists>h3 ds G. kfree default_free_pages p h2 = Some h3 \<and> heap_inv h3 ds G \<and> pmm_inv (pmm h3) G \<and>
    big_inv h3 ds G \<and> same_big h3 h \<and>
    (if \<exists>b \<in> set bs. SLOB_UNITS n + 1 \<le> sunits h b
     then G = F \<and> slob_free_units h3 ds = slob_free_units h bs
     else \<exists>q \<in> F. G = F - {q} \<and> slob_free_units h3 ds = slob_free_units h bs \<union> page_units {q})"
  using assms(1,2,4,5)
proof (cases rule: ff.kmalloc_small_cases)
  case (fits p' h2' cs)
  then have e: "p' = p" "h2' = h2" using assms(6) by simp_all
  note f = fits [unfolded e]
  have sb: "same_big h2 h" using kmalloc_small_big [OF assms(6,5)] .
  have "p \<in> {p - 1..<p + SLOB_UNITS n}" using SLOB_UNITS_pos [OF assms(4)] by simp
  then have pin: "p \<in> slob_free_units h bs" using f(7) by blast
  have big: "find_big h2 p None (bigblocks h2) = Some None"
    using find_big_small [OF assms(3) sb] pin by blast
  have free: "{p - 1..<p + SLOB_UNITS n} \<inter> (slob_free_units h2 cs \<union> page_units F) = {}"
    using f(7,8) assms(1) unfolding heap_inv_def by auto
  from kfree_small_ok [OF f(3,5,6) free big, of default_free_pages] obtain h3 ds where
    k: "kfree default_free_pages p h2 = Some h3" "heap_inv h3 ds F" "pmm h3 = pmm h2" "same_big h3 h2"
      "slob_free_units h3 ds = slob_free_units h2 cs \<union> {p - 1..<p + SLOB_UNITS n}" by blast
  have u: "slob_free_units h3 ds = slob_free_units h bs" using k(5) f(7,8) by auto
  have s3: "same_big h3 h" using same_big_trans [OF k(4) sb] .
  have "big_inv h3 ds F" using big_inv_cong [OF assms(3) s3] u by simp
  then show ?thesis
    using k u s3 f(1,4) assms(2) by (intro exI [of _ h3] exI [of _ ds] exI [of _ F]) simp
next
  case (refill p' h2' cs q)
  then have e: "p' = p" "h2' = h2" using assms(6) by simp_all
  note f = refill [unfolded e]
  have sb: "same_big h2 h" using kmalloc_small_big [OF assms(6,5)] .
  have "p \<in> {p - 1..<p + SLOB_UNITS n}" using SLOB_UNITS_pos [OF assms(4)] by simp
  then have "p \<in> slob_free_units h bs \<union> page_units {q}" using f(9) by blast
  then have pin: "p \<in> slob_free_units h bs \<union> page_units F" using page_units_insert [OF f(2)] by blast
  have big: "find_big h2 p None (bigblocks h2) = Some None" using find_big_small [OF assms(3) sb pin] .
  have "(slob_free_units h bs \<union> page_units {q}) \<inter> page_units (F - {q}) = {}"
    using assms(1) page_units_insert [OF f(2)] page_units_Diff [OF f(2)] unfolding heap_inv_def by blast
  then have free: "{p - 1..<p + SLOB_UNITS n} \<inter> (slob_free_units h2 cs \<union> page_units (F - {q})) = {}"
    using f(9,10) by auto
  from kfree_small_ok [OF f(4,7,8) free big, of default_free_pages] obtain h3 ds where
    k: "kfree default_free_pages p h2 = Some h3" "heap_inv h3 ds (F - {q})" "pmm h3 = pmm h2" "same_big h3 h2"
      "slob_free_units h3 ds = slob_free_units h2 cs \<union> {p - 1..<p + SLOB_UNITS n}" by blast
  have u: "slob_free_units h3 ds = slob_free_units h bs \<union> page_units {q}" using k(5) f(9,10) by auto
  have s3: "same_big h3 h" using same_big_trans [OF k(4) sb] .
  have "big_inv h3 ds (F - {q})"
    using big_inv_cong [OF assms(3) s3] u page_units_insert [OF f(2)] by auto
  moreover have "\<not> (\<exists>b \<in> set bs. SLOB_UNITS n + 1 \<le> sunits h b)" using f(1) by (auto simp: not_le)
  ultimately show ?thesis
    using k u s3 f(2,5) by (intro exI [of _ h3] exI [of _ ds] exI [of _ "F - {q}"]) auto
next
  case full
  then show ?thesis using assms(6) by simp
qed

theorem kmalloc_kfree_roundtrip_witness:
  "\<exists>p h2 h3 ds. kmalloc default_alloc_pages 100 demo_heap = Some (Some p, h2) \<and>
     kfree default_free_pages p h2 = Some h3 \<and> heap_inv h3 ds {2..<10} \<and> slob_free_units h3 ds = {20..<70}"
proof -
  have f: "slob_free_units demo_heap [20] = {20..<70}" by (simp add: blk_def demo_heap_def)
  have b: "\<exists>b \<in> set [20]. SLOB_UNITS 100 + 1 \<le> sunits demo_heap b"
    by (simp add: demo_heap_def SLOB_UNITS_def SLOB_UNIT_def)
  have big: "big_inv demo_heap [20] {2..<10}"
    unfolding big_inv_def by (rule exI [of _ "[]"]) (simp add: demo_heap_def)
  obtain h2 where m: "kmalloc default_alloc_pages 100 demo_heap = Some (Some 21, h2)"
    by (simp add: kmalloc_def slob_alloc_def c_assert_def SLOB_UNITS_def SLOB_UNIT_def PAGE_SIZE_def
        demo_heap_def slob_search.simps [of _ _ _ _ _ 20] slob_take_def Let_def set_units_def set_snext_def)
  from kmalloc_kfree_roundtrip [OF demo_heap_inv big _ _ m] b show ?thesis
    using m unfolding f by fastforce
qed

text \<open>
  \<open>kmalloc\<close> of 4064 to 4079 bytes passes its own size test and then stops in the assertion of
  \<open>slob_alloc\<close>.
\<close>

theorem kmalloc_gap_panics:
  assumes "4064 \<le> n" and "n < 4080"
  shows "kmalloc alloc n h = None"
  using assms by (simp add: kmalloc_def slob_alloc_def PAGE_SIZE_def SLOB_UNIT_def c_assert_def)

theorem kmalloc_gap_panics_witness: "kmalloc default_alloc_pages 4070 demo_heap = None"
  using kmalloc_gap_panics [of 4070] by simp

end
