(* ===== verification/Disk.thy ===== *)
theory Disk
  imports Prelude
begin

text \<open>
  Block input and output of lab 8: the transfer buffers of \<open>kern/fs/iobuf.c\<close>, the RAM disk of
  \<open>kern/driver/ramdisk.c\<close> behind \<open>kern/driver/ide.c\<close>, and the device \<open>disk0\<close> of
  \<open>kern/fs/devs/dev_disk0.c\<close>. Memory regions are lists of bytes; an access outside a region is
  \<open>None\<close>, like a failed assertion. The interface \<open>struct device\<close> is the locale \<open>block_device\<close>,
  which \<open>disk0_io\<close> interprets.
\<close>

section \<open>Memory regions\<close>

definition slice :: "nat \<Rightarrow> nat \<Rightarrow> 'a list \<Rightarrow> 'a list" where
  "slice p n xs = List.take n (drop p xs)"

definition blit :: "'a list \<Rightarrow> nat \<Rightarrow> 'a list \<Rightarrow> 'a list" where
  "blit dst p src = List.take p dst @ src @ drop (p + length src) dst"

text \<open>\<open>memcpy\<close> and \<open>memmove\<close> between two objects.\<close>

definition mem_copy :: "'a list \<Rightarrow> nat \<Rightarrow> 'a list \<Rightarrow> nat \<Rightarrow> nat \<Rightarrow> 'a list option" where
  "mem_copy dst dp src sp n =
     (if dp + n \<le> length dst \<and> sp + n \<le> length src then Some (blit dst dp (slice sp n src)) else None)"

lemma length_slice [simp]: "p + n \<le> length xs \<Longrightarrow> length (slice p n xs) = n"
  by (simp add: slice_def)

lemma nth_slice: "p + n \<le> length xs \<Longrightarrow> i < n \<Longrightarrow> slice p n xs ! i = xs ! (p + i)"
  by (simp add: slice_def)

lemma length_blit [simp]: "p + length src \<le> length dst \<Longrightarrow> length (blit dst p src) = length dst"
  by (simp add: blit_def)

lemma nth_blit:
  "p + length src \<le> length dst \<Longrightarrow> i < length dst \<Longrightarrow>
   blit dst p src ! i = (if p \<le> i \<and> i < p + length src then src ! (i - p) else dst ! i)"
  by (auto simp: blit_def nth_append min_def)

lemma slice_all [simp]: "slice 0 (length xs) xs = xs" by (simp add: slice_def)

lemma slice_0 [simp]: "slice p 0 xs = []" by (simp add: slice_def)

lemma blit_Nil [simp]: "p \<le> length dst \<Longrightarrow> blit dst p [] = dst" by (simp add: blit_def)

lemma slice_append_slice: "slice p n xs @ slice (p + n) m xs = slice p (n + m) xs"
  by (simp add: slice_def take_add) (simp add: add.commute)

lemma blit_blit:
  "p + length xs \<le> length m \<Longrightarrow> blit (blit m p xs) (p + length xs) ys = blit m p (xs @ ys)"
  by (simp add: blit_def ac_simps)

lemma slice_blit_same: "p + length src \<le> length dst \<Longrightarrow> slice p (length src) (blit dst p src) = src"
  by (simp add: blit_def slice_def)

lemma slice_blit_other:
  assumes "p + length src \<le> length dst" "q + n \<le> length dst" "q + n \<le> p \<or> p + length src \<le> q"
  shows "slice q n (blit dst p src) = slice q n dst"
  by (rule nth_equalityI) (use assms in \<open>auto simp: nth_slice nth_blit\<close>)

lemma slice_blit_after:
  "p + length src \<le> length dst \<Longrightarrow> q + n \<le> length dst \<Longrightarrow> p + length src \<le> q \<Longrightarrow>
   slice q n (blit dst p src) = slice q n dst"
  by (rule slice_blit_other) auto

lemma slice_slice: "q + m \<le> n \<Longrightarrow> p + n \<le> length xs \<Longrightarrow> slice q m (slice p n xs) = slice (p + q) m xs"
  by (simp add: slice_def drop_take min_def add.commute)

section \<open>Transfer buffers\<close>

record iobuf =
  io_mem :: "u8 list"
  io_base :: nat
  io_offset :: int
  io_len :: nat
  io_resid :: nat

definition iobuf_used :: "iobuf \<Rightarrow> nat" where
  "iobuf_used iob = io_len iob - io_resid iob"

definition iobuf_init :: "u8 list \<Rightarrow> nat \<Rightarrow> nat \<Rightarrow> int \<Rightarrow> iobuf" where
  "iobuf_init mem base len off =
     \<lparr>io_mem = mem, io_base = base, io_offset = off, io_len = len, io_resid = len\<rparr>"

definition iobuf_skip :: "nat \<Rightarrow> iobuf \<Rightarrow> iobuf option" where
  "iobuf_skip n iob = do {
     c_assert (io_resid iob \<ge> n);
     Some (iob\<lparr>io_base := io_base iob + n, io_offset := io_offset iob + int n, io_resid := io_resid iob - n\<rparr>)
   }"

text \<open>\<open>m2b\<close>: from the memory \<open>data\<close> to the buffer, otherwise from the buffer to \<open>data\<close>.\<close>

definition iobuf_move :: "u8 list \<Rightarrow> nat \<Rightarrow> bool \<Rightarrow> iobuf \<Rightarrow> (int \<times> nat \<times> u8 list \<times> iobuf) option" where
  "iobuf_move data len m2b iob =
     (let alen = min (io_resid iob) len in
      if alen > 0 then do {
        (data1, iob1) \<leftarrow>
          (if m2b then do { m \<leftarrow> mem_copy (io_mem iob) (io_base iob) data 0 alen; Some (data, iob\<lparr>io_mem := m\<rparr>) }
           else do { m \<leftarrow> mem_copy data 0 (io_mem iob) (io_base iob) alen; Some (m, iob) });
        iob2 \<leftarrow> iobuf_skip alen iob1;
        Some (if len - alen = 0 then 0 else - E_NO_MEM, alen, data1, iob2)
      }
      else Some (if len = 0 then 0 else - E_NO_MEM, 0, data, iob))"

definition iobuf_move_zeros :: "nat \<Rightarrow> iobuf \<Rightarrow> (int \<times> nat \<times> iobuf) option" where
  "iobuf_move_zeros len iob =
     (let alen = min (io_resid iob) len in
      if alen > 0 then do {
        m \<leftarrow> mem_copy (io_mem iob) (io_base iob) (replicate alen 0) 0 alen;
        iob2 \<leftarrow> iobuf_skip alen (iob\<lparr>io_mem := m\<rparr>);
        Some (if len - alen = 0 then 0 else - E_NO_MEM, alen, iob2)
      }
      else Some (if len = 0 then 0 else - E_NO_MEM, 0, iob))"

text \<open>The buffer never leaves its bounds: position and residue always add up.\<close>

definition iobuf_ok :: "iobuf \<Rightarrow> bool" where
  "iobuf_ok iob \<longleftrightarrow> io_resid iob \<le> io_len iob \<and> io_base iob + io_resid iob \<le> length (io_mem iob)"

lemma iobuf_move_to_buffer:
  assumes "iobuf_ok iob" "min (io_resid iob) len \<le> length data"
  shows "iobuf_move data len True iob =
    Some (if len \<le> io_resid iob then 0 else - E_NO_MEM, min (io_resid iob) len, data,
      iob\<lparr>io_mem := blit (io_mem iob) (io_base iob) (slice 0 (min (io_resid iob) len) data),
          io_base := io_base iob + min (io_resid iob) len,
          io_offset := io_offset iob + int (min (io_resid iob) len),
          io_resid := io_resid iob - min (io_resid iob) len\<rparr>)"
  using assms by (auto simp: iobuf_move_def iobuf_skip_def mem_copy_def iobuf_ok_def Let_def min_def)

lemma iobuf_move_from_buffer:
  assumes "iobuf_ok iob" "min (io_resid iob) len \<le> length data"
  shows "iobuf_move data len False iob =
    Some (if len \<le> io_resid iob then 0 else - E_NO_MEM, min (io_resid iob) len,
      blit data 0 (slice (io_base iob) (min (io_resid iob) len) (io_mem iob)),
      iob\<lparr>io_base := io_base iob + min (io_resid iob) len,
          io_offset := io_offset iob + int (min (io_resid iob) len),
          io_resid := io_resid iob - min (io_resid iob) len\<rparr>)"
  using assms by (auto simp: iobuf_move_def iobuf_skip_def mem_copy_def iobuf_ok_def Let_def min_def)

section \<open>RAM disk and IDE layer\<close>

definition SECTSIZE :: nat where "SECTSIZE = 512"
definition MAX_NSECS :: nat where "MAX_NSECS = 128"
definition MAX_DISK_NSECS :: nat where "MAX_DISK_NSECS = 0x10000000"

record ide_device =
  valid :: bool
  nsectors :: nat
  image :: "u8 list"

definition ramdisk_init :: "u8 list \<Rightarrow> ide_device" where
  "ramdisk_init img =
     (if img = [] then \<lparr>valid = False, nsectors = 0, image = []\<rparr>
      else \<lparr>valid = True, nsectors = (length img mod 2 ^ 32) div SECTSIZE, image = img\<rparr>)"

text \<open>\<open>dev->size - secno\<close> in unsigned 64-bit arithmetic; the test \<open>nsecs < 0\<close> is never true.\<close>

definition sectors_left :: "ide_device \<Rightarrow> nat \<Rightarrow> nat" where
  "sectors_left dev secno = (nsectors dev + 2 ^ 64 - secno) mod 2 ^ 64"

definition ramdisk_read :: "nat \<Rightarrow> nat \<Rightarrow> u8 list \<Rightarrow> ide_device \<Rightarrow> (int \<times> u8 list) option" where
  "ramdisk_read secno nsecs dst dev = do {
     let n = min nsecs (sectors_left dev secno);
     m \<leftarrow> mem_copy dst 0 (image dev) (secno * SECTSIZE) (n * SECTSIZE);
     Some (0, m)
   }"

definition ramdisk_write :: "nat \<Rightarrow> nat \<Rightarrow> u8 list \<Rightarrow> ide_device \<Rightarrow> (int \<times> ide_device) option" where
  "ramdisk_write secno nsecs src dev = do {
     let n = min nsecs (sectors_left dev secno);
     m \<leftarrow> mem_copy (image dev) (secno * SECTSIZE) src 0 (n * SECTSIZE);
     Some (0, dev\<lparr>image := m\<rparr>)
   }"

definition ide_device_size :: "ide_device \<Rightarrow> nat" where
  "ide_device_size dev = (if valid dev then nsectors dev else 0)"

definition ide_read_secs :: "nat \<Rightarrow> nat \<Rightarrow> u8 list \<Rightarrow> ide_device \<Rightarrow> (int \<times> u8 list) option" where
  "ide_read_secs secno nsecs dst dev = do {
     c_assert (nsecs \<le> MAX_NSECS \<and> valid dev);
     c_assert (secno < MAX_DISK_NSECS \<and> secno + nsecs \<le> MAX_DISK_NSECS);
     ramdisk_read secno nsecs dst dev
   }"

definition ide_write_secs :: "nat \<Rightarrow> nat \<Rightarrow> u8 list \<Rightarrow> ide_device \<Rightarrow> (int \<times> ide_device) option" where
  "ide_write_secs secno nsecs src dev = do {
     c_assert (nsecs \<le> MAX_NSECS \<and> valid dev);
     c_assert (secno < MAX_DISK_NSECS \<and> secno + nsecs \<le> MAX_DISK_NSECS);
     ramdisk_write secno nsecs src dev
   }"

section \<open>The device disk0\<close>

definition DISK0_BLKSIZE :: nat where "DISK0_BLKSIZE = 4096"
definition DISK0_BUFSIZE :: nat where "DISK0_BUFSIZE = 4 * DISK0_BLKSIZE"
definition DISK0_BLK_NSECT :: nat where "DISK0_BLK_NSECT = DISK0_BLKSIZE div SECTSIZE"

record disk0 =
  ide :: ide_device
  disk0_buffer :: "u8 list"
  d_blocks :: nat
  d_blocksize :: nat

definition disk0_device_init :: "ide_device \<Rightarrow> disk0 option" where
  "disk0_device_init dev = do {
     c_assert (valid dev);
     Some \<lparr>ide = dev, disk0_buffer = replicate DISK0_BUFSIZE 0,
       d_blocks = ide_device_size dev div DISK0_BLK_NSECT, d_blocksize = DISK0_BLKSIZE\<rparr>
   }"

definition disk0_read_blks_nolock :: "nat \<Rightarrow> nat \<Rightarrow> disk0 \<Rightarrow> disk0 option" where
  "disk0_read_blks_nolock blkno nblks d = do {
     (ret, buf) \<leftarrow> ide_read_secs (blkno * DISK0_BLK_NSECT mod 2 ^ 32) (nblks * DISK0_BLK_NSECT mod 2 ^ 32) (disk0_buffer d) (ide d);
     c_assert (ret = 0);
     Some (d\<lparr>disk0_buffer := buf\<rparr>)
   }"

definition disk0_write_blks_nolock :: "nat \<Rightarrow> nat \<Rightarrow> disk0 \<Rightarrow> disk0 option" where
  "disk0_write_blks_nolock blkno nblks d = do {
     (ret, dev) \<leftarrow> ide_write_secs (blkno * DISK0_BLK_NSECT mod 2 ^ 32) (nblks * DISK0_BLK_NSECT mod 2 ^ 32) (disk0_buffer d) (ide d);
     c_assert (ret = 0);
     Some (d\<lparr>ide := dev\<rparr>)
   }"

partial_function (option) disk0_loop :: "bool \<Rightarrow> nat \<Rightarrow> nat \<Rightarrow> iobuf \<Rightarrow> disk0 \<Rightarrow> (iobuf \<times> disk0) option" where
  "disk0_loop w blkno resid iob d =
     (if resid = 0 then Some (iob, d)
      else if w then do {
        (r, copied, buf, iob1) \<leftarrow> iobuf_move (disk0_buffer d) DISK0_BUFSIZE False iob;
        c_assert (copied \<noteq> 0 \<and> copied \<le> resid \<and> copied mod DISK0_BLKSIZE = 0);
        d1 \<leftarrow> disk0_write_blks_nolock blkno (copied div DISK0_BLKSIZE) (d\<lparr>disk0_buffer := buf\<rparr>);
        disk0_loop w ((blkno + copied div DISK0_BLKSIZE) mod 2 ^ 32) (resid - copied) iob1 d1
      }
      else do {
        let alen = min DISK0_BUFSIZE resid;
        d1 \<leftarrow> disk0_read_blks_nolock blkno (alen div DISK0_BLKSIZE) d;
        (r, copied, buf, iob1) \<leftarrow> iobuf_move (disk0_buffer d1) alen True iob;
        c_assert (copied = alen \<and> copied mod DISK0_BLKSIZE = 0);
        disk0_loop w ((blkno + alen div DISK0_BLKSIZE) mod 2 ^ 32) (resid - copied) iob1 d1
      })"

declare disk0_loop.simps [code]

definition disk0_io :: "disk0 \<Rightarrow> iobuf \<Rightarrow> bool \<Rightarrow> (int \<times> iobuf \<times> disk0) option" where
  "disk0_io d iob w =
     (let blkno = nat (io_offset iob div int DISK0_BLKSIZE mod 2 ^ 32);
          nblks = io_resid iob div DISK0_BLKSIZE mod 2 ^ 32 in
      if io_offset iob mod int DISK0_BLKSIZE \<noteq> 0 \<or> io_resid iob mod DISK0_BLKSIZE \<noteq> 0 then Some (- E_INVAL, iob, d)
      else if (blkno + nblks) mod 2 ^ 32 > d_blocks d then Some (- E_INVAL, iob, d)
      else if nblks = 0 then Some (0, iob, d)
      else do {
        (iob1, d1) \<leftarrow> disk0_loop w blkno (io_resid iob) iob d;
        Some (0, iob1, d1)
      })"

section \<open>Correctness of disk0\<close>

text \<open>A whole number of sectors, at most 2 to the power 28 of them.\<close>

definition disk_ok :: "disk0 \<Rightarrow> bool" where
  "disk_ok d \<longleftrightarrow> valid (ide d) \<and> length (image (ide d)) = SECTSIZE * nsectors (ide d) \<and>
     nsectors (ide d) \<le> MAX_DISK_NSECS \<and> d_blocks d = nsectors (ide d) div DISK0_BLK_NSECT \<and>
     length (disk0_buffer d) = DISK0_BUFSIZE"

lemmas disk_consts = DISK0_BLKSIZE_def DISK0_BUFSIZE_def DISK0_BLK_NSECT_def SECTSIZE_def
  MAX_NSECS_def MAX_DISK_NSECS_def

lemma disk_ok_bound:
  assumes "disk_ok d" "b + n \<le> d_blocks d"
  shows "4096 * (b + n) \<le> length (image (ide d))" "b + n \<le> 2 ^ 25"
proof -
  have "8 * (b + n) \<le> nsectors (ide d)" using assms by (simp add: disk_ok_def disk_consts)
  then show "4096 * (b + n) \<le> length (image (ide d))" "b + n \<le> 2 ^ 25"
    using assms(1) by (simp_all add: disk_ok_def disk_consts)
qed

lemma sectors_left_enough:
  assumes "disk_ok d" "b + n \<le> d_blocks d" "0 < n"
  shows "min (8 * n) (sectors_left (ide d) (8 * b)) = 8 * n"
proof -
  have 1: "8 * (b + n) \<le> nsectors (ide d)" "nsectors (ide d) \<le> 2 ^ 28" using assms by (simp_all add: disk_ok_def disk_consts)
  then have "8 * b \<le> nsectors (ide d)" by simp
  then have "nsectors (ide d) + 2 ^ 64 - 8 * b = (nsectors (ide d) - 8 * b) + 2 ^ 64" by (rule diff_add_assoc2)
  then have "sectors_left (ide d) (8 * b) = (nsectors (ide d) - 8 * b) mod 2 ^ 64"
    unfolding sectors_left_def by (simp only: mod_add_self2)
  also have "\<dots> = nsectors (ide d) - 8 * b"
    using 1(2) by (intro mod_less) simp
  finally show ?thesis using 1(1) by simp
qed

lemma disk0_read_blks_ok:
  assumes d: "disk_ok d" and b: "b + n \<le> d_blocks d" and n: "0 < n" "n \<le> 4"
  shows "disk0_read_blks_nolock b n d =
    Some (d\<lparr>disk0_buffer := blit (disk0_buffer d) 0 (slice (4096 * b) (4096 * n) (image (ide d)))\<rparr>)"
proof -
  note k = disk_ok_bound [OF d b] sectors_left_enough [OF d b n(1)]
  have m: "b * 8 mod 2 ^ 32 = 8 * b" "n * 8 mod 2 ^ 32 = 8 * n" using k(2) n by (simp_all add: mod_less)
  have "ide_read_secs (8 * b) (8 * n) (disk0_buffer d) (ide d) =
      Some (0, blit (disk0_buffer d) 0 (slice (4096 * b) (4096 * n) (image (ide d))))"
    using k d n by (simp add: ide_read_secs_def ramdisk_read_def mem_copy_def disk_ok_def disk_consts ac_simps)
  then show ?thesis using m by (simp add: disk0_read_blks_nolock_def disk_consts)
qed

lemma disk0_write_blks_ok:
  assumes d: "disk_ok d" and b: "b + n \<le> d_blocks d" and n: "0 < n" "n \<le> 4"
  shows "disk0_write_blks_nolock b n d =
    Some (d\<lparr>ide := ide d\<lparr>image := blit (image (ide d)) (4096 * b) (slice 0 (4096 * n) (disk0_buffer d))\<rparr>\<rparr>)"
proof -
  note k = disk_ok_bound [OF d b] sectors_left_enough [OF d b n(1)]
  have m: "b * 8 mod 2 ^ 32 = 8 * b" "n * 8 mod 2 ^ 32 = 8 * n" using k(2) n by (simp_all add: mod_less)
  have "ide_write_secs (8 * b) (8 * n) (disk0_buffer d) (ide d) =
      Some (0, ide d\<lparr>image := blit (image (ide d)) (4096 * b) (slice 0 (4096 * n) (disk0_buffer d))\<rparr>)"
    using k d n by (simp add: ide_write_secs_def ramdisk_write_def mem_copy_def disk_ok_def disk_consts ac_simps)
  then show ?thesis using m by (simp add: disk0_write_blks_nolock_def disk_consts)
qed

text \<open>A request for \<open>n\<close> blocks from block \<open>b\<close> of a buffer with that much room left.\<close>

definition request :: "iobuf \<Rightarrow> nat \<Rightarrow> nat \<Rightarrow> bool" where
  "request iob b n \<longleftrightarrow> iobuf_ok iob \<and> io_resid iob = 4096 * n \<and> io_offset iob = 4096 * int b"

definition finished :: "iobuf \<Rightarrow> nat \<Rightarrow> iobuf" where
  "finished iob n = iob\<lparr>io_base := io_base iob + n, io_offset := io_offset iob + int n, io_resid := 0\<rparr>"

lemma disk0_loop_read:
  assumes "disk_ok d" "b + n \<le> d_blocks d" "request iob b n"
  shows "\<exists>buf. length buf = DISK0_BUFSIZE \<and> disk0_loop False b (4096 * n) iob d =
    Some (finished (iob\<lparr>io_mem := blit (io_mem iob) (io_base iob) (slice (4096 * b) (4096 * n) (image (ide d)))\<rparr>) (4096 * n),
      d\<lparr>disk0_buffer := buf\<rparr>)"
  using assms
proof (induction n arbitrary: b iob d rule: less_induct)
  case (less n)
  note d = less.prems(1) and b = less.prems(2)
  have q: "iobuf_ok iob" "io_resid iob = 4096 * n" "io_offset iob = 4096 * int b"
    using less.prems(3) by (auto simp: request_def)
  show ?case
  proof (cases "n = 0")
    case True
    then have "disk0_loop False b (4096 * n) iob d = Some (iob, d)" by (simp add: disk0_loop.simps)
    moreover have "d = d\<lparr>disk0_buffer := disk0_buffer d\<rparr>" "length (disk0_buffer d) = DISK0_BUFSIZE"
      using d by (simp_all add: disk_ok_def)
    moreover have "finished (iob\<lparr>io_mem := io_mem iob\<rparr>) 0 = iob" using q True by (simp add: finished_def)
    ultimately show ?thesis using True q(1) by (intro exI [of _ "disk0_buffer d"]) (simp add: iobuf_ok_def)
  next
    case False
    define k where "k = min 4 n"
    have k: "0 < k" "k \<le> 4" "k \<le> n" "min DISK0_BUFSIZE (4096 * n) = 4096 * k"
      using False by (auto simp: k_def DISK0_BUFSIZE_def DISK0_BLKSIZE_def min_def)
    define buf1 where "buf1 = blit (disk0_buffer d) 0 (slice (4096 * b) (4096 * k) (image (ide d)))"
    have bk: "b + k \<le> d_blocks d" using b k(3) by simp
    have lim: "4096 * b + 4096 * k \<le> length (image (ide d))" "b + n \<le> 2 ^ 25"
      using disk_ok_bound [OF d bk] disk_ok_bound [OF d b] by auto
    have lb: "length (disk0_buffer d) = 16384" using d by (simp add: disk_ok_def disk_consts)
    have lb1: "length buf1 = DISK0_BUFSIZE" using lb lim k by (simp add: buf1_def disk_consts)
    have sl: "slice 0 (4096 * k) buf1 = slice (4096 * b) (4096 * k) (image (ide d))"
      using slice_blit_same [of 0 "slice (4096 * b) (4096 * k) (image (ide d))" "disk0_buffer d"] lb lim k
      by (simp add: buf1_def)
    define d1 where "d1 = d\<lparr>disk0_buffer := buf1\<rparr>"
    have rd: "disk0_read_blks_nolock b k d = Some d1"
      using disk0_read_blks_ok [OF d bk k(1,2)] by (simp add: d1_def buf1_def)
    define iob1 where "iob1 = iob\<lparr>io_mem := blit (io_mem iob) (io_base iob) (slice 0 (4096 * k) buf1),
      io_base := io_base iob + 4096 * k, io_offset := io_offset iob + int (4096 * k), io_resid := io_resid iob - 4096 * k\<rparr>"
    have mv: "iobuf_move buf1 (4096 * k) True iob = Some (0, 4096 * k, buf1, iob1)"
      using iobuf_move_to_buffer [OF q(1), of "4096 * k" buf1] q(2) k lb1
      by (simp add: iob1_def disk_consts min_def)
    have "disk0_loop False b (4096 * n) iob d = disk0_loop False ((b + k) mod 2 ^ 32) (4096 * n - 4096 * k) iob1 d1"
      using rd mv k by (subst disk0_loop.simps) (simp add: d1_def DISK0_BLKSIZE_def)
    also have "(b + k) mod 2 ^ 32 = b + k" using lim(2) k(3) by (intro mod_less) simp
    finally have step: "disk0_loop False b (4096 * n) iob d = disk0_loop False (b + k) (4096 * (n - k)) iob1 d1"
      by (simp add: diff_mult_distrib2)
    have room: "io_base iob + 4096 * n \<le> length (io_mem iob)" using q by (simp add: iobuf_ok_def)
    have "disk_ok d1" using d lb1 by (simp add: disk_ok_def d1_def)
    moreover have "request iob1 (b + k) (n - k)"
      using q k room lim sl by (auto simp: request_def iobuf_ok_def iob1_def diff_mult_distrib2)
    ultimately obtain buf where "length buf = DISK0_BUFSIZE"
      and e: "disk0_loop False (b + k) (4096 * (n - k)) iob1 d1 =
      Some (finished (iob1\<lparr>io_mem := blit (io_mem iob1) (io_base iob1) (slice (4096 * (b + k)) (4096 * (n - k)) (image (ide d1)))\<rparr>) (4096 * (n - k)),
        d1\<lparr>disk0_buffer := buf\<rparr>)"
      using less.IH [of "n - k" d1 "b + k" iob1] k b by (auto simp: d1_def)
    moreover have "blit (io_mem iob1) (io_base iob1) (slice (4096 * (b + k)) (4096 * (n - k)) (image (ide d1))) =
        blit (io_mem iob) (io_base iob) (slice (4096 * b) (4096 * n) (image (ide d)))"
    proof -
      have "4096 * k + 4096 * (n - k) = 4096 * n" using k(3) by simp
      then have "slice (4096 * b) (4096 * k) (image (ide d)) @ slice (4096 * b + 4096 * k) (4096 * (n - k)) (image (ide d)) =
          slice (4096 * b) (4096 * n) (image (ide d))" by (simp add: slice_append_slice)
      then show ?thesis
        using blit_blit [of "io_base iob" "slice (4096 * b) (4096 * k) (image (ide d))" "io_mem iob"
            "slice (4096 * b + 4096 * k) (4096 * (n - k)) (image (ide d))"] room lim k(3) sl
        by (simp add: iob1_def d1_def distrib_left)
    qed
    ultimately show ?thesis
      using step q(2) k(3)
      by (intro exI [of _ buf]) (simp add: finished_def iob1_def d1_def diff_mult_distrib2)
  qed
qed

lemma disk0_loop_write:
  assumes "disk_ok d" "b + n \<le> d_blocks d" "request iob b n"
  shows "\<exists>buf. length buf = DISK0_BUFSIZE \<and> disk0_loop True b (4096 * n) iob d =
    Some (finished iob (4096 * n),
      d\<lparr>disk0_buffer := buf, ide := ide d\<lparr>image := blit (image (ide d)) (4096 * b) (slice (io_base iob) (4096 * n) (io_mem iob))\<rparr>\<rparr>)"
  using assms
proof (induction n arbitrary: b iob d rule: less_induct)
  case (less n)
  note d = less.prems(1) and b = less.prems(2)
  have q: "iobuf_ok iob" "io_resid iob = 4096 * n" "io_offset iob = 4096 * int b"
    using less.prems(3) by (auto simp: request_def)
  have lim: "4096 * b + 4096 * n \<le> length (image (ide d))" "b + n \<le> 2 ^ 25"
    using disk_ok_bound [OF d b] by auto
  show ?case
  proof (cases "n = 0")
    case True
    then have "disk0_loop True b (4096 * n) iob d = Some (iob, d)" by (simp add: disk0_loop.simps)
    moreover have "d\<lparr>disk0_buffer := disk0_buffer d, ide := ide d\<lparr>image := image (ide d)\<rparr>\<rparr> = d" "length (disk0_buffer d) = DISK0_BUFSIZE"
      using d by (simp_all add: disk_ok_def)
    moreover have "finished iob 0 = iob" using q True by (simp add: finished_def)
    ultimately show ?thesis using True lim by (intro exI [of _ "disk0_buffer d"]) simp
  next
    case False
    define k where "k = min 4 n"
    have k: "0 < k" "k \<le> 4" "k \<le> n" "min (4096 * n) DISK0_BUFSIZE = 4096 * k"
      using False by (auto simp: k_def DISK0_BUFSIZE_def DISK0_BLKSIZE_def min_def)
    let ?src = "slice (io_base iob) (4096 * k) (io_mem iob)"
    define buf1 where "buf1 = blit (disk0_buffer d) 0 ?src"
    have bk: "b + k \<le> d_blocks d" using b k(3) by simp
    have room: "io_base iob + 4096 * n \<le> length (io_mem iob)" using q by (simp add: iobuf_ok_def)
    have limk: "4096 * b + 4096 * k \<le> length (image (ide d))" using disk_ok_bound [OF d bk] by simp
    have lb: "length (disk0_buffer d) = 16384" using d by (simp add: disk_ok_def disk_consts)
    have lb1: "length buf1 = DISK0_BUFSIZE" using lb room k by (simp add: buf1_def disk_consts)
    have sl: "slice 0 (4096 * k) buf1 = ?src"
      using slice_blit_same [of 0 ?src "disk0_buffer d"] lb room k by (simp add: buf1_def)
    define d1 where "d1 = d\<lparr>disk0_buffer := buf1, ide := ide d\<lparr>image := blit (image (ide d)) (4096 * b) ?src\<rparr>\<rparr>"
    have "disk_ok (d\<lparr>disk0_buffer := buf1\<rparr>)" using d lb1 by (simp add: disk_ok_def)
    then have wr: "disk0_write_blks_nolock b k (d\<lparr>disk0_buffer := buf1\<rparr>) = Some d1"
      using disk0_write_blks_ok [of "d\<lparr>disk0_buffer := buf1\<rparr>" b k] bk k(1,2) sl by (simp add: d1_def)
    define iob1 where "iob1 = iob\<lparr>io_base := io_base iob + 4096 * k, io_offset := io_offset iob + int (4096 * k),
      io_resid := io_resid iob - 4096 * k\<rparr>"
    obtain r where mv: "iobuf_move (disk0_buffer d) DISK0_BUFSIZE False iob = Some (r, 4096 * k, buf1, iob1)"
    proof -
      have "min (io_resid iob) DISK0_BUFSIZE \<le> length (disk0_buffer d)" using q(2) k lb by simp
      from iobuf_move_from_buffer [OF q(1) this] show ?thesis using that q(2) k(4) by (simp add: buf1_def iob1_def)
    qed
    have "disk0_loop True b (4096 * n) iob d = disk0_loop True ((b + k) mod 2 ^ 32) (4096 * n - 4096 * k) iob1 d1"
      using wr mv k False by (subst disk0_loop.simps) (simp add: DISK0_BLKSIZE_def)
    also have "(b + k) mod 2 ^ 32 = b + k" using lim(2) k(3) by (intro mod_less) simp
    finally have step: "disk0_loop True b (4096 * n) iob d = disk0_loop True (b + k) (4096 * (n - k)) iob1 d1"
      by (simp add: diff_mult_distrib2)
    have "disk_ok d1" using d lb1 limk room k(3) by (simp add: disk_ok_def d1_def)
    moreover have "request iob1 (b + k) (n - k)"
      using q k room by (auto simp: request_def iobuf_ok_def iob1_def diff_mult_distrib2)
    ultimately obtain buf where "length buf = DISK0_BUFSIZE"
      and e: "disk0_loop True (b + k) (4096 * (n - k)) iob1 d1 = Some (finished iob1 (4096 * (n - k)),
        d1\<lparr>disk0_buffer := buf, ide := ide d1\<lparr>image := blit (image (ide d1)) (4096 * (b + k))
          (slice (io_base iob1) (4096 * (n - k)) (io_mem iob1))\<rparr>\<rparr>)"
      using less.IH [of "n - k" d1 "b + k" iob1] k b by (auto simp: d1_def)
    moreover have "blit (image (ide d1)) (4096 * (b + k)) (slice (io_base iob1) (4096 * (n - k)) (io_mem iob1)) =
        blit (image (ide d)) (4096 * b) (slice (io_base iob) (4096 * n) (io_mem iob))"
    proof -
      have "4096 * k + 4096 * (n - k) = 4096 * n" using k(3) by simp
      then have "?src @ slice (io_base iob + 4096 * k) (4096 * (n - k)) (io_mem iob) = slice (io_base iob) (4096 * n) (io_mem iob)"
        by (simp add: slice_append_slice)
      moreover have "length ?src = 4096 * k" using room k(3) by simp
      ultimately show ?thesis
        using blit_blit [of "4096 * b" ?src "image (ide d)" "slice (io_base iob + 4096 * k) (4096 * (n - k)) (io_mem iob)"] limk
        by (simp add: iob1_def d1_def distrib_left)
    qed
    ultimately show ?thesis
      using step q(2) k(3)
      by (intro exI [of _ buf]) (simp add: finished_def iob1_def d1_def diff_mult_distrib2)
  qed
qed

lemma disk0_io_eq:
  assumes "disk_ok d" "b + n \<le> d_blocks d" "request iob b n"
  shows "disk0_io d iob w = do { (iob1, d1) \<leftarrow> disk0_loop w b (4096 * n) iob d; Some (0, iob1, d1) }"
proof -
  have q: "io_resid iob = 4096 * n" "io_offset iob = 4096 * int b" using assms(3) by (auto simp: request_def)
  have lim: "b + n \<le> 2 ^ 25" using disk_ok_bound(2) [OF assms(1,2)] .
  have "int b mod 2 ^ 32 = int b" using lim by (intro mod_pos_pos_trivial) auto
  moreover have "n mod 2 ^ 32 = n" "(b + n) mod 2 ^ 32 = b + n" using lim by (auto intro!: mod_less)
  ultimately show ?thesis
    using assms(2) q by (simp add: disk0_io_def DISK0_BLKSIZE_def Let_def disk0_loop.simps [of w b 0])
qed

section \<open>The device interface\<close>

text \<open>
  What a block device promises about requests for one block of 4096 bytes through \<open>dev->d_io\<close>:
  \<open>blk\<close> is the content of a block, \<open>nblk\<close> their number, \<open>ok\<close> the invariant of the device.
\<close>

locale block_device =
  fixes d_io :: "'d \<Rightarrow> iobuf \<Rightarrow> bool \<Rightarrow> (int \<times> iobuf \<times> 'd) option"
    and ok :: "'d \<Rightarrow> bool" and nblk :: "'d \<Rightarrow> nat" and blk :: "'d \<Rightarrow> nat \<Rightarrow> u8 list"
  assumes blk_length: "ok d \<Longrightarrow> b < nblk d \<Longrightarrow> length (blk d b) = 4096"
    and read_block: "ok d \<Longrightarrow> b < nblk d \<Longrightarrow> request iob b 1 \<Longrightarrow>
      \<exists>d'. d_io d iob False = Some (0, finished (iob\<lparr>io_mem := blit (io_mem iob) (io_base iob) (blk d b)\<rparr>) 4096, d') \<and>
        ok d' \<and> nblk d' = nblk d \<and> (\<forall>c < nblk d. blk d' c = blk d c)"
    and write_block: "ok d \<Longrightarrow> b < nblk d \<Longrightarrow> request iob b 1 \<Longrightarrow>
      \<exists>d'. d_io d iob True = Some (0, finished iob 4096, d') \<and> ok d' \<and> nblk d' = nblk d \<and>
        (\<forall>c < nblk d. blk d' c = (if c = b then slice (io_base iob) 4096 (io_mem iob) else blk d c))"

definition disk_blk :: "disk0 \<Rightarrow> nat \<Rightarrow> u8 list" where
  "disk_blk d b = slice (4096 * b) 4096 (image (ide d))"

interpretation disk: block_device disk0_io disk_ok d_blocks disk_blk
proof (unfold_locales, goal_cases)
  case (1 d b)
  then have "b + 1 \<le> d_blocks d" by simp
  then show ?case using disk_ok_bound(1) [OF 1(1), of b 1] by (simp add: disk_blk_def)
next
  case (2 d b iob)
  then have b: "b + 1 \<le> d_blocks d" by simp
  from disk0_loop_read [OF 2(1) b 2(3)] disk0_io_eq [OF 2(1) b 2(3), of False] obtain buf where
    "length buf = DISK0_BUFSIZE" "disk0_io d iob False =
      Some (0, finished (iob\<lparr>io_mem := blit (io_mem iob) (io_base iob) (disk_blk d b)\<rparr>) 4096, d\<lparr>disk0_buffer := buf\<rparr>)"
    by (auto simp: disk_blk_def)
  then show ?case using 2(1) by (auto simp: disk_ok_def disk_blk_def)
next
  case (3 d b iob)
  then have b: "b + 1 \<le> d_blocks d" by simp
  define img where "img = blit (image (ide d)) (4096 * b) (slice (io_base iob) 4096 (io_mem iob))"
  from disk0_loop_write [OF 3(1) b 3(3)] disk0_io_eq [OF 3(1) b 3(3), of True] obtain buf where
    l: "length buf = DISK0_BUFSIZE" and e: "disk0_io d iob True =
      Some (0, finished iob 4096, d\<lparr>disk0_buffer := buf, ide := ide d\<lparr>image := img\<rparr>\<rparr>)"
    by (auto simp: img_def)
  have room: "io_base iob + 4096 \<le> length (io_mem iob)" using 3(3) by (simp add: request_def iobuf_ok_def)
  have lim: "4096 * b + 4096 \<le> length (image (ide d))" using disk_ok_bound(1) [OF 3(1) b] by simp
  have li: "length img = length (image (ide d))" using room lim by (simp add: img_def)
  have "slice (4096 * c) 4096 img = (if c = b then slice (io_base iob) 4096 (io_mem iob) else slice (4096 * c) 4096 (image (ide d)))"
    if "c < d_blocks d" for c
  proof (cases "c = b")
    case True
    then show ?thesis
      using slice_blit_same [of "4096 * b" "slice (io_base iob) 4096 (io_mem iob)" "image (ide d)"] room lim
      by (simp add: img_def)
  next
    case False
    have "c + 1 \<le> d_blocks d" using that by simp
    then have "4096 * c + 4096 \<le> length (image (ide d))" using disk_ok_bound(1) [OF 3(1), of c 1] by simp
    then show ?thesis
      using slice_blit_other [of "4096 * b" "slice (io_base iob) 4096 (io_mem iob)" "image (ide d)" "4096 * c" 4096] room lim False
      by (simp add: img_def) linarith
  qed
  then show ?case using 3(1) e l li by (auto simp: disk_ok_def disk_blk_def)
qed

section \<open>The properties\<close>

text \<open>
  C19: What \<open>disk0_io\<close> writes it reads back: after a write of \<open>n\<close> blocks, however many passes through
  its four-block buffer that takes, a read of the same blocks delivers the written bytes, and no other
  byte of the disk has changed.
\<close>

theorem disk0_write_read_roundtrip:
  assumes "disk_ok d" and "b + n \<le> d_blocks d" and "request src b n" and "request dst b n"
  shows "\<exists>d1 d2 src1 dst1. disk0_io d src True = Some (0, src1, d1) \<and> disk0_io d1 dst False = Some (0, dst1, d2) \<and>
    io_mem dst1 = blit (io_mem dst) (io_base dst) (slice (io_base src) (4096 * n) (io_mem src)) \<and> io_resid dst1 = 0 \<and>
    image (ide d2) = blit (image (ide d)) (4096 * b) (slice (io_base src) (4096 * n) (io_mem src))"
proof -
  let ?s = "slice (io_base src) (4096 * n) (io_mem src)"
  have room: "io_base src + 4096 * n \<le> length (io_mem src)" using assms(3) by (simp add: request_def iobuf_ok_def)
  have lim: "4096 * b + 4096 * n \<le> length (image (ide d))" using disk_ok_bound(1) [OF assms(1,2)] by simp
  from disk0_loop_write [OF assms(1-3)] disk0_io_eq [OF assms(1-3), of True] obtain buf d1 where
    w: "length buf = DISK0_BUFSIZE" "d1 = d\<lparr>disk0_buffer := buf, ide := ide d\<lparr>image := blit (image (ide d)) (4096 * b) ?s\<rparr>\<rparr>"
    "disk0_io d src True = Some (0, finished src (4096 * n), d1)" by auto
  have ok1: "disk_ok d1" "b + n \<le> d_blocks d1" using assms(1,2) w(1) room lim by (simp_all add: disk_ok_def w(2))
  from disk0_loop_read [OF ok1 assms(4)] disk0_io_eq [OF ok1 assms(4), of False] obtain buf2 where
    r: "disk0_io d1 dst False =
      Some (0, finished (dst\<lparr>io_mem := blit (io_mem dst) (io_base dst) (slice (4096 * b) (4096 * n) (image (ide d1)))\<rparr>) (4096 * n),
        d1\<lparr>disk0_buffer := buf2\<rparr>)" by auto
  have "slice (4096 * b) (4096 * n) (image (ide d1)) = ?s"
    using slice_blit_same [of "4096 * b" ?s "image (ide d)"] room lim by (simp add: w(2))
  then show ?thesis using w r by (simp add: finished_def)
qed

text \<open>A disk of two blocks.\<close>

definition demo_disk :: disk0 where
  "demo_disk = \<lparr>ide = \<lparr>valid = True, nsectors = 16, image = replicate 8192 0\<rparr>,
     disk0_buffer = replicate 16384 0, d_blocks = 2, d_blocksize = 4096\<rparr>"

lemma demo_disk_ok: "disk_ok demo_disk"
  by (simp add: disk_ok_def demo_disk_def disk_consts)

theorem disk0_write_read_roundtrip_witness:
  "\<exists>d1 d2 src1 dst1.
     disk0_io demo_disk (iobuf_init (replicate 8192 7) 0 8192 0) True = Some (0, src1, d1) \<and>
     disk0_io d1 (iobuf_init (replicate 8192 0) 0 8192 0) False = Some (0, dst1, d2) \<and> io_resid dst1 = 0"
proof -
  have "0 + 2 \<le> d_blocks demo_disk" by (simp add: demo_disk_def)
  moreover have "request (iobuf_init (replicate 8192 7) 0 8192 0) 0 2" "request (iobuf_init (replicate 8192 0) 0 8192 0) 0 2"
    by (simp_all add: request_def iobuf_init_def iobuf_ok_def)
  ultimately show ?thesis using disk0_write_read_roundtrip [OF demo_disk_ok] by fast
qed

end
