(* ===== verification/Bitmap.thy ===== *)
theory Bitmap
  imports Prelude
begin

unbundle bit_operations_syntax

text \<open>
  The block bitmap of SFS, \<open>kern/fs/sfs/bitmap.c\<close>: an array of 32-bit words in which a bit that is 1
  marks a free block. The abstraction is the set of free indices.
\<close>

section \<open>The code\<close>

record bitmap =
  nbits :: nat
  nwords :: nat
  bmap :: "u32 list"

definition WORD_BITS :: nat where "WORD_BITS = 32"

definition ROUNDUP_DIV :: "nat \<Rightarrow> nat \<Rightarrow> nat" where
  "ROUNDUP_DIV a n = (a + n - 1) div n"

fun clear_overbits :: "nat \<Rightarrow> nat \<Rightarrow> u32 list \<Rightarrow> u32 list" where
  "clear_overbits 0 ix m = m"
| "clear_overbits (Suc k) ix m =
     clear_overbits k ix (m[ix := m ! ix XOR push_bit (WORD_BITS - Suc k) 1])"

text \<open>
  The parameter is a \<open>uint32_t\<close>, below \<open>2 ^ 32\<close>. \<open>WORD_BITS\<close> is a \<open>size_t\<close>, so that the test
  \<open>nbits + WORD_BITS > nbits\<close> for wrap-around is evaluated in 64 bits and never fails;
  \<open>ROUNDUP_DIV\<close> is computed in 64 bits too. The allocations are taken to succeed.
\<close>

definition bitmap_create :: "nat \<Rightarrow> bitmap option" where
  "bitmap_create n = do {
     c_assert (n \<noteq> 0 \<and> (n + WORD_BITS) mod 2 ^ 64 > n);
     let nw = ROUNDUP_DIV n WORD_BITS;
     let m = replicate nw (- 1);
     if n \<noteq> nw * WORD_BITS then do {
       let ix = nw - 1;
       let over = n - ix * WORD_BITS;
       c_assert (n div WORD_BITS = ix);
       c_assert (over > 0 \<and> over < WORD_BITS);
       Some \<lparr>nbits = n, nwords = nw, bmap = clear_overbits (WORD_BITS - over) ix m\<rparr>
     }
     else Some \<lparr>nbits = n, nwords = nw, bmap = m\<rparr>
   }"

fun find_bit :: "nat \<Rightarrow> nat \<Rightarrow> u32 \<Rightarrow> nat option" where
  "find_bit 0 off w = None"
| "find_bit (Suc k) off w = (if w AND push_bit off 1 \<noteq> 0 then Some off else find_bit k (Suc off) w)"

fun find_word :: "nat \<Rightarrow> nat \<Rightarrow> u32 list \<Rightarrow> nat option" where
  "find_word 0 ix m = None"
| "find_word (Suc k) ix m = (if m ! ix \<noteq> 0 then Some ix else find_word k (Suc ix) m)"

definition bitmap_alloc :: "bitmap \<Rightarrow> (int \<times> nat \<times> bitmap) option" where
  "bitmap_alloc b =
     (case find_word (nwords b) 0 (bmap b) of
        None \<Rightarrow> Some (- E_NO_MEM, 0, b)
      | Some ix \<Rightarrow>
          (case find_bit WORD_BITS 0 (bmap b ! ix) of
             None \<Rightarrow> None
           | Some off \<Rightarrow> Some (0, ix * WORD_BITS + off,
               b\<lparr>bmap := (bmap b)[ix := bmap b ! ix XOR push_bit off 1]\<rparr>)))"

definition bitmap_translate :: "nat \<Rightarrow> bitmap \<Rightarrow> (nat \<times> u32) option" where
  "bitmap_translate index b = do {
     c_assert (index < nbits b);
     Some (index div WORD_BITS, push_bit (index mod WORD_BITS) 1)
   }"

definition bitmap_test :: "nat \<Rightarrow> bitmap \<Rightarrow> bool option" where
  "bitmap_test index b = do {
     (w, mask) \<leftarrow> bitmap_translate index b;
     Some (bmap b ! w AND mask \<noteq> 0)
   }"

definition bitmap_free :: "nat \<Rightarrow> bitmap \<Rightarrow> bitmap option" where
  "bitmap_free index b = do {
     (w, mask) \<leftarrow> bitmap_translate index b;
     c_assert (bmap b ! w AND mask = 0);
     Some (b\<lparr>bmap := (bmap b)[w := bmap b ! w OR mask]\<rparr>)
   }"

definition bitmap_getdata :: "bitmap \<Rightarrow> u32 list \<times> nat" where
  "bitmap_getdata b = (bmap b, 4 * nwords b)"

section \<open>The set of free indices\<close>

definition bit_at :: "bitmap \<Rightarrow> nat \<Rightarrow> bool" where
  "bit_at b i = bit (bmap b ! (i div 32)) (i mod 32)"

definition free_bits :: "bitmap \<Rightarrow> nat set" where
  "free_bits b = {i. i < 32 * nwords b \<and> bit_at b i}"

definition bitmap_ok :: "bitmap \<Rightarrow> bool" where
  "bitmap_ok b \<longleftrightarrow> length (bmap b) = nwords b \<and> nwords b = ROUNDUP_DIV (nbits b) 32 \<and>
     (\<forall>i. nbits b \<le> i \<longrightarrow> i < 32 * nwords b \<longrightarrow> \<not> bit_at b i)"

lemma and_mask_bit: "((w :: u32) AND 2 ^ n = 0) = (\<not> bit w n)"
  by (rule and_exp_eq_0_iff_not_bit)

lemma word_zero_bits: "((w :: u32) = 0) = (\<forall>n < 32. \<not> bit w n)"
  by (auto simp: bit_eq_iff)

lemma find_bit_Some:
  "find_bit k off w = Some r \<Longrightarrow> off + k \<le> 32 \<Longrightarrow> off \<le> r \<and> r < off + k \<and> bit w r \<and> (\<forall>j. off \<le> j \<longrightarrow> j < r \<longrightarrow> \<not> bit w j)"
proof (induction k arbitrary: off)
  case (Suc k)
  show ?case
  proof (cases "bit w off")
    case True
    then show ?thesis using Suc.prems by (auto simp: and_mask_bit)
  next
    case False
    then have "find_bit k (Suc off) w = Some r" using Suc.prems by (simp add: and_mask_bit)
    then have "Suc off \<le> r \<and> r < Suc off + k \<and> bit w r \<and> (\<forall>j. Suc off \<le> j \<longrightarrow> j < r \<longrightarrow> \<not> bit w j)"
      using Suc.IH [of "Suc off"] Suc.prems(2) by simp
    then show ?thesis using False by (metis Suc_leD Suc_leI add_Suc_right add_Suc le_neq_implies_less)
  qed
qed simp

lemma find_bit_None: "find_bit k off w = None \<Longrightarrow> off + k \<le> 32 \<Longrightarrow> \<forall>j. off \<le> j \<longrightarrow> j < off + k \<longrightarrow> \<not> bit w j"
proof (induction k arbitrary: off)
  case (Suc k)
  have a: "\<not> bit w off" using Suc.prems by (auto simp: and_mask_bit split: if_splits)
  have "\<forall>j. Suc off \<le> j \<longrightarrow> j < Suc off + k \<longrightarrow> \<not> bit w j"
    by (rule Suc.IH) (use Suc.prems in \<open>auto simp: and_mask_bit split: if_splits\<close>)
  then show ?case using a by (metis Suc_leI add_Suc_right add_Suc_shift le_neq_implies_less)
qed simp

lemma find_word_Some:
  "find_word k ix m = Some r \<Longrightarrow> ix \<le> r \<and> r < ix + k \<and> m ! r \<noteq> 0 \<and> (\<forall>j. ix \<le> j \<longrightarrow> j < r \<longrightarrow> m ! j = 0)"
proof (induction k arbitrary: ix)
  case (Suc k)
  show ?case
  proof (cases "m ! ix = 0")
    case True
    then have "find_word k (Suc ix) m = Some r" using Suc.prems by simp
    then have "Suc ix \<le> r \<and> r < Suc ix + k \<and> m ! r \<noteq> 0 \<and> (\<forall>j. Suc ix \<le> j \<longrightarrow> j < r \<longrightarrow> m ! j = 0)"
      by (rule Suc.IH)
    then show ?thesis using True by (metis Suc_leD Suc_leI add_Suc_right add_Suc le_neq_implies_less)
  qed (use Suc.prems in auto)
qed simp

lemma find_word_None: "find_word k ix m = None \<Longrightarrow> \<forall>j. ix \<le> j \<longrightarrow> j < ix + k \<longrightarrow> m ! j = 0"
proof (induction k arbitrary: ix)
  case (Suc k)
  then have "m ! ix = 0" "\<forall>j. Suc ix \<le> j \<longrightarrow> j < Suc ix + k \<longrightarrow> m ! j = 0" by (auto split: if_splits)
  then show ?case by (metis Suc_leI add_Suc_right add_Suc_shift le_neq_implies_less)
qed simp

section \<open>Correctness\<close>

lemma bit_at_flip:
  assumes "ix < length (bmap b)" "off < 32"
  shows "bit_at (b\<lparr>bmap := (bmap b)[ix := bmap b ! ix XOR 2 ^ off]\<rparr>) i = (if i = ix * 32 + off then \<not> bit_at b i else bit_at b i)"
proof (cases "i div 32 = ix")
  case True
  then have "(i = ix * 32 + off) = (i mod 32 = off)" using assms(2) by (metis add.commute mod_mult_self3 mod_less div_mult_mod_eq)
  moreover have "i mod 32 < 32" by simp
  ultimately show ?thesis using assms True by (auto simp: bit_at_def bit_simps)
next
  case False
  then have "i \<noteq> ix * 32 + off" using assms(2) by auto
  then show ?thesis using False by (simp add: bit_at_def)
qed

lemma index_less_words: "i < 32 * n \<Longrightarrow> i div 32 < (n::nat)" by simp

lemma free_bits_less: "bitmap_ok b \<Longrightarrow> i \<in> free_bits b \<Longrightarrow> i < nbits b"
  by (auto simp: free_bits_def bitmap_ok_def not_le [symmetric])

lemma finite_free_bits [simp]: "finite (free_bits b)"
  by (rule finite_subset [of _ "{..<32 * nwords b}"]) (auto simp: free_bits_def)

lemma index_below:
  assumes "j < ix * 32 + off" "off < (32 :: nat)"
  shows "j div 32 < ix \<or> j div 32 = ix \<and> j mod 32 < off"
proof -
  have e: "j = j div 32 * 32 + j mod 32" by simp
  consider "j div 32 < ix" | "j div 32 = ix" | "j div 32 \<ge> Suc ix" by linarith
  then show ?thesis
  proof cases
    case 2
    then show ?thesis using e assms by simp
  next
    case 3
    then have "Suc ix * 32 \<le> j div 32 * 32" by (rule mult_le_mono1)
    then show ?thesis using e assms by linarith
  qed simp
qed

lemma bitmap_alloc_cases:
  assumes "bitmap_ok b"
  shows "(free_bits b = {} \<and> bitmap_alloc b = Some (- E_NO_MEM, 0, b)) \<or>
    (free_bits b \<noteq> {} \<and> (\<exists>b'. bitmap_alloc b = Some (0, Min (free_bits b), b') \<and> bitmap_ok b' \<and>
      nbits b' = nbits b \<and> free_bits b' = free_bits b - {Min (free_bits b)}))"
proof (cases "find_word (nwords b) 0 (bmap b)")
  case None
  then have z: "\<And>j. j < nwords b \<Longrightarrow> bmap b ! j = 0" using find_word_None by fastforce
  have "free_bits b = {}" using z by (auto simp: free_bits_def bit_at_def)
  then show ?thesis using None by (simp add: bitmap_alloc_def)
next
  case (Some ix)
  from find_word_Some [OF Some] have ix: "ix < nwords b" "bmap b ! ix \<noteq> 0" "\<And>j. j < ix \<Longrightarrow> bmap b ! j = 0" by auto
  have len: "ix < length (bmap b)" using ix(1) assms by (simp add: bitmap_ok_def)
  obtain off where off: "find_bit WORD_BITS 0 (bmap b ! ix) = Some off"
  proof (cases "find_bit WORD_BITS 0 (bmap b ! ix)")
    case None
    then have "\<forall>n < 32. \<not> bit (bmap b ! ix) n" using find_bit_None [OF None] by (simp add: WORD_BITS_def)
    then show ?thesis using ix(2) word_zero_bits by blast
  qed (use that in auto)
  have o: "off < 32" "bit (bmap b ! ix) off" "\<And>j. j < off \<Longrightarrow> \<not> bit (bmap b ! ix) j"
    using find_bit_Some [OF off] by (auto simp: WORD_BITS_def)
  let ?i = "ix * 32 + off"
  define b' where "b' = b\<lparr>bmap := (bmap b)[ix := bmap b ! ix XOR 2 ^ off]\<rparr>"
  have e: "bitmap_alloc b = Some (0, ?i, b')" using Some off by (simp add: bitmap_alloc_def WORD_BITS_def b'_def)
  have mem: "?i \<in> free_bits b" using o ix(1) by (auto simp: free_bits_def bit_at_def)
  have "?i \<le> j" if "j \<in> free_bits b" for j
  proof (rule ccontr)
    assume "\<not> ?i \<le> j"
    then have "j div 32 < ix \<or> j div 32 = ix \<and> j mod 32 < off" using index_below o(1) by simp
    then show False using that ix(3) o(3) by (auto simp: free_bits_def bit_at_def)
  qed
  then have min: "Min (free_bits b) = ?i" using mem by (intro Min_eqI) auto
  have flip: "bit_at b' i = (if i = ?i then False else bit_at b i)" for i
    using bit_at_flip [OF len o(1), of i] mem by (auto simp: b'_def free_bits_def)
  have "free_bits b' = free_bits b - {?i}" using flip by (auto simp: free_bits_def b'_def split: if_splits)
  moreover have "bitmap_ok b'" using assms flip by (auto simp: bitmap_ok_def b'_def)
  moreover have "nbits b' = nbits b" by (simp add: b'_def)
  ultimately show ?thesis using e mem min by auto
qed

lemma bitmap_test_eq: "bitmap_ok b \<Longrightarrow> i < nbits b \<Longrightarrow> bitmap_test i b = Some (i \<in> free_bits b)"
  by (auto simp: bitmap_test_def bitmap_translate_def c_assert_def WORD_BITS_def and_mask_bit free_bits_def bit_at_def
      bitmap_ok_def ROUNDUP_DIV_def)

lemma bitmap_free_eq:
  assumes "bitmap_ok b" "i < nbits b" "i \<notin> free_bits b"
  shows "\<exists>b'. bitmap_free i b = Some b' \<and> bitmap_ok b' \<and> nbits b' = nbits b \<and> free_bits b' = insert i (free_bits b)"
proof -
  have i: "i < 32 * nwords b" using assms(1,2) by (auto simp: bitmap_ok_def ROUNDUP_DIV_def)
  define b' where "b' = b\<lparr>bmap := (bmap b)[i div 32 := bmap b ! (i div 32) OR 2 ^ (i mod 32)]\<rparr>"
  have nb: "\<not> bit (bmap b ! (i div 32)) (i mod 32)" using assms(3) i by (auto simp: free_bits_def bit_at_def)
  then have e: "bitmap_free i b = Some b'"
    using assms(2) by (simp add: bitmap_free_def bitmap_translate_def WORD_BITS_def and_mask_bit b'_def)
  have "i div 32 < length (bmap b)" using i assms(1) by (simp add: bitmap_ok_def)
  then have flip: "bit_at b' j = (j = i \<or> bit_at b j)" for j
  proof (cases "j div 32 = i div 32")
    case True
    then have "(j = i) = (j mod 32 = i mod 32)" by (metis div_mult_mod_eq)
    then show ?thesis using True \<open>i div 32 < length (bmap b)\<close> by (auto simp: bit_at_def b'_def bit_simps)
  qed (auto simp: bit_at_def b'_def)
  have "free_bits b' = insert i (free_bits b)" using flip i by (auto simp: free_bits_def b'_def)
  moreover have "bitmap_ok b'" using assms flip by (auto simp: bitmap_ok_def b'_def)
  ultimately show ?thesis using e by (auto simp: b'_def)
qed

lemma bitmap_free_double: "bitmap_ok b \<Longrightarrow> i < nbits b \<Longrightarrow> i \<in> free_bits b \<Longrightarrow> bitmap_free i b = None"
  by (simp add: bitmap_free_def bitmap_translate_def WORD_BITS_def and_mask_bit free_bits_def bit_at_def)

lemma length_clear_overbits [simp]: "length (clear_overbits k ix m) = length m"
  by (induction k arbitrary: m) auto

lemma clear_overbits_bit:
  "k \<le> 32 \<Longrightarrow> ix < length m \<Longrightarrow> off < 32 \<Longrightarrow>
   bit (clear_overbits k ix m ! jx) off = (if jx = ix \<and> 32 - k \<le> off then \<not> bit (m ! jx) off else bit (m ! jx) off)"
proof (induction k arbitrary: m)
  case (Suc k)
  let ?m = "m[ix := m ! ix XOR push_bit (WORD_BITS - Suc k) 1]"
  have "bit (?m ! jx) off = (if jx = ix \<and> off = 32 - Suc k then \<not> bit (m ! jx) off else bit (m ! jx) off)"
    using Suc.prems by (auto simp: WORD_BITS_def nth_list_update bit_simps)
  moreover have "bit (clear_overbits k ix ?m ! jx) off =
      (if jx = ix \<and> 32 - k \<le> off then \<not> bit (?m ! jx) off else bit (?m ! jx) off)"
    by (rule Suc.IH) (use Suc.prems in auto)
  moreover have "(32 - Suc k \<le> off) = (off = 32 - Suc k \<or> 32 - k \<le> off)" "\<not> 32 - k \<le> 32 - Suc k"
    using Suc.prems(1) by auto
  ultimately show ?case by auto
qed simp

lemma bitmap_create_ok:
  assumes "0 < n" "n < 2 ^ 32"
  shows "\<exists>b. bitmap_create n = Some b \<and> bitmap_ok b \<and> nbits b = n \<and> free_bits b = {..<n}"
proof -
  define nw where "nw = ROUNDUP_DIV n 32"
  have nw: "n \<le> nw * 32" "nw * 32 < n + 32" "0 < nw" using assms(1) by (auto simp: nw_def ROUNDUP_DIV_def)
  have r: "bit (replicate nw (- 1 :: u32) ! (i div 32)) (i mod 32)" if "i < 32 * nw" for i
    using that by (simp add: bit_simps)
  show ?thesis
  proof (cases "n = nw * 32")
    case True
    define b where "b = \<lparr>nbits = n, nwords = nw, bmap = replicate nw (- 1)\<rparr>"
    have e: "ROUNDUP_DIV (nw * 32) 32 = nw" unfolding ROUNDUP_DIV_def by linarith
    have "bitmap_create n = Some b"
      using assms True e by (simp add: bitmap_create_def c_assert_def WORD_BITS_def b_def Let_def)
    moreover have "free_bits b = {..<n}" using r True by (auto simp: free_bits_def b_def bit_at_def)
    moreover have "bitmap_ok b" using True e by (simp add: bitmap_ok_def b_def)
    ultimately show ?thesis by (auto simp: b_def)
  next
    case False
    define ix where "ix = nw - 1"
    define over where "over = n - ix * 32"
    define b where "b = \<lparr>nbits = n, nwords = nw, bmap = clear_overbits (32 - over) ix (replicate nw (- 1))\<rparr>"
    have o: "0 < over" "over < 32" "n div 32 = ix" "n = ix * 32 + over" "ix < nw"
      using nw False by (auto simp: over_def ix_def)
    have o3: "n div 32 = nw - 1" using o(3) by (simp add: ix_def)
    have "bitmap_create n = Some b"
      using assms False o(1,2) o3 unfolding bitmap_create_def WORD_BITS_def nw_def [symmetric] Let_def ix_def [symmetric] over_def [symmetric] b_def by simp
    moreover have ba: "bit_at b i = (i < n)" if "i < 32 * nw" for i
    proof -
      have "bit_at b i = (if i div 32 = ix \<and> over \<le> i mod 32 then False else True)"
        using clear_overbits_bit [of "32 - over" ix "replicate nw (- 1)" "i mod 32" "i div 32"] o r [OF that]
        by (simp add: bit_at_def b_def)
      moreover have "(i < n) = (\<not> (i div 32 = ix \<and> over \<le> i mod 32))"
      proof
        assume "i < n"
        then show "\<not> (i div 32 = ix \<and> over \<le> i mod 32)" using index_below [of i ix over] o by auto
      next
        assume *: "\<not> (i div 32 = ix \<and> over \<le> i mod 32)"
        have "i div 32 \<le> ix" using that by (simp add: ix_def less_mult_imp_div_less mult.commute Suc_leI less_Suc_eq_le [symmetric] nw(3))
        then consider "i div 32 = ix" "i mod 32 < over" | "Suc (i div 32) \<le> ix" using * by linarith
        then show "i < n"
        proof cases
          case 1
          then show ?thesis using o(4) div_mult_mod_eq [of i 32] by linarith
        next
          case 2
          then have "i < ix * 32" by (simp add: Suc_le_eq div_less_iff_less_mult)
          then show ?thesis using o(4) by simp
        qed
      qed
      ultimately show ?thesis by simp
    qed
    moreover have "free_bits b = {..<n}"
      using ba nw(1) by (auto simp: free_bits_def b_def)
    moreover have "bitmap_ok b" using ba by (auto simp: bitmap_ok_def b_def nw_def)
    ultimately show ?thesis by (auto simp: b_def)
  qed
qed

section \<open>The property\<close>

text \<open>
  C20: The bitmap implements the set of free block numbers: \<open>bitmap_alloc\<close> removes the least element, or
  fails with \<open>E_NO_MEM\<close> on the empty set; \<open>bitmap_test\<close> decides membership; \<open>bitmap_free\<close> inserts a
  number that is not free, and stops in its assertion on one that is.
\<close>

theorem bitmap_refines_free_set:
  assumes "bitmap_ok b"
  shows "(if free_bits b = {} then bitmap_alloc b = Some (- E_NO_MEM, 0, b)
       else \<exists>b'. bitmap_alloc b = Some (0, Min (free_bits b), b') \<and> bitmap_ok b' \<and>
         free_bits b' = free_bits b - {Min (free_bits b)}) \<and>
    (\<forall>i < nbits b. bitmap_test i b = Some (i \<in> free_bits b)) \<and>
    (\<forall>i < nbits b. if i \<in> free_bits b then bitmap_free i b = None
       else \<exists>b'. bitmap_free i b = Some b' \<and> bitmap_ok b' \<and> free_bits b' = insert i (free_bits b))"
proof (intro conjI allI impI)
  show "if free_bits b = {} then bitmap_alloc b = Some (- E_NO_MEM, 0, b)
       else \<exists>b'. bitmap_alloc b = Some (0, Min (free_bits b), b') \<and> bitmap_ok b' \<and>
         free_bits b' = free_bits b - {Min (free_bits b)}"
    using bitmap_alloc_cases [OF assms] by auto
  fix i assume i: "i < nbits b"
  show "bitmap_test i b = Some (i \<in> free_bits b)" by (rule bitmap_test_eq [OF assms i])
  show "if i \<in> free_bits b then bitmap_free i b = None
       else \<exists>b'. bitmap_free i b = Some b' \<and> bitmap_ok b' \<and> free_bits b' = insert i (free_bits b)"
    using bitmap_free_eq [OF assms i] bitmap_free_double [OF assms i] by auto
qed

theorem bitmap_refines_free_set_witness:
  "\<exists>b. bitmap_create 40 = Some b \<and> free_bits b = {..<40} \<and> bitmap_test 39 b = Some True \<and> bitmap_free 5 b = None"
proof -
  obtain b where b: "bitmap_create 40 = Some b" "bitmap_ok b" "nbits b = 40" "free_bits b = {..<40}"
    using bitmap_create_ok [of 40] by auto
  show ?thesis using bitmap_refines_free_set [OF b(2)] b by fastforce
qed

end
