(* ===== verification/SfsIo.thy ===== *)
theory SfsIo
  imports Disk Bitmap
begin

text \<open>
  The state of a mounted SFS file system and its block input and output, \<open>kern/fs/sfs/sfs_io.c\<close>, with
  the on-disk layout of \<open>kern/fs/sfs/sfs.h\<close>. The device is the function pointer \<open>dev->d_io\<close>, an
  argument \<open>io\<close> of the operations; the lemmas about it are proved in the locale \<open>block_device\<close>. Each
  critical section between \<open>lock_sfs_io\<close> and \<open>unlock_sfs_io\<close> is one step of the model.
\<close>

section \<open>Little-endian fields\<close>

fun le_bytes :: "nat \<Rightarrow> nat \<Rightarrow> u8 list" where
  "le_bytes 0 n = []"
| "le_bytes (Suc k) n = of_nat n # le_bytes k (n div 256)"

fun le_value :: "u8 list \<Rightarrow> nat" where
  "le_value [] = 0"
| "le_value (b # bs) = unat b + 256 * le_value bs"

lemma length_le_bytes [simp]: "length (le_bytes k n) = k"
  by (induction k arbitrary: n) auto

lemma le_value_bytes: "n < 256 ^ k \<Longrightarrow> le_value (le_bytes k n) = n"
proof (induction k arbitrary: n)
  case (Suc k)
  then have "n div 256 < 256 ^ k" by (simp add: less_mult_imp_div_less mult.commute)
  then have "le_value (le_bytes k (n div 256)) = n div 256" by (rule Suc.IH)
  then show ?case by (simp add: unat_of_nat)
qed simp

lemma le_value_less: "le_value bs < 256 ^ length bs"
proof (induction bs)
  case (Cons b bs)
  have "unat b < 256" using unsigned_less [of b] by simp
  then have "unat b + 256 * le_value bs < 256 * (le_value bs + 1)" by simp
  also have "\<dots> \<le> 256 * 256 ^ length bs" using Cons by simp
  finally show ?case by simp
qed simp

lemma le_bytes_value: "le_bytes (length bs) (le_value bs) = bs"
proof (induction bs)
  case (Cons b bs)
  have b: "unat b < 256" using unsigned_less [of b] by simp
  have "(unat b + 256 * le_value bs) div 256 = le_value bs" using b by simp
  moreover have "(of_nat (unat b + 256 * le_value bs) :: u8) = b"
  proof -
    have "(of_nat (256 * le_value bs) :: u8) = 0" by (simp only: word_of_nat_eq_0_iff) simp
    then show ?thesis by (simp only: of_nat_add) simp
  qed
  ultimately show ?case using Cons by simp
qed simp

section \<open>Layout\<close>

definition SFS_BLKSIZE :: nat where "SFS_BLKSIZE = 4096"
definition SFS_MAGIC :: nat where "SFS_MAGIC = 0x2f8dbe2a"
definition SFS_NDIRECT :: nat where "SFS_NDIRECT = 12"
definition SFS_MAX_FILE_SIZE :: int where "SFS_MAX_FILE_SIZE = 1024 * 1024 * 128"
definition SFS_BLKN_SUPER :: nat where "SFS_BLKN_SUPER = 0"
definition SFS_BLKN_ROOT :: nat where "SFS_BLKN_ROOT = 1"
definition SFS_BLKN_FREEMAP :: nat where "SFS_BLKN_FREEMAP = 2"
definition SFS_BLKBITS :: nat where "SFS_BLKBITS = SFS_BLKSIZE * 8"
definition SFS_BLK_NENTRY :: nat where "SFS_BLK_NENTRY = SFS_BLKSIZE div 4"

lemmas sfs_consts = SFS_BLKSIZE_def SFS_NDIRECT_def SFS_BLK_NENTRY_def SFS_BLKBITS_def
  SFS_BLKN_SUPER_def SFS_BLKN_ROOT_def SFS_BLKN_FREEMAP_def

definition SFS_TYPE_FILE :: nat where "SFS_TYPE_FILE = 1"
definition SFS_TYPE_DIR :: nat where "SFS_TYPE_DIR = 2"
definition SFS_TYPE_LINK :: nat where "SFS_TYPE_LINK = 3"

record sfs_super =
  s_magic :: nat
  s_blocks :: nat
  s_unused :: nat
  s_info :: "u8 list"

record sfs_disk_inode =
  di_size :: nat
  di_type :: nat
  di_nlinks :: nat
  di_blocks :: nat
  di_direct :: "nat list"
  di_indirect :: nat

record sfs_disk_entry =
  de_ino :: nat
  de_name :: "u8 list"

record 'd sfs_fs =
  super :: sfs_super
  dev :: 'd
  freemap :: bitmap
  super_dirty :: bool
  sfs_buffer :: "u8 list"

definition enc_super :: "sfs_super \<Rightarrow> u8 list" where
  "enc_super s = le_bytes 4 (s_magic s) @ le_bytes 4 (s_blocks s) @ le_bytes 4 (s_unused s) @ s_info s"

definition dec_super :: "u8 list \<Rightarrow> sfs_super" where
  "dec_super bs = \<lparr>s_magic = le_value (slice 0 4 bs), s_blocks = le_value (slice 4 4 bs),
     s_unused = le_value (slice 8 4 bs), s_info = slice 12 32 bs\<rparr>"

definition enc_inode :: "sfs_disk_inode \<Rightarrow> u8 list" where
  "enc_inode d = le_bytes 4 (di_size d) @ le_bytes 2 (di_type d) @ le_bytes 2 (di_nlinks d) @
     le_bytes 4 (di_blocks d) @ concat (map (le_bytes 4) (di_direct d)) @ le_bytes 4 (di_indirect d)"

definition dec_inode :: "u8 list \<Rightarrow> sfs_disk_inode" where
  "dec_inode bs = \<lparr>di_size = le_value (slice 0 4 bs), di_type = le_value (slice 4 2 bs),
     di_nlinks = le_value (slice 6 2 bs), di_blocks = le_value (slice 8 4 bs),
     di_direct = map (\<lambda>i. le_value (slice (12 + 4 * i) 4 bs)) [0..<12],
     di_indirect = le_value (slice 60 4 bs)\<rparr>"

definition dec_entry :: "u8 list \<Rightarrow> sfs_disk_entry" where
  "dec_entry bs = \<lparr>de_ino = le_value (slice 0 4 bs), de_name = slice 4 256 bs\<rparr>"

definition inode_wf :: "sfs_disk_inode \<Rightarrow> bool" where
  "inode_wf d \<longleftrightarrow> di_size d < 2 ^ 32 \<and> di_type d < 2 ^ 16 \<and> di_nlinks d < 2 ^ 16 \<and> di_blocks d < 2 ^ 32 \<and>
     length (di_direct d) = 12 \<and> (\<forall>b \<in> set (di_direct d). b < 2 ^ 32) \<and> di_indirect d < 2 ^ 32"

definition super_wf :: "sfs_super \<Rightarrow> bool" where
  "super_wf s \<longleftrightarrow> s_magic s < 2 ^ 32 \<and> s_blocks s < 2 ^ 32 \<and> s_unused s < 2 ^ 32 \<and> length (s_info s) = 32"

lemma slice_append_left: "p + n \<le> length xs \<Longrightarrow> slice p n (xs @ ys) = slice p n xs"
  by (simp add: slice_def)

lemma slice_append_right: "length xs \<le> p \<Longrightarrow> slice p n (xs @ ys) = slice (p - length xs) n ys"
  by (simp add: slice_def)

lemma slice_append_here: "length xs = n \<Longrightarrow> slice 0 n (xs @ ys) = xs"
  by (simp add: slice_def)

lemma length_concat_fields: "length (concat (map (le_bytes 4) xs)) = 4 * length xs"
  by (induction xs) auto

lemma slice_fields: "i < length xs \<Longrightarrow> slice (4 * i) 4 (concat (map (le_bytes 4) xs) @ ys) = le_bytes 4 (xs ! i)"
proof (induction xs arbitrary: i)
  case (Cons x xs)
  show ?case
  proof (cases i)
    case 0
    then show ?thesis by (simp add: slice_append_here)
  next
    case (Suc j)
    then show ?thesis using Cons by (simp add: slice_append_right)
  qed
qed simp

lemma length_enc_inode: "inode_wf d \<Longrightarrow> length (enc_inode d) = 64"
  by (simp add: enc_inode_def inode_wf_def length_concat_fields)

lemma dec_enc_inode: "inode_wf d \<Longrightarrow> dec_inode (enc_inode d @ rest) = d"
proof -
  assume w: "inode_wf d"
  let ?f = "concat (map (le_bytes 4) (di_direct d))"
  have v: "le_value (le_bytes 4 n) = n" if "n < 2 ^ 32" for n using that by (intro le_value_bytes) simp
  have v2: "le_value (le_bytes 2 n) = n" if "n < 2 ^ 16" for n using that by (intro le_value_bytes) simp
  have l: "length (di_direct d) = 12" "length ?f = 48" using w by (simp_all add: inode_wf_def length_concat_fields)
  have "map (\<lambda>i. le_value (slice (12 + 4 * i) 4 (enc_inode d @ rest))) [0..<12] = di_direct d"
  proof (rule nth_equalityI)
    fix i assume "i < length (map (\<lambda>i. le_value (slice (12 + 4 * i) 4 (enc_inode d @ rest))) [0..<12])"
    then have i: "i < 12" by simp
    have "slice (12 + 4 * i) 4 (enc_inode d @ rest) = slice (4 * i) 4 (?f @ le_bytes 4 (di_indirect d) @ rest)"
      by (simp add: enc_inode_def slice_append_right)
    also have "\<dots> = le_bytes 4 (di_direct d ! i)" using slice_fields [of i "di_direct d"] i l by simp
    finally have e: "slice (12 + 4 * i) 4 (enc_inode d @ rest) = le_bytes 4 (di_direct d ! i)" .
    have "di_direct d ! i \<in> set (di_direct d)" using i l(1) by simp
    then have "le_value (le_bytes 4 (di_direct d ! i)) = di_direct d ! i" using w by (intro v) (simp add: inode_wf_def)
    then show "map (\<lambda>i. le_value (slice (12 + 4 * i) 4 (enc_inode d @ rest))) [0..<12] ! i = di_direct d ! i"
      using i e by simp
  qed (simp add: l)
  moreover have "slice 60 4 (enc_inode d @ rest) = le_bytes 4 (di_indirect d)"
    using l by (simp add: enc_inode_def slice_append_right slice_append_here)
  ultimately show ?thesis
    using w v v2 by (simp add: dec_inode_def enc_inode_def slice_append_right slice_append_here inode_wf_def)
qed

lemma dec_enc_super: "super_wf s \<Longrightarrow> dec_super (enc_super s @ rest) = s"
  by (simp add: dec_super_def enc_super_def slice_append_right slice_append_here super_wf_def le_value_bytes)

section \<open>The code\<close>

type_synonym 'd dev_io = "'d \<Rightarrow> iobuf \<Rightarrow> bool \<Rightarrow> (int \<times> iobuf \<times> 'd) option"

text \<open>The position \<open>blkno * SFS_BLKSIZE\<close> is computed in 32 bits.\<close>

definition sfs_rwblock_nolock ::
  "'d dev_io \<Rightarrow> u8 list \<Rightarrow> nat \<Rightarrow> nat \<Rightarrow> bool \<Rightarrow> bool \<Rightarrow> 'd sfs_fs \<Rightarrow> (int \<times> u8 list \<times> 'd sfs_fs) option" where
  "sfs_rwblock_nolock io mem pos blkno w check sfs = do {
     c_assert ((blkno \<noteq> 0 \<or> \<not> check) \<and> blkno < s_blocks (super sfs));
     (ret, iob, d) \<leftarrow> io (dev sfs) (iobuf_init mem pos SFS_BLKSIZE (int (blkno * SFS_BLKSIZE mod 2 ^ 32))) w;
     Some (ret, io_mem iob, sfs\<lparr>dev := d\<rparr>)
   }"

fun sfs_rwblock ::
  "'d dev_io \<Rightarrow> u8 list \<Rightarrow> nat \<Rightarrow> nat \<Rightarrow> nat \<Rightarrow> bool \<Rightarrow> 'd sfs_fs \<Rightarrow> (int \<times> u8 list \<times> 'd sfs_fs) option" where
  "sfs_rwblock io mem pos blkno 0 w sfs = Some (0, mem, sfs)"
| "sfs_rwblock io mem pos blkno (Suc n) w sfs = do {
     (ret, mem1, sfs1) \<leftarrow> sfs_rwblock_nolock io mem pos blkno w True sfs;
     if ret \<noteq> 0 then Some (ret, mem1, sfs1)
     else sfs_rwblock io mem1 (pos + SFS_BLKSIZE) (blkno + 1) n w sfs1
   }"

definition sfs_rblock :: "'d dev_io \<Rightarrow> u8 list \<Rightarrow> nat \<Rightarrow> nat \<Rightarrow> 'd sfs_fs \<Rightarrow> (int \<times> u8 list \<times> 'd sfs_fs) option" where
  "sfs_rblock io mem blkno n sfs = sfs_rwblock io mem 0 blkno n False sfs"

definition sfs_wblock :: "'d dev_io \<Rightarrow> u8 list \<Rightarrow> nat \<Rightarrow> nat \<Rightarrow> 'd sfs_fs \<Rightarrow> (int \<times> u8 list \<times> 'd sfs_fs) option" where
  "sfs_wblock io mem blkno n sfs = sfs_rwblock io mem 0 blkno n True sfs"

text \<open>\<open>sfs_rbuf\<close> returns the bytes it copies to its buffer, none when it fails.\<close>

definition sfs_rbuf :: "'d dev_io \<Rightarrow> nat \<Rightarrow> nat \<Rightarrow> nat \<Rightarrow> 'd sfs_fs \<Rightarrow> (int \<times> u8 list \<times> 'd sfs_fs) option" where
  "sfs_rbuf io len blkno off sfs = do {
     c_assert (off < SFS_BLKSIZE \<and> off + len \<le> SFS_BLKSIZE);
     (ret, buf, sfs1) \<leftarrow> sfs_rwblock_nolock io (sfs_buffer sfs) 0 blkno False True sfs;
     let sfs2 = sfs1\<lparr>sfs_buffer := buf\<rparr>;
     if ret = 0 then Some (0, slice off len buf, sfs2) else Some (ret, [], sfs2)
   }"

definition sfs_wbuf :: "'d dev_io \<Rightarrow> u8 list \<Rightarrow> nat \<Rightarrow> nat \<Rightarrow> 'd sfs_fs \<Rightarrow> (int \<times> 'd sfs_fs) option" where
  "sfs_wbuf io src blkno off sfs = do {
     c_assert (off < SFS_BLKSIZE \<and> off + length src \<le> SFS_BLKSIZE);
     (ret, buf, sfs1) \<leftarrow> sfs_rwblock_nolock io (sfs_buffer sfs) 0 blkno False True sfs;
     if ret = 0 then do {
       (ret2, buf2, sfs2) \<leftarrow> sfs_rwblock_nolock io (blit buf off src) 0 blkno True True sfs1;
       Some (ret2, sfs2\<lparr>sfs_buffer := buf2\<rparr>)
     }
     else Some (ret, sfs1\<lparr>sfs_buffer := buf\<rparr>)
   }"

definition sfs_sync_super :: "'d dev_io \<Rightarrow> 'd sfs_fs \<Rightarrow> (int \<times> 'd sfs_fs) option" where
  "sfs_sync_super io sfs = do {
     let buf = blit (replicate SFS_BLKSIZE 0) 0 (enc_super (super sfs));
     (ret, buf2, sfs2) \<leftarrow> sfs_rwblock_nolock io buf 0 SFS_BLKN_SUPER True False sfs;
     Some (ret, sfs2\<lparr>sfs_buffer := buf2\<rparr>)
   }"

definition sfs_freemap_blocks :: "sfs_super \<Rightarrow> nat" where
  "sfs_freemap_blocks s = ROUNDUP_DIV (s_blocks s) SFS_BLKBITS"

definition sfs_freemap_bits :: "sfs_super \<Rightarrow> nat" where
  "sfs_freemap_bits s = ROUNDUP_DIV (s_blocks s) SFS_BLKBITS * SFS_BLKBITS mod 2 ^ 32"

text \<open>The words of the bitmap as the bytes they occupy in memory, and back.\<close>

definition map_bytes :: "u32 list \<Rightarrow> u8 list" where
  "map_bytes m = concat (map (\<lambda>w. le_bytes 4 (unat w)) m)"

definition sfs_sync_freemap :: "'d dev_io \<Rightarrow> 'd sfs_fs \<Rightarrow> (int \<times> 'd sfs_fs) option" where
  "sfs_sync_freemap io sfs = do {
     (ret, mem, sfs1) \<leftarrow> sfs_wblock io (map_bytes (fst (bitmap_getdata (freemap sfs)))) SFS_BLKN_FREEMAP
       (sfs_freemap_blocks (super sfs)) sfs;
     Some (ret, sfs1)
   }"

fun sfs_clear_loop :: "'d dev_io \<Rightarrow> int \<Rightarrow> nat \<Rightarrow> nat \<Rightarrow> 'd sfs_fs \<Rightarrow> (int \<times> 'd sfs_fs) option" where
  "sfs_clear_loop io ret blkno 0 sfs = Some (ret, sfs)"
| "sfs_clear_loop io ret blkno (Suc n) sfs = do {
     (ret1, buf, sfs1) \<leftarrow> sfs_rwblock_nolock io (sfs_buffer sfs) 0 blkno True True sfs;
     let sfs2 = sfs1\<lparr>sfs_buffer := buf\<rparr>;
     if ret1 \<noteq> 0 then Some (ret1, sfs2) else sfs_clear_loop io ret1 (blkno + 1) n sfs2
   }"

text \<open>With \<open>nblks = 0\<close> the code returns an uninitialised variable.\<close>

definition sfs_clear_block :: "'d dev_io \<Rightarrow> nat \<Rightarrow> nat \<Rightarrow> 'd sfs_fs \<Rightarrow> (int \<times> 'd sfs_fs) option" where
  "sfs_clear_block io blkno n sfs =
     (if n = 0 then None
      else sfs_clear_loop io 0 blkno n (sfs\<lparr>sfs_buffer := replicate SFS_BLKSIZE 0\<rparr>))"

section \<open>Correctness over a block device\<close>

definition sfs_dev_ok :: "('d \<Rightarrow> bool) \<Rightarrow> ('d \<Rightarrow> nat) \<Rightarrow> 'd sfs_fs \<Rightarrow> bool" where
  "sfs_dev_ok ok nblk s \<longleftrightarrow> ok (dev s) \<and> s_blocks (super s) \<le> nblk (dev s) \<and> s_blocks (super s) \<le> 2 ^ 20 \<and>
     length (sfs_buffer s) = 4096"

text \<open>The step from \<open>s\<close> to \<open>s'\<close> touches the device and the bounce buffer only; the blocks are now \<open>F\<close>.\<close>

definition io_eff ::
  "('d \<Rightarrow> bool) \<Rightarrow> ('d \<Rightarrow> nat) \<Rightarrow> ('d \<Rightarrow> nat \<Rightarrow> u8 list) \<Rightarrow> 'd sfs_fs \<Rightarrow> (nat \<Rightarrow> u8 list) \<Rightarrow> 'd sfs_fs \<Rightarrow> bool" where
  "io_eff ok nblk blk s F s' \<longleftrightarrow> sfs_dev_ok ok nblk s' \<and> super s' = super s \<and> freemap s' = freemap s \<and>
     super_dirty s' = super_dirty s \<and> (\<forall>c < s_blocks (super s). blk (dev s') c = F c)"

lemma io_eff_super:
  "io_eff ok nblk blk s F s' \<Longrightarrow> super s' = super s" "io_eff ok nblk blk s F s' \<Longrightarrow> freemap s' = freemap s"
  "io_eff ok nblk blk s F s' \<Longrightarrow> super_dirty s' = super_dirty s"
  "io_eff ok nblk blk s F s' \<Longrightarrow> sfs_dev_ok ok nblk s'"
  by (simp_all add: io_eff_def)

lemma io_eff_blk: "io_eff ok nblk blk s F s' \<Longrightarrow> c < s_blocks (super s) \<Longrightarrow> blk (dev s') c = F c"
  by (simp add: io_eff_def)

lemma io_eff_trans:
  "io_eff ok nblk blk s F s' \<Longrightarrow> io_eff ok nblk blk s' G s'' \<Longrightarrow> io_eff ok nblk blk s G s''"
  by (simp add: io_eff_def)

lemma io_eff_cong:
  "io_eff ok nblk blk s F s' \<Longrightarrow> (\<And>c. c < s_blocks (super s) \<Longrightarrow> F c = G c) \<Longrightarrow> io_eff ok nblk blk s G s'"
  by (simp add: io_eff_def)

context block_device
begin

lemma rw_request:
  assumes "sfs_dev_ok ok nblk s" "b < s_blocks (super s)" "pos + 4096 \<le> length mem"
  shows "request (iobuf_init mem pos SFS_BLKSIZE (int (b * SFS_BLKSIZE mod 2 ^ 32))) b 1" "b < nblk (dev s)" "ok (dev s)"
proof -
  have "b < 2 ^ 20" using assms by (simp add: sfs_dev_ok_def)
  then have "b * 4096 mod 2 ^ 32 = b * 4096" by (intro mod_less) simp
  then show "request (iobuf_init mem pos SFS_BLKSIZE (int (b * SFS_BLKSIZE mod 2 ^ 32))) b 1"
    using assms(3) by (simp add: request_def iobuf_init_def iobuf_ok_def SFS_BLKSIZE_def)
qed (use assms in \<open>auto simp: sfs_dev_ok_def\<close>)

lemma rw_read:
  assumes s: "sfs_dev_ok ok nblk s" and b: "b < s_blocks (super s)" "b \<noteq> 0 \<or> \<not> check" and m: "pos + 4096 \<le> length mem"
  shows "\<exists>s'. sfs_rwblock_nolock d_io mem pos b False check s = Some (0, blit mem pos (blk (dev s) b), s') \<and>
    io_eff ok nblk blk s (blk (dev s)) s' \<and> sfs_buffer s' = sfs_buffer s"
proof -
  note r = rw_request [OF s b(1) m]
  from read_block [OF r(3,2,1)] obtain d' where
    d: "d_io (dev s) (iobuf_init mem pos SFS_BLKSIZE (int (b * SFS_BLKSIZE mod 2 ^ 32))) False =
      Some (0, finished (iobuf_init mem pos SFS_BLKSIZE (int (b * SFS_BLKSIZE mod 2 ^ 32))
        \<lparr>io_mem := blit mem pos (blk (dev s) b)\<rparr>) 4096, d')"
    "ok d'" "nblk d' = nblk (dev s)" "\<forall>c < nblk (dev s). blk d' c = blk (dev s) c"
    by (auto simp: iobuf_init_def)
  have e: "io_eff ok nblk blk s (blk (dev s)) (s\<lparr>dev := d'\<rparr>)" using d s by (simp add: io_eff_def sfs_dev_ok_def)
  have "sfs_rwblock_nolock d_io mem pos b False check s = Some (0, blit mem pos (blk (dev s) b), s\<lparr>dev := d'\<rparr>)"
    using d(1) b by (simp add: sfs_rwblock_nolock_def finished_def)
  then show ?thesis using e by auto
qed

lemma rw_write:
  assumes s: "sfs_dev_ok ok nblk s" and b: "b < s_blocks (super s)" "b \<noteq> 0 \<or> \<not> check" and m: "pos + 4096 \<le> length mem"
  shows "\<exists>s'. sfs_rwblock_nolock d_io mem pos b True check s = Some (0, mem, s') \<and>
    io_eff ok nblk blk s ((blk (dev s))(b := slice pos 4096 mem)) s' \<and> sfs_buffer s' = sfs_buffer s"
proof -
  note r = rw_request [OF s b(1) m]
  from write_block [OF r(3,2,1)] obtain d' where
    d: "d_io (dev s) (iobuf_init mem pos SFS_BLKSIZE (int (b * SFS_BLKSIZE mod 2 ^ 32))) True =
      Some (0, finished (iobuf_init mem pos SFS_BLKSIZE (int (b * SFS_BLKSIZE mod 2 ^ 32))) 4096, d')"
    "ok d'" "nblk d' = nblk (dev s)" "\<forall>c < nblk (dev s). blk d' c = (if c = b then slice pos 4096 mem else blk (dev s) c)"
    by (auto simp: iobuf_init_def)
  have e: "io_eff ok nblk blk s ((blk (dev s))(b := slice pos 4096 mem)) (s\<lparr>dev := d'\<rparr>)"
    using d s by (auto simp: io_eff_def sfs_dev_ok_def)
  have "sfs_rwblock_nolock d_io mem pos b True check s = Some (0, mem, s\<lparr>dev := d'\<rparr>)"
    using d(1) b by (simp add: sfs_rwblock_nolock_def finished_def iobuf_init_def)
  then show ?thesis using e by auto
qed

lemma block_length: "sfs_dev_ok ok nblk s \<Longrightarrow> b < s_blocks (super s) \<Longrightarrow> length (blk (dev s) b) = 4096"
  using blk_length by (auto simp: sfs_dev_ok_def)

text \<open>The bounce buffer is replaced as a whole.\<close>

lemma io_eff_buffer: "io_eff ok nblk blk s F s' \<Longrightarrow> length buf = 4096 \<Longrightarrow> io_eff ok nblk blk s F (s'\<lparr>sfs_buffer := buf\<rparr>)"
  by (auto simp: io_eff_def sfs_dev_ok_def)

lemma blit_whole: "length dst = 4096 \<Longrightarrow> length src = 4096 \<Longrightarrow> blit dst 0 src = src"
  by (simp add: blit_def)

lemma sfs_rbuf_ok:
  assumes s: "sfs_dev_ok ok nblk s" and b: "b < s_blocks (super s)" "b \<noteq> 0" and o: "off < 4096" "off + len \<le> 4096"
  shows "\<exists>s'. sfs_rbuf d_io len b off s = Some (0, slice off len (blk (dev s) b), s') \<and> io_eff ok nblk blk s (blk (dev s)) s'"
proof -
  have l: "length (sfs_buffer s) = 4096" using s by (simp add: sfs_dev_ok_def)
  from rw_read [OF s b(1), of True 0 "sfs_buffer s"] b(2) l obtain s' where
    r: "sfs_rwblock_nolock d_io (sfs_buffer s) 0 b False True s = Some (0, blk (dev s) b, s')"
    "io_eff ok nblk blk s (blk (dev s)) s'"
    using blit_whole [OF l block_length [OF s b(1)]] by auto
  then show ?thesis
    using o block_length [OF s b(1)]
    by (intro exI [of _ "s'\<lparr>sfs_buffer := blk (dev s) b\<rparr>"]) (simp add: sfs_rbuf_def SFS_BLKSIZE_def io_eff_buffer)
qed

lemma sfs_wbuf_ok:
  assumes s: "sfs_dev_ok ok nblk s" and b: "b < s_blocks (super s)" "b \<noteq> 0" and o: "off < 4096" "off + length src \<le> 4096"
  shows "\<exists>s'. sfs_wbuf d_io src b off s = Some (0, s') \<and>
    io_eff ok nblk blk s ((blk (dev s))(b := blit (blk (dev s) b) off src)) s'"
proof -
  have l: "length (sfs_buffer s) = 4096" using s by (simp add: sfs_dev_ok_def)
  from rw_read [OF s b(1), of True 0 "sfs_buffer s"] b(2) l obtain s1 where
    r: "sfs_rwblock_nolock d_io (sfs_buffer s) 0 b False True s = Some (0, blk (dev s) b, s1)"
    "io_eff ok nblk blk s (blk (dev s)) s1"
    using blit_whole [OF l block_length [OF s b(1)]] by auto
  let ?m = "blit (blk (dev s) b) off src"
  have lm: "length ?m = 4096" using block_length [OF s b(1)] o by simp
  have b1: "b < s_blocks (super s1)" using b io_eff_super(1) [OF r(2)] by simp
  from rw_write [OF io_eff_super(4) [OF r(2)] b1, of True 0 ?m] b(2) lm obtain s2 where
    w: "sfs_rwblock_nolock d_io ?m 0 b True True s1 = Some (0, ?m, s2)"
    "io_eff ok nblk blk s1 ((blk (dev s1))(b := ?m)) s2" by (auto simp: slice_def)
  have "io_eff ok nblk blk s ((blk (dev s))(b := ?m)) s2"
    by (rule io_eff_cong [OF io_eff_trans [OF r(2) w(2)]]) (use io_eff_blk [OF r(2)] in auto)
  then show ?thesis
    using r(1) w(1) o lm by (intro exI [of _ "s2\<lparr>sfs_buffer := ?m\<rparr>"]) (simp add: sfs_wbuf_def SFS_BLKSIZE_def io_eff_buffer)
qed

lemma sfs_clear_block_ok:
  assumes s: "sfs_dev_ok ok nblk s" and b: "b < s_blocks (super s)" "b \<noteq> 0"
  shows "\<exists>s'. sfs_clear_block d_io b 1 s = Some (0, s') \<and>
    io_eff ok nblk blk s ((blk (dev s))(b := replicate 4096 0)) s'"
proof -
  let ?s = "s\<lparr>sfs_buffer := replicate SFS_BLKSIZE 0\<rparr>"
  have s1: "sfs_dev_ok ok nblk ?s" using s by (simp add: sfs_dev_ok_def SFS_BLKSIZE_def)
  from rw_write [OF s1, of b True 0 "replicate SFS_BLKSIZE 0"] b obtain s' where
    w: "sfs_rwblock_nolock d_io (replicate SFS_BLKSIZE 0) 0 b True True ?s = Some (0, replicate SFS_BLKSIZE 0, s')"
    "io_eff ok nblk blk ?s ((blk (dev s))(b := replicate 4096 0)) s'"
    by (auto simp: slice_def SFS_BLKSIZE_def)
  then have "io_eff ok nblk blk s ((blk (dev s))(b := replicate 4096 0)) (s'\<lparr>sfs_buffer := replicate SFS_BLKSIZE 0\<rparr>)"
    by (auto simp: io_eff_def sfs_dev_ok_def SFS_BLKSIZE_def)
  then show ?thesis using w(1) by (auto simp: sfs_clear_block_def)
qed

end

end
