(* ===== verification/SfsBmap.thy ===== *)
theory SfsBmap
  imports SfsIo
begin

text \<open>
  Block allocation and the block map of SFS inodes, \<open>sfs_block_alloc\<close> to \<open>sfs_bmap_truncate_nolock\<close> and
  \<open>sfs_truncfile\<close> of \<open>kern/fs/sfs/sfs_inode.c\<close>: twelve direct blocks and one indirect block of 1024
  entries. A call returns its error code, its results and the new in-memory inode and file system.
\<close>

section \<open>The code\<close>

record sfs_inode =
  din :: sfs_disk_inode
  ino :: nat
  dirty :: bool
  reclaim_count :: int

definition sfs_block_inuse :: "'d sfs_fs \<Rightarrow> nat \<Rightarrow> bool option" where
  "sfs_block_inuse sfs n =
     (if n \<noteq> 0 \<and> n < s_blocks (super sfs) then do { t \<leftarrow> bitmap_test n (freemap sfs); Some (\<not> t) }
      else None)"

definition sfs_block_alloc :: "'d dev_io \<Rightarrow> 'd sfs_fs \<Rightarrow> (int \<times> nat \<times> 'd sfs_fs) option" where
  "sfs_block_alloc io sfs = do {
     (ret, n, bm) \<leftarrow> bitmap_alloc (freemap sfs);
     if ret \<noteq> 0 then Some (ret, 0, sfs)
     else do {
       c_assert (s_unused (super sfs) > 0);
       let sfs1 = sfs\<lparr>freemap := bm, super := (super sfs)\<lparr>s_unused := s_unused (super sfs) - 1\<rparr>, super_dirty := True\<rparr>;
       u \<leftarrow> sfs_block_inuse sfs1 n;
       c_assert u;
       (ret2, sfs2) \<leftarrow> sfs_clear_block io n 1 sfs1;
       Some (ret2, n, sfs2)
     }
   }"

definition sfs_block_free :: "nat \<Rightarrow> 'd sfs_fs \<Rightarrow> 'd sfs_fs option" where
  "sfs_block_free n sfs = do {
     u \<leftarrow> sfs_block_inuse sfs n;
     c_assert u;
     bm \<leftarrow> bitmap_free n (freemap sfs);
     Some (sfs\<lparr>freemap := bm, super := (super sfs)\<lparr>s_unused := s_unused (super sfs) + 1\<rparr>, super_dirty := True\<rparr>)
   }"

text \<open>The parts of \<open>sfs_bmap_get_sub_nolock\<close>: from the second allocation on, and \<open>failed_cleanup\<close>.\<close>

definition bmap_sub_fail :: "int \<Rightarrow> nat \<Rightarrow> nat \<Rightarrow> 'd sfs_fs \<Rightarrow> (int \<times> nat \<times> nat \<times> 'd sfs_fs) option" where
  "bmap_sub_fail ret entp ent sfs =
     (if ent \<noteq> entp then do { sfs1 \<leftarrow> sfs_block_free ent sfs; Some (ret, entp, 0, sfs1) }
      else Some (ret, entp, 0, sfs))"

definition bmap_sub_new :: "'d dev_io \<Rightarrow> nat \<Rightarrow> nat \<Rightarrow> nat \<Rightarrow> 'd sfs_fs \<Rightarrow> (int \<times> nat \<times> nat \<times> 'd sfs_fs) option" where
  "bmap_sub_new io entp ent off sfs = do {
     (ret, n, sfs1) \<leftarrow> sfs_block_alloc io sfs;
     if ret \<noteq> 0 then bmap_sub_fail ret entp ent sfs1
     else do {
       (ret2, sfs2) \<leftarrow> sfs_wbuf io (le_bytes 4 n) ent off sfs1;
       if ret2 \<noteq> 0 then do { sfs3 \<leftarrow> sfs_block_free n sfs2; bmap_sub_fail ret2 entp ent sfs3 }
       else Some (0, ent, n, sfs2)
     }
   }"

definition sfs_bmap_get_sub_nolock ::
  "'d dev_io \<Rightarrow> nat \<Rightarrow> nat \<Rightarrow> bool \<Rightarrow> 'd sfs_fs \<Rightarrow> (int \<times> nat \<times> nat \<times> 'd sfs_fs) option" where
  "sfs_bmap_get_sub_nolock io entp index create sfs = do {
     c_assert (index < SFS_BLK_NENTRY);
     let off = index * 4;
     if entp \<noteq> 0 then do {
       (ret, bs, sfs1) \<leftarrow> sfs_rbuf io 4 entp off sfs;
       if ret \<noteq> 0 then Some (ret, entp, 0, sfs1)
       else if le_value bs \<noteq> 0 \<or> \<not> create then Some (0, entp, le_value bs, sfs1)
       else bmap_sub_new io entp entp off sfs1
     }
     else if \<not> create then Some (0, entp, 0, sfs)
     else do {
       (ret, ent, sfs1) \<leftarrow> sfs_block_alloc io sfs;
       if ret \<noteq> 0 then Some (ret, entp, 0, sfs1)
       else bmap_sub_new io entp ent off sfs1
     }
   }"

definition set_din :: "(sfs_disk_inode \<Rightarrow> sfs_disk_inode) \<Rightarrow> sfs_inode \<Rightarrow> sfs_inode" where
  "set_din f sin = sin\<lparr>din := f (din sin)\<rparr>"

definition bmap_check :: "int \<times> nat \<times> sfs_inode \<times> 'd sfs_fs \<Rightarrow> (int \<times> nat \<times> sfs_inode \<times> 'd sfs_fs) option" where
  "bmap_check r = (case r of (ret, n, sin, sfs) \<Rightarrow>
     if n = 0 then Some r else do { u \<leftarrow> sfs_block_inuse sfs n; c_assert u; Some r })"

definition sfs_bmap_get_nolock ::
  "'d dev_io \<Rightarrow> nat \<Rightarrow> bool \<Rightarrow> sfs_inode \<Rightarrow> 'd sfs_fs \<Rightarrow> (int \<times> nat \<times> sfs_inode \<times> 'd sfs_fs) option" where
  "sfs_bmap_get_nolock io index create sin sfs =
     (if index < SFS_NDIRECT then
        (let n = di_direct (din sin) ! index in
         if n = 0 \<and> create then do {
           (ret, n1, sfs1) \<leftarrow> sfs_block_alloc io sfs;
           if ret \<noteq> 0 then Some (ret, 0, sin, sfs1)
           else bmap_check (0, n1, (set_din (\<lambda>d. d\<lparr>di_direct := (di_direct d)[index := n1]\<rparr>) sin)\<lparr>dirty := True\<rparr>, sfs1)
         }
         else bmap_check (0, n, sin, sfs))
      else if index - SFS_NDIRECT < SFS_BLK_NENTRY then do {
        (ret, ent, n, sfs1) \<leftarrow> sfs_bmap_get_sub_nolock io (di_indirect (din sin)) (index - SFS_NDIRECT) create sfs;
        if ret \<noteq> 0 then Some (ret, 0, sin, sfs1)
        else if ent \<noteq> di_indirect (din sin) then do {
          c_assert (di_indirect (din sin) = 0);
          bmap_check (0, n, (set_din (\<lambda>d. d\<lparr>di_indirect := ent\<rparr>) sin)\<lparr>dirty := True\<rparr>, sfs1)
        }
        else bmap_check (0, n, sin, sfs1)
      }
      else None)"

definition sfs_bmap_free_sub_nolock :: "'d dev_io \<Rightarrow> nat \<Rightarrow> nat \<Rightarrow> 'd sfs_fs \<Rightarrow> (int \<times> 'd sfs_fs) option" where
  "sfs_bmap_free_sub_nolock io ent index sfs = do {
     u \<leftarrow> sfs_block_inuse sfs ent;
     c_assert (u \<and> index < SFS_BLK_NENTRY);
     (ret, bs, sfs1) \<leftarrow> sfs_rbuf io 4 ent (index * 4) sfs;
     if ret \<noteq> 0 then Some (ret, sfs1)
     else if le_value bs \<noteq> 0 then do {
       (ret2, sfs2) \<leftarrow> sfs_wbuf io (le_bytes 4 0) ent (index * 4) sfs1;
       if ret2 \<noteq> 0 then Some (ret2, sfs2)
       else do { sfs3 \<leftarrow> sfs_block_free (le_value bs) sfs2; Some (0, sfs3) }
     }
     else Some (0, sfs1)
   }"

definition sfs_bmap_free_nolock ::
  "'d dev_io \<Rightarrow> nat \<Rightarrow> sfs_inode \<Rightarrow> 'd sfs_fs \<Rightarrow> (int \<times> sfs_inode \<times> 'd sfs_fs) option" where
  "sfs_bmap_free_nolock io index sin sfs =
     (if index < SFS_NDIRECT then
        (let n = di_direct (din sin) ! index in
         if n \<noteq> 0 then do {
           sfs1 \<leftarrow> sfs_block_free n sfs;
           Some (0, (set_din (\<lambda>d. d\<lparr>di_direct := (di_direct d)[index := 0]\<rparr>) sin)\<lparr>dirty := True\<rparr>, sfs1)
         }
         else Some (0, sin, sfs))
      else if index - SFS_NDIRECT < SFS_BLK_NENTRY \<and> di_indirect (din sin) \<noteq> 0 then do {
        (ret, sfs1) \<leftarrow> sfs_bmap_free_sub_nolock io (di_indirect (din sin)) (index - SFS_NDIRECT) sfs;
        Some (ret, sin, sfs1)
      }
      else Some (0, sin, sfs))"

definition sfs_bmap_load_nolock ::
  "'d dev_io \<Rightarrow> nat \<Rightarrow> sfs_inode \<Rightarrow> 'd sfs_fs \<Rightarrow> (int \<times> nat \<times> sfs_inode \<times> 'd sfs_fs) option" where
  "sfs_bmap_load_nolock io index sin sfs = do {
     c_assert (index \<le> di_blocks (din sin));
     let create = (index = di_blocks (din sin));
     (ret, n, sin1, sfs1) \<leftarrow> sfs_bmap_get_nolock io index create sin sfs;
     if ret \<noteq> 0 then Some (ret, 0, sin1, sfs1)
     else do {
       u \<leftarrow> sfs_block_inuse sfs1 n;
       c_assert u;
       let sin2 = (if create then set_din (\<lambda>d. d\<lparr>di_blocks := di_blocks d + 1\<rparr>) sin1 else sin1);
       Some (0, n, sin2, sfs1)
     }
   }"

definition sfs_bmap_truncate_nolock ::
  "'d dev_io \<Rightarrow> sfs_inode \<Rightarrow> 'd sfs_fs \<Rightarrow> (int \<times> sfs_inode \<times> 'd sfs_fs) option" where
  "sfs_bmap_truncate_nolock io sin sfs = do {
     c_assert (di_blocks (din sin) \<noteq> 0);
     (ret, sin1, sfs1) \<leftarrow> sfs_bmap_free_nolock io (di_blocks (din sin) - 1) sin sfs;
     if ret \<noteq> 0 then Some (ret, sin1, sfs1)
     else Some (0, (set_din (\<lambda>d. d\<lparr>di_blocks := di_blocks d - 1\<rparr>) sin1)\<lparr>dirty := True\<rparr>, sfs1)
   }"

fun grow_loop :: "'d dev_io \<Rightarrow> nat \<Rightarrow> nat \<Rightarrow> sfs_inode \<Rightarrow> 'd sfs_fs \<Rightarrow> (int \<times> sfs_inode \<times> 'd sfs_fs) option" where
  "grow_loop io 0 nblks sin sfs = Some (0, sin, sfs)"
| "grow_loop io (Suc k) nblks sin sfs = do {
     (ret, n, sin1, sfs1) \<leftarrow> sfs_bmap_load_nolock io nblks sin sfs;
     if ret \<noteq> 0 then Some (ret, sin1, sfs1) else grow_loop io k (nblks + 1) sin1 sfs1
   }"

fun shrink_loop :: "'d dev_io \<Rightarrow> nat \<Rightarrow> sfs_inode \<Rightarrow> 'd sfs_fs \<Rightarrow> (int \<times> sfs_inode \<times> 'd sfs_fs) option" where
  "shrink_loop io 0 sin sfs = Some (0, sin, sfs)"
| "shrink_loop io (Suc k) sin sfs = do {
     (ret, sin1, sfs1) \<leftarrow> sfs_bmap_truncate_nolock io sin sfs;
     if ret \<noteq> 0 then Some (ret, sin1, sfs1) else shrink_loop io k sin1 sfs1
   }"

text \<open>The loops of \<open>sfs_truncfile\<close> run over the difference of the old and the new number of blocks.\<close>

definition sfs_truncfile :: "'d dev_io \<Rightarrow> int \<Rightarrow> sfs_inode \<Rightarrow> 'd sfs_fs \<Rightarrow> (int \<times> sfs_inode \<times> 'd sfs_fs) option" where
  "sfs_truncfile io len sin sfs =
     (if len < 0 \<or> len > SFS_MAX_FILE_SIZE then Some (- E_INVAL, sin, sfs)
      else
        let tblks = ROUNDUP_DIV (nat len) SFS_BLKSIZE; nblks = di_blocks (din sin) in
        if int (di_size (din sin)) = len then do { c_assert (tblks = nblks); Some (0, sin, sfs) }
        else do {
          (ret, sin1, sfs1) \<leftarrow>
            (if nblks < tblks then grow_loop io (tblks - nblks) nblks sin sfs
             else shrink_loop io (nblks - tblks) sin sfs);
          if ret \<noteq> 0 then Some (ret, sin1, sfs1)
          else do {
            c_assert (di_blocks (din sin1) = tblks);
            Some (0, (set_din (\<lambda>d. d\<lparr>di_size := nat len\<rparr>) sin1)\<lparr>dirty := True\<rparr>, sfs1)
          }
        })"

section \<open>Allocation\<close>

text \<open>
  The file system invariant: the device works, the bitmap agrees with the count of unused blocks, and
  neither the superblock nor a block beyond the file system is free.
\<close>

definition fs_free :: "'d sfs_fs \<Rightarrow> nat set" where
  "fs_free s = free_bits (freemap s)"

definition fs_ok :: "('d \<Rightarrow> bool) \<Rightarrow> ('d \<Rightarrow> nat) \<Rightarrow> 'd sfs_fs \<Rightarrow> bool" where
  "fs_ok ok nblk s \<longleftrightarrow> sfs_dev_ok ok nblk s \<and> bitmap_ok (freemap s) \<and> s_blocks (super s) \<le> nbits (freemap s) \<and>
     fs_free s \<subseteq> {0<..<s_blocks (super s)} \<and> s_unused (super s) = card (fs_free s)"

text \<open>The step from \<open>s\<close> to \<open>s'\<close> leaves the blocks \<open>F\<close> on the device and the blocks \<open>Fr\<close> free.\<close>

definition fs_eff ::
  "('d \<Rightarrow> bool) \<Rightarrow> ('d \<Rightarrow> nat) \<Rightarrow> ('d \<Rightarrow> nat \<Rightarrow> u8 list) \<Rightarrow> 'd sfs_fs \<Rightarrow> (nat \<Rightarrow> u8 list) \<Rightarrow> nat set \<Rightarrow> 'd sfs_fs \<Rightarrow> bool" where
  "fs_eff ok nblk blk s F Fr s' \<longleftrightarrow> fs_ok ok nblk s' \<and> s_blocks (super s') = s_blocks (super s) \<and> fs_free s' = Fr \<and>
     (\<forall>c < s_blocks (super s). blk (dev s') c = F c)"

lemma fs_effD:
  assumes "fs_eff ok nblk blk s F Fr s'"
  shows "fs_ok ok nblk s'" "s_blocks (super s') = s_blocks (super s)" "fs_free s' = Fr"
    "\<And>c. c < s_blocks (super s) \<Longrightarrow> blk (dev s') c = F c"
  using assms by (auto simp: fs_eff_def)

lemma fs_eff_trans:
  assumes "fs_eff ok nblk blk s F Fr s'" "fs_eff ok nblk blk s' G Gr s''"
  shows "fs_eff ok nblk blk s G Gr s''"
  using assms by (auto simp: fs_eff_def)

lemma fs_eff_cong:
  assumes "fs_eff ok nblk blk s F Fr s'" "\<And>c. c < s_blocks (super s) \<Longrightarrow> F c = G c" "Fr = Gr"
  shows "fs_eff ok nblk blk s G Gr s'"
  using assms by (auto simp: fs_eff_def)

lemma fs_eff_io:
  assumes "fs_ok ok nblk s" "io_eff ok nblk blk s F s'"
  shows "fs_eff ok nblk blk s F (fs_free s) s'"
  using assms by (auto simp: fs_eff_def fs_ok_def io_eff_def fs_free_def)

lemma fs_ok_free:
  "fs_ok ok nblk s \<Longrightarrow> n \<in> fs_free s \<Longrightarrow> n \<noteq> 0 \<and> n < s_blocks (super s) \<and> n < 2 ^ 20"
  by (force simp: fs_ok_def sfs_dev_ok_def)

lemma fs_free_finite [simp]: "finite (fs_free s)"
  by (simp add: fs_free_def)

lemma sfs_block_inuse_eq:
  "fs_ok ok nblk s \<Longrightarrow> n \<noteq> 0 \<Longrightarrow> n < s_blocks (super s) \<Longrightarrow> sfs_block_inuse s n = Some (n \<notin> fs_free s)"
  by (simp add: sfs_block_inuse_def bitmap_test_eq fs_ok_def fs_free_def)

lemma sfs_block_free_ok:
  assumes s: "fs_ok ok nblk s" and n: "n \<noteq> 0" "n < s_blocks (super s)" "n \<notin> fs_free s"
  shows "\<exists>s'. sfs_block_free n s = Some s' \<and> fs_eff ok nblk blk s (blk (dev s)) (insert n (fs_free s)) s'"
proof -
  have b: "bitmap_ok (freemap s)" "n < nbits (freemap s)" "n \<notin> free_bits (freemap s)"
    using s n by (auto simp: fs_ok_def fs_free_def)
  from bitmap_free_eq [OF this] obtain bm where
    bm: "bitmap_free n (freemap s) = Some bm" "bitmap_ok bm" "nbits bm = nbits (freemap s)"
    "free_bits bm = insert n (free_bits (freemap s))" by blast
  let ?s = "s\<lparr>freemap := bm, super := (super s)\<lparr>s_unused := s_unused (super s) + 1\<rparr>, super_dirty := True\<rparr>"
  have "sfs_block_free n s = Some ?s"
    using sfs_block_inuse_eq [OF s n(1,2)] n(3) bm(1) by (simp add: sfs_block_free_def)
  moreover have "fs_eff ok nblk blk s (blk (dev s)) (insert n (fs_free s)) ?s"
    using s n bm b by (auto simp: fs_eff_def fs_ok_def fs_free_def sfs_dev_ok_def)
  ultimately show ?thesis by blast
qed

text \<open>An entry of the indirect block \<open>ent\<close>; no indirect block, no entries.\<close>

definition sub_entry :: "('d \<Rightarrow> nat \<Rightarrow> u8 list) \<Rightarrow> 'd sfs_fs \<Rightarrow> nat \<Rightarrow> nat \<Rightarrow> nat" where
  "sub_entry blk s ent k = (if ent = 0 then 0 else le_value (slice (k * 4) 4 (blk (dev s) ent)))"

definition blkmap :: "('d \<Rightarrow> nat \<Rightarrow> u8 list) \<Rightarrow> 'd sfs_fs \<Rightarrow> sfs_disk_inode \<Rightarrow> nat \<Rightarrow> nat" where
  "blkmap blk s d i = (if i < 12 then di_direct d ! i else sub_entry blk s (di_indirect d) (i - 12))"

text \<open>The blocks of a file are allocated, and each has one use.\<close>

definition file_ok :: "('d \<Rightarrow> nat \<Rightarrow> u8 list) \<Rightarrow> 'd sfs_fs \<Rightarrow> sfs_disk_inode \<Rightarrow> bool" where
  "file_ok blk s d \<longleftrightarrow> length (di_direct d) = 12 \<and>
     (\<forall>i < 1036. blkmap blk s d i \<noteq> 0 \<longrightarrow> blkmap blk s d i < s_blocks (super s) \<and> blkmap blk s d i \<notin> fs_free s \<and>
       blkmap blk s d i \<noteq> di_indirect d \<and> (\<forall>j < 1036. j \<noteq> i \<longrightarrow> blkmap blk s d j \<noteq> blkmap blk s d i)) \<and>
     (di_indirect d \<noteq> 0 \<longrightarrow> di_indirect d < s_blocks (super s) \<and> di_indirect d \<notin> fs_free s)"

text \<open>
  What a call does to the file system around the file: the invariants hold, and no allocated block
  other than the file's own indirect block is written.
\<close>

definition file_eff ::
  "('d \<Rightarrow> bool) \<Rightarrow> ('d \<Rightarrow> nat) \<Rightarrow> ('d \<Rightarrow> nat \<Rightarrow> u8 list) \<Rightarrow> 'd sfs_fs \<Rightarrow> sfs_disk_inode \<Rightarrow> 'd sfs_fs \<Rightarrow> sfs_disk_inode \<Rightarrow> bool" where
  "file_eff ok nblk blk s d s' d' \<longleftrightarrow> fs_ok ok nblk s' \<and> file_ok blk s' d' \<and> s_blocks (super s') = s_blocks (super s) \<and>
     (\<forall>c < s_blocks (super s). c \<notin> fs_free s \<longrightarrow> c \<noteq> di_indirect d \<longrightarrow> blk (dev s') c = blk (dev s) c)"

text \<open>A file without holes: exactly its first \<open>blocks\<close> entries are mapped.\<close>

definition prefix_ok :: "('d \<Rightarrow> nat \<Rightarrow> u8 list) \<Rightarrow> 'd sfs_fs \<Rightarrow> sfs_disk_inode \<Rightarrow> bool" where
  "prefix_ok blk s d \<longleftrightarrow> di_blocks d \<le> 1036 \<and> (\<forall>i < 1036. (blkmap blk s d i \<noteq> 0) = (i < di_blocks d))"

text \<open>The blocks a file holds: those of its map and its indirect block.\<close>

definition file_blocks :: "('d \<Rightarrow> nat \<Rightarrow> u8 list) \<Rightarrow> 'd sfs_fs \<Rightarrow> sfs_disk_inode \<Rightarrow> nat set" where
  "file_blocks blk s d = insert (di_indirect d) (blkmap blk s d ` {..<1036}) - {0}"

lemma file_blocks_not_free: "file_ok blk s d \<Longrightarrow> file_blocks blk s d \<inter> fs_free s = {}"
  by (auto simp: file_blocks_def file_ok_def)

lemma file_blocks_extend:
  assumes "i < 1036" "n \<noteq> 0" "blkmap blk s d i = 0"
    and "\<And>j. j < 1036 \<Longrightarrow> blkmap blk s' d' j = (if j = i then n else blkmap blk s d j)"
  shows "di_indirect d' = di_indirect d \<Longrightarrow> file_blocks blk s' d' = insert n (file_blocks blk s d)"
    and "di_indirect d = 0 \<Longrightarrow> di_indirect d' \<noteq> 0 \<Longrightarrow>
      file_blocks blk s' d' = insert (di_indirect d') (insert n (file_blocks blk s d))"
proof -
  define C where "C = blkmap blk s d ` {j. j < 1036 \<and> j \<noteq> i}"
  have I: "{..<1036} = insert i {j. j < 1036 \<and> j \<noteq> i}" using assms(1) by auto
  have "blkmap blk s' d' ` {j. j < 1036 \<and> j \<noteq> i} = C"
    unfolding C_def by (rule image_cong) (use assms(4) in auto)
  moreover have "blkmap blk s' d' i = n" using assms(1,4) by simp
  ultimately have 1: "file_blocks blk s' d' = insert (di_indirect d') (insert n C) - {0}"
    unfolding file_blocks_def I image_insert by simp
  have 2: "file_blocks blk s d = insert (di_indirect d) (insert 0 C) - {0}"
    unfolding file_blocks_def I image_insert C_def assms(3) ..
  show "di_indirect d' = di_indirect d \<Longrightarrow> file_blocks blk s' d' = insert n (file_blocks blk s d)"
    and "di_indirect d = 0 \<Longrightarrow> di_indirect d' \<noteq> 0 \<Longrightarrow>
      file_blocks blk s' d' = insert (di_indirect d') (insert n (file_blocks blk s d))"
    using assms(2) unfolding 1 2 by auto
qed

lemma file_blocks_remove:
  assumes "i < 1036" "n \<noteq> 0" "blkmap blk s d i = n" "di_indirect d' = di_indirect d"
    and "\<And>j. j < 1036 \<Longrightarrow> blkmap blk s' d' j = (if j = i then 0 else blkmap blk s d j)"
  shows "file_blocks blk s d = insert n (file_blocks blk s' d')"
  using file_blocks_extend(1) [of i n blk s' d' s d] assms by auto

lemma file_blocks_irrelevant [simp]:
  "file_blocks blk s (d\<lparr>di_blocks := n\<rparr>) = file_blocks blk s d" "file_blocks blk s (d\<lparr>di_size := n\<rparr>) = file_blocks blk s d"
  by (simp_all add: file_blocks_def blkmap_def)

text \<open>
  The result of resizing a file from the state \<open>s\<close>, \<open>d\<close>: the first \<open>m\<close> blocks are the same blocks with
  the same content, further blocks are zero, and no block in use elsewhere has changed. The file and the
  free blocks share the same blocks as before: what the file gains was free, what it gives up becomes
  free, and nothing is lost. The indirect block stays, and comes only with a thirteenth block.
\<close>

definition resized ::
  "('d \<Rightarrow> bool) \<Rightarrow> ('d \<Rightarrow> nat) \<Rightarrow> ('d \<Rightarrow> nat \<Rightarrow> u8 list) \<Rightarrow> nat \<Rightarrow> 'd sfs_fs \<Rightarrow> sfs_disk_inode \<Rightarrow> 'd sfs_fs \<Rightarrow> sfs_disk_inode \<Rightarrow> bool" where
  "resized ok nblk blk m s d s' d' \<longleftrightarrow> fs_ok ok nblk s' \<and> file_ok blk s' d' \<and> prefix_ok blk s' d' \<and>
     s_blocks (super s') = s_blocks (super s) \<and>
     (\<forall>j < m. blkmap blk s' d' j = blkmap blk s d j \<and> blk (dev s') (blkmap blk s d j) = blk (dev s) (blkmap blk s d j)) \<and>
     (\<forall>j. m \<le> j \<longrightarrow> j < di_blocks d' \<longrightarrow> blk (dev s') (blkmap blk s' d' j) = replicate 4096 0) \<and>
     (\<forall>c < s_blocks (super s). c \<notin> fs_free s \<union> fs_free s' \<longrightarrow> c \<noteq> di_indirect d \<longrightarrow> blk (dev s') c = blk (dev s) c) \<and>
     fs_free s' \<union> file_blocks blk s' d' = fs_free s \<union> file_blocks blk s d \<and>
     fs_free s' \<inter> file_blocks blk s' d' = {} \<and>
     (di_indirect d \<noteq> 0 \<or> di_blocks d' \<le> 12 \<longrightarrow> di_indirect d' = di_indirect d)"

lemma resized_accounts:
  assumes "resized ok nblk blk m s d s' d'"
  shows "fs_free s' \<union> file_blocks blk s' d' = fs_free s \<union> file_blocks blk s d"
    and "fs_free s' \<inter> file_blocks blk s' d' = {}"
    and "di_indirect d \<noteq> 0 \<or> di_blocks d' \<le> 12 \<Longrightarrow> di_indirect d' = di_indirect d"
  using assms by (simp_all add: resized_def)

text \<open>The free blocks that \<open>k\<close> more blocks of the file may take.\<close>

definition space_for :: "nat \<Rightarrow> 'd sfs_fs \<Rightarrow> sfs_disk_inode \<Rightarrow> bool" where
  "space_for k s d \<longleftrightarrow> (if di_indirect d = 0 then k + 1 else k) \<le> card (fs_free s)"

context block_device
begin

lemma sfs_block_alloc_none:
  "fs_ok ok nblk s \<Longrightarrow> fs_free s = {} \<Longrightarrow> sfs_block_alloc d_io s = Some (- E_NO_MEM, 0, s)"
  using bitmap_alloc_cases [of "freemap s"] by (auto simp: sfs_block_alloc_def fs_ok_def fs_free_def E_NO_MEM_def)

lemma sfs_block_alloc_ok:
  assumes s: "fs_ok ok nblk s" and f: "fs_free s \<noteq> {}"
  shows "\<exists>n s'. sfs_block_alloc d_io s = Some (0, n, s') \<and> n \<in> fs_free s \<and>
    fs_eff ok nblk blk s ((blk (dev s))(n := replicate 4096 0)) (fs_free s - {n}) s'"
proof -
  let ?n = "Min (fs_free s)"
  have n: "?n \<in> fs_free s" using f by simp
  note nn = fs_ok_free [OF s n]
  from bitmap_alloc_cases [of "freemap s"] s f obtain bm where
    bm: "bitmap_alloc (freemap s) = Some (0, ?n, bm)" "bitmap_ok bm" "nbits bm = nbits (freemap s)"
    "free_bits bm = fs_free s - {?n}" by (auto simp: fs_ok_def fs_free_def)
  let ?s = "s\<lparr>freemap := bm, super := (super s)\<lparr>s_unused := s_unused (super s) - 1\<rparr>, super_dirty := True\<rparr>"
  have u: "s_unused (super s) > 0" using s f by (simp add: fs_ok_def card_gt_0_iff)
  have ok1: "fs_ok ok nblk ?s" using s bm n nn by (auto simp: fs_ok_def fs_free_def sfs_dev_ok_def)
  have "sfs_dev_ok ok nblk ?s" "?n < s_blocks (super ?s)" using ok1 nn by (auto simp: fs_ok_def)
  from sfs_clear_block_ok [OF this] nn obtain s' where
    c: "sfs_clear_block d_io ?n 1 ?s = Some (0, s')" "io_eff ok nblk blk ?s ((blk (dev s))(?n := replicate 4096 0)) s'"
    by auto
  have iu: "sfs_block_inuse ?s ?n = Some True"
    using sfs_block_inuse_eq [OF ok1, of ?n] nn bm(4) by (simp add: fs_free_def)
  have "sfs_block_alloc d_io s = Some (0, ?n, s')" using bm(1) u iu c(1) by (simp add: sfs_block_alloc_def)
  moreover have "fs_eff ok nblk blk s ((blk (dev s))(?n := replicate 4096 0)) (fs_free s - {?n}) s'"
    using fs_eff_io [OF ok1 c(2)] bm(4) by (simp add: fs_eff_def fs_free_def)
  ultimately show ?thesis using n by blast
qed

section \<open>The indirect block\<close>

lemma bmap_sub_new_ok:
  assumes s: "fs_ok ok nblk s" and e: "ent \<noteq> 0" "ent < s_blocks (super s)" "ent \<notin> fs_free s" and k: "k < 1024"
    and f: "fs_free s \<noteq> {}"
  shows "\<exists>n s'. bmap_sub_new d_io entp ent (k * 4) s = Some (0, ent, n, s') \<and> n \<in> fs_free s \<and>
    fs_eff ok nblk blk s ((blk (dev s))(n := replicate 4096 0, ent := blit (blk (dev s) ent) (k * 4) (le_bytes 4 n)))
      (fs_free s - {n}) s'"
proof -
  from sfs_block_alloc_ok [OF s f] obtain n s1 where
    a: "sfs_block_alloc d_io s = Some (0, n, s1)" "n \<in> fs_free s"
    "fs_eff ok nblk blk s ((blk (dev s))(n := replicate 4096 0)) (fs_free s - {n}) s1" by blast
  note a1 = fs_effD [OF a(3)]
  have ne: "n \<noteq> ent" using a(2) e(3) by blast
  have d: "sfs_dev_ok ok nblk s1" "ent < s_blocks (super s1)" using a1(1,2) e(2) by (auto simp: fs_ok_def)
  from sfs_wbuf_ok [OF d e(1), of "k * 4" "le_bytes 4 n"] k obtain s2 where
    w: "sfs_wbuf d_io (le_bytes 4 n) ent (k * 4) s1 = Some (0, s2)"
    "io_eff ok nblk blk s1 ((blk (dev s1))(ent := blit (blk (dev s1) ent) (k * 4) (le_bytes 4 n))) s2" by auto
  have "bmap_sub_new d_io entp ent (k * 4) s = Some (0, ent, n, s2)" using a(1) w(1) by (simp add: bmap_sub_new_def)
  moreover have "fs_eff ok nblk blk s ((blk (dev s))(n := replicate 4096 0, ent := blit (blk (dev s) ent) (k * 4) (le_bytes 4 n)))
      (fs_free s - {n}) s2"
    by (rule fs_eff_cong [OF fs_eff_trans [OF a(3) fs_eff_io [OF a1(1) w(2)]]]) (use a1(3,4) e ne in auto)
  ultimately show ?thesis using a(2) by blast
qed

lemma bmap_sub_new_none:
  "fs_ok ok nblk s \<Longrightarrow> fs_free s = {} \<Longrightarrow> bmap_sub_new d_io entp ent off s = bmap_sub_fail (- E_NO_MEM) entp ent s"
  by (simp add: bmap_sub_new_def sfs_block_alloc_none E_NO_MEM_def)

lemma get_sub_lookup:
  assumes s: "fs_ok ok nblk s" and e: "entp \<noteq> 0 \<longrightarrow> entp < s_blocks (super s)" and k: "k < 1024"
    and c: "\<not> create \<or> sub_entry blk s entp k \<noteq> 0"
  shows "\<exists>s'. sfs_bmap_get_sub_nolock d_io entp k create s = Some (0, entp, sub_entry blk s entp k, s') \<and>
    fs_eff ok nblk blk s (blk (dev s)) (fs_free s) s'"
proof (cases "entp = 0")
  case True
  then have "\<not> create" using c by (simp add: sub_entry_def)
  moreover have "fs_eff ok nblk blk s (blk (dev s)) (fs_free s) s" using s by (simp add: fs_eff_def)
  ultimately show ?thesis using True k by (simp add: sfs_bmap_get_sub_nolock_def sfs_consts sub_entry_def)
next
  case False
  have d: "sfs_dev_ok ok nblk s" "entp < s_blocks (super s)" using s e False by (auto simp: fs_ok_def)
  from sfs_rbuf_ok [OF d False, of "k * 4" 4] k obtain s' where
    r: "sfs_rbuf d_io 4 entp (k * 4) s = Some (0, slice (k * 4) 4 (blk (dev s) entp), s')" "io_eff ok nblk blk s (blk (dev s)) s'" by auto
  show ?thesis
    using r(1) c k False fs_eff_io [OF s r(2)]
    by (intro exI [of _ s']) (auto simp: sfs_bmap_get_sub_nolock_def sfs_consts sub_entry_def)
qed

lemma get_sub_existing:
  assumes s: "fs_ok ok nblk s" and e: "entp \<noteq> 0" "entp < s_blocks (super s)" "entp \<notin> fs_free s" and k: "k < 1024"
    and c: "sub_entry blk s entp k = 0"
  shows "fs_free s \<noteq> {} \<Longrightarrow> \<exists>n s'. sfs_bmap_get_sub_nolock d_io entp k True s = Some (0, entp, n, s') \<and> n \<in> fs_free s \<and>
      fs_eff ok nblk blk s ((blk (dev s))(n := replicate 4096 0, entp := blit (blk (dev s) entp) (k * 4) (le_bytes 4 n)))
        (fs_free s - {n}) s'"
    and "fs_free s = {} \<Longrightarrow> \<exists>s'. sfs_bmap_get_sub_nolock d_io entp k True s = Some (- E_NO_MEM, entp, 0, s') \<and>
      fs_eff ok nblk blk s (blk (dev s)) {} s'"
proof -
  have d: "sfs_dev_ok ok nblk s" using s by (simp add: fs_ok_def)
  from sfs_rbuf_ok [OF d e(2,1), of "k * 4" 4] k obtain s1 where
    r: "sfs_rbuf d_io 4 entp (k * 4) s = Some (0, slice (k * 4) 4 (blk (dev s) entp), s1)" "io_eff ok nblk blk s (blk (dev s)) s1" by auto
  note f = fs_eff_io [OF s r(2)]
  note f1 = fs_effD [OF f]
  have get: "sfs_bmap_get_sub_nolock d_io entp k True s = bmap_sub_new d_io entp entp (k * 4) s1"
    using r(1) c k e(1) by (simp add: sfs_bmap_get_sub_nolock_def sfs_consts sub_entry_def)
  {
    assume ne: "fs_free s \<noteq> {}"
    have e1: "entp < s_blocks (super s1)" "entp \<notin> fs_free s1" "fs_free s1 \<noteq> {}" using e f1(2,3) ne by auto
    from bmap_sub_new_ok [OF f1(1) e(1) e1(1,2) k e1(3), of entp] obtain n s' where
      n: "bmap_sub_new d_io entp entp (k * 4) s1 = Some (0, entp, n, s')" "n \<in> fs_free s"
      "fs_eff ok nblk blk s1 ((blk (dev s1))(n := replicate 4096 0, entp := blit (blk (dev s1) entp) (k * 4) (le_bytes 4 n)))
        (fs_free s - {n}) s'" using f1(3) by auto
    have "fs_eff ok nblk blk s ((blk (dev s))(n := replicate 4096 0, entp := blit (blk (dev s) entp) (k * 4) (le_bytes 4 n)))
        (fs_free s - {n}) s'"
      by (rule fs_eff_cong [OF fs_eff_trans [OF f n(3)]]) (use f1(4) e in auto)
    then show "\<exists>n s'. sfs_bmap_get_sub_nolock d_io entp k True s = Some (0, entp, n, s') \<and> n \<in> fs_free s \<and>
      fs_eff ok nblk blk s ((blk (dev s))(n := replicate 4096 0, entp := blit (blk (dev s) entp) (k * 4) (le_bytes 4 n)))
        (fs_free s - {n}) s'" using get n by auto
  next
    assume em: "fs_free s = {}"
    then have "bmap_sub_new d_io entp entp (k * 4) s1 = Some (- E_NO_MEM, entp, 0, s1)"
      using bmap_sub_new_none [OF f1(1)] f1(3) by (simp add: bmap_sub_fail_def)
    then show "\<exists>s'. sfs_bmap_get_sub_nolock d_io entp k True s = Some (- E_NO_MEM, entp, 0, s') \<and>
      fs_eff ok nblk blk s (blk (dev s)) {} s'" using get f em by auto
  }
qed

lemma get_sub_fresh:
  assumes s: "fs_ok ok nblk s" and k: "k < 1024"
  shows "2 \<le> card (fs_free s) \<Longrightarrow> \<exists>ent n s'. sfs_bmap_get_sub_nolock d_io 0 k True s = Some (0, ent, n, s') \<and>
      ent \<in> fs_free s \<and> n \<in> fs_free s \<and> n \<noteq> ent \<and>
      fs_eff ok nblk blk s ((blk (dev s))(n := replicate 4096 0, ent := blit (replicate 4096 0) (k * 4) (le_bytes 4 n)))
        (fs_free s - {ent, n}) s'"
    and "card (fs_free s) \<le> 1 \<Longrightarrow> \<exists>s' F. sfs_bmap_get_sub_nolock d_io 0 k True s = Some (- E_NO_MEM, 0, 0, s') \<and>
      fs_eff ok nblk blk s F (fs_free s) s' \<and> (\<forall>c. c \<notin> fs_free s \<longrightarrow> F c = blk (dev s) c)"
proof -
  have get: "sfs_bmap_get_sub_nolock d_io 0 k True s = do {
       (ret, ent, sfs1) \<leftarrow> sfs_block_alloc d_io s;
       if ret \<noteq> 0 then Some (ret, 0, 0, sfs1) else bmap_sub_new d_io 0 ent (k * 4) sfs1 }"
    using k by (simp add: sfs_bmap_get_sub_nolock_def sfs_consts)
  {
    assume c2: "2 \<le> card (fs_free s)"
    then have "fs_free s \<noteq> {}" by auto
    from sfs_block_alloc_ok [OF s this] obtain ent s1 where
      a: "sfs_block_alloc d_io s = Some (0, ent, s1)" "ent \<in> fs_free s"
      "fs_eff ok nblk blk s ((blk (dev s))(ent := replicate 4096 0)) (fs_free s - {ent}) s1" by blast
    note a1 = fs_effD [OF a(3)] and ent = fs_ok_free [OF s a(2)]
    have "card (fs_free s1) \<noteq> 0" using c2 a(2) a1(3) by (simp add: card_Diff_singleton)
    then have "fs_free s1 \<noteq> {}" by auto
    moreover have "ent < s_blocks (super s1)" "ent \<notin> fs_free s1" using ent a1(2,3) by auto
    ultimately obtain n s' where n: "bmap_sub_new d_io 0 ent (k * 4) s1 = Some (0, ent, n, s')" "n \<in> fs_free s1"
      "fs_eff ok nblk blk s1 ((blk (dev s1))(n := replicate 4096 0, ent := blit (blk (dev s1) ent) (k * 4) (le_bytes 4 n)))
        (fs_free s1 - {n}) s'"
      using bmap_sub_new_ok [OF a1(1) _ _ _ k, of ent 0] ent by auto
    have "fs_eff ok nblk blk s ((blk (dev s))(n := replicate 4096 0, ent := blit (replicate 4096 0) (k * 4) (le_bytes 4 n)))
        (fs_free s - {ent, n}) s'"
      by (rule fs_eff_cong [OF fs_eff_trans [OF a(3) n(3)]]) (use a1(3,4) ent in auto)
    then show "\<exists>ent n s'. sfs_bmap_get_sub_nolock d_io 0 k True s = Some (0, ent, n, s') \<and>
      ent \<in> fs_free s \<and> n \<in> fs_free s \<and> n \<noteq> ent \<and>
      fs_eff ok nblk blk s ((blk (dev s))(n := replicate 4096 0, ent := blit (replicate 4096 0) (k * 4) (le_bytes 4 n)))
        (fs_free s - {ent, n}) s'" using get a(1,2) n(1,2) a1(3) by auto
  next
    assume c1: "card (fs_free s) \<le> 1"
    show "\<exists>s' F. sfs_bmap_get_sub_nolock d_io 0 k True s = Some (- E_NO_MEM, 0, 0, s') \<and>
      fs_eff ok nblk blk s F (fs_free s) s' \<and> (\<forall>c. c \<notin> fs_free s \<longrightarrow> F c = blk (dev s) c)"
    proof (cases "fs_free s = {}")
      case True
      have "fs_eff ok nblk blk s (blk (dev s)) (fs_free s) s" using s by (simp add: fs_eff_def)
      then show ?thesis using get sfs_block_alloc_none [OF s True] by (auto simp: E_NO_MEM_def)
    next
      case False
      from sfs_block_alloc_ok [OF s False] obtain ent s1 where
        a: "sfs_block_alloc d_io s = Some (0, ent, s1)" "ent \<in> fs_free s"
        "fs_eff ok nblk blk s ((blk (dev s))(ent := replicate 4096 0)) (fs_free s - {ent}) s1" by blast
      note a1 = fs_effD [OF a(3)] and ent = fs_ok_free [OF s a(2)]
      have "card (fs_free s1) = 0" using c1 a(2) a1(3) by (simp add: card_Diff_singleton)
      then have em: "fs_free s1 = {}" by simp
      have "ent < s_blocks (super s1)" "ent \<notin> fs_free s1" using ent a1(2,3) by auto
      with sfs_block_free_ok [OF a1(1), of ent blk] ent obtain s2 where
        f: "sfs_block_free ent s1 = Some s2" "fs_eff ok nblk blk s1 (blk (dev s1)) (insert ent (fs_free s1)) s2" by blast
      have "fs_eff ok nblk blk s ((blk (dev s))(ent := replicate 4096 0)) (fs_free s) s2"
        by (rule fs_eff_cong [OF fs_eff_trans [OF a(3) f(2)]]) (use a1(3,4) a(2) in auto)
      moreover have "sfs_bmap_get_sub_nolock d_io 0 k True s = Some (- E_NO_MEM, 0, 0, s2)"
        using get a(1) bmap_sub_new_none [OF a1(1) em] ent f(1) by (simp add: bmap_sub_fail_def)
      ultimately show ?thesis using a(2) by (intro exI [of _ s2] exI [of _ "(blk (dev s))(ent := replicate 4096 0)"]) auto
    qed
  }
qed

section \<open>The block map of a file\<close>

lemma le_value_slice_blit:
  assumes "length B = 4096" "k < 1024" "j < 1024" "n < 2 ^ 32"
  shows "le_value (slice (j * 4) 4 (blit B (k * 4) (le_bytes 4 n))) = (if j = k then n else le_value (slice (j * 4) 4 B))"
proof (cases "j = k")
  case True
  have "slice (k * 4) (length (le_bytes 4 n)) (blit B (k * 4) (le_bytes 4 n)) = le_bytes 4 n"
    by (rule slice_blit_same) (use assms in simp)
  moreover have "le_value (le_bytes 4 n) = n" by (rule le_value_bytes) (use assms in simp)
  ultimately show ?thesis using True by (simp del: le_bytes.simps)
next
  case False
  then have "j * 4 + 4 \<le> k * 4 \<or> k * 4 + length (le_bytes 4 n) \<le> j * 4" by auto
  then show ?thesis using False assms by (simp add: slice_blit_other)
qed

lemma le_value_zeros: "j < 1024 \<Longrightarrow> le_value (slice (j * 4) 4 (replicate 4096 0)) = 0"
proof -
  have "le_value (replicate k 0) = 0" for k by (induction k) auto
  then show ?thesis by (simp add: slice_def)
qed

text \<open>What the block map of an unchanged inode says after a step that keeps its blocks.\<close>

lemma bmap_eff:
  assumes "fs_eff ok nblk blk s F Fr s'" "di_indirect d \<noteq> 0 \<Longrightarrow> di_indirect d < s_blocks (super s)"
    "di_indirect d \<noteq> 0 \<Longrightarrow> F (di_indirect d) = blk (dev s) (di_indirect d)"
  shows "blkmap blk s' d i = blkmap blk s d i"
  using assms fs_effD(4) [OF assms(1)] by (auto simp: blkmap_def sub_entry_def)

lemma file_ok_eff:
  assumes "file_ok blk s d" "fs_eff ok nblk blk s F Fr s'" "Fr \<subseteq> fs_free s"
    "di_indirect d \<noteq> 0 \<Longrightarrow> F (di_indirect d) = blk (dev s) (di_indirect d)"
  shows "file_ok blk s' d"
proof -
  have "blkmap blk s' d i = blkmap blk s d i" for i
    by (rule bmap_eff [OF assms(2)]) (use assms(1,4) in \<open>auto simp: file_ok_def\<close>)
  then show ?thesis using assms(1,3) fs_effD [OF assms(2)] by (auto simp: file_ok_def)
qed

lemma bmap_check_ok:
  "fs_ok ok nblk s \<Longrightarrow> n \<noteq> 0 \<Longrightarrow> n < s_blocks (super s) \<Longrightarrow> n \<notin> fs_free s \<Longrightarrow> bmap_check (r, n, sin, s) = Some (r, n, sin, s)"
  by (simp add: bmap_check_def sfs_block_inuse_eq)

text \<open>Looking up a block of the file.\<close>

lemma bmap_get_lookup:
  assumes s: "fs_ok ok nblk s" and f: "file_ok blk s (din sin)" and i: "i < 1036"
    and c: "\<not> create \<or> blkmap blk s (din sin) i \<noteq> 0"
  shows "\<exists>s'. sfs_bmap_get_nolock d_io i create sin s = Some (0, blkmap blk s (din sin) i, sin, s') \<and>
    fs_eff ok nblk blk s (blk (dev s)) (fs_free s) s'"
proof -
  let ?n = "blkmap blk s (din sin) i"
  have n: "?n \<noteq> 0 \<Longrightarrow> ?n < s_blocks (super s) \<and> ?n \<notin> fs_free s" using f i by (simp add: file_ok_def)
  have chk: "bmap_check (0, ?n, sin, s') = Some (0, ?n, sin, s')" if "fs_eff ok nblk blk s F (fs_free s) s'" for F s'
    using fs_effD [OF that] n by (cases "?n = 0") (auto simp: bmap_check_def sfs_block_inuse_eq)
  show ?thesis
  proof (cases "i < 12")
    case True
    have e: "fs_eff ok nblk blk s (blk (dev s)) (fs_free s) s" using s by (simp add: fs_eff_def)
    then show ?thesis using True c chk [OF e] by (auto simp: sfs_bmap_get_nolock_def sfs_consts blkmap_def)
  next
    case False
    then have b: "?n = sub_entry blk s (di_indirect (din sin)) (i - 12)" by (simp add: blkmap_def)
    have "i - 12 < 1024" "di_indirect (din sin) \<noteq> 0 \<longrightarrow> di_indirect (din sin) < s_blocks (super s)"
      using i f False by (auto simp: file_ok_def)
    with get_sub_lookup [OF s, of "di_indirect (din sin)" "i - 12" create] c b obtain s' where
      g: "sfs_bmap_get_sub_nolock d_io (di_indirect (din sin)) (i - 12) create s = Some (0, di_indirect (din sin), ?n, s')"
      "fs_eff ok nblk blk s (blk (dev s)) (fs_free s) s'" by auto
    then show ?thesis using False \<open>i - 12 < 1024\<close> chk [OF g(2)] by (auto simp: sfs_bmap_get_nolock_def sfs_consts)
  qed
qed

text \<open>A new block in the map: allocated from the free blocks, so it is no block in use.\<close>

lemma file_ok_extend:
  assumes f: "file_ok blk s d" and i: "i < 1036" and n: "n \<in> fs_free s" "n < s_blocks (super s)"
    and m: "\<And>j. j < 1036 \<Longrightarrow> blkmap blk s' d' j = (if j = i then n else blkmap blk s d j)"
    and fr: "fs_free s' \<subseteq> fs_free s - {n}" and sb: "s_blocks (super s') = s_blocks (super s)"
    and ind: "di_indirect d' = di_indirect d \<or>
      di_indirect d' \<in> fs_free s - fs_free s' - {n} \<and> di_indirect d' < s_blocks (super s)"
    and l: "length (di_direct d') = 12" and z: "n \<noteq> 0"
  shows "file_ok blk s' d'"
  unfolding file_ok_def
proof (intro conjI allI impI)
  have used: "blkmap blk s d j < s_blocks (super s) \<and> blkmap blk s d j \<notin> fs_free s \<and> blkmap blk s d j \<noteq> di_indirect d \<and>
      (\<forall>k < 1036. k \<noteq> j \<longrightarrow> blkmap blk s d k \<noteq> blkmap blk s d j)" if "j < 1036" "blkmap blk s d j \<noteq> 0" for j
    using f that by (simp add: file_ok_def)
  have di: "di_indirect d \<noteq> 0 \<Longrightarrow> di_indirect d < s_blocks (super s) \<and> di_indirect d \<notin> fs_free s"
    using f by (simp add: file_ok_def)
  show "length (di_direct d') = 12" by (rule l)
  fix j :: nat
  assume j: "j < 1036" and nz: "blkmap blk s' d' j \<noteq> 0"
  show "blkmap blk s' d' j < s_blocks (super s')" using m [OF j] n(2) used [OF j] nz sb by (auto split: if_splits)
  show "blkmap blk s' d' j \<notin> fs_free s'" using m [OF j] fr used [OF j] nz by (auto split: if_splits)
  show "blkmap blk s' d' j \<noteq> di_indirect d'"
  proof (cases "j = i")
    case True
    then show ?thesis using m [OF j] ind n(1) di z by auto
  next
    case False
    then show ?thesis using m [OF j] ind used [OF j] nz by auto
  qed
  fix k :: nat
  assume k: "k < 1036" "k \<noteq> j"
  show "blkmap blk s' d' k \<noteq> blkmap blk s' d' j"
  proof (cases "j = i")
    case True
    then have "blkmap blk s' d' k = blkmap blk s d k" "blkmap blk s' d' j = n" using m [OF j] m [OF k(1)] k(2) by auto
    then show ?thesis using n(1) z used [OF k(1)] by metis
  next
    case False
    then have e: "blkmap blk s' d' j = blkmap blk s d j" "blkmap blk s d j \<noteq> 0" using m [OF j] nz by auto
    show ?thesis
    proof (cases "k = i")
      case True
      then show ?thesis using m [OF k(1)] e used [OF j] n(1) by auto
    next
      case False
      then show ?thesis using m [OF k(1)] e used [OF j] k by auto
    qed
  qed
next
  assume "di_indirect d' \<noteq> 0"
  then show "di_indirect d' < s_blocks (super s')" using ind sb f by (auto simp: file_ok_def)
next
  assume "di_indirect d' \<noteq> 0"
  then show "di_indirect d' \<notin> fs_free s'" using ind fr f by (auto simp: file_ok_def)
qed

lemma create_direct:
  assumes s: "fs_ok ok nblk s" and f: "file_ok blk s (din sin)" and i: "i < 12"
    and h: "blkmap blk s (din sin) i = 0" and fr: "fs_free s \<noteq> {}"
  shows "\<exists>n s'. let d' = (din sin)\<lparr>di_direct := (di_direct (din sin))[i := n]\<rparr> in
    sfs_bmap_get_nolock d_io i True sin s = Some (0, n, sin\<lparr>din := d', dirty := True\<rparr>, s') \<and>
    n \<in> fs_free s \<and> fs_free s' = fs_free s - {n} \<and> blk (dev s') n = replicate 4096 0 \<and> file_eff ok nblk blk s (din sin) s' d' \<and>
    (\<forall>j < 1036. blkmap blk s' d' j = (if j = i then n else blkmap blk s (din sin) j))"
proof -
  let ?d = "din sin"
  from sfs_block_alloc_ok [OF s fr] obtain n s' where
    a: "sfs_block_alloc d_io s = Some (0, n, s')" "n \<in> fs_free s"
    "fs_eff ok nblk blk s ((blk (dev s))(n := replicate 4096 0)) (fs_free s - {n}) s'" by blast
  note e = fs_effD [OF a(3)] and nn = fs_ok_free [OF s a(2)]
  let ?d' = "?d\<lparr>di_direct := (di_direct ?d)[i := n]\<rparr>"
  have len: "length (di_direct ?d) = 12" using f by (simp add: file_ok_def)
  have ind: "di_indirect ?d \<noteq> 0 \<Longrightarrow> di_indirect ?d < s_blocks (super s) \<and> di_indirect ?d \<noteq> n"
    using f a(2) by (auto simp: file_ok_def)
  have m: "blkmap blk s' ?d' j = (if j = i then n else blkmap blk s ?d j)" for j
    using i len ind e(4) by (auto simp: blkmap_def sub_entry_def)
  have fok: "file_ok blk s' ?d'"
    by (rule file_ok_extend [OF f _ a(2), of i]) (use m e nn len i in auto)
  have "bmap_check (0, n, (set_din (\<lambda>d. d\<lparr>di_direct := (di_direct d)[i := n]\<rparr>) sin)\<lparr>dirty := True\<rparr>, s') =
      Some (0, n, sin\<lparr>din := ?d', dirty := True\<rparr>, s')"
    using bmap_check_ok [OF e(1), of n] nn e(2,3) by (simp add: set_din_def)
  then have "sfs_bmap_get_nolock d_io i True sin s = Some (0, n, sin\<lparr>din := ?d', dirty := True\<rparr>, s')"
    using a(1) h i by (simp add: sfs_bmap_get_nolock_def sfs_consts blkmap_def Let_def)
  moreover have "file_eff ok nblk blk s ?d s' ?d'" using e fok a(2) by (auto simp: file_eff_def)
  ultimately show ?thesis using a(2) e(3,4) m nn by (intro exI [of _ n] exI [of _ s']) (simp add: Let_def)
qed

lemma create_indirect:
  assumes s: "fs_ok ok nblk s" and f: "file_ok blk s (din sin)" and i: "12 \<le> i" "i < 1036"
    and h: "blkmap blk s (din sin) i = 0" and nz: "di_indirect (din sin) \<noteq> 0" and fr: "fs_free s \<noteq> {}"
  shows "\<exists>n s'. sfs_bmap_get_nolock d_io i True sin s = Some (0, n, sin, s') \<and>
    n \<in> fs_free s \<and> fs_free s' = fs_free s - {n} \<and> blk (dev s') n = replicate 4096 0 \<and> file_eff ok nblk blk s (din sin) s' (din sin) \<and>
    (\<forall>j < 1036. blkmap blk s' (din sin) j = (if j = i then n else blkmap blk s (din sin) j))"
proof -
  let ?d = "din sin" and ?e = "di_indirect (din sin)"
  have ent: "?e < s_blocks (super s)" "?e \<notin> fs_free s" and len: "length (di_direct ?d) = 12"
    using f nz by (auto simp: file_ok_def)
  have k: "i - 12 < 1024" using i by simp
  have h2: "sub_entry blk s ?e (i - 12) = 0" using h i by (simp add: blkmap_def)
  from get_sub_existing(1) [OF s nz ent k h2 fr] obtain n s' where
    g: "sfs_bmap_get_sub_nolock d_io ?e (i - 12) True s = Some (0, ?e, n, s')" "n \<in> fs_free s"
    "fs_eff ok nblk blk s ((blk (dev s))(n := replicate 4096 0, ?e := blit (blk (dev s) ?e) ((i - 12) * 4) (le_bytes 4 n)))
      (fs_free s - {n}) s'" by blast
  note e = fs_effD [OF g(3)] and nn = fs_ok_free [OF s g(2)]
  have L: "length (blk (dev s) ?e) = 4096" using block_length ent(1) s by (auto simp: fs_ok_def)
  have m: "blkmap blk s' ?d j = (if j = i then n else blkmap blk s ?d j)" if "j < 1036" for j
  proof (cases "j < 12")
    case True
    then show ?thesis using i by (simp add: blkmap_def)
  next
    case False
    then have "j - 12 < 1024" "(j - 12 = i - 12) = (j = i)" using that i by auto
    then show ?thesis
      using le_value_slice_blit [OF L k, of "j - 12" n] e(4) [OF ent(1)] nn nz False by (simp add: blkmap_def sub_entry_def)
  qed
  have fok: "file_ok blk s' ?d"
    by (rule file_ok_extend [OF f i(2) g(2)]) (use m e nn len in auto)
  have "bmap_check (0, n, sin, s') = Some (0, n, sin, s')" using bmap_check_ok [OF e(1), of n] nn e(2,3) by simp
  then have "sfs_bmap_get_nolock d_io i True sin s = Some (0, n, sin, s')"
    using g(1) i k by (simp add: sfs_bmap_get_nolock_def sfs_consts)
  moreover have "file_eff ok nblk blk s ?d s' ?d" using e fok g(2) by (auto simp: file_eff_def)
  moreover have "blk (dev s') n = replicate 4096 0" using e(4) [of n] nn g(2) ent(2) by auto
  ultimately show ?thesis using g(2) e(3) m by blast
qed

lemma create_fresh_indirect:
  assumes s: "fs_ok ok nblk s" and f: "file_ok blk s (din sin)" and i: "12 \<le> i" "i < 1036"
    and nz: "di_indirect (din sin) = 0" and fr: "2 \<le> card (fs_free s)"
  shows "\<exists>n s' ent. let d' = (din sin)\<lparr>di_indirect := ent\<rparr> in
    sfs_bmap_get_nolock d_io i True sin s = Some (0, n, sin\<lparr>din := d', dirty := True\<rparr>, s') \<and>
    n \<in> fs_free s \<and> ent \<in> fs_free s \<and> n \<noteq> ent \<and> fs_free s' = fs_free s - {ent, n} \<and>
    blk (dev s') n = replicate 4096 0 \<and> file_eff ok nblk blk s (din sin) s' d' \<and>
    (\<forall>j < 1036. blkmap blk s' d' j = (if j = i then n else blkmap blk s (din sin) j))"
proof -
  let ?d = "din sin"
  have len: "length (di_direct ?d) = 12" using f by (simp add: file_ok_def)
  have k: "i - 12 < 1024" using i by simp
  from get_sub_fresh(1) [OF s k fr] obtain ent n s' where
    g: "sfs_bmap_get_sub_nolock d_io 0 (i - 12) True s = Some (0, ent, n, s')" "ent \<in> fs_free s" "n \<in> fs_free s" "n \<noteq> ent"
    "fs_eff ok nblk blk s ((blk (dev s))(n := replicate 4096 0, ent := blit (replicate 4096 0) ((i - 12) * 4) (le_bytes 4 n)))
      (fs_free s - {ent, n}) s'" by blast
  note e = fs_effD [OF g(5)] and nn = fs_ok_free [OF s g(3)] and en = fs_ok_free [OF s g(2)]
  let ?d' = "?d\<lparr>di_indirect := ent\<rparr>"
  have m: "blkmap blk s' ?d' j = (if j = i then n else blkmap blk s ?d j)" if "j < 1036" for j
  proof (cases "j < 12")
    case True
    then show ?thesis using i by (simp add: blkmap_def)
  next
    case False
    then have j: "j - 12 < 1024" "(j - 12 = i - 12) = (j = i)" using that i by auto
    show ?thesis
      using le_value_slice_blit [OF _ k j(1), of "replicate 4096 0" n] le_value_zeros [OF j(1)] j(2) e(4) [of ent] en nn nz False
      by (simp add: blkmap_def sub_entry_def)
  qed
  have fok: "file_ok blk s' ?d'"
    by (rule file_ok_extend [OF f i(2) g(3)]) (use m e nn en len g in auto)
  have "bmap_check (0, n, (set_din (\<lambda>d. d\<lparr>di_indirect := ent\<rparr>) sin)\<lparr>dirty := True\<rparr>, s') =
      Some (0, n, sin\<lparr>din := ?d', dirty := True\<rparr>, s')"
    using bmap_check_ok [OF e(1), of n] nn e(2,3) by (simp add: set_din_def)
  then have "sfs_bmap_get_nolock d_io i True sin s = Some (0, n, sin\<lparr>din := ?d', dirty := True\<rparr>, s')"
    using g(1) i k nz en by (simp add: sfs_bmap_get_nolock_def sfs_consts)
  moreover have "file_eff ok nblk blk s ?d s' ?d'" using e fok g(2,3) by (auto simp: file_eff_def)
  moreover have "blk (dev s') n = replicate 4096 0" using e(4) [of n] nn g(4) by auto
  ultimately show ?thesis using g(2-4) e(3) m
    by (intro exI [of _ n] exI [of _ s'] exI [of _ ent]) (simp add: Let_def)
qed

text \<open>Not enough free blocks: nothing is allocated and the block map is as before.\<close>

lemma create_no_space:
  assumes s: "fs_ok ok nblk s" and f: "file_ok blk s (din sin)" and i: "i < 1036" and h: "blkmap blk s (din sin) i = 0"
    and c: "if i < 12 \<or> di_indirect (din sin) \<noteq> 0 then fs_free s = {} else card (fs_free s) \<le> 1"
  shows "\<exists>s'. sfs_bmap_get_nolock d_io i True sin s = Some (- E_NO_MEM, 0, sin, s') \<and>
    fs_free s' = fs_free s \<and> file_eff ok nblk blk s (din sin) s' (din sin) \<and>
    (\<forall>j. blkmap blk s' (din sin) j = blkmap blk s (din sin) j)"
proof (cases "i < 12")
  case True
  then have "sfs_bmap_get_nolock d_io i True sin s = Some (- E_NO_MEM, 0, sin, s)"
    using c h sfs_block_alloc_none [OF s] by (simp add: sfs_bmap_get_nolock_def sfs_consts blkmap_def E_NO_MEM_def)
  then show ?thesis using s f by (auto simp: file_eff_def)
next
  case False
  let ?e = "di_indirect (din sin)"
  have k: "i - 12 < 1024" "12 \<le> i" using i False by auto
  have ent: "?e \<noteq> 0 \<Longrightarrow> ?e < s_blocks (super s) \<and> ?e \<notin> fs_free s" using f by (simp add: file_ok_def)
  obtain s' F where g: "sfs_bmap_get_sub_nolock d_io ?e (i - 12) True s = Some (- E_NO_MEM, ?e, 0, s')"
    "fs_eff ok nblk blk s F (fs_free s) s'" "\<And>c. c \<notin> fs_free s \<Longrightarrow> F c = blk (dev s) c"
  proof (cases "?e = 0")
    case True
    then have "card (fs_free s) \<le> 1" using c False by simp
    from get_sub_fresh(2) [OF s k(1) this] True that show ?thesis by auto
  next
    case nz: False
    have "sub_entry blk s ?e (i - 12) = 0" using h False by (simp add: blkmap_def)
    moreover have "fs_free s = {}" using c nz by simp
    ultimately show ?thesis using get_sub_existing(2) [OF s nz _ _ k(1)] ent nz that by auto
  qed
  note e = fs_effD [OF g(2)]
  have "sfs_bmap_get_nolock d_io i True sin s = Some (- E_NO_MEM, 0, sin, s')"
    using g(1) False k by (simp add: sfs_bmap_get_nolock_def sfs_consts E_NO_MEM_def)
  moreover have "blkmap blk s' (din sin) j = blkmap blk s (din sin) j" for j
    by (rule bmap_eff [OF g(2)]) (use ent g(3) in auto)
  moreover have "file_ok blk s' (din sin)"
    by (rule file_ok_eff [OF f g(2)]) (use ent g(3) in auto)
  ultimately show ?thesis using e g(3) by (auto simp: file_eff_def)
qed

section \<open>Growing and shrinking\<close>

lemma bmap_blocks_irrelevant [simp]: "blkmap blk s (d\<lparr>di_blocks := n\<rparr>) i = blkmap blk s d i" "blkmap blk s (d\<lparr>di_size := n\<rparr>) i = blkmap blk s d i"
  by (simp_all add: blkmap_def)

lemma file_ok_irrelevant [simp]: "file_ok blk s (d\<lparr>di_blocks := n\<rparr>) = file_ok blk s d" "file_ok blk s (d\<lparr>di_size := n\<rparr>) = file_ok blk s d"
  by (simp_all add: file_ok_def)

lemma file_eff_irrelevant [simp]:
  "file_eff ok nblk blk s d s' (d'\<lparr>di_blocks := n\<rparr>) = file_eff ok nblk blk s d s' d'"
  "file_eff ok nblk blk s d s' (d'\<lparr>di_size := n\<rparr>) = file_eff ok nblk blk s d s' d'"
  by (simp_all add: file_eff_def)

lemma space_for_step:
  assumes "space_for (Suc k) s d" "n \<in> fs_free s" "fs_free s' = fs_free s - {n}"
    "(di_indirect d' = 0) = (di_indirect d = 0)"
  shows "space_for k s' d'"
proof -
  have "card (fs_free s') = card (fs_free s) - 1" using assms(2,3) by (simp add: card_Diff_singleton)
  then show ?thesis using assms(1,4) unfolding space_for_def by (auto split: if_splits)
qed

lemma load_append:
  assumes s: "fs_ok ok nblk s" and f: "file_ok blk s (din sin)" and p: "prefix_ok blk s (din sin)"
    and i: "di_blocks (din sin) < 1036" and sp: "space_for (Suc k) s (din sin)"
  shows "\<exists>n sin' s'. sfs_bmap_load_nolock d_io (di_blocks (din sin)) sin s = Some (0, n, sin', s') \<and>
    di_blocks (din sin') = di_blocks (din sin) + 1 \<and> prefix_ok blk s' (din sin') \<and> space_for k s' (din sin') \<and>
    file_eff ok nblk blk s (din sin) s' (din sin') \<and> di_size (din sin') = di_size (din sin) \<and>
    (di_indirect (din sin') = di_indirect (din sin) \<or> di_indirect (din sin') \<in> fs_free s) \<and>
    (\<forall>j < di_blocks (din sin). blkmap blk s' (din sin') j = blkmap blk s (din sin) j) \<and>
    blk (dev s') (blkmap blk s' (din sin') (di_blocks (din sin))) = replicate 4096 0 \<and> fs_free s' \<subseteq> fs_free s \<and>
    fs_free s' \<union> file_blocks blk s' (din sin') = fs_free s \<union> file_blocks blk s (din sin) \<and>
    (di_indirect (din sin) \<noteq> 0 \<or> di_blocks (din sin) < 12 \<longrightarrow> di_indirect (din sin') = di_indirect (din sin))"
proof -
  let ?d = "din sin" and ?i = "di_blocks (din sin)"
  have h: "blkmap blk s ?d ?i = 0" using p i unfolding prefix_ok_def by (metis less_irrefl)
  have fr: "fs_free s \<noteq> {}" using sp by (auto simp: space_for_def split: if_splits)
  obtain n sin1 s1 where g: "sfs_bmap_get_nolock d_io ?i True sin s = Some (0, n, sin1, s1)" "n \<in> fs_free s"
    "file_eff ok nblk blk s ?d s1 (din sin1)" "blk (dev s1) n = replicate 4096 0"
    "\<forall>j < 1036. blkmap blk s1 (din sin1) j = (if j = ?i then n else blkmap blk s ?d j)"
    "di_blocks (din sin1) = ?i" "di_size (din sin1) = di_size ?d" "space_for k s1 (din sin1)"
    "di_indirect (din sin1) = di_indirect ?d \<or> di_indirect (din sin1) \<in> fs_free s" "fs_free s1 \<subseteq> fs_free s - {n}"
    "fs_free s1 \<union> file_blocks blk s1 (din sin1) = fs_free s \<union> file_blocks blk s ?d"
    "di_indirect ?d \<noteq> 0 \<or> ?i < 12 \<longrightarrow> di_indirect (din sin1) = di_indirect ?d"
  proof (cases "?i < 12")
    case True
    from create_direct [OF s f True h fr] obtain n s' where
      *: "sfs_bmap_get_nolock d_io ?i True sin s = Some (0, n, sin\<lparr>din := ?d\<lparr>di_direct := (di_direct ?d)[?i := n]\<rparr>, dirty := True\<rparr>, s')"
      "n \<in> fs_free s" "fs_free s' = fs_free s - {n}" "blk (dev s') n = replicate 4096 0"
      "file_eff ok nblk blk s ?d s' (?d\<lparr>di_direct := (di_direct ?d)[?i := n]\<rparr>)"
      "\<forall>j < 1036. blkmap blk s' (?d\<lparr>di_direct := (di_direct ?d)[?i := n]\<rparr>) j = (if j = ?i then n else blkmap blk s ?d j)"
      by (auto simp: Let_def)
    have "space_for k s' (?d\<lparr>di_direct := (di_direct ?d)[?i := n]\<rparr>)"
      by (rule space_for_step [OF sp *(2,3)]) simp
    moreover have "file_blocks blk s' (?d\<lparr>di_direct := (di_direct ?d)[?i := n]\<rparr>) = insert n (file_blocks blk s ?d)"
      by (rule file_blocks_extend(1) [OF i _ h]) (use * fs_ok_free [OF s *(2)] in auto)
    ultimately show ?thesis using that [OF *(1,2)] * by auto
  next
    case ge: False
    show ?thesis
    proof (cases "di_indirect ?d = 0")
      case True
      have "2 \<le> card (fs_free s)" using sp True by (simp add: space_for_def)
      from create_fresh_indirect [OF s f _ i True this] ge obtain n s' ent where
        *: "sfs_bmap_get_nolock d_io ?i True sin s = Some (0, n, sin\<lparr>din := ?d\<lparr>di_indirect := ent\<rparr>, dirty := True\<rparr>, s')"
        "n \<in> fs_free s" "ent \<in> fs_free s" "n \<noteq> ent" "fs_free s' = fs_free s - {ent, n}" "blk (dev s') n = replicate 4096 0"
        "file_eff ok nblk blk s ?d s' (?d\<lparr>di_indirect := ent\<rparr>)"
        "\<forall>j < 1036. blkmap blk s' (?d\<lparr>di_indirect := ent\<rparr>) j = (if j = ?i then n else blkmap blk s ?d j)"
        by (auto simp: Let_def)
      have "card (fs_free s') = card (fs_free s) - 2" using *(2-5) by (simp add: card_Diff_subset)
      then have "space_for k s' (?d\<lparr>di_indirect := ent\<rparr>)"
        using sp True fs_ok_free [OF s *(3)] by (auto simp: space_for_def)
      moreover have "file_blocks blk s' (?d\<lparr>di_indirect := ent\<rparr>) = insert ent (insert n (file_blocks blk s ?d))"
        using file_blocks_extend(2) [OF i _ h, of n s' "?d\<lparr>di_indirect := ent\<rparr>"] *
          fs_ok_free [OF s *(2)] fs_ok_free [OF s *(3)] True by auto
      ultimately show ?thesis using that [OF *(1,2)] * True ge by auto
    next
      case False
      from create_indirect [OF s f _ i h False fr] ge obtain n s' where
        *: "sfs_bmap_get_nolock d_io ?i True sin s = Some (0, n, sin, s')" "n \<in> fs_free s" "fs_free s' = fs_free s - {n}"
        "blk (dev s') n = replicate 4096 0" "file_eff ok nblk blk s ?d s' ?d"
        "\<forall>j < 1036. blkmap blk s' ?d j = (if j = ?i then n else blkmap blk s ?d j)" by auto
      have "space_for k s' ?d" by (rule space_for_step [OF sp *(2,3)]) simp
      moreover have "file_blocks blk s' ?d = insert n (file_blocks blk s ?d)"
        by (rule file_blocks_extend(1) [OF i _ h]) (use * fs_ok_free [OF s *(2)] in auto)
      ultimately show ?thesis using that [OF *(1,2)] * by auto
    qed
  qed
  note nn = fs_ok_free [OF s g(2)]
  have ok1: "fs_ok ok nblk s1" "s_blocks (super s1) = s_blocks (super s)" using g(3) by (auto simp: file_eff_def)
  have "sfs_block_inuse s1 n = Some True"
    using sfs_block_inuse_eq [OF ok1(1), of n] nn ok1(2) g(10) by auto
  then have l: "sfs_bmap_load_nolock d_io ?i sin s = Some (0, n, set_din (\<lambda>d. d\<lparr>di_blocks := di_blocks d + 1\<rparr>) sin1, s1)"
    using g(1) by (simp add: sfs_bmap_load_nolock_def)
  define sin2 where "sin2 = set_din (\<lambda>d. d\<lparr>di_blocks := di_blocks d + 1\<rparr>) sin1"
  have d2: "din sin2 = (din sin1)\<lparr>di_blocks := ?i + 1\<rparr>" using g(6) by (simp add: sin2_def set_din_def)
  have "prefix_ok blk s1 (din sin2)"
    using p i g(5) nn by (auto simp: prefix_ok_def d2)
  moreover have "\<forall>j < ?i. blkmap blk s1 (din sin2) j = blkmap blk s ?d j" using g(5) i by (simp add: d2)
  moreover have "blkmap blk s1 (din sin2) ?i = n" using g(5) i by (simp add: d2)
  moreover have "space_for k s1 (din sin2)" using g(8) by (simp add: space_for_def d2)
  ultimately show ?thesis using l g(3,4,7,9,10,11,12) unfolding sin2_def [symmetric]
    by (intro exI [of _ n] exI [of _ sin2] exI [of _ s1]) (auto simp: d2)
qed

lemma file_ok_remove:
  assumes f: "file_ok blk s d" and i: "i < 1036" and n: "blkmap blk s d i \<noteq> 0"
    and m: "\<And>j. j < 1036 \<Longrightarrow> blkmap blk s' d' j = (if j = i then 0 else blkmap blk s d j)"
    and fr: "fs_free s' = insert (blkmap blk s d i) (fs_free s)" and sb: "s_blocks (super s') = s_blocks (super s)"
    and ind: "di_indirect d' = di_indirect d" and l: "length (di_direct d') = 12"
  shows "file_ok blk s' d'"
proof -
  have u: "blkmap blk s d j < s_blocks (super s) \<and> blkmap blk s d j \<notin> fs_free s \<and> blkmap blk s d j \<noteq> di_indirect d \<and>
      (\<forall>k < 1036. k \<noteq> j \<longrightarrow> blkmap blk s d k \<noteq> blkmap blk s d j)" if "j < 1036" "blkmap blk s d j \<noteq> 0" for j
    using f that by (simp add: file_ok_def)
  have v: "blkmap blk s' d' j < s_blocks (super s') \<and> blkmap blk s' d' j \<notin> fs_free s' \<and> blkmap blk s' d' j \<noteq> di_indirect d' \<and>
      (\<forall>k < 1036. k \<noteq> j \<longrightarrow> blkmap blk s' d' k \<noteq> blkmap blk s' d' j)" if j: "j < 1036" "blkmap blk s' d' j \<noteq> 0" for j
  proof -
    have ji: "j \<noteq> i" "blkmap blk s' d' j = blkmap blk s d j" using m [OF j(1)] j(2) by (auto split: if_splits)
    then have nz: "blkmap blk s d j \<noteq> 0" using j(2) by simp
    have "blkmap blk s' d' k \<noteq> blkmap blk s d j" if "k < 1036" "k \<noteq> j" for k
      using m [OF that(1)] u [OF j(1) nz] that nz by auto
    moreover have "blkmap blk s d i \<noteq> blkmap blk s d j" using u [OF j(1) nz] i ji(1) by auto
    ultimately show ?thesis using u [OF j(1) nz] ji(2) fr sb ind by auto
  qed
  have "di_indirect d \<noteq> 0 \<Longrightarrow> di_indirect d < s_blocks (super s) \<and> di_indirect d \<notin> fs_free s \<and> di_indirect d \<noteq> blkmap blk s d i"
    using f u [OF i n] by (auto simp: file_ok_def)
  then show ?thesis using v fr sb ind l unfolding file_ok_def by auto
qed

lemma bmap_free_ok:
  assumes s: "fs_ok ok nblk s" and f: "file_ok blk s (din sin)" and i: "i < 1036" and n: "blkmap blk s (din sin) i \<noteq> 0"
  shows "\<exists>sin' s'. sfs_bmap_free_nolock d_io i sin s = Some (0, sin', s') \<and>
    fs_free s' = insert (blkmap blk s (din sin) i) (fs_free s) \<and> file_eff ok nblk blk s (din sin) s' (din sin') \<and>
    (\<forall>j < 1036. blkmap blk s' (din sin') j = (if j = i then 0 else blkmap blk s (din sin) j)) \<and>
    di_blocks (din sin') = di_blocks (din sin) \<and> di_size (din sin') = di_size (din sin) \<and>
    di_indirect (din sin') = di_indirect (din sin)"
proof -
  let ?d = "din sin" and ?n = "blkmap blk s (din sin) i"
  have nn: "?n < s_blocks (super s)" "?n \<notin> fs_free s" "?n \<noteq> di_indirect ?d" and len: "length (di_direct ?d) = 12"
    using f i n by (auto simp: file_ok_def)
  show ?thesis
  proof (cases "i < 12")
    case True
    from sfs_block_free_ok [OF s n nn(1,2), of blk] obtain s' where
      r: "sfs_block_free ?n s = Some s'" "fs_eff ok nblk blk s (blk (dev s)) (insert ?n (fs_free s)) s'" by blast
    note e = fs_effD [OF r(2)]
    let ?d' = "?d\<lparr>di_direct := (di_direct ?d)[i := 0]\<rparr>"
    have b: "blkmap blk s' ?d j = blkmap blk s ?d j" for j
      by (rule bmap_eff [OF r(2)]) (use f in \<open>auto simp: file_ok_def\<close>)
    have m: "blkmap blk s' ?d' j = (if j = i then 0 else blkmap blk s ?d j)" for j
      using b [of j] True len by (auto simp: blkmap_def sub_entry_def)
    have fok: "file_ok blk s' ?d'" by (rule file_ok_remove [OF f i n]) (use m e len in auto)
    have "sfs_bmap_free_nolock d_io i sin s = Some (0, sin\<lparr>din := ?d', dirty := True\<rparr>, s')"
      using True r(1) n by (simp add: sfs_bmap_free_nolock_def sfs_consts blkmap_def Let_def set_din_def)
    then show ?thesis using e fok m by (auto simp: file_eff_def)
  next
    case False
    let ?e = "di_indirect ?d"
    have nz: "?e \<noteq> 0" using n False by (auto simp: blkmap_def sub_entry_def split: if_splits)
    have ent: "?e < s_blocks (super s)" "?e \<notin> fs_free s" using f nz by (auto simp: file_ok_def)
    have k: "i - 12 < 1024" using i False by simp
    have nv: "?n = le_value (slice ((i - 12) * 4) 4 (blk (dev s) ?e))" using False nz by (simp add: blkmap_def sub_entry_def)
    have d: "sfs_dev_ok ok nblk s" using s by (simp add: fs_ok_def)
    from sfs_rbuf_ok [OF d ent(1) nz, of "(i - 12) * 4" 4] k obtain s1 where
      r: "sfs_rbuf d_io 4 ?e ((i - 12) * 4) s = Some (0, slice ((i - 12) * 4) 4 (blk (dev s) ?e), s1)"
      "io_eff ok nblk blk s (blk (dev s)) s1" by auto
    note f1 = fs_eff_io [OF s r(2)]
    note e1 = fs_effD [OF f1]
    have d1: "sfs_dev_ok ok nblk s1" "?e < s_blocks (super s1)" using e1(1,2) ent(1) by (auto simp: fs_ok_def)
    from sfs_wbuf_ok [OF d1 nz, of "(i - 12) * 4" "le_bytes 4 0"] k obtain s2 where
      w: "sfs_wbuf d_io (le_bytes 4 0) ?e ((i - 12) * 4) s1 = Some (0, s2)"
      "io_eff ok nblk blk s1 ((blk (dev s1))(?e := blit (blk (dev s1) ?e) ((i - 12) * 4) (le_bytes 4 0))) s2"
      by (auto simp del: le_bytes.simps)
    note f2 = fs_eff_trans [OF f1 fs_eff_io [OF e1(1) w(2)]]
    note e2 = fs_effD [OF f2]
    have "?n < s_blocks (super s2)" "?n \<notin> fs_free s2" using nn e2(2,3) e1(3) by auto
    from sfs_block_free_ok [OF e2(1) n this, of blk] obtain s3 where
      b: "sfs_block_free ?n s2 = Some s3" "fs_eff ok nblk blk s2 (blk (dev s2)) (insert ?n (fs_free s2)) s3" by blast
    have F: "fs_eff ok nblk blk s ((blk (dev s))(?e := blit (blk (dev s) ?e) ((i - 12) * 4) (le_bytes 4 0))) (insert ?n (fs_free s)) s3"
      by (rule fs_eff_cong [OF fs_eff_trans [OF f2 b(2)]]) (use e2(3,4) e1(3,4) ent in auto)
    note e = fs_effD [OF F]
    have L: "length (blk (dev s) ?e) = 4096" using block_length ent(1) d by auto
    have m: "blkmap blk s3 ?d j = (if j = i then 0 else blkmap blk s ?d j)" if "j < 1036" for j
    proof (cases "j < 12")
      case True
      then show ?thesis using False by (simp add: blkmap_def)
    next
      case ge: False
      then have "j - 12 < 1024" "(j - 12 = i - 12) = (j = i)" using that False by auto
      then show ?thesis
        using le_value_slice_blit [OF L k, of "j - 12" 0] e(4) [OF ent(1)] nz ge by (simp add: blkmap_def sub_entry_def)
    qed
    have fok: "file_ok blk s3 ?d" by (rule file_ok_remove [OF f i n]) (use m e len in auto)
    have "sfs_block_inuse s ?e = Some True" using sfs_block_inuse_eq [OF s nz ent(1)] ent(2) by simp
    then have "sfs_bmap_free_nolock d_io i sin s = Some (0, sin, s3)"
      using False k r(1) w(1) b(1) n nz nv
      by (simp add: sfs_bmap_free_nolock_def sfs_bmap_free_sub_nolock_def sfs_consts del: le_bytes.simps)
    then show ?thesis using e fok m by (auto simp: file_eff_def)
  qed
qed

lemma truncate_ok:
  assumes s: "fs_ok ok nblk s" and f: "file_ok blk s (din sin)" and p: "prefix_ok blk s (din sin)"
    and b: "di_blocks (din sin) = Suc k"
  shows "\<exists>sin' s'. sfs_bmap_truncate_nolock d_io sin s = Some (0, sin', s') \<and> di_blocks (din sin') = k \<and>
    prefix_ok blk s' (din sin') \<and> file_eff ok nblk blk s (din sin) s' (din sin') \<and> di_size (din sin') = di_size (din sin) \<and>
    di_indirect (din sin') = di_indirect (din sin) \<and>
    (\<forall>j < k. blkmap blk s' (din sin') j = blkmap blk s (din sin) j) \<and> fs_free s \<subseteq> fs_free s' \<and>
    fs_free s' \<union> file_blocks blk s' (din sin') = fs_free s \<union> file_blocks blk s (din sin)"
proof -
  have k: "k < 1036" and nz: "blkmap blk s (din sin) k \<noteq> 0" using p b by (auto simp: prefix_ok_def)
  from bmap_free_ok [OF s f k nz] obtain sin1 s' where
    r: "sfs_bmap_free_nolock d_io k sin s = Some (0, sin1, s')" "fs_free s' = insert (blkmap blk s (din sin) k) (fs_free s)"
    "file_eff ok nblk blk s (din sin) s' (din sin1)"
    "\<forall>j < 1036. blkmap blk s' (din sin1) j = (if j = k then 0 else blkmap blk s (din sin) j)"
    "di_blocks (din sin1) = di_blocks (din sin)" "di_size (din sin1) = di_size (din sin)"
    "di_indirect (din sin1) = di_indirect (din sin)" by blast
  define sin2 where "sin2 = (set_din (\<lambda>d. d\<lparr>di_blocks := di_blocks d - 1\<rparr>) sin1)\<lparr>dirty := True\<rparr>"
  have d2: "din sin2 = (din sin1)\<lparr>di_blocks := k\<rparr>" using r(5) b by (simp add: sin2_def set_din_def)
  have "sfs_bmap_truncate_nolock d_io sin s = Some (0, sin2, s')"
    using r(1) b by (simp add: sfs_bmap_truncate_nolock_def sin2_def)
  moreover have "prefix_ok blk s' (din sin2)"
    using p b r(4) k unfolding prefix_ok_def d2 by (auto simp: less_Suc_eq)
  moreover have "file_blocks blk s (din sin) = insert (blkmap blk s (din sin) k) (file_blocks blk s' (din sin1))"
    using r(4,7) by (intro file_blocks_remove [OF k nz refl]) auto
  ultimately show ?thesis using r k by (intro exI [of _ sin2] exI [of _ s']) (auto simp: d2)
qed

lemma kept_block:
  assumes "file_ok blk s d" "prefix_ok blk s d" "j < di_blocks d"
  shows "blkmap blk s d j \<noteq> 0" "blkmap blk s d j < s_blocks (super s)" "blkmap blk s d j \<notin> fs_free s"
    "blkmap blk s d j \<noteq> di_indirect d"
  using assms by (auto simp: file_ok_def prefix_ok_def)

lemma grow_loop_ok:
  assumes "fs_ok ok nblk s" "file_ok blk s (din sin)" "prefix_ok blk s (din sin)"
    "di_blocks (din sin) + k \<le> 1036" "space_for k s (din sin)"
  shows "\<exists>sin' s'. grow_loop d_io k (di_blocks (din sin)) sin s = Some (0, sin', s') \<and>
    di_blocks (din sin') = di_blocks (din sin) + k \<and> di_size (din sin') = di_size (din sin) \<and>
    resized ok nblk blk (di_blocks (din sin)) s (din sin) s' (din sin') \<and> fs_free s' \<subseteq> fs_free s"
  using assms
proof (induction k arbitrary: sin s)
  case 0
  then show ?case using file_blocks_not_free [of blk s "din sin"] by (auto simp: resized_def prefix_ok_def)
next
  case (Suc k)
  let ?d = "din sin"
  have "di_blocks ?d < 1036" using Suc.prems(4) by simp
  from load_append [OF Suc.prems(1-3) this Suc.prems(5)] obtain n sin1 s1 where
    l: "sfs_bmap_load_nolock d_io (di_blocks ?d) sin s = Some (0, n, sin1, s1)" "di_blocks (din sin1) = di_blocks ?d + 1"
    "prefix_ok blk s1 (din sin1)" "space_for k s1 (din sin1)" "file_eff ok nblk blk s ?d s1 (din sin1)"
    "di_size (din sin1) = di_size ?d" "di_indirect (din sin1) = di_indirect ?d \<or> di_indirect (din sin1) \<in> fs_free s"
    "\<forall>j < di_blocks ?d. blkmap blk s1 (din sin1) j = blkmap blk s ?d j"
    "blk (dev s1) (blkmap blk s1 (din sin1) (di_blocks ?d)) = replicate 4096 0" "fs_free s1 \<subseteq> fs_free s"
    "fs_free s1 \<union> file_blocks blk s1 (din sin1) = fs_free s \<union> file_blocks blk s ?d"
    "di_indirect ?d \<noteq> 0 \<or> di_blocks ?d < 12 \<longrightarrow> di_indirect (din sin1) = di_indirect ?d" by blast
  have o: "fs_ok ok nblk s1" "file_ok blk s1 (din sin1)" "s_blocks (super s1) = s_blocks (super s)"
    "\<And>c. c < s_blocks (super s) \<Longrightarrow> c \<notin> fs_free s \<Longrightarrow> c \<noteq> di_indirect ?d \<Longrightarrow> blk (dev s1) c = blk (dev s) c"
    using l(5) by (auto simp: file_eff_def)
  have "di_blocks (din sin1) + k \<le> 1036" using Suc.prems(4) l(2) by simp
  from Suc.IH [OF o(1,2) l(3) this l(4)] obtain sin2 s2 where
    g: "grow_loop d_io k (di_blocks (din sin1)) sin1 s1 = Some (0, sin2, s2)" "di_blocks (din sin2) = di_blocks (din sin1) + k"
    "di_size (din sin2) = di_size (din sin1)" "resized ok nblk blk (di_blocks (din sin1)) s1 (din sin1) s2 (din sin2)" "fs_free s2 \<subseteq> fs_free s1"
    by blast
  have keep: "blkmap blk s2 (din sin2) j = blkmap blk s ?d j \<and> blk (dev s2) (blkmap blk s ?d j) = blk (dev s) (blkmap blk s ?d j)"
    if j: "j < di_blocks ?d" for j
  proof -
    note kb = kept_block [OF Suc.prems(2,3) j]
    have 1: "blk (dev s1) (blkmap blk s ?d j) = blk (dev s) (blkmap blk s ?d j)" by (rule o(4)) (use kb in auto)
    have 2: "blkmap blk s1 (din sin1) j = blkmap blk s ?d j" using l(8) j by simp
    have "blkmap blk s2 (din sin2) j = blkmap blk s1 (din sin1) j \<and>
        blk (dev s2) (blkmap blk s1 (din sin1) j) = blk (dev s1) (blkmap blk s1 (din sin1) j)"
      using g(4) l(2) j by (auto simp: resized_def)
    then show ?thesis using 1 2 by simp
  qed
  have zero: "blk (dev s2) (blkmap blk s2 (din sin2) j) = replicate 4096 0" if "di_blocks ?d \<le> j" "j < di_blocks (din sin2)" for j
  proof (cases "j = di_blocks ?d")
    case True
    then show ?thesis using g(4) l(2,9) by (auto simp: resized_def)
  next
    case False
    then show ?thesis using g(4) l(2) that by (auto simp: resized_def)
  qed
  have other: "blk (dev s2) c = blk (dev s) c" if "c < s_blocks (super s)" "c \<notin> fs_free s \<union> fs_free s2" "c \<noteq> di_indirect ?d" for c
  proof -
    have "c \<noteq> di_indirect (din sin1)" "c \<notin> fs_free s1 \<union> fs_free s2" using that l(7,10) by auto
    then have "blk (dev s2) c = blk (dev s1) c" using g(4) that(1) o(3) by (auto simp: resized_def)
    then show ?thesis using o(4) that by simp
  qed
  note acc = resized_accounts [OF g(4)]
  have ind: "di_indirect (din sin2) = di_indirect ?d" if "di_indirect ?d \<noteq> 0 \<or> di_blocks (din sin2) \<le> 12"
  proof -
    have "di_indirect (din sin1) = di_indirect ?d" using l(12) that g(2) l(2) by auto
    then show ?thesis using acc(3) that by auto
  qed
  have "resized ok nblk blk (di_blocks ?d) s ?d s2 (din sin2)"
    unfolding resized_def using g(4) keep zero other o(3) acc(1,2) l(11) ind by (simp add: resized_def)
  moreover have "grow_loop d_io (Suc k) (di_blocks ?d) sin s = Some (0, sin2, s2)" using l(1,2) g(1) by simp
  ultimately show ?case using g(2,3,5) l(2,6,10) by auto
qed

lemma shrink_loop_ok:
  assumes "fs_ok ok nblk s" "file_ok blk s (din sin)" "prefix_ok blk s (din sin)" "di_blocks (din sin) = m + k"
  shows "\<exists>sin' s'. shrink_loop d_io k sin s = Some (0, sin', s') \<and> di_blocks (din sin') = m \<and>
    di_indirect (din sin') = di_indirect (din sin) \<and>
    di_size (din sin') = di_size (din sin) \<and> resized ok nblk blk m s (din sin) s' (din sin') \<and> fs_free s \<subseteq> fs_free s'"
  using assms
proof (induction k arbitrary: sin s)
  case 0
  then show ?case using file_blocks_not_free [of blk s "din sin"] by (auto simp: resized_def)
next
  case (Suc k)
  let ?d = "din sin"
  have "di_blocks ?d = Suc (m + k)" using Suc.prems(4) by simp
  from truncate_ok [OF Suc.prems(1-3) this] obtain sin1 s1 where
    l: "sfs_bmap_truncate_nolock d_io sin s = Some (0, sin1, s1)" "di_blocks (din sin1) = m + k"
    "prefix_ok blk s1 (din sin1)" "file_eff ok nblk blk s ?d s1 (din sin1)" "di_size (din sin1) = di_size ?d"
    "di_indirect (din sin1) = di_indirect ?d" "\<forall>j < m + k. blkmap blk s1 (din sin1) j = blkmap blk s ?d j"
    "fs_free s \<subseteq> fs_free s1" "fs_free s1 \<union> file_blocks blk s1 (din sin1) = fs_free s \<union> file_blocks blk s ?d" by blast
  have o: "fs_ok ok nblk s1" "file_ok blk s1 (din sin1)" "s_blocks (super s1) = s_blocks (super s)"
    "\<And>c. c < s_blocks (super s) \<Longrightarrow> c \<notin> fs_free s \<Longrightarrow> c \<noteq> di_indirect ?d \<Longrightarrow> blk (dev s1) c = blk (dev s) c"
    using l(4) by (auto simp: file_eff_def)
  from Suc.IH [OF o(1,2) l(3,2)] obtain sin2 s2 where
    g: "shrink_loop d_io k sin1 s1 = Some (0, sin2, s2)" "di_blocks (din sin2) = m" "di_size (din sin2) = di_size (din sin1)"
    "resized ok nblk blk m s1 (din sin1) s2 (din sin2)" "fs_free s1 \<subseteq> fs_free s2"
    "di_indirect (din sin2) = di_indirect (din sin1)" by blast
  have keep: "blkmap blk s2 (din sin2) j = blkmap blk s ?d j \<and> blk (dev s2) (blkmap blk s ?d j) = blk (dev s) (blkmap blk s ?d j)"
    if j: "j < m" for j
  proof -
    have "j < di_blocks ?d" using j Suc.prems(4) by simp
    note kb = kept_block [OF Suc.prems(2,3) this]
    have 1: "blk (dev s1) (blkmap blk s ?d j) = blk (dev s) (blkmap blk s ?d j)" by (rule o(4)) (use kb in auto)
    have 2: "blkmap blk s1 (din sin1) j = blkmap blk s ?d j" using l(7) j by simp
    have "blkmap blk s2 (din sin2) j = blkmap blk s1 (din sin1) j \<and>
        blk (dev s2) (blkmap blk s1 (din sin1) j) = blk (dev s1) (blkmap blk s1 (din sin1) j)"
      using g(4) j by (auto simp: resized_def)
    then show ?thesis using 1 2 by simp
  qed
  have other: "blk (dev s2) c = blk (dev s) c" if "c < s_blocks (super s)" "c \<notin> fs_free s \<union> fs_free s2" "c \<noteq> di_indirect ?d" for c
  proof -
    have "c \<noteq> di_indirect (din sin1)" "c \<notin> fs_free s1 \<union> fs_free s2" using that l(6) g(5) by auto
    then have "blk (dev s2) c = blk (dev s1) c" using g(4) that(1) o(3) by (auto simp: resized_def)
    then show ?thesis using o(4) that by simp
  qed
  note acc = resized_accounts [OF g(4)]
  have "resized ok nblk blk m s ?d s2 (din sin2)"
    unfolding resized_def using g(2,4,6) keep other o(3) acc(1,2) l(6,9) by (simp add: resized_def)
  then show ?case using l(1,5,6,8) g by auto
qed

lemma truncfile_ok:
  assumes s: "fs_ok ok nblk s" and f: "file_ok blk s (din sin)" and p: "prefix_ok blk s (din sin)"
    and sz: "di_blocks (din sin) = ROUNDUP_DIV (di_size (din sin)) 4096"
    and len: "len \<le> 4096 * 1036"
    and sp: "di_blocks (din sin) < ROUNDUP_DIV len 4096 \<Longrightarrow> space_for (ROUNDUP_DIV len 4096 - di_blocks (din sin)) s (din sin)"
  shows "\<exists>sin' s'. sfs_truncfile d_io (int len) sin s = Some (0, sin', s') \<and> di_size (din sin') = len \<and>
    di_blocks (din sin') = ROUNDUP_DIV len 4096 \<and>
    resized ok nblk blk (min (di_blocks (din sin)) (ROUNDUP_DIV len 4096)) s (din sin) s' (din sin')"
proof -
  let ?d = "din sin" and ?t = "ROUNDUP_DIV len 4096" and ?n = "di_blocks (din sin)"
  have lim: "\<not> (int len < 0 \<or> int len > SFS_MAX_FILE_SIZE)" "?t \<le> 1036"
    using len by (auto simp: SFS_MAX_FILE_SIZE_def ROUNDUP_DIV_def)
  show ?thesis
  proof (cases "di_size ?d = len")
    case True
    then have "sfs_truncfile d_io (int len) sin s = Some (0, sin, s)"
      using lim sz by (simp add: sfs_truncfile_def sfs_consts Let_def)
    moreover have "resized ok nblk blk (min ?n ?t) s ?d s ?d"
      using s f p sz True file_blocks_not_free [OF f] by (auto simp: resized_def)
    ultimately show ?thesis using True sz by auto
  next
    case False
    have "\<exists>sin1 s1. (if ?n < ?t then grow_loop d_io (?t - ?n) ?n sin s else shrink_loop d_io (?n - ?t) sin s) = Some (0, sin1, s1) \<and>
        di_blocks (din sin1) = ?t \<and> resized ok nblk blk (min ?n ?t) s ?d s1 (din sin1)"
    proof (cases "?n < ?t")
      case True
      then have "?n + (?t - ?n) \<le> 1036" using lim(2) by simp
      from grow_loop_ok [OF s f p this sp [OF True]] True show ?thesis by (auto simp: min_def)
    next
      case False
      then have "?n = ?t + (?n - ?t)" by simp
      from shrink_loop_ok [OF s f p this] False show ?thesis by (auto simp: min_def)
    qed
    then obtain sin1 s1 where
      r: "(if ?n < ?t then grow_loop d_io (?t - ?n) ?n sin s else shrink_loop d_io (?n - ?t) sin s) = Some (0, sin1, s1)"
      "di_blocks (din sin1) = ?t" "resized ok nblk blk (min ?n ?t) s ?d s1 (din sin1)" by blast
    define sin2 where "sin2 = (set_din (\<lambda>d. d\<lparr>di_size := len\<rparr>) sin1)\<lparr>dirty := True\<rparr>"
    have d2: "din sin2 = (din sin1)\<lparr>di_size := len\<rparr>" by (simp add: sin2_def set_din_def)
    have "sfs_truncfile d_io (int len) sin s = Some (0, sin2, s1)"
      using lim(1) False r(1,2) by (simp add: sfs_truncfile_def SFS_BLKSIZE_def Let_def sin2_def)
    moreover have "resized ok nblk blk (min ?n ?t) s ?d s1 (din sin2)" using r(3) by (simp add: resized_def prefix_ok_def d2)
    ultimately show ?thesis using r(2) d2 by auto
  qed
qed

text \<open>The block map has 1036 entries; the length limit of a file is 128 megabytes.\<close>

lemma grow_loop_add:
  "grow_loop io (a + b) n sin s = do {
     (ret, sin1, s1) \<leftarrow> grow_loop io a n sin s;
     if ret \<noteq> 0 then Some (ret, sin1, s1) else grow_loop io b (n + a) sin1 s1
   }"
proof (induction a arbitrary: n sin s)
  case (Suc a)
  have e: "n + Suc a = Suc n + a" by simp
  show ?case
    unfolding e by (cases "sfs_bmap_load_nolock io n sin s") (auto simp: Suc split: prod.splits)
qed simp

lemma truncfile_beyond_map:
  assumes s: "fs_ok ok nblk s" and f: "file_ok blk s (din sin)" and p: "prefix_ok blk s (din sin)"
    and sz: "di_size (din sin) \<le> 4096 * 1036" and len: "4096 * 1036 < len" "len \<le> nat SFS_MAX_FILE_SIZE"
    and sp: "space_for (1036 - di_blocks (din sin)) s (din sin)"
  shows "sfs_truncfile d_io (int len) sin s = None"
proof -
  let ?n = "di_blocks (din sin)" and ?t = "ROUNDUP_DIV len 4096"
  have n: "?n \<le> 1036" using p by (simp add: prefix_ok_def)
  have t: "1036 < ?t" using len(1) by (simp add: ROUNDUP_DIV_def)
  define k where "k = ?t - 1037"
  have tk: "?t - ?n = (1036 - ?n) + Suc k" using n t by (simp add: k_def)
  have "?n + (1036 - ?n) \<le> 1036" using n by simp
  from grow_loop_ok [OF s f p this sp] obtain sin1 s1 where
    g: "grow_loop d_io (1036 - ?n) ?n sin s = Some (0, sin1, s1)" "di_blocks (din sin1) = 1036" using n by auto
  have "sfs_bmap_load_nolock d_io 1036 sin1 s1 = None"
    using g(2) by (simp add: sfs_bmap_load_nolock_def sfs_bmap_get_nolock_def sfs_consts)
  then have "grow_loop d_io (?t - ?n) ?n sin s = None"
    using g(1) n unfolding tk grow_loop_add by simp
  moreover have "\<not> (int len < 0 \<or> int len > SFS_MAX_FILE_SIZE)" using len(2) by (simp add: SFS_MAX_FILE_SIZE_def)
  moreover have "di_size (din sin) \<noteq> len" "?n < ?t" using sz len(1) n t by auto
  ultimately show ?thesis by (simp add: sfs_truncfile_def SFS_BLKSIZE_def Let_def)
qed

end

section \<open>The properties, on disk0\<close>

text \<open>
  C21: \<open>sfs_truncfile\<close> on disk0 gives a file without holes its new length, of up to 1036 blocks, when
  the free blocks are enough for what it gains: it then has just the blocks it needs, again without
  holes, the blocks it keeps hold what they held, blocks it gains read as zeros, no block is used twice,
  and no other block in use is written. The free blocks are accounted for: the blocks of the file (its
  indirect block included) and the free blocks are disjoint and together the same set as before. An
  indirect block once there is kept, also when the file shrinks below thirteen blocks.
\<close>

theorem sfs_truncfile_resizes:
  assumes "fs_ok disk_ok d_blocks s" and "file_ok disk_blk s (din sin)" and "prefix_ok disk_blk s (din sin)"
    and "di_blocks (din sin) = ROUNDUP_DIV (di_size (din sin)) 4096" and "len \<le> 4096 * 1036"
    and "di_blocks (din sin) < ROUNDUP_DIV len 4096 \<longrightarrow>
      space_for (ROUNDUP_DIV len 4096 - di_blocks (din sin)) s (din sin)"
  shows "\<exists>sin' s'. sfs_truncfile disk0_io (int len) sin s = Some (0, sin', s') \<and> di_size (din sin') = len \<and>
    di_blocks (din sin') = ROUNDUP_DIV len 4096 \<and>
    resized disk_ok d_blocks disk_blk (min (di_blocks (din sin)) (ROUNDUP_DIV len 4096)) s (din sin) s' (din sin')"
  using disk.truncfile_ok [OF assms(1-5)] assms(6) by blast

text \<open>A file system of five blocks with an empty file; blocks 3 and 4 are free.\<close>

definition demo_sfs :: "disk0 sfs_fs" where
  "demo_sfs = \<lparr>super = \<lparr>s_magic = SFS_MAGIC, s_blocks = 5, s_unused = 2, s_info = replicate 32 0\<rparr>,
     dev = \<lparr>ide = \<lparr>valid = True, nsectors = 40, image = replicate 20480 0\<rparr>,
       disk0_buffer = replicate 16384 0, d_blocks = 5, d_blocksize = 4096\<rparr>,
     freemap = \<lparr>nbits = 32, nwords = 1, bmap = [24]\<rparr>, super_dirty = False, sfs_buffer = replicate 4096 0\<rparr>"

definition demo_sin :: sfs_inode where
  "demo_sin = \<lparr>din = \<lparr>di_size = 0, di_type = 1, di_nlinks = 1, di_blocks = 0, di_direct = replicate 12 0, di_indirect = 0\<rparr>,
     ino = 2, dirty = False, reclaim_count = 1\<rparr>"

lemma demo_bits: "fs_free demo_sfs = {3, 4}"
proof -
  have "\<forall>i \<in> set [0..<32]. bit (24 :: u32) i = (i = 3 \<or> i = 4)" by code_simp
  then have "bit (24 :: u32) i = (i = 3 \<or> i = 4)" if "i < 32" for i using that by simp
  then show ?thesis by (auto simp: fs_free_def free_bits_def bit_at_def demo_sfs_def)
qed

lemma demo_sfs_ok: "fs_ok disk_ok d_blocks demo_sfs"
  using demo_bits
  by (simp add: fs_ok_def sfs_dev_ok_def disk_ok_def disk_consts bitmap_ok_def ROUNDUP_DIV_def demo_sfs_def)

lemma demo_sin_ok: "file_ok disk_blk demo_sfs (din demo_sin)" "prefix_ok disk_blk demo_sfs (din demo_sin)"
  by (simp_all add: file_ok_def prefix_ok_def blkmap_def sub_entry_def demo_sin_def)

theorem sfs_truncfile_resizes_witness:
  "\<exists>sin' s'. sfs_truncfile disk0_io (int 100) demo_sin demo_sfs = Some (0, sin', s') \<and> di_size (din sin') = 100 \<and>
    fs_ok disk_ok d_blocks s' \<and> fs_free s' \<union> file_blocks disk_blk s' (din sin') = {3, 4}"
proof -
  have b: "file_blocks disk_blk demo_sfs (din demo_sin) = {}"
    by (auto simp: file_blocks_def blkmap_def sub_entry_def demo_sin_def)
  have "di_blocks (din demo_sin) = ROUNDUP_DIV (di_size (din demo_sin)) 4096"
    by (simp add: demo_sin_def ROUNDUP_DIV_def)
  moreover have "space_for (ROUNDUP_DIV 100 4096 - di_blocks (din demo_sin)) demo_sfs (din demo_sin)"
    using demo_bits by (simp add: space_for_def demo_sin_def ROUNDUP_DIV_def)
  ultimately show ?thesis
    using sfs_truncfile_resizes [OF demo_sfs_ok demo_sin_ok, of 100] b demo_bits by (auto simp: resized_def)
qed

text \<open>
  When the disk is full \<open>sfs_bmap_get_nolock\<close> fails with \<open>E_NO_MEM\<close> and takes back what it
  allocated: the free blocks, the inode and the block map are as before.
\<close>

theorem sfs_bmap_get_full_disk:
  assumes "fs_ok disk_ok d_blocks s" and "file_ok disk_blk s (din sin)" and "i < 1036" and "blkmap disk_blk s (din sin) i = 0"
    and "if i < 12 \<or> di_indirect (din sin) \<noteq> 0 then fs_free s = {} else card (fs_free s) \<le> 1"
  shows "\<exists>s'. sfs_bmap_get_nolock disk0_io i True sin s = Some (- E_NO_MEM, 0, sin, s') \<and>
    fs_free s' = fs_free s \<and> file_eff disk_ok d_blocks disk_blk s (din sin) s' (din sin) \<and>
    (\<forall>j. blkmap disk_blk s' (din sin) j = blkmap disk_blk s (din sin) j)"
  using disk.create_no_space [OF assms] .

text \<open>One free block only: it would serve as the indirect block, and nothing is left for the data.\<close>

definition demo_full :: "disk0 sfs_fs" where
  "demo_full = demo_sfs\<lparr>freemap := \<lparr>nbits = 32, nwords = 1, bmap = [16]\<rparr>,
     super := \<lparr>s_magic = SFS_MAGIC, s_blocks = 5, s_unused = 1, s_info = replicate 32 0\<rparr>\<rparr>"

theorem sfs_bmap_get_full_disk_witness:
  "\<exists>s'. sfs_bmap_get_nolock disk0_io 12 True demo_sin demo_full = Some (- E_NO_MEM, 0, demo_sin, s') \<and> fs_free s' = {4}"
proof -
  have "\<forall>i \<in> set [0..<32]. bit (16 :: u32) i = (i = 4)" by code_simp
  then have "bit (16 :: u32) i = (i = 4)" if "i < 32" for i using that by simp
  then have fr: "fs_free demo_full = {4}" by (auto simp: fs_free_def free_bits_def bit_at_def demo_full_def)
  then have "fs_ok disk_ok d_blocks demo_full"
    by (simp add: fs_ok_def sfs_dev_ok_def disk_ok_def disk_consts bitmap_ok_def ROUNDUP_DIV_def demo_full_def demo_sfs_def)
  moreover have "file_ok disk_blk demo_full (din demo_sin)" "blkmap disk_blk demo_full (din demo_sin) 12 = 0"
    by (simp_all add: file_ok_def blkmap_def sub_entry_def demo_sin_def)
  ultimately show ?thesis using sfs_bmap_get_full_disk [of demo_full demo_sin 12] fr by (auto simp: demo_sin_def)
qed

text \<open>
  A resize past 1036 blocks (a seek does it too), far below the file size limit the code checks, stops
  the kernel: the block map runs out of entries and \<open>sfs_bmap_get_nolock\<close> panics.
\<close>

theorem sfs_truncfile_beyond_map_panics:
  assumes "fs_ok disk_ok d_blocks s" and "file_ok disk_blk s (din sin)" and "prefix_ok disk_blk s (din sin)"
    and "di_size (din sin) \<le> 4096 * 1036" and "4096 * 1036 < pos" and "pos < nat SFS_MAX_FILE_SIZE"
    and "space_for (1036 - di_blocks (din sin)) s (din sin)"
  shows "sfs_truncfile disk0_io (int pos) sin s = None"
  using disk.truncfile_beyond_map [OF assms(1-5) _ assms(7)] assms(6) by simp

lemma bitmap_3_to_1999: "\<exists>b. bitmap_ok b \<and> nbits b = 2000 \<and> free_bits b = {3..<2000}"
proof -
  define P where "P b n = (bitmap_ok b \<and> nbits b = 2000 \<and> free_bits b = {n..<2000})" for b n
  obtain b0 where "bitmap_ok b0" "nbits b0 = 2000" "free_bits b0 = {..<2000}" using bitmap_create_ok [of 2000] by auto
  then have "P b0 0" by (simp add: P_def lessThan_atLeast0)
  have step: "\<exists>b'. P b' (Suc n)" if b: "P b n" and n: "n < 2000" for b n
  proof -
    have "Min {n..<2000} = n" using n by (intro Min_eqI) auto
    moreover have "{n..<2000} - {n} = {Suc n..<2000}" by auto
    moreover have "{n..<2000} \<noteq> {}" using n by auto
    ultimately show ?thesis using bitmap_alloc_cases [of b] b unfolding P_def by metis
  qed
  have "(0 :: nat) < 2000" by simp
  from step [OF \<open>P b0 0\<close> this] obtain b1 where "P b1 (Suc 0)" by blast
  moreover have "Suc 0 < 2000" by simp
  ultimately obtain b2 where "P b2 (Suc (Suc 0))" using step by blast
  moreover have "Suc (Suc 0) < 2000" by simp
  ultimately obtain b3 where "P b3 (Suc (Suc (Suc 0)))" using step by blast
  then show ?thesis unfolding P_def numeral_3_eq_3 by blast
qed

theorem sfs_truncfile_beyond_map_panics_witness:
  "\<exists>s. fs_ok disk_ok d_blocks s \<and> sfs_truncfile disk0_io (int 5000000) demo_sin s = None"
proof -
  obtain b where b: "bitmap_ok b" "nbits b = 2000" "free_bits b = {3..<2000}" using bitmap_3_to_1999 by blast
  define s :: "disk0 sfs_fs" where
    "s = \<lparr>super = \<lparr>s_magic = SFS_MAGIC, s_blocks = 2000, s_unused = 1997, s_info = replicate 32 0\<rparr>,
       dev = \<lparr>ide = \<lparr>valid = True, nsectors = 16000, image = replicate 8192000 0\<rparr>,
         disk0_buffer = replicate 16384 0, d_blocks = 2000, d_blocksize = 4096\<rparr>,
       freemap = b, super_dirty = False, sfs_buffer = replicate 4096 0\<rparr>"
  have "fs_ok disk_ok d_blocks s"
    using b by (auto simp: fs_ok_def sfs_dev_ok_def disk_ok_def disk_consts fs_free_def s_def)
  moreover have "file_ok disk_blk s (din demo_sin)" "prefix_ok disk_blk s (din demo_sin)"
    by (simp_all add: file_ok_def prefix_ok_def blkmap_def sub_entry_def demo_sin_def)
  moreover have "space_for (1036 - di_blocks (din demo_sin)) s (din demo_sin)"
    using b(3) by (simp add: space_for_def demo_sin_def fs_free_def s_def)
  ultimately show ?thesis
    using sfs_truncfile_beyond_map_panics [of s demo_sin 5000000] by (auto simp: demo_sin_def SFS_MAX_FILE_SIZE_def)
qed

end
