(* ===== verification/SfsInode.thy ===== *)
theory SfsInode
  imports SfsBmap
begin

text \<open>
  Directories and in-memory inodes of SFS, the rest of \<open>kern/fs/sfs/sfs_inode.c\<close>, with the reference
  counts of \<open>kern/fs/vfs/inode.c\<close>. In-memory inodes live at addresses; the hash chains and the inode
  list are the sequences of addresses the circular lists thread (\<open>list_add\<close> puts an element in front).
  \<open>kmalloc\<close> delivers fresh addresses until \<open>heap_left\<close> objects are handed out, then \<open>NULL\<close>.
\<close>

section \<open>State\<close>

record inode =
  in_sin :: sfs_inode
  ref_count :: int
  open_count :: int

record 'd vnodes =
  sfs :: "'d sfs_fs"
  inodes :: "nat \<Rightarrow> inode option"
  hash_list :: "nat \<Rightarrow> nat list"
  inode_list :: "nat list"
  next_addr :: nat
  heap_left :: nat

definition hash32 :: "u32 \<Rightarrow> nat \<Rightarrow> u32" where
  "hash32 val nb = drop_bit (32 - nb) (val * 0x9e370001)"

definition SFS_HLIST_SHIFT :: nat where "SFS_HLIST_SHIFT = 10"

definition sin_hashfn :: "nat \<Rightarrow> nat" where
  "sin_hashfn n = unat (hash32 (of_nat n) SFS_HLIST_SHIFT)"

definition kmalloc_obj :: "'d vnodes \<Rightarrow> (nat \<times> 'd vnodes) option" where
  "kmalloc_obj m = (if heap_left m = 0 then None
     else Some (next_addr m, m\<lparr>next_addr := next_addr m + 1, heap_left := heap_left m - 1\<rparr>))"

definition kfree_obj :: "'d vnodes \<Rightarrow> 'd vnodes" where
  "kfree_obj m = m\<lparr>heap_left := heap_left m + 1\<rparr>"

definition upd_sin :: "nat \<Rightarrow> (sfs_inode \<Rightarrow> sfs_inode) \<Rightarrow> 'd vnodes \<Rightarrow> 'd vnodes" where
  "upd_sin a f m = m\<lparr>inodes := (inodes m)(a := map_option (\<lambda>n. n\<lparr>in_sin := f (in_sin n)\<rparr>) (inodes m a))\<rparr>"

section \<open>Directory entries\<close>

definition SFS_MAX_FNAME_LEN :: nat where "SFS_MAX_FNAME_LEN = 255"

text \<open>A C string: the bytes before the first \<open>NUL\<close>.\<close>

definition cstr :: "u8 list \<Rightarrow> u8 list" where
  "cstr bs = takeWhile (\<lambda>b. b \<noteq> 0) bs"

text \<open>\<open>e\<close> is what the entry buffer holds before the call.\<close>

definition sfs_dirent_read_nolock ::
  "'d dev_io \<Rightarrow> nat \<Rightarrow> sfs_disk_entry \<Rightarrow> sfs_inode \<Rightarrow> 'd sfs_fs \<Rightarrow> (int \<times> sfs_disk_entry \<times> sfs_inode \<times> 'd sfs_fs) option" where
  "sfs_dirent_read_nolock io slot e sin s = do {
     c_assert (di_type (din sin) = SFS_TYPE_DIR \<and> slot < di_blocks (din sin));
     (ret, n, sin1, s1) \<leftarrow> sfs_bmap_load_nolock io slot sin s;
     if ret \<noteq> 0 then Some (ret, e, sin1, s1)
     else do {
       u \<leftarrow> sfs_block_inuse s1 n;
       c_assert u;
       (ret2, bs, s2) \<leftarrow> sfs_rbuf io 260 n 0 s1;
       if ret2 \<noteq> 0 then Some (ret2, e, sin1, s2)
       else let e1 = dec_entry bs in
         Some (0, e1\<lparr>de_name := (de_name e1)[SFS_MAX_FNAME_LEN := 0]\<rparr>, sin1, s2)
     }
   }"

text \<open>
  The loop of \<open>sfs_dirent_search_nolock\<close> over the slots from \<open>i\<close> on: the code, the inode number and
  slot of the match, and the last empty slot seen.
\<close>

fun search_loop ::
  "'d dev_io \<Rightarrow> u8 list \<Rightarrow> nat \<Rightarrow> nat \<Rightarrow> nat \<Rightarrow> sfs_disk_entry \<Rightarrow> sfs_inode \<Rightarrow> 'd sfs_fs \<Rightarrow>
   (int \<times> nat \<times> nat \<times> nat \<times> sfs_inode \<times> 'd sfs_fs) option" where
  "search_loop io name 0 i es e sin s = Some (- E_NOENT, 0, 0, es, sin, s)"
| "search_loop io name (Suc k) i es e sin s = do {
     (ret, e1, sin1, s1) \<leftarrow> sfs_dirent_read_nolock io i e sin s;
     if ret \<noteq> 0 then Some (ret, 0, 0, es, sin1, s1)
     else if de_ino e1 = 0 then search_loop io name k (i + 1) i e1 sin1 s1
     else if cstr (de_name e1) = name then Some (0, de_ino e1, i, es, sin1, s1)
     else search_loop io name k (i + 1) es e1 sin1 s1
   }"

definition blank_entry :: sfs_disk_entry where
  "blank_entry = \<lparr>de_ino = 0, de_name = replicate 256 0\<rparr>"

definition sfs_dirent_search_nolock ::
  "'d dev_io \<Rightarrow> u8 list \<Rightarrow> nat \<Rightarrow> sfs_inode \<Rightarrow> 'd sfs_fs \<Rightarrow>
   (int \<times> nat \<times> nat \<times> nat \<times> sfs_inode \<times> 'd sfs_fs) option" where
  "sfs_dirent_search_nolock io name heap sin s = do {
     c_assert (length name \<le> SFS_MAX_FNAME_LEN);
     if heap = 0 then Some (- E_NO_MEM, 0, 0, 0, sin, s)
     else search_loop io name (di_blocks (din sin)) 0 (di_blocks (din sin)) blank_entry sin s
   }"

fun sfs_dirent_findino_loop ::
  "'d dev_io \<Rightarrow> nat \<Rightarrow> nat \<Rightarrow> nat \<Rightarrow> sfs_disk_entry \<Rightarrow> sfs_inode \<Rightarrow> 'd sfs_fs \<Rightarrow>
   (int \<times> sfs_disk_entry \<times> sfs_inode \<times> 'd sfs_fs) option" where
  "sfs_dirent_findino_loop io n 0 i e sin s = Some (- E_NOENT, e, sin, s)"
| "sfs_dirent_findino_loop io n (Suc k) i e sin s = do {
     (ret, e1, sin1, s1) \<leftarrow> sfs_dirent_read_nolock io i e sin s;
     if ret \<noteq> 0 then Some (ret, e1, sin1, s1)
     else if de_ino e1 = n then Some (0, e1, sin1, s1)
     else sfs_dirent_findino_loop io n k (i + 1) e1 sin1 s1
   }"

definition sfs_dirent_findino_nolock ::
  "'d dev_io \<Rightarrow> nat \<Rightarrow> sfs_disk_entry \<Rightarrow> sfs_inode \<Rightarrow> 'd sfs_fs \<Rightarrow> (int \<times> sfs_disk_entry \<times> sfs_inode \<times> 'd sfs_fs) option" where
  "sfs_dirent_findino_nolock io n e sin s = sfs_dirent_findino_loop io n (di_blocks (din sin)) 0 e sin s"

text \<open>The \<open>slot\<close>-th entry in use.\<close>

fun getdirentry_loop ::
  "'d dev_io \<Rightarrow> nat \<Rightarrow> nat \<Rightarrow> nat \<Rightarrow> sfs_disk_entry \<Rightarrow> sfs_inode \<Rightarrow> 'd sfs_fs \<Rightarrow>
   (int \<times> sfs_disk_entry \<times> sfs_inode \<times> 'd sfs_fs) option" where
  "getdirentry_loop io 0 i slot e sin s = Some (- E_NOENT, e, sin, s)"
| "getdirentry_loop io (Suc k) i slot e sin s = do {
     (ret, e1, sin1, s1) \<leftarrow> sfs_dirent_read_nolock io i e sin s;
     if ret \<noteq> 0 then Some (ret, e1, sin1, s1)
     else if de_ino e1 \<noteq> 0 then
       (if slot = 0 then Some (0, e1, sin1, s1) else getdirentry_loop io k (i + 1) (slot - 1) e1 sin1 s1)
     else getdirentry_loop io k (i + 1) slot e1 sin1 s1
   }"

definition sfs_getdirentry_sub_nolock ::
  "'d dev_io \<Rightarrow> nat \<Rightarrow> sfs_disk_entry \<Rightarrow> sfs_inode \<Rightarrow> 'd sfs_fs \<Rightarrow> (int \<times> sfs_disk_entry \<times> sfs_inode \<times> 'd sfs_fs) option" where
  "sfs_getdirentry_sub_nolock io slot e sin s = getdirentry_loop io (di_blocks (din sin)) 0 slot e sin s"

definition sfs_dentry_size :: nat where "sfs_dentry_size = 256"

definition sfs_getdirentry ::
  "'d dev_io \<Rightarrow> nat \<Rightarrow> iobuf \<Rightarrow> sfs_inode \<Rightarrow> 'd sfs_fs \<Rightarrow> (int \<times> iobuf \<times> sfs_inode \<times> 'd sfs_fs) option" where
  "sfs_getdirentry io heap iob sin s =
     (if heap = 0 then Some (- E_NO_MEM, iob, sin, s)
      else if io_offset iob < 0 \<or> io_offset iob mod int sfs_dentry_size \<noteq> 0 then Some (- E_INVAL, iob, sin, s)
      else
        let slot = nat (io_offset iob div int sfs_dentry_size) in
        if slot > di_blocks (din sin) then Some (- E_NOENT, iob, sin, s)
        else do {
          (ret, e, sin1, s1) \<leftarrow> sfs_getdirentry_sub_nolock io slot blank_entry sin s;
          if ret \<noteq> 0 then Some (ret, iob, sin1, s1)
          else do {
            (ret2, copied, data, iob1) \<leftarrow> iobuf_move (de_name e) sfs_dentry_size True iob;
            Some (ret2, iob1, sin1, s1)
          }
        })"

section \<open>Reference counts and the inode table\<close>

definition inode_ref_inc :: "nat \<Rightarrow> 'd vnodes \<Rightarrow> (int \<times> 'd vnodes) option" where
  "inode_ref_inc a m = do {
     n \<leftarrow> inodes m a;
     Some (ref_count n + 1, m\<lparr>inodes := (inodes m)(a \<mapsto> n\<lparr>ref_count := ref_count n + 1\<rparr>)\<rparr>)
   }"

definition sfs_set_links :: "nat \<Rightarrow> nat \<Rightarrow> 'd vnodes \<Rightarrow> 'd vnodes" where
  "sfs_set_links n a m = m\<lparr>inode_list := a # inode_list m,
     hash_list := (hash_list m)(sin_hashfn n := a # hash_list m (sin_hashfn n))\<rparr>"

definition sfs_remove_links :: "nat \<Rightarrow> nat \<Rightarrow> 'd vnodes \<Rightarrow> 'd vnodes" where
  "sfs_remove_links n a m = m\<lparr>inode_list := remove1 a (inode_list m),
     hash_list := (hash_list m)(sin_hashfn n := remove1 a (hash_list m (sin_hashfn n)))\<rparr>"

definition has_ino :: "'d vnodes \<Rightarrow> nat \<Rightarrow> nat \<Rightarrow> bool" where
  "has_ino m n a = (case inodes m a of None \<Rightarrow> False | Some x \<Rightarrow> ino (in_sin x) = n)"

definition lookup_sfs_nolock :: "nat \<Rightarrow> 'd vnodes \<Rightarrow> (nat option \<times> 'd vnodes) option" where
  "lookup_sfs_nolock n m =
     (case find (has_ino m n) (hash_list m (sin_hashfn n)) of
        None \<Rightarrow> Some (None, m)
      | Some a \<Rightarrow> do {
          (r, m1) \<leftarrow> inode_ref_inc a m;
          Some (Some a, if r = 1 then upd_sin a (\<lambda>s. s\<lparr>reclaim_count := reclaim_count s + 1\<rparr>) m1 else m1)
        })"

text \<open>\<open>sfs_get_ops\<close> panics on a type that is neither a file nor a directory.\<close>

definition sfs_create_inode :: "sfs_disk_inode \<Rightarrow> nat \<Rightarrow> 'd vnodes \<Rightarrow> (int \<times> nat \<times> 'd vnodes) option" where
  "sfs_create_inode d n m =
     (case kmalloc_obj m of
        None \<Rightarrow> Some (- E_NO_MEM, 0, m)
      | Some (a, m1) \<Rightarrow> do {
          c_assert (di_type d = SFS_TYPE_DIR \<or> di_type d = SFS_TYPE_FILE);
          Some (0, a, m1\<lparr>inodes := (inodes m1)(a \<mapsto>
            \<lparr>in_sin = \<lparr>din = d, ino = n, dirty = False, reclaim_count = 1\<rparr>, ref_count = 1, open_count = 0\<rparr>)\<rparr>)
        })"

definition sfs_load_inode :: "'d dev_io \<Rightarrow> nat \<Rightarrow> 'd vnodes \<Rightarrow> (int \<times> nat \<times> 'd vnodes) option" where
  "sfs_load_inode io n m = do {
     (found, m1) \<leftarrow> lookup_sfs_nolock n m;
     (case found of
        Some a \<Rightarrow> Some (0, a, m1)
      | None \<Rightarrow>
          (case kmalloc_obj m1 of
             None \<Rightarrow> Some (- E_NO_MEM, 0, m1)
           | Some (daddr, m2) \<Rightarrow> do {
               u \<leftarrow> sfs_block_inuse (sfs m2) n;
               c_assert u;
               (ret, bs, s1) \<leftarrow> sfs_rbuf io 64 n 0 (sfs m2);
               let m3 = m2\<lparr>sfs := s1\<rparr>;
               if ret \<noteq> 0 then Some (ret, 0, kfree_obj m3)
               else do {
                 c_assert (di_nlinks (dec_inode bs) \<noteq> 0);
                 (ret2, a, m4) \<leftarrow> sfs_create_inode (dec_inode bs) n m3;
                 if ret2 \<noteq> 0 then Some (ret2, 0, kfree_obj m4)
                 else Some (0, a, sfs_set_links n a m4)
               }
             }))
   }"

definition sfs_fsync :: "'d dev_io \<Rightarrow> nat \<Rightarrow> 'd vnodes \<Rightarrow> (int \<times> 'd vnodes) option" where
  "sfs_fsync io a m = do {
     n \<leftarrow> inodes m a;
     if dirty (in_sin n) then do {
       let m1 = upd_sin a (\<lambda>s. s\<lparr>dirty := False\<rparr>) m;
       (ret, s1) \<leftarrow> sfs_wbuf io (enc_inode (din (in_sin n))) (ino (in_sin n)) 0 (sfs m1);
       let m2 = m1\<lparr>sfs := s1\<rparr>;
       Some (ret, if ret \<noteq> 0 then upd_sin a (\<lambda>s. s\<lparr>dirty := True\<rparr>) m2 else m2)
     }
     else Some (0, m)
   }"

text \<open>
  An operation reached through a \<open>vop_\<close> macro is preceded by \<open>inode_check\<close>: the counts are in order.
\<close>

definition MAX_INODE_COUNT :: int where "MAX_INODE_COUNT = 0x10000"

definition inode_check :: "nat \<Rightarrow> 'd vnodes \<Rightarrow> unit option" where
  "inode_check a m = do {
     n \<leftarrow> inodes m a;
     c_assert (ref_count n \<ge> open_count n \<and> open_count n \<ge> 0);
     c_assert (ref_count n < MAX_INODE_COUNT \<and> open_count n < MAX_INODE_COUNT)
   }"

definition vop_fsync :: "'d dev_io \<Rightarrow> nat \<Rightarrow> 'd vnodes \<Rightarrow> (int \<times> 'd vnodes) option" where
  "vop_fsync io a m = do { inode_check a m; sfs_fsync io a m }"

text \<open>\<open>vop_truncate\<close> on an inode: directories have no such operation.\<close>

definition vop_truncate :: "'d dev_io \<Rightarrow> nat \<Rightarrow> int \<Rightarrow> 'd vnodes \<Rightarrow> (int \<times> 'd vnodes) option" where
  "vop_truncate io a len m = do {
     n \<leftarrow> inodes m a;
     c_assert (di_type (din (in_sin n)) = SFS_TYPE_FILE);
     inode_check a m;
     (ret, sin1, s1) \<leftarrow> sfs_truncfile io len (in_sin n) (sfs m);
     Some (ret, upd_sin a (\<lambda>_. sin1) (m\<lparr>sfs := s1\<rparr>))
   }"

definition inode_kill :: "nat \<Rightarrow> 'd vnodes \<Rightarrow> 'd vnodes option" where
  "inode_kill a m = do {
     n \<leftarrow> inodes m a;
     c_assert (ref_count n = 0);
     c_assert (open_count n = 0);
     Some (kfree_obj (m\<lparr>inodes := (inodes m)(a := None)\<rparr>))
   }"

definition on_sfs :: "('d sfs_fs \<Rightarrow> 'd sfs_fs option) \<Rightarrow> 'd vnodes \<Rightarrow> 'd vnodes option" where
  "on_sfs f m = do { s1 \<leftarrow> f (sfs m); Some (m\<lparr>sfs := s1\<rparr>) }"

definition sfs_reclaim :: "'d dev_io \<Rightarrow> nat \<Rightarrow> 'd vnodes \<Rightarrow> (int \<times> 'd vnodes) option" where
  "sfs_reclaim io a m = do {
     n \<leftarrow> inodes m a;
     c_assert (reclaim_count (in_sin n) > 0);
     let m1 = upd_sin a (\<lambda>s. s\<lparr>reclaim_count := reclaim_count s - 1\<rparr>) m;
     if reclaim_count (in_sin n) - 1 \<noteq> 0 \<or> ref_count n \<noteq> 0 then Some (- E_BUSY, m1)
     else do {
       (ret, m2) \<leftarrow> (if di_nlinks (din (in_sin n)) = 0 then vop_truncate io a 0 m1 else Some (0, m1));
       if ret \<noteq> 0 then Some (ret, m2)
       else do {
         n2 \<leftarrow> inodes m2 a;
         (ret2, m3) \<leftarrow> (if dirty (in_sin n2) then vop_fsync io a m2 else Some (0, m2));
         if ret2 \<noteq> 0 then Some (ret2, m3)
         else do {
           n3 \<leftarrow> inodes m3 a;
           let sin3 = in_sin n3;
           let m4 = sfs_remove_links (ino sin3) a m3;
           m5 \<leftarrow> (if di_nlinks (din sin3) = 0 then do {
                     m \<leftarrow> on_sfs (sfs_block_free (ino sin3)) m4;
                     if di_indirect (din sin3) \<noteq> 0 then on_sfs (sfs_block_free (di_indirect (din sin3))) m else Some m
                   }
                   else Some m4);
           m6 \<leftarrow> inode_kill a (kfree_obj m5);
           Some (0, m6)
         }
       }
     }
   }"

definition vop_reclaim :: "'d dev_io \<Rightarrow> nat \<Rightarrow> 'd vnodes \<Rightarrow> (int \<times> 'd vnodes) option" where
  "vop_reclaim io a m = do { inode_check a m; sfs_reclaim io a m }"

text \<open>The result of \<open>vop_reclaim\<close> is only reported.\<close>

definition inode_ref_dec :: "'d dev_io \<Rightarrow> nat \<Rightarrow> 'd vnodes \<Rightarrow> (int \<times> 'd vnodes) option" where
  "inode_ref_dec io a m = do {
     n \<leftarrow> inodes m a;
     c_assert (ref_count n > 0);
     let m1 = m\<lparr>inodes := (inodes m)(a \<mapsto> n\<lparr>ref_count := ref_count n - 1\<rparr>)\<rparr>;
     if ref_count n - 1 = 0 then do { (ret, m2) \<leftarrow> vop_reclaim io a m1; Some (0, m2) }
     else Some (ref_count n - 1, m1)
   }"

definition inode_open_inc :: "nat \<Rightarrow> 'd vnodes \<Rightarrow> (int \<times> 'd vnodes) option" where
  "inode_open_inc a m = do {
     n \<leftarrow> inodes m a;
     Some (open_count n + 1, m\<lparr>inodes := (inodes m)(a \<mapsto> n\<lparr>open_count := open_count n + 1\<rparr>)\<rparr>)
   }"

text \<open>The last close calls \<open>vop_close\<close>, which is \<open>sfs_close\<close>, that is \<open>vop_fsync\<close>.\<close>

definition sfs_close :: "'d dev_io \<Rightarrow> nat \<Rightarrow> 'd vnodes \<Rightarrow> (int \<times> 'd vnodes) option" where
  "sfs_close io a m = vop_fsync io a m"

definition vop_close :: "'d dev_io \<Rightarrow> nat \<Rightarrow> 'd vnodes \<Rightarrow> (int \<times> 'd vnodes) option" where
  "vop_close io a m = do { inode_check a m; sfs_close io a m }"

definition inode_open_dec :: "'d dev_io \<Rightarrow> nat \<Rightarrow> 'd vnodes \<Rightarrow> (int \<times> 'd vnodes) option" where
  "inode_open_dec io a m = do {
     n \<leftarrow> inodes m a;
     c_assert (open_count n > 0);
     let m1 = m\<lparr>inodes := (inodes m)(a \<mapsto> n\<lparr>open_count := open_count n - 1\<rparr>)\<rparr>;
     if open_count n - 1 = 0 then do { (ret, m2) \<leftarrow> vop_close io a m1; Some (0, m2) }
     else Some (open_count n - 1, m1)
   }"

section \<open>The operations of an inode\<close>

definition sfs_lookup_once :: "'d dev_io \<Rightarrow> u8 list \<Rightarrow> nat \<Rightarrow> 'd vnodes \<Rightarrow> (int \<times> nat \<times> 'd vnodes) option" where
  "sfs_lookup_once io name a m = do {
     n \<leftarrow> inodes m a;
     (ret, found, slot, es, sin1, s1) \<leftarrow> sfs_dirent_search_nolock io name (heap_left m) (in_sin n) (sfs m);
     let m1 = upd_sin a (\<lambda>_. sin1) (m\<lparr>sfs := s1\<rparr>);
     if ret = 0 then sfs_load_inode io found m1 else Some (ret, 0, m1)
   }"

definition sfs_lookup :: "'d dev_io \<Rightarrow> nat \<Rightarrow> u8 list \<Rightarrow> 'd vnodes \<Rightarrow> (int \<times> nat \<times> 'd vnodes) option" where
  "sfs_lookup io a path m = do {
     c_assert (path \<noteq> [] \<and> hd path \<noteq> 47);
     (r, m1) \<leftarrow> inode_ref_inc a m;
     n \<leftarrow> inodes m1 a;
     if di_type (din (in_sin n)) \<noteq> SFS_TYPE_DIR then do {
       (r2, m2) \<leftarrow> inode_ref_dec io a m1;
       Some (- E_NOTDIR, 0, m2)
     }
     else do {
       (ret, sub, m2) \<leftarrow> sfs_lookup_once io path a m1;
       (r3, m3) \<leftarrow> inode_ref_dec io a m2;
       if ret \<noteq> 0 then Some (ret, 0, m3) else Some (0, sub, m3)
     }
   }"

definition O_ACCMODE :: nat where "O_ACCMODE = 3"
definition O_CREAT :: nat where "O_CREAT = 4"
definition O_EXCL :: nat where "O_EXCL = 8"
definition O_TRUNC :: nat where "O_TRUNC = 16"
definition O_APPEND :: nat where "O_APPEND = 32"

definition flag_set :: "nat \<Rightarrow> nat \<Rightarrow> bool" where
  "flag_set flags bit_value = odd (flags div bit_value)"

definition sfs_opendir :: "nat \<Rightarrow> int" where
  "sfs_opendir open_flags =
     (if open_flags mod 4 \<noteq> 0 then - E_ISDIR
      else if flag_set open_flags O_APPEND then - E_ISDIR else 0)"

definition sfs_openfile :: "nat \<Rightarrow> int" where
  "sfs_openfile open_flags = 0"

definition S_IFREG :: nat where "S_IFREG = 4096"
definition S_IFDIR :: nat where "S_IFDIR = 8192"
definition S_IFLNK :: nat where "S_IFLNK = 12288"

definition sfs_gettype :: "nat \<Rightarrow> 'd vnodes \<Rightarrow> (int \<times> nat) option" where
  "sfs_gettype a m = do {
     n \<leftarrow> inodes m a;
     let t = di_type (din (in_sin n));
     if t = SFS_TYPE_DIR then Some (0, S_IFDIR)
     else if t = SFS_TYPE_FILE then Some (0, S_IFREG)
     else if t = SFS_TYPE_LINK then Some (0, S_IFLNK)
     else None
   }"

record stat =
  st_mode :: nat
  st_nlinks :: nat
  st_blocks :: nat
  st_size :: nat

definition sfs_fstat :: "nat \<Rightarrow> 'd vnodes \<Rightarrow> (int \<times> stat) option" where
  "sfs_fstat a m = do {
     inode_check a m;
     (ret, mode) \<leftarrow> sfs_gettype a m;
     n \<leftarrow> inodes m a;
     let d = din (in_sin n);
     Some (0, \<lparr>st_mode = mode, st_nlinks = di_nlinks d, st_blocks = di_blocks d, st_size = di_size d\<rparr>)
   }"

definition sfs_tryseek :: "'d dev_io \<Rightarrow> nat \<Rightarrow> int \<Rightarrow> 'd vnodes \<Rightarrow> (int \<times> 'd vnodes) option" where
  "sfs_tryseek io a pos m =
     (if pos < 0 \<or> pos \<ge> SFS_MAX_FILE_SIZE then Some (- E_INVAL, m)
      else do {
        n \<leftarrow> inodes m a;
        if pos > int (di_size (din (in_sin n))) then vop_truncate io a pos m else Some (0, m)
      })"

text \<open>
  \<open>sfs_io_nolock\<close> as the repository has it: the transfer between the two ends of the function is an
  unfilled exercise, so no byte moves. The end position is an \<open>off_t\<close>, a 64-bit sum that may wrap to a
  value before the offset.
\<close>

definition sfs_io_nolock :: "int \<Rightarrow> nat \<Rightarrow> bool \<Rightarrow> sfs_inode \<Rightarrow> (int \<times> nat \<times> sfs_inode) option" where
  "sfs_io_nolock off len w sin = do {
     c_assert (di_type (din sin) \<noteq> SFS_TYPE_DIR);
     let endpos = sint (word_of_int (off + int len) :: 64 word);
     if off < 0 \<or> off \<ge> SFS_MAX_FILE_SIZE \<or> off > endpos then Some (- E_INVAL, 0, sin)
     else if off = endpos then Some (0, 0, sin)
     else if \<not> w \<and> off \<ge> int (di_size (din sin)) then Some (0, 0, sin)
     else if off + 0 > int (di_size (din sin)) then
       Some (0, 0, (set_din (\<lambda>d. d\<lparr>di_size := nat off\<rparr>) sin)\<lparr>dirty := True\<rparr>)
     else Some (0, 0, sin)
   }"

definition sfs_io :: "bool \<Rightarrow> nat \<Rightarrow> iobuf \<Rightarrow> 'd vnodes \<Rightarrow> (int \<times> iobuf \<times> 'd vnodes) option" where
  "sfs_io w a iob m = do {
     n \<leftarrow> inodes m a;
     (ret, alen, sin1) \<leftarrow> sfs_io_nolock (io_offset iob) (io_resid iob) w (in_sin n);
     iob1 \<leftarrow> (if alen \<noteq> 0 then iobuf_skip alen iob else Some iob);
     Some (ret, iob1, upd_sin a (\<lambda>_. sin1) m)
   }"

section \<open>Searching a directory\<close>

text \<open>The entry in slot \<open>i\<close> of a directory.\<close>

definition entry_at :: "('d \<Rightarrow> nat \<Rightarrow> u8 list) \<Rightarrow> 'd sfs_fs \<Rightarrow> sfs_disk_inode \<Rightarrow> nat \<Rightarrow> sfs_disk_entry" where
  "entry_at blk s d i =
     (let e = dec_entry (slice 0 260 (blk (dev s) (blkmap blk s d i))) in e\<lparr>de_name := (de_name e)[255 := 0]\<rparr>)"

definition dir_ok :: "('d \<Rightarrow> bool) \<Rightarrow> ('d \<Rightarrow> nat) \<Rightarrow> ('d \<Rightarrow> nat \<Rightarrow> u8 list) \<Rightarrow> 'd sfs_fs \<Rightarrow> sfs_disk_inode \<Rightarrow> bool" where
  "dir_ok ok nblk blk s d \<longleftrightarrow> fs_ok ok nblk s \<and> file_ok blk s d \<and> prefix_ok blk s d \<and> di_type d = SFS_TYPE_DIR"

text \<open>The entry in slot \<open>i\<close> is in use and carries the name.\<close>

definition names :: "('d \<Rightarrow> nat \<Rightarrow> u8 list) \<Rightarrow> 'd sfs_fs \<Rightarrow> sfs_disk_inode \<Rightarrow> u8 list \<Rightarrow> nat \<Rightarrow> bool" where
  "names blk s d name i \<longleftrightarrow> de_ino (entry_at blk s d i) \<noteq> 0 \<and> cstr (de_name (entry_at blk s d i)) = name"

context block_device
begin

lemma same_file:
  assumes "fs_eff ok nblk blk s (blk (dev s)) (fs_free s) s'" "dir_ok ok nblk blk s d"
  shows "dir_ok ok nblk blk s' d" "entry_at blk s' d i = entry_at blk s d i \<or> di_blocks d \<le> i"
proof -
  have f: "file_ok blk s d" and p: "prefix_ok blk s d" using assms(2) by (auto simp: dir_ok_def)
  have b: "blkmap blk s' d j = blkmap blk s d j" for j
    by (rule bmap_eff [OF assms(1)]) (use f in \<open>auto simp: file_ok_def\<close>)
  have "file_ok blk s' d" by (rule file_ok_eff [OF f assms(1)]) auto
  then show "dir_ok ok nblk blk s' d" using assms b by (auto simp: dir_ok_def prefix_ok_def fs_eff_def)
  show "entry_at blk s' d i = entry_at blk s d i \<or> di_blocks d \<le> i"
    using b fs_effD(4) [OF assms(1)] kept_block(2) [OF f p, of i] by (auto simp: entry_at_def not_le)
qed

lemma dirent_read_ok:
  assumes d: "dir_ok ok nblk blk s (din sin)" and i: "i < di_blocks (din sin)"
  shows "\<exists>s'. sfs_dirent_read_nolock d_io i e sin s = Some (0, entry_at blk s (din sin) i, sin, s') \<and>
    fs_eff ok nblk blk s (blk (dev s)) (fs_free s) s'"
proof -
  let ?n = "blkmap blk s (din sin) i"
  have s: "fs_ok ok nblk s" and f: "file_ok blk s (din sin)" and p: "prefix_ok blk s (din sin)"
    and t: "di_type (din sin) = SFS_TYPE_DIR" using d by (auto simp: dir_ok_def)
  note n = kept_block [OF f p i]
  have "i < 1036" using i p by (simp add: prefix_ok_def)
  from bmap_get_lookup [OF s f this, of False] obtain s1 where
    g: "sfs_bmap_get_nolock d_io i False sin s = Some (0, ?n, sin, s1)" "fs_eff ok nblk blk s (blk (dev s)) (fs_free s) s1" by auto
  note e1 = fs_effD [OF g(2)]
  have iu: "sfs_block_inuse s1 ?n = Some True" using sfs_block_inuse_eq [OF e1(1) n(1)] n(2,3) e1(2,3) by simp
  have l: "sfs_bmap_load_nolock d_io i sin s = Some (0, ?n, sin, s1)"
    using g(1) i iu by (simp add: sfs_bmap_load_nolock_def)
  have dv: "sfs_dev_ok ok nblk s1" "?n < s_blocks (super s1)" using e1(1,2) n(2) by (auto simp: fs_ok_def)
  from sfs_rbuf_ok [OF dv n(1), of 0 260] obtain s2 where
    r: "sfs_rbuf d_io 260 ?n 0 s1 = Some (0, slice 0 260 (blk (dev s1) ?n), s2)" "io_eff ok nblk blk s1 (blk (dev s1)) s2" by auto
  have "fs_eff ok nblk blk s (blk (dev s)) (fs_free s) s2"
    by (rule fs_eff_cong [OF fs_eff_trans [OF g(2) fs_eff_io [OF e1(1) r(2)]]]) (use e1(3,4) in auto)
  moreover have "sfs_dirent_read_nolock d_io i e sin s = Some (0, entry_at blk s (din sin) i, sin, s2)"
    using t i l iu r(1) e1(4) [OF n(2)] by (simp add: sfs_dirent_read_nolock_def entry_at_def SFS_MAX_FNAME_LEN_def Let_def)
  ultimately show ?thesis by blast
qed

lemma search_loop_ok:
  assumes "dir_ok ok nblk blk s (din sin)" "i + k = di_blocks (din sin)" "\<forall>j < i. \<not> names blk s (din sin) name j"
  shows "\<exists>ret f slot es' s'. search_loop d_io name k i es e sin s = Some (ret, f, slot, es', sin, s') \<and>
    fs_eff ok nblk blk s (blk (dev s)) (fs_free s) s' \<and>
    (if \<exists>j < di_blocks (din sin). names blk s (din sin) name j
     then ret = 0 \<and> slot < di_blocks (din sin) \<and> names blk s (din sin) name slot \<and> f = de_ino (entry_at blk s (din sin) slot) \<and>
       (\<forall>j < slot. \<not> names blk s (din sin) name j)
     else ret = - E_NOENT)"
  using assms
proof (induction k arbitrary: i es e s)
  case 0
  then show ?case by (auto simp: fs_eff_def dir_ok_def)
next
  case (Suc k)
  let ?d = "din sin"
  have i: "i < di_blocks ?d" using Suc.prems(2) by simp
  from dirent_read_ok [OF Suc.prems(1) i, of e] obtain s1 where
    r: "sfs_dirent_read_nolock d_io i e sin s = Some (0, entry_at blk s ?d i, sin, s1)"
    "fs_eff ok nblk blk s (blk (dev s)) (fs_free s) s1" by blast
  note e1 = fs_effD [OF r(2)]
  have d1: "dir_ok ok nblk blk s1 ?d" using same_file(1) [OF r(2) Suc.prems(1)] .
  have en: "entry_at blk s1 ?d j = entry_at blk s ?d j" if "j < di_blocks ?d" for j
    using same_file(2) [OF r(2) Suc.prems(1), of j] that by auto
  have nm: "names blk s1 ?d name j = names blk s ?d name j" if "j < di_blocks ?d" for j
    using en [OF that] by (simp add: names_def)
  show ?case
  proof (cases "names blk s ?d name i")
    case True
    then have "search_loop d_io name (Suc k) i es e sin s = Some (0, de_ino (entry_at blk s ?d i), i, es, sin, s1)"
      using r(1) by (simp add: names_def)
    then show ?thesis using True i r(2) Suc.prems(3) by auto
  next
    case False
    then have step: "search_loop d_io name (Suc k) i es e sin s =
        search_loop d_io name k (i + 1) (if de_ino (entry_at blk s ?d i) = 0 then i else es) (entry_at blk s ?d i) sin s1"
      using r(1) by (auto simp: names_def)
    have "\<forall>j < i + 1. \<not> names blk s1 ?d name j" using Suc.prems(3) False nm i by (auto simp: less_Suc_eq)
    moreover have "i + 1 + k = di_blocks ?d" using Suc.prems(2) by simp
    ultimately obtain ret f slot es' s' where
      h: "search_loop d_io name k (i + 1) (if de_ino (entry_at blk s ?d i) = 0 then i else es) (entry_at blk s ?d i) sin s1 =
        Some (ret, f, slot, es', sin, s')" "fs_eff ok nblk blk s1 (blk (dev s1)) (fs_free s1) s'"
      "if \<exists>j < di_blocks ?d. names blk s1 ?d name j
       then ret = 0 \<and> slot < di_blocks ?d \<and> names blk s1 ?d name slot \<and> f = de_ino (entry_at blk s1 ?d slot) \<and>
         (\<forall>j < slot. \<not> names blk s1 ?d name j)
       else ret = - E_NOENT"
      using Suc.IH [OF d1, of "i + 1"] by blast
    have "fs_eff ok nblk blk s (blk (dev s)) (fs_free s) s'"
      by (rule fs_eff_cong [OF fs_eff_trans [OF r(2) h(2)]]) (use e1(3,4) in auto)
    moreover have "(\<exists>j < di_blocks ?d. names blk s1 ?d name j) = (\<exists>j < di_blocks ?d. names blk s ?d name j)"
      using nm by blast
    moreover have "slot < di_blocks ?d \<Longrightarrow> (\<forall>j < slot. \<not> names blk s1 ?d name j) = (\<forall>j < slot. \<not> names blk s ?d name j)"
      using nm less_trans by blast
    ultimately show ?thesis using step h(1,3) nm en by (auto split: if_splits)
  qed
qed

lemma sfs_dirent_search_ok:
  assumes d: "dir_ok ok nblk blk s (din sin)" and n: "length name \<le> 255" and h: "0 < heap"
  shows "\<exists>ret f slot es s'. sfs_dirent_search_nolock d_io name heap sin s = Some (ret, f, slot, es, sin, s') \<and>
    fs_eff ok nblk blk s (blk (dev s)) (fs_free s) s' \<and>
    (if \<exists>j < di_blocks (din sin). names blk s (din sin) name j
     then ret = 0 \<and> slot < di_blocks (din sin) \<and> names blk s (din sin) name slot \<and> f = de_ino (entry_at blk s (din sin) slot) \<and>
       (\<forall>j < slot. \<not> names blk s (din sin) name j)
     else ret = - E_NOENT)"
  using search_loop_ok [OF d, of 0 "di_blocks (din sin)" name] n h
  by (simp add: sfs_dirent_search_nolock_def SFS_MAX_FNAME_LEN_def)

section \<open>Writing an inode back and loading it again\<close>

lemma length_enc: "inode_wf d \<Longrightarrow> length (enc_inode d) = 64"
  by (rule length_enc_inode)

lemma sfs_fsync_ok:
  assumes s: "fs_ok ok nblk (sfs m)" and a: "inodes m a = Some n" and w: "inode_wf (din (in_sin n))" and d: "dirty (in_sin n)"
    and i: "ino (in_sin n) \<noteq> 0" "ino (in_sin n) < s_blocks (super (sfs m))"
  shows "\<exists>m'. sfs_fsync d_io a m = Some (0, m') \<and>
    fs_eff ok nblk blk (sfs m) ((blk (dev (sfs m)))(ino (in_sin n) :=
      blit (blk (dev (sfs m)) (ino (in_sin n))) 0 (enc_inode (din (in_sin n))))) (fs_free (sfs m)) (sfs m') \<and>
    inodes m' = (inodes m)(a \<mapsto> n\<lparr>in_sin := (in_sin n)\<lparr>dirty := False\<rparr>\<rparr>) \<and>
    hash_list m' = hash_list m \<and> inode_list m' = inode_list m"
proof -
  have dv: "sfs_dev_ok ok nblk (sfs m)" using s by (simp add: fs_ok_def)
  from sfs_wbuf_ok [OF dv i(2,1), of 0 "enc_inode (din (in_sin n))"] length_enc [OF w] obtain s1 where
    r: "sfs_wbuf d_io (enc_inode (din (in_sin n))) (ino (in_sin n)) 0 (sfs m) = Some (0, s1)"
    "io_eff ok nblk blk (sfs m) ((blk (dev (sfs m)))(ino (in_sin n) :=
      blit (blk (dev (sfs m)) (ino (in_sin n))) 0 (enc_inode (din (in_sin n))))) s1" by auto
  then show ?thesis using a d fs_eff_io [OF s r(2)] by (simp add: sfs_fsync_def upd_sin_def Let_def)
qed

lemma find_None_notin: "hash_list m (sin_hashfn k) = [] \<Longrightarrow> lookup_sfs_nolock k m = Some (None, m)"
  by (simp add: lookup_sfs_nolock_def)

lemma sfs_load_fresh:
  assumes s: "fs_ok ok nblk (sfs m)" and k: "k \<noteq> 0" "k < s_blocks (super (sfs m))" "k \<notin> fs_free (sfs m)"
    and l: "lookup_sfs_nolock k m = Some (None, m)" and h: "2 \<le> heap_left m"
    and d: "dec_inode (slice 0 64 (blk (dev (sfs m)) k)) = d" "di_nlinks d \<noteq> 0"
      "di_type d = SFS_TYPE_DIR \<or> di_type d = SFS_TYPE_FILE"
  shows "\<exists>m'. sfs_load_inode d_io k m = Some (0, next_addr m + 1, m') \<and>
    inodes m' = (inodes m)(next_addr m + 1 \<mapsto>
      \<lparr>in_sin = \<lparr>din = d, ino = k, dirty = False, reclaim_count = 1\<rparr>, ref_count = 1, open_count = 0\<rparr>) \<and>
    hash_list m' = (hash_list m)(sin_hashfn k := (next_addr m + 1) # hash_list m (sin_hashfn k)) \<and>
    next_addr m' = next_addr m + 2 \<and> fs_eff ok nblk blk (sfs m) (blk (dev (sfs m))) (fs_free (sfs m)) (sfs m')"
proof -
  have dv: "sfs_dev_ok ok nblk (sfs m)" using s by (simp add: fs_ok_def)
  from sfs_rbuf_ok [OF dv k(2,1), of 0 64] obtain s1 where
    r: "sfs_rbuf d_io 64 k 0 (sfs m) = Some (0, slice 0 64 (blk (dev (sfs m)) k), s1)"
    "io_eff ok nblk blk (sfs m) (blk (dev (sfs m))) s1" by auto
  have "sfs_block_inuse (sfs m) k = Some True" using sfs_block_inuse_eq [OF s k(1,2)] k(3) by simp
  then show ?thesis
    using l h r(1) d fs_eff_io [OF s r(2)]
    by (auto simp: sfs_load_inode_def kmalloc_obj_def sfs_create_inode_def sfs_set_links_def Let_def)
qed

end

section \<open>The inode table\<close>

text \<open>
  The table: the chains hold exactly the in-memory inodes, each in the chain of its number, and no two
  in-memory inodes stand for the same inode on disk.
\<close>

definition table_ok :: "'d vnodes \<Rightarrow> bool" where
  "table_ok m \<longleftrightarrow> (\<forall>h. distinct (hash_list m h)) \<and>
     (\<forall>h a. a \<in> set (hash_list m h) \<longrightarrow> (\<exists>n. inodes m a = Some n \<and> sin_hashfn (ino (in_sin n)) = h)) \<and>
     (\<forall>a n. inodes m a = Some n \<longrightarrow> a \<in> set (hash_list m (sin_hashfn (ino (in_sin n)))) \<and> a < next_addr m) \<and>
     (\<forall>a b x y. inodes m a = Some x \<longrightarrow> inodes m b = Some y \<longrightarrow> ino (in_sin x) = ino (in_sin y) \<longrightarrow> a = b)"

lemma lookup_present:
  assumes t: "table_ok m" and a: "inodes m a = Some n"
  shows "find (has_ino m (ino (in_sin n))) (hash_list m (sin_hashfn (ino (in_sin n)))) = Some a"
proof -
  let ?k = "ino (in_sin n)"
  have mem: "a \<in> set (hash_list m (sin_hashfn ?k))" using t a by (auto simp: table_ok_def)
  have "find (has_ino m ?k) (hash_list m (sin_hashfn ?k)) \<noteq> None"
    using mem a by (auto simp: find_None_iff has_ino_def)
  then obtain b where b: "find (has_ino m ?k) (hash_list m (sin_hashfn ?k)) = Some b" by auto
  then have "has_ino m ?k b" by (auto simp: find_Some_iff)
  then obtain y where "inodes m b = Some y" "ino (in_sin y) = ?k" by (auto simp: has_ino_def split: option.splits)
  then have "b = a" using t a unfolding table_ok_def by metis
  then show ?thesis using b by simp
qed

lemma lookup_absent:
  assumes t: "table_ok m" and a: "\<And>a n. inodes m a = Some n \<Longrightarrow> ino (in_sin n) \<noteq> k"
  shows "lookup_sfs_nolock k m = Some (None, m)"
proof -
  have "find (has_ino m k) (hash_list m (sin_hashfn k)) = None"
    using a by (auto simp: find_None_iff has_ino_def split: option.splits)
  then show ?thesis by (simp add: lookup_sfs_nolock_def)
qed

text \<open>A change of an inode that keeps its number keeps the table in order.\<close>

lemma table_ok_same_ino:
  assumes "table_ok m" "inodes m a = Some n" "ino (in_sin n') = ino (in_sin n)"
    and "hash_list m' = hash_list m" "inodes m' = (inodes m)(a \<mapsto> n')" "next_addr m \<le> next_addr m'"
  shows "table_ok m'"
proof -
  have d: "\<forall>h. distinct (hash_list m h)"
    and h: "\<forall>h b. b \<in> set (hash_list m h) \<longrightarrow> (\<exists>x. inodes m b = Some x \<and> sin_hashfn (ino (in_sin x)) = h)"
    and i: "\<forall>b x. inodes m b = Some x \<longrightarrow> b \<in> set (hash_list m (sin_hashfn (ino (in_sin x)))) \<and> b < next_addr m"
    and u: "\<forall>b c x y. inodes m b = Some x \<longrightarrow> inodes m c = Some y \<longrightarrow> ino (in_sin x) = ino (in_sin y) \<longrightarrow> b = c"
    using assms(1) by (auto simp: table_ok_def)
  have "\<exists>x. inodes m' b = Some x \<and> sin_hashfn (ino (in_sin x)) = k" if "b \<in> set (hash_list m' k)" for b k
  proof -
    have "b \<in> set (hash_list m k)" using that assms(4) by simp
    then obtain x where x: "inodes m b = Some x" "sin_hashfn (ino (in_sin x)) = k" using h by blast
    show ?thesis using x assms(2,3,5) by (cases "b = a") auto
  qed
  moreover have "b \<in> set (hash_list m' (sin_hashfn (ino (in_sin x)))) \<and> b < next_addr m'" if "inodes m' b = Some x" for b x
  proof (cases "b = a")
    case True
    then show ?thesis using i assms(2-6) that by fastforce
  next
    case False
    then show ?thesis using i assms(4-6) that by fastforce
  qed
  moreover have "b = c" if "inodes m' b = Some x" "inodes m' c = Some y" "ino (in_sin x) = ino (in_sin y)" for b c x y
    using u that assms(2,3,5) by (auto split: if_splits)
  ultimately show ?thesis using d assms(4) by (simp add: table_ok_def)
qed

text \<open>A new inode at a fresh address.\<close>

lemma table_ok_insert:
  assumes t: "table_ok m" and fresh: "next_addr m \<le> a" "a < next_addr m'"
    and k: "\<And>b n. inodes m b = Some n \<Longrightarrow> ino (in_sin n) \<noteq> ino (in_sin x)"
    and m': "inodes m' = (inodes m)(a \<mapsto> x)"
      "hash_list m' = (hash_list m)(sin_hashfn (ino (in_sin x)) := a # hash_list m (sin_hashfn (ino (in_sin x))))"
  shows "table_ok m'"
proof -
  have h: "\<And>h b. b \<in> set (hash_list m h) \<Longrightarrow> \<exists>y. inodes m b = Some y \<and> sin_hashfn (ino (in_sin y)) = h"
    and i: "\<And>b y. inodes m b = Some y \<Longrightarrow> b \<in> set (hash_list m (sin_hashfn (ino (in_sin y)))) \<and> b < next_addr m"
    and u: "\<And>b c x y. inodes m b = Some x \<Longrightarrow> inodes m c = Some y \<Longrightarrow> ino (in_sin x) = ino (in_sin y) \<Longrightarrow> b = c"
    and d: "\<And>h. distinct (hash_list m h)"
    using t unfolding table_ok_def by (metis+)
  have na: "inodes m a = None" using i [of a] fresh(1) by (cases "inodes m a") auto
  then have nh: "a \<notin> set (hash_list m h')" for h' using h [of a h'] by auto
  have "distinct (hash_list m' h')" for h' using d nh by (simp add: m'(2))
  moreover have "\<exists>y. inodes m' b = Some y \<and> sin_hashfn (ino (in_sin y)) = h'" if "b \<in> set (hash_list m' h')" for b h'
    using h [of b h'] nh [of h'] that by (cases "b = a") (auto simp: m' split: if_splits)
  moreover have "b \<in> set (hash_list m' (sin_hashfn (ino (in_sin y)))) \<and> b < next_addr m'" if "inodes m' b = Some y" for b y
  proof (cases "b = a")
    case True
    then show ?thesis using that fresh(2) by (simp add: m')
  next
    case False
    then have "inodes m b = Some y" using that by (simp add: m')
    then show ?thesis using i [of b y] fresh by (auto simp: m')
  qed
  moreover have "b = c" if "inodes m' b = Some v" "inodes m' c = Some w" "ino (in_sin v) = ino (in_sin w)" for b c v w
    using that k u [of b v c w] by (auto simp: m' split: if_splits)
  ultimately show ?thesis by (simp add: table_ok_def)
qed

lemma table_ok_frame:
  "table_ok m \<Longrightarrow> inodes m' = inodes m \<Longrightarrow> hash_list m' = hash_list m \<Longrightarrow> next_addr m \<le> next_addr m' \<Longrightarrow> table_ok m'"
  by (simp add: table_ok_def) (meson less_le_trans)

lemma sfs_load_present:
  assumes t: "table_ok m" and a: "inodes m a = Some n"
  shows "\<exists>m' n'. sfs_load_inode io (ino (in_sin n)) m = Some (0, a, m') \<and> inodes m' = (inodes m)(a \<mapsto> n') \<and>
    ref_count n' = ref_count n + 1 \<and> din (in_sin n') = din (in_sin n) \<and> ino (in_sin n') = ino (in_sin n) \<and>
    dirty (in_sin n') = dirty (in_sin n) \<and> table_ok m' \<and> sfs m' = sfs m"
proof -
  let ?k = "ino (in_sin n)"
  define n1 where "n1 = n\<lparr>ref_count := ref_count n + 1\<rparr>"
  define n' where "n' = (if ref_count n + 1 = 1 then n1\<lparr>in_sin := (in_sin n)\<lparr>reclaim_count := reclaim_count (in_sin n) + 1\<rparr>\<rparr> else n1)"
  define m' where "m' = m\<lparr>inodes := (inodes m)(a \<mapsto> n')\<rparr>"
  have "sfs_load_inode io ?k m = Some (0, a, m')"
    using lookup_present [OF t a] a
    by (auto simp: sfs_load_inode_def lookup_sfs_nolock_def inode_ref_inc_def upd_sin_def m'_def n'_def n1_def)
  moreover have "ref_count n' = ref_count n + 1" "din (in_sin n') = din (in_sin n)" "ino (in_sin n') = ino (in_sin n)"
    "dirty (in_sin n') = dirty (in_sin n)" by (auto simp: n'_def n1_def)
  moreover have "table_ok m'"
    by (rule table_ok_same_ino [OF t a, of n']) (auto simp: m'_def n'_def n1_def)
  ultimately show ?thesis by (auto simp: m'_def)
qed

section \<open>The properties, on disk0\<close>

text \<open>
  C22: \<open>sfs_dirent_search_nolock\<close> finds a name in a directory exactly when some slot in use carries it:
  then it succeeds with the first such slot and the inode number stored there, otherwise it fails with
  \<open>E_NOENT\<close>; no block changes.
\<close>

theorem sfs_dirent_search_finds:
  assumes "dir_ok disk_ok d_blocks disk_blk s (din sin)" and "length name \<le> 255" and "0 < heap"
  shows "\<exists>ret f slot es s'. sfs_dirent_search_nolock disk0_io name heap sin s = Some (ret, f, slot, es, sin, s') \<and>
    fs_eff disk_ok d_blocks disk_blk s (disk_blk (dev s)) (fs_free s) s' \<and>
    (if \<exists>j < di_blocks (din sin). names disk_blk s (din sin) name j
     then ret = 0 \<and> slot < di_blocks (din sin) \<and> names disk_blk s (din sin) name slot \<and>
       f = de_ino (entry_at disk_blk s (din sin) slot) \<and> (\<forall>j < slot. \<not> names disk_blk s (din sin) name j)
     else ret = - E_NOENT)"
  by (rule disk.sfs_dirent_search_ok [OF assms])

text \<open>A directory whose only entry, in block 3, names inode 4 \<open>a\<close>.\<close>

definition demo_dir_sfs :: "disk0 sfs_fs" where
  "demo_dir_sfs = demo_sfs\<lparr>freemap := \<lparr>nbits = 32, nwords = 1, bmap = [0]\<rparr>,
     super := \<lparr>s_magic = SFS_MAGIC, s_blocks = 5, s_unused = 0, s_info = replicate 32 0\<rparr>,
     dev := (dev demo_sfs)\<lparr>ide := \<lparr>valid = True, nsectors = 40,
       image = replicate 12288 0 @ [4, 0, 0, 0, 97] @ replicate 8187 0\<rparr>\<rparr>\<rparr>"

definition demo_dir :: sfs_inode where
  "demo_dir = \<lparr>din = \<lparr>di_size = 4096, di_type = SFS_TYPE_DIR, di_nlinks = 1, di_blocks = 1,
     di_direct = 3 # replicate 11 0, di_indirect = 0\<rparr>, ino = 2, dirty = False, reclaim_count = 1\<rparr>"

lemma demo_dir_free: "fs_free demo_dir_sfs = {}"
  by (auto simp: fs_free_def free_bits_def bit_at_def demo_dir_sfs_def)

lemma demo_dir_map: "blkmap disk_blk demo_dir_sfs (din demo_dir) i = (if i = 0 then 3 else if i < 12 then 0 else 0)"
  by (auto simp: blkmap_def sub_entry_def demo_dir_def nth_Cons')

lemma demo_dir_ok: "dir_ok disk_ok d_blocks disk_blk demo_dir_sfs (din demo_dir)"
proof -
  have "fs_ok disk_ok d_blocks demo_dir_sfs"
    using demo_dir_free
    by (auto simp: fs_ok_def sfs_dev_ok_def disk_ok_def disk_consts bitmap_ok_def bit_at_def ROUNDUP_DIV_def demo_dir_sfs_def demo_sfs_def)
  moreover have "file_ok disk_blk demo_dir_sfs (din demo_dir)" "prefix_ok disk_blk demo_dir_sfs (din demo_dir)"
    unfolding file_ok_def prefix_ok_def demo_dir_map demo_dir_free
    by (auto simp: demo_dir_def demo_dir_sfs_def)
  ultimately show ?thesis by (simp add: dir_ok_def demo_dir_def)
qed

lemma demo_dir_entry: "names disk_blk demo_dir_sfs (din demo_dir) [97] 0" "de_ino (entry_at disk_blk demo_dir_sfs (din demo_dir) 0) = 4"
proof -
  have b: "disk_blk (dev demo_dir_sfs) 3 = [4, 0, 0, 0, 97] @ replicate 4091 0"
    by (simp add: disk_blk_def demo_dir_sfs_def slice_append_right) (simp add: slice_def)
  have e: "dec_entry (slice 0 260 ([4, 0, 0, 0, 97] @ replicate 4091 0)) = \<lparr>de_ino = 4, de_name = 97 # replicate 255 0\<rparr>"
  proof -
    let ?x = "[4, 0, 0, 0, 97] @ replicate 4091 (0 :: u8)"
    have r: "replicate 4091 (0 :: u8) = replicate 255 0 @ replicate 3836 0"
      by (simp del: replicate.simps flip: replicate_add)
    have "slice 0 4 (slice 0 260 ?x) = [4, 0, 0, 0]"
      by (subst slice_slice) (simp_all add: slice_def del: replicate.simps)
    moreover have "slice 4 256 (slice 0 260 ?x) = 97 # replicate 255 0"
      by (subst slice_slice) (simp_all add: slice_def take_Cons' del: replicate.simps)
    moreover have "le_value [4, 0, 0, 0 :: u8] = 4" by simp
    ultimately show ?thesis by (simp add: dec_entry_def del: replicate.simps)
  qed
  have l: "(97 # replicate 255 0)[255 := 0 :: u8] = 97 # replicate 255 0"
    by (rule nth_equalityI) (auto simp: nth_list_update nth_Cons')
  have "entry_at disk_blk demo_dir_sfs (din demo_dir) 0 = \<lparr>de_ino = 4, de_name = 97 # replicate 255 0\<rparr>"
    using demo_dir_map [of 0] b e l by (simp add: entry_at_def del: replicate.simps)
  then show "names disk_blk demo_dir_sfs (din demo_dir) [97] 0" "de_ino (entry_at disk_blk demo_dir_sfs (din demo_dir) 0) = 4"
    by (simp_all add: names_def cstr_def)
qed

theorem sfs_dirent_search_finds_witness:
  "\<exists>slot es s'. sfs_dirent_search_nolock disk0_io [97] 1 demo_dir demo_dir_sfs = Some (0, 4, slot, es, demo_dir, s') \<and> slot = 0"
proof -
  let ?n = "names disk_blk demo_dir_sfs (din demo_dir) [97]"
  have b: "di_blocks (din demo_dir) = 1" by (simp add: demo_dir_def)
  have ex: "\<exists>j < di_blocks (din demo_dir). ?n j" using demo_dir_entry(1) b by auto
  from sfs_dirent_search_finds [OF demo_dir_ok, of "[97]" 1] ex obtain ret f slot es s' where
    r: "sfs_dirent_search_nolock disk0_io [97] 1 demo_dir demo_dir_sfs = Some (ret, f, slot, es, demo_dir, s')"
    "ret = 0" "slot < di_blocks (din demo_dir)" "f = de_ino (entry_at disk_blk demo_dir_sfs (din demo_dir) slot)"
    by (simp only: if_True) force
  then have "slot = 0" using b by simp
  with r demo_dir_entry(2) show ?thesis by simp
qed

text \<open>
  C23: \<open>sfs_fsync\<close> and \<open>sfs_load_inode\<close> are inverse: an inode that is written back and later loaded again,
  when it is no longer in memory, has the same size, type, links and block numbers.
\<close>

theorem sfs_fsync_load_roundtrip:
  assumes "fs_ok disk_ok d_blocks (sfs m)" and "inodes m a = Some n" and "inode_wf (din (in_sin n))" and "dirty (in_sin n)"
    and "ino (in_sin n) \<noteq> 0" and "ino (in_sin n) < s_blocks (super (sfs m))" and "ino (in_sin n) \<notin> fs_free (sfs m)"
    and "di_nlinks (din (in_sin n)) \<noteq> 0" and "di_type (din (in_sin n)) = SFS_TYPE_DIR \<or> di_type (din (in_sin n)) = SFS_TYPE_FILE"
  shows "\<exists>m1. sfs_fsync disk0_io a m = Some (0, m1) \<and>
    (\<forall>m2. sfs m2 = sfs m1 \<longrightarrow> lookup_sfs_nolock (ino (in_sin n)) m2 = Some (None, m2) \<longrightarrow> 2 \<le> heap_left m2 \<longrightarrow>
      (\<exists>b m3 n3. sfs_load_inode disk0_io (ino (in_sin n)) m2 = Some (0, b, m3) \<and> inodes m3 b = Some n3 \<and>
        din (in_sin n3) = din (in_sin n)))"
proof -
  let ?k = "ino (in_sin n)" and ?d = "din (in_sin n)"
  from disk.sfs_fsync_ok [OF assms(1-6)] obtain m1 where
    f: "sfs_fsync disk0_io a m = Some (0, m1)"
    "fs_eff disk_ok d_blocks disk_blk (sfs m) ((disk_blk (dev (sfs m)))(?k := blit (disk_blk (dev (sfs m)) ?k) 0 (enc_inode ?d)))
      (fs_free (sfs m)) (sfs m1)" by blast
  note e = fs_effD [OF f(2)]
  have L: "length (disk_blk (dev (sfs m)) ?k) = 4096"
    using disk.block_length [of "sfs m" ?k] assms(1,6) by (simp add: fs_ok_def)
  have "blit (disk_blk (dev (sfs m)) ?k) 0 (enc_inode ?d) = enc_inode ?d @ drop 64 (disk_blk (dev (sfs m)) ?k)"
    using length_enc_inode [OF assms(3)] by (simp add: blit_def)
  then have "slice 0 64 (disk_blk (dev (sfs m1)) ?k) = enc_inode ?d"
    using e(4) [OF assms(6)] length_enc_inode [OF assms(3)] by (simp add: slice_append_here)
  then have d: "dec_inode (slice 0 64 (disk_blk (dev (sfs m1)) ?k)) = ?d"
    using dec_enc_inode [OF assms(3), of "[]"] by simp
  have "\<exists>b m3 n3. sfs_load_inode disk0_io ?k m2 = Some (0, b, m3) \<and> inodes m3 b = Some n3 \<and> din (in_sin n3) = ?d"
    if m2: "sfs m2 = sfs m1" "lookup_sfs_nolock ?k m2 = Some (None, m2)" "2 \<le> heap_left m2" for m2
  proof -
    have "fs_ok disk_ok d_blocks (sfs m2)" "?k < s_blocks (super (sfs m2))" "?k \<notin> fs_free (sfs m2)"
      using e assms(6,7) m2(1) by auto
    from disk.sfs_load_fresh [OF this(1) assms(5) this(2,3) m2(2,3), of ?d] d m2(1) assms(8,9) show ?thesis by auto
  qed
  then show ?thesis using f(1) by blast
qed

text \<open>The file of \<open>demo_sin\<close>, changed in memory, at address 7.\<close>

definition demo_vnodes :: "disk0 vnodes" where
  "demo_vnodes = \<lparr>sfs = demo_sfs,
     inodes = [7 \<mapsto> \<lparr>in_sin = demo_sin\<lparr>dirty := True\<rparr>, ref_count = 1, open_count = 0\<rparr>],
     hash_list = (\<lambda>h. if h = sin_hashfn 2 then [7] else []), inode_list = [7], next_addr = 8, heap_left = 10\<rparr>"

lemma demo_table_ok: "table_ok demo_vnodes"
  by (auto simp: table_ok_def demo_vnodes_def demo_sin_def split: if_splits)

theorem sfs_fsync_load_roundtrip_witness:
  "\<exists>m1. sfs_fsync disk0_io 7 demo_vnodes = Some (0, m1) \<and>
    (\<exists>b m3 n3. sfs_load_inode disk0_io 2 (m1\<lparr>hash_list := (\<lambda>_. []), heap_left := 2\<rparr>) = Some (0, b, m3) \<and>
      inodes m3 b = Some n3 \<and> din (in_sin n3) = din demo_sin)"
proof -
  define n where "n = \<lparr>in_sin = demo_sin\<lparr>dirty := True\<rparr>, ref_count = 1, open_count = 0\<rparr>"
  have n: "inodes demo_vnodes 7 = Some n" "din (in_sin n) = din demo_sin" "dirty (in_sin n)" "ino (in_sin n) = 2"
    "sfs demo_vnodes = demo_sfs" by (simp_all add: demo_vnodes_def n_def demo_sin_def)
  have "inode_wf (din (in_sin n))" "di_nlinks (din (in_sin n)) \<noteq> 0" "di_type (din (in_sin n)) = SFS_TYPE_FILE"
    using n(2) by (simp_all add: inode_wf_def demo_sin_def SFS_TYPE_FILE_def)
  with sfs_fsync_load_roundtrip [of demo_vnodes 7 n] n demo_sfs_ok demo_bits obtain m1 where
    f: "sfs_fsync disk0_io 7 demo_vnodes = Some (0, m1)"
    "\<And>m2. sfs m2 = sfs m1 \<Longrightarrow> lookup_sfs_nolock 2 m2 = Some (None, m2) \<Longrightarrow> 2 \<le> heap_left m2 \<Longrightarrow>
      \<exists>b m3 n3. sfs_load_inode disk0_io 2 m2 = Some (0, b, m3) \<and> inodes m3 b = Some n3 \<and> din (in_sin n3) = din demo_sin"
    by (auto simp: demo_sfs_def)
  show ?thesis using f(1) f(2) [of "m1\<lparr>hash_list := (\<lambda>_. []), heap_left := 2\<rparr>"] by (auto simp: lookup_sfs_nolock_def)
qed

text \<open>
  C24: An inode on disk has one copy in memory: loading a number that is in memory hands out the inode
  that is there, with its unsaved changes and one reference more, and the table stays in order.
\<close>

theorem sfs_load_inode_shares:
  assumes "table_ok m" and "inodes m a = Some n"
  shows "\<exists>m' n'. sfs_load_inode io (ino (in_sin n)) m = Some (0, a, m') \<and> inodes m' = (inodes m)(a \<mapsto> n') \<and>
    ref_count n' = ref_count n + 1 \<and> din (in_sin n') = din (in_sin n) \<and> dirty (in_sin n') = dirty (in_sin n) \<and> table_ok m'"
  using sfs_load_present [OF assms] by blast

theorem sfs_load_inode_shares_witness:
  "\<exists>m' n'. sfs_load_inode disk0_io 2 demo_vnodes = Some (0, 7, m') \<and> inodes m' 7 = Some n' \<and> ref_count n' = 2 \<and> dirty (in_sin n')"
proof -
  have "inodes demo_vnodes 7 = Some \<lparr>in_sin = demo_sin\<lparr>dirty := True\<rparr>, ref_count = 1, open_count = 0\<rparr>"
    by (simp add: demo_vnodes_def)
  from sfs_load_inode_shares [OF demo_table_ok this] show ?thesis by (fastforce simp: demo_sin_def)
qed

end
