(* ===== verification/Paging.thy ===== *)
theory Paging
  imports Kmalloc
begin

text \<open>
  Sv39 page tables: \<open>kern/mm/pmm.c\<close> and \<open>mmu.h\<close> (lab 6, the same from lab 5 on). Physical memory is an
  array of frames of 512 words, which page tables and data share; a frame is named by the index of its
  \<open>struct Page\<close>. A pointer to a page table entry is a frame and an index. \<open>pte m r v\<close> is the abstraction:
  the entry of virtual page \<open>v\<close> in the address space whose root is frame \<open>r\<close>, 0 when there is none.
\<close>

unbundle bit_operations_syntax

section \<open>State and entries\<close>

record pmem =
  parea :: free_area
  words :: "nat \<Rightarrow> nat \<Rightarrow> u64"
  swap_init_ok :: bool

type_synonym pte_ptr = "nat \<times> nat"

text \<open>The first frame number, and the number behind the last frame (\<open>PHYSICAL_MEMORY_END / PGSIZE\<close>).\<close>

definition nbase :: nat where "nbase = 0x80000"
definition npage :: nat where "npage = 0x88000"

definition PGSIZE :: u64 where "PGSIZE = 4096"
definition PTSIZE :: u64 where "PTSIZE = 0x200000"
definition PDSIZE :: u64 where "PDSIZE = 0x40000000"

definition PDX1 :: "u64 \<Rightarrow> nat" where "PDX1 la = unat (drop_bit 30 la AND 0x1FF)"
definition PDX0 :: "u64 \<Rightarrow> nat" where "PDX0 la = unat (drop_bit 21 la AND 0x1FF)"
definition PTX :: "u64 \<Rightarrow> nat" where "PTX la = unat (drop_bit 12 la AND 0x1FF)"
definition PPN :: "u64 \<Rightarrow> nat" where "PPN la = unat (drop_bit 12 la)"
definition PTE_ADDR :: "u64 \<Rightarrow> u64" where "PTE_ADDR e = push_bit 2 (e AND NOT 0x3FF)"

definition PTE_V :: u64 where "PTE_V = 0x001"
definition PTE_R :: u64 where "PTE_R = 0x002"
definition PTE_W :: u64 where "PTE_W = 0x004"
definition PTE_X :: u64 where "PTE_X = 0x008"
definition PTE_U :: u64 where "PTE_U = 0x010"
definition PTE_USER :: u64 where "PTE_USER = PTE_R OR PTE_W OR PTE_X OR PTE_U OR PTE_V"

definition pte_create :: "nat \<Rightarrow> u64 \<Rightarrow> u64" where
  "pte_create ppn ty = push_bit 10 (of_nat ppn) OR PTE_V OR ty"

definition ROUNDDOWN :: "u64 \<Rightarrow> u64 \<Rightarrow> u64" where "ROUNDDOWN a n = a - a mod n"
definition ROUNDUP :: "u64 \<Rightarrow> u64 \<Rightarrow> u64" where "ROUNDUP a n = ROUNDDOWN (a + n - 1) n"

definition USERBASE :: u64 where "USERBASE = 0x00200000"
definition USERTOP :: u64 where "USERTOP = 0x80000000"
definition KERNBASE :: u64 where "KERNBASE = 0xFFFFFFFFC0200000"
definition KERNTOP :: u64 where "KERNTOP = KERNBASE + 0x7E00000"

definition USER_ACCESS :: "u64 \<Rightarrow> u64 \<Rightarrow> bool" where
  "USER_ACCESS start fin \<longleftrightarrow> USERBASE \<le> start \<and> start < fin \<and> fin \<le> USERTOP"

definition KERN_ACCESS :: "u64 \<Rightarrow> u64 \<Rightarrow> bool" where
  "KERN_ACCESS start fin \<longleftrightarrow> KERNBASE \<le> start \<and> start < fin \<and> fin \<le> KERNTOP"

definition page2ppn :: "nat \<Rightarrow> nat" where "page2ppn p = p + nbase"

text \<open>
  \<open>pa2page\<close> and \<open>KADDR\<close> panic for a frame number that is too high; one below \<open>nbase\<close> would leave the array
  \<open>pages\<close>.
\<close>

definition pa2page :: "u64 \<Rightarrow> nat option" where
  "pa2page pa = do { c_assert (PPN pa < npage \<and> nbase \<le> PPN pa); Some (PPN pa - nbase) }"

definition pte2page :: "u64 \<Rightarrow> nat option" where
  "pte2page e = do { c_assert (e AND PTE_V \<noteq> 0); pa2page (PTE_ADDR e) }"

definition pde2page :: "u64 \<Rightarrow> nat option" where
  "pde2page e = pa2page (PTE_ADDR e)"

section \<open>Pages\<close>

definition page_ref :: "nat \<Rightarrow> pmem \<Rightarrow> int" where
  "page_ref p m = ref (pages (parea m) p)"

definition set_page_ref :: "nat \<Rightarrow> int \<Rightarrow> pmem \<Rightarrow> pmem" where
  "set_page_ref p v m =
     m\<lparr>parea := (parea m)\<lparr>pages := (pages (parea m))(p := (pages (parea m) p)\<lparr>ref := v\<rparr>)\<rparr>\<rparr>"

definition page_ref_inc :: "nat \<Rightarrow> pmem \<Rightarrow> pmem" where
  "page_ref_inc p m = set_page_ref p (page_ref p m + 1) m"

definition page_ref_dec :: "nat \<Rightarrow> pmem \<Rightarrow> pmem" where
  "page_ref_dec p m = set_page_ref p (page_ref p m - 1) m"

definition set_word :: "pte_ptr \<Rightarrow> u64 \<Rightarrow> pmem \<Rightarrow> pmem" where
  "set_word q e m = m\<lparr>words := (words m)(fst q := (words m (fst q))(snd q := e))\<rparr>"

definition set_frame :: "nat \<Rightarrow> (nat \<Rightarrow> u64) \<Rightarrow> pmem \<Rightarrow> pmem" where
  "set_frame p c m = m\<lparr>words := (words m)(p := c)\<rparr>"

text \<open>
  Once swapping is on, \<open>alloc_pages\<close> answers a lack of single pages with \<open>swap_out(check_mm_struct, ...)\<close>;
  \<open>check_mm_struct\<close> is \<open>NULL\<close> outside the self test, and the swap manager reads through it.
\<close>

definition alloc_pages :: "pmm_alloc \<Rightarrow> nat \<Rightarrow> pmem \<Rightarrow> (nat option \<times> pmem) option" where
  "alloc_pages al n m = do {
     (r, a) \<leftarrow> al n (parea m);
     if r \<noteq> None \<or> n > 1 \<or> \<not> swap_init_ok m then Some (r, m\<lparr>parea := a\<rparr>) else None
   }"

definition free_pages :: "pmm_free \<Rightarrow> nat \<Rightarrow> nat \<Rightarrow> pmem \<Rightarrow> pmem option" where
  "free_pages fr p n m = do { a \<leftarrow> fr p n (parea m); Some (m\<lparr>parea := a\<rparr>) }"

section \<open>Walking and changing page tables\<close>

text \<open>One level of \<open>get_pte\<close>: the frame of the table that entry \<open>i\<close> of frame \<open>f\<close> refers to.\<close>

definition pde_table :: "pmm_alloc \<Rightarrow> nat \<Rightarrow> nat \<Rightarrow> bool \<Rightarrow> pmem \<Rightarrow> (nat option \<times> pmem) option" where
  "pde_table al f i create m =
     (if words m f i AND PTE_V = 0 then
        if \<not> create then Some (None, m)
        else do {
          (r, m1) \<leftarrow> alloc_pages al 1 m;
          case r of
            None \<Rightarrow> Some (None, m1)
          | Some p \<Rightarrow> do {
              let m2 = set_frame p (\<lambda>_. 0) (set_page_ref p 1 m1);
              let m3 = set_word (f, i) (pte_create (page2ppn p) (PTE_U OR PTE_V)) m2;
              q \<leftarrow> pa2page (PTE_ADDR (words m3 f i));
              Some (Some q, m3)
            }
        }
      else do { q \<leftarrow> pa2page (PTE_ADDR (words m f i)); Some (Some q, m) })"

definition get_pte :: "pmm_alloc \<Rightarrow> nat \<Rightarrow> u64 \<Rightarrow> bool \<Rightarrow> pmem \<Rightarrow> (pte_ptr option \<times> pmem) option" where
  "get_pte al pgdir la create m = do {
     (r1, m1) \<leftarrow> pde_table al pgdir (PDX1 la) create m;
     case r1 of
       None \<Rightarrow> Some (None, m1)
     | Some d \<Rightarrow> do {
         (r0, m2) \<leftarrow> pde_table al d (PDX0 la) create m1;
         Some (map_option (\<lambda>t. (t, PTX la)) r0, m2)
       }
   }"

definition read_pte :: "pte_ptr \<Rightarrow> pmem \<Rightarrow> u64" where
  "read_pte q m = words m (fst q) (snd q)"

definition get_page :: "pmm_alloc \<Rightarrow> nat \<Rightarrow> u64 \<Rightarrow> pmem \<Rightarrow> (nat option \<times> pmem) option" where
  "get_page al pgdir la m = do {
     (r, m1) \<leftarrow> get_pte al pgdir la False m;
     case r of
       Some q \<Rightarrow> if read_pte q m1 AND PTE_V \<noteq> 0
         then do { p \<leftarrow> pte2page (read_pte q m1); Some (Some p, m1) } else Some (None, m1)
     | None \<Rightarrow> Some (None, m1)
   }"

definition page_remove_pte :: "pmm_free \<Rightarrow> pte_ptr \<Rightarrow> pmem \<Rightarrow> pmem option" where
  "page_remove_pte fr q m =
     (if read_pte q m AND PTE_V \<noteq> 0 then do {
        p \<leftarrow> pte2page (read_pte q m);
        let m1 = page_ref_dec p m;
        m2 \<leftarrow> (if page_ref p m1 = 0 then free_pages fr p 1 m1 else Some m1);
        Some (set_word q 0 m2)
      } else Some m)"

definition page_remove :: "pmm_alloc \<Rightarrow> pmm_free \<Rightarrow> nat \<Rightarrow> u64 \<Rightarrow> pmem \<Rightarrow> pmem option" where
  "page_remove al fr pgdir la m = do {
     (r, m1) \<leftarrow> get_pte al pgdir la False m;
     case r of Some q \<Rightarrow> page_remove_pte fr q m1 | None \<Rightarrow> Some m1
   }"

definition page_insert ::
  "pmm_alloc \<Rightarrow> pmm_free \<Rightarrow> nat \<Rightarrow> nat \<Rightarrow> u64 \<Rightarrow> u64 \<Rightarrow> pmem \<Rightarrow> (int \<times> pmem) option" where
  "page_insert al fr pgdir p la perm m = do {
     (r, m1) \<leftarrow> get_pte al pgdir la True m;
     case r of
       None \<Rightarrow> Some (- E_NO_MEM, m1)
     | Some q \<Rightarrow> do {
         let m2 = page_ref_inc p m1;
         m3 \<leftarrow> (if read_pte q m2 AND PTE_V \<noteq> 0 then do {
             p' \<leftarrow> pte2page (read_pte q m2);
             if p' = p then Some (page_ref_dec p m2) else page_remove_pte fr q m2
           } else Some m2);
         Some (0, set_word q (pte_create (page2ppn p) (PTE_V OR perm)) m3)
       }
   }"

text \<open>The swap bookkeeping of \<open>pgdir_alloc_page\<close> runs only with \<open>check_mm_struct\<close>, in the self test.\<close>

definition pgdir_alloc_page ::
  "pmm_alloc \<Rightarrow> pmm_free \<Rightarrow> nat \<Rightarrow> u64 \<Rightarrow> u64 \<Rightarrow> pmem \<Rightarrow> (nat option \<times> pmem) option" where
  "pgdir_alloc_page al fr pgdir la perm m = do {
     (r, m1) \<leftarrow> alloc_pages al 1 m;
     case r of
       None \<Rightarrow> Some (None, m1)
     | Some p \<Rightarrow> do {
         (ret, m2) \<leftarrow> page_insert al fr pgdir p la perm m1;
         if ret \<noteq> 0 then do { m3 \<leftarrow> free_pages fr p 1 m2; Some (None, m3) }
         else Some (Some p, m2)
       }
   }"

section \<open>Ranges of virtual pages\<close>

partial_function (option) unmap_loop ::
  "pmm_alloc \<Rightarrow> pmm_free \<Rightarrow> nat \<Rightarrow> u64 \<Rightarrow> u64 \<Rightarrow> pmem \<Rightarrow> pmem option" where
  "unmap_loop al fr pgdir start fin m = do {
     (r, m1) \<leftarrow> get_pte al pgdir start False m;
     let nxt = (if r = None then ROUNDDOWN (start + PTSIZE) PTSIZE else start + PGSIZE);
     m2 \<leftarrow> (case r of
         None \<Rightarrow> Some m1
       | Some q \<Rightarrow> if read_pte q m1 \<noteq> 0 then page_remove_pte fr q m1 else Some m1);
     if nxt \<noteq> 0 \<and> nxt < fin then unmap_loop al fr pgdir nxt fin m2 else Some m2
   }"

definition unmap_range ::
  "pmm_alloc \<Rightarrow> pmm_free \<Rightarrow> nat \<Rightarrow> u64 \<Rightarrow> u64 \<Rightarrow> pmem \<Rightarrow> pmem option" where
  "unmap_range al fr pgdir start fin m = do {
     c_assert (start mod PGSIZE = 0 \<and> fin mod PGSIZE = 0);
     c_assert (USER_ACCESS start fin);
     unmap_loop al fr pgdir start fin m
   }"

text \<open>One valid page of \<open>copy_range\<close>: a fresh page with the same contents is mapped at the same address.\<close>

definition copy_page ::
  "pmm_alloc \<Rightarrow> pmm_free \<Rightarrow> nat \<Rightarrow> u64 \<Rightarrow> pte_ptr \<Rightarrow> pmem \<Rightarrow> (int \<times> pmem) option" where
  "copy_page al fr to start q m = do {
     (nr, m1) \<leftarrow> get_pte al to start True m;
     if nr = None then Some (- E_NO_MEM, m1)
     else do {
       let perm = read_pte q m1 AND PTE_USER;
       p \<leftarrow> pte2page (read_pte q m1);
       (np, m2) \<leftarrow> alloc_pages al 1 m1;
       np \<leftarrow> np;
       page_insert al fr to np start perm (set_frame np (words m2 p) m2)
     }
   }"

partial_function (option) copy_loop ::
  "pmm_alloc \<Rightarrow> pmm_free \<Rightarrow> nat \<Rightarrow> nat \<Rightarrow> u64 \<Rightarrow> u64 \<Rightarrow> pmem \<Rightarrow> (int \<times> pmem) option" where
  "copy_loop al fr to frm start fin m = do {
     (r, m1) \<leftarrow> get_pte al frm start False m;
     let nxt = (if r = None then ROUNDDOWN (start + PTSIZE) PTSIZE else start + PGSIZE);
     (ret, m2) \<leftarrow> (case r of
         None \<Rightarrow> Some (0, m1)
       | Some q \<Rightarrow> if read_pte q m1 AND PTE_V \<noteq> 0
           then copy_page al fr to start q m1 else Some (0, m1));
     if ret \<noteq> 0 then Some (ret, m2)
     else if nxt \<noteq> 0 \<and> nxt < fin then copy_loop al fr to frm nxt fin m2
     else Some (0, m2)
   }"

definition copy_range ::
  "pmm_alloc \<Rightarrow> pmm_free \<Rightarrow> nat \<Rightarrow> nat \<Rightarrow> u64 \<Rightarrow> u64 \<Rightarrow> pmem \<Rightarrow> (int \<times> pmem) option" where
  "copy_range al fr to frm start fin m = do {
     c_assert (start mod PGSIZE = 0 \<and> fin mod PGSIZE = 0);
     c_assert (USER_ACCESS start fin);
     copy_loop al fr to frm start fin m
   }"

text \<open>
  \<open>exit_range\<close> frees the page tables of a range: for each gigabyte the tables of its second level, each when
  it has no valid entry, then the second-level directory.
\<close>

definition pt_empty :: "nat \<Rightarrow> pmem \<Rightarrow> bool" where
  "pt_empty pt m = list_all (\<lambda>i. words m pt i AND PTE_V = 0) [0..<512]"

partial_function (option) exit_pd0_loop ::
  "pmm_free \<Rightarrow> nat \<Rightarrow> u64 \<Rightarrow> u64 \<Rightarrow> u64 \<Rightarrow> bool \<Rightarrow> pmem \<Rightarrow> (bool \<times> pmem) option" where
  "exit_pd0_loop fr pd0 d1start d0start fin free_pd0 m = do {
     let pde0 = words m pd0 (PDX0 d0start);
     (fp, m1) \<leftarrow> (if pde0 AND PTE_V \<noteq> 0 then do {
         pt \<leftarrow> pde2page pde0;
         if pt_empty pt m then do {
           m' \<leftarrow> free_pages fr pt 1 m;
           Some (free_pd0, set_word (pd0, PDX0 d0start) 0 m')
         } else Some (free_pd0, m)
       } else Some (False, m));
     let nxt = d0start + PTSIZE;
     if nxt \<noteq> 0 \<and> nxt < d1start + PDSIZE \<and> nxt < fin
     then exit_pd0_loop fr pd0 d1start nxt fin fp m1 else Some (fp, m1)
   }"

partial_function (option) exit_loop ::
  "pmm_free \<Rightarrow> nat \<Rightarrow> u64 \<Rightarrow> u64 \<Rightarrow> u64 \<Rightarrow> pmem \<Rightarrow> pmem option" where
  "exit_loop fr pgdir d1start d0start fin m = do {
     let pde1 = words m pgdir (PDX1 d1start);
     m1 \<leftarrow> (if pde1 AND PTE_V \<noteq> 0 then do {
         pd0 \<leftarrow> pde2page pde1;
         (fp, m') \<leftarrow> exit_pd0_loop fr pd0 d1start d0start fin True m;
         if fp then do {
           m'' \<leftarrow> free_pages fr pd0 1 m';
           Some (set_word (pgdir, PDX1 d1start) 0 m'')
         } else Some m'
       } else Some m);
     let nxt = d1start + PDSIZE;
     if nxt \<noteq> 0 \<and> nxt < fin then exit_loop fr pgdir nxt nxt fin m1 else Some m1
   }"

definition exit_range :: "pmm_free \<Rightarrow> nat \<Rightarrow> u64 \<Rightarrow> u64 \<Rightarrow> pmem \<Rightarrow> pmem option" where
  "exit_range fr pgdir start fin m = do {
     c_assert (start mod PGSIZE = 0 \<and> fin mod PGSIZE = 0);
     c_assert (USER_ACCESS start fin);
     exit_loop fr pgdir (ROUNDDOWN start PDSIZE) (ROUNDDOWN start PTSIZE) fin m
   }"

section \<open>Addresses as page numbers\<close>

definition va :: "nat \<Rightarrow> u64" where "va v = of_nat (4096 * v)"

text \<open>User addresses lie below \<open>USERTOP\<close>: page numbers below \<open>UPAGES\<close>.\<close>

definition UPAGES :: nat where "UPAGES = 0x80000"

lemma unat_small: "n < 2 ^ 64 \<Longrightarrow> unat (of_nat n :: u64) = n"
  by (simp add: unsigned_of_nat take_bit_nat_eq_self del: of_nat_mult)

lemma unat_va: "v \<le> UPAGES \<Longrightarrow> unat (va v) = 4096 * v"
  unfolding va_def by (rule unat_small) (simp add: UPAGES_def)

lemma unat_index: "unat (drop_bit n la AND 0x1FF :: u64) = unat la div 2 ^ n mod 512"
proof -
  have t: "take_bit 64 (unat la) = unat la"
    using unsigned_less [of la] by (intro take_bit_nat_eq_self) simp
  have m: "(0x1FF :: u64) = mask 9" by (simp add: mask_eq_exp_minus_1)
  have "drop_bit n la AND 0x1FF = take_bit 9 (drop_bit n la)"
    unfolding m by (simp only: take_bit_eq_mask)
  then have "unat (drop_bit n la AND 0x1FF) = take_bit 9 (drop_bit n (unat la))"
    by (simp only: unsigned_take_bit_eq unsigned_drop_bit_eq)
       (simp add: t)
  then show ?thesis by (simp add: take_bit_eq_mod drop_bit_eq_div)
qed

lemma index_va:
  assumes "v < UPAGES"
  shows "PDX1 (va v) = v div 0x40000" "PDX0 (va v) = v div 512 mod 512" "PTX (va v) = v mod 512"
    "v div 0x40000 < 2"
proof -
  have u: "unat (va v) = 4096 * v" using unat_va assms by simp
  have l: "v div 0x40000 < 2" using assms by (simp add: UPAGES_def)
  have "4096 * v div 0x40000000 = v div 0x40000"
    using div_mult_mult1 [of "4096" v "0x40000"] by simp
  then show "PDX1 (va v) = v div 0x40000" using l by (simp add: PDX1_def unat_index u)
  have "4096 * v div 0x200000 = v div 512" using div_mult_mult1 [of "4096" v "512"] by simp
  then show "PDX0 (va v) = v div 512 mod 512" by (simp add: PDX0_def unat_index u)
  show "PTX (va v) = v mod 512" by (simp add: PTX_def unat_index u)
  show "v div 0x40000 < 2" by (rule l)
qed

lemma va_next:
  assumes "v < UPAGES"
  shows "va v + PGSIZE = va (v + 1)" and "ROUNDDOWN (va v + PTSIZE) PTSIZE = va ((v div 512 + 1) * 512)"
    and "(v div 512 + 1) * 512 \<le> UPAGES"
proof -
  show "va v + PGSIZE = va (v + 1)" by (simp add: va_def PGSIZE_def)
  show l: "(v div 512 + 1) * 512 \<le> UPAGES" using assms by (simp add: UPAGES_def)
  have s: "va v + PTSIZE = va (v + 512)" by (simp add: va_def PTSIZE_def)
  have u: "unat (va (v + 512)) = 4096 * (v + 512)"
    unfolding va_def by (rule unat_small) (use assms in \<open>simp add: UPAGES_def\<close>)
  have d: "4096 * (v + 512) div 0x200000 = v div 512 + 1"
    using div_mult_mult1 [of "4096" "v + 512" "512"] by simp
  have "unat (va (v + 512) - va (v + 512) mod PTSIZE) = unat (va (v + 512)) - unat (va (v + 512)) mod 0x200000"
    using word_le_nat_alt [of "va (v + 512) mod PTSIZE" "va (v + 512)"]
    by (simp add: unat_sub unat_mod PTSIZE_def)
  also have "\<dots> = 0x200000 * (v div 512 + 1)"
    unfolding u using d minus_mod_eq_mult_div [of "4096 * (v + 512)" "0x200000"] by simp
  also have "\<dots> = unat (va ((v div 512 + 1) * 512))" using unat_va [OF l] by simp
  finally show "ROUNDDOWN (va v + PTSIZE) PTSIZE = va ((v div 512 + 1) * 512)"
    by (simp only: ROUNDDOWN_def s word_unat_eq_iff)
qed

lemma va_order:
  assumes "v \<le> UPAGES" and "u \<le> UPAGES"
  shows "va v < va u \<longleftrightarrow> v < u" "va v \<le> va u \<longleftrightarrow> v \<le> u" "va v = 0 \<longleftrightarrow> v = 0"
  using unat_va [OF assms(1)] unat_va [OF assms(2)]
  by (simp_all add: word_less_nat_alt word_le_nat_alt unat_eq_zero flip: unat_eq_zero)

lemma va_aligned: "v \<le> UPAGES \<Longrightarrow> va v mod PGSIZE = 0"
  by (simp add: word_unat_eq_iff unat_mod unat_va PGSIZE_def)

section \<open>Entries\<close>

definition pte_valid :: "u64 \<Rightarrow> bool" where "pte_valid e \<longleftrightarrow> e AND PTE_V \<noteq> 0"
definition pte_frame :: "u64 \<Rightarrow> nat" where "pte_frame e = PPN (PTE_ADDR e) - nbase"
definition frame_ok :: "u64 \<Rightarrow> bool" where
  "frame_ok e \<longleftrightarrow> nbase \<le> PPN (PTE_ADDR e) \<and> PPN (PTE_ADDR e) < npage"

lemma pte_valid_bit: "pte_valid e = bit e 0"
proof -
  have "e AND PTE_V = of_bool (bit e 0)"
    by (rule bit_word_eqI) (auto simp: PTE_V_def bit_simps)
  then show ?thesis by (simp add: pte_valid_def)
qed

lemma pte_valid_simps [simp]: "\<not> pte_valid 0" by (simp add: pte_valid_bit)

lemma pte_create:
  assumes "p < npage - nbase" and "take_bit 10 ty = ty"
  shows "pte_valid (pte_create (page2ppn p) ty)" and "frame_ok (pte_create (page2ppn p) ty)"
    and "pte_frame (pte_create (page2ppn p) ty) = p"
proof -
  define x where "x = (of_nat (page2ppn p) :: u64)"
  have x: "unat x = page2ppn p" unfolding x_def
    by (rule unat_small) (use assms(1) in \<open>simp add: page2ppn_def nbase_def npage_def\<close>)
  have hi: "n < 20" if "bit x n" for n
  proof -
    have "unat x < 2 ^ 20" using x assms(1) by (simp add: page2ppn_def nbase_def npage_def)
    then have "take_bit 20 x = x" by (simp add: word_unat_eq_iff unsigned_take_bit_eq take_bit_nat_eq_self)
    then show ?thesis using that by (metis bit_take_bit_iff)
  qed
  have ty: "\<not> bit ty n" if "10 \<le> n" for n
    using assms(2) that by (metis bit_take_bit_iff not_le)
  have bits: "bit (pte_create (page2ppn p) ty) n =
    (n < 64 \<and> (n = 0 \<or> (if n < 10 then bit ty n else bit x (n - 10))))" for n
    using ty [of n] unfolding pte_create_def x_def [symmetric] by (auto simp: PTE_V_def bit_simps)
  show "pte_valid (pte_create (page2ppn p) ty)" unfolding pte_valid_bit bits by simp
  have m: "(0x3FF :: u64) = mask 10" by (simp add: mask_eq_exp_minus_1)
  have "drop_bit 12 (PTE_ADDR (pte_create (page2ppn p) ty)) = x"
    by (intro bit_word_eqI) (auto simp: PTE_ADDR_def m bits bit_simps dest: hi)
  then have q: "PPN (PTE_ADDR (pte_create (page2ppn p) ty)) = page2ppn p"
    using x by (simp add: PPN_def)
  show "frame_ok (pte_create (page2ppn p) ty)"
    using q assms(1) by (simp add: frame_ok_def page2ppn_def)
  show "pte_frame (pte_create (page2ppn p) ty) = p" using q by (simp add: pte_frame_def page2ppn_def)
qed

lemma pa2page_ok: "frame_ok e \<Longrightarrow> pa2page (PTE_ADDR e) = Some (pte_frame e)"
  by (simp add: frame_ok_def pa2page_def pte_frame_def)

lemma pte2page_ok: "pte_valid e \<Longrightarrow> frame_ok e \<Longrightarrow> pte2page e = Some (pte_frame e)"
  by (simp add: pte2page_def pte_valid_def pa2page_ok)

section \<open>Address spaces\<close>

text \<open>
  The tree below a set \<open>R\<close> of root frames: a slot is a frame and an index in it; \<open>dirs\<close> are the
  second-level directories, \<open>kids\<close> all tables below the roots. Only the slots of user addresses count, the
  kernel half of a root is shared.
\<close>

type_synonym frames = "nat \<Rightarrow> nat \<Rightarrow> u64"

definition child :: "frames \<Rightarrow> nat \<times> nat \<Rightarrow> nat option" where
  "child w s = (if pte_valid (w (fst s) (snd s)) then Some (pte_frame (w (fst s) (snd s))) else None)"

definition leaf :: "frames \<Rightarrow> nat \<Rightarrow> nat \<Rightarrow> pte_ptr option" where
  "leaf w r v =
     (case child w (r, v div 0x40000) of
        None \<Rightarrow> None
      | Some d \<Rightarrow> map_option (\<lambda>t. (t, v mod 512)) (child w (d, v div 512 mod 512)))"

definition pte :: "frames \<Rightarrow> nat \<Rightarrow> nat \<Rightarrow> u64" where
  "pte w r v = (case leaf w r v of None \<Rightarrow> 0 | Some q \<Rightarrow> w (fst q) (snd q))"

definition dirs :: "frames \<Rightarrow> nat set \<Rightarrow> nat set" where
  "dirs w R = {d. \<exists>r \<in> R. \<exists>i < 2. child w (r, i) = Some d}"

definition slots :: "frames \<Rightarrow> nat set \<Rightarrow> (nat \<times> nat) set" where
  "slots w R = R \<times> {..<2} \<union> dirs w R \<times> {..<512}"

definition kids :: "frames \<Rightarrow> nat set \<Rightarrow> nat set" where
  "kids w R = {x. \<exists>s \<in> slots w R. child w s = Some x}"

definition tree_ok :: "frames \<Rightarrow> nat set \<Rightarrow> bool" where
  "tree_ok w R \<longleftrightarrow> finite R \<and> R \<inter> kids w R = {} \<and>
     (\<forall>s \<in> slots w R. pte_valid (w (fst s) (snd s)) \<longrightarrow> frame_ok (w (fst s) (snd s))) \<and>
     (\<forall>s \<in> slots w R. \<forall>s' \<in> slots w R. child w s = child w s' \<longrightarrow> child w s \<noteq> None \<longrightarrow> s = s')"

definition mapped :: "frames \<Rightarrow> nat set \<Rightarrow> nat \<Rightarrow> (nat \<times> nat) set" where
  "mapped w R p = {(r, v). r \<in> R \<and> v < UPAGES \<and> pte_valid (pte w r v) \<and> pte_frame (pte w r v) = p}"

definition data :: "frames \<Rightarrow> nat set \<Rightarrow> nat set" where
  "data w R = {p. mapped w R p \<noteq> {}}"

lemma user_index: "v < UPAGES \<Longrightarrow> v div 0x40000 < 2"
  by (simp add: UPAGES_def)

lemma dirs_kids: "dirs w R \<subseteq> kids w R"
  by (force simp: dirs_def kids_def slots_def)

lemma leafE:
  assumes "leaf w r v = Some q" and "r \<in> R" and "v < UPAGES"
  obtains d t where "child w (r, v div 0x40000) = Some d" "child w (d, v div 512 mod 512) = Some t"
    "q = (t, v mod 512)" "(r, v div 0x40000) \<in> slots w R" "d \<in> dirs w R"
    "(d, v div 512 mod 512) \<in> slots w R" "t \<in> kids w R"
proof -
  from assms(1) obtain d t where dt: "child w (r, v div 0x40000) = Some d"
    "child w (d, v div 512 mod 512) = Some t" "q = (t, v mod 512)"
    by (auto simp: leaf_def split: option.splits)
  have s: "(r, v div 0x40000) \<in> slots w R" using assms(2) user_index [OF assms(3)] by (simp add: slots_def)
  have d: "d \<in> dirs w R" using dt(1) assms(2) user_index [OF assms(3)] by (auto simp: dirs_def)
  then have s2: "(d, v div 512 mod 512) \<in> slots w R" by (simp add: slots_def)
  then have "t \<in> kids w R" using dt(2) by (auto simp: kids_def)
  with that dt s d s2 show ?thesis by blast
qed

lemma page_number_split: "v div 0x40000 = u div 0x40000 \<Longrightarrow> v div 512 mod 512 = u div 512 mod 512 \<Longrightarrow>
  v mod 512 = u mod 512 \<Longrightarrow> v = (u :: nat)"
proof -
  assume a: "v div 0x40000 = u div 0x40000" "v div 512 mod 512 = u div 512 mod 512" "v mod 512 = u mod 512"
  have s: "x div 0x40000 = x div 512 div 512" for x :: nat by (simp add: div_mult2_eq)
  have "v div 512 = u div 512" using a(1,2) unfolding s by (metis div_mult_mod_eq)
  then show "v = u" using a(3) by (metis div_mult_mod_eq)
qed

lemma slot_inj:
  "tree_ok w R \<Longrightarrow> s \<in> slots w R \<Longrightarrow> s' \<in> slots w R \<Longrightarrow> child w s = Some x \<Longrightarrow> child w s' = Some x \<Longrightarrow> s = s'"
  unfolding tree_ok_def by (metis option.distinct(1))

lemma leaf_inj:
  assumes "tree_ok w R" and "leaf w r v = Some q" and "leaf w r' v' = Some q"
    and "r \<in> R" and "r' \<in> R" and "v < UPAGES" and "v' < UPAGES"
  shows "r' = r \<and> v' = v"
proof -
  obtain d t where 1: "child w (r, v div 0x40000) = Some d" "child w (d, v div 512 mod 512) = Some t"
    "q = (t, v mod 512)" "(r, v div 0x40000) \<in> slots w R" "(d, v div 512 mod 512) \<in> slots w R"
    using leafE [OF assms(2,4,6)] by blast
  obtain d' t' where 2: "child w (r', v' div 0x40000) = Some d'" "child w (d', v' div 512 mod 512) = Some t'"
    "q = (t', v' mod 512)" "(r', v' div 0x40000) \<in> slots w R" "(d', v' div 512 mod 512) \<in> slots w R"
    using leafE [OF assms(3,5,7)] by blast
  have t: "t' = t" "v' mod 512 = v mod 512" using 1(3) 2(3) by auto
  then have d: "d' = d" "v' div 512 mod 512 = v div 512 mod 512"
    using slot_inj [OF assms(1) 1(5) 2(5)] 1(2) 2(2) by auto
  then have "r' = r" "v' div 0x40000 = v div 0x40000"
    using slot_inj [OF assms(1) 1(4) 2(4)] 1(1) 2(1) by auto
  then show ?thesis using page_number_split t(2) d(2) by blast
qed

text \<open>A page table is neither a root nor a directory.\<close>

lemma leaf_table:
  assumes "tree_ok w R" and "leaf w r v = Some (t, k)" and "r \<in> R" and "v < UPAGES"
  shows "t \<in> kids w R" "t \<notin> R" "t \<notin> dirs w R"
proof -
  obtain d where d: "child w (d, v div 512 mod 512) = Some t" "d \<in> dirs w R"
    "(d, v div 512 mod 512) \<in> slots w R" "t \<in> kids w R"
    using leafE [OF assms(2,3,4)] by (metis fst_conv)
  have disj: "R \<inter> kids w R = {}" using assms(1) by (simp add: tree_ok_def)
  show "t \<in> kids w R" "t \<notin> R" using d(4) disj by auto
  show "t \<notin> dirs w R"
  proof
    assume "t \<in> dirs w R"
    then obtain r0 i where r0: "r0 \<in> R" "i < 2" "child w (r0, i) = Some t" by (auto simp: dirs_def)
    then have "(r0, i) \<in> slots w R" by (simp add: slots_def)
    from slot_inj [OF assms(1) this d(3) r0(3) d(1)] have "d \<in> R" using r0(1) by simp
    then show False using d(2) dirs_kids disj by blast
  qed
qed

text \<open>Memory that agrees on the children of all slots has the same tree.\<close>

lemma tree_cong:
  assumes "\<forall>s \<in> slots w R. child w' s = child w s"
  shows "dirs w' R = dirs w R" "slots w' R = slots w R" "kids w' R = kids w R"
    "\<And>r v. r \<in> R \<Longrightarrow> v < UPAGES \<Longrightarrow> leaf w' r v = leaf w r v"
proof -
  have "child w' (r, i) = child w (r, i)" if "r \<in> R" "i < 2" for r i
    using assms that by (simp add: slots_def)
  then show d: "dirs w' R = dirs w R" unfolding dirs_def by (metis (no_types, lifting))
  then show s: "slots w' R = slots w R" by (simp add: slots_def)
  show "kids w' R = kids w R" unfolding kids_def s using assms by (metis (no_types, lifting))
  fix r v assume rv: "r \<in> R" "v < UPAGES"
  then have 1: "child w' (r, v div 0x40000) = child w (r, v div 0x40000)"
    using assms user_index by (simp add: slots_def)
  have "child w' (x, v div 512 mod 512) = child w (x, v div 512 mod 512)"
    if "child w (r, v div 0x40000) = Some x" for x
  proof -
    have "x \<in> dirs w R" using that rv user_index by (auto simp: dirs_def)
    then show ?thesis using assms by (simp add: slots_def)
  qed
  with 1 show "leaf w' r v = leaf w r v" by (auto simp: leaf_def split: option.splits)
qed

text \<open>Changing one leaf entry changes one virtual page of one address space.\<close>

lemma set_leaf:
  fixes e :: u64
  assumes t: "tree_ok w R" and l: "leaf w r v = Some (t, k)" and r: "r \<in> R" and v: "v < UPAGES"
  defines "w' \<equiv> w(t := (w t)(k := e))"
  shows "slots w' R = slots w R" "kids w' R = kids w R" "tree_ok w' R"
    "\<And>r' v'. r' \<in> R \<Longrightarrow> v' < UPAGES \<Longrightarrow> leaf w' r' v' = leaf w r' v'"
    "\<And>r' v'. r' \<in> R \<Longrightarrow> v' < UPAGES \<Longrightarrow> pte w' r' v' = (if r' = r \<and> v' = v then e else pte w r' v')"
proof -
  have eq: "w' (fst s) = w (fst s)" if "s \<in> slots w R" for s
    using leaf_table [OF t l r v] that by (auto simp: slots_def w'_def)
  then have c: "\<forall>s \<in> slots w R. child w' s = child w s" by (simp add: child_def)
  note tc = tree_cong [OF c]
  show "slots w' R = slots w R" "kids w' R = kids w R" by (rule tc)+
  show "tree_ok w' R"
    using t eq c unfolding tree_ok_def tc(2,3) by (metis (no_types, lifting))
  show lf: "\<And>r' v'. r' \<in> R \<Longrightarrow> v' < UPAGES \<Longrightarrow> leaf w' r' v' = leaf w r' v'" by (rule tc(4))
  fix r' v' assume rv: "r' \<in> R" "v' < UPAGES"
  show "pte w' r' v' = (if r' = r \<and> v' = v then e else pte w r' v')"
  proof (cases "r' = r \<and> v' = v")
    case True
    then show ?thesis using lf [OF rv] l by (simp add: pte_def w'_def)
  next
    case False
    then have "leaf w r' v' \<noteq> Some (t, k)" using leaf_inj [OF t l _ r rv(1) v rv(2)] by blast
    then show ?thesis
      using False lf [OF rv] by (auto simp: pte_def w'_def split: option.splits)
  qed
qed

text \<open>A new, empty table below an unused slot changes no translation.\<close>

lemma new_table:
  assumes t: "tree_ok w R" and s: "(f, i) \<in> slots w R" and inv: "\<not> pte_valid (w f i)"
    and p: "p \<notin> R" "p \<notin> kids w R" and e: "pte_valid e" "frame_ok e" "pte_frame e = p"
  defines "w' \<equiv> (w(p := \<lambda>_. 0))(f := (w f)(i := e))"
  shows "kids w' R = insert p (kids w R)" "tree_ok w' R" "slots w R \<subseteq> slots w' R"
    "f \<in> R \<Longrightarrow> p \<in> dirs w' R" "child w' (f, i) = Some p"
    "\<And>r v. r \<in> R \<Longrightarrow> v < UPAGES \<Longrightarrow> pte w' r v = pte w r v"
    "\<And>s'. s' \<in> slots w R \<Longrightarrow> s' \<noteq> (f, i) \<Longrightarrow> child w' s' = child w s'"
proof -
  have disj: "R \<inter> kids w R = {}" using t by (simp add: tree_ok_def)
  have fT: "f \<in> R \<union> dirs w R" using s by (auto simp: slots_def)
  then have fp: "f \<noteq> p" using p dirs_kids by blast
  have c0: "child w' (f, i) = Some p" using e by (simp add: child_def w'_def)
  have cp: "child w' (p, j) = None" for j using fp by (simp add: child_def w'_def)
  have none: "child w (f, i) = None" using inv by (simp add: child_def)
  have c: "child w' s' = child w s'" if "s' \<in> slots w R" "s' \<noteq> (f, i)" for s'
  proof -
    have "fst s' \<noteq> p" using that(1) p dirs_kids [of w R] by (auto simp: slots_def)
    then show ?thesis using that(2) by (cases s') (auto simp: child_def w'_def)
  qed
  then show "\<And>s'. s' \<in> slots w R \<Longrightarrow> s' \<noteq> (f, i) \<Longrightarrow> child w' s' = child w s'" .
  have R2: "(f, i) \<in> R \<times> {..<2}" if "f \<in> R" using s that disj dirs_kids [of w R] by (auto simp: slots_def)
  have d: "dirs w' R = (if f \<in> R then insert p (dirs w R) else dirs w R)" (is "_ = ?D")
  proof -
    have "x \<in> dirs w' R \<longleftrightarrow> x \<in> ?D" for x
    proof
      assume "x \<in> dirs w' R"
      then obtain r j where "r \<in> R" "j < 2" "child w' (r, j) = Some x" by (auto simp: dirs_def)
      then show "x \<in> ?D"
        using c [of "(r, j)"] c0 by (cases "(r, j) = (f, i)") (auto simp: dirs_def slots_def)
    next
      assume x: "x \<in> ?D"
      show "x \<in> dirs w' R"
      proof (cases "f \<in> R \<and> x = p")
        case True
        then show ?thesis using c0 R2 by (auto simp: dirs_def)
      next
        case False
        then have "x \<in> dirs w R" using x by (auto split: if_splits)
        then obtain r j where rj: "r \<in> R" "j < 2" "child w (r, j) = Some x" by (auto simp: dirs_def)
        then have "(r, j) \<noteq> (f, i)" using none by auto
        then show ?thesis using rj c [of "(r, j)"] by (auto simp: dirs_def slots_def)
      qed
    qed
    then show ?thesis by blast
  qed
  show "f \<in> R \<Longrightarrow> p \<in> dirs w' R" unfolding d by simp
  have sl: "slots w' R = slots w R \<union> (if f \<in> R then {p} \<times> {..<512} else {})"
    by (auto simp: slots_def d)
  then show "slots w R \<subseteq> slots w' R" by simp
  have sl': "s' \<in> slots w R" if "s' \<in> slots w' R" "child w' s' \<noteq> None" for s'
    using that cp by (cases s') (auto simp: sl split: if_splits)
  show k: "kids w' R = insert p (kids w R)"
  proof -
    have "x \<in> kids w' R \<longleftrightarrow> x \<in> insert p (kids w R)" for x
    proof
      assume "x \<in> kids w' R"
      then obtain s' where s': "s' \<in> slots w' R" "child w' s' = Some x" by (auto simp: kids_def)
      then have "s' \<in> slots w R" using sl' by simp
      then show "x \<in> insert p (kids w R)" using s'(2) c [of s'] c0 by (cases "s' = (f, i)") (auto simp: kids_def)
    next
      assume x: "x \<in> insert p (kids w R)"
      show "x \<in> kids w' R"
      proof (cases "x = p")
        case True
        then show ?thesis using c0 s sl by (auto simp: kids_def)
      next
        case False
        then obtain s' where s': "s' \<in> slots w R" "child w s' = Some x" using x by (auto simp: kids_def)
        then have "s' \<noteq> (f, i)" using none by auto
        then show ?thesis using s' c [of s'] sl by (auto simp: kids_def)
      qed
    qed
    then show ?thesis by blast
  qed
  show "child w' (f, i) = Some p" by (rule c0)
  have inj: "s1 = s2" if "s1 \<in> slots w' R" "s2 \<in> slots w' R" "child w' s1 = Some x" "child w' s2 = Some x" for s1 s2 x
  proof -
    have m: "s1 \<in> slots w R" "s2 \<in> slots w R" using that sl' by auto
    have new: "s' = (f, i)" if "s' \<in> slots w R" "child w' s' = Some p" for s'
      using that c [of s'] p(2) unfolding kids_def by fastforce
    show ?thesis
    proof (cases "x = p")
      case True
      then show ?thesis using new m that(3,4) by metis
    next
      case False
      then have "s1 \<noteq> (f, i)" "s2 \<noteq> (f, i)" using that(3,4) c0 by auto
      then show ?thesis using slot_inj [OF t m] that(3,4) c m by simp
    qed
  qed
  have fr: "frame_ok (w' (fst s') (snd s'))" if "s' \<in> slots w' R" "pte_valid (w' (fst s') (snd s'))" for s'
  proof (cases "s' = (f, i)")
    case True
    then show ?thesis using e by (simp add: w'_def)
  next
    case False
    have "child w' s' \<noteq> None" using that(2) by (simp add: child_def)
    then have m: "s' \<in> slots w R" using sl' that(1) by blast
    have "fst s' \<noteq> p" using m p dirs_kids [of w R] by (auto simp: slots_def)
    then have "w' (fst s') (snd s') = w (fst s') (snd s')" using False by (cases s') (auto simp: w'_def)
    then show ?thesis using t m that(2) by (simp add: tree_ok_def)
  qed
  have "finite R" using t by (simp add: tree_ok_def)
  moreover have "R \<inter> kids w' R = {}" using k p(1) disj by auto
  ultimately show "tree_ok w' R"
    unfolding tree_ok_def using inj fr by (metis option.exhaust)
  fix r v assume rv: "r \<in> R" "v < UPAGES"
  have s1: "(r, v div 0x40000) \<in> slots w R" using rv user_index by (simp add: slots_def)
  show "pte w' r v = pte w r v"
  proof (cases "child w (r, v div 0x40000)")
    case None
    then have 0: "pte w r v = 0" by (simp add: pte_def leaf_def)
    have "child w' (r, v div 0x40000) = None \<or> child w' (r, v div 0x40000) = Some p"
      using c [OF s1] c0 None by metis
    then have "leaf w' r v = None" using cp by (auto simp: leaf_def)
    then show ?thesis using 0 by (simp add: pte_def)
  next
    case (Some x)
    then have "(r, v div 0x40000) \<noteq> (f, i)" using none by auto
    then have 1: "child w' (r, v div 0x40000) = Some x" using c [OF s1] Some by simp
    have x: "x \<in> dirs w R" using Some rv user_index by (auto simp: dirs_def)
    then have s2: "(x, v div 512 mod 512) \<in> slots w R" by (simp add: slots_def)
    show ?thesis
    proof (cases "(x, v div 512 mod 512) = (f, i)")
      case True
      then show ?thesis using none c0 1 Some fp by (simp add: pte_def leaf_def w'_def)
    next
      case False
      then have 2: "child w' (x, v div 512 mod 512) = child w (x, v div 512 mod 512)" using c [OF s2] by simp
      show ?thesis
      proof (cases "child w (x, v div 512 mod 512)")
        case None
        then show ?thesis using 1 2 Some by (simp add: pte_def leaf_def)
      next
        case (Some y)
        then have l: "leaf w r v = Some (y, v mod 512)" using \<open>child w (r, v div 0x40000) = Some x\<close>
          by (simp add: leaf_def)
        note lt = leaf_table [OF t l rv]
        have "y \<noteq> f" "y \<noteq> p" using lt fT p by auto
        then show ?thesis using l 1 2 Some by (simp add: pte_def leaf_def w'_def)
      qed
    qed
  qed
qed

section \<open>The invariant of the address spaces\<close>

text \<open>
  \<open>R\<close> are the roots, \<open>F\<close> the free frames of the page manager. Tables, mapped pages and free frames are
  disjoint, and the reference count of a mapped page is the number of virtual pages that map it, plus
  \<open>ex\<close>, the references an operation holds while it runs.
\<close>

definition space_ok ::
  "(free_area \<Rightarrow> nat set \<Rightarrow> bool) \<Rightarrow> (nat \<Rightarrow> int) \<Rightarrow> nat set \<Rightarrow> nat set \<Rightarrow> pmem \<Rightarrow> bool" where
  "space_ok I ex R F m \<longleftrightarrow> I (parea m) F \<and> tree_ok (words m) R \<and>
     (\<forall>q \<in> F. q < npage - nbase \<and> page_ref q m = 0) \<and>
     (R \<union> kids (words m) R) \<inter> F = {} \<and> data (words m) R \<inter> (R \<union> kids (words m) R \<union> F) = {} \<and>
     (\<forall>r \<in> R. \<forall>v < UPAGES. pte_valid (pte (words m) r v) \<longrightarrow> frame_ok (pte (words m) r v)) \<and>
     (\<forall>p \<in> data (words m) R \<union> {p. ex p \<noteq> 0}. page_ref p m = int (card (mapped (words m) R p)) + ex p) \<and>
     (\<forall>p \<in> data (words m) R \<union> kids (words m) R. page_clean (pages (parea m) p))"

lemma pmem_sel [simp]:
  "words (set_page_ref p v m) = words m" "swap_init_ok (set_page_ref p v m) = swap_init_ok m"
  "page_ref q (set_page_ref p v m) = (if q = p then v else page_ref q m)"
  "page_clean (pages (parea (set_page_ref p v m)) q) = page_clean (pages (parea m) q)"
  "q \<noteq> p \<Longrightarrow> pages (parea (set_page_ref p v m)) q = pages (parea m) q"
  "links (parea (set_page_ref p v m)) = links (parea m)" "nr_free (parea (set_page_ref p v m)) = nr_free (parea m)"
  "parea (set_word s e m) = parea m" "swap_init_ok (set_word s e m) = swap_init_ok m"
  "page_ref q (set_word s e m) = page_ref q m"
  "words (set_word (t, k) e m) = (words m)(t := (words m t)(k := e))"
  "parea (set_frame p c m) = parea m" "swap_init_ok (set_frame p c m) = swap_init_ok m"
  "page_ref q (set_frame p c m) = page_ref q m" "words (set_frame p c m) = (words m)(p := c)"
  "page_ref q (m\<lparr>parea := a\<rparr>) = ref (pages a q)"
  by (auto simp: set_page_ref_def page_ref_def set_word_def set_frame_def page_clean_def PageReserved_def PageProperty_def)

lemma mapped_finite: "finite R \<Longrightarrow> finite (mapped w R p)"
  by (rule finite_subset [of _ "R \<times> {..<UPAGES}"]) (auto simp: mapped_def)

lemma mapped_pte_cong:
  "(\<And>r v. r \<in> R \<Longrightarrow> v < UPAGES \<Longrightarrow> pte w' r v = pte w r v) \<Longrightarrow> mapped w' R p = mapped w R p"
  by (auto simp: mapped_def)

lemma data_pte_cong:
  "(\<And>r v. r \<in> R \<Longrightarrow> v < UPAGES \<Longrightarrow> pte w' r v = pte w r v) \<Longrightarrow> data w' R = data w R"
  using mapped_pte_cong [of R w' w] by (simp add: data_def)

lemma in_data: "r \<in> R \<Longrightarrow> v < UPAGES \<Longrightarrow> pte_valid (pte w r v) \<Longrightarrow> pte_frame (pte w r v) \<in> data w R"
  by (auto simp: data_def mapped_def)

text \<open>Tables are read, never changed, below: walking without creating.\<close>

lemma pde_table_present:
  "pte_valid (words m f i) \<Longrightarrow> frame_ok (words m f i) \<Longrightarrow>
   pde_table al f i c m = Some (Some (pte_frame (words m f i)), m)"
  by (simp add: pde_table_def pte_valid_def pa2page_ok)

lemma pde_table_absent: "\<not> pte_valid (words m f i) \<Longrightarrow> pde_table al f i False m = Some (None, m)"
  by (simp add: pde_table_def pte_valid_def)

lemma pde_table_child:
  assumes "tree_ok (words m) R" and "(f, i) \<in> slots (words m) R"
  shows "pde_table al f i False m = Some (child (words m) (f, i), m)"
  using assms pde_table_present [of m f i al False] pde_table_absent [of m f i al]
  by (cases "pte_valid (words m f i)") (auto simp: child_def tree_ok_def)

lemma get_pte_walk:
  assumes t: "tree_ok (words m) R" and r: "r \<in> R" and v: "v < UPAGES"
  shows "get_pte al r (va v) False m = Some (leaf (words m) r v, m)"
proof -
  have s: "(r, v div 0x40000) \<in> slots (words m) R" using r user_index [OF v] by (simp add: slots_def)
  have "(d, v div 512 mod 512) \<in> slots (words m) R" if "child (words m) (r, v div 0x40000) = Some d" for d
    using that r user_index [OF v] by (auto simp: slots_def dirs_def)
  then show ?thesis
    using pde_table_child [OF t s] pde_table_child [OF t] index_va [OF v]
    by (auto simp: get_pte_def leaf_def split: option.splits)
qed

lemma read_leaf: "leaf (words m) r v = Some q \<Longrightarrow> read_pte q m = pte (words m) r v"
  by (simp add: read_pte_def pte_def)

text \<open>What creating tables may do: take free frames for new tables, and nothing else.\<close>

definition grown ::
  "(free_area \<Rightarrow> nat set \<Rightarrow> bool) \<Rightarrow> (nat \<Rightarrow> int) \<Rightarrow> nat set \<Rightarrow> nat set \<Rightarrow> pmem \<Rightarrow> nat set \<Rightarrow> pmem \<Rightarrow> bool" where
  "grown I ex R F m F' m' \<longleftrightarrow> space_ok I ex R F' m' \<and> F' \<subseteq> F \<and>
     kids (words m') R = kids (words m) R \<union> (F - F') \<and> slots (words m) R \<subseteq> slots (words m') R \<and>
     (\<forall>s \<in> slots (words m) R. \<forall>x. child (words m) s = Some x \<longrightarrow> child (words m') s = Some x) \<and>
     (\<forall>r \<in> R. \<forall>v < UPAGES. pte (words m') r v = pte (words m) r v) \<and>
     (\<forall>q. q \<notin> R \<union> kids (words m) R \<union> F \<longrightarrow> words m' q = words m q) \<and>
     (\<forall>q. q \<notin> F \<longrightarrow> pages (parea m') q = pages (parea m) q) \<and> swap_init_ok m' = swap_init_ok m"

lemma grown_refl: "space_ok I ex R F m \<Longrightarrow> grown I ex R F m F m"
  by (simp add: grown_def)

lemma grownD:
  assumes "grown I ex R F m F' m'"
  shows "space_ok I ex R F' m'" "F' \<subseteq> F" "kids (words m') R = kids (words m) R \<union> (F - F')"
    "slots (words m) R \<subseteq> slots (words m') R"
    "\<And>s x. s \<in> slots (words m) R \<Longrightarrow> child (words m) s = Some x \<Longrightarrow> child (words m') s = Some x"
    "\<And>r v. r \<in> R \<Longrightarrow> v < UPAGES \<Longrightarrow> pte (words m') r v = pte (words m) r v"
    "\<And>q. q \<notin> R \<union> kids (words m) R \<union> F \<Longrightarrow> words m' q = words m q"
    "\<And>q. q \<notin> F \<Longrightarrow> pages (parea m') q = pages (parea m) q" "swap_init_ok m' = swap_init_ok m"
  using assms by (simp_all add: grown_def)

lemma grown_trans:
  assumes "grown I ex R F m F1 m1" and "grown I ex R F1 m1 F2 m2"
  shows "grown I ex R F m F2 m2"
proof -
  note a = grownD [OF assms(1)] and b = grownD [OF assms(2)]
  have k: "kids (words m2) R = kids (words m) R \<union> (F - F2)" unfolding b(3) a(3) using a(2) b(2) by blast
  have w: "words m2 q = words m q" if q: "q \<notin> R \<union> kids (words m) R \<union> F" for q
  proof -
    have "q \<notin> R \<union> kids (words m1) R \<union> F1" using q a(2) unfolding a(3) by blast
    from b(7) [OF this] a(7) [OF q] show ?thesis by (rule trans)
  qed
  have pg: "pages (parea m2) q = pages (parea m) q" if q: "q \<notin> F" for q
  proof -
    have "q \<notin> F1" using q a(2) by blast
    from b(8) [OF this] a(8) [OF q] show ?thesis by (rule trans)
  qed
  have ch: "child (words m2) s = Some x" if "s \<in> slots (words m) R" "child (words m) s = Some x" for s x
    using a(4) a(5) [OF that] b(5) that(1) by blast
  have pt: "pte (words m2) r v = pte (words m) r v" if "r \<in> R" "v < UPAGES" for r v
    using b(6) [OF that] a(6) [OF that] by (rule trans)
  have sw: "swap_init_ok m2 = swap_init_ok m" using b(9) a(9) by (rule trans)
  show ?thesis
    unfolding grown_def
    by (intro conjI allI ballI impI b(1) subset_trans [OF b(2) a(2)] k subset_trans [OF a(4) b(4)] ch pt w pg sw)
qed

text \<open>What unmapping pages may do: give frames back that no page maps any more, and nothing else.\<close>

definition shrunk ::
  "(free_area \<Rightarrow> nat set \<Rightarrow> bool) \<Rightarrow> (nat \<Rightarrow> int) \<Rightarrow> nat set \<Rightarrow> nat set \<Rightarrow> pmem \<Rightarrow> nat set \<Rightarrow> pmem \<Rightarrow> bool" where
  "shrunk I ex R F m F' m' \<longleftrightarrow> space_ok I ex R F' m' \<and>
     kids (words m') R = kids (words m) R \<and> data (words m') R \<subseteq> data (words m) R \<and>
     F' = F \<union> (data (words m) R - data (words m') R) \<and>
     (\<forall>r \<in> R. \<forall>v < UPAGES. leaf (words m') r v = leaf (words m) r v) \<and>
     (\<forall>q. q \<notin> kids (words m) R \<longrightarrow> words m' q = words m q) \<and>
     (\<forall>q. q \<notin> F \<union> data (words m) R \<longrightarrow> pages (parea m') q = pages (parea m) q) \<and>
     swap_init_ok m' = swap_init_ok m"

lemma shrunkD:
  assumes "shrunk I ex R F m F' m'"
  shows "space_ok I ex R F' m'" "kids (words m') R = kids (words m) R" "data (words m') R \<subseteq> data (words m) R"
    "F' = F \<union> (data (words m) R - data (words m') R)"
    "\<And>r v. r \<in> R \<Longrightarrow> v < UPAGES \<Longrightarrow> leaf (words m') r v = leaf (words m) r v"
    "\<And>q. q \<notin> kids (words m) R \<Longrightarrow> words m' q = words m q"
    "\<And>q. q \<notin> F \<union> data (words m) R \<Longrightarrow> pages (parea m') q = pages (parea m) q"
    "swap_init_ok m' = swap_init_ok m"
  using assms by (simp_all only: shrunk_def simp_thms) blast+

lemma shrunk_refl: "space_ok I ex R F m \<Longrightarrow> shrunk I ex R F m F m"
  by (simp add: shrunk_def)

lemma shrunk_trans:
  assumes "shrunk I ex R F m F1 m1" and "shrunk I ex R F1 m1 F2 m2"
  shows "shrunk I ex R F m F2 m2"
proof -
  note a = shrunkD [OF assms(1)] and b = shrunkD [OF assms(2)]
  have k: "kids (words m2) R = kids (words m) R" using b(2) a(2) by (rule trans)
  have d: "data (words m2) R \<subseteq> data (words m) R" using b(3) a(3) by (rule subset_trans)
  have f: "F2 = F \<union> (data (words m) R - data (words m2) R)" unfolding b(4) a(4) using a(3) b(3) by blast
  have l: "leaf (words m2) r v = leaf (words m) r v" if "r \<in> R" "v < UPAGES" for r v
    using b(5) [OF that] a(5) [OF that] by (rule trans)
  have w: "words m2 q = words m q" if q: "q \<notin> kids (words m) R" for q
    using b(6) [unfolded a(2), OF q] a(6) [OF q] by (rule trans)
  have p: "pages (parea m2) q = pages (parea m) q" if q: "q \<notin> F \<union> data (words m) R" for q
  proof -
    have "q \<notin> F1 \<union> data (words m1) R" using q a(3) unfolding a(4) by blast
    from b(7) [OF this] a(7) [OF q] show ?thesis by (rule trans)
  qed
  have sw: "swap_init_ok m2 = swap_init_ok m" using b(8) a(8) by (rule trans)
  show ?thesis
    unfolding shrunk_def by (intro conjI allI ballI impI b(1) k d f l w p sw)
qed

text \<open>Changing one entry moves one virtual page from one frame to another.\<close>

lemma mapped_change:
  assumes r: "r \<in> R" and v: "v < UPAGES"
    and eq: "\<And>r' v'. r' \<in> R \<Longrightarrow> v' < UPAGES \<Longrightarrow> pte w' r' v' = (if r' = r \<and> v' = v then e else pte w r' v')"
  shows "mapped w' R p = (mapped w R p - {(r, v)}) \<union> (if pte_valid e \<and> pte_frame e = p then {(r, v)} else {})"
proof -
  have "x \<in> mapped w' R p \<longleftrightarrow> x \<in> (mapped w R p - {(r, v)}) \<union> (if pte_valid e \<and> pte_frame e = p then {(r, v)} else {})" for x
  proof (cases x)
    case (Pair r' v')
    then show ?thesis using eq [of r' v'] r v by (cases "r' = r \<and> v' = v") (auto simp: mapped_def)
  qed
  then show ?thesis by blast
qed

lemma data_mapped: "p \<in> data w R \<longleftrightarrow> mapped w R p \<noteq> {}"
  by (simp add: data_def)

lemma grown_leaf:
  assumes "grown I ex R F m F' m'" and "leaf (words m) r v = Some q" and "r \<in> R" and "v < UPAGES"
  shows "leaf (words m') r v = Some q"
proof -
  obtain d t where "child (words m) (r, v div 0x40000) = Some d" "child (words m) (d, v div 512 mod 512) = Some t"
    "q = (t, v mod 512)" "(r, v div 0x40000) \<in> slots (words m) R" "(d, v div 512 mod 512) \<in> slots (words m) R"
    using leafE [OF assms(2-4)] by metis
  then show ?thesis using grownD(5) [OF assms(1)] by (simp add: leaf_def)
qed

lemma leaf_None_block:
  assumes "leaf w r v = None" and "u div 512 = v div 512"
  shows "leaf w r u = None"
proof -
  have s: "x div 0x40000 = x div 512 div 512" for x :: nat by (simp add: div_mult2_eq)
  show ?thesis using assms unfolding leaf_def s by (auto split: option.splits)
qed

text \<open>
  Page \<open>u\<close> of \<open>frm\<close> has been copied to \<open>to\<close>: the same access bits, the same contents, and a frame that no
  other virtual page maps.
\<close>

definition page_copied :: "frames \<Rightarrow> frames \<Rightarrow> nat set \<Rightarrow> nat \<Rightarrow> nat \<Rightarrow> nat \<Rightarrow> bool" where
  "page_copied w w' R to frm u \<longleftrightarrow> pte_valid (pte w' to u) \<and>
     pte w' to u AND PTE_USER = pte w frm u AND PTE_USER \<and>
     mapped w' R (pte_frame (pte w' to u)) = {(to, u)} \<and>
     w' (pte_frame (pte w' to u)) = w (pte_frame (pte w frm u))"

lemma PTE_USER_mask: "PTE_USER = mask 5"
  by (simp add: PTE_USER_def PTE_R_def PTE_W_def PTE_X_def PTE_U_def PTE_V_def mask_eq_exp_minus_1)

lemma PTE_USER_bits: "take_bit 10 (e AND PTE_USER) = e AND PTE_USER"
  by (rule bit_word_eqI) (auto simp: PTE_USER_mask bit_simps)

lemma pte_create_user:
  assumes "pte_valid e"
  shows "pte_create x (PTE_V OR (e AND PTE_USER)) AND PTE_USER = e AND PTE_USER"
  using assms by (intro bit_word_eqI) (auto simp: PTE_USER_mask pte_create_def PTE_V_def pte_valid_bit bit_simps)

context pmm_manager
begin

lemma alloc_page:
  assumes ok: "space_ok inv ex R F m" and room: "F \<noteq> {} \<or> \<not> swap_init_ok m"
  obtains (none) "F = {}" "alloc_pages alloc 1 m = Some (None, m)"
  | (some) p s where "alloc_pages alloc 1 m = Some (Some p, m\<lparr>parea := s\<rparr>)" "p \<in> F" "inv s (F - {p})"
      "\<And>q. ref (pages s q) = ref (pages (parea m) q)" "page_clean (pages s p)"
      "\<And>q. q \<notin> F \<Longrightarrow> pages s q = pages (parea m) q"
proof -
  have i: "inv (parea m) F" using ok by (simp add: space_ok_def)
  from alloc_returns [OF i, of 1] obtain r s where a: "alloc 1 (parea m) = Some (r, s)" by auto
  show ?thesis
  proof (cases r)
    case None
    then have "F = {}" using alloc_one [OF i _ a] by blast
    moreover have "s = parea m" using alloc_null a None by blast
    ultimately show ?thesis using none a None room by (simp add: alloc_pages_def)
  next
    case (Some p)
    note a' = a [unfolded Some]
    have "{p..<p + 1} = {p}" by auto
    then show ?thesis
      using some [of p s] alloc_some [OF i a'] alloc_clean [OF i a'] alloc_ref [OF a'] a'
      by (simp add: alloc_pages_def)
  qed
qed

lemma space_ok_alloc:
  assumes ok: "space_ok inv ex R F m" and p: "p \<in> F" and i: "inv s (F - {p})"
    and rf: "\<And>q. ref (pages s q) = ref (pages (parea m) q)"
    and pg: "\<And>q. q \<notin> F \<Longrightarrow> pages s q = pages (parea m) q"
  shows "space_ok inv ex R (F - {p}) (m\<lparr>parea := s\<rparr>)"
proof -
  have "q \<notin> F" if "q \<in> data (words m) R \<union> kids (words m) R" for q
    using ok that unfolding space_ok_def by blast
  then show ?thesis
    using ok i rf pg unfolding space_ok_def by (auto simp: page_ref_def)
qed

text \<open>The reference count and the contents of a frame outside the tables and the mapped pages.\<close>

lemma space_ok_ref:
  assumes ok: "space_ok inv ex R F m" and p: "p \<notin> F"
    and v: "p \<in> data (words m) R \<or> e \<noteq> 0 \<Longrightarrow> v = int (card (mapped (words m) R p)) + e"
  shows "space_ok inv (ex(p := e)) R F (set_page_ref p v m)"
proof -
  note o = ok [unfolded space_ok_def]
  have "inv (parea (set_page_ref p v m)) F"
    by (rule inv_cong [of "parea m" F]) (use o p in \<open>auto intro!: pmem_sel(5)\<close>)
  moreover have "page_ref q (set_page_ref p v m) = int (card (mapped (words m) R q)) + (ex(p := e)) q"
    if "q \<in> data (words m) R \<union> {q. (ex(p := e)) q \<noteq> 0}" for q
  proof (cases "q = p")
    case True
    then show ?thesis using that v by simp
  next
    case False
    then have "q \<in> data (words m) R \<union> {q. ex q \<noteq> 0}" using that by simp
    then have "page_ref q m = int (card (mapped (words m) R q)) + ex q" using o by blast
    then show ?thesis using False by simp
  qed
  moreover have "page_ref q (set_page_ref p v m) = page_ref q m" if "q \<in> F" for q
    using that p by auto
  ultimately show ?thesis using o unfolding space_ok_def pmem_sel(1,4) by simp
qed

lemma space_ok_frame:
  assumes ok: "space_ok inv ex R F m" and p: "p \<notin> R \<union> kids (words m) R"
  shows "space_ok inv ex R F (set_frame p c m)"
    "\<And>r v. r \<in> R \<Longrightarrow> v < UPAGES \<Longrightarrow> pte (words (set_frame p c m)) r v = pte (words m) r v"
    "\<And>r v. r \<in> R \<Longrightarrow> v < UPAGES \<Longrightarrow> leaf (words (set_frame p c m)) r v = leaf (words m) r v"
    "kids (words (set_frame p c m)) R = kids (words m) R" "slots (words (set_frame p c m)) R = slots (words m) R"
proof -
  let ?w = "words m" and ?w' = "words (set_frame p c m)"
  have t: "tree_ok ?w R" using ok by (simp add: space_ok_def)
  have eq: "?w' (fst s) = ?w (fst s)" if "s \<in> slots ?w R" for s
    using that p dirs_kids [of ?w R] by (auto simp: slots_def)
  then have ch: "\<forall>s \<in> slots ?w R. child ?w' s = child ?w s" by (simp add: child_def)
  note tc = tree_cong [OF ch]
  show k: "kids ?w' R = kids ?w R" "slots ?w' R = slots ?w R" by (rule tc)+
  show "\<And>r v. r \<in> R \<Longrightarrow> v < UPAGES \<Longrightarrow> leaf ?w' r v = leaf ?w r v" by (rule tc(4))
  show e: "pte ?w' r v = pte ?w r v" if rv: "r \<in> R" "v < UPAGES" for r v
  proof (cases "leaf ?w r v")
    case None
    then show ?thesis using tc(4) [OF rv] by (simp add: pte_def)
  next
    case (Some q)
    then have "fst q \<noteq> p" using leaf_table(1) [OF t, of r v "fst q" "snd q"] rv p by auto
    then show ?thesis using Some tc(4) [OF rv] by (simp add: pte_def)
  qed
  have "tree_ok ?w' R"
    using t eq ch unfolding tree_ok_def tc(2,3) by (metis (no_types, lifting))
  then show "space_ok inv ex R F (set_frame p c m)"
    using ok e mapped_pte_cong [of R ?w' ?w] data_pte_cong [of R ?w' ?w] k
    unfolding space_ok_def by (simp del: pmem_sel(15))
qed

lemma space_ok_free_bound: "space_ok inv ex R F m \<Longrightarrow> finite F \<and> (\<forall>q \<in> F. q < npage - nbase)"
  unfolding space_ok_def using finite_subset [of F "{..<npage - nbase}"] by blast

text \<open>One level of a creating walk.\<close>

lemma pde_table_create:
  assumes ok: "space_ok inv ex R F m" and s: "(f, i) \<in> slots (words m) R"
    and room: "F \<noteq> {} \<or> \<not> swap_init_ok m" and ex: "\<And>p. p \<in> F \<Longrightarrow> ex p = 0"
  shows "\<exists>m' F'. pde_table alloc f i True m = Some (child (words m') (f, i), m') \<and>
    grown inv ex R F m F' m' \<and> card F \<le> card F' + 1 \<and> (child (words m') (f, i) = None \<longrightarrow> F = {})"
proof (cases "pte_valid (words m f i)")
  case True
  moreover have "frame_ok (words m f i)" using ok s True by (auto simp: space_ok_def tree_ok_def)
  ultimately show ?thesis
    using pde_table_present [of m f i alloc True] grown_refl [OF ok] by (force simp: child_def)
next
  case False
  then have nv: "words m f i AND PTE_V = 0" by (simp add: pte_valid_def)
  show ?thesis
  proof (cases rule: alloc_page [OF ok room])
    case 1
    then show ?thesis using nv False grown_refl [OF ok] by (auto simp: pde_table_def child_def)
  next
    case some: (2 p a)
    let ?w = "words m"
    let ?e = "pte_create (page2ppn p) (PTE_U OR PTE_V)"
    let ?m1 = "m\<lparr>parea := a\<rparr>"
    let ?m2 = "set_page_ref p 1 ?m1"
    let ?w' = "(?w(p := \<lambda>_. 0))(f := (?w f)(i := ?e))"
    let ?m3 = "set_word (f, i) ?e (set_frame p (\<lambda>_. 0) ?m2)"
    have t: "tree_ok ?w R" using ok by (simp add: space_ok_def)
    have pF: "p < npage - nbase" "p \<notin> R" "p \<notin> kids ?w R" "p \<notin> data ?w R"
      using ok some(2) by (auto simp: space_ok_def)
    have f: "f \<in> R \<union> kids ?w R" using s dirs_kids [of ?w R] by (auto simp: slots_def)
    then have fp: "f \<noteq> p" using pF by auto
    have "take_bit 10 (PTE_U OR PTE_V) = PTE_U OR PTE_V" by (simp add: PTE_U_def PTE_V_def)
    note e = pte_create [OF pF(1) this]
    note nt = new_table [OF t s False pF(2,3) e]
    have w3: "words ?m3 = ?w'" using fp by (auto simp: fun_eq_iff)
    have ok1: "space_ok inv ex R (F - {p}) ?m1"
      using space_ok_alloc [OF ok some(2,3,4,6)] by blast
    have ok2: "space_ok inv ex R (F - {p}) ?m2"
      using space_ok_ref [OF ok1, of p 0 1] pF(4) ex [OF some(2)] by (simp add: fun_upd_idem)
    have mp: "mapped ?w' R q = mapped ?w R q" "data ?w' R = data ?w R" for q
      using mapped_pte_cong [OF nt(6)] data_pte_cong [OF nt(6)] by auto
    have pg: "pages (parea ?m3) q = pages (parea m) q" if "q \<notin> F" for q
      using that some(2,6) by (cases "q = p") auto
    have ok3: "space_ok inv ex R (F - {p}) ?m3"
      unfolding space_ok_def
    proof (intro conjI)
      show "inv (parea ?m3) (F - {p})" using ok2 by (simp add: space_ok_def)
      show "tree_ok (words ?m3) R" unfolding w3 by (rule nt(2))
      show "\<forall>q \<in> F - {p}. q < npage - nbase \<and> page_ref q ?m3 = 0" using ok2 by (simp add: space_ok_def)
      show "(R \<union> kids (words ?m3) R) \<inter> (F - {p}) = {}"
        unfolding w3 nt(1) using ok by (auto simp: space_ok_def)
      show "data (words ?m3) R \<inter> (R \<union> kids (words ?m3) R \<union> (F - {p})) = {}"
        unfolding w3 nt(1) mp using ok pF(4) by (auto simp: space_ok_def)
      show "\<forall>r \<in> R. \<forall>v < UPAGES. pte_valid (pte (words ?m3) r v) \<longrightarrow> frame_ok (pte (words ?m3) r v)"
        unfolding w3 using ok nt(6) by (simp add: space_ok_def)
      show "\<forall>q \<in> data (words ?m3) R \<union> {q. ex q \<noteq> 0}.
          page_ref q ?m3 = int (card (mapped (words ?m3) R q)) + ex q"
        unfolding w3 mp using ok2 by (simp add: space_ok_def)
      show "\<forall>q \<in> data (words ?m3) R \<union> kids (words ?m3) R. page_clean (pages (parea ?m3) q)"
        unfolding w3 mp nt(1) using ok2 some(5) by (auto simp: space_ok_def)
    qed
    have "pde_table alloc f i True m = Some (child (words ?m3) (f, i), ?m3)"
    proof -
      have "child (words ?m3) (f, i) = Some p" unfolding w3 by (rule nt(5))
      moreover have "pa2page (PTE_ADDR ?e) = Some p" using pa2page_ok [OF e(2)] e(3) by simp
      ultimately show ?thesis using nv some(1) fp by (simp add: pde_table_def Let_def)
    qed
    moreover have "grown inv ex R F m (F - {p}) ?m3"
    proof -
      have "child ?w' s' = Some x" if "s' \<in> slots ?w R" "child ?w s' = Some x" for s' x
        using nt(7) [OF that(1)] that False by (cases "s' = (f, i)") (auto simp: child_def)
      then show ?thesis
        unfolding grown_def w3 using ok3 nt(1,3,6) pg some(2) f by (auto simp: fun_eq_iff)
    qed
    moreover have "card F \<le> card (F - {p}) + 1"
      using some(2) space_ok_free_bound [OF ok] by (simp add: card_Suc_Diff1)
    moreover have "child (words ?m3) (f, i) \<noteq> None" unfolding w3 nt(5) by simp
    ultimately show ?thesis by (intro exI [of _ ?m3] exI [of _ "F - {p}"]) (simp only: simp_thms)
  qed
qed

text \<open>The whole creating walk: on failure there is no free frame left.\<close>

lemma get_pte_create:
  assumes ok: "space_ok inv ex R F m" and r: "r \<in> R" and v: "v < UPAGES"
    and room: "2 \<le> card F \<or> \<not> swap_init_ok m" and ex: "\<And>p. p \<in> F \<Longrightarrow> ex p = 0"
  shows "\<exists>m' F'. get_pte alloc r (va v) True m = Some (leaf (words m') r v, m') \<and>
    grown inv ex R F m F' m' \<and> card F \<le> card F' + 2 \<and> (leaf (words m') r v = None \<longrightarrow> F' = {})"
proof -
  let ?i = "v div 0x40000" and ?j = "v div 512 mod 512"
  have s1: "(r, ?i) \<in> slots (words m) R" using r user_index [OF v] by (simp add: slots_def)
  have room0: "F \<noteq> {} \<or> \<not> swap_init_ok m" using room by auto
  obtain m1 F1 where
    1: "pde_table alloc r ?i True m = Some (child (words m1) (r, ?i), m1)"
    and g1: "grown inv ex R F m F1 m1" and c1: "card F \<le> card F1 + 1"
    and n1: "child (words m1) (r, ?i) = None \<longrightarrow> F = {}"
    using pde_table_create [OF ok s1 room0 ex] by metis
  show ?thesis
  proof (cases "child (words m1) (r, ?i)")
    case None
    then have "F1 = {}" using n1 grownD(2) [OF g1] by simp
    moreover have "leaf (words m1) r v = None" using None by (simp add: leaf_def)
    moreover from this have "get_pte alloc r (va v) True m = Some (leaf (words m1) r v, m1)"
      using 1 None index_va [OF v] by (simp add: get_pte_def)
    moreover have "card F \<le> card F1 + 2" using c1 by simp
    ultimately show ?thesis using g1 by (intro exI [of _ m1] exI [of _ F1] conjI impI) simp_all
  next
    case (Some d)
    have ok1: "space_ok inv ex R F1 m1" and sw: "swap_init_ok m1 = swap_init_ok m"
      and sub: "F1 \<subseteq> F" using grownD [OF g1] by blast+
    have "d \<in> dirs (words m1) R" using Some r user_index [OF v] by (auto simp: dirs_def)
    then have s2: "(d, ?j) \<in> slots (words m1) R" by (simp add: slots_def)
    have room1: "F1 \<noteq> {} \<or> \<not> swap_init_ok m1" using room c1 sw by auto
    have ex1: "\<And>p. p \<in> F1 \<Longrightarrow> ex p = 0" using ex sub by blast
    obtain m2 F2 where
      2: "pde_table alloc d ?j True m1 = Some (child (words m2) (d, ?j), m2)"
      and g2: "grown inv ex R F1 m1 F2 m2" and c2: "card F1 \<le> card F2 + 1"
      and n2: "child (words m2) (d, ?j) = None \<longrightarrow> F1 = {}"
      using pde_table_create [OF ok1 s2 room1 ex1] by metis
    have "(r, ?i) \<in> slots (words m1) R" using s1 grownD(4) [OF g1] by blast
    then have "child (words m2) (r, ?i) = Some d" using grownD(5) [OF g2] Some by blast
    then have l: "leaf (words m2) r v = map_option (\<lambda>t. (t, v mod 512)) (child (words m2) (d, ?j))"
      by (simp add: leaf_def)
    have g: "grown inv ex R F m F2 m2" by (rule grown_trans [OF g1 g2])
    have "leaf (words m2) r v = None \<longrightarrow> F2 = {}" using l n2 grownD(2) [OF g2] by auto
    moreover have "get_pte alloc r (va v) True m = Some (leaf (words m2) r v, m2)"
      using 1 2 Some l index_va [OF v] by (simp add: get_pte_def)
    moreover have "card F \<le> card F2 + 2" using c1 c2 by simp
    ultimately show ?thesis using g by (intro exI [of _ m2] exI [of _ F2] conjI)
  qed
qed

text \<open>Clearing a valid entry.\<close>

text \<open>Clearing an entry: the frame it maps loses one reference, and is given back when that was the last.\<close>

lemma unlink_entry:
  assumes ok: "space_ok inv ex R F m" and l: "leaf (words m) r v = Some (t, k)" and r: "r \<in> R" and v: "v < UPAGES"
    and val: "pte_valid (pte (words m) r v)"
    and p: "p = pte_frame (pte (words m) r v)" and exp: "ex p = 0" and e: "\<not> pte_valid e"
    and m': "words m' = (words m)(t := (words m t)(k := e))" "swap_init_ok m' = swap_init_ok m" "inv (parea m') F'"
    and n: "n = card (mapped (words m) R p)"
    and F': "F' = F \<union> (if n = 1 then {p} else {})"
    and pg: "\<And>x. x \<notin> F \<union> {p} \<Longrightarrow> pages (parea m') x = pages (parea m) x"
    and rf: "\<And>x. x \<noteq> p \<Longrightarrow> page_ref x m' = page_ref x m" "page_ref p m' = int n - 1"
    and cl: "n \<noteq> 1 \<Longrightarrow> page_clean (pages (parea m') p)"
  shows "shrunk inv ex R F m F' m' \<and> (\<forall>r' \<in> R. \<forall>v' < UPAGES.
    pte (words m') r' v' = (if r' = r \<and> v' = v then e else pte (words m) r' v'))"
proof -
  let ?w = "words m"
  note o = ok [unfolded space_ok_def]
  have tr: "tree_ok ?w R" using o by blast
  have fin: "finite (mapped ?w R x)" for x using tr by (intro mapped_finite) (simp add: tree_ok_def)
  have fo: "frame_ok (pte ?w r v)" using o r v val by blast
  have rv: "(r, v) \<in> mapped ?w R p" using r v val p by (simp add: mapped_def)
  then have pd: "p \<in> data ?w R" by (auto simp: data_mapped)
  have pn: "p \<notin> F" "p \<notin> R \<union> kids ?w R" using o pd by blast+
  have n0: "0 < n" using rv fin [of p] card_gt_0_iff [of "mapped ?w R p"] n by blast
  define w' where "w' = ?w(t := (?w t)(k := e))"
  note sl = set_leaf [OF tr l r v, where e = e, folded w'_def]
  note m1 = m'(1) [folded w'_def]
  have mp: "mapped w' R x = mapped ?w R x - {(r, v)}" for x
    using mapped_change [OF r v sl(5), of x] e by simp
  have mpo: "mapped w' R x = mapped ?w R x" if "x \<noteq> p" for x
    using mp [of x] that p by (auto simp: mapped_def)
  have dw: "data w' R = data ?w R - (if n = 1 then {p} else {})"
  proof -
    have "x \<in> data w' R \<longleftrightarrow> x \<in> data ?w R - (if n = 1 then {p} else {})" for x
    proof (cases "x = p")
      case True
      have c: "card (mapped w' R p) = n - 1" unfolding mp n using card_Diff_singleton [OF rv] by simp
      have f: "finite (mapped w' R p)" unfolding mp using fin by simp
      have "mapped w' R p = {} \<longleftrightarrow> n = 1"
        using c n0 card_0_eq [OF f] by auto
      then show ?thesis using True pd by (auto simp: data_mapped)
    next
      case False
      then show ?thesis using mpo [of x] by (simp add: data_mapped)
    qed
    then show ?thesis by blast
  qed
  have pt: "pte (words m') r' v' = (if r' = r \<and> v' = v then e else pte ?w r' v')" if "r' \<in> R" "v' < UPAGES" for r' v'
    unfolding m1 using sl(5) that by blast
  have fok: "\<forall>r' \<in> R. \<forall>v' < UPAGES. pte_valid (pte w' r' v') \<longrightarrow> frame_ok (pte w' r' v')"
    using sl(5) o e by simp
  have wk: "words m x = w' x" if "x \<notin> kids ?w R" for x
    using that leaf_table(1) [OF tr l r v] by (auto simp: w'_def)
  have plt: "p < npage - nbase" using fo p by (auto simp: frame_ok_def pte_frame_def)
  have ok': "space_ok inv ex R F' m'"
    unfolding space_ok_def m1
  proof (intro conjI)
    show "inv (parea m') F'" by (rule m'(3))
    show "tree_ok w' R" by (rule sl(3))
    show "\<forall>q \<in> F'. q < npage - nbase \<and> page_ref q m' = 0"
    proof
      fix x assume x: "x \<in> F'"
      show "x < npage - nbase \<and> page_ref x m' = 0"
      proof (cases "x = p")
        case True
        then have "n = 1" using x F' pn(1) by (auto split: if_splits)
        then show ?thesis using True plt rf(2) by simp
      next
        case False
        then have "x \<in> F" using x F' by (auto split: if_splits)
        then show ?thesis using o rf(1) [OF False] by simp
      qed
    qed
    show "(R \<union> kids w' R) \<inter> F' = {}" unfolding sl(2) F' using o pn(2) by (auto split: if_splits)
    show "data w' R \<inter> (R \<union> kids w' R \<union> F') = {}" unfolding sl(2) F' dw using o by (auto split: if_splits)
    show "\<forall>r \<in> R. \<forall>v < UPAGES. pte_valid (pte w' r v) \<longrightarrow> frame_ok (pte w' r v)" by (rule fok)
    show "\<forall>x \<in> data w' R \<union> {x. ex x \<noteq> 0}. page_ref x m' = int (card (mapped w' R x)) + ex x"
    proof
      fix x assume x: "x \<in> data w' R \<union> {x. ex x \<noteq> 0}"
      show "page_ref x m' = int (card (mapped w' R x)) + ex x"
      proof (cases "x = p")
        case True
        have "card (mapped w' R p) = n - 1" unfolding mp using card_Diff_singleton [OF rv] n by simp
        then show ?thesis using True rf(2) exp n0 by simp
      next
        case False
        then have "x \<in> data ?w R \<union> {x. ex x \<noteq> 0}" using x dw by auto
        then have "page_ref x m = int (card (mapped ?w R x)) + ex x" using o by blast
        then show ?thesis using rf(1) [OF False] mpo [OF False] by simp
      qed
    qed
    show "\<forall>x \<in> data w' R \<union> kids w' R. page_clean (pages (parea m') x)"
    proof
      fix x assume x: "x \<in> data w' R \<union> kids w' R"
      show "page_clean (pages (parea m') x)"
      proof (cases "x = p")
        case True
        then have "n \<noteq> 1" using x dw sl(2) pn(2) by auto
        then show ?thesis using cl True by simp
      next
        case False
        have x': "x \<in> data ?w R \<union> kids ?w R" using x dw sl(2) by auto
        then have "x \<notin> F" "page_clean (pages (parea m) x)" using o by blast+
        then show ?thesis using pg [of x] False by simp
      qed
    qed
  qed
  have "F' = F \<union> (data ?w R - data w' R)" unfolding F' dw using pd by auto
  moreover have "pages (parea m') x = pages (parea m) x" if "x \<notin> F \<union> data ?w R" for x
    using pg [of x] that pd by blast
  moreover have "data w' R \<subseteq> data ?w R" unfolding dw by blast
  ultimately have "shrunk inv ex R F m F' m'"
    unfolding shrunk_def m1 using ok' m'(2) sl(2,4) wk by (intro conjI) (auto simp: m1)
  then show ?thesis using pt by blast
qed

lemma unlink_page:
  assumes ok: "space_ok inv ex R F m" and l: "leaf (words m) r v = Some q" and r: "r \<in> R" and v: "v < UPAGES"
    and val: "pte_valid (pte (words m) r v)"
    and p: "p = pte_frame (pte (words m) r v)" and exp: "ex p = 0" and top: "not_at_end F p"
  shows "\<exists>m' F'. page_remove_pte free q m = Some m' \<and> shrunk inv ex R F m F' m' \<and>
    (\<forall>r' \<in> R. \<forall>v' < UPAGES. pte (words m') r' v' = (if r' = r \<and> v' = v then 0 else pte (words m) r' v'))"
proof -
  let ?w = "words m"
  obtain t k where q: "q = (t, k)" by (cases q)
  note l' = l [unfolded q]
  note o = ok [unfolded space_ok_def]
  have fin: "finite (mapped ?w R x)" for x using o by (intro mapped_finite) (simp add: tree_ok_def)
  have rd: "read_pte q m = pte ?w r v" by (rule read_leaf [OF l])
  have fo: "frame_ok (pte ?w r v)" using o r v val by blast
  have rv: "(r, v) \<in> mapped ?w R p" using r v val p by (simp add: mapped_def)
  then have pd: "p \<in> data ?w R" by (auto simp: data_mapped)
  have pn: "p \<notin> F" "page_clean (pages (parea m) p)" using o pd by blast+
  let ?n = "card (mapped ?w R p)"
  have ref: "page_ref p m = int ?n" using o pd exp by simp
  define m1 where "m1 = page_ref_dec p m"
  have m1: "words m1 = ?w" "swap_init_ok m1 = swap_init_ok m" "page_ref p m1 = int ?n - 1"
    "\<And>x. x \<noteq> p \<Longrightarrow> pages (parea m1) x = pages (parea m) x" "page_clean (pages (parea m1) p)"
    using ref pn(2) by (simp_all add: m1_def page_ref_dec_def)
  have m1r: "page_ref x m1 = page_ref x m" if "x \<noteq> p" for x using m1(4) [OF that] by (simp add: page_ref_def)
  have i1: "inv (parea m1) F"
  proof (rule inv_cong [of "parea m" F])
    show "inv (parea m) F" using o by blast
    show "\<forall>x \<in> F. pages (parea m1) x = pages (parea m) x" using m1(4) pn(1) by metis
  qed (simp_all add: m1_def page_ref_dec_def)
  have e: "\<not> pte_valid 0" by simp
  note fin_step = unlink_entry [OF ok l' r v val p exp e]
  have rem: "page_remove_pte free q m = do {
      m2 \<leftarrow> (if page_ref p m1 = 0 then free_pages free p 1 m1 else Some m1);
      Some (set_word q 0 m2) }"
    using val rd pte2page_ok [OF val fo] p by (simp add: page_remove_pte_def pte_valid_def m1_def)
  show ?thesis
  proof (cases "?n = 1")
    case True
    have "releasable (parea m1) F p 1" using pn(1) m1(5) top by (simp add: releasable_def)
    from free_returns [OF i1 this] obtain a where a: "free p 1 (parea m1) = Some a" "inv a (F \<union> {p..<p + 1})"
      "\<And>x. x \<notin> F \<union> {p..<p + 1} \<Longrightarrow> pages a x = pages (parea m1) x" by blast
    have pp: "{p..<p + 1} = {p}" by auto
    let ?m' = "set_word q 0 (m1\<lparr>parea := a\<rparr>)"
    have "page_remove_pte free q m = Some ?m'"
      using rem True m1(3) a(1) by (simp add: free_pages_def)
    moreover have "shrunk inv ex R F m (F \<union> {p}) ?m' \<and> (\<forall>r' \<in> R. \<forall>v' < UPAGES.
        pte (words ?m') r' v' = (if r' = r \<and> v' = v then 0 else pte ?w r' v'))"
    proof (rule fin_step [OF _ _ _ refl])
      show "words ?m' = ?w(t := (?w t)(k := 0))" unfolding q using m1(1) by simp
      show "swap_init_ok ?m' = swap_init_ok m" using m1(2) by simp
      show "inv (parea ?m') (F \<union> {p})" using a(2) pp by simp
      show "F \<union> {p} = F \<union> (if ?n = 1 then {p} else {})" using True by simp
      show "pages (parea ?m') x = pages (parea m) x" if "x \<notin> F \<union> {p}" for x
        using a(3) [of x] m1(4) [of x] that pp by simp
      show "page_ref x ?m' = page_ref x m" if "x \<noteq> p" for x
        using free_ref [OF a(1), of x] m1r [OF that] that by (simp add: page_ref_def)
      show "page_ref p ?m' = int ?n - 1" using free_ref [OF a(1), of p] True by (simp add: page_ref_def)
    qed (use True in simp)
    ultimately show ?thesis by blast
  next
    case False
    let ?m' = "set_word q 0 m1"
    have "page_remove_pte free q m = Some ?m'" using rem False m1(3) by simp
    moreover have "shrunk inv ex R F m F ?m' \<and> (\<forall>r' \<in> R. \<forall>v' < UPAGES.
        pte (words ?m') r' v' = (if r' = r \<and> v' = v then 0 else pte ?w r' v'))"
    proof (rule fin_step [OF _ _ _ refl])
      show "words ?m' = ?w(t := (?w t)(k := 0))" unfolding q using m1(1) by simp
      show "swap_init_ok ?m' = swap_init_ok m" using m1(2) by simp
      show "inv (parea ?m') F" using i1 by simp
      show "F = F \<union> (if ?n = 1 then {p} else {})" using False by simp
      show "pages (parea ?m') x = pages (parea m) x" if "x \<notin> F \<union> {p}" for x using m1(4) [of x] that by simp
      show "page_ref x ?m' = page_ref x m" if "x \<noteq> p" for x using m1r [OF that] by simp
      show "page_ref p ?m' = int ?n - 1" using m1(3) by simp
      show "page_clean (pages (parea ?m') p)" using m1(5) by simp
    qed
    ultimately show ?thesis by blast
  qed
qed

text \<open>Filling an entry that maps nothing, with a reference taken before.\<close>

lemma link_page:
  assumes ok: "space_ok inv (ex(p := 1)) R F m" and l: "leaf (words m) r v = Some q" and r: "r \<in> R" and v: "v < UPAGES"
    and val: "\<not> pte_valid (pte (words m) r v)" and exp: "ex p = 0"
    and e: "pte_valid e" "frame_ok e" "pte_frame e = p"
    and p: "p \<notin> R \<union> kids (words m) R \<union> F" "page_clean (pages (parea m) p)"
  shows "space_ok inv ex R F (set_word q e m)" "kids (words (set_word q e m)) R = kids (words m) R"
    "data (words (set_word q e m)) R = insert p (data (words m) R)"
    "\<And>r' v'. r' \<in> R \<Longrightarrow> v' < UPAGES \<Longrightarrow> leaf (words (set_word q e m)) r' v' = leaf (words m) r' v'"
    "\<And>r' v'. r' \<in> R \<Longrightarrow> v' < UPAGES \<Longrightarrow>
      pte (words (set_word q e m)) r' v' = (if r' = r \<and> v' = v then e else pte (words m) r' v')"
proof -
  let ?w = "words m"
  obtain t k where q: "q = (t, k)" by (cases q)
  note l' = l [unfolded q]
  note o = ok [unfolded space_ok_def]
  have tr: "tree_ok ?w R" using o by blast
  have fin: "finite (mapped ?w R x)" for x using tr by (intro mapped_finite) (simp add: tree_ok_def)
  define w' where "w' = ?w(t := (?w t)(k := e))"
  have w': "words (set_word q e m) = w'" unfolding q w'_def by simp
  note sl = set_leaf [OF tr l' r v, where e = e, folded w'_def]
  have rv: "(r, v) \<notin> mapped ?w R x" for x using val by (simp add: mapped_def)
  have mp: "mapped w' R x = mapped ?w R x \<union> (if x = p then {(r, v)} else {})" for x
    using mapped_change [OF r v sl(5), of x] rv [of x] e by auto
  have dw: "data w' R = insert p (data ?w R)" unfolding data_def mp by auto
  show "kids (words (set_word q e m)) R = kids ?w R" unfolding w' by (rule sl(2))
  show "data (words (set_word q e m)) R = insert p (data ?w R)" unfolding w' by (rule dw)
  show "\<And>r' v'. r' \<in> R \<Longrightarrow> v' < UPAGES \<Longrightarrow> leaf (words (set_word q e m)) r' v' = leaf ?w r' v'"
    unfolding w' by (rule sl(4))
  show pt: "\<And>r' v'. r' \<in> R \<Longrightarrow> v' < UPAGES \<Longrightarrow>
      pte (words (set_word q e m)) r' v' = (if r' = r \<and> v' = v then e else pte ?w r' v')"
    unfolding w' by (rule sl(5))
  show "space_ok inv ex R F (set_word q e m)"
    unfolding space_ok_def w'
  proof (intro conjI)
    show "inv (parea (set_word q e m)) F" using o by simp
    show "tree_ok w' R" by (rule sl(3))
    show "\<forall>x \<in> F. x < npage - nbase \<and> page_ref x (set_word q e m) = 0" using o by simp
    show "(R \<union> kids w' R) \<inter> F = {}" unfolding sl(2) using o by blast
    show "data w' R \<inter> (R \<union> kids w' R \<union> F) = {}" unfolding sl(2) dw using o p(1) by blast
    show "\<forall>r \<in> R. \<forall>v < UPAGES. pte_valid (pte w' r v) \<longrightarrow> frame_ok (pte w' r v)"
      using o e sl(5) by simp
    show "\<forall>x \<in> data w' R \<union> {x. ex x \<noteq> 0}. page_ref x (set_word q e m) = int (card (mapped w' R x)) + ex x"
    proof
      fix x assume x: "x \<in> data w' R \<union> {x. ex x \<noteq> 0}"
      show "page_ref x (set_word q e m) = int (card (mapped w' R x)) + ex x"
      proof (cases "x = p")
        case True
        have "page_ref p m = int (card (mapped ?w R p)) + 1" using o by simp
        moreover have "card (mapped w' R p) = card (mapped ?w R p) + 1"
          unfolding mp using card_insert_disjoint [OF fin [of p] rv] by simp
        ultimately show ?thesis using True exp by simp
      next
        case False
        then have "x \<in> data ?w R \<union> {x. (ex(p := 1)) x \<noteq> 0}" using x dw by auto
        then have "page_ref x m = int (card (mapped ?w R x)) + (ex(p := 1)) x" using o by blast
        then show ?thesis using False mp [of x] by simp
      qed
    qed
    show "\<forall>x \<in> data w' R \<union> kids w' R. page_clean (pages (parea (set_word q e m)) x)"
      unfolding sl(2) dw using o p(2) by simp
  qed
qed

lemma get_pte_present:
  assumes t: "tree_ok (words m) R" and r: "r \<in> R" and v: "v < UPAGES" and l: "leaf (words m) r v = Some q"
  shows "get_pte al r (va v) c m = Some (Some q, m)"
proof -
  obtain d t' where dt: "child (words m) (r, v div 0x40000) = Some d" "child (words m) (d, v div 512 mod 512) = Some t'"
    "q = (t', v mod 512)" "(r, v div 0x40000) \<in> slots (words m) R" "(d, v div 512 mod 512) \<in> slots (words m) R"
    using leafE [OF l r v] by metis
  have "pde_table al f i c m = Some (Some x, m)" if "child (words m) (f, i) = Some x" "(f, i) \<in> slots (words m) R" for f i x
    using that t pde_table_present [of m f i al c] by (auto simp: child_def tree_ok_def split: if_splits)
  then show ?thesis using dt index_va [OF v] by (simp add: get_pte_def)
qed

text \<open>\<open>page_insert\<close> where nothing was mapped.\<close>

lemma page_insert_new:
  assumes ok: "space_ok inv (\<lambda>_. 0) R F m" and r: "r \<in> R" and v: "v < UPAGES"
    and val: "\<not> pte_valid (pte (words m) r v)" and room: "2 \<le> card F \<or> \<not> swap_init_ok m \<or> leaf (words m) r v \<noteq> None"
    and p: "p \<notin> R \<union> kids (words m) R \<union> F" "p < npage - nbase" "page_clean (pages (parea m) p)"
    and pr: "p \<in> data (words m) R \<or> page_ref p m = 0" and perm: "take_bit 10 perm = perm"
  shows "\<exists>ret m' F'. page_insert alloc free r p (va v) perm m = Some (ret, m') \<and>
    space_ok inv (\<lambda>_. 0) R F' m' \<and> F' \<subseteq> F \<and> card F \<le> card F' + 2 \<and> swap_init_ok m' = swap_init_ok m \<and>
    kids (words m') R = kids (words m) R \<union> (F - F') \<and>
    (\<forall>x. x \<notin> R \<union> kids (words m) R \<union> F \<longrightarrow> words m' x = words m x) \<and>
    (\<forall>x. x \<notin> F \<union> {p} \<longrightarrow> pages (parea m') x = pages (parea m) x) \<and>
    (leaf (words m) r v \<noteq> None \<longrightarrow> ret = 0 \<and> F' = F) \<and>
    (if ret = 0 then (\<forall>r' \<in> R. \<forall>v' < UPAGES. pte (words m') r' v' =
         (if r' = r \<and> v' = v then pte_create (page2ppn p) (PTE_V OR perm) else pte (words m) r' v'))
     else ret = - E_NO_MEM \<and> F' = {} \<and> (\<forall>r' \<in> R. \<forall>v' < UPAGES. pte (words m') r' v' = pte (words m) r' v'))"
proof -
  obtain m1 F1 where
    g: "get_pte alloc r (va v) True m = Some (leaf (words m1) r v, m1)" and gr: "grown inv (\<lambda>_. 0) R F m F1 m1"
    and c: "card F \<le> card F1 + 2" and n: "leaf (words m1) r v = None \<longrightarrow> F1 = {}"
    and pre: "leaf (words m) r v \<noteq> None \<longrightarrow> m1 = m \<and> F1 = F"
  proof (cases "leaf (words m) r v")
    case None
    then show ?thesis using get_pte_create [OF ok r v] room that by metis
  next
    case (Some q)
    have "tree_ok (words m) R" using ok by (simp add: space_ok_def)
    from get_pte_present [OF this r v Some] show ?thesis
      using that [of m F] grown_refl [OF ok] Some by simp
  qed
  note d = grownD [OF gr]
  show ?thesis
  proof (cases "leaf (words m1) r v")
    case None
    have "page_insert alloc free r p (va v) perm m = Some (- E_NO_MEM, m1)"
      using g None by (simp add: page_insert_def)
    moreover have "- E_NO_MEM \<noteq> 0" by (simp add: E_NO_MEM_def)
    moreover have "leaf (words m) r v = None" using pre None by metis
    ultimately show ?thesis
      using d(1-3,6-9) c n None by (intro exI [of _ "- E_NO_MEM"] exI [of _ m1] exI [of _ F1]) simp
  next
    case (Some q)
    let ?m2 = "page_ref_inc p m1"
    let ?e = "pte_create (page2ppn p) (PTE_V OR perm)"
    have "take_bit 10 (PTE_V OR perm) = PTE_V OR perm"
      using perm by (simp add: PTE_V_def take_bit_or)
    note e = pte_create [OF p(2) this]
    have p1: "p \<notin> R \<union> kids (words m1) R \<union> F1" using p(1) d(2) unfolding d(3) by blast
    have pF: "p \<notin> F" using p(1) by blast
    have pg1: "pages (parea m1) p = pages (parea m) p" by (rule d(8) [OF pF])
    have dm: "data (words m1) R = data (words m) R" "mapped (words m1) R p = mapped (words m) R p"
      using data_pte_cong [OF d(6)] mapped_pte_cong [OF d(6)] by auto
    have ref: "page_ref p m1 = int (card (mapped (words m1) R p))"
    proof (cases "p \<in> data (words m) R")
      case True
      then show ?thesis using d(1) dm(1) by (simp add: space_ok_def)
    next
      case False
      then have "page_ref p m1 = 0" using pr pg1 by (simp add: page_ref_def)
      moreover have "mapped (words m1) R p = {}" using False dm by (simp add: data_mapped)
      ultimately show ?thesis by simp
    qed
    have ok2: "space_ok inv ((\<lambda>_. 0)(p := 1)) R F1 ?m2"
      unfolding page_ref_inc_def by (rule space_ok_ref [OF d(1)]) (use p1 ref in auto)
    have w2: "words ?m2 = words m1" by (simp add: page_ref_inc_def)
    have v1: "\<not> pte_valid (pte (words m1) r v)" using val d(6) [OF r v] by simp
    have cl: "page_clean (pages (parea ?m2) p)" using p(3) pg1 by (simp add: page_ref_inc_def)
    note lp = link_page [OF ok2 _ r v _ _ e _ cl, of q, unfolded w2, OF Some v1 _ p1]
    have rd: "read_pte q ?m2 = pte (words m1) r v" using read_leaf [of ?m2 r v q] Some w2 by simp
    have res: "page_insert alloc free r p (va v) perm m = Some (0, set_word q ?e ?m2)"
      using g Some rd v1 by (simp add: page_insert_def pte_valid_def)
    have w: "words (set_word q ?e ?m2) x = words m x" if "x \<notin> R \<union> kids (words m) R \<union> F" for x
    proof -
      obtain t k where q: "q = (t, k)" by (cases q)
      have "t \<in> kids (words m1) R"
        using leaf_table(1) [OF _ Some [unfolded q] r v] d(1) by (simp add: space_ok_def)
      then have "x \<noteq> t" using that d(3) by blast
      then show ?thesis using d(7) [OF that] w2 q by simp
    qed
    have pg: "pages (parea (set_word q ?e ?m2)) x = pages (parea m) x" if "x \<notin> F \<union> {p}" for x
      using d(8) [of x] that by (simp add: page_ref_inc_def)
    have pt: "\<forall>r' \<in> R. \<forall>v' < UPAGES. pte (words (set_word q ?e ?m2)) r' v' =
         (if r' = r \<and> v' = v then ?e else pte (words m) r' v')"
      using lp(5) d(6) by simp
    have sw: "swap_init_ok (set_word q ?e ?m2) = swap_init_ok m" using d(9) by (simp add: page_ref_inc_def)
    have k: "kids (words (set_word q ?e ?m2)) R = kids (words m) R \<union> (F - F1)" using lp(2) d(3) by simp
    show ?thesis
      by (intro exI [of _ "0::int"] exI [of _ "set_word q ?e ?m2"] exI [of _ F1] conjI res lp(1) d(2) c sw k)
        (use w pg pt pre in \<open>simp_all only: simp_thms if_True, blast+\<close>)
  qed
qed

section \<open>Ranges\<close>

text \<open>\<open>unmap_loop\<close> returns, clears every valid entry of the range and leaves all others.\<close>

lemma unmap_loop_ok:
  assumes "space_ok inv (\<lambda>_. 0) R F m" and "r \<in> R" and "v < w" and "w \<le> UPAGES"
    and "y \<in> F" and "\<forall>x \<in> data (words m) R. x < y"
  shows "\<exists>m' F'. unmap_loop alloc free r (va v) (va w) m = Some m' \<and> shrunk inv (\<lambda>_. 0) R F m F' m' \<and>
    (\<forall>r' \<in> R. \<forall>u < UPAGES. pte (words m') r' u =
       (if r' = r \<and> v \<le> u \<and> u < w \<and> pte_valid (pte (words m) r u) then 0 else pte (words m) r' u))"
  using assms(1,3,5,6)
proof (induction "w - v" arbitrary: v m F rule: less_induct)
  case less
  note ok = less.prems(1) and top = less.prems(3,4)
  have v: "v < UPAGES" using less.prems(2) assms(4) by simp
  have tr: "tree_ok (words m) R" using ok by (simp add: space_ok_def)
  have walk: "get_pte alloc r (va v) False m = Some (leaf (words m) r v, m)"
    by (rule get_pte_walk [OF tr assms(2) v])
  \<comment> \<open>one round: the page at \<open>v\<close> is done, and the next address is that of page \<open>n\<close>\<close>
  obtain n m1 F1 where n: "v < n" "n \<le> UPAGES"
    and nx: "(if leaf (words m) r v = None then ROUNDDOWN (va v + PTSIZE) PTSIZE else va v + PGSIZE) = va n"
    and st: "(case leaf (words m) r v of None \<Rightarrow> Some m
       | Some q \<Rightarrow> if read_pte q m \<noteq> 0 then page_remove_pte free q m else Some m) = Some m1"
    and sh: "shrunk inv (\<lambda>_. 0) R F m F1 m1"
    and pt: "\<And>r' u. r' \<in> R \<Longrightarrow> u < UPAGES \<Longrightarrow> pte (words m1) r' u =
       (if r' = r \<and> u = v \<and> pte_valid (pte (words m) r v) then 0 else pte (words m) r' u)"
    and gap: "\<And>u. v < u \<Longrightarrow> u < n \<Longrightarrow> pte (words m) r u = 0"
  proof (cases "leaf (words m) r v")
    case None
    let ?n = "(v div 512 + 1) * 512"
    have vn: "v < ?n" using dividend_less_div_times [of 512 v] by simp
    have "pte (words m) r u = 0" if "v < u" "u < ?n" for u
    proof -
      have "u div 512 < v div 512 + 1" using that(2) by (simp add: less_mult_imp_div_less)
      moreover have "v div 512 \<le> u div 512" using that(1) by (simp add: div_le_mono)
      ultimately have "u div 512 = v div 512" by simp
      then show ?thesis using leaf_None_block [OF None] by (simp add: pte_def)
    qed
    moreover have "\<not> pte_valid (pte (words m) r v)" using None by (simp add: pte_def)
    ultimately show ?thesis
      using that [of ?n m F] vn va_next(2,3) [OF v] None shrunk_refl [OF ok] by simp
  next
    case (Some q)
    have rd: "read_pte q m = pte (words m) r v" by (rule read_leaf [OF Some])
    have nx1: "va v + PGSIZE = va (v + 1)" by (rule va_next(1) [OF v])
    show ?thesis
    proof (cases "pte_valid (pte (words m) r v)")
      case True
      have "pte_frame (pte (words m) r v) \<in> data (words m) R" by (rule in_data [OF assms(2) v True])
      then have te: "not_at_end F (pte_frame (pte (words m) r v))" using top by (auto simp: not_at_end_def)
      from unlink_page [OF ok Some assms(2) v True refl refl te] obtain m1 F1 where
        1: "page_remove_pte free q m = Some m1" "shrunk inv (\<lambda>_. 0) R F m F1 m1"
        "\<forall>r' \<in> R. \<forall>u < UPAGES. pte (words m1) r' u = (if r' = r \<and> u = v then 0 else pte (words m) r' u)"
        by blast
      have "pte (words m) r v \<noteq> 0" using True by auto
      then show ?thesis using that [of "v + 1" m1 F1] 1 Some rd nx1 v True by simp
    next
      case False
      then have "page_remove_pte free q m = Some m" using rd by (simp add: page_remove_pte_def pte_valid_def)
      then show ?thesis using that [of "v + 1" m F] Some nx1 v False shrunk_refl [OF ok] by simp
    qed
  qed
  note sd = shrunkD [OF sh]
  have step: "unmap_loop alloc free r (va v) (va w) m =
      (if va n \<noteq> 0 \<and> va n < va w then unmap_loop alloc free r (va n) (va w) m1 else Some m1)"
    by (subst unmap_loop.simps) (simp only: walk bind.bind_lunit case_prod_conv nx st Let_def)
  have cont: "(va n \<noteq> 0 \<and> va n < va w) = (n < w)"
    using va_order [OF n(2) assms(4)] n(1) by simp
  show ?case
  proof (cases "n < w")
    case False
    have "pte (words m1) r' u = (if r' = r \<and> v \<le> u \<and> u < w \<and> pte_valid (pte (words m) r u) then 0
        else pte (words m) r' u)" if "r' \<in> R" "u < UPAGES" for r' u
      using pt [OF that] gap [of u] False less.prems(2) by (cases "u = v") auto
    then show ?thesis using step cont False sh by (intro exI [of _ m1] exI [of _ F1]) simp
  next
    case True
    have "y \<in> F1" using top(1) unfolding sd(4) by blast
    moreover have "\<forall>x \<in> data (words m1) R. x < y" using top(2) sd(3) by blast
    moreover have "w - n < w - v" using n(1) True by simp
    ultimately obtain m2 F2 where
      2: "unmap_loop alloc free r (va n) (va w) m1 = Some m2" "shrunk inv (\<lambda>_. 0) R F1 m1 F2 m2"
      "\<forall>r' \<in> R. \<forall>u < UPAGES. pte (words m2) r' u =
         (if r' = r \<and> n \<le> u \<and> u < w \<and> pte_valid (pte (words m1) r u) then 0 else pte (words m1) r' u)"
      using less.hyps [of n F1 m1] sd(1) True by metis
    have "pte (words m2) r' u = (if r' = r \<and> v \<le> u \<and> u < w \<and> pte_valid (pte (words m) r u) then 0
        else pte (words m) r' u)" if "r' \<in> R" "u < UPAGES" for r' u
    proof -
      have "pte (words m2) r' u = (if r' = r \<and> n \<le> u \<and> u < w \<and> pte_valid (pte (words m1) r u) then 0
          else pte (words m1) r' u)" using 2(3) that by blast
      moreover have "pte (words m1) r u = (if u = v \<and> pte_valid (pte (words m) r v) then 0 else pte (words m) r u)"
        using pt [OF assms(2) that(2)] by simp
      ultimately show ?thesis
        using pt [OF that] gap [of u] n(1) less.prems(2) by (cases "u = v"; cases "u < n"; cases "r' = r") auto
    qed
    moreover have "shrunk inv (\<lambda>_. 0) R F m F2 m2" by (rule shrunk_trans [OF sh 2(2)])
    ultimately show ?thesis using step cont True 2(1) by (intro exI [of _ m2] exI [of _ F2]) simp
  qed
qed

text \<open>One page of \<open>copy_range\<close>.\<close>

lemma copy_page_ok:
  assumes ok: "space_ok inv (\<lambda>_. 0) R F m" and to: "to \<in> R" and frm: "frm \<in> R" and v: "v < UPAGES"
    and l: "leaf (words m) frm v = Some q" and val: "pte_valid (pte (words m) frm v)"
    and free: "\<not> pte_valid (pte (words m) to v)" and room: "3 \<le> card F"
  shows "\<exists>m' F' np. copy_page alloc free to (va v) q m = Some (0, m') \<and>
    space_ok inv (\<lambda>_. 0) R F' m' \<and> F' \<subseteq> F \<and> card F \<le> card F' + 3 \<and>
    np \<in> F \<and> np \<notin> F' \<and> mapped (words m') R np = {(to, v)} \<and>
    words m' np = words m (pte_frame (pte (words m) frm v)) \<and> kids (words m') R \<subseteq> kids (words m) R \<union> (F - F') \<and>
    (\<forall>x. x \<notin> R \<union> kids (words m) R \<union> F \<longrightarrow> words m' x = words m x) \<and>
    pte (words m') to v AND PTE_USER = pte (words m) frm v AND PTE_USER \<and> pte_valid (pte (words m') to v) \<and>
    pte_frame (pte (words m') to v) = np \<and>
    (\<forall>r' \<in> R. \<forall>u < UPAGES. \<not> (r' = to \<and> u = v) \<longrightarrow> pte (words m') r' u = pte (words m) r' u)"
proof -
  let ?e = "pte (words m) frm v"
  let ?p = "pte_frame ?e"
  have room2: "2 \<le> card F \<or> \<not> swap_init_ok m" using room by simp
  obtain m1 F1 where g: "get_pte alloc to (va v) True m = Some (leaf (words m1) to v, m1)"
    and gr: "grown inv (\<lambda>_. 0) R F m F1 m1" and c: "card F \<le> card F1 + 2"
    and n: "leaf (words m1) to v = None \<longrightarrow> F1 = {}"
    using get_pte_create [OF ok to v room2] by metis
  note d = grownD [OF gr]
  have F1: "F1 \<noteq> {}" using c room by auto
  then obtain nq where nq: "leaf (words m1) to v = Some nq" using n by auto
  have lf: "leaf (words m1) frm v = Some q" by (rule grown_leaf [OF gr l frm v])
  have rd: "read_pte q m1 = ?e" using read_leaf [OF lf] d(6) [OF frm v] by simp
  have fo: "frame_ok ?e" using ok frm v val by (simp add: space_ok_def)
  have pd: "?p \<in> data (words m) R" by (rule in_data [OF frm v val])
  then have pn: "?p \<notin> R \<union> kids (words m) R \<union> F" using ok by (auto simp: space_ok_def)
  have room1: "F1 \<noteq> {} \<or> \<not> swap_init_ok m1" using F1 by simp
  obtain np s where al: "alloc_pages alloc 1 m1 = Some (Some np, m1\<lparr>parea := s\<rparr>)" and np: "np \<in> F1"
    and i: "inv s (F1 - {np})" and rf: "\<And>q. ref (pages s q) = ref (pages (parea m1) q)"
    and cl: "page_clean (pages s np)" and pg: "\<And>q. q \<notin> F1 \<Longrightarrow> pages s q = pages (parea m1) q"
    using alloc_page [OF d(1) room1] F1 by metis
  let ?m2 = "m1\<lparr>parea := s\<rparr>" and ?F2 = "F1 - {np}"
  let ?m3 = "set_frame np (words ?m2 ?p) ?m2"
  have ok2: "space_ok inv (\<lambda>_. 0) R ?F2 ?m2" by (rule space_ok_alloc [OF d(1) np i rf pg])
  have npn: "np \<notin> R \<union> kids (words m1) R" "np \<notin> data (words m1) R" "np < npage - nbase" "page_ref np m1 = 0"
    using d(1) np by (auto simp: space_ok_def)
  have npk: "np \<notin> R \<union> kids (words ?m2) R" using npn(1) by simp
  note f3 = space_ok_frame [OF ok2 npk, where c = "words ?m2 ?p"]
  have v3: "\<not> pte_valid (pte (words ?m3) to v)" using f3(2) [OF to v] d(6) [OF to v] free by simp
  have l3: "leaf (words ?m3) to v \<noteq> None" using f3(3) [OF to v] nq by simp
  have np3: "np \<notin> R \<union> kids (words ?m3) R \<union> ?F2" unfolding f3(4) using npn(1) by simp
  have cl3: "page_clean (pages (parea ?m3) np)" using cl by simp
  have rf3: "page_ref np ?m3 = 0" using npn(4) rf [of np] by (simp add: page_ref_def)
  from page_insert_new [OF f3(1) to v v3 disjI2 [OF disjI2 [OF l3]] np3 npn(3) cl3 disjI2 [OF rf3] PTE_USER_bits [of ?e]]
  obtain ret m4 F4 where pi: "page_insert alloc free to np (va v) (?e AND PTE_USER) ?m3 = Some (ret, m4)"
    and ok4: "space_ok inv (\<lambda>_. 0) R F4 m4"
    and k4: "kids (words m4) R = kids (words ?m3) R \<union> (?F2 - F4)"
    and w4: "\<forall>x. x \<notin> R \<union> kids (words ?m3) R \<union> ?F2 \<longrightarrow> words m4 x = words ?m3 x"
    and r4: "ret = 0 \<and> F4 = ?F2" and pt4: "if ret = 0 then (\<forall>r' \<in> R. \<forall>u < UPAGES. pte (words m4) r' u =
         (if r' = to \<and> u = v then pte_create (page2ppn np) (PTE_V OR (?e AND PTE_USER)) else pte (words ?m3) r' u))
     else ret = - E_NO_MEM \<and> F4 = {} \<and> (\<forall>r' \<in> R. \<forall>u < UPAGES. pte (words m4) r' u = pte (words ?m3) r' u)"
    using l3 by blast
  have r0: "ret = 0" and F4: "F4 = ?F2" using r4 by blast+
  have pt: "pte (words m4) r' u =
      (if r' = to \<and> u = v then pte_create (page2ppn np) (PTE_V OR (?e AND PTE_USER)) else pte (words m) r' u)"
    if "r' \<in> R" "u < UPAGES" for r' u
    using pt4 that f3(2) [OF that] d(6) [OF that] r0 by simp
  have "take_bit 10 (PTE_V OR (?e AND PTE_USER)) = PTE_V OR (?e AND PTE_USER)"
    using PTE_USER_bits [of ?e] by (simp add: PTE_V_def)
  note e = pte_create [OF npn(3) this]
  have res: "copy_page alloc free to (va v) q m = Some (0, m4)"
    using g nq rd pte2page_ok [OF val fo] al pi r0 by (simp add: copy_page_def Let_def)
  have sub: "?F2 \<subseteq> F" using d(2) by blast
  have finF: "finite F" using space_ok_free_bound [OF ok] by blast
  have cF: "card F \<le> card ?F2 + 3"
    using c card_Suc_Diff1 [OF finite_subset [OF d(2) finF] np] by simp
  have mp: "mapped (words m4) R np = {(to, v)}"
  proof -
    have none: "\<not> (pte_valid (pte (words m) r' u) \<and> pte_frame (pte (words m) r' u) = np)" if "r' \<in> R" "u < UPAGES" for r' u
      using in_data [OF that, of "words m"] data_pte_cong [OF d(6)] npn(2) by auto
    have "x \<in> mapped (words m4) R np \<longleftrightarrow> x = (to, v)" for x
    proof (cases x)
      case (Pair r' u)
      then show ?thesis using pt [of r' u] none [of r' u] e to v by (auto simp: mapped_def split: if_splits)
    qed
    then show ?thesis by blast
  qed
  have wnp: "words m4 np = words m ?p"
  proof -
    have "words m4 np = words ?m3 np" using w4 np3 by blast
    also have "\<dots> = words m ?p" using d(7) [OF pn] by simp
    finally show ?thesis .
  qed
  have wx: "words m4 x = words m x" if "x \<notin> R \<union> kids (words m) R \<union> F" for x
  proof -
    have "x \<notin> R \<union> kids (words ?m3) R \<union> ?F2" "x \<noteq> np" using that d(2,3) f3(4) np by auto
    then have "words m4 x = words m1 x" using w4 by simp
    then show ?thesis using d(7) [OF that] by simp
  qed
  have kk: "kids (words m4) R \<subseteq> kids (words m) R \<union> (F - ?F2)"
    unfolding k4 f3(4) F4 using d(3) by auto
  have ptv: "pte (words m4) to v = pte_create (page2ppn np) (PTE_V OR (?e AND PTE_USER))" using pt [OF to v] by simp
  have "pte (words m4) to v AND PTE_USER = ?e AND PTE_USER" unfolding ptv by (rule pte_create_user [OF val])
  moreover have "pte_valid (pte (words m4) to v)" "pte_frame (pte (words m4) to v) = np" unfolding ptv by (rule e)+
  moreover have "\<forall>r' \<in> R. \<forall>u < UPAGES. \<not> (r' = to \<and> u = v) \<longrightarrow> pte (words m4) r' u = pte (words m) r' u"
    using pt by auto
  moreover have "np \<in> F" "np \<notin> ?F2" using np d(2) by blast+
  ultimately show ?thesis
    using res ok4 [unfolded F4] sub cF mp wnp wx kk by (intro exI [of _ m4] exI [of _ ?F2] exI [of _ np]) blast
qed

lemma copy_loop_ok:
  assumes "space_ok inv (\<lambda>_. 0) R F m" and "to \<in> R" and "frm \<in> R" and "to \<noteq> frm" and "v < w" and "w \<le> UPAGES"
    and "\<forall>u. v \<le> u \<and> u < w \<longrightarrow> \<not> pte_valid (pte (words m) to u)" and "3 * (w - v) \<le> card F"
  shows "\<exists>m' F'. copy_loop alloc free to frm (va v) (va w) m = Some (0, m') \<and> space_ok inv (\<lambda>_. 0) R F' m' \<and>
    F' \<subseteq> F \<and> card F \<le> card F' + 3 * (w - v) \<and> kids (words m') R \<subseteq> kids (words m) R \<union> (F - F') \<and>
    (\<forall>x. x \<notin> R \<union> kids (words m) R \<union> F \<longrightarrow> words m' x = words m x) \<and>
    (\<forall>r' \<in> R. \<forall>u < UPAGES. \<not> (r' = to \<and> v \<le> u \<and> u < w \<and> pte_valid (pte (words m) frm u)) \<longrightarrow>
       pte (words m') r' u = pte (words m) r' u) \<and>
    (\<forall>u. v \<le> u \<and> u < w \<and> pte_valid (pte (words m) frm u) \<longrightarrow>
       page_copied (words m) (words m') R to frm u \<and> pte_frame (pte (words m') to u) \<in> F)"
  using assms(1,5,7,8)
proof (induction "w - v" arbitrary: v m F rule: less_induct)
  case less
  note ok = less.prems(1) and vw = less.prems(2) and empty = less.prems(3) and room = less.prems(4)
  have v: "v < UPAGES" using vw assms(6) by simp
  have tr: "tree_ok (words m) R" using ok by (simp add: space_ok_def)
  have walk: "get_pte alloc frm (va v) False m = Some (leaf (words m) frm v, m)"
    by (rule get_pte_walk [OF tr assms(3) v])
  \<comment> \<open>one round\<close>
  obtain n m1 F1 where n: "v < n" "n \<le> UPAGES"
    and nx: "(if leaf (words m) frm v = None then ROUNDDOWN (va v + PTSIZE) PTSIZE else va v + PGSIZE) = va n"
    and st: "(case leaf (words m) frm v of None \<Rightarrow> Some (0, m)
       | Some q \<Rightarrow> if read_pte q m AND PTE_V \<noteq> 0 then copy_page alloc free to (va v) q m else Some (0, m)) = Some (0, m1)"
    and ok1: "space_ok inv (\<lambda>_. 0) R F1 m1" and F1: "F1 \<subseteq> F" "card F \<le> card F1 + 3"
    and k1: "kids (words m1) R \<subseteq> kids (words m) R \<union> (F - F1)"
    and w1: "\<And>x. x \<notin> R \<union> kids (words m) R \<union> F \<Longrightarrow> words m1 x = words m x"
    and pt1: "\<And>r' u. r' \<in> R \<Longrightarrow> u < UPAGES \<Longrightarrow> \<not> (r' = to \<and> u = v \<and> pte_valid (pte (words m) frm v)) \<Longrightarrow>
       pte (words m1) r' u = pte (words m) r' u"
    and cp1: "pte_valid (pte (words m) frm v) \<Longrightarrow>
       page_copied (words m) (words m1) R to frm v \<and> pte_frame (pte (words m1) to v) \<in> F - F1"
    and gap: "\<And>u. v < u \<Longrightarrow> u < n \<Longrightarrow> \<not> pte_valid (pte (words m) frm u)"
  proof (cases "leaf (words m) frm v")
    case None
    let ?n = "(v div 512 + 1) * 512"
    have vn: "v < ?n" using dividend_less_div_times [of 512 v] by simp
    have "\<not> pte_valid (pte (words m) frm u)" if "v < u" "u < ?n" for u
    proof -
      have "u div 512 < v div 512 + 1" using that(2) by (simp add: less_mult_imp_div_less)
      moreover have "v div 512 \<le> u div 512" using that(1) by (simp add: div_le_mono)
      ultimately have "u div 512 = v div 512" by simp
      then show ?thesis using leaf_None_block [OF None] by (simp add: pte_def)
    qed
    moreover have "\<not> pte_valid (pte (words m) frm v)" using None by (simp add: pte_def)
    ultimately show ?thesis
      using that [of ?n m F] vn va_next(2,3) [OF v] None ok by simp
  next
    case (Some q)
    have rd: "read_pte q m = pte (words m) frm v" by (rule read_leaf [OF Some])
    have nx1: "va v + PGSIZE = va (v + 1)" by (rule va_next(1) [OF v])
    show ?thesis
    proof (cases "pte_valid (pte (words m) frm v)")
      case True
      have c3: "3 \<le> card F" using room vw by simp
      have tv: "\<not> pte_valid (pte (words m) to v)" using empty vw by simp
      from copy_page_ok [OF ok assms(2,3) v Some True tv c3] obtain m1 F1 np where
        1: "copy_page alloc free to (va v) q m = Some (0, m1)" "space_ok inv (\<lambda>_. 0) R F1 m1" "F1 \<subseteq> F" "card F \<le> card F1 + 3"
          "np \<in> F" "np \<notin> F1" "mapped (words m1) R np = {(to, v)}" "words m1 np = words m (pte_frame (pte (words m) frm v))"
          "kids (words m1) R \<subseteq> kids (words m) R \<union> (F - F1)" "\<forall>x. x \<notin> R \<union> kids (words m) R \<union> F \<longrightarrow> words m1 x = words m x"
          "pte (words m1) to v AND PTE_USER = pte (words m) frm v AND PTE_USER" "pte_valid (pte (words m1) to v)"
          "pte_frame (pte (words m1) to v) = np"
          "\<forall>r' \<in> R. \<forall>u < UPAGES. \<not> (r' = to \<and> u = v) \<longrightarrow> pte (words m1) r' u = pte (words m) r' u"
        by (elim exE conjE) (rule that)
      have cp: "page_copied (words m) (words m1) R to frm v" using 1 by (simp add: page_copied_def)
      show ?thesis
      proof (rule that [of "v + 1" m1 F1])
        show "(case leaf (words m) frm v of None \<Rightarrow> Some (0, m)
          | Some q \<Rightarrow> if read_pte q m AND PTE_V \<noteq> 0 then copy_page alloc free to (va v) q m else Some (0, m)) = Some (0, m1)"
          using Some rd True 1(1) by (simp add: pte_valid_def)
        show "pte (words m1) r' u = pte (words m) r' u"
          if "r' \<in> R" "u < UPAGES" "\<not> (r' = to \<and> u = v \<and> pte_valid (pte (words m) frm v))" for r' u
        proof -
          have "\<not> (r' = to \<and> u = v)" using that(3) True by blast
          then show ?thesis using 1(14) that(1,2) by simp
        qed
      qed (use 1 cp Some nx1 v in simp_all)
    next
      case False
      then show ?thesis using that [of "v + 1" m F] Some nx1 v ok rd by (simp add: pte_valid_def)
    qed
  qed
  have step: "copy_loop alloc free to frm (va v) (va w) m =
      (if va n \<noteq> 0 \<and> va n < va w then copy_loop alloc free to frm (va n) (va w) m1 else Some (0, m1))"
    by (subst copy_loop.simps) (simp add: walk nx st Let_def)
  have cont: "(va n \<noteq> 0 \<and> va n < va w) = (n < w)"
    using va_order [OF n(2) assms(6)] n(1) by simp
  show ?case
  proof (cases "n < w")
    case False
    have same: "pte (words m1) r' u = pte (words m) r' u"
      if "r' \<in> R" "u < UPAGES" "\<not> (r' = to \<and> v \<le> u \<and> u < w \<and> pte_valid (pte (words m) frm u))" for r' u
      using pt1 [OF that(1,2)] that(3) vw by (cases "u = v") auto
    have cop: "page_copied (words m) (words m1) R to frm u \<and> pte_frame (pte (words m1) to u) \<in> F"
      if "v \<le> u" "u < w" "pte_valid (pte (words m) frm u)" for u
      using cp1 gap [of u] that False by (cases "u = v") auto
    have "card F \<le> card F1 + 3 * (w - v)" using F1(2) vw by simp
    then show ?thesis
      using step cont False ok1 F1(1) k1 w1 same cop by (intro exI [of _ m1] exI [of _ F1]) simp
  next
    case True
    have smaller: "w - n < w - v" using n(1) True by simp
    have to1: "\<forall>u. n \<le> u \<and> u < w \<longrightarrow> \<not> pte_valid (pte (words m1) to u)"
    proof (intro allI impI)
      fix u assume u: "n \<le> u \<and> u < w"
      then have "u < UPAGES" "u \<noteq> v" "v \<le> u" using n(1) assms(6) by auto
      then show "\<not> pte_valid (pte (words m1) to u)" using pt1 [OF assms(2), of u] empty u by simp
    qed
    have room1: "3 * (w - n) \<le> card F1" using room F1(2) n(1) True by simp
    from less.hyps [OF smaller ok1 True to1 room1] obtain m2 F2 where
      2: "copy_loop alloc free to frm (va n) (va w) m1 = Some (0, m2)" "space_ok inv (\<lambda>_. 0) R F2 m2" "F2 \<subseteq> F1"
        "card F1 \<le> card F2 + 3 * (w - n)" "kids (words m2) R \<subseteq> kids (words m1) R \<union> (F1 - F2)"
        "\<forall>x. x \<notin> R \<union> kids (words m1) R \<union> F1 \<longrightarrow> words m2 x = words m1 x"
        "\<forall>r' \<in> R. \<forall>u < UPAGES. \<not> (r' = to \<and> n \<le> u \<and> u < w \<and> pte_valid (pte (words m1) frm u)) \<longrightarrow>
           pte (words m2) r' u = pte (words m1) r' u"
        "\<forall>u. n \<le> u \<and> u < w \<and> pte_valid (pte (words m1) frm u) \<longrightarrow>
           page_copied (words m1) (words m2) R to frm u \<and> pte_frame (pte (words m2) to u) \<in> F1"
      by (elim exE conjE) (rule that)
    have fr: "pte (words m1) frm u = pte (words m) frm u" if "u < UPAGES" for u
      using pt1 [OF assms(3) that] assms(4) by auto
    have same: "pte (words m2) r' u = pte (words m) r' u"
      if "r' \<in> R" "u < UPAGES" "\<not> (r' = to \<and> v \<le> u \<and> u < w \<and> pte_valid (pte (words m) frm u))" for r' u
    proof -
      have a: "\<not> (r' = to \<and> n \<le> u \<and> u < w \<and> pte_valid (pte (words m1) frm u))"
        using that(3) n(1) fr [OF that(2)] by auto
      have "\<not> (r' = to \<and> u = v \<and> pte_valid (pte (words m) frm v))" using that(3) vw by auto
      from pt1 [OF that(1,2) this] show ?thesis using 2(7) that(1,2) a by simp
    qed
    have fw: "words m1 (pte_frame (pte (words m) frm u)) = words m (pte_frame (pte (words m) frm u))"
      if "u < UPAGES" "pte_valid (pte (words m) frm u)" for u
    proof (rule w1)
      have "pte_frame (pte (words m) frm u) \<in> data (words m) R" by (rule in_data [OF assms(3) that])
      then show "pte_frame (pte (words m) frm u) \<notin> R \<union> kids (words m) R \<union> F"
        using ok by (auto simp: space_ok_def)
    qed
    have cop: "page_copied (words m) (words m2) R to frm u \<and> pte_frame (pte (words m2) to u) \<in> F"
      if u: "v \<le> u" "u < w" "pte_valid (pte (words m) frm u)" for u
    proof (cases "u = v")
      case False
      have U: "u < UPAGES" using u assms(6) by simp
      have nu: "n \<le> u" using gap [of u] u False by (meson le_neq_implies_less not_le)
      then have "page_copied (words m1) (words m2) R to frm u \<and> pte_frame (pte (words m2) to u) \<in> F1"
        using 2(8) u fr [OF U] by simp
      then show ?thesis using fr [OF U] fw [OF U u(3)] F1(1) by (auto simp: page_copied_def)
    next
      case True
      let ?np = "pte_frame (pte (words m1) to v)"
      have val: "pte_valid (pte (words m) frm v)" using u True by simp
      note c = cp1 [OF val]
      have p2: "pte (words m2) to v = pte (words m1) to v" using 2(7) assms(2) v n(1) by simp
      have mp1: "mapped (words m1) R ?np = {(to, v)}" using c by (simp add: page_copied_def)
      then have "?np \<in> data (words m1) R" by (simp add: data_mapped)
      then have npo: "?np \<notin> R \<union> kids (words m1) R \<union> F1" using ok1 by (auto simp: space_ok_def)
      then have w2: "words m2 ?np = words m1 ?np" using 2(6) by blast
      have "x \<in> mapped (words m2) R ?np \<longleftrightarrow> x \<in> mapped (words m1) R ?np" for x
      proof (cases x)
        case (Pair r' z)
        show ?thesis
        proof (cases "r' = to \<and> n \<le> z \<and> z < w \<and> pte_valid (pte (words m1) frm z)")
          case True
          then have "pte_frame (pte (words m2) to z) \<in> F1" "z \<noteq> v" using 2(8) n(1) by auto
          then have "x \<notin> mapped (words m2) R ?np" using npo True Pair unfolding mapped_def by auto
          moreover have "x \<notin> mapped (words m1) R ?np" using mp1 Pair \<open>z \<noteq> v\<close> by simp
          ultimately show ?thesis by blast
        next
          case False
          then have "pte (words m2) r' z = pte (words m1) r' z" if "r' \<in> R" "z < UPAGES" using 2(7) that by blast
          then show ?thesis using Pair unfolding mapped_def by auto
        qed
      qed
      then have "mapped (words m2) R ?np = {(to, v)}" using mp1 by blast
      then show ?thesis using c p2 w2 True by (auto simp: page_copied_def)
    qed
    have wx: "words m2 x = words m x" if "x \<notin> R \<union> kids (words m) R \<union> F" for x
    proof -
      have "x \<notin> R \<union> kids (words m1) R \<union> F1" using that k1 F1(1) by blast
      then show ?thesis using 2(6) w1 [OF that] by simp
    qed
    have kk: "kids (words m2) R \<subseteq> kids (words m) R \<union> (F - F2)" using 2(3,5) k1 F1(1) by blast
    have cc: "card F \<le> card F2 + 3 * (w - v)" using F1(2) 2(4) n(1) True by simp
    have ff: "F2 \<subseteq> F" using 2(3) F1(1) by blast
    have res: "copy_loop alloc free to frm (va v) (va w) m = Some (0, m2)" using step cont True 2(1) by simp
    show ?thesis
      by (intro exI [of _ m2] exI [of _ F2] conjI res 2(2) ff cc kk) (use wx same cop in blast)+
  qed
qed

end

section \<open>Properties\<close>

lemma user_access: "USER_ACCESS (va v) (va w) \<longleftrightarrow> 512 \<le> v \<and> v < w" if "v \<le> UPAGES" "w \<le> UPAGES"
proof -
  have "USERBASE = va 512" "USERTOP = va UPAGES" by (simp_all add: USERBASE_def USERTOP_def va_def UPAGES_def)
  moreover have "512 \<le> UPAGES" by (simp add: UPAGES_def)
  ultimately show ?thesis
    using va_order(2) [of 512 v] va_order(1) [of v w] va_order(2) [of w UPAGES] that
    by (simp only: USER_ACCESS_def) simp
qed

text \<open>
  A small memory: root 20 maps page \<open>512 * d + e\<close> to frame 0 through directory 11 and table 12,
  root 21 maps nothing, frames 2 to 9 are free. In \<open>demo_word\<close> it is page 1024.
\<close>

definition demo_word_at :: "nat \<Rightarrow> nat \<Rightarrow> frames" where
  "demo_word_at d e f i = (if f = 20 \<and> i = 0 then pte_create (page2ppn 11) (PTE_U OR PTE_V)
     else if f = 11 \<and> i = d then pte_create (page2ppn 12) (PTE_U OR PTE_V)
     else if f = 12 \<and> i = e then pte_create (page2ppn 0) (PTE_V OR PTE_USER)
     else if f = 0 then of_nat (2 * i) else 0)"

definition demo_pmem_at :: "nat \<Rightarrow> nat \<Rightarrow> pmem" where
  "demo_pmem_at d e = \<lparr>parea = demo_area\<lparr>pages := (pages demo_area)(11 := \<lparr>ref = 1, flags = 0, property = 0\<rparr>,
      12 := \<lparr>ref = 1, flags = 0, property = 0\<rparr>)\<rparr>, words = demo_word_at d e, swap_init_ok = True\<rparr>"

definition demo_word :: frames where "demo_word = demo_word_at 2 0"
definition demo_pmem :: pmem where "demo_pmem = demo_pmem_at 2 0"

lemma demo_entries:
  "pte_valid (pte_create (page2ppn 11) (PTE_U OR PTE_V))" "frame_ok (pte_create (page2ppn 11) (PTE_U OR PTE_V))"
  "pte_frame (pte_create (page2ppn 11) (PTE_U OR PTE_V)) = 11"
  "pte_valid (pte_create (page2ppn 12) (PTE_U OR PTE_V))" "frame_ok (pte_create (page2ppn 12) (PTE_U OR PTE_V))"
  "pte_frame (pte_create (page2ppn 12) (PTE_U OR PTE_V)) = 12"
  "pte_valid (pte_create (page2ppn 0) (PTE_V OR PTE_USER))" "frame_ok (pte_create (page2ppn 0) (PTE_V OR PTE_USER))"
  "pte_frame (pte_create (page2ppn 0) (PTE_V OR PTE_USER)) = 0"
proof -
  have b: "take_bit 10 (PTE_U OR PTE_V) = PTE_U OR PTE_V" by (simp add: PTE_U_def PTE_V_def)
  have b': "take_bit 10 (PTE_V OR PTE_USER) = PTE_V OR PTE_USER" by (simp add: PTE_USER_mask PTE_V_def mask_eq_exp_minus_1)
  have n: "11 < npage - nbase" "12 < npage - nbase" "0 < npage - nbase" by (simp_all add: npage_def nbase_def)
  note a = pte_create [OF n(1) b] and c = pte_create [OF n(2) b] and d = pte_create [OF n(3) b']
  show "pte_valid (pte_create (page2ppn 11) (PTE_U OR PTE_V))" "frame_ok (pte_create (page2ppn 11) (PTE_U OR PTE_V))"
    "pte_frame (pte_create (page2ppn 11) (PTE_U OR PTE_V)) = 11" by (rule a)+
  show "pte_valid (pte_create (page2ppn 12) (PTE_U OR PTE_V))" "frame_ok (pte_create (page2ppn 12) (PTE_U OR PTE_V))"
    "pte_frame (pte_create (page2ppn 12) (PTE_U OR PTE_V)) = 12" by (rule c)+
  show "pte_valid (pte_create (page2ppn 0) (PTE_V OR PTE_USER))" "frame_ok (pte_create (page2ppn 0) (PTE_V OR PTE_USER))"
    "pte_frame (pte_create (page2ppn 0) (PTE_V OR PTE_USER)) = 0" by (rule d)+
qed

lemma demo_child_at:
  "f \<noteq> 0 \<Longrightarrow> child (demo_word_at d e) (f, i) = (if f = 20 \<and> i = 0 then Some 11 else if f = 11 \<and> i = d then Some 12
     else if f = 12 \<and> i = e then Some 0 else None)"
  by (simp add: child_def demo_word_at_def demo_entries)

lemma demo_slots_at:
  assumes "d < 512"
  shows "dirs (demo_word_at d e) {20, 21} = {11}" "kids (demo_word_at d e) {20, 21} = {11, 12}"
proof -
  show d: "dirs (demo_word_at d e) {20, 21} = {11}" by (auto simp: dirs_def demo_child_at split: if_splits intro: exI [of _ 0])
  have "x \<in> kids (demo_word_at d e) {20, 21} \<longleftrightarrow> x \<in> {11, 12}" for x
  proof
    assume "x \<in> kids (demo_word_at d e) {20, 21}"
    then show "x \<in> {11, 12}" by (auto simp: kids_def slots_def d demo_child_at split: if_splits)
  next
    assume "x \<in> {11, 12}"
    moreover have "(20, 0) \<in> slots (demo_word_at d e) {20, 21}" "(11, d) \<in> slots (demo_word_at d e) {20, 21}"
      using assms by (simp_all add: slots_def d)
    moreover have "child (demo_word_at d e) (20, 0) = Some 11" "child (demo_word_at d e) (11, d) = Some 12" by (simp_all add: demo_child_at)
    ultimately show "x \<in> kids (demo_word_at d e) {20, 21}" unfolding kids_def by blast
  qed
  then show "kids (demo_word_at d e) {20, 21} = {11, 12}" by blast
qed

lemma demo_pte_at:
  assumes "d < 512" and "e < 512" and "v < UPAGES"
  shows "pte (demo_word_at d e) 21 v = 0"
    "pte (demo_word_at d e) 20 v = (if v = 512 * d + e then pte_create (page2ppn 0) (PTE_V OR PTE_USER) else 0)"
proof -
  show "pte (demo_word_at d e) 21 v = 0" by (simp add: pte_def leaf_def demo_child_at)
  have "leaf (demo_word_at d e) 20 v = (if v div 0x40000 = 0 \<and> v div 512 mod 512 = d then Some (12, v mod 512) else None)"
    by (simp add: leaf_def demo_child_at)
  moreover have "v = 512 * d + e \<longleftrightarrow> v div 0x40000 = 0 \<and> v div 512 mod 512 = d \<and> v mod 512 = e"
    using page_number_split [of v "512 * d + e"] assms by auto
  ultimately show "pte (demo_word_at d e) 20 v = (if v = 512 * d + e then pte_create (page2ppn 0) (PTE_V OR PTE_USER) else 0)"
    by (auto simp: pte_def demo_word_at_def)
qed

lemma demo_mapped_at:
  assumes "d < 512" and "e < 512"
  shows "mapped (demo_word_at d e) {20, 21} p = (if p = 0 then {(20, 512 * d + e)} else {})" "data (demo_word_at d e) {20, 21} = {0}"
proof -
  have "(r, v) \<in> mapped (demo_word_at d e) {20, 21} p \<longleftrightarrow> p = 0 \<and> r = 20 \<and> v = 512 * d + e" for r v p
    using demo_pte_at [OF assms, of v] demo_entries(7,9) assms by (auto simp: mapped_def UPAGES_def split: if_splits)
  then show m: "mapped (demo_word_at d e) {20, 21} p = (if p = 0 then {(20, 512 * d + e)} else {})" for p by auto
  show "data (demo_word_at d e) {20, 21} = {0}" by (auto simp: data_def m)
qed

lemma demo_tree_at:
  assumes "d < 512"
  shows "tree_ok (demo_word_at d e) {20, 21}"
proof -
  have fr: "frame_ok ((demo_word_at d e) f i)" if "(f, i) \<in> slots (demo_word_at d e) {20, 21}" "pte_valid ((demo_word_at d e) f i)" for f i
    using that by (auto simp: slots_def demo_slots_at [OF assms] demo_word_at_def demo_entries split: if_splits)
  have inj: "s = s'" if "s \<in> slots (demo_word_at d e) {20, 21}" "s' \<in> slots (demo_word_at d e) {20, 21}" "child (demo_word_at d e) s = Some x"
    "child (demo_word_at d e) s' = Some x" for s s' x
    using that by (cases s; cases s') (auto simp: slots_def demo_slots_at [OF assms] demo_child_at split: if_splits)
  show ?thesis
    unfolding tree_ok_def
  proof (intro conjI ballI impI)
    fix s s' assume "s \<in> slots (demo_word_at d e) {20, 21}" "s' \<in> slots (demo_word_at d e) {20, 21}"
      "child (demo_word_at d e) s = child (demo_word_at d e) s'" "child (demo_word_at d e) s \<noteq> None"
    then show "s = s'" using inj by (metis option.exhaust)
  qed (use fr demo_slots_at(2) [OF assms] in auto)
qed

lemma demo_space_at:
  assumes "d < 512" and "e < 512"
  shows "space_ok pmm_inv (\<lambda>_. 0) {20, 21} {2..<10} (demo_pmem_at d e)"
proof -
  have "pmm_inv demo_area {2..<10}" using demo_area_inv demo_area_frames by (auto simp: pmm_inv_def)
  then have "pmm_inv (parea (demo_pmem_at d e)) {2..<10}"
    by (rule pmm_inv_cong) (auto simp: demo_pmem_at_def)
  moreover have w: "words (demo_pmem_at d e) = (demo_word_at d e)" by (simp add: demo_pmem_at_def)
  moreover have "q < npage - nbase \<and> page_ref q (demo_pmem_at d e) = 0" if "q \<in> {2..<10}" for q
    using that by (auto simp: npage_def nbase_def page_ref_def demo_pmem_at_def demo_area_def)
  moreover have "frame_ok (pte (demo_word_at d e) r v)" if "r \<in> {20, 21}" "v < UPAGES" "pte_valid (pte (demo_word_at d e) r v)" for r v
    using that demo_pte_at [OF assms that(2)] demo_entries(8) by (auto split: if_splits)
  moreover have "page_ref 0 (demo_pmem_at d e) = 1" by (simp add: page_ref_def demo_pmem_at_def demo_area_def)
  moreover have "page_clean (pages (parea (demo_pmem_at d e)) p)" if "p \<in> {0, 11, 12}" for p
    using that by (auto simp: page_clean_def PageReserved_def PageProperty_def demo_pmem_at_def demo_area_def)
  ultimately show ?thesis
    unfolding space_ok_def using demo_tree_at demo_slots_at(2) demo_mapped_at assms by simp
qed

lemma demo_slots: "dirs demo_word {20, 21} = {11}" "kids demo_word {20, 21} = {11, 12}"
  using demo_slots_at [of 2 0] by (simp_all add: demo_word_def)

lemma demo_pte:
  assumes "v < UPAGES"
  shows "pte demo_word 21 v = 0"
    "pte demo_word 20 v = (if v = 1024 then pte_create (page2ppn 0) (PTE_V OR PTE_USER) else 0)"
  using demo_pte_at [of 2 0, OF _ _ assms] by (simp_all add: demo_word_def)

lemma demo_mapped: "mapped demo_word {20, 21} p = (if p = 0 then {(20, 1024)} else {})" "data demo_word {20, 21} = {0}"
  using demo_mapped_at [of 2 0] by (simp_all add: demo_word_def)

lemma demo_space: "space_ok pmm_inv (\<lambda>_. 0) {20, 21} {2..<10} demo_pmem"
  using demo_space_at [of 2 0] by (simp add: demo_pmem_def)

text \<open>
  \<open>page_insert\<close> and \<open>get_page\<close> fit together: mapping a page at an address that maps nothing either
  fails for want of memory and changes no translation, or makes \<open>get_page\<close> return this page there, while
  every other address of every address space keeps its translation; the invariant is kept.
\<close>

theorem page_insert_get_page:
  assumes "space_ok pmm_inv (\<lambda>_. 0) R F m" and "r \<in> R" and "v < UPAGES"
    and "\<not> pte_valid (pte (words m) r v)" and "2 \<le> card F \<or> \<not> swap_init_ok m"
    and "p \<notin> R \<union> kids (words m) R \<union> F" and "p < npage - nbase" and "page_clean (pages (parea m) p)"
    and "p \<in> data (words m) R \<or> page_ref p m = 0" and "take_bit 10 perm = perm"
  shows "\<exists>ret m' F'. page_insert default_alloc_pages default_free_pages r p (va v) perm m = Some (ret, m') \<and>
    space_ok pmm_inv (\<lambda>_. 0) R F' m' \<and> (ret = 0 \<or> ret = - E_NO_MEM \<and> F' = {}) \<and>
    (ret = 0 \<longrightarrow> get_page default_alloc_pages r (va v) m' = Some (Some p, m')) \<and>
    (\<forall>r' \<in> R. \<forall>u < UPAGES. ret \<noteq> 0 \<or> r' \<noteq> r \<or> u \<noteq> v \<longrightarrow> pte (words m') r' u = pte (words m) r' u)"
proof -
  from ff.page_insert_new [OF assms(1-4) _ assms(6-10)] assms(5) obtain ret m' F' where
    i: "page_insert default_alloc_pages default_free_pages r p (va v) perm m = Some (ret, m')"
      "space_ok pmm_inv (\<lambda>_. 0) R F' m'"
    and pt: "if ret = 0 then (\<forall>r' \<in> R. \<forall>v' < UPAGES. pte (words m') r' v' =
         (if r' = r \<and> v' = v then pte_create (page2ppn p) (PTE_V OR perm) else pte (words m) r' v'))
       else ret = - E_NO_MEM \<and> F' = {} \<and> (\<forall>r' \<in> R. \<forall>v' < UPAGES. pte (words m') r' v' = pte (words m) r' v')"
    by blast
  have "get_page default_alloc_pages r (va v) m' = Some (Some p, m')" if "ret = 0"
  proof -
    have "take_bit 10 (PTE_V OR perm) = PTE_V OR perm" using assms(10) by (simp add: PTE_V_def take_bit_or)
    note e = pte_create [OF assms(7) this]
    have q: "pte (words m') r v = pte_create (page2ppn p) (PTE_V OR perm)" using pt that assms(2,3) by simp
    then obtain s where l: "leaf (words m') r v = Some s" using e(1) by (auto simp: pte_def split: option.splits)
    have "tree_ok (words m') R" using i(2) by (simp add: space_ok_def)
    from get_pte_walk [OF this assms(2,3)] l q e show ?thesis
      using read_leaf [OF l] pte2page_ok [OF e(1,2)] by (simp add: get_page_def pte_valid_def)
  qed
  then show ?thesis using i pt by (intro exI [of _ ret] exI [of _ m'] exI [of _ F']) (auto split: if_splits)
qed

theorem page_insert_get_page_witness:
  "\<exists>ret m'. page_insert default_alloc_pages default_free_pages 21 0 (va 1024) PTE_U demo_pmem = Some (ret, m') \<and>
     (ret = 0 \<longrightarrow> get_page default_alloc_pages 21 (va 1024) m' = Some (Some 0, m'))"
proof -
  have w: "words demo_pmem = demo_word" by (simp add: demo_pmem_def demo_pmem_at_def demo_word_def)
  have u: "1024 < UPAGES" by (simp add: UPAGES_def)
  have "\<not> pte_valid (pte (words demo_pmem) 21 1024)" using demo_pte(1) [OF u] w by simp
  moreover have "0 \<notin> {20, 21} \<union> kids (words demo_pmem) {20, 21} \<union> {2..<10}" using demo_slots(2) w by auto
  moreover have "page_clean (pages (parea demo_pmem) 0)" using demo_space demo_mapped(2) w by (simp add: space_ok_def)
  moreover have "take_bit 10 PTE_U = PTE_U" by (simp add: PTE_U_def)
  moreover have "0 \<in> data (words demo_pmem) {20, 21}" using demo_mapped(2) w by simp
  ultimately show ?thesis
    using page_insert_get_page [OF demo_space, of 21 1024 0 PTE_U] u by (simp add: npage_def nbase_def) blast
qed

text \<open>
  C26: When some free frame lies above all mapped frames (else the first-fit manager corrupts its list),
  \<open>unmap_range\<close> on page-aligned user addresses returns, clears exactly the valid entries of its range (an
  entry that is not valid, such as that of a page in swap, stays), and gives back exactly the frames that no
  virtual page maps any more: frames still shared stay allocated, nothing leaks. No frame but the page
  tables is written, and no page descriptor changes but those of free and of mapped frames.
\<close>

theorem unmap_range_frees:
  assumes "space_ok pmm_inv (\<lambda>_. 0) R F m" and "r \<in> R" and "512 \<le> v" and "v < w" and "w \<le> UPAGES"
    and "y \<in> F" and "\<forall>x \<in> data (words m) R. x < y"
  shows "\<exists>m' F'. unmap_range default_alloc_pages default_free_pages r (va v) (va w) m = Some m' \<and>
    space_ok pmm_inv (\<lambda>_. 0) R F' m' \<and> F' = F \<union> (data (words m) R - data (words m') R) \<and>
    (\<forall>r' \<in> R. \<forall>u < UPAGES. pte (words m') r' u =
       (if r' = r \<and> v \<le> u \<and> u < w \<and> pte_valid (pte (words m) r u) then 0 else pte (words m) r' u)) \<and>
    (\<forall>q. q \<notin> kids (words m) R \<longrightarrow> words m' q = words m q) \<and>
    (\<forall>q. q \<notin> F \<union> data (words m) R \<longrightarrow> pages (parea m') q = pages (parea m) q)"
proof -
  obtain m' F' where 1: "unmap_loop default_alloc_pages default_free_pages r (va v) (va w) m = Some m'"
    "shrunk pmm_inv (\<lambda>_. 0) R F m F' m'"
    "\<forall>r' \<in> R. \<forall>u < UPAGES. pte (words m') r' u =
       (if r' = r \<and> v \<le> u \<and> u < w \<and> pte_valid (pte (words m) r u) then 0 else pte (words m) r' u)"
    using ff.unmap_loop_ok [OF assms(1,2,4-7)] by metis
  have "unmap_range default_alloc_pages default_free_pages r (va v) (va w) m = Some m'"
    using 1(1) assms(3-5) user_access [of v w] va_aligned [of v] va_aligned [of w] by (simp add: unmap_range_def)
  then show ?thesis
    using 1(3) shrunkD(1,4,6,7) [OF 1(2)] by (intro exI [of _ m'] exI [of _ F'] conjI allI impI) blast+
qed

theorem unmap_range_frees_witness:
  "\<exists>m' F'. unmap_range default_alloc_pages default_free_pages 20 (va 512) (va 2048) demo_pmem = Some m' \<and>
     space_ok pmm_inv (\<lambda>_. 0) {20, 21} F' m' \<and> 0 \<in> F' \<and> pte (words m') 20 1024 = 0"
proof -
  have w: "words demo_pmem = demo_word" by (simp add: demo_pmem_def demo_pmem_at_def demo_word_def)
  have u: "1024 < UPAGES" "2048 \<le> UPAGES" by (simp_all add: UPAGES_def)
  obtain m' F' where 1: "unmap_range default_alloc_pages default_free_pages 20 (va 512) (va 2048) demo_pmem = Some m'"
    "space_ok pmm_inv (\<lambda>_. 0) {20, 21} F' m'" "F' = {2..<10} \<union> (data demo_word {20, 21} - data (words m') {20, 21})"
    "\<forall>r' \<in> {20, 21}. \<forall>u < UPAGES. pte (words m') r' u =
       (if r' = 20 \<and> 512 \<le> u \<and> u < 2048 \<and> pte_valid (pte demo_word 20 u) then 0 else pte demo_word r' u)"
    using unmap_range_frees [OF demo_space, of 20 512 2048 9] demo_mapped(2) w u by auto
  have z: "pte (words m') r x = 0" if "r \<in> {20, 21}" "x < UPAGES" for r x
    using 1(4) that demo_pte [OF that(2)] demo_entries(7) by (auto split: if_splits)
  then have "data (words m') {20, 21} = {}" by (auto simp: data_def mapped_def)
  then have "0 \<in> F'" using 1(3) demo_mapped(2) by simp
  then show ?thesis using 1(1,2) z [of 20 1024] u by blast
qed

text \<open>
  C25: \<open>copy_range\<close>, the memory copy of \<open>fork\<close>, on a range of which nothing is mapped in the new address
  space, with three free frames for every page of the range (\<open>copy_range\<close> panics when it gets no page):
  it returns 0, every valid page of the range is afterwards mapped in the new address space with the same
  access bits and the same contents in a frame of its own that was free before, and all other translations,
  the parent's among them, are unchanged. No frame is written but the page tables and frames that were
  free: the contents of all frames mapped before, the parent's among them, stay.
\<close>

theorem copy_range_duplicates:
  assumes "space_ok pmm_inv (\<lambda>_. 0) R F m" and "to \<in> R" and "frm \<in> R" and "to \<noteq> frm"
    and "512 \<le> v" and "v < w" and "w \<le> UPAGES"
    and "\<forall>u. v \<le> u \<and> u < w \<longrightarrow> \<not> pte_valid (pte (words m) to u)" and "3 * (w - v) \<le> card F"
  shows "\<exists>m' F'. copy_range default_alloc_pages default_free_pages to frm (va v) (va w) m = Some (0, m') \<and>
    space_ok pmm_inv (\<lambda>_. 0) R F' m' \<and> F' \<subseteq> F \<and>
    (\<forall>x. x \<notin> R \<union> kids (words m) R \<union> F \<longrightarrow> words m' x = words m x) \<and>
    (\<forall>x \<in> data (words m) R. words m' x = words m x) \<and>
    (\<forall>r' \<in> R. \<forall>u < UPAGES. \<not> (r' = to \<and> v \<le> u \<and> u < w \<and> pte_valid (pte (words m) frm u)) \<longrightarrow>
       pte (words m') r' u = pte (words m) r' u) \<and>
    (\<forall>u. v \<le> u \<and> u < w \<and> pte_valid (pte (words m) frm u) \<longrightarrow>
       page_copied (words m) (words m') R to frm u \<and> pte_frame (pte (words m') to u) \<in> F)"
proof -
  have "copy_range default_alloc_pages default_free_pages to frm (va v) (va w) m =
      copy_loop default_alloc_pages default_free_pages to frm (va v) (va w) m"
    using assms(5-7) user_access [of v w] va_aligned [of v] va_aligned [of w] by (simp add: copy_range_def)
  moreover obtain m' F' where
    c: "copy_loop default_alloc_pages default_free_pages to frm (va v) (va w) m = Some (0, m')"
      "space_ok pmm_inv (\<lambda>_. 0) R F' m'" "F' \<subseteq> F"
      "\<forall>x. x \<notin> R \<union> kids (words m) R \<union> F \<longrightarrow> words m' x = words m x"
      "\<forall>r' \<in> R. \<forall>u < UPAGES. \<not> (r' = to \<and> v \<le> u \<and> u < w \<and> pte_valid (pte (words m) frm u)) \<longrightarrow>
         pte (words m') r' u = pte (words m) r' u"
      "\<forall>u. v \<le> u \<and> u < w \<and> pte_valid (pte (words m) frm u) \<longrightarrow>
         page_copied (words m) (words m') R to frm u \<and> pte_frame (pte (words m') to u) \<in> F"
    using ff.copy_loop_ok [OF assms(1-4,6-9)] by metis
  moreover have "words m' x = words m x" if "x \<in> data (words m) R" for x
  proof -
    have "x \<notin> R \<union> kids (words m) R \<union> F" using assms(1) that unfolding space_ok_def by blast
    then show ?thesis using c(4) by blast
  qed
  ultimately show ?thesis by (intro exI [of _ m'] exI [of _ F']) simp
qed

theorem copy_range_duplicates_witness:
  "\<exists>m'. copy_range default_alloc_pages default_free_pages 21 20 (va 1024) (va 1026) demo_pmem = Some (0, m') \<and>
     page_copied demo_word (words m') {20, 21} 21 20 1024"
proof -
  have w: "words demo_pmem = demo_word" by (simp add: demo_pmem_def demo_pmem_at_def demo_word_def)
  have u: "1026 \<le> UPAGES" "1024 < UPAGES" by (simp_all add: UPAGES_def)
  have e: "\<forall>u. 1024 \<le> u \<and> u < 1026 \<longrightarrow> \<not> pte_valid (pte (words demo_pmem) 21 u)"
    using demo_pte(1) u w by simp
  have "pte_valid (pte demo_word 20 1024)" using demo_pte(2) [OF u(2)] demo_entries(7) by simp
  then show ?thesis
    using copy_range_duplicates [OF demo_space _ _ _ _ _ u(1) e, of 20] w by auto
qed

end
