(* ===== verification/Swap.thy ===== *)
theory Swap
  imports Paging
begin

text \<open>
  Page replacement and the swap area: the managers \<open>swap_fifo.c\<close>, \<open>swap_clock.c\<close> and \<open>swap_lru.c\<close> of
  lab 3 over the list of swappable pages, and \<open>swap_out\<close> and \<open>swap_in\<close> (\<open>swap.c\<close>, the same in labs 3 to 8)
  over page tables and the swap device. The locale \<open>swap_policy\<close> states what \<open>swap.c\<close> relies on.
\<close>

unbundle bit_operations_syntax

section \<open>The list of swappable pages\<close>

text \<open>The entries: the head \<open>pra_list_head\<close> and the \<open>pra_page_link\<close> of each page.\<close>

datatype pra_ent = PraHead | PraLink nat

record pra =
  plinks :: "pra_ent links"
  curr_ptr :: pra_ent
  visited :: "nat \<Rightarrow> nat"

text \<open>\<open>le2page\<close> of the list head is a pointer to no page.\<close>

fun pra_page :: "pra_ent \<Rightarrow> nat option" where
  "pra_page (PraLink p) = Some p"
| "pra_page PraHead = None"

definition pra_list :: "pra \<Rightarrow> nat list \<Rightarrow> bool" where
  "pra_list s xs \<longleftrightarrow> dlist (plinks s) PraHead (map PraLink xs)"

text \<open>
  \<open>struct swap_manager\<close>. The first argument is \<open>mm->sm_priv\<close>, \<open>None\<close> for \<open>NULL\<close>; a victim is a status
  and the page stored in \<open>*ptr_page\<close>.
\<close>

record swap_manager =
  sm_init_mm :: "pra \<Rightarrow> pra_ent \<times> pra"
  sm_map_swappable :: "pra_ent option \<Rightarrow> nat \<Rightarrow> pra \<Rightarrow> pra option"
  sm_swap_out_victim :: "pra_ent option \<Rightarrow> bool \<Rightarrow> pra \<Rightarrow> (int \<times> nat option \<times> pra) option"

section \<open>First in, first out\<close>

definition fifo_init_mm :: "pra \<Rightarrow> pra_ent \<times> pra" where
  "fifo_init_mm s = (PraHead, s\<lparr>plinks := list_init PraHead (plinks s)\<rparr>)"

definition fifo_map_swappable :: "pra_ent option \<Rightarrow> nat \<Rightarrow> pra \<Rightarrow> pra option" where
  "fifo_map_swappable priv p s = do {
     head \<leftarrow> priv;
     Some (s\<lparr>plinks := list_add head (PraLink p) (plinks s)\<rparr>)
   }"

definition fifo_swap_out_victim :: "pra_ent option \<Rightarrow> bool \<Rightarrow> pra \<Rightarrow> (int \<times> nat option \<times> pra) option" where
  "fifo_swap_out_victim priv in_tick s = do {
     head \<leftarrow> priv;
     c_assert (\<not> in_tick);
     let e = list_prev head (plinks s);
     if e \<noteq> head then do {
       p \<leftarrow> pra_page e;
       Some (0, Some p, s\<lparr>plinks := list_del e (plinks s)\<rparr>)
     } else Some (0, None, s)
   }"

definition swap_manager_fifo :: swap_manager where
  "swap_manager_fifo = \<lparr>sm_init_mm = fifo_init_mm, sm_map_swappable = fifo_map_swappable,
     sm_swap_out_victim = fifo_swap_out_victim\<rparr>"

section \<open>The clock\<close>

definition clock_init_mm :: "pra \<Rightarrow> pra_ent \<times> pra" where
  "clock_init_mm s = (PraHead, s\<lparr>plinks := list_init PraHead (plinks s), curr_ptr := PraHead\<rparr>)"

definition clock_map_swappable :: "pra_ent option \<Rightarrow> nat \<Rightarrow> pra \<Rightarrow> pra option" where
  "clock_map_swappable priv p s = do {
     head \<leftarrow> priv;
     Some (s\<lparr>plinks := list_add head (PraLink p) (plinks s), visited := (visited s)(p := 1)\<rparr>)
   }"

partial_function (option) clock_loop :: "pra_ent \<Rightarrow> pra \<Rightarrow> (int \<times> nat option \<times> pra) option" where
  "clock_loop head s =
     (let back = list_prev (curr_ptr s) (plinks s) in
      if curr_ptr s = head then clock_loop head (s\<lparr>curr_ptr := back\<rparr>)
      else do {
        p \<leftarrow> pra_page (curr_ptr s);
        if visited s p = 0 then
          Some (0, Some p, s\<lparr>curr_ptr := back, plinks := list_del (list_next back (plinks s)) (plinks s)\<rparr>)
        else clock_loop head (s\<lparr>visited := (visited s)(p := 0), curr_ptr := back\<rparr>)
      })"

declare clock_loop.simps [code]

definition clock_swap_out_victim :: "pra_ent option \<Rightarrow> bool \<Rightarrow> pra \<Rightarrow> (int \<times> nat option \<times> pra) option" where
  "clock_swap_out_victim priv in_tick s = do { head \<leftarrow> priv; c_assert (\<not> in_tick); clock_loop head s }"

definition swap_manager_clock :: swap_manager where
  "swap_manager_clock = \<lparr>sm_init_mm = clock_init_mm, sm_map_swappable = clock_map_swappable,
     sm_swap_out_victim = clock_swap_out_victim\<rparr>"

section \<open>Least recently used\<close>

definition lru_init_mm :: "pra \<Rightarrow> pra_ent \<times> pra" where
  "lru_init_mm s = (PraHead, s\<lparr>plinks := list_init PraHead (plinks s)\<rparr>)"

partial_function (option) lru_loop :: "pra_ent \<Rightarrow> pra_ent \<Rightarrow> pra_ent \<Rightarrow> pra_ent links \<Rightarrow> pra_ent links option" where
  "lru_loop head entry le h =
     (if le = head then Some h
      else if entry = le then Some (list_del le h)
      else lru_loop head entry (lnext h le) h)"

declare lru_loop.simps [code]

definition lru_map_swappable :: "pra_ent option \<Rightarrow> nat \<Rightarrow> pra \<Rightarrow> pra option" where
  "lru_map_swappable priv p s = do {
     head \<leftarrow> priv;
     let le = lnext (plinks s) head;
     h \<leftarrow> lru_loop head (PraLink p) le (list_add head (PraLink p) (plinks s));
     Some (s\<lparr>plinks := h, visited := (visited s)(p := 1)\<rparr>)
   }"

definition lru_swap_out_victim :: "pra_ent option \<Rightarrow> bool \<Rightarrow> pra \<Rightarrow> (int \<times> nat option \<times> pra) option" where
  "lru_swap_out_victim priv in_tick s = do {
     head \<leftarrow> priv;
     c_assert (\<not> in_tick);
     let e = list_prev head (plinks s);
     p \<leftarrow> pra_page e;
     Some (0, Some p, s\<lparr>plinks := list_del e (plinks s)\<rparr>)
   }"

definition swap_manager_lru :: swap_manager where
  "swap_manager_lru = \<lparr>sm_init_mm = lru_init_mm, sm_map_swappable = lru_map_swappable,
     sm_swap_out_victim = lru_swap_out_victim\<rparr>"

section \<open>What the managers do\<close>

lemma pra_list_distinct: "pra_list s xs \<Longrightarrow> distinct xs"
  using dlist_distinct [of "plinks s" PraHead] by (fastforce simp: pra_list_def distinct_map)

lemma pra_list_add:
  assumes "pra_list s xs" and "p \<notin> set xs"
  shows "dlist (list_add PraHead (PraLink p) (plinks s)) PraHead (map PraLink (p # xs))"
  using list_add_dlist [of "plinks s" PraHead "map PraLink xs" "PraLink p"] assms
  by (auto simp: pra_list_def)

lemma pra_list_prev_head: "pra_list s xs \<Longrightarrow> list_prev PraHead (plinks s) = last (PraHead # map PraLink xs)"
  unfolding pra_list_def by (rule list_prev_head_dlist)

lemma pra_list_del:
  "pra_list s (us @ x # vs) \<Longrightarrow> dlist (list_del (PraLink x) (plinks s)) PraHead (map PraLink (us @ vs))"
  using list_del_dlist [of "plinks s" PraHead "map PraLink us" "PraLink x" "map PraLink vs"]
  by (simp add: pra_list_def)

lemma fifo_map_ok:
  assumes "pra_list s xs" and "p \<notin> set xs"
  shows "\<exists>s'. fifo_map_swappable (Some PraHead) p s = Some s' \<and> pra_list s' (p # xs)"
  using pra_list_add [OF assms] by (simp add: fifo_map_swappable_def pra_list_def)

lemma fifo_victim_ok:
  assumes "pra_list s (xs @ [p])"
  shows "\<exists>s'. fifo_swap_out_victim (Some PraHead) False s = Some (0, Some p, s') \<and> pra_list s' xs"
  using pra_list_del [of s xs p "[]"] pra_list_prev_head [OF assms] assms
  by (simp add: fifo_swap_out_victim_def pra_list_def)

lemma lru_loop_fresh:
  assumes "dseg h t ys PraHead" and "t \<noteq> PraHead" and "PraHead \<notin> set ys" and "PraLink p \<notin> set (t # ys)"
  shows "lru_loop PraHead (PraLink p) t h = Some h"
  using assms
proof (induction ys arbitrary: t)
  case Nil
  then show ?case by (simp add: lru_loop.simps [of PraHead "PraLink p" t] lru_loop.simps [of PraHead "PraLink p" PraHead])
next
  case (Cons y ys)
  then show ?case using Cons.IH [of y] by (auto simp: lru_loop.simps [of PraHead "PraLink p" t])
qed

lemma lru_map_ok:
  assumes l: "pra_list s xs" and p: "p \<notin> set xs"
  shows "\<exists>s'. lru_map_swappable (Some PraHead) p s = Some s' \<and> pra_list s' (p # xs)"
proof -
  let ?h = "list_add PraHead (PraLink p) (plinks s)"
  have d: "dlist ?h PraHead (map PraLink (p # xs))" by (rule pra_list_add [OF l p])
  have t: "lnext (plinks s) PraHead = hd (map PraLink xs @ [PraHead])"
    using l by (simp add: pra_list_def dlist_lnext_head)
  have "lru_loop PraHead (PraLink p) (lnext (plinks s) PraHead) ?h = Some ?h"
  proof (cases xs)
    case Nil
    then show ?thesis by (simp add: t lru_loop.simps [of PraHead "PraLink p" PraHead])
  next
    case (Cons x ys)
    then have "dseg ?h (PraLink x) (map PraLink ys) PraHead" using d by (simp add: dlist_def)
    then show ?thesis using lru_loop_fresh [of ?h "PraLink x" "map PraLink ys" p] p Cons
      by (auto simp: t)
  qed
  then show ?thesis using d by (simp add: lru_map_swappable_def pra_list_def)
qed

lemma lru_victim_ok:
  assumes "pra_list s (xs @ [p])"
  shows "\<exists>s'. lru_swap_out_victim (Some PraHead) False s = Some (0, Some p, s') \<and> pra_list s' xs"
  using pra_list_del [of s xs p "[]"] pra_list_prev_head [OF assms] assms
  by (simp add: lru_swap_out_victim_def pra_list_def)

text \<open>
  The clock hand moves towards the head. \<open>ys\<close> are the pages from the hand to the head, so the list is
  \<open>rev ys @ vs\<close>; a round over the whole list meets \<open>ys @ rev vs\<close>.
\<close>

definition clock_inv :: "pra \<Rightarrow> nat list \<Rightarrow> bool" where
  "clock_inv s xs \<longleftrightarrow> pra_list s xs \<and> curr_ptr s \<in> insert PraHead (PraLink ` set xs)"

definition hand_at :: "pra \<Rightarrow> nat list \<Rightarrow> bool" where
  "hand_at s ys \<longleftrightarrow> curr_ptr s = hd (map PraLink ys @ [PraHead])"

definition sweep :: "nat set \<Rightarrow> pra_ent \<Rightarrow> pra \<Rightarrow> pra" where
  "sweep A c s = s\<lparr>visited := (\<lambda>q. if q \<in> A then 0 else visited s q), curr_ptr := c\<rparr>"

lemma sweep_sel [simp]:
  "plinks (sweep A c s) = plinks s" "curr_ptr (sweep A c s) = c"
  "visited (sweep A c s) = (\<lambda>q. if q \<in> A then 0 else visited s q)" "pra_list (sweep A c s) xs = pra_list s xs"
  by (simp_all add: sweep_def pra_list_def)

lemma sweep_empty: "sweep {} c s = s\<lparr>curr_ptr := c\<rparr>"
  by (simp add: sweep_def)

lemma sweep_sweep [simp]: "sweep A c (sweep B d s) = sweep (A \<union> B) c s"
  by (auto simp: sweep_def fun_eq_iff)

lemma hand_back: "pra_list s (rev (a # ys) @ vs) \<Longrightarrow> list_prev (PraLink a) (plinks s) = hd (map PraLink ys @ [PraHead])"
  using list_prev_elem_dlist [of "plinks s" PraHead "map PraLink (rev ys)" "PraLink a" "map PraLink vs"]
  by (cases ys) (simp_all add: pra_list_def)

lemma clock_step:
  assumes "pra_list s (rev (a # ys) @ vs)" and "hand_at s (a # ys)" and "visited s a \<noteq> 0"
  shows "clock_loop PraHead s = clock_loop PraHead (sweep {a} (hd (map PraLink ys @ [PraHead])) s)"
proof -
  have c: "curr_ptr s = PraLink a" using assms(2) by (simp add: hand_at_def)
  have "s\<lparr>visited := (visited s)(a := 0), curr_ptr := hd (map PraLink ys @ [PraHead])\<rparr> =
      sweep {a} (hd (map PraLink ys @ [PraHead])) s"
    by (auto simp: sweep_def fun_upd_def)
  then show ?thesis using hand_back [OF assms(1)] assms(3) c
    by (subst clock_loop.simps) (simp add: c)
qed

lemma clock_finds:
  assumes "pra_list s (rev (as @ p # bs) @ vs)" and "hand_at s (as @ p # bs)"
    and "\<forall>q \<in> set as. visited s q \<noteq> 0" and "visited s p = 0"
  shows "\<exists>s'. clock_loop PraHead s = Some (0, Some p, s') \<and> clock_inv s' (rev bs @ rev as @ vs) \<and>
    visited s' = visited (sweep (set as) c s)"
  using assms
proof (induction as arbitrary: s vs)
  case Nil
  have l: "pra_list s (rev (p # bs) @ vs)" and c: "curr_ptr s = PraLink p"
    using Nil.prems(1,2) by (simp_all add: hand_at_def)
  let ?b = "hd (map PraLink bs @ [PraHead])"
  have n: "list_next ?b (plinks s) = PraLink p"
  proof (cases bs)
    case Nil
    then show ?thesis using l list_next_head_dlist [of "plinks s" PraHead] by (simp add: pra_list_def)
  next
    case (Cons b bs')
    then show ?thesis
      using l list_next_elem_dlist [of "plinks s" PraHead "map PraLink (rev bs')" "PraLink b" "map PraLink (p # vs)"]
      by (simp add: pra_list_def)
  qed
  have d: "dlist (list_del (PraLink p) (plinks s)) PraHead (map PraLink (rev bs @ vs))"
    using pra_list_del [of s "rev bs" p vs] l by simp
  have "clock_loop PraHead s = Some (0, Some p, s\<lparr>curr_ptr := ?b, plinks := list_del (PraLink p) (plinks s)\<rparr>)"
    using hand_back [OF l] n Nil.prems(4) by (subst clock_loop.simps) (simp add: c)
  moreover have "?b \<in> insert PraHead (PraLink ` set (rev bs @ vs))" by (cases bs) auto
  ultimately show ?case using d by (simp add: clock_inv_def pra_list_def sweep_def)
next
  case (Cons a as)
  let ?s1 = "sweep {a} (hd (map PraLink (as @ p # bs) @ [PraHead])) s"
  have dis: "distinct (rev (as @ p # bs) @ a # vs)"
    using pra_list_distinct Cons.prems(1) by fastforce
  have 1: "clock_loop PraHead s = clock_loop PraHead ?s1"
    using clock_step [of s a "as @ p # bs" vs] Cons.prems by simp
  have "\<exists>s'. clock_loop PraHead ?s1 = Some (0, Some p, s') \<and> clock_inv s' (rev bs @ rev as @ a # vs) \<and>
      visited s' = visited (sweep (set as) c ?s1)"
  proof (rule Cons.IH)
    show "pra_list ?s1 (rev (as @ p # bs) @ a # vs)" using Cons.prems(1) by simp
    show "hand_at ?s1 (as @ p # bs)" by (simp add: hand_at_def)
    show "\<forall>q \<in> set as. visited ?s1 q \<noteq> 0" using Cons.prems(3) dis by auto
    show "visited ?s1 p = 0" using Cons.prems(4) by simp
  qed
  then show ?case unfolding 1 by (auto simp: fun_eq_iff)
qed

lemma clock_passes:
  assumes "pra_list s (rev ys @ vs)" and "hand_at s ys" and "\<forall>q \<in> set ys. visited s q \<noteq> 0"
  shows "clock_loop PraHead s = clock_loop PraHead (sweep (set ys) PraHead s)"
  using assms
proof (induction ys arbitrary: s vs)
  case Nil
  then have "s\<lparr>curr_ptr := PraHead\<rparr> = s" by (simp add: hand_at_def)
  then show ?case by (simp add: sweep_empty)
next
  case (Cons a ys)
  let ?s1 = "sweep {a} (hd (map PraLink ys @ [PraHead])) s"
  have dis: "distinct (rev ys @ a # vs)"
    using pra_list_distinct Cons.prems(1) by fastforce
  have "clock_loop PraHead s = clock_loop PraHead ?s1" by (rule clock_step [OF Cons.prems(1,2)]) (use Cons.prems(3) in simp)
  also have "\<dots> = clock_loop PraHead (sweep (set ys) PraHead ?s1)"
    by (rule Cons.IH [of _ "a # vs"]) (use Cons.prems dis in \<open>auto simp: hand_at_def\<close>)
  finally show ?case by simp
qed

lemma clock_wraps:
  assumes "pra_list s xs" and "curr_ptr s = PraHead"
  shows "clock_loop PraHead s = clock_loop PraHead (sweep {} (hd (map PraLink (rev xs) @ [PraHead])) s)"
proof -
  have "last (PraHead # map PraLink xs) = hd (map PraLink (rev xs) @ [PraHead])" by (cases xs rule: rev_cases) auto
  then show ?thesis
    using pra_list_prev_head [OF assms(1)] by (subst clock_loop.simps) (simp add: assms(2) sweep_empty)
qed

text \<open>The victim: the first page not visited on the way round, else the first of all.\<close>

definition clock_choice :: "(nat \<Rightarrow> nat) \<Rightarrow> nat list \<Rightarrow> nat" where
  "clock_choice vis order = hd (dropWhile (\<lambda>q. vis q \<noteq> 0) order @ order)"

lemma clock_victim_ok:
  assumes l: "pra_list s (rev ys @ vs)" and h: "hand_at s ys" and ne: "ys @ rev vs \<noteq> []"
  shows "\<exists>s'. clock_loop PraHead s = Some (0, Some (clock_choice (visited s) (ys @ rev vs)), s') \<and>
    clock_inv s' (remove1 (clock_choice (visited s) (ys @ rev vs)) (rev ys @ vs)) \<and>
    (\<forall>q. visited s' q = (if q \<in> set (takeWhile (\<lambda>q. visited s q \<noteq> 0) (ys @ rev vs)) then 0 else visited s q))"
    (is "?goal s ys vs")
proof -
  have dis: "distinct (rev ys @ vs)"
    using pra_list_distinct l by fastforce
  have found: "\<exists>s'. clock_loop PraHead t = Some (0, Some p, s') \<and> clock_inv s' (remove1 p (rev zs @ ws)) \<and>
      (\<forall>q. visited s' q = (if q \<in> set as then 0 else visited t q))"
    if "pra_list t (rev zs @ ws)" "hand_at t zs" "zs = as @ p # bs" "\<forall>q \<in> set as. visited t q \<noteq> 0" "visited t p = 0"
    for t zs ws as p bs
  proof -
    have d: "distinct (rev zs @ ws)"
      using pra_list_distinct that(1) by fastforce
    then have "remove1 p (rev zs @ ws) = rev bs @ rev as @ ws"
      using that(3) by (simp add: remove1_append)
    then show ?thesis using clock_finds [of t as p bs ws PraHead] that by auto
  qed
  have round: "clock_loop PraHead t = clock_loop PraHead (sweep (set zs) (hd (map PraLink (rev ws @ zs) @ [PraHead])) t)"
    if "pra_list t (rev zs @ ws)" "hand_at t zs" "\<forall>q \<in> set zs. visited t q \<noteq> 0" for t zs ws
    using clock_passes [OF that] clock_wraps [of "sweep (set zs) PraHead t" "rev zs @ ws"] that(1) by simp
  consider (a) as p bs where "ys = as @ p # bs" "\<forall>q \<in> set as. visited s q \<noteq> 0" "visited s p = 0"
    | (b) as p bs where "\<forall>q \<in> set ys. visited s q \<noteq> 0" "rev vs = as @ p # bs" "\<forall>q \<in> set as. visited s q \<noteq> 0" "visited s p = 0"
    | (c) "\<forall>q \<in> set (ys @ rev vs). visited s q \<noteq> 0"
    using split_list_first_prop [of ys "\<lambda>q. visited s q = 0"] split_list_first_prop [of "rev vs" "\<lambda>q. visited s q = 0"]
    by fastforce
  then show ?thesis
  proof cases
    case a
    then show ?thesis using found [OF l h a] by (simp add: clock_choice_def takeWhile_append2 dropWhile_append2)
  next
    case b
    let ?t = "sweep (set ys) (hd (map PraLink (rev vs @ ys) @ [PraHead])) s"
    note e = round [OF l h b(1)]
    have "pra_list ?t (rev (rev vs @ ys) @ [])" "hand_at ?t (rev vs @ ys)" "rev vs @ ys = as @ p # (bs @ ys)"
      "\<forall>q \<in> set as. visited ?t q \<noteq> 0" "visited ?t p = 0"
    proof -
      have "set (rev vs) = set as \<union> {p} \<union> set bs" unfolding b(2) by simp
      moreover have "set ys \<inter> set (rev vs) = {}" using dis by auto
      ultimately have "set as \<inter> set ys = {}" "p \<notin> set ys" by blast+
      then show "\<forall>q \<in> set as. visited ?t q \<noteq> 0" "visited ?t p = 0" using b(3,4) by auto
      show "pra_list ?t (rev (rev vs @ ys) @ [])" "hand_at ?t (rev vs @ ys)" using l by (simp_all add: hand_at_def)
      show "rev vs @ ys = as @ p # (bs @ ys)" using b(2) by simp
    qed
    note f = found [OF this]
    have "takeWhile (\<lambda>q. visited s q \<noteq> 0) (ys @ rev vs) = ys @ as"
      "clock_choice (visited s) (ys @ rev vs) = p"
      using b by (simp_all add: clock_choice_def takeWhile_append2 dropWhile_append2)
    moreover have "rev (rev vs @ ys) @ [] = rev ys @ vs" by simp
    ultimately show ?thesis using f e by auto
  next
    case c
    have all: "takeWhile (\<lambda>q. visited s q \<noteq> 0) (ys @ rev vs) = ys @ rev vs"
      "clock_choice (visited s) (ys @ rev vs) = hd (ys @ rev vs)"
      using c by (simp_all add: clock_choice_def takeWhile_eq_all_conv [THEN iffD2] dropWhile_eq_Nil_conv [THEN iffD2])
    have c1: "\<forall>q \<in> set ys. visited s q \<noteq> 0" using c by simp
    note e = round [OF l h c1]
    show ?thesis
    proof (cases ys)
      case (Cons y ys')
      let ?t = "sweep (set ys) (hd (map PraLink (rev vs @ ys) @ [PraHead])) s"
      have "pra_list ?t (rev (rev vs @ ys) @ [])" "hand_at ?t (rev vs @ ys)" "rev vs @ ys = rev vs @ y # ys'"
        "\<forall>q \<in> set (rev vs). visited ?t q \<noteq> 0" "visited ?t y = 0"
        using l c dis Cons by (auto simp: hand_at_def)
      from found [OF this] e all Cons show ?thesis by auto
    next
      case Nil
      then obtain p bs where p: "rev vs = p # bs" using ne by (cases "rev vs") auto
      let ?t = "s\<lparr>curr_ptr := hd (map PraLink (rev vs) @ [PraHead])\<rparr>"
      let ?u = "sweep (set vs) (hd (map PraLink (rev vs) @ [PraHead])) ?t"
      have t: "pra_list ?t (rev (rev vs) @ [])" "hand_at ?t (rev vs)" "\<forall>q \<in> set (rev vs). visited ?t q \<noteq> 0"
        using l c Nil by (auto simp: hand_at_def pra_list_def)
      have "pra_list ?u (rev (rev vs) @ [])" "hand_at ?u (rev vs)" "rev vs = [] @ p # bs"
        "\<forall>q \<in> set []. visited ?u q \<noteq> 0" "visited ?u p = 0"
        using t(1) p set_rev [of vs] by (auto simp: hand_at_def)
      note f = found [OF this]
      have "clock_loop PraHead s = clock_loop PraHead ?u"
        using e round [OF t] Nil by (simp add: sweep_empty)
      moreover have "visited ?u = (\<lambda>q. if q \<in> set vs then 0 else visited s q)" by (auto simp: fun_eq_iff)
      ultimately show ?thesis using f all Nil p by simp
    qed
  qed
qed

lemma hand_splits:
  assumes "clock_inv s xs"
  obtains ys vs where "xs = rev ys @ vs" "hand_at s ys"
proof (cases "curr_ptr s")
  case PraHead
  then show ?thesis using that [of "[]" xs] by (simp add: hand_at_def)
next
  case (PraLink x)
  then have "x \<in> set xs" using assms by (auto simp: clock_inv_def)
  then obtain us vs where "xs = us @ x # vs" by (meson split_list)
  then show ?thesis using that [of "x # rev us" vs] PraLink by (simp add: hand_at_def)
qed

text \<open>On an empty list the hand stays at the head for ever.\<close>

lemma clock_empty_diverges:
  assumes "pra_list s []" and "curr_ptr s = PraHead"
  shows "clock_loop PraHead s = None"
proof (rule ccontr)
  assume "clock_loop PraHead s \<noteq> None"
  then obtain r where r: "clock_loop PraHead s = Some r" by blast
  have "PraHead = PraHead \<longrightarrow> pra_list s [] \<longrightarrow> curr_ptr s = PraHead \<longrightarrow> False"
  proof (rule clock_loop.raw_induct [where P = "\<lambda>h s r. h = PraHead \<longrightarrow> pra_list s [] \<longrightarrow> curr_ptr s = PraHead \<longrightarrow> False",
        OF _ r])
    fix f h t and r :: "int \<times> nat option \<times> pra"
    assume ih: "\<And>h s r. f h s = Some r \<Longrightarrow> h = PraHead \<longrightarrow> pra_list s [] \<longrightarrow> curr_ptr s = PraHead \<longrightarrow> False"
      and step: "(let back = list_prev (curr_ptr t) (plinks t) in
        if curr_ptr t = h then f h (t\<lparr>curr_ptr := back\<rparr>)
        else do {
          p \<leftarrow> pra_page (curr_ptr t);
          if visited t p = 0 then
            Some (0, Some p, t\<lparr>curr_ptr := back, plinks := list_del (list_next back (plinks t)) (plinks t)\<rparr>)
          else f h (t\<lparr>visited := (visited t)(p := 0), curr_ptr := back\<rparr>)
        }) = Some r"
    show "h = PraHead \<longrightarrow> pra_list t [] \<longrightarrow> curr_ptr t = PraHead \<longrightarrow> False"
    proof (intro impI)
      assume a: "h = PraHead" "pra_list t []" "curr_ptr t = PraHead"
      then have "list_prev PraHead (plinks t) = PraHead" using pra_list_prev_head [OF a(2)] by simp
      then have "f PraHead (t\<lparr>curr_ptr := PraHead\<rparr>) = Some r" using step a by simp
      from ih [OF this] show False using a(2) by (simp add: pra_list_def)
    qed
  qed
  then show False using assms by blast
qed

text \<open>
  Linking a page that is already on the list first sets its links to the front; the entry before its old
  place still leads to it, and unlinking it removes it from the front only. From the old front one then
  comes round to the old front again, never to the head, and the next search for a new page has no end.
\<close>

lemma lru_ring_diverges:
  assumes "set zs \<noteq> {}" and ring: "\<forall>z \<in> set zs. lnext h z \<in> set zs" and z: "z \<in> set zs"
    and no: "PraHead \<notin> set zs" "e \<notin> set zs"
  shows "lru_loop PraHead e z h = None"
proof (rule ccontr)
  assume "lru_loop PraHead e z h \<noteq> None"
  then obtain r where r: "lru_loop PraHead e z h = Some r" by blast
  have "z \<in> set zs \<longrightarrow> PraHead = PraHead \<longrightarrow> e = e \<longrightarrow> h = h \<longrightarrow> False"
  proof (rule lru_loop.raw_induct [where P = "\<lambda>hd' e' z h' r. z \<in> set zs \<longrightarrow> hd' = PraHead \<longrightarrow> e' = e \<longrightarrow> h' = h \<longrightarrow> False",
        OF _ r])
    fix f hd' e' t h' and r :: "pra_ent links"
    assume ih: "\<And>hd' e' z h' r. f hd' e' z h' = Some r \<Longrightarrow> z \<in> set zs \<longrightarrow> hd' = PraHead \<longrightarrow> e' = e \<longrightarrow> h' = h \<longrightarrow> False"
      and step: "(if t = hd' then Some h' else if e' = t then Some (list_del t h') else f hd' e' (lnext h' t) h') = Some r"
    show "t \<in> set zs \<longrightarrow> hd' = PraHead \<longrightarrow> e' = e \<longrightarrow> h' = h \<longrightarrow> False"
      using ih [of hd' e' "lnext h' t" h' r] step ring no by (auto split: if_splits)
  qed
  then show False using z by simp
qed

lemma lru_loop_finds:
  assumes "dseg h0 t ys e" and "\<forall>x \<in> set (t # ys). lnext h x = lnext h0 x"
    and "PraHead \<notin> set (t # ys)" and "e \<notin> set (t # ys)" and "e \<noteq> PraHead"
  shows "lru_loop PraHead e t h = Some (list_del e h)"
  using assms
proof (induction ys arbitrary: t)
  case Nil
  then show ?case
    by (simp add: lru_loop.simps [of PraHead e t] lru_loop.simps [of PraHead e e])
next
  case (Cons y ys)
  then show ?case using Cons.IH [of y] by (auto simp: lru_loop.simps [of PraHead e t])
qed

lemma lru_requeue_ring:
  assumes l: "pra_list s (us @ p # vs)"
  shows "\<exists>s'. lru_map_swappable (Some PraHead) p s = Some s' \<and> lnext (plinks s') PraHead = hd (map PraLink (us @ [p])) \<and>
    (\<forall>z \<in> set (map PraLink (us @ [p])). lnext (plinks s') z \<in> set (map PraLink (us @ [p])))"
proof -
  let ?h = "plinks s"
  let ?h1 = "list_add PraHead (PraLink p) ?h"
  let ?h2 = "list_del (PraLink p) ?h1"
  have d: "dlist ?h PraHead (map PraLink us @ PraLink p # map PraLink vs)" using l by (simp add: pra_list_def)
  have dis: "distinct (us @ p # vs)" by (rule pra_list_distinct [OF l])
  have t: "lnext ?h PraHead = hd (map PraLink (us @ [p]))" using dlist_lnext_head [OF d] by (cases us) auto
  have nx: "lnext ?h (PraLink z) \<in> set (map PraLink (us @ [p]))" if z: "z \<in> set us" for z
  proof -
    from z obtain as bs where u: "us = as @ z # bs" by (meson split_list)
    have "dlist ?h PraHead (map PraLink as @ PraLink z # (map PraLink bs @ PraLink p # map PraLink vs))"
      using d by (simp add: u)
    from dlist_lnext_elem [OF this] show ?thesis unfolding u by (cases bs) auto
  qed
  have h2: "lnext ?h2 = (lnext ?h)(PraLink p := hd (map PraLink (us @ [p])), PraHead := hd (map PraLink (us @ [p])))"
    using t by (auto simp: list_add_def list_add_after_def raw_list_add_def list_del_def raw_list_del_def)
  have "lru_loop PraHead (PraLink p) (lnext ?h PraHead) ?h1 = Some ?h2"
  proof (cases us)
    case Nil
    then show ?thesis by (simp add: t lru_loop.simps [of PraHead "PraLink p" "PraLink p"])
  next
    case (Cons u us')
    have "dseg ?h (PraLink u) (map PraLink us') (PraLink p)" using d Cons by (simp add: dlist_def)
    then have "lru_loop PraHead (PraLink p) (PraLink u) ?h1 = Some ?h2"
      by (rule lru_loop_finds) (use dis Cons in \<open>auto simp: list_add_def list_add_after_def raw_list_add_def\<close>)
    then show ?thesis by (simp add: t Cons)
  qed
  moreover define s' where "s' = s\<lparr>plinks := ?h2, visited := (visited s)(p := 1)\<rparr>"
  ultimately have "lru_map_swappable (Some PraHead) p s = Some s'"
    by (simp add: lru_map_swappable_def)
  moreover have "plinks s' = ?h2" by (simp add: s'_def)
  moreover have "lnext ?h2 PraHead = hd (map PraLink (us @ [p]))" using h2 by simp
  moreover have "lnext ?h2 z \<in> set (map PraLink (us @ [p]))" if "z \<in> set (map PraLink (us @ [p]))" for z
    using that nx unfolding h2 by (cases us) auto
  ultimately show ?thesis by metis
qed

section \<open>The contract of a manager\<close>

text \<open>What \<open>swap.c\<close> relies on: the manager holds a set of pages, and a victim is one of them.\<close>

locale swap_policy =
  fixes sm :: swap_manager and rep :: "pra \<Rightarrow> nat set \<Rightarrow> bool"
  assumes init_ok: "\<exists>s'. sm_init_mm sm s = (PraHead, s') \<and> rep s' {}"
    and map_ok: "rep s Q \<Longrightarrow> p \<notin> Q \<Longrightarrow>
      \<exists>s'. sm_map_swappable sm (Some PraHead) p s = Some s' \<and> rep s' (insert p Q)"
    and victim_ok: "rep s Q \<Longrightarrow> Q \<noteq> {} \<Longrightarrow>
      \<exists>p s'. sm_swap_out_victim sm (Some PraHead) False s = Some (0, Some p, s') \<and> p \<in> Q \<and> rep s' (Q - {p})"

definition pra_rep :: "pra \<Rightarrow> nat set \<Rightarrow> bool" where
  "pra_rep s Q \<longleftrightarrow> (\<exists>xs. pra_list s xs \<and> Q = set xs)"

definition clock_rep :: "pra \<Rightarrow> nat set \<Rightarrow> bool" where
  "clock_rep s Q \<longleftrightarrow> (\<exists>xs. clock_inv s xs \<and> Q = set xs)"

lemma pra_init: "pra_list (s\<lparr>plinks := list_init PraHead h\<rparr>) []"
  using list_init_dlist [of PraHead h] by (simp add: pra_list_def)

lemma pra_rep_last:
  assumes "pra_rep s Q" and "Q \<noteq> {}"
  obtains xs p where "pra_list s (xs @ [p])" "p \<in> Q" "Q - {p} = set xs"
proof -
  from assms obtain ys where ys: "pra_list s ys" "Q = set ys" by (auto simp: pra_rep_def)
  then obtain xs p where "ys = xs @ [p]" using assms(2) by (cases ys rule: rev_cases) auto
  then show ?thesis using that [of xs p] ys pra_list_distinct [OF ys(1)] by auto
qed

interpretation fifo: swap_policy swap_manager_fifo pra_rep
proof
  show "\<exists>s'. sm_init_mm swap_manager_fifo s = (PraHead, s') \<and> pra_rep s' {}" for s
    using pra_init by (auto simp: swap_manager_fifo_def fifo_init_mm_def pra_rep_def)
  show "\<exists>s'. sm_map_swappable swap_manager_fifo (Some PraHead) p s = Some s' \<and> pra_rep s' (insert p Q)"
    if "pra_rep s Q" "p \<notin> Q" for s Q p
    using that fifo_map_ok [of s _ p] by (fastforce simp: swap_manager_fifo_def pra_rep_def)
  show "\<exists>p s'. sm_swap_out_victim swap_manager_fifo (Some PraHead) False s = Some (0, Some p, s') \<and> p \<in> Q \<and> pra_rep s' (Q - {p})"
    if "pra_rep s Q" "Q \<noteq> {}" for s Q
  proof -
    from that obtain xs p where "pra_list s (xs @ [p])" "p \<in> Q" "Q - {p} = set xs" by (rule pra_rep_last)
    then show ?thesis using fifo_victim_ok [of s xs p] by (auto simp: swap_manager_fifo_def pra_rep_def)
  qed
qed

interpretation lru: swap_policy swap_manager_lru pra_rep
proof
  show "\<exists>s'. sm_init_mm swap_manager_lru s = (PraHead, s') \<and> pra_rep s' {}" for s
    using pra_init by (auto simp: swap_manager_lru_def lru_init_mm_def pra_rep_def)
  show "\<exists>s'. sm_map_swappable swap_manager_lru (Some PraHead) p s = Some s' \<and> pra_rep s' (insert p Q)"
    if "pra_rep s Q" "p \<notin> Q" for s Q p
    using that lru_map_ok [of s _ p] by (fastforce simp: swap_manager_lru_def pra_rep_def)
  show "\<exists>p s'. sm_swap_out_victim swap_manager_lru (Some PraHead) False s = Some (0, Some p, s') \<and> p \<in> Q \<and> pra_rep s' (Q - {p})"
    if "pra_rep s Q" "Q \<noteq> {}" for s Q
  proof -
    from that obtain xs p where "pra_list s (xs @ [p])" "p \<in> Q" "Q - {p} = set xs" by (rule pra_rep_last)
    then show ?thesis using lru_victim_ok [of s xs p] by (auto simp: swap_manager_lru_def pra_rep_def)
  qed
qed

lemma clock_choice_in: "order \<noteq> [] \<Longrightarrow> clock_choice vis order \<in> set order"
  using hd_in_set [of "dropWhile (\<lambda>q. vis q \<noteq> 0) order @ order"] set_dropWhileD [of _ "\<lambda>q. vis q \<noteq> 0" order]
  unfolding clock_choice_def by (metis append_is_Nil_conv set_append UnE)

interpretation clock: swap_policy swap_manager_clock clock_rep
proof
  show "\<exists>s'. sm_init_mm swap_manager_clock s = (PraHead, s') \<and> clock_rep s' {}" for s
    using list_init_dlist [of PraHead "plinks s"]
    by (auto simp: swap_manager_clock_def clock_init_mm_def clock_rep_def clock_inv_def pra_list_def)
  show "\<exists>s'. sm_map_swappable swap_manager_clock (Some PraHead) p s = Some s' \<and> clock_rep s' (insert p Q)"
    if "clock_rep s Q" "p \<notin> Q" for s Q p
  proof -
    from that obtain xs where xs: "clock_inv s xs" "Q = set xs" by (auto simp: clock_rep_def)
    then show ?thesis using pra_list_add [of s xs p] that(2)
      by (auto simp: swap_manager_clock_def clock_map_swappable_def clock_rep_def clock_inv_def pra_list_def
          intro!: exI [of _ "p # xs"])
  qed
  show "\<exists>p s'. sm_swap_out_victim swap_manager_clock (Some PraHead) False s = Some (0, Some p, s') \<and> p \<in> Q \<and> clock_rep s' (Q - {p})"
    if "clock_rep s Q" "Q \<noteq> {}" for s Q
  proof -
    from that obtain xs where xs: "clock_inv s xs" "Q = set xs" by (auto simp: clock_rep_def)
    from hand_splits [OF xs(1)] obtain ys vs where yv: "xs = rev ys @ vs" "hand_at s ys" by blast
    have l: "pra_list s (rev ys @ vs)" using xs(1) yv(1) by (simp add: clock_inv_def)
    have ne: "ys @ rev vs \<noteq> []" using that(2) xs(2) yv(1) by auto
    let ?p = "clock_choice (visited s) (ys @ rev vs)"
    from clock_victim_ok [OF l yv(2) ne] obtain s' where
      s': "clock_loop PraHead s = Some (0, Some ?p, s')" "clock_inv s' (remove1 ?p xs)"
      unfolding yv(1) by blast
    have "?p \<in> Q" using clock_choice_in [OF ne, of "visited s"] xs(2) yv(1) by auto
    moreover have "set (remove1 ?p xs) = Q - {?p}"
      using pra_list_distinct [of s xs] xs by (simp add: clock_inv_def)
    ultimately show ?thesis using s'
      by (auto simp: swap_manager_clock_def clock_swap_out_victim_def clock_rep_def)
  qed
qed

section \<open>The swap device\<close>

text \<open>
  The device is the array \<open>ide\<close> of \<open>driver/ide.c\<close>, 56 sectors, here in words of 8 bytes; the functions do not
  check bounds. \<open>max_swap_offset\<close> is what \<open>swapfs_init\<close> computes.
\<close>

definition SECTSIZE_words :: nat where "SECTSIZE_words = 64"
definition MAX_IDE_NSECS :: nat where "MAX_IDE_NSECS = 56"
definition PAGE_NSECT :: nat where "PAGE_NSECT = 8"
definition SWAP_DEV_NO :: nat where "SWAP_DEV_NO = 1"

definition ide_device_nsecs :: "nat \<Rightarrow> nat" where "ide_device_nsecs ideno = MAX_IDE_NSECS"

definition ide_read :: "nat \<Rightarrow> u32 \<Rightarrow> nat \<Rightarrow> (nat \<Rightarrow> u64) \<Rightarrow> (nat \<Rightarrow> u64) \<Rightarrow> int \<times> (nat \<Rightarrow> u64)" where
  "ide_read ideno secno nsecs dev dst =
     (let iobase = unat secno * SECTSIZE_words
      in (0, \<lambda>k. if k < nsecs * SECTSIZE_words then dev (iobase + k) else dst k))"

definition ide_write :: "nat \<Rightarrow> u32 \<Rightarrow> nat \<Rightarrow> (nat \<Rightarrow> u64) \<Rightarrow> (nat \<Rightarrow> u64) \<Rightarrow> int \<times> (nat \<Rightarrow> u64)" where
  "ide_write ideno secno nsecs src dev =
     (let iobase = unat secno * SECTSIZE_words
      in (0, \<lambda>k. if iobase \<le> k \<and> k < iobase + nsecs * SECTSIZE_words then src (k - iobase) else dev k))"

definition max_swap_offset :: u64 where
  "max_swap_offset = of_nat (ide_device_nsecs SWAP_DEV_NO div PAGE_NSECT)"

definition swap_offset :: "u64 \<Rightarrow> u64 option" where
  "swap_offset entry = do {
     let off = drop_bit 8 entry;
     c_assert (off > 0 \<and> off < max_swap_offset);
     Some off
   }"

record swapst =
  smem :: pmem
  spra :: pra
  pra_vaddr :: "nat \<Rightarrow> u64"
  swapdev :: "nat \<Rightarrow> u64"

definition swapfs_read :: "u64 \<Rightarrow> nat \<Rightarrow> swapst \<Rightarrow> (int \<times> swapst) option" where
  "swapfs_read entry p s = do {
     off \<leftarrow> swap_offset entry;
     let (r, c) = ide_read SWAP_DEV_NO (ucast (off * of_nat PAGE_NSECT)) PAGE_NSECT (swapdev s) (words (smem s) p);
     Some (r, s\<lparr>smem := set_frame p c (smem s)\<rparr>)
   }"

definition swapfs_write :: "u64 \<Rightarrow> nat \<Rightarrow> swapst \<Rightarrow> (int \<times> swapst) option" where
  "swapfs_write entry p s = do {
     off \<leftarrow> swap_offset entry;
     let (r, d) = ide_write SWAP_DEV_NO (ucast (off * of_nat PAGE_NSECT)) PAGE_NSECT (words (smem s) p) (swapdev s);
     Some (r, s\<lparr>swapdev := d\<rparr>)
   }"

section \<open>swap.c\<close>

text \<open>The swap entry of a virtual address: \<open>(v / PGSIZE + 1) << 8\<close>.\<close>

definition swap_entry :: "u64 \<Rightarrow> u64" where
  "swap_entry v = push_bit 8 (v div PGSIZE + 1)"

text \<open>
  \<open>swap_out(mm, n, in_tick)\<close> with \<open>mm->pgdir\<close> and \<open>mm->sm_priv\<close>; \<open>i\<close> counts the rounds. A victim that is
  \<open>NULL\<close>, or an address without a page table, is a null pointer that is read.
\<close>

fun swap_out_loop ::
  "swap_manager \<Rightarrow> pmm_alloc \<Rightarrow> pmm_free \<Rightarrow> nat \<Rightarrow> pra_ent option \<Rightarrow> nat \<Rightarrow> nat \<Rightarrow> bool \<Rightarrow> swapst \<Rightarrow> (nat \<times> swapst) option" where
  "swap_out_loop sm al fr pgdir priv i 0 in_tick s = Some (i, s)"
| "swap_out_loop sm al fr pgdir priv i (Suc n) in_tick s = do {
     (r, page, q) \<leftarrow> sm_swap_out_victim sm priv in_tick (spra s);
     let s1 = s\<lparr>spra := q\<rparr>;
     if r \<noteq> 0 then Some (i, s1)
     else do {
       p \<leftarrow> page;
       let v = pra_vaddr s1 p;
       (e, m) \<leftarrow> get_pte al pgdir v False (smem s1);
       e \<leftarrow> e;
       c_assert (read_pte e m AND PTE_V \<noteq> 0);
       (w, s2) \<leftarrow> swapfs_write (swap_entry v) p (s1\<lparr>smem := m\<rparr>);
       if w \<noteq> 0 then do {
         q' \<leftarrow> sm_map_swappable sm priv p (spra s2);
         swap_out_loop sm al fr pgdir priv (i + 1) n in_tick (s2\<lparr>spra := q'\<rparr>)
       } else do {
         m2 \<leftarrow> free_pages fr p 1 (set_word e (swap_entry v) (smem s2));
         swap_out_loop sm al fr pgdir priv (i + 1) n in_tick (s2\<lparr>smem := m2\<rparr>)
       }
     }
   }"

definition swap_out ::
  "swap_manager \<Rightarrow> pmm_alloc \<Rightarrow> pmm_free \<Rightarrow> nat \<Rightarrow> pra_ent option \<Rightarrow> nat \<Rightarrow> bool \<Rightarrow> swapst \<Rightarrow> (nat \<times> swapst) option" where
  "swap_out sm al fr pgdir priv n in_tick s = swap_out_loop sm al fr pgdir priv 0 n in_tick s"

definition swap_in :: "pmm_alloc \<Rightarrow> nat \<Rightarrow> u64 \<Rightarrow> swapst \<Rightarrow> (int \<times> nat \<times> swapst) option" where
  "swap_in al pgdir la s = do {
     (r, m) \<leftarrow> alloc_pages al 1 (smem s);
     p \<leftarrow> r;
     (e, m1) \<leftarrow> get_pte al pgdir la False m;
     e \<leftarrow> e;
     (r, s1) \<leftarrow> swapfs_read (read_pte e m1) p (s\<lparr>smem := m1\<rparr>);
     Some (0, p, s1)
   }"

section \<open>Out and in again\<close>

text \<open>The slot of virtual page \<open>v\<close>; only slots 1 to 6 exist.\<close>

lemma swap_entry_va:
  assumes "v \<le> UPAGES"
  shows "swap_entry (va v) = of_nat (256 * (v + 1))" "drop_bit 8 (swap_entry (va v)) = of_nat (v + 1)"
    "\<not> pte_valid (swap_entry (va v))" "swap_offset (swap_entry (va v)) = (if v < 6 then Some (of_nat (v + 1)) else None)"
proof -
  have u: "unat (va v div PGSIZE + 1) = v + 1"
  proof -
    have "unat (va v div PGSIZE) = v" using unat_va [OF assms] by (simp add: PGSIZE_def unat_div)
    then show ?thesis using assms unat_small [of "v + 1"] by (simp add: UPAGES_def unat_word_ariths(1))
  qed
  have un1: "unat (of_nat (v + 1) :: u64) = v + 1" using assms by (intro unat_small) (simp add: UPAGES_def)
  have w: "va v div PGSIZE + 1 = of_nat (v + 1)" unfolding word_unat_eq_iff un1 u ..
  show e: "swap_entry (va v) = of_nat (256 * (v + 1))" unfolding swap_entry_def w
    by (simp add: push_bit_eq_mult algebra_simps)
  have b: "256 * (v + 1) < 2 ^ 64" using assms by (simp add: UPAGES_def)
  have un: "unat (swap_entry (va v)) = 256 * (v + 1)" unfolding e by (rule unat_small [OF b])
  have "unat (drop_bit 8 (swap_entry (va v))) = v + 1" by (simp only: unat_drop_bit_eq un) (simp add: drop_bit_eq_div)
  then show d: "drop_bit 8 (swap_entry (va v)) = of_nat (v + 1)" unfolding word_unat_eq_iff un1 .
  have "even (swap_entry (va v))" unfolding swap_entry_def by (simp add: push_bit_eq_mult)
  then show "\<not> pte_valid (swap_entry (va v))" by (simp add: pte_valid_bit bit_0)
  have "(of_nat (v + 1) :: u64) > 0 \<and> (of_nat (v + 1) :: u64) < max_swap_offset \<longleftrightarrow> v < 6"
    using un1 by (simp add: word_less_nat_alt max_swap_offset_def ide_device_nsecs_def MAX_IDE_NSECS_def PAGE_NSECT_def)
  then show "swap_offset (swap_entry (va v)) = (if v < 6 then Some (of_nat (v + 1)) else None)"
    unfolding swap_offset_def d by (auto simp: c_assert_def Let_def)
qed

lemma swap_sector: "v < 6 \<Longrightarrow> unat (ucast (of_nat (v + 1) * of_nat PAGE_NSECT :: u64) :: u32) * SECTSIZE_words = 512 * (v + 1)"
proof -
  assume "v < 6"
  then consider "v = 0" | "v = 1" | "v = 2" | "v = 3" | "v = 4" | "v = 5" by linarith
  then show ?thesis by cases (simp_all add: PAGE_NSECT_def SECTSIZE_words_def)
qed

definition store_slot :: "nat \<Rightarrow> (nat \<Rightarrow> u64) \<Rightarrow> (nat \<Rightarrow> u64) \<Rightarrow> nat \<Rightarrow> u64" where
  "store_slot v c d = (\<lambda>k. if 512 * (v + 1) \<le> k \<and> k < 512 * (v + 1) + 512 then c (k - 512 * (v + 1)) else d k)"

definition load_slot :: "nat \<Rightarrow> (nat \<Rightarrow> u64) \<Rightarrow> (nat \<Rightarrow> u64) \<Rightarrow> nat \<Rightarrow> u64" where
  "load_slot v d c = (\<lambda>k. if k < 512 then d (512 * (v + 1) + k) else c k)"

lemma swapfs_write_ok:
  assumes "v < 6"
  shows "swapfs_write (swap_entry (va v)) p s =
    Some (0, s\<lparr>swapdev := store_slot v (words (smem s) p) (swapdev s)\<rparr>)"
proof -
  have "v \<le> UPAGES" using assms by (simp add: UPAGES_def)
  then have "swap_offset (swap_entry (va v)) = Some (of_nat (v + 1))" using swap_entry_va(4) assms by simp
  moreover have "PAGE_NSECT * SECTSIZE_words = 512" by (simp add: PAGE_NSECT_def SECTSIZE_words_def)
  ultimately show ?thesis
    using swap_sector [OF assms] by (simp add: swapfs_write_def ide_write_def store_slot_def Let_def del: of_nat_add of_nat_Suc of_nat_mult cong: if_cong)
qed

lemma swapfs_read_ok:
  assumes "v < 6"
  shows "swapfs_read (swap_entry (va v)) p s =
    Some (0, s\<lparr>smem := set_frame p (load_slot v (swapdev s) (words (smem s) p)) (smem s)\<rparr>)"
proof -
  have "v \<le> UPAGES" using assms by (simp add: UPAGES_def)
  then have "swap_offset (swap_entry (va v)) = Some (of_nat (v + 1))" using swap_entry_va(4) assms by simp
  moreover have "PAGE_NSECT * SECTSIZE_words = 512" by (simp add: PAGE_NSECT_def SECTSIZE_words_def)
  ultimately show ?thesis
    using swap_sector [OF assms] by (simp add: swapfs_read_def ide_read_def load_slot_def Let_def del: of_nat_add of_nat_Suc of_nat_mult cong: if_cong)
qed

text \<open>The pages on offer: each is mapped once, at the low address noted in its descriptor.\<close>

definition swappable :: "nat set \<Rightarrow> nat \<Rightarrow> nat set \<Rightarrow> swapst \<Rightarrow> bool" where
  "swappable R r Q s \<longleftrightarrow> (\<forall>p \<in> Q. \<exists>v < 6. pra_vaddr s p = va v \<and> pte_valid (pte (words (smem s)) r v) \<and>
     mapped (words (smem s)) R p = {(r, v)})"

locale swapping = pmm_manager alloc free nr_free_pages inv + swap_policy sm rep
  for alloc free nr_free_pages inv sm rep
begin

lemma swap_out_one:
  assumes ok: "space_ok inv (\<lambda>_. 0) R F (smem s)" and q: "rep (spra s) Q" "Q \<noteq> {}" and r: "r \<in> R"
    and sw: "swappable R r Q s" and top: "\<And>p. p \<in> Q \<Longrightarrow> not_at_end F p"
  shows "\<exists>p v s1. swap_out sm alloc free r (Some PraHead) 1 False s = Some (1, s1) \<and>
    p \<in> Q \<and> v < 6 \<and> pra_vaddr s p = va v \<and> space_ok inv (\<lambda>_. 0) R (insert p F) (smem s1) \<and>
    rep (spra s1) (Q - {p}) \<and> pra_vaddr s1 = pra_vaddr s \<and> swap_init_ok (smem s1) = swap_init_ok (smem s) \<and>
    (\<forall>r' \<in> R. \<forall>u < UPAGES. pte (words (smem s1)) r' u =
      (if r' = r \<and> u = v then swap_entry (va v) else pte (words (smem s)) r' u)) \<and>
    (\<forall>k < 512. swapdev s1 (512 * (v + 1) + k) = words (smem s) p k) \<and>
    (\<forall>k. k div 512 \<noteq> v + 1 \<longrightarrow> swapdev s1 k = swapdev s k)"
proof -
  let ?m = "smem s" and ?w = "words (smem s)"
  note o = ok [unfolded space_ok_def]
  obtain p q' where vic: "sm_swap_out_victim sm (Some PraHead) False (spra s) = Some (0, Some p, q')"
    "p \<in> Q" "rep q' (Q - {p})" using victim_ok [OF q] by blast
  from sw vic(2) obtain v where v: "v < 6" "pra_vaddr s p = va v" "pte_valid (pte ?w r v)"
    "mapped ?w R p = {(r, v)}" by (auto simp: swappable_def)
  have vU: "v < UPAGES" using v(1) by (simp add: UPAGES_def)
  have pf: "pte_frame (pte ?w r v) = p" using v(4) by (auto simp: mapped_def)
  obtain t k where l: "leaf ?w r v = Some (t, k)"
    using v(3) by (cases "leaf ?w r v") (auto simp: pte_def)
  have pd: "p \<in> data ?w R" using v(4) by (simp add: data_mapped)
  have pn: "p \<notin> F" "page_clean (pages (parea ?m) p)" "page_ref p ?m = 1" using o pd v(4) by auto
  define m1 where "m1 = set_word (t, k) (swap_entry (va v)) ?m"
  have i1: "inv (parea m1) F" using o by (simp add: m1_def)
  have "releasable (parea m1) F p 1" using pn top [OF vic(2)] by (simp add: releasable_def m1_def)
  from free_returns [OF i1 this] obtain a where a: "free p 1 (parea m1) = Some a" "inv a (F \<union> {p..<p + 1})"
    "\<And>x. x \<notin> F \<union> {p..<p + 1} \<Longrightarrow> pages a x = pages (parea m1) x" by blast
  have pp: "{p..<p + 1} = {p}" by auto
  let ?m' = "m1\<lparr>parea := a\<rparr>"
  have step: "shrunk inv (\<lambda>_. 0) R F ?m (insert p F) ?m' \<and> (\<forall>r' \<in> R. \<forall>u < UPAGES.
      pte (words ?m') r' u = (if r' = r \<and> u = v then swap_entry (va v) else pte ?w r' u))"
  proof (rule unlink_entry [OF ok l r vU v(3) pf [symmetric] _ swap_entry_va(3)])
    show "words ?m' = ?w(t := (?w t)(k := swap_entry (va v)))" by (simp add: m1_def)
    show "inv (parea ?m') (insert p F)" using a(2) pp by simp
    show "insert p F = F \<union> (if card (mapped ?w R p) = 1 then {p} else {})" using v(4) by simp
    show "pages (parea ?m') x = pages (parea ?m) x" if "x \<notin> F \<union> {p}" for x
      using a(3) [of x] that pp by (simp add: m1_def)
    show "page_ref x ?m' = page_ref x ?m" if "x \<noteq> p" for x
      using free_ref [OF a(1), of x] that by (simp add: page_ref_def m1_def)
    show "page_ref p ?m' = int (card (mapped ?w R p)) - 1"
      using free_ref [OF a(1), of p] v(4) by (simp add: page_ref_def)
  qed (use vU v(4) in \<open>simp_all add: m1_def\<close>)
  define dev where "dev = store_slot v (?w p) (swapdev s)"
  define s1 where "s1 = s\<lparr>spra := q', swapdev := dev, smem := ?m'\<rparr>"
  have tr: "tree_ok ?w R" using o by blast
  have rd: "read_pte (t, k) ?m AND PTE_V \<noteq> 0" using read_leaf [OF l] v(3) by (simp add: pte_valid_def)
  have g: "get_pte alloc r (va v) False ?m = Some (Some (t, k), ?m)" using get_pte_walk [OF tr r vU] l by simp
  have wr: "swapfs_write (swap_entry (va v)) p (s\<lparr>spra := q'\<rparr>) = Some (0, s\<lparr>spra := q', swapdev := dev\<rparr>)"
    by (simp add: swapfs_write_ok [OF v(1)] dev_def)
  have fr: "free_pages free p 1 m1 = Some ?m'" using a(1) by (simp add: free_pages_def)
  have run: "swap_out sm alloc free r (Some PraHead) 1 False s = Some (1, s1)"
    using fr by (simp add: swap_out_def vic(1) v(2) g rd wr s1_def Let_def flip: m1_def)
  have rest: "space_ok inv (\<lambda>_. 0) R (insert p F) (smem s1)" "swap_init_ok (smem s1) = swap_init_ok ?m"
    using shrunkD(1,8) [OF step [THEN conjunct1]] by (simp_all add: s1_def)
  have d: "\<forall>k < 512. dev (512 * (v + 1) + k) = ?w p k" "\<forall>k. k div 512 \<noteq> v + 1 \<longrightarrow> dev k = swapdev s k"
    by (auto simp: dev_def store_slot_def)
  show ?thesis
    by (intro exI [of _ p] exI [of _ v] exI [of _ s1] conjI run vic(2) v(1) v(2) rest)
      (use step vic(3) d in \<open>simp_all add: s1_def\<close>)
qed

lemma swap_in_ok:
  assumes ok: "space_ok inv (\<lambda>_. 0) R F (smem s)" and r: "r \<in> R" and v: "v < 6"
    and e: "pte (words (smem s)) r v = swap_entry (va v)" and F: "F \<noteq> {}"
  shows "\<exists>p s1. swap_in alloc r (va v) s = Some (0, p, s1) \<and> p \<in> F \<and>
    space_ok inv (\<lambda>_. 0) R (F - {p}) (smem s1) \<and> page_ref p (smem s1) = 0 \<and>
    page_clean (pages (parea (smem s1)) p) \<and> p \<notin> R \<union> kids (words (smem s1)) R \<union> data (words (smem s1)) R \<and>
    spra s1 = spra s \<and> pra_vaddr s1 = pra_vaddr s \<and> swapdev s1 = swapdev s \<and>
    (\<forall>r' \<in> R. \<forall>u < UPAGES. pte (words (smem s1)) r' u = pte (words (smem s)) r' u) \<and>
    (\<forall>k < 512. words (smem s1) p k = swapdev s (512 * (v + 1) + k))"
proof -
  let ?m = "smem s" and ?w = "words (smem s)"
  note o = ok [unfolded space_ok_def]
  have vU: "v < UPAGES" using v by (simp add: UPAGES_def)
  have "swap_entry (va v) \<noteq> 0" using swap_entry_va(4) [of v] v vU by (auto simp: swap_offset_def)
  then obtain q where l: "leaf ?w r v = Some q" using e by (cases "leaf ?w r v") (auto simp: pte_def)
  obtain p a where a: "alloc_pages alloc 1 ?m = Some (Some p, ?m\<lparr>parea := a\<rparr>)" "p \<in> F" "inv a (F - {p})"
      "\<And>q. ref (pages a q) = ref (pages (parea ?m) q)" "page_clean (pages a p)"
      "\<And>q. q \<notin> F \<Longrightarrow> pages a q = pages (parea ?m) q"
    using alloc_page [OF ok] F by metis
  let ?m1 = "?m\<lparr>parea := a\<rparr>"
  have ok1: "space_ok inv (\<lambda>_. 0) R (F - {p}) ?m1" by (rule space_ok_alloc [OF ok a(2,3,4,6)])
  have pn: "p \<notin> R \<union> kids ?w R \<union> data ?w R" "page_ref p ?m = 0" using o a(2) by blast+
  have pn1: "p \<notin> R \<union> kids (words ?m1) R" using pn by simp
  let ?c = "load_slot v (swapdev s) (?w p)"
  note f = space_ok_frame [OF ok1 pn1, where c = ?c]
  have t1: "tree_ok (words ?m1) R" using o by simp
  have g: "get_pte alloc r (va v) False ?m1 = Some (Some q, ?m1)" using get_pte_walk [OF t1 r vU] l by simp
  have rd: "read_pte q ?m1 = swap_entry (va v)" using read_leaf [OF l] e by (simp add: read_pte_def)
  let ?s1 = "s\<lparr>smem := set_frame p ?c ?m1\<rparr>"
  have "swap_in alloc r (va v) s = Some (0, p, ?s1)"
    using a(1) g rd swapfs_read_ok [OF v, of p "s\<lparr>smem := ?m1\<rparr>"] by (simp add: swap_in_def)
  moreover have "data (words (smem ?s1)) R = data ?w R"
    using data_pte_cong [of R "words (smem ?s1)" ?w] f(2) by simp
  ultimately show ?thesis
    using a(2,4,5) f(1,2,4) pn
    by (intro exI [of _ p] exI [of _ ?s1] conjI) (simp_all add: load_slot_def page_ref_def)
qed

end

section \<open>Properties\<close>

interpretation ff_fifo: swapping default_alloc_pages default_free_pages default_nr_free_pages pmm_inv swap_manager_fifo pra_rep
  by unfold_locales

interpretation ff_clock: swapping default_alloc_pages default_free_pages default_nr_free_pages pmm_inv swap_manager_clock clock_rep
  by unfold_locales

text \<open>Pages made swappable one after the other, and a number of victims in a row.\<close>

fun map_all :: "swap_manager \<Rightarrow> pra_ent option \<Rightarrow> nat list \<Rightarrow> pra \<Rightarrow> pra option" where
  "map_all sm priv [] s = Some s"
| "map_all sm priv (p # ps) s = do { s1 \<leftarrow> sm_map_swappable sm priv p s; map_all sm priv ps s1 }"

fun victims :: "swap_manager \<Rightarrow> pra_ent option \<Rightarrow> nat \<Rightarrow> pra \<Rightarrow> (nat list \<times> pra) option" where
  "victims sm priv 0 s = Some ([], s)"
| "victims sm priv (Suc n) s = do {
     (r, p, s1) \<leftarrow> sm_swap_out_victim sm priv False s;
     p \<leftarrow> p;
     (ps, s2) \<leftarrow> victims sm priv n s1;
     Some (p # ps, s2)
   }"

lemma fifo_map_all:
  assumes "pra_list s xs" and "distinct (ps @ xs)"
  shows "\<exists>s'. map_all swap_manager_fifo (Some PraHead) ps s = Some s' \<and> pra_list s' (rev ps @ xs)"
  using assms
proof (induction ps arbitrary: s xs)
  case (Cons p ps)
  obtain s1 where 1: "fifo_map_swappable (Some PraHead) p s = Some s1" "pra_list s1 (p # xs)"
    using fifo_map_ok [of s xs p] Cons.prems by auto
  have "distinct (ps @ p # xs)" using Cons.prems(2) by auto
  from Cons.IH [OF 1(2) this] show ?case using 1(1) by (simp add: swap_manager_fifo_def)
qed simp

lemma fifo_victims:
  assumes "pra_list s (xs @ rev ps)"
  shows "\<exists>s'. victims swap_manager_fifo (Some PraHead) (length ps) s = Some (ps, s') \<and> pra_list s' xs"
  using assms
proof (induction ps arbitrary: s)
  case (Cons p ps)
  obtain s1 where 1: "fifo_swap_out_victim (Some PraHead) False s = Some (0, Some p, s1)" "pra_list s1 (xs @ rev ps)"
    using fifo_victim_ok [of s "xs @ rev ps" p] Cons.prems by auto
  from Cons.IH [OF 1(2)] show ?case using 1(1) by (auto simp: swap_manager_fifo_def)
qed simp

text \<open>The list after \<open>_fifo_init_mm\<close> with page 0 put on it, and page 0 mapped at page 1 of a small memory.\<close>

definition demo_pra :: pra where
  "demo_pra = \<lparr>plinks = list_add PraHead (PraLink 0) (list_init PraHead \<lparr>lprev = id, lnext = id\<rparr>),
     curr_ptr = PraHead, visited = (\<lambda>_. 1)\<rparr>"

definition demo_swap :: swapst where
  "demo_swap = \<lparr>smem = demo_pmem_at 0 2, spra = demo_pra, pra_vaddr = (\<lambda>_. va 2), swapdev = (\<lambda>_. 0)\<rparr>"

lemma demo_pra_list: "pra_list demo_pra [0]"
  using list_add_dlist [OF list_init_dlist, of "PraLink 0" PraHead] by (simp add: demo_pra_def pra_list_def)

text \<open>
  The FIFO manager is a queue: pages made swappable one after the other are handed out as victims in
  that order, behind those that were on the list before.
\<close>

theorem fifo_first_in_first_out:
  assumes "pra_list s (rev qs)" and "distinct (ps @ qs)"
  shows "\<exists>s1 s2. map_all swap_manager_fifo (Some PraHead) ps s = Some s1 \<and>
    victims swap_manager_fifo (Some PraHead) (length (qs @ ps)) s1 = Some (qs @ ps, s2) \<and> pra_list s2 []"
proof -
  obtain s1 where 1: "map_all swap_manager_fifo (Some PraHead) ps s = Some s1" "pra_list s1 ([] @ rev (qs @ ps))"
    using fifo_map_all [OF assms(1)] assms(2) by auto
  from fifo_victims [OF 1(2)] show ?thesis using 1(1) by blast
qed

theorem fifo_first_in_first_out_witness:
  "\<exists>s1 s2. map_all swap_manager_fifo (Some PraHead) [5, 3] demo_pra = Some s1 \<and>
     victims swap_manager_fifo (Some PraHead) 3 s1 = Some ([0, 5, 3], s2)"
proof -
  have "pra_list demo_pra (rev [0])" "distinct ([5, 3] @ [0::nat])" using demo_pra_list by simp_all
  from fifo_first_in_first_out [OF this] obtain s1 s2 where
    "map_all swap_manager_fifo (Some PraHead) [5, 3] demo_pra = Some s1"
    "victims swap_manager_fifo (Some PraHead) (length ([0, 5, 3::nat])) s1 = Some ([0, 5, 3], s2)" by auto
  moreover have "length [0, 5, 3::nat] = 3" by simp
  ultimately show ?thesis by metis
qed

text \<open>
  C28: The clock stops: whenever there is a page on the list, \<open>_clock_swap_out_victim\<close> returns; its victim is
  the first page on the way of the hand whose \<open>visited\<close> bit is clear, or the first of all when every bit is
  set, and exactly the bits of the pages passed are cleared. On an empty list it never returns.
\<close>

theorem clock_victim_terminates:
  assumes "clock_inv s xs"
  shows "if xs = [] then clock_swap_out_victim (Some PraHead) False s = None
    else \<exists>ys vs s'. xs = rev ys @ vs \<and> hand_at s ys \<and>
      clock_swap_out_victim (Some PraHead) False s = Some (0, Some (clock_choice (visited s) (ys @ rev vs)), s') \<and>
      clock_inv s' (remove1 (clock_choice (visited s) (ys @ rev vs)) xs) \<and>
      (\<forall>q. visited s' q = (if q \<in> set (takeWhile (\<lambda>q. visited s q \<noteq> 0) (ys @ rev vs)) then 0 else visited s q))"
proof (cases "xs = []")
  case True
  then show ?thesis
    using assms clock_empty_diverges [of s] by (simp add: clock_inv_def clock_swap_out_victim_def)
next
  case False
  from hand_splits [OF assms] obtain ys vs where yv: "xs = rev ys @ vs" "hand_at s ys" by blast
  have l: "pra_list s (rev ys @ vs)" using assms yv(1) by (simp add: clock_inv_def)
  have "ys @ rev vs \<noteq> []" using False yv(1) by simp
  from clock_victim_ok [OF l yv(2) this] show ?thesis
    using False yv unfolding clock_swap_out_victim_def by (simp only: if_False) (auto simp only: bind.simps c_assert_True simp_thms)
qed

theorem clock_victim_terminates_witness:
  "\<exists>s'. clock_swap_out_victim (Some PraHead) False demo_pra = Some (0, Some 0, s') \<and> visited s' 0 = 0"
proof -
  have i: "clock_inv demo_pra [0]" using demo_pra_list by (simp add: clock_inv_def demo_pra_def)
  have n: "[0::nat] \<noteq> []" by simp
  obtain ys vs s' where y: "[0] = rev ys @ vs"
    "clock_swap_out_victim (Some PraHead) False demo_pra = Some (0, Some (clock_choice (visited demo_pra) (ys @ rev vs)), s')"
    "\<forall>q. visited s' q = (if q \<in> set (takeWhile (\<lambda>q. visited demo_pra q \<noteq> 0) (ys @ rev vs)) then 0 else visited demo_pra q)"
    using clock_victim_terminates [OF i, unfolded if_not_P [OF n]] by blast
  have "ys @ rev vs = [0]" using y(1) by (cases ys) (auto simp: Cons_eq_append_conv)
  then show ?thesis using y(2,3) by (simp add: clock_choice_def demo_pra_def)
qed

text \<open>
  The LRU manager does not survive a page that is made swappable twice, the case its search loop is
  there for: it returns, but the links then form a ring without the head, and making any new page swappable
  never returns.
\<close>

theorem lru_requeue_hangs:
  assumes "pra_list s (us @ p # vs)"
  shows "\<exists>s'. lru_map_swappable (Some PraHead) p s = Some s' \<and>
    (\<forall>q. q \<notin> set (us @ p # vs) \<longrightarrow> lru_map_swappable (Some PraHead) q s' = None)"
proof -
  from lru_requeue_ring [OF assms] obtain s' where s': "lru_map_swappable (Some PraHead) p s = Some s'"
    and hd: "lnext (plinks s') PraHead = hd (map PraLink (us @ [p]))"
    and ring: "\<forall>z \<in> set (map PraLink (us @ [p])). lnext (plinks s') z \<in> set (map PraLink (us @ [p]))" by blast
  have "lru_map_swappable (Some PraHead) q s' = None" if q: "q \<notin> set (us @ p # vs)" for q
  proof -
    let ?h = "list_add PraHead (PraLink q) (plinks s')"
    have n: "lnext ?h z = lnext (plinks s') z" if "z \<in> set (map PraLink (us @ [p]))" for z
      using that q by (auto simp: list_add_def list_add_after_def raw_list_add_def)
    have "lru_loop PraHead (PraLink q) (hd (map PraLink (us @ [p]))) ?h = None"
      by (rule lru_ring_diverges [of "map PraLink (us @ [p])"]) (use ring n q in \<open>auto simp: hd_append hd_map\<close>)
    then show ?thesis using hd by (simp add: lru_map_swappable_def)
  qed
  then show ?thesis using s' by blast
qed

theorem lru_requeue_hangs_witness:
  "\<exists>s'. lru_map_swappable (Some PraHead) 0 demo_pra = Some s' \<and> lru_map_swappable (Some PraHead) 7 s' = None"
  using lru_requeue_hangs [of demo_pra "[]" 0 "[]"] demo_pra_list by auto

text \<open>
  C27: What is swapped out comes back: \<open>swap_out\<close> of one page returns, takes a swappable page, leaves its swap
  entry in the page table, frees its frame and changes no other translation; \<open>swap_in\<close> at that address then
  finds a frame that was free and fills it with the 512 words the page had.
\<close>

theorem swap_out_in_roundtrip:
  assumes "space_ok pmm_inv (\<lambda>_. 0) R F (smem s)" and "pra_rep (spra s) Q" and "Q \<noteq> {}" and "r \<in> R"
    and "swappable R r Q s" and "\<forall>p \<in> Q. not_at_end F p"
  shows "\<exists>p v s1 q s2. swap_out swap_manager_fifo default_alloc_pages default_free_pages r (Some PraHead) 1 False s = Some (1, s1) \<and>
    p \<in> Q \<and> pra_vaddr s p = va v \<and> space_ok pmm_inv (\<lambda>_. 0) R (insert p F) (smem s1) \<and> pra_rep (spra s1) (Q - {p}) \<and>
    (\<forall>r' \<in> R. \<forall>u < UPAGES. pte (words (smem s1)) r' u =
      (if r' = r \<and> u = v then swap_entry (va v) else pte (words (smem s)) r' u)) \<and>
    swap_in default_alloc_pages r (va v) s1 = Some (0, q, s2) \<and> q \<in> insert p F \<and>
    (\<forall>k < 512. words (smem s2) q k = words (smem s) p k)"
proof -
  obtain p v s1 where o: "swap_out swap_manager_fifo default_alloc_pages default_free_pages r (Some PraHead) 1 False s = Some (1, s1)"
    "p \<in> Q" "v < 6" "pra_vaddr s p = va v" "space_ok pmm_inv (\<lambda>_. 0) R (insert p F) (smem s1)" "pra_rep (spra s1) (Q - {p})"
    "\<forall>r' \<in> R. \<forall>u < UPAGES. pte (words (smem s1)) r' u =
      (if r' = r \<and> u = v then swap_entry (va v) else pte (words (smem s)) r' u)"
    "\<forall>k < 512. swapdev s1 (512 * (v + 1) + k) = words (smem s) p k"
    using ff_fifo.swap_out_one [OF assms(1-5)] assms(6) by metis
  have "pte (words (smem s1)) r v = swap_entry (va v)" using o(3,7) assms(4) by (simp add: UPAGES_def)
  from ff_fifo.swap_in_ok [OF o(5) assms(4) o(3) this] obtain q s2 where
    "swap_in default_alloc_pages r (va v) s1 = Some (0, q, s2)" "q \<in> insert p F"
    "\<forall>k < 512. words (smem s2) q k = swapdev s1 (512 * (v + 1) + k)" by auto
  then show ?thesis using o by (intro exI conjI) auto
qed

theorem swap_out_in_roundtrip_witness:
  "\<exists>s1 q s2. swap_out swap_manager_fifo default_alloc_pages default_free_pages 20 (Some PraHead) 1 False demo_swap = Some (1, s1) \<and>
     swap_in default_alloc_pages 20 (va 2) s1 = Some (0, q, s2) \<and> words (smem s2) q 3 = 6"
proof -
  have m: "words (smem demo_swap) = demo_word_at 0 2"
    by (simp_all add: demo_swap_def demo_pmem_at_def)
  have sw: "swappable {20, 21} 20 {0} demo_swap"
  proof -
    have "pte (demo_word_at 0 2) 20 2 = pte_create (page2ppn 0) (PTE_V OR PTE_USER)"
      using demo_pte_at(2) [of 0 2 2] by (simp add: UPAGES_def)
    then have "pte_valid (pte (demo_word_at 0 2) 20 2)" using demo_entries(7) by simp
    moreover have "mapped (demo_word_at 0 2) {20, 21} 0 = {(20, 2)}" using demo_mapped_at(1) [of 0 2 0] by simp
    moreover have "pra_vaddr demo_swap 0 = va 2" by (simp add: demo_swap_def)
    ultimately have "\<exists>v < 6. pra_vaddr demo_swap 0 = va v \<and> pte_valid (pte (demo_word_at 0 2) 20 v) \<and>
      mapped (demo_word_at 0 2) {20, 21} 0 = {(20, v)}" by (intro exI [of _ 2]) simp
    then show ?thesis unfolding swappable_def m by simp
  qed
  have rp: "pra_rep (spra demo_swap) {0}" 
    unfolding pra_rep_def using demo_pra_list by (intro exI [of _ "[0]"]) (simp add: demo_swap_def)
  have at: "\<forall>p \<in> {0}. not_at_end {2..<10} p" by (auto simp: not_at_end_def)
  have ok: "space_ok pmm_inv (\<lambda>_. 0) {20, 21} {2..<10} (smem demo_swap)"
    using demo_space_at [of 0 2] by (simp add: demo_swap_def)
  have r: "{0::nat} \<noteq> {}" "20 \<in> {20, 21::nat}" by simp_all
  from swap_out_in_roundtrip [OF ok rp r sw at] obtain p v s1 q s2 where
    o: "swap_out swap_manager_fifo default_alloc_pages default_free_pages 20 (Some PraHead) 1 False demo_swap = Some (1, s1)"
    "p \<in> {0}" "pra_vaddr demo_swap p = va v" "swap_in default_alloc_pages 20 (va v) s1 = Some (0, q, s2)"
    "\<forall>k < 512. words (smem s2) q k = words (smem demo_swap) p k" by (elim exE conjE)
  have "words (smem s2) q 3 = 6" using o(2,5) unfolding m by (simp add: demo_word_at_def)
  moreover have "va v = va 2" using o(3) by (simp add: demo_swap_def)
  ultimately show ?thesis using o(1,4) by metis
qed

text \<open>
  The swap area has six slots, and a page goes to the slot of its page number: swapping out a page at or
  above virtual page 6, as every user page is, panics whatever the manager.
\<close>

theorem swap_out_user_page_panics:
  assumes "sm_swap_out_victim sm priv in_tick (spra s) = Some (0, Some p, q)" and "pra_vaddr s p = va v"
    and "6 \<le> v" and "v \<le> UPAGES"
  shows "swap_out sm al fr pgdir priv (Suc n) in_tick s = None"
proof -
  have "swap_offset (swap_entry (va v)) = None" using swap_entry_va(4) [OF assms(4)] assms(3) by simp
  then have w: "swapfs_write (swap_entry (va v)) p t = None" for t by (simp add: swapfs_write_def)
  show ?thesis
    by (cases "get_pte al pgdir (va v) False (smem s)")
      (auto simp: swap_out_def assms(1,2) w Let_def bind_eq_None_conv split: prod.splits)
qed

theorem swap_out_user_page_panics_witness:
  "swap_out swap_manager_fifo default_alloc_pages default_free_pages 20 (Some PraHead) 1 False
     (demo_swap\<lparr>pra_vaddr := \<lambda>_. va 1024\<rparr>) = None"
proof -
  obtain s' where "sm_swap_out_victim swap_manager_fifo (Some PraHead) False demo_pra = Some (0, Some 0, s')"
    using fifo_victim_ok [of demo_pra "[]" 0] demo_pra_list by (auto simp: swap_manager_fifo_def)
  then show ?thesis
    using swap_out_user_page_panics [of swap_manager_fifo "Some PraHead" False "demo_swap\<lparr>pra_vaddr := \<lambda>_. va 1024\<rparr>" 0 s' 1024
      default_alloc_pages default_free_pages 20 0]
    by (simp add: demo_swap_def UPAGES_def)
qed

end
