(* ===== verification/Vmm.thy ===== *)
theory Vmm
  imports Swap
begin

text \<open>
  The virtual memory of a process, \<open>lab6/kern/mm/vmm.c\<close>: \<open>mm_struct\<close> with its list of areas
  (\<open>vma_struct\<close>) sorted by address, the lookup with its cache, mapping, copying and releasing an address
  space, and the page fault handler. The objects come from \<open>kmalloc\<close> and the pages from the same page
  manager, so the state composes \<open>Kmalloc\<close>, \<open>Paging\<close> and \<open>Swap\<close>.
\<close>

unbundle bit_operations_syntax

section \<open>State\<close>

record vma_struct =
  vm_mm :: nat
  vm_start :: u64
  vm_end :: u64
  vm_flags :: u32

record mm_struct =
  mmap_cache :: "nat option"
  pgdir :: "nat option"
  map_count :: int
  sm_priv :: "pra_ent option"
  mm_count :: int

text \<open>The list entries: the head in each \<open>mm_struct\<close> and the \<open>list_link\<close> of each area.\<close>

datatype vma_ent = MmapList nat | VmaLink nat

fun le2vma :: "vma_ent \<Rightarrow> nat" where
  "le2vma (VmaLink v) = v"
| "le2vma (MmapList m) = 0"

text \<open>
  An object is named by the address \<open>kmalloc\<close> returns. The page manager is the field \<open>parea\<close> of the
  physical memory; the heap works on it.
\<close>

record vmm =
  swst :: swapst
  heap :: slob
  vlinks :: "vma_ent links"
  mms :: "nat \<Rightarrow> mm_struct"
  vmas :: "nat \<Rightarrow> vma_struct"

definition vmem :: "vmm \<Rightarrow> pmem" where "vmem s = smem (swst s)"

definition set_vmem :: "pmem \<Rightarrow> vmm \<Rightarrow> vmm" where
  "set_vmem m s = s\<lparr>swst := (swst s)\<lparr>smem := m\<rparr>\<rparr>"

definition upd_mm :: "nat \<Rightarrow> (mm_struct \<Rightarrow> mm_struct) \<Rightarrow> vmm \<Rightarrow> vmm" where
  "upd_mm m f s = s\<lparr>mms := (mms s)(m := f (mms s m))\<rparr>"

definition upd_vma :: "nat \<Rightarrow> (vma_struct \<Rightarrow> vma_struct) \<Rightarrow> vmm \<Rightarrow> vmm" where
  "upd_vma v f s = s\<lparr>vmas := (vmas s)(v := f (vmas s v))\<rparr>"

lemma vmm_sel [simp]:
  "vmem (set_vmem m s) = m" "heap (set_vmem m s) = heap s" "vlinks (set_vmem m s) = vlinks s"
  "mms (set_vmem m s) = mms s" "vmas (set_vmem m s) = vmas s"
  "spra (swst (set_vmem m s)) = spra (swst s)"
  "vmem (upd_mm x f s) = vmem s" "heap (upd_mm x f s) = heap s" "vlinks (upd_mm x f s) = vlinks s"
  "mms (upd_mm x f s) = (mms s)(x := f (mms s x))" "vmas (upd_mm x f s) = vmas s" "swst (upd_mm x f s) = swst s"
  "vmem (upd_vma x g s) = vmem s" "heap (upd_vma x g s) = heap s" "vlinks (upd_vma x g s) = vlinks s"
  "mms (upd_vma x g s) = mms s" "vmas (upd_vma x g s) = (vmas s)(x := g (vmas s x))" "swst (upd_vma x g s) = swst s"
  by (simp_all add: vmem_def set_vmem_def upd_mm_def upd_vma_def)

text \<open>\<open>kmalloc\<close> and \<open>kfree\<close> of one object, on the shared page manager.\<close>

definition with_heap :: "slob \<Rightarrow> vmm \<Rightarrow> vmm" where
  "with_heap h s = set_vmem ((vmem s)\<lparr>parea := pmm h\<rparr>) s\<lparr>heap := h\<rparr>"

lemma with_heap_sel [simp]:
  "vmem (with_heap h s) = (vmem s)\<lparr>parea := pmm h\<rparr>" "heap (with_heap h s) = h" "vlinks (with_heap h s) = vlinks s"
  "mms (with_heap h s) = mms s" "vmas (with_heap h s) = vmas s" "spra (swst (with_heap h s)) = spra (swst s)"
  by (simp_all add: with_heap_def vmem_def set_vmem_def)

definition kalloc :: "pmm_alloc \<Rightarrow> nat \<Rightarrow> vmm \<Rightarrow> (nat option \<times> vmm) option" where
  "kalloc al sz s = do {
     (r, h) \<leftarrow> kmalloc al sz ((heap s)\<lparr>pmm := parea (vmem s)\<rparr>);
     Some (r, with_heap h s)
   }"

definition krelease :: "pmm_free \<Rightarrow> nat \<Rightarrow> vmm \<Rightarrow> vmm option" where
  "krelease fr obj s = do {
     h \<leftarrow> kfree fr obj ((heap s)\<lparr>pmm := parea (vmem s)\<rparr>);
     Some (with_heap h s)
   }"

definition VM_READ :: u32 where "VM_READ = 0x00000001"
definition VM_WRITE :: u32 where "VM_WRITE = 0x00000002"
definition VM_EXEC :: u32 where "VM_EXEC = 0x00000004"
definition VM_STACK :: u32 where "VM_STACK = 0x00000008"

definition sizeof_mm_struct :: nat where "sizeof_mm_struct = 64"
definition sizeof_vma_struct :: nat where "sizeof_vma_struct = 48"

definition mm_count_inc :: "nat \<Rightarrow> vmm \<Rightarrow> vmm" where
  "mm_count_inc m = upd_mm m (\<lambda>q. q\<lparr>mm_count := mm_count q + 1\<rparr>)"

definition mm_count_dec :: "nat \<Rightarrow> vmm \<Rightarrow> int \<times> vmm" where
  "mm_count_dec m s = (mm_count (mms s m) - 1, upd_mm m (\<lambda>q. q\<lparr>mm_count := mm_count q - 1\<rparr>) s)"

section \<open>Creating objects, and the lookup\<close>

definition mm_create :: "swap_manager \<Rightarrow> pmm_alloc \<Rightarrow> vmm \<Rightarrow> (nat option \<times> vmm) option" where
  "mm_create sm al s = do {
     (r, s1) \<leftarrow> kalloc al sizeof_mm_struct s;
     (case r of
        None \<Rightarrow> Some (None, s1)
      | Some m \<Rightarrow> do {
          let s2 = s1\<lparr>vlinks := list_init (MmapList m) (vlinks s1)\<rparr>;
          let (priv, q) = (if swap_init_ok (vmem s2) then
              let (h, q) = sm_init_mm sm (spra (swst s2)) in (Some h, q) else (None, spra (swst s2)));
          let s3 = s2\<lparr>swst := (swst s2)\<lparr>spra := q\<rparr>\<rparr>;
          Some (Some m, upd_mm m (\<lambda>_. \<lparr>mmap_cache = None, pgdir = None, map_count = 0, sm_priv = priv, mm_count = 0\<rparr>) s3)
        })
   }"

definition vma_create :: "pmm_alloc \<Rightarrow> u64 \<Rightarrow> u64 \<Rightarrow> u32 \<Rightarrow> vmm \<Rightarrow> (nat option \<times> vmm) option" where
  "vma_create al start fin fl s = do {
     (r, s1) \<leftarrow> kalloc al sizeof_vma_struct s;
     (case r of
        None \<Rightarrow> Some (None, s1)
      | Some v \<Rightarrow> Some (Some v, upd_vma v (\<lambda>q. q\<lparr>vm_start := start, vm_end := fin, vm_flags := fl\<rparr>) s1))
   }"

definition in_vma :: "u64 \<Rightarrow> vma_struct \<Rightarrow> bool" where
  "in_vma addr q \<longleftrightarrow> vm_start q \<le> addr \<and> addr < vm_end q"

partial_function (option) find_vma_loop :: "nat \<Rightarrow> u64 \<Rightarrow> vma_ent \<Rightarrow> vmm \<Rightarrow> nat option option" where
  "find_vma_loop mm addr le s =
     (let le = list_next le (vlinks s) in
      if le = MmapList mm then Some None
      else if in_vma addr (vmas s (le2vma le)) then Some (Some (le2vma le))
      else find_vma_loop mm addr le s)"

declare find_vma_loop.simps [code]

text \<open>\<open>mm\<close> is \<open>None\<close> for \<open>NULL\<close>.\<close>

definition find_vma :: "nat option \<Rightarrow> u64 \<Rightarrow> vmm \<Rightarrow> (nat option \<times> vmm) option" where
  "find_vma mm addr s =
     (case mm of
        None \<Rightarrow> Some (None, s)
      | Some m \<Rightarrow> do {
          let c = mmap_cache (mms s m);
          r \<leftarrow> (case c of
              Some v \<Rightarrow> if in_vma addr (vmas s v) then Some (Some v) else find_vma_loop m addr (MmapList m) s
            | None \<Rightarrow> find_vma_loop m addr (MmapList m) s);
          Some (r, if r \<noteq> None then upd_mm m (\<lambda>q. q\<lparr>mmap_cache := r\<rparr>) s else s)
        })"

definition check_vma_overlap :: "vma_struct \<Rightarrow> vma_struct \<Rightarrow> unit option" where
  "check_vma_overlap p n = do {
     c_assert (vm_start p < vm_end p);
     c_assert (vm_end p \<le> vm_start n);
     c_assert (vm_start n < vm_end n)
   }"

partial_function (option) insert_point :: "nat \<Rightarrow> u64 \<Rightarrow> vma_ent \<Rightarrow> vma_ent \<Rightarrow> vmm \<Rightarrow> vma_ent option" where
  "insert_point mm start le_prev le s =
     (let le = list_next le (vlinks s) in
      if le = MmapList mm then Some le_prev
      else if vm_start (vmas s (le2vma le)) > start then Some le_prev
      else insert_point mm start le le s)"

declare insert_point.simps [code]

definition insert_vma_struct :: "nat \<Rightarrow> nat \<Rightarrow> vmm \<Rightarrow> vmm option" where
  "insert_vma_struct mm v s = do {
     c_assert (vm_start (vmas s v) < vm_end (vmas s v));
     le_prev \<leftarrow> insert_point mm (vm_start (vmas s v)) (MmapList mm) (MmapList mm) s;
     let le_next = list_next le_prev (vlinks s);
     (if le_prev \<noteq> MmapList mm then check_vma_overlap (vmas s (le2vma le_prev)) (vmas s v) else Some ());
     (if le_next \<noteq> MmapList mm then check_vma_overlap (vmas s v) (vmas s (le2vma le_next)) else Some ());
     let s1 = upd_vma v (\<lambda>q. q\<lparr>vm_mm := mm\<rparr>) s;
     let s2 = s1\<lparr>vlinks := list_add_after le_prev (VmaLink v) (vlinks s1)\<rparr>;
     Some (upd_mm mm (\<lambda>q. q\<lparr>map_count := map_count q + 1\<rparr>) s2)
   }"

section \<open>Address spaces\<close>

partial_function (option) destroy_loop :: "pmm_free \<Rightarrow> nat \<Rightarrow> vmm \<Rightarrow> vmm option" where
  "destroy_loop fr mm s =
     (let le = list_next (MmapList mm) (vlinks s) in
      if le = MmapList mm then Some s
      else do {
        s1 \<leftarrow> krelease fr (le2vma le) (s\<lparr>vlinks := list_del le (vlinks s)\<rparr>);
        destroy_loop fr mm s1
      })"

declare destroy_loop.simps [code]

definition mm_destroy :: "pmm_free \<Rightarrow> nat \<Rightarrow> vmm \<Rightarrow> vmm option" where
  "mm_destroy fr mm s = do {
     c_assert (mm_count (mms s mm) = 0);
     s1 \<leftarrow> destroy_loop fr mm s;
     krelease fr mm s1
   }"

text \<open>The result is the status, and the area when one was mapped (\<open>*vma_store\<close>).\<close>

definition mm_map ::
  "pmm_alloc \<Rightarrow> nat option \<Rightarrow> u64 \<Rightarrow> u64 \<Rightarrow> u32 \<Rightarrow> vmm \<Rightarrow> (int \<times> nat option \<times> vmm) option" where
  "mm_map al mm addr len fl s = do {
     let start = ROUNDDOWN addr PGSIZE;
     let fin = ROUNDUP (addr + len) PGSIZE;
     if \<not> USER_ACCESS start fin then Some (- E_INVAL, None, s)
     else do {
       m \<leftarrow> mm;
       (r, s1) \<leftarrow> find_vma (Some m) start s;
       if (case r of Some v \<Rightarrow> fin > vm_start (vmas s1 v) | None \<Rightarrow> False) then Some (- E_INVAL, None, s1)
       else do {
         (r, s2) \<leftarrow> vma_create al start fin fl s1;
         (case r of
            None \<Rightarrow> Some (- E_NO_MEM, None, s2)
          | Some v \<Rightarrow> do { s3 \<leftarrow> insert_vma_struct m v s2; Some (0, Some v, s3) })
       }
     }
   }"

partial_function (option) dup_loop ::
  "pmm_alloc \<Rightarrow> pmm_free \<Rightarrow> nat \<Rightarrow> nat \<Rightarrow> vma_ent \<Rightarrow> vmm \<Rightarrow> (int \<times> vmm) option" where
  "dup_loop al fr to frm le s =
     (let le = list_prev le (vlinks s) in
      if le = MmapList frm then Some (0, s)
      else do {
        let q = vmas s (le2vma le);
        (r, s1) \<leftarrow> vma_create al (vm_start q) (vm_end q) (vm_flags q) s;
        (case r of
           None \<Rightarrow> Some (- E_NO_MEM, s1)
         | Some v \<Rightarrow> do {
             s2 \<leftarrow> insert_vma_struct to v s1;
             tp \<leftarrow> pgdir (mms s2 to);
             fp \<leftarrow> pgdir (mms s2 frm);
             (ret, m) \<leftarrow> copy_range al fr tp fp (vm_start q) (vm_end q) (vmem s2);
             if ret \<noteq> 0 then Some (- E_NO_MEM, set_vmem m s2)
             else dup_loop al fr to frm le (set_vmem m s2)
           })
      })"

declare dup_loop.simps [code]

definition dup_mmap :: "pmm_alloc \<Rightarrow> pmm_free \<Rightarrow> nat \<Rightarrow> nat \<Rightarrow> vmm \<Rightarrow> (int \<times> vmm) option" where
  "dup_mmap al fr to frm s = dup_loop al fr to frm (MmapList frm) s"

partial_function (option) exit_unmap_loop ::
  "pmm_alloc \<Rightarrow> pmm_free \<Rightarrow> nat \<Rightarrow> nat \<Rightarrow> vma_ent \<Rightarrow> vmm \<Rightarrow> vmm option" where
  "exit_unmap_loop al fr pd mm le s =
     (let le = list_next le (vlinks s) in
      if le = MmapList mm then Some s
      else do {
        m \<leftarrow> unmap_range al fr pd (vm_start (vmas s (le2vma le))) (vm_end (vmas s (le2vma le))) (vmem s);
        exit_unmap_loop al fr pd mm le (set_vmem m s)
      })"

declare exit_unmap_loop.simps [code]

partial_function (option) exit_tables_loop ::
  "pmm_free \<Rightarrow> nat \<Rightarrow> nat \<Rightarrow> vma_ent \<Rightarrow> vmm \<Rightarrow> vmm option" where
  "exit_tables_loop fr pd mm le s =
     (let le = list_next le (vlinks s) in
      if le = MmapList mm then Some s
      else do {
        m \<leftarrow> exit_range fr pd (vm_start (vmas s (le2vma le))) (vm_end (vmas s (le2vma le))) (vmem s);
        exit_tables_loop fr pd mm le (set_vmem m s)
      })"

declare exit_tables_loop.simps [code]

definition exit_mmap :: "pmm_alloc \<Rightarrow> pmm_free \<Rightarrow> nat \<Rightarrow> vmm \<Rightarrow> vmm option" where
  "exit_mmap al fr mm s = do {
     c_assert (mm_count (mms s mm) = 0);
     pd \<leftarrow> pgdir (mms s mm);
     s1 \<leftarrow> exit_unmap_loop al fr pd mm (MmapList mm) s;
     exit_tables_loop fr pd mm (MmapList mm) s1
   }"

section \<open>User pointers and page faults\<close>

partial_function (option) mem_check_loop :: "nat \<Rightarrow> u64 \<Rightarrow> u64 \<Rightarrow> bool \<Rightarrow> vmm \<Rightarrow> (bool \<times> vmm) option" where
  "mem_check_loop mm start fin write s =
     (if start < fin then do {
        (r, s1) \<leftarrow> find_vma (Some mm) start s;
        (case r of
           None \<Rightarrow> Some (False, s1)
         | Some v \<Rightarrow> let q = vmas s1 v in
             if start < vm_start q then Some (False, s1)
             else if vm_flags q AND (if write then VM_WRITE else VM_READ) = 0 then Some (False, s1)
             else if write \<and> vm_flags q AND VM_STACK \<noteq> 0 \<and> start < vm_start q + PGSIZE then Some (False, s1)
             else mem_check_loop mm (vm_end q) fin write s1)
      } else Some (True, s))"

declare mem_check_loop.simps [code]

definition user_mem_check :: "nat option \<Rightarrow> u64 \<Rightarrow> u64 \<Rightarrow> bool \<Rightarrow> vmm \<Rightarrow> (bool \<times> vmm) option" where
  "user_mem_check mm addr len write s =
     (case mm of
        Some m \<Rightarrow> if \<not> USER_ACCESS addr (addr + len) then Some (False, s)
          else mem_check_loop m addr (addr + len) write s
      | None \<Rightarrow> Some (KERN_ACCESS addr (addr + len), s))"

definition READ_WRITE :: u64 where "READ_WRITE = PTE_R OR PTE_W OR PTE_V"

text \<open>
  \<open>do_pgfault\<close>; the messages and the counter \<open>pgfault_num\<close> are left out. \<open>swap_in\<close> asserts its own success,
  so its status is always 0.
\<close>

definition do_pgfault ::
  "swap_manager \<Rightarrow> pmm_alloc \<Rightarrow> pmm_free \<Rightarrow> nat \<Rightarrow> u64 \<Rightarrow> vmm \<Rightarrow> (int \<times> vmm) option" where
  "do_pgfault sm al fr mm addr s = do {
     (r, s1) \<leftarrow> find_vma (Some mm) addr s;
     (case r of
        None \<Rightarrow> Some (- E_INVAL, s1)
      | Some v \<Rightarrow> if vm_start (vmas s1 v) > addr then Some (- E_INVAL, s1)
          else do {
            let perm = (if vm_flags (vmas s1 v) AND VM_WRITE \<noteq> 0 then PTE_U OR READ_WRITE else PTE_U);
            let la = ROUNDDOWN addr PGSIZE;
            pd \<leftarrow> pgdir (mms s1 mm);
            (p, m) \<leftarrow> get_pte al pd la True (vmem s1);
            let s2 = set_vmem m s1;
            (case p of
               None \<Rightarrow> Some (- E_NO_MEM, s2)
             | Some q \<Rightarrow> if read_pte q m = 0 then do {
                   (pg, m2) \<leftarrow> pgdir_alloc_page al fr pd la perm m;
                   Some (if pg = None then - E_NO_MEM else 0, set_vmem m2 s2)
                 }
                 else if swap_init_ok m then do {
                   (ret, page, t) \<leftarrow> swap_in al pd la (swst s2);
                   (ret, m3) \<leftarrow> page_insert al fr pd page la perm (smem t);
                   let s3 = s2\<lparr>swst := t\<lparr>smem := m3\<rparr>\<rparr>;
                   if ret \<noteq> 0 then Some (- E_NO_MEM, s3)
                   else do {
                     u \<leftarrow> sm_map_swappable sm (sm_priv (mms s3 mm)) page (spra (swst s3));
                     Some (0, s3\<lparr>swst := (swst s3)\<lparr>spra := u, pra_vaddr := (pra_vaddr (swst s3))(page := la)\<rparr>\<rparr>)
                   }
                 }
                 else Some (- E_NO_MEM, s2))
          })
   }"

section \<open>The areas of an address space\<close>

definition mm_list :: "vmm \<Rightarrow> nat \<Rightarrow> nat list \<Rightarrow> bool" where
  "mm_list s m vs \<longleftrightarrow> dlist (vlinks s) (MmapList m) (map VmaLink vs)"

definition before :: "vma_struct \<Rightarrow> vma_struct \<Rightarrow> bool" where
  "before q p \<longleftrightarrow> vm_end q \<le> vm_start p"

definition areas_ok :: "(nat \<Rightarrow> vma_struct) \<Rightarrow> nat list \<Rightarrow> bool" where
  "areas_ok V vs \<longleftrightarrow> (\<forall>v \<in> set vs. vm_start (V v) < vm_end (V v)) \<and> sorted_wrt (\<lambda>v w. before (V v) (V w)) vs"

text \<open>
  The invariant of an \<open>mm_struct\<close>: its list holds the areas \<open>vs\<close> in address order, disjoint and not empty,
  they are counted, and the cache is one of them.
\<close>

definition mm_ok :: "vmm \<Rightarrow> nat \<Rightarrow> nat list \<Rightarrow> bool" where
  "mm_ok s m vs \<longleftrightarrow> mm_list s m vs \<and> areas_ok (vmas s) vs \<and> map_count (mms s m) = int (length vs) \<and>
     (\<forall>v. mmap_cache (mms s m) = Some v \<longrightarrow> v \<in> set vs)"

lemma mm_ok_distinct: "mm_list s m vs \<Longrightarrow> distinct vs"
  unfolding mm_list_def by (drule dlist_distinct) (simp add: distinct_map)

text \<open>The entry behind the first areas \<open>us\<close>, and the one before the last areas.\<close>

definition last_ent :: "nat \<Rightarrow> nat list \<Rightarrow> vma_ent" where
  "last_ent m us = last (MmapList m # map VmaLink us)"

lemma last_ent_simps [simp]: "last_ent m [] = MmapList m" "last_ent m (us @ [u]) = VmaLink u"
  by (simp_all add: last_ent_def)

lemma mm_next:
  "mm_list s m (us @ ys) \<Longrightarrow> list_next (last_ent m us) (vlinks s) = (case ys of [] \<Rightarrow> MmapList m | y # _ \<Rightarrow> VmaLink y)"
proof (cases us rule: rev_cases)
  case Nil
  assume "mm_list s m (us @ ys)"
  then show ?thesis
    using Nil list_next_head_dlist [of "vlinks s" "MmapList m" "map VmaLink ys"] by (cases ys) (auto simp: mm_list_def)
next
  case (snoc us' u)
  assume "mm_list s m (us @ ys)"
  then show ?thesis
    using snoc list_next_elem_dlist [of "vlinks s" "MmapList m" "map VmaLink us'" "VmaLink u" "map VmaLink ys"]
    by (cases ys) (auto simp: mm_list_def)
qed

lemma mm_prev:
  "mm_list s m (us @ ys) \<Longrightarrow>
   list_prev (case ys of [] \<Rightarrow> MmapList m | y # _ \<Rightarrow> VmaLink y) (vlinks s) = last_ent m us"
proof (cases ys)
  case Nil
  assume "mm_list s m (us @ ys)"
  then show ?thesis using Nil list_prev_head_dlist [of "vlinks s" "MmapList m" "map VmaLink us"]
    by (simp add: mm_list_def last_ent_def)
next
  case (Cons y zs)
  assume "mm_list s m (us @ ys)"
  then show ?thesis
    using Cons list_prev_elem_dlist [of "vlinks s" "MmapList m" "map VmaLink us" "VmaLink y" "map VmaLink zs"]
    by (simp add: mm_list_def last_ent_def)
qed

lemma find_loop:
  "mm_list s m (us @ ys) \<Longrightarrow> find_vma_loop m addr (last_ent m us) s = Some (find (\<lambda>v. in_vma addr (vmas s v)) ys)"
proof (induction ys arbitrary: us)
  case Nil
  then show ?case using mm_next [OF Nil] by (subst find_vma_loop.simps) simp
next
  case (Cons y ys)
  have "mm_list s m ((us @ [y]) @ ys)" using Cons.prems by simp
  from Cons.IH [OF this] show ?case using mm_next [OF Cons.prems] by (subst find_vma_loop.simps) simp
qed

lemma areas_disjoint:
  "areas_ok V vs \<Longrightarrow> v \<in> set vs \<Longrightarrow> w \<in> set vs \<Longrightarrow> in_vma a (V v) \<Longrightarrow> in_vma a (V w) \<Longrightarrow> v = w"
proof (rule ccontr)
  assume a: "areas_ok V vs" "v \<in> set vs" "w \<in> set vs" "in_vma a (V v)" "in_vma a (V w)" "v \<noteq> w"
  obtain us ys where 1: "vs = us @ v # ys" using a(2) by (meson split_list)
  then have "w \<in> set us \<or> w \<in> set ys" using a(3,6) by auto
  then have "before (V v) (V w) \<or> before (V w) (V v)"
    using a(1) 1 by (auto simp: areas_ok_def sorted_wrt_append)
  then show False using a(4,5) unfolding before_def in_vma_def by (meson leD order.strict_trans2 order.trans)
qed

lemma find_unique:
  assumes "areas_ok V vs" and "v \<in> set vs" and "in_vma a (V v)"
  shows "find (\<lambda>v. in_vma a (V v)) vs = Some v"
proof (cases "find (\<lambda>v. in_vma a (V v)) vs")
  case None
  then show ?thesis using assms(2,3) by (auto simp: find_None_iff)
next
  case (Some w)
  then have "w \<in> set vs" "in_vma a (V w)" by (auto simp: find_Some_iff)
  then show ?thesis using Some areas_disjoint [OF assms(1,2) _ assms(3)] by metis
qed

lemma mm_ok_cache: "mm_ok s m vs \<Longrightarrow> v \<in> set vs \<Longrightarrow> mm_ok (upd_mm m (\<lambda>q. q\<lparr>mmap_cache := Some v\<rparr>) s) m vs"
  by (simp add: mm_ok_def mm_list_def)

lemma find_vma_ok:
  fixes addr :: u64
  assumes ok: "mm_ok s m vs"
  defines "r \<equiv> find (\<lambda>v. in_vma addr (vmas s v)) vs"
  defines "s' \<equiv> (if r = None then s else upd_mm m (\<lambda>q. q\<lparr>mmap_cache := r\<rparr>) s)"
  shows "find_vma (Some m) addr s = Some (r, s')" "mm_ok s' m vs"
proof -
  have l: "find_vma_loop m addr (MmapList m) s = Some r"
    using find_loop [of s m "[]" vs addr] ok by (simp add: mm_ok_def r_def)
  have c: "in_vma addr (vmas s v) \<Longrightarrow> r = Some v" if "mmap_cache (mms s m) = Some v" for v
    using find_unique [of "vmas s" vs v addr] ok that by (simp add: mm_ok_def r_def)
  show "find_vma (Some m) addr s = Some (r, s')"
    using l c by (auto simp: find_vma_def s'_def split: option.splits)
  have "v \<in> set vs" if "r = Some v" for v using that by (auto simp: r_def find_Some_iff)
  then show "mm_ok s' m vs" using ok mm_ok_cache [OF ok] by (cases r) (auto simp: s'_def)
qed

section \<open>Inserting an area\<close>

lemma insert_point_ok:
  "mm_list s m (us @ ys) \<Longrightarrow> insert_point m start (last_ent m us) (last_ent m us) s =
     Some (last_ent m (us @ takeWhile (\<lambda>v. vm_start (vmas s v) \<le> start) ys))"
proof (induction ys arbitrary: us)
  case Nil
  then show ?case using mm_next [OF Nil] by (subst insert_point.simps) simp
next
  case (Cons y ys)
  have "mm_list s m ((us @ [y]) @ ys)" using Cons.prems by simp
  from Cons.IH [OF this] show ?case
    using mm_next [OF Cons.prems] by (subst insert_point.simps) (auto simp: not_le Let_def)
qed

definition free_range :: "(nat \<Rightarrow> vma_struct) \<Rightarrow> nat list \<Rightarrow> vma_struct \<Rightarrow> bool" where
  "free_range V vs q \<longleftrightarrow> (\<forall>w \<in> set vs. before (V w) q \<or> before q (V w))"

lemma free_range_in: "areas_ok V vs \<Longrightarrow> vm_start q < vm_end q \<Longrightarrow>
  free_range V vs q \<longleftrightarrow> (\<forall>a. in_vma a q \<longrightarrow> (\<forall>w \<in> set vs. \<not> in_vma a (V w)))"
proof
  assume "free_range V vs q"
  then show "\<forall>a. in_vma a q \<longrightarrow> (\<forall>w \<in> set vs. \<not> in_vma a (V w))"
    unfolding free_range_def before_def in_vma_def by (meson leD order.strict_trans2 order.trans)
next
  assume ok: "areas_ok V vs" "vm_start q < vm_end q" and no: "\<forall>a. in_vma a q \<longrightarrow> (\<forall>w \<in> set vs. \<not> in_vma a (V w))"
  show "free_range V vs q"
    unfolding free_range_def
  proof
    fix w assume w: "w \<in> set vs"
    then have lt: "vm_start (V w) < vm_end (V w)" using ok(1) by (simp add: areas_ok_def)
    have "\<not> in_vma (max (vm_start q) (vm_start (V w))) q \<or> \<not> in_vma (max (vm_start q) (vm_start (V w))) (V w)"
      using no w by blast
    then show "before (V w) q \<or> before q (V w)"
      using lt ok(2) by (auto simp: in_vma_def before_def max_def split: if_splits)
  qed
qed

lemma list_add_after_elem:
  assumes "mm_list s m (us @ ys)" and "v \<notin> set (us @ ys)"
  shows "dlist (list_add_after (last_ent m us) (VmaLink v) (vlinks s)) (MmapList m) (map VmaLink (us @ v # ys))"
proof (cases us rule: rev_cases)
  case Nil
  then show ?thesis using list_add_dlist [of "vlinks s" "MmapList m" "map VmaLink ys" "VmaLink v"] assms
    by (auto simp: mm_list_def list_add_def)
next
  case (snoc us' u)
  then show ?thesis
    using list_add_elem_dlist [of "vlinks s" "MmapList m" "map VmaLink us'" "VmaLink u" "map VmaLink ys" "VmaLink v"] assms
    by (auto simp: mm_list_def list_add_def)
qed

text \<open>The areas up to the place of \<open>q\<close>, and those behind it.\<close>

definition below :: "(nat \<Rightarrow> vma_struct) \<Rightarrow> vma_struct \<Rightarrow> nat list \<Rightarrow> nat list" where
  "below V q vs = takeWhile (\<lambda>w. vm_start (V w) \<le> vm_start q) vs"

definition above :: "(nat \<Rightarrow> vma_struct) \<Rightarrow> vma_struct \<Rightarrow> nat list \<Rightarrow> nat list" where
  "above V q vs = dropWhile (\<lambda>w. vm_start (V w) \<le> vm_start q) vs"

lemma below_above [simp]: "below V q vs @ above V q vs = vs"
  by (simp add: below_def above_def)

lemma below_before:
  assumes "areas_ok V vs" and "free_range V vs q" and "vm_start q < vm_end q"
  shows "\<forall>w \<in> set (below V q vs). before (V w) q"
proof
  fix w assume w: "w \<in> set (below V q vs)"
  then have "w \<in> set vs" "vm_start (V w) \<le> vm_start q" by (auto simp: below_def dest: set_takeWhileD)
  moreover from this have "vm_start (V w) < vm_end (V w)" using assms(1) by (simp add: areas_ok_def)
  ultimately show "before (V w) q" using assms(2,3) unfolding free_range_def before_def
    by (meson leD order.strict_trans2)
qed

lemma above_after:
  assumes "areas_ok V vs" and "free_range V vs q" and "vm_start q < vm_end q"
  shows "\<forall>w \<in> set (above V q vs). before q (V w)"
proof
  fix w assume w: "w \<in> set (above V q vs)"
  then obtain y ys where y: "above V q vs = y # ys" by (cases "above V q vs") auto
  then have "\<not> vm_start (V y) \<le> vm_start q" unfolding above_def by (simp add: dropWhile_eq_Cons_conv)
  moreover have "vs = below V q vs @ y # ys" using below_above [of V q vs] y by metis
  ultimately have yv: "y \<in> set vs" by (metis in_set_conv_decomp)
  then have yl: "vm_start (V y) < vm_end (V y)" using assms(1) by (simp add: areas_ok_def)
  have "sorted_wrt (\<lambda>v w. before (V v) (V w)) (below V q vs @ y # ys)"
    using assms(1) \<open>vs = below V q vs @ y # ys\<close> by (metis areas_ok_def)
  then have srt: "\<forall>w \<in> set ys. before (V y) (V w)" by (simp add: sorted_wrt_append)
  have "before (V y) q \<or> before q (V y)" using assms(2) yv by (simp add: free_range_def)
  then have "before q (V y)" using \<open>\<not> vm_start (V y) \<le> vm_start q\<close> yl unfolding before_def by (meson less_imp_le order.trans)
  then show "before q (V w)"
    using w y srt yl unfolding before_def by (metis less_imp_le order.trans set_ConsD)
qed

lemma areas_ok_insert:
  assumes "areas_ok V vs" and "free_range V vs q" and "vm_start q < vm_end q" and "v \<notin> set vs"
    and "V' v = q\<lparr>vm_mm := m\<rparr>" and "\<forall>w \<in> set vs. V' w = V w"
  shows "areas_ok V' (below V q vs @ v # above V q vs)"
proof -
  have mem: "w \<in> set vs" if "w \<in> set (below V q vs) \<or> w \<in> set (above V q vs)" for w
    using that below_above [of V q vs] by (metis UnCI set_append)
  have srt: "sorted_wrt (\<lambda>v w. before (V v) (V w)) (below V q vs @ above V q vs)"
    using assms(1) by (simp add: areas_ok_def)
  have b: "before (V' x) (V' y) = before (V x) (V y)" if "x \<in> set vs" "y \<in> set vs" for x y
    using assms(6) that by simp
  have "sorted_wrt (\<lambda>v w. before (V' v) (V' w)) (below V q vs)" "sorted_wrt (\<lambda>v w. before (V' v) (V' w)) (above V q vs)"
    using srt mem assms(6) unfolding sorted_wrt_append by (auto elim!: sorted_wrt_mono_rel [rotated])
  moreover have "before (V' x) (V' v)" if "x \<in> set (below V q vs)" for x
    using below_before [OF assms(1,2,3)] mem assms(5,6) that by (auto simp: before_def)
  moreover have "before (V' v) (V' x)" if "x \<in> set (above V q vs)" for x
    using above_after [OF assms(1,2,3)] mem assms(5,6) that by (auto simp: before_def)
  moreover have "before (V' x) (V' y)" if "x \<in> set (below V q vs)" "y \<in> set (above V q vs)" for x y
    using srt mem assms(6) that unfolding sorted_wrt_append by auto
  ultimately show ?thesis
    using assms(1,3,5,6) mem by (auto simp: areas_ok_def sorted_wrt_append)
qed

definition linked_in :: "nat \<Rightarrow> nat \<Rightarrow> vma_ent \<Rightarrow> vmm \<Rightarrow> vmm" where
  "linked_in m v le s = upd_mm m (\<lambda>q. q\<lparr>map_count := map_count q + 1\<rparr>)
     ((upd_vma v (\<lambda>q. q\<lparr>vm_mm := m\<rparr>) s)\<lparr>vlinks := list_add_after le (VmaLink v) (vlinks s)\<rparr>)"

lemma linked_in_sel [simp]:
  "vmem (linked_in m v le s) = vmem s" "swst (linked_in m v le s) = swst s" "heap (linked_in m v le s) = heap s"
  "vlinks (linked_in m v le s) = list_add_after le (VmaLink v) (vlinks s)"
  "vmas (linked_in m v le s) = (vmas s)(v := (vmas s v)\<lparr>vm_mm := m\<rparr>)"
  "mms (linked_in m v le s) = (mms s)(m := (mms s m)\<lparr>map_count := map_count (mms s m) + 1\<rparr>)"
  by (simp_all add: linked_in_def upd_mm_def upd_vma_def vmem_def)

text \<open>
  The code compares the new area with its neighbours only; as the list is sorted, that is a comparison with
  all areas.
\<close>

lemma insert_vma_struct_eq:
  assumes ok: "mm_ok s m vs" and v: "v \<notin> set vs"
  shows "insert_vma_struct m v s =
    (if vm_start (vmas s v) < vm_end (vmas s v) \<and> free_range (vmas s) vs (vmas s v)
     then Some (linked_in m v (last_ent m (below (vmas s) (vmas s v) vs)) s) else None)"
proof (cases "vm_start (vmas s v) < vm_end (vmas s v)")
  case lt: True
  let ?V = "vmas s" and ?q = "vmas s v"
  let ?us = "below ?V ?q vs" and ?ys = "above ?V ?q vs"
  have l: "mm_list s m (?us @ ?ys)" and a: "areas_ok ?V vs" using ok by (simp_all add: mm_ok_def)
  have ip: "insert_point m (vm_start ?q) (MmapList m) (MmapList m) s = Some (last_ent m ?us)"
    using insert_point_ok [of s m "[]" vs "vm_start ?q"] ok by (simp add: mm_ok_def below_def)
  define prev_ok where "prev_ok = (?us = [] \<or> before (?V (last ?us)) ?q)"
  define next_ok where "next_ok = (?ys = [] \<or> before ?q (?V (hd ?ys)))"
  have ne: "vm_start (?V w) < vm_end (?V w)" if "w \<in> set vs" for w using a that by (simp add: areas_ok_def)
  have in_us: "w \<in> set vs" if "w \<in> set ?us \<or> w \<in> set ?ys" for w
    using that below_above [of ?V ?q vs] by (metis UnCI set_append)
  have pv: "(if last_ent m ?us \<noteq> MmapList m then check_vma_overlap (?V (le2vma (last_ent m ?us))) ?q else Some ()) =
      c_assert prev_ok"
  proof (cases ?us rule: rev_cases)
    case (snoc us' u)
    then have "vm_start (?V u) < vm_end (?V u)" using ne in_us by simp
    then show ?thesis using snoc lt by (auto simp: check_vma_overlap_def prev_ok_def before_def c_assert_def)
  qed (simp add: prev_ok_def)
  have nx: "(if list_next (last_ent m ?us) (vlinks s) \<noteq> MmapList m
      then check_vma_overlap ?q (?V (le2vma (list_next (last_ent m ?us) (vlinks s)))) else Some ()) = c_assert next_ok"
  proof (cases ?ys)
    case Nil
    then show ?thesis using mm_next [OF l] by (simp add: next_ok_def)
  next
    case (Cons y ys')
    then have "vm_start (?V y) < vm_end (?V y)" using ne in_us by simp
    then show ?thesis using Cons lt mm_next [OF l] by (auto simp: check_vma_overlap_def next_ok_def before_def c_assert_def)
  qed
  have "insert_vma_struct m v s = (if prev_ok \<and> next_ok then Some (linked_in m v (last_ent m ?us) s) else None)"
    using lt by (simp add: insert_vma_struct_def ip pv nx linked_in_def c_assert_def Let_def)
  moreover have "prev_ok \<and> next_ok \<longleftrightarrow> free_range ?V vs ?q"
  proof
    assume f: "free_range ?V vs ?q"
    show "prev_ok \<and> next_ok"
      using below_before [OF a f lt] above_after [OF a f lt] unfolding prev_ok_def next_ok_def
      by (metis hd_in_set last_in_set)
  next
    assume p: "prev_ok \<and> next_ok"
    have srt: "sorted_wrt (\<lambda>v w. before (?V v) (?V w)) (?us @ ?ys)" using a by (simp add: areas_ok_def)
    have "before (?V w) ?q" if w: "w \<in> set ?us" for w
    proof (cases "w = last ?us")
      case True
      then show ?thesis using p w by (auto simp: prev_ok_def)
    next
      case False
      obtain us' where us': "?us = us' @ [last ?us]" using w by (metis append_butlast_last_id empty_iff empty_set)
      then have "w \<in> set us'" using w False by (metis UnE empty_iff insert_iff list.set set_append)
      then have "before (?V w) (?V (last ?us))"
        using srt us' by (metis (no_types, lifting) append.assoc append_Cons list.set_intros(1) sorted_wrt_append)
      moreover have "before (?V (last ?us)) ?q" using p w by (auto simp: prev_ok_def)
      moreover have "last ?us \<in> set vs" using in_us w by (metis last_in_set empty_iff empty_set)
      ultimately show ?thesis using ne unfolding before_def by (meson less_imp_le order.trans)
    qed
    moreover have "before ?q (?V w)" if w: "w \<in> set ?ys" for w
    proof -
      obtain y ys' where y: "?ys = y # ys'" using w by (cases ?ys) auto
      then have "before ?q (?V y)" using p by (simp add: next_ok_def)
      moreover have "w = y \<or> before (?V y) (?V w)" using srt w y by (auto simp: sorted_wrt_append)
      moreover have "y \<in> set vs" using in_us y by simp
      ultimately show ?thesis using ne unfolding before_def by (metis less_imp_le order.trans)
    qed
    ultimately show "free_range ?V vs ?q"
      unfolding free_range_def using below_above [of ?V ?q vs] by (metis UnE set_append)
  qed
  ultimately show ?thesis using lt by simp
qed (simp add: insert_vma_struct_def)

lemma linked_in_ok:
  assumes ok: "mm_ok s m vs" and v: "v \<notin> set vs" and lt: "vm_start (vmas s v) < vm_end (vmas s v)"
    and f: "free_range (vmas s) vs (vmas s v)"
  shows "mm_ok (linked_in m v (last_ent m (below (vmas s) (vmas s v) vs)) s) m
    (below (vmas s) (vmas s v) vs @ v # above (vmas s) (vmas s v) vs)"
proof -
  let ?us = "below (vmas s) (vmas s v) vs" and ?ys = "above (vmas s) (vmas s v) vs"
  have l: "mm_list s m (?us @ ?ys)" and a: "areas_ok (vmas s) vs" using ok by (simp_all add: mm_ok_def)
  have "v \<notin> set (?us @ ?ys)" using v by simp
  note d = list_add_after_elem [OF l this]
  have "areas_ok (vmas (linked_in m v (last_ent m ?us) s)) (?us @ v # ?ys)"
    by (rule areas_ok_insert [OF a f lt v, where m = m]) (use v in auto)
  moreover have "length vs = length ?us + length ?ys" by (metis below_above length_append)
  moreover have "set vs = set ?us \<union> set ?ys" by (metis below_above set_append)
  ultimately show ?thesis using ok d by (auto simp: mm_ok_def mm_list_def)
qed

end
