(* ===== verification/AddrSpace.thy ===== *)
theory AddrSpace
  imports Vmm
begin

text \<open>
  Properties of the address spaces of \<open>Vmm\<close>: the objects and pages below them, mapping a range, checking user
  memory, duplicating an address space for \<open>fork\<close>, and the page fault handler.
\<close>

unbundle bit_operations_syntax

section \<open>The memory under it\<close>

text \<open>
  The heap and the page tables are intact and share the free frames \<open>F\<close>; \<open>unused\<close> is the memory, in units of
  the heap, that no object occupies.
\<close>

definition vm_ok :: "(free_area \<Rightarrow> nat set \<Rightarrow> bool) \<Rightarrow> nat set \<Rightarrow> nat list \<Rightarrow> nat set \<Rightarrow> vmm \<Rightarrow> bool" where
  "vm_ok I R bs F s \<longleftrightarrow> heap_inv (heap s) bs F \<and> space_ok I (\<lambda>_. 0) R F (vmem s)"

definition unused :: "nat list \<Rightarrow> nat set \<Rightarrow> vmm \<Rightarrow> nat set" where
  "unused bs F s = slob_free_units (heap s) bs \<union> page_units F"

lemma heap_inv_pmm: "heap_inv (h\<lparr>pmm := a\<rparr>) bs F = heap_inv h bs F"
proof -
  have "sseg (h\<lparr>pmm := a\<rparr>) p xs q = sseg h p xs q" for p xs q by (induction xs arbitrary: p) auto
  then show ?thesis by (simp add: heap_inv_def slob_inv_def slob_free_units_def)
qed

lemma heap_inv_mono: "heap_inv h bs F \<Longrightarrow> G \<subseteq> F \<Longrightarrow> heap_inv h bs G"
  unfolding heap_inv_def page_units_def by blast

lemma unused_mono: "heap t = heap s \<Longrightarrow> G \<subseteq> F \<Longrightarrow> unused bs G t \<subseteq> unused bs F s"
  unfolding unused_def page_units_def by auto

context pmm_manager
begin

lemma kalloc_ok:
  assumes ok: "vm_ok inv R bs F s" and n: "1 \<le> n" "n < 4064"
  shows "\<exists>r h cs G. kalloc alloc n s = Some (r, with_heap h s) \<and> vm_ok inv R cs G (with_heap h s) \<and> G \<subseteq> F \<and>
    card F \<le> card G + 1 \<and> (r = None \<longrightarrow> F = {}) \<and> unused cs G (with_heap h s) \<subseteq> unused bs F s \<and>
    (\<forall>a. r = Some a \<longrightarrow> a \<in> unused bs F s \<and> a \<notin> unused cs G (with_heap h s)) \<and>
    (\<forall>a. r = Some a \<longrightarrow> arena h + 2 < a \<and> sunits h (a - 1) = SLOB_UNITS n + 1 \<and>
       {a - 1..<a + SLOB_UNITS n} \<subseteq> unused bs F s \<and> {a - 1..<a + SLOB_UNITS n} \<inter> unused cs G (with_heap h s) = {})"
proof -
  let ?h = "(heap s)\<lparr>pmm := parea (vmem s)\<rparr>"
  have sp: "space_ok inv (\<lambda>_. 0) R F (vmem s)" using ok by (simp add: vm_ok_def)
  then have i: "inv (pmm ?h) F" by (simp add: space_ok_def)
  have hi: "heap_inv ?h bs F" using ok by (simp add: vm_ok_def heap_inv_pmm)
  from kmalloc_small_ok [OF hi i n] obtain r h cs G where
    k: "kmalloc alloc n ?h = Some (r, h)" "heap_inv h cs G" "inv (pmm h) G" "G \<subseteq> F"
      "refilled alloc (pmm ?h) F (pmm h) G"
    and c: "case r of None \<Rightarrow> h = ?h \<and> cs = bs \<and> (\<forall>b \<in> set bs. sunits ?h b < SLOB_UNITS n + 1) \<and> F = {}
     | Some p \<Rightarrow> sunits h (p - 1) = SLOB_UNITS n + 1 \<and> arena h + 2 < p \<and>
         ((\<exists>b \<in> set bs. SLOB_UNITS n + 1 \<le> sunits ?h b) \<longrightarrow> G = F) \<and>
         {p - 1..<p + SLOB_UNITS n} \<subseteq> slob_free_units ?h bs \<union> page_units (F - G) \<and>
         slob_free_units h cs = (slob_free_units ?h bs \<union> page_units (F - G)) - {p - 1..<p + SLOB_UNITS n}" by blast
  have u: "slob_free_units ?h bs = slob_free_units (heap s) bs" by (simp add: slob_free_units_def)
  have fin: "finite F" using space_ok_free_bound [OF sp] by blast
  have pu: "page_units (F - G) \<subseteq> page_units F" "page_units G \<subseteq> page_units F"
    using k(4) by (auto simp: page_units_def)
  have "space_ok inv (\<lambda>_. 0) R G (vmem (with_heap h s)) \<and> card F \<le> card G + 1"
  proof (cases "G = F \<and> pmm h = pmm ?h")
    case True
    then show ?thesis using sp by simp
  next
    case False
    then obtain p where p: "p \<in> F" "G = F - {p}" "alloc 1 (parea (vmem s)) = Some (Some p, pmm h)"
      using k(5) by (auto simp: refilled_def)
    have "inv (parea (vmem s)) F" using i by simp
    note cl = alloc_clean [OF this p(3)]
    have "space_ok inv (\<lambda>_. 0) R (F - {p}) ((vmem s)\<lparr>parea := pmm h\<rparr>)"
      by (rule space_ok_alloc [OF sp p(1)]) (use k(3) p(2) alloc_ref [OF p(3)] cl in auto)
    then show ?thesis using p(1,2) fin by (simp add: card_Diff_singleton)
  qed
  moreover have "unused cs G (with_heap h s) \<subseteq> unused bs F s"
    using c u pu unfolding unused_def by (auto split: option.splits)
  moreover have blk: "arena h + 2 < a \<and> sunits h (a - 1) = SLOB_UNITS n + 1 \<and>
       {a - 1..<a + SLOB_UNITS n} \<subseteq> unused bs F s \<and> {a - 1..<a + SLOB_UNITS n} \<inter> unused cs G (with_heap h s) = {}"
    if "r = Some a" for a
  proof -
    have sub: "{a - 1..<a + SLOB_UNITS n} \<subseteq> slob_free_units (heap s) bs \<union> page_units (F - G)"
      "slob_free_units h cs = (slob_free_units (heap s) bs \<union> page_units (F - G)) - {a - 1..<a + SLOB_UNITS n}"
      "arena h + 2 < a" "sunits h (a - 1) = SLOB_UNITS n + 1"
      using c that u by simp_all
    have "{a - 1..<a + SLOB_UNITS n} \<inter> slob_free_units h cs = {}" unfolding sub(2) by blast
    moreover have "slob_free_units (heap s) bs \<inter> page_units F = {}" using hi u by (simp add: heap_inv_def)
    moreover have "page_units (F - G) \<inter> page_units G = {}"
      using page_units_disjoint [of _ G] by (auto simp: page_units_def)
    ultimately have "{a - 1..<a + SLOB_UNITS n} \<inter> unused cs G (with_heap h s) = {}"
      using sub(1) pu unfolding unused_def with_heap_sel by blast
    moreover have "{a - 1..<a + SLOB_UNITS n} \<subseteq> unused bs F s" using sub(1) pu(1) unfolding unused_def by blast
    ultimately show ?thesis using sub(3,4) by blast
  qed
  moreover have "a \<in> unused bs F s \<and> a \<notin> unused cs G (with_heap h s)" if "r = Some a" for a
  proof -
    have "1 \<le> SLOB_UNITS n" using n(1) by (simp add: SLOB_UNITS_def SLOB_UNIT_def)
    then have "a \<in> {a - 1..<a + SLOB_UNITS n}" by simp
    then show ?thesis using blk [OF that] by blast
  qed
  moreover have "r = None \<longrightarrow> F = {}" using c by auto
  moreover have "kalloc alloc n s = Some (r, with_heap h s)" using k(1) by (simp add: kalloc_def)
  ultimately show ?thesis
    using k(2,4) unfolding vm_ok_def
    by (intro exI [of _ r] exI [of _ h] exI [of _ cs] exI [of _ G]) simp
qed

lemma vma_create_ok:
  assumes ok: "vm_ok inv R bs F s"
  shows "\<exists>r h cs G. vma_create alloc st fi fl s =
      Some (r, case r of None \<Rightarrow> with_heap h s
        | Some v \<Rightarrow> upd_vma v (\<lambda>q. q\<lparr>vm_start := st, vm_end := fi, vm_flags := fl\<rparr>) (with_heap h s)) \<and>
    vm_ok inv R cs G (with_heap h s) \<and> G \<subseteq> F \<and> card F \<le> card G + 1 \<and> (r = None \<longrightarrow> F = {}) \<and>
    unused cs G (with_heap h s) \<subseteq> unused bs F s \<and>
    (\<forall>a. r = Some a \<longrightarrow> a \<in> unused bs F s \<and> a \<notin> unused cs G (with_heap h s))"
proof -
  have "1 \<le> sizeof_vma_struct" "sizeof_vma_struct < 4064" by (simp_all add: sizeof_vma_struct_def)
  from kalloc_ok [OF ok this] obtain r h cs G where k: "kalloc alloc sizeof_vma_struct s = Some (r, with_heap h s)"
    and rest: "vm_ok inv R cs G (with_heap h s)" "G \<subseteq> F" "card F \<le> card G + 1" "r = None \<longrightarrow> F = {}"
      "unused cs G (with_heap h s) \<subseteq> unused bs F s"
      "\<forall>a. r = Some a \<longrightarrow> a \<in> unused bs F s \<and> a \<notin> unused cs G (with_heap h s)" by blast
  show ?thesis
    by (rule exI [of _ r], rule exI [of _ h], rule exI [of _ cs], rule exI [of _ G])
      (use k rest in \<open>auto simp: vma_create_def split: option.splits\<close>)
qed

end

lemma vm_ok_cong:
  "vm_ok I R bs F s \<Longrightarrow> vmem t = vmem s \<Longrightarrow> heap t = heap s \<Longrightarrow> vm_ok I R bs F t"
  by (simp add: vm_ok_def)

lemma unused_cong: "heap t = heap s \<Longrightarrow> unused bs F t = unused bs F s"
  by (simp add: unused_def)

lemma mm_ok_cong:
  assumes "mm_ok s m vs" and "vlinks t = vlinks s" and "mms t m = mms s m" and "\<And>v. v \<in> set vs \<Longrightarrow> vmas t v = vmas s v"
  shows "mm_ok t m vs"
proof -
  have "sorted_wrt (\<lambda>v w. before (vmas t v) (vmas t w)) vs"
    using assms(1,4) by (auto simp: mm_ok_def areas_ok_def elim!: sorted_wrt_mono_rel [rotated])
  then show ?thesis using assms by (simp add: mm_ok_def mm_list_def areas_ok_def)
qed

section \<open>Mapping a range\<close>

text \<open>The areas of an address space as values.\<close>

definition area :: "vmm \<Rightarrow> nat \<Rightarrow> u64 \<times> u64 \<times> u32" where
  "area s v = (vm_start (vmas s v), vm_end (vmas s v), vm_flags (vmas s v))"

definition covered :: "vmm \<Rightarrow> nat list \<Rightarrow> u64 \<Rightarrow> bool" where
  "covered s vs a \<longleftrightarrow> (\<exists>v \<in> set vs. in_vma a (vmas s v))"

context pmm_manager
begin

lemma mm_map_ok:
  assumes mm: "mm_ok s m vs" and vm: "vm_ok inv R bs F s" and live: "set vs \<inter> unused bs F s = {}"
    and st: "st = ROUNDDOWN addr PGSIZE" and fi: "fi = ROUNDUP (addr + len) PGSIZE"
    and ua: "USER_ACCESS st fi" and free: "\<not> covered s vs st"
  shows "if \<forall>a. st \<le> a \<and> a < fi \<longrightarrow> \<not> covered s vs a
    then \<exists>ret r s' cs G. mm_map alloc (Some m) addr len fl s = Some (ret, r, s') \<and> vm_ok inv R cs G s' \<and> G \<subseteq> F \<and>
      (case r of
         None \<Rightarrow> ret = - E_NO_MEM \<and> F = {} \<and> mm_ok s' m vs \<and> map (area s') vs = map (area s) vs
       | Some v \<Rightarrow> ret = 0 \<and> v \<in> unused bs F s \<and> v \<notin> unused cs G s' \<and> area s' v = (st, fi, fl) \<and>
           (\<exists>us ys. vs = us @ ys \<and> mm_ok s' m (us @ v # ys) \<and> map (area s') vs = map (area s) vs))
    else F \<noteq> {} \<longrightarrow> mm_map alloc (Some m) addr len fl s = None"
proof -
  have fn: "find (\<lambda>v. in_vma st (vmas s v)) vs = None" using free by (auto simp: covered_def find_None_iff)
  have f: "find_vma (Some m) st s = Some (None, s)" using find_vma_ok(1) [OF mm, of st] fn by simp
  obtain r h cs G where c: "vma_create alloc st fi fl s =
      Some (r, case r of None \<Rightarrow> with_heap h s
        | Some v \<Rightarrow> upd_vma v (\<lambda>q. q\<lparr>vm_start := st, vm_end := fi, vm_flags := fl\<rparr>) (with_heap h s))"
    and vm': "vm_ok inv R cs G (with_heap h s)" and G: "G \<subseteq> F" and no: "r = None \<longrightarrow> F = {}"
    and uu: "unused cs G (with_heap h s) \<subseteq> unused bs F s"
    and new: "\<forall>a. r = Some a \<longrightarrow> a \<in> unused bs F s \<and> a \<notin> unused cs G (with_heap h s)"
    using vma_create_ok [OF vm, of st fi fl] by blast
  have lt: "st < fi" using ua by (simp add: USER_ACCESS_def)
  have run: "mm_map alloc (Some m) addr len fl s = (case r of
      None \<Rightarrow> Some (- E_NO_MEM, None, with_heap h s)
    | Some v \<Rightarrow> do {
        s3 \<leftarrow> insert_vma_struct m v (upd_vma v (\<lambda>q. q\<lparr>vm_start := st, vm_end := fi, vm_flags := fl\<rparr>) (with_heap h s));
        Some (0, Some v, s3) })"
    using ua f c by (auto simp: mm_map_def Let_def st fi split: option.splits)
  show ?thesis
  proof (cases r)
    case None
    then have "mm_ok (with_heap h s) m vs" using mm by (intro mm_ok_cong [OF mm]) simp_all
    then show ?thesis using None no run vm' G
      by (auto simp: area_def intro!: exI [of _ cs] exI [of _ G])
  next
    case (Some v)
    let ?s2 = "upd_vma v (\<lambda>q. q\<lparr>vm_start := st, vm_end := fi, vm_flags := fl\<rparr>) (with_heap h s)"
    have nv: "v \<notin> set vs" using new Some live by blast
    have ok2: "mm_ok ?s2 m vs" by (rule mm_ok_cong [OF mm]) (use nv in auto)
    have a2: "areas_ok (vmas ?s2) vs" using ok2 by (simp add: mm_ok_def)
    have ar: "map (area t) vs = map (area s) vs" if "\<forall>w \<in> set vs. vmas t w = vmas s w" for t
      using that by (simp add: area_def)
    have lt2: "vm_start (vmas ?s2 v) < vm_end (vmas ?s2 v)" using lt by simp
    have "free_range (vmas ?s2) vs (vmas ?s2 v) \<longleftrightarrow> (\<forall>a. in_vma a (vmas ?s2 v) \<longrightarrow> (\<forall>w \<in> set vs. \<not> in_vma a (vmas ?s2 w)))"
      by (rule free_range_in [OF a2 lt2])
    also have "\<dots> \<longleftrightarrow> (\<forall>a. st \<le> a \<and> a < fi \<longrightarrow> \<not> covered s vs a)"
      using nv by (auto simp: in_vma_def covered_def)
    finally have fr: "free_range (vmas ?s2) vs (vmas ?s2 v) \<longleftrightarrow> (\<forall>a. st \<le> a \<and> a < fi \<longrightarrow> \<not> covered s vs a)" .
    note ins = insert_vma_struct_eq [OF ok2 nv]
    show ?thesis
    proof (cases "\<forall>a. st \<le> a \<and> a < fi \<longrightarrow> \<not> covered s vs a")
      case True
      let ?us = "below (vmas ?s2) (vmas ?s2 v) vs" and ?ys = "above (vmas ?s2) (vmas ?s2 v) vs"
      let ?s' = "linked_in m v (last_ent m ?us) ?s2"
      have fr': "free_range (vmas ?s2) vs (vmas ?s2 v)" using fr True by simp
      have run': "mm_map alloc (Some m) addr len fl s = Some (0, Some v, ?s')" using run Some ins lt2 fr' by simp
      have vs: "vs = ?us @ ?ys" by simp
      have mo: "mm_ok ?s' m (?us @ v # ?ys)" by (rule linked_in_ok [OF ok2 nv lt2 fr'])
      have vo: "vm_ok inv R cs G ?s'" by (rule vm_ok_cong [OF vm']) simp_all
      have av: "area ?s' v = (st, fi, fl)" by (simp add: area_def)
      have am: "map (area ?s') vs = map (area s) vs" by (rule ar) (use nv in auto)
      have un: "v \<in> unused bs F s" "v \<notin> unused cs G ?s'" using new Some by (simp_all add: unused_def)
      have ex: "\<exists>us ys. vs = us @ ys \<and> mm_ok ?s' m (us @ v # ys) \<and> map (area ?s') vs = map (area s) vs"
        by (rule exI [of _ ?us], rule exI [of _ ?ys], intro conjI vs mo am)
      show ?thesis
        unfolding if_P [OF True]
        by (rule exI [of _ 0], rule exI [of _ "Some v"], rule exI [of _ ?s'], rule exI [of _ cs], rule exI [of _ G],
            unfold option.case, intro conjI run' vo G refl un av ex)
    next
      case False
      then have "mm_map alloc (Some m) addr len fl s = None" using run Some ins fr by simp
      then show ?thesis using False by simp
    qed
  qed
qed

end

section \<open>Checking user memory\<close>

text \<open>The reference: byte \<open>a\<close> may be read or written.\<close>

definition byte_ok :: "vmm \<Rightarrow> nat list \<Rightarrow> bool \<Rightarrow> u64 \<Rightarrow> bool" where
  "byte_ok s vs write a \<longleftrightarrow> (\<exists>v \<in> set vs. in_vma a (vmas s v) \<and>
     vm_flags (vmas s v) AND (if write then VM_WRITE else VM_READ) \<noteq> 0 \<and>
     \<not> (write \<and> vm_flags (vmas s v) AND VM_STACK \<noteq> 0 \<and> a < vm_start (vmas s v) + PGSIZE))"

text \<open>Only the cache of the lookup changes.\<close>

definition cache_only :: "nat \<Rightarrow> vmm \<Rightarrow> vmm \<Rightarrow> bool" where
  "cache_only m s s' \<longleftrightarrow> (\<exists>c. s' = upd_mm m (\<lambda>q. q\<lparr>mmap_cache := c\<rparr>) s)"

lemma cache_only_refl: "cache_only m s s"
  unfolding cache_only_def by (rule exI [of _ "mmap_cache (mms s m)"]) (simp add: upd_mm_def)

lemma cache_only_trans: "cache_only m s t \<Longrightarrow> cache_only m t u \<Longrightarrow> cache_only m s u"
  unfolding cache_only_def by (auto simp: upd_mm_def)

lemma cache_only_sel: "cache_only m s t \<Longrightarrow> vmas t = vmas s \<and> vmem t = vmem s \<and> heap t = heap s \<and> vlinks t = vlinks s"
  unfolding cache_only_def by auto

lemma find_vma_cache_only:
  assumes "mm_ok s m vs"
  shows "\<exists>s'. find_vma (Some m) addr s = Some (find (\<lambda>v. in_vma addr (vmas s v)) vs, s') \<and> mm_ok s' m vs \<and> cache_only m s s'"
  using find_vma_ok [OF assms, of addr] cache_only_refl [of m s] by (auto simp: cache_only_def split: if_splits)

lemma mem_check_loop_ok:
  assumes "mm_ok s m vs"
  shows "\<exists>s'. mem_check_loop m start fin write s = Some (\<forall>a. start \<le> a \<and> a < fin \<longrightarrow> byte_ok s vs write a, s') \<and>
    mm_ok s' m vs \<and> cache_only m s s'"
  using assms
proof (induction "unat fin - unat start" arbitrary: start s rule: less_induct)
  case less
  show ?case
  proof (cases "start < fin")
    case False
    then show ?thesis using less.prems cache_only_refl by (subst mem_check_loop.simps) force
  next
    case True
    from find_vma_cache_only [OF less.prems, of start] obtain s1 where
      f: "find_vma (Some m) start s = Some (find (\<lambda>v. in_vma start (vmas s v)) vs, s1)" and ok1: "mm_ok s1 m vs"
      and c1: "cache_only m s s1" by blast
    have V: "vmas s1 = vmas s" using cache_only_sel [OF c1] by simp
    have bo: "byte_ok s1 vs write a = byte_ok s vs write a" for a by (simp add: byte_ok_def V)
    let ?stop = "\<exists>s'. mem_check_loop m start fin write s = Some (\<forall>a. start \<le> a \<and> a < fin \<longrightarrow> byte_ok s vs write a, s') \<and>
      mm_ok s' m vs \<and> cache_only m s s'"
    have bad: ?stop if "mem_check_loop m start fin write s = Some (False, s1)" "\<not> byte_ok s vs write start"
      using that True ok1 c1 by auto
    show ?thesis
    proof (cases "find (\<lambda>v. in_vma start (vmas s v)) vs")
      case None
      then have "\<not> byte_ok s vs write start" by (auto simp: find_None_iff byte_ok_def)
      moreover have "mem_check_loop m start fin write s = Some (False, s1)"
        using f None True by (subst mem_check_loop.simps) simp
      ultimately show ?thesis using bad by blast
    next
      case (Some v)
      let ?q = "vmas s v"
      let ?fl = "vm_flags ?q AND (if write then VM_WRITE else VM_READ) \<noteq> 0"
      let ?guard = "write \<and> vm_flags ?q AND VM_STACK \<noteq> 0 \<and> start < vm_start ?q + PGSIZE"
      have v: "v \<in> set vs" "in_vma start ?q" using Some by (auto simp: find_Some_iff)
      have a: "areas_ok (vmas s) vs" using less.prems by (simp add: mm_ok_def)
      have one: "w = v" if "w \<in> set vs" "in_vma start (vmas s w)" for w
        using areas_disjoint [OF a that(1) v(1) that(2) v(2)] .
      have le: "vm_start ?q \<le> start" "start < vm_end ?q" using v(2) by (simp_all add: in_vma_def)
      have run: "mem_check_loop m start fin write s =
          (if \<not> ?fl \<or> ?guard then Some (False, s1) else mem_check_loop m (vm_end ?q) fin write s1)"
        using f Some True le V by (subst mem_check_loop.simps) (auto simp: Let_def)
      have bs: "byte_ok s vs write start \<longleftrightarrow> ?fl \<and> \<not> ?guard"
        using v one unfolding byte_ok_def by blast
      show ?thesis
      proof (cases "?fl \<and> \<not> ?guard")
        case False
        then have "mem_check_loop m start fin write s = Some (False, s1)" using run by auto
        then show ?thesis using bad False bs by blast
      next
        case good: True
        have "unat start < unat (vm_end ?q)" "unat start < unat fin" using le(2) True by (simp_all add: word_less_nat_alt)
        then have "unat fin - unat (vm_end ?q) < unat fin - unat start" by linarith
        from less.hyps [OF this ok1] obtain s' where
          r: "mem_check_loop m (vm_end ?q) fin write s1 = Some (\<forall>a. vm_end ?q \<le> a \<and> a < fin \<longrightarrow> byte_ok s1 vs write a, s')"
            "mm_ok s' m vs" "cache_only m s1 s'" by blast
        have low: "byte_ok s vs write a" if "start \<le> a" "a < vm_end ?q" for a
        proof -
          have "in_vma a ?q" using that le unfolding in_vma_def by (meson order.trans)
          moreover have "\<not> (write \<and> vm_flags ?q AND VM_STACK \<noteq> 0 \<and> a < vm_start ?q + PGSIZE)"
            using good that(1) by (meson le_less_trans)
          ultimately show ?thesis using v(1) good unfolding byte_ok_def by blast
        qed
        have "(\<forall>a. vm_end ?q \<le> a \<and> a < fin \<longrightarrow> byte_ok s1 vs write a) \<longleftrightarrow>
            (\<forall>a. start \<le> a \<and> a < fin \<longrightarrow> byte_ok s vs write a)"
          unfolding bo using low le(2) by (meson leI less_imp_le order.trans)
        moreover have "mem_check_loop m start fin write s = mem_check_loop m (vm_end ?q) fin write s1"
          using run good by simp
        ultimately show ?thesis using r cache_only_trans [OF c1] by auto
      qed
    qed
  qed
qed

section \<open>Page faults\<close>

text \<open>A frame of the page manager is never a swap entry: as an offset it lies far behind the device.\<close>

lemma frame_not_swap_entry:
  assumes "frame_ok e"
  shows "swap_offset e = None"
proof -
  have "nbase \<le> PPN (PTE_ADDR e)" using assms by (simp add: frame_ok_def)
  moreover have m: "(0x3FF :: u64) = mask 10" by (simp add: mask_eq_exp_minus_1)
  have "drop_bit 12 (PTE_ADDR e) = take_bit 52 (drop_bit 10 e)"
    by (rule bit_word_eqI) (auto simp: PTE_ADDR_def m bit_simps)
  then have "PPN (PTE_ADDR e) \<le> unat e div 1024"
    using take_bit_nat_less_eq_self [of 52 "drop_bit 10 (unat e)"]
    by (simp only: PPN_def unsigned_take_bit_eq unat_drop_bit_eq) (simp add: drop_bit_eq_div)
  ultimately have "nbase * 4 \<le> unat e div 256" by linarith
  then have "unat max_swap_offset \<le> unat (drop_bit 8 e)"
    unfolding unat_drop_bit_eq
    by (simp add: drop_bit_eq_div nbase_def max_swap_offset_def ide_device_nsecs_def MAX_IDE_NSECS_def PAGE_NSECT_def)
  then have "\<not> drop_bit 8 e < max_swap_offset" by (simp add: word_less_nat_alt)
  then show ?thesis by (simp add: swap_offset_def Let_def)
qed

lemma set_vmem_same: "set_vmem (vmem s) s = s"
  by (simp add: set_vmem_def vmem_def)

lemma find_vma_in:
  assumes mm: "mm_ok s m vs" and v: "v \<in> set vs" "in_vma addr (vmas s v)"
  obtains s1 where "find_vma (Some m) addr s = Some (Some v, s1)" "cache_only m s s1" "mm_ok s1 m vs"
proof -
  have f: "find (\<lambda>v. in_vma addr (vmas s v)) vs = Some v"
    using find_unique [of "vmas s" vs v addr] v mm by (simp add: mm_ok_def)
  show ?thesis using find_vma_cache_only [OF mm, of addr] that unfolding f by blast
qed

context pmm_manager
begin

lemma swap_in_frame:
  assumes sp: "space_ok inv ex R F (smem t)" and r: "r \<in> R" and u: "u < UPAGES" and f: "frame_ok (pte (words (smem t)) r u)"
  shows "swap_in alloc r (va u) t = None"
proof (cases "alloc_pages alloc 1 (smem t)")
  case (Some x)
  obtain q m where x: "x = (q, m)" by (cases x)
  have w: "words m = words (smem t)" using Some x by (auto simp: alloc_pages_def bind_eq_Some_conv split: if_splits)
  have tr: "tree_ok (words m) R" using sp w by (simp add: space_ok_def)
  have g: "get_pte alloc r (va u) False m = Some (leaf (words m) r u, m)" by (rule get_pte_walk [OF tr r u])
  show ?thesis
  proof (cases "leaf (words m) r u")
    case None
    then show ?thesis using Some x g by (simp add: swap_in_def)
  next
    case l: (Some e)
    have "swap_offset (read_pte e m) = None" unfolding read_leaf [OF l] w by (rule frame_not_swap_entry [OF f])
    then show ?thesis using Some x g l by (auto simp: swap_in_def swapfs_read_def)
  qed
qed (simp add: swap_in_def)

lemma do_pgfault_valid:
  assumes mm: "mm_ok s m vs" and sp: "space_ok inv (\<lambda>_. 0) R F (vmem s)" and r: "pgdir (mms s m) = Some r" "r \<in> R"
    and v: "v \<in> set vs" "in_vma addr (vmas s v)" and u: "ROUNDDOWN addr PGSIZE = va u" "u < UPAGES"
    and val: "pte_valid (pte (words (vmem s)) r u)" and sw: "swap_init_ok (vmem s)"
  shows "do_pgfault sm alloc free m addr s = None"
proof -
  let ?w = "words (vmem s)"
  obtain s1 where s1: "find_vma (Some m) addr s = Some (Some v, s1)" "cache_only m s s1"
    using find_vma_in [OF mm v] by metis
  note c = cache_only_sel [OF s1(2)]
  have pd: "pgdir (mms s1 m) = Some r" using s1(2) r(1) by (auto simp: cache_only_def)
  have tr: "tree_ok ?w R" using sp by (simp add: space_ok_def)
  obtain e where l: "leaf ?w r u = Some e" using val by (auto simp: pte_def split: option.splits)
  have g: "get_pte alloc r (va u) True (vmem s1) = Some (Some e, vmem s1)"
    using get_pte_present [OF tr r(2) u(2) l] c by simp
  have rd: "read_pte e (vmem s1) = pte ?w r u" using read_leaf [OF l] c by simp
  have fo: "frame_ok (pte ?w r u)" using sp r(2) u(2) val by (simp add: space_ok_def)
  have sm: "smem (swst s1) = vmem s" using c by (simp add: vmem_def)
  have no: "swap_in alloc r (va u) (swst s1) = None"
    by (rule swap_in_frame [OF _ r(2) u(2)]) (use sp fo sm in auto)
  have nz: "pte ?w r u \<noteq> 0" using val by auto
  have "\<not> vm_start (vmas s v) > addr" using v(2) by (auto simp: in_vma_def not_less)
  moreover have "set_vmem (vmem s) s1 = s1" using set_vmem_same [of s1] c by simp
  ultimately show ?thesis using s1(1) pd g rd no nz sw c u(1) by (simp add: do_pgfault_def Let_def)
qed

lemma do_pgfault_new:
  assumes mm: "mm_ok s m vs" and sp: "space_ok inv (\<lambda>_. 0) R F (vmem s)" and r: "pgdir (mms s m) = Some r" "r \<in> R"
    and v: "v \<in> set vs" "in_vma addr (vmas s v)" and u: "ROUNDDOWN addr PGSIZE = va u" "u < UPAGES"
    and val: "pte (words (vmem s)) r u = 0" and room: "3 \<le> card F"
  shows "\<exists>s' p F'. do_pgfault sm alloc free m addr s = Some (0, s') \<and> mm_ok s' m vs \<and> pgdir (mms s' m) = Some r \<and>
    vmas s' = vmas s \<and> swap_init_ok (vmem s') = swap_init_ok (vmem s) \<and>
    space_ok inv (\<lambda>_. 0) R F' (vmem s') \<and> p \<in> F \<and> F' \<subseteq> F - {p} \<and>
    (\<forall>r' \<in> R. \<forall>u' < UPAGES. pte (words (vmem s')) r' u' =
      (if r' = r \<and> u' = u then pte_create (page2ppn p)
         (if vm_flags (vmas s v) AND VM_WRITE \<noteq> 0 then PTE_V OR PTE_U OR PTE_R OR PTE_W else PTE_V OR PTE_U) else pte (words (vmem s)) r' u'))"
proof -
  let ?w = "words (vmem s)"
  let ?perm = "if vm_flags (vmas s v) AND VM_WRITE \<noteq> 0 then PTE_U OR READ_WRITE else PTE_U"
  have bits: "PTE_V OR ?perm =
      (if vm_flags (vmas s v) AND VM_WRITE \<noteq> 0 then PTE_V OR PTE_U OR PTE_R OR PTE_W else PTE_V OR PTE_U)"
    by (simp add: READ_WRITE_def PTE_U_def PTE_R_def PTE_W_def PTE_V_def)
  obtain s1 where s1: "find_vma (Some m) addr s = Some (Some v, s1)" "cache_only m s s1" and ok1: "mm_ok s1 m vs"
    using find_vma_in [OF mm v] by metis
  note c = cache_only_sel [OF s1(2)]
  have pd: "pgdir (mms s1 m) = Some r" using s1(2) r(1) by (auto simp: cache_only_def)
  obtain m1 F1 where g: "get_pte alloc r (va u) True (vmem s) = Some (leaf (words m1) r u, m1)"
    and gr: "grown inv (\<lambda>_. 0) R F (vmem s) F1 m1" and cF: "card F \<le> card F1 + 2"
    and n: "leaf (words m1) r u = None \<longrightarrow> F1 = {}"
    using get_pte_create [OF sp r(2) u(2)] room by auto
  note G = grownD [OF gr]
  have F1: "F1 \<noteq> {}" using cF room by auto
  then obtain e where l: "leaf (words m1) r u = Some e" using n by auto
  have p1: "pte (words m1) r u = 0" using G(6) [OF r(2) u(2)] val by simp
  have rd: "read_pte e m1 = 0" using read_leaf [OF l] p1 by simp
  obtain p sa where al: "alloc_pages alloc 1 m1 = Some (Some p, m1\<lparr>parea := sa\<rparr>)" "p \<in> F1" "inv sa (F1 - {p})"
    "\<And>q. ref (pages sa q) = ref (pages (parea m1) q)" "page_clean (pages sa p)"
    "\<And>q. q \<notin> F1 \<Longrightarrow> pages sa q = pages (parea m1) q"
    by (rule alloc_page [OF G(1)]) (use F1 in auto)
  let ?m2 = "m1\<lparr>parea := sa\<rparr>"
  have sp2: "space_ok inv (\<lambda>_. 0) R (F1 - {p}) ?m2" by (rule space_ok_alloc [OF G(1) al(2,3,4,6)])
  have np: "p \<notin> R \<union> kids (words ?m2) R \<union> (F1 - {p})" using G(1) al(2) by (auto simp: space_ok_def)
  have pb: "p < npage - nbase" "page_ref p ?m2 = 0" using G(1) al(2,4) by (auto simp: space_ok_def page_ref_def)
  have perm: "take_bit 10 ?perm = ?perm"
    by (simp add: READ_WRITE_def PTE_U_def PTE_R_def PTE_W_def PTE_V_def)
  have l2: "leaf (words ?m2) r u \<noteq> None" using l by simp
  have nv: "\<not> pte_valid (pte (words ?m2) r u)" using p1 by simp
  have cl: "page_clean (pages (parea ?m2) p)" using al(5) by simp
  from page_insert_new [OF sp2 r(2) u(2) nv _ np pb(1) cl _ perm] l2 pb(2) obtain m' where
    i: "page_insert alloc free r p (va u) ?perm ?m2 = Some (0, m')" "space_ok inv (\<lambda>_. 0) R (F1 - {p}) m'"
      "swap_init_ok m' = swap_init_ok ?m2"
      "\<forall>r' \<in> R. \<forall>v' < UPAGES. pte (words m') r' v' =
         (if r' = r \<and> v' = u then pte_create (page2ppn p) (PTE_V OR ?perm) else pte (words ?m2) r' v')" by fastforce
  have pa: "pgdir_alloc_page alloc free r (va u) ?perm m1 = Some (Some p, m')"
    using al(1) i(1) by (simp add: pgdir_alloc_page_def)
  have "\<not> vm_start (vmas s v) > addr" using v(2) by (auto simp: in_vma_def not_less)
  then have run: "do_pgfault sm alloc free m addr s = Some (0, set_vmem m' (set_vmem m1 s1))"
    using s1(1) pd g rd l pa c u(1) by (simp add: do_pgfault_def Let_def)
  have "mm_ok (set_vmem m' (set_vmem m1 s1)) m vs" by (rule mm_ok_cong [OF ok1]) simp_all
  moreover have "\<forall>r' \<in> R. \<forall>u' < UPAGES. pte (words m') r' u' = (if r' = r \<and> u' = u then pte_create (page2ppn p) (PTE_V OR ?perm) else pte ?w r' u')"
    using i(4) G(6) by simp
  note pts = this [unfolded bits]
  moreover have "p \<in> F" "F1 - {p} \<subseteq> F - {p}" using al(2) G(2) by auto
  ultimately show ?thesis
    using run pd c i(2,3) G(9) pts
    by (intro exI [of _ "set_vmem m' (set_vmem m1 s1)"] exI [of _ p] exI [of _ "F1 - {p}"]) simp
qed

end

section \<open>Duplicating an address space\<close>

text \<open>
  The pages \<open>U\<close> of \<open>frm\<close> have been copied to \<open>to\<close> with frames of \<open>F\<close>, of which \<open>F'\<close> are left, and nothing else
  has changed.
\<close>

definition pages_copied ::
  "nat set \<Rightarrow> nat \<Rightarrow> nat \<Rightarrow> nat set \<Rightarrow> frames \<Rightarrow> nat set \<Rightarrow> frames \<Rightarrow> nat set \<Rightarrow> bool" where
  "pages_copied R to frm F w F' w' U \<longleftrightarrow> F' \<subseteq> F \<and> kids w' R \<subseteq> kids w R \<union> (F - F') \<and>
     (\<forall>x. x \<notin> R \<union> kids w R \<union> F \<longrightarrow> w' x = w x) \<and>
     (\<forall>r \<in> R. \<forall>u < UPAGES. \<not> (r = to \<and> u \<in> U \<and> pte_valid (pte w frm u)) \<longrightarrow> pte w' r u = pte w r u) \<and>
     (\<forall>u \<in> U. pte_valid (pte w frm u) \<longrightarrow> page_copied w w' R to frm u \<and> pte_frame (pte w' to u) \<in> F)"

lemma pages_copied_none: "pages_copied R to frm F w F w {}"
  by (simp add: pages_copied_def)

lemma pages_copied_mono: "pages_copied R to frm G w F' w' U \<Longrightarrow> G \<subseteq> F \<Longrightarrow> pages_copied R to frm F w F' w' U"
  unfolding pages_copied_def by (intro conjI allI ballI impI) blast+

lemma pages_copied_trans:
  assumes sp: "space_ok I (\<lambda>_. 0) R F m" "space_ok I (\<lambda>_. 0) R F1 m1" and R: "to \<in> R" "frm \<in> R" "to \<noteq> frm"
    and a: "pages_copied R to frm F (words m) F1 (words m1) U" and b: "pages_copied R to frm F1 (words m1) F2 w2 U'"
    and U: "U \<union> U' \<subseteq> {..<UPAGES}" "U \<inter> U' = {}"
  shows "pages_copied R to frm F (words m) F2 w2 (U \<union> U')"
proof -
  let ?w = "words m" and ?w1 = "words m1"
  have F: "F1 \<subseteq> F" "F2 \<subseteq> F1" using a b by (simp_all add: pages_copied_def)
  have k1: "kids ?w1 R \<subseteq> kids ?w R \<union> (F - F1)" using a by (simp add: pages_copied_def)
  have k2: "kids w2 R \<subseteq> kids ?w1 R \<union> (F1 - F2)" using b by (simp add: pages_copied_def)
  have w1: "?w1 x = ?w x" if "x \<notin> R \<union> kids ?w R \<union> F" for x using a that unfolding pages_copied_def by blast
  have w2: "w2 x = ?w1 x" if "x \<notin> R \<union> kids ?w1 R \<union> F1" for x using b that unfolding pages_copied_def by blast
  have p1: "pte ?w1 r u = pte ?w r u" if "r \<in> R" "u < UPAGES" "\<not> (r = to \<and> u \<in> U \<and> pte_valid (pte ?w frm u))" for r u
    using a that unfolding pages_copied_def by blast
  have p2: "pte w2 r u = pte ?w1 r u" if "r \<in> R" "u < UPAGES" "\<not> (r = to \<and> u \<in> U' \<and> pte_valid (pte ?w1 frm u))" for r u
    using b that unfolding pages_copied_def by blast
  have fr: "pte ?w1 frm u = pte ?w frm u" if "u < UPAGES" for u using p1 [OF R(2) that] R(3) by blast
  have Ub: "u < UPAGES" if "u \<in> U \<union> U'" for u using U(1) that by blast
  have pt: "pte w2 r u = pte ?w r u" if "r \<in> R" "u < UPAGES" "\<not> (r = to \<and> u \<in> U \<union> U' \<and> pte_valid (pte ?w frm u))" for r u
  proof -
    have "\<not> (r = to \<and> u \<in> U' \<and> pte_valid (pte ?w1 frm u))" using that(3) unfolding fr [OF that(2)] by blast
    note e = p2 [OF that(1,2) this]
    have "\<not> (r = to \<and> u \<in> U \<and> pte_valid (pte ?w frm u))" using that(3) by blast
    from p1 [OF that(1,2) this] show ?thesis by (rule trans [OF e])
  qed
  have late: "page_copied ?w w2 R to frm u \<and> pte_frame (pte w2 to u) \<in> F"
    if u: "u \<in> U'" "pte_valid (pte ?w frm u)" for u
  proof -
    have ub: "u < UPAGES" using Ub u(1) by blast
    have "pte_frame (pte ?w frm u) \<in> data ?w R" by (rule in_data [OF R(2) ub u(2)])
    then have "pte_frame (pte ?w frm u) \<notin> R \<union> kids ?w R \<union> F" using sp(1) by (auto simp: space_ok_def)
    from w1 [OF this] have "?w1 (pte_frame (pte ?w frm u)) = ?w (pte_frame (pte ?w frm u))" .
    moreover have "page_copied ?w1 w2 R to frm u \<and> pte_frame (pte w2 to u) \<in> F1"
      using b u fr [OF ub] by (simp add: pages_copied_def)
    ultimately show ?thesis using fr [OF ub] F by (auto simp: page_copied_def)
  qed
  have early: "page_copied ?w w2 R to frm u \<and> pte_frame (pte w2 to u) \<in> F"
    if u: "u \<in> U" "pte_valid (pte ?w frm u)" for u
  proof -
    let ?np = "pte_frame (pte ?w1 to u)"
    have ub: "u < UPAGES" using Ub u(1) by blast
    have c: "page_copied ?w ?w1 R to frm u" "?np \<in> F" using a u by (simp_all add: pages_copied_def)
    have q2: "pte w2 to u = pte ?w1 to u" using p2 [OF R(1) ub] u(1) U(2) by blast
    have mp1: "mapped ?w1 R ?np = {(to, u)}" using c(1) by (simp add: page_copied_def)
    then have "?np \<in> data ?w1 R" by (simp add: data_mapped)
    then have npo: "?np \<notin> R \<union> kids ?w1 R \<union> F1" using sp(2) by (auto simp: space_ok_def)
    have "x \<in> mapped w2 R ?np \<longleftrightarrow> x \<in> mapped ?w1 R ?np" for x
    proof (cases x)
      case (Pair r z)
      show ?thesis
      proof (cases "r = to \<and> z \<in> U' \<and> pte_valid (pte ?w1 frm z)")
        case True
        then have "pte_frame (pte w2 to z) \<in> F1" using b by (simp add: pages_copied_def)
        then have "pte_frame (pte w2 to z) \<noteq> ?np" using npo by (metis UnI2)
        then have "x \<notin> mapped w2 R ?np" using True Pair by (simp add: mapped_def)
        moreover have "x \<notin> mapped ?w1 R ?np" using True u(1) U(2) mp1 Pair by auto
        ultimately show ?thesis by blast
      next
        case False
        then have "pte w2 r z = pte ?w1 r z" if "r \<in> R" "z < UPAGES" using p2 that by blast
        then show ?thesis using Pair unfolding mapped_def by auto
      qed
    qed
    then have "mapped w2 R ?np = {(to, u)}" using mp1 by blast
    then show ?thesis using c q2 w2 [OF npo] by (simp add: page_copied_def)
  qed
  have "w2 x = ?w x" if "x \<notin> R \<union> kids ?w R \<union> F" for x
  proof -
    have "x \<notin> R \<union> kids ?w1 R \<union> F1" using that k1 F(1) by blast
    then show ?thesis using w2 w1 [OF that] by simp
  qed
  moreover have "kids w2 R \<subseteq> kids ?w R \<union> (F - F2)" using k1 k2 F by blast
  moreover have "F2 \<subseteq> F" using F by blast
  ultimately show ?thesis
    unfolding pages_copied_def using pt early late by (intro conjI allI ballI impI) blast+
qed

text \<open>An area of whole user pages, as \<open>mm_map\<close> makes them.\<close>

definition area_pages :: "vma_struct \<Rightarrow> nat set" where
  "area_pages q = {u. u < UPAGES \<and> in_vma (va u) q}"

definition pages_of :: "vmm \<Rightarrow> nat list \<Rightarrow> nat set" where
  "pages_of s vs = (\<Union>v \<in> set vs. area_pages (vmas s v))"

definition user_area :: "vma_struct \<Rightarrow> bool" where
  "user_area q \<longleftrightarrow> (\<exists>lo hi. vm_start q = va lo \<and> vm_end q = va hi \<and> 512 \<le> lo \<and> lo < hi \<and> hi \<le> UPAGES)"

lemma area_pages_eq:
  assumes "vm_start q = va lo" and "vm_end q = va hi" and "lo < hi" and "hi \<le> UPAGES"
  shows "area_pages q = {lo..<hi}"
proof -
  have "va a \<le> va b \<longleftrightarrow> a \<le> b" "va a < va b \<longleftrightarrow> a < b" if "a \<le> UPAGES" "b \<le> UPAGES" for a b
    by (simp_all add: word_le_nat_alt word_less_nat_alt unat_va that)
  then show ?thesis using assms by (auto simp: area_pages_def in_vma_def)
qed

lemma user_areaE:
  assumes "user_area q"
  obtains lo hi where "vm_start q = va lo" "vm_end q = va hi" "512 \<le> lo" "lo < hi" "hi \<le> UPAGES" "area_pages q = {lo..<hi}"
  using assms area_pages_eq by (metis user_area_def)

context pmm_manager
begin

lemma copy_area:
  assumes sp: "space_ok inv (\<lambda>_. 0) R F m" and R: "to \<in> R" "frm \<in> R" "to \<noteq> frm" and q: "user_area q"
    and free: "\<forall>u \<in> area_pages q. \<not> pte_valid (pte (words m) to u)" and room: "3 * card (area_pages q) \<le> card F"
  shows "\<exists>m' F'. copy_range alloc free to frm (vm_start q) (vm_end q) m = Some (0, m') \<and>
    space_ok inv (\<lambda>_. 0) R F' m' \<and> card F \<le> card F' + 3 * card (area_pages q) \<and>
    pages_copied R to frm F (words m) F' (words m') (area_pages q)"
proof -
  obtain lo hi where b: "vm_start q = va lo" "vm_end q = va hi" "512 \<le> lo" "lo < hi" "hi \<le> UPAGES"
    and U: "area_pages q = {lo..<hi}" using user_areaE [OF q] .
  have r: "copy_range alloc free to frm (va lo) (va hi) m = copy_loop alloc free to frm (va lo) (va hi) m"
    using b(3-5) user_access [of lo hi] va_aligned [of lo] va_aligned [of hi] by (simp add: copy_range_def)
  have e: "\<forall>u. lo \<le> u \<and> u < hi \<longrightarrow> \<not> pte_valid (pte (words m) to u)" "3 * (hi - lo) \<le> card F"
    using free room by (simp_all add: U)
  from copy_loop_ok [OF sp R b(4,5) e] obtain m' F' where
    1: "copy_loop alloc free to frm (va lo) (va hi) m = Some (0, m')" "space_ok inv (\<lambda>_. 0) R F' m'" "F' \<subseteq> F"
      "card F \<le> card F' + 3 * (hi - lo)" "kids (words m') R \<subseteq> kids (words m) R \<union> (F - F')"
      "\<forall>x. x \<notin> R \<union> kids (words m) R \<union> F \<longrightarrow> words m' x = words m x"
      "\<forall>r' \<in> R. \<forall>u < UPAGES. \<not> (r' = to \<and> lo \<le> u \<and> u < hi \<and> pte_valid (pte (words m) frm u)) \<longrightarrow>
         pte (words m') r' u = pte (words m) r' u"
      "\<forall>u. lo \<le> u \<and> u < hi \<and> pte_valid (pte (words m) frm u) \<longrightarrow>
         page_copied (words m) (words m') R to frm u \<and> pte_frame (pte (words m') to u) \<in> F"
    by (elim exE conjE) (rule that)
  have in_U: "u \<in> area_pages q \<longleftrightarrow> lo \<le> u \<and> u < hi" for u by (simp add: U)
  have same: "pte (words m') r' u = pte (words m) r' u"
    if "r' \<in> R" "u < UPAGES" "\<not> (r' = to \<and> u \<in> area_pages q \<and> pte_valid (pte (words m) frm u))" for r' u
    using 1(7) that unfolding in_U by blast
  have cop: "page_copied (words m) (words m') R to frm u \<and> pte_frame (pte (words m') to u) \<in> F"
    if "u \<in> area_pages q" "pte_valid (pte (words m) frm u)" for u
    using 1(8) that unfolding in_U by blast
  have "pages_copied R to frm F (words m) F' (words m') (area_pages q)"
    unfolding pages_copied_def by (intro conjI allI ballI impI 1(3,5) same) (use 1(6) cop in blast)+
  then show ?thesis
    using 1(1,2,4) unfolding b(1,2) r U by (intro exI [of _ m'] exI [of _ F']) simp
qed

end

text \<open>Inserting into one address space leaves another one as it is.\<close>

lemma linked_in_other:
  assumes ok: "mm_ok s m vs" and other: "mm_ok s n ws" and mn: "m \<noteq> n" and dis: "set vs \<inter> set ws = {}" "v \<notin> set ws"
    and le: "le \<in> set (MmapList m # map VmaLink vs)"
  shows "mm_ok (linked_in m v le s) n ws"
proof -
  have d: "dlist (vlinks s) (MmapList m) (map VmaLink vs)" "dlist (vlinks s) (MmapList n) (map VmaLink ws)"
    using ok other by (simp_all add: mm_ok_def mm_list_def)
  have "apart (MmapList m) (map VmaLink vs) (MmapList n) (map VmaLink ws)"
    using mn dis(1) by (auto simp: apart_def)
  from list_add_other [OF d this _ le, of "VmaLink v"] dis(2)
  have "dlist (list_add_after le (VmaLink v) (vlinks s)) (MmapList n) (map VmaLink ws)"
    by (simp add: list_add_def image_iff)
  moreover have "areas_ok (vmas (linked_in m v le s)) ws"
  proof -
    have "vmas (linked_in m v le s) w = vmas s w" if "w \<in> set ws" for w using dis(2) that by auto
    moreover have "areas_ok (vmas s) ws" using other by (simp add: mm_ok_def)
    ultimately show ?thesis by (auto simp: areas_ok_def simp del: linked_in_sel elim!: sorted_wrt_mono_rel [rotated])
  qed
  ultimately show ?thesis using other mn by (simp add: mm_ok_def mm_list_def)
qed

lemma area_linked_in [simp]: "area (linked_in m v le s) w = area s w"
  by (simp add: area_def)

text \<open>
  Inside the loop of \<open>dup_mmap\<close>: the areas \<open>zs\<close> at the end of the list of \<open>frm\<close> have the copies \<open>ws\<close> in \<open>to\<close>,
  the areas \<open>us\<close> are still to be copied.
\<close>

definition dup_inv ::
  "(free_area \<Rightarrow> nat set \<Rightarrow> bool) \<Rightarrow> nat set \<Rightarrow> nat \<Rightarrow> nat \<Rightarrow> nat \<Rightarrow> nat \<Rightarrow> nat list \<Rightarrow> nat set \<Rightarrow> vmm \<Rightarrow>
   nat list \<Rightarrow> nat list \<Rightarrow> nat list \<Rightarrow> bool" where
  "dup_inv I R to frm tp fp bs F s us zs ws \<longleftrightarrow> vm_ok I R bs F s \<and> mm_ok s frm (us @ zs) \<and> mm_ok s to ws \<and>
     map (area s) ws = map (area s) zs \<and> set ws \<inter> set (us @ zs) = {} \<and> set (us @ zs @ ws) \<inter> unused bs F s = {} \<and>
     pgdir (mms s to) = Some tp \<and> pgdir (mms s frm) = Some fp"

definition first_ent :: "nat \<Rightarrow> nat list \<Rightarrow> vma_ent" where
  "first_ent m zs = (case zs of [] \<Rightarrow> MmapList m | z # _ \<Rightarrow> VmaLink z)"

lemma first_ent_Cons [simp]: "first_ent m (z # zs) = VmaLink z"
  by (simp add: first_ent_def)

lemma free_in_front:
  assumes "areas_ok V (us @ x # zs)" and "map (\<lambda>w. (vm_start (V w), vm_end (V w))) ws = map (\<lambda>z. (vm_start (V z), vm_end (V z))) zs"
    and "vm_start q = vm_start (V x)" and "vm_end q = vm_end (V x)"
  shows "free_range V ws q" "below V q ws = []" "above V q ws = ws"
proof -
  have x: "vm_start (V x) < vm_end (V x)" "\<forall>z \<in> set zs. before (V x) (V z)"
    using assms(1) by (auto simp: areas_ok_def sorted_wrt_append)
  have w: "vm_end q \<le> vm_start (V w)" if "w \<in> set ws" for w
  proof -
    have "(vm_start (V w), vm_end (V w)) \<in> set (map (\<lambda>z. (vm_start (V z), vm_end (V z))) zs)"
      using that unfolding assms(2) [symmetric] by auto
    then show ?thesis using x(2) assms(4) by (auto simp: before_def)
  qed
  then show "free_range V ws q" by (simp add: free_range_def before_def)
  have gt: "\<not> vm_start (V w) \<le> vm_start q" if "w \<in> set ws" for w
    using w [OF that] x(1) assms(3,4) by auto
  show "below V q ws = []" using gt by (cases ws) (auto simp: below_def)
  show "above V q ws = ws" using gt by (cases ws) (auto simp: above_def)
qed

text \<open>
  What building the list of \<open>to\<close> out of the areas \<open>A\<close> leaves alone: all other areas and all other address spaces.
\<close>

definition beside :: "nat \<Rightarrow> nat set \<Rightarrow> vmm \<Rightarrow> vmm \<Rightarrow> bool" where
  "beside to A s s' \<longleftrightarrow> (\<forall>w. w \<notin> A \<longrightarrow> vmas s' w = vmas s w) \<and> (\<forall>k. k \<noteq> to \<longrightarrow> mms s' k = mms s k) \<and>
     (\<forall>n xs. n \<noteq> to \<longrightarrow> set xs \<inter> A = {} \<longrightarrow> mm_ok s n xs \<longrightarrow> mm_ok s' n xs)"

lemma besideD:
  assumes "beside to A s s'"
  shows "w \<notin> A \<Longrightarrow> vmas s' w = vmas s w" "k \<noteq> to \<Longrightarrow> mms s' k = mms s k"
    "n \<noteq> to \<Longrightarrow> set xs \<inter> A = {} \<Longrightarrow> mm_ok s n xs \<Longrightarrow> mm_ok s' n xs"
  using assms by (simp_all add: beside_def)

lemma beside_refl: "beside to A s s"
  by (simp add: beside_def)

lemma beside_trans:
  assumes "beside to A s s1" and "beside to B s1 s2" and "A \<subseteq> C" and "B \<subseteq> C"
  shows "beside to C s s2"
  unfolding beside_def
proof (intro conjI allI impI)
  show "vmas s2 w = vmas s w" if "w \<notin> C" for w
  proof -
    have "w \<notin> A" "w \<notin> B" using that assms(3,4) by auto
    then show ?thesis using besideD(1) [OF assms(1)] besideD(1) [OF assms(2)] by simp
  qed
  show "mms s2 k = mms s k" if "k \<noteq> to" for k
    using besideD(2) [OF assms(1) that] besideD(2) [OF assms(2) that] by simp
  show "mm_ok s2 n xs" if "n \<noteq> to" "set xs \<inter> C = {}" "mm_ok s n xs" for n xs
  proof -
    have "set xs \<inter> A = {}" "set xs \<inter> B = {}" using that(2) assms(3,4) by auto
    then show ?thesis
      using besideD(3) [OF assms(2) that(1)] besideD(3) [OF assms(1) that(1) _ that(3)] by blast
  qed
qed

context pmm_manager
begin

lemma dup_step:
  assumes D: "dup_inv inv R to frm tp fp bs F s (us @ [x]) zs ws" and ne: "to \<noteq> frm" "tp \<noteq> fp" "tp \<in> R" "fp \<in> R"
    and q: "user_area (vmas s x)" and free: "\<forall>u \<in> area_pages (vmas s x). \<not> pte_valid (pte (words (vmem s)) tp u)"
    and room: "3 * card (area_pages (vmas s x)) + 1 \<le> card F"
  shows "\<exists>s' cs F' v. dup_loop alloc free to frm (first_ent frm zs) s = dup_loop alloc free to frm (VmaLink x) s' \<and>
    dup_inv inv R to frm tp fp cs F' s' us (x # zs) (v # ws) \<and> (\<forall>w \<in> set (us @ x # zs). vmas s' w = vmas s w) \<and>
    card F \<le> card F' + (3 * card (area_pages (vmas s x)) + 1) \<and>
    pages_copied R tp fp F (words (vmem s)) F' (words (vmem s')) (area_pages (vmas s x)) \<and>
    unused cs F' s' \<subseteq> unused bs F s \<and> v \<in> unused bs F s \<and> beside to (insert v (set ws)) s s'"
proof -
  let ?q = "vmas s x" and ?vs = "us @ x # zs"
  have vm: "vm_ok inv R bs F s" and mf: "mm_ok s frm ?vs" and mt: "mm_ok s to ws"
    and ar: "map (area s) ws = map (area s) zs" and dis: "set ws \<inter> set ?vs = {}"
    and live: "set (?vs @ ws) \<inter> unused bs F s = {}"
    and pg: "pgdir (mms s to) = Some tp" "pgdir (mms s frm) = Some fp"
    using D by (auto simp: dup_inv_def)
  have le: "list_prev (first_ent frm zs) (vlinks s) = VmaLink x"
    using mm_prev [of s frm "us @ [x]" zs] mf by (simp add: first_ent_def mm_ok_def)
  obtain r h cs G where c: "vma_create alloc (vm_start ?q) (vm_end ?q) (vm_flags ?q) s =
      Some (r, case r of None \<Rightarrow> with_heap h s
        | Some v \<Rightarrow> upd_vma v (\<lambda>p. p\<lparr>vm_start := vm_start ?q, vm_end := vm_end ?q, vm_flags := vm_flags ?q\<rparr>) (with_heap h s))"
    and vm1: "vm_ok inv R cs G (with_heap h s)" and G: "G \<subseteq> F" and cG: "card F \<le> card G + 1" and no: "r = None \<longrightarrow> F = {}"
    and uu: "unused cs G (with_heap h s) \<subseteq> unused bs F s"
    and new: "\<forall>a. r = Some a \<longrightarrow> a \<in> unused bs F s \<and> a \<notin> unused cs G (with_heap h s)"
    using vma_create_ok [OF vm, of "vm_start ?q" "vm_end ?q" "vm_flags ?q"] by blast
  have "F \<noteq> {}" using room by auto
  then obtain v where v: "r = Some v" using no by (cases r) auto
  let ?s1 = "upd_vma v (\<lambda>p. p\<lparr>vm_start := vm_start ?q, vm_end := vm_end ?q, vm_flags := vm_flags ?q\<rparr>) (with_heap h s)"
  have vn: "v \<notin> set ?vs" "v \<notin> set ws" using new v live by auto
  have same1: "vmas ?s1 w = vmas s w" if "w \<noteq> v" for w using that by simp
  have mf1: "mm_ok ?s1 frm ?vs" by (rule mm_ok_cong [OF mf]) (use vn in auto)
  have mt1: "mm_ok ?s1 to ws" by (rule mm_ok_cong [OF mt]) (use vn in auto)
  have a1: "areas_ok (vmas ?s1) ?vs" using mf1 by (simp add: mm_ok_def)
  have m1: "map (\<lambda>w. (vm_start (vmas ?s1 w), vm_end (vmas ?s1 w))) ws = map (\<lambda>z. (vm_start (vmas ?s1 z), vm_end (vmas ?s1 z))) zs"
  proof -
    have e: "map (\<lambda>w. (vm_start (vmas ?s1 w), vm_end (vmas ?s1 w))) ys = map (\<lambda>(a, b, c). (a, b)) (map (area s) ys)"
      if "v \<notin> set ys" for ys using that by (auto simp: area_def)
    have z: "v \<notin> set zs" using vn(1) by simp
    show ?thesis by (simp only: e [OF vn(2)] e [OF z] ar)
  qed
  have qx: "vm_start (vmas ?s1 v) = vm_start (vmas ?s1 x)" "vm_end (vmas ?s1 v) = vm_end (vmas ?s1 x)"
    "area ?s1 v = area s x" using vn by (auto simp: area_def)
  note fr = free_in_front [OF a1 m1 qx(1,2)]
  have lt: "vm_start (vmas ?s1 v) < vm_end (vmas ?s1 v)" using a1 qx by (simp add: areas_ok_def)
  let ?s2 = "linked_in to v (MmapList to) ?s1"
  have ins: "insert_vma_struct to v ?s1 = Some ?s2"
    using insert_vma_struct_eq [OF mt1 vn(2)] by (simp only: lt fr if_True simp_thms last_ent_simps)
  have mt2: "mm_ok ?s2 to (v # ws)" 
    using linked_in_ok [OF mt1 vn(2) lt fr(1)] by (simp only: fr(2,3) append_Nil last_ent_simps)
  have mf2: "mm_ok ?s2 frm ?vs" by (rule linked_in_other [OF mt1 mf1 ne(1) dis vn(1)]) simp
  have sp: "space_ok inv (\<lambda>_. 0) R G (vmem ?s2)" using vm1 by (simp add: vm_ok_def)
  have w2: "words (vmem ?s2) = words (vmem s)" by simp
  have "3 * card (area_pages ?q) \<le> card G" using room cG by linarith
  from copy_area [OF sp ne(3,4,2) q _ this] free w2 obtain m' F' where
    cp: "copy_range alloc free tp fp (vm_start ?q) (vm_end ?q) (vmem ?s2) = Some (0, m')"
      "space_ok inv (\<lambda>_. 0) R F' m'" "card G \<le> card F' + 3 * card (area_pages ?q)"
      "pages_copied R tp fp G (words (vmem s)) F' (words m') (area_pages ?q)" by (auto simp del: linked_in_sel vmm_sel)
  let ?s3 = "set_vmem m' ?s2"
  have run: "dup_loop alloc free to frm (first_ent frm zs) s = dup_loop alloc free to frm (VmaLink x) ?s3"
  proof -
    have "pgdir (mms ?s2 to) = Some tp" "pgdir (mms ?s2 frm) = Some fp" using pg ne(1) by simp_all
    then show ?thesis
      by (subst dup_loop.simps) (simp add: le c v ins cp(1) Let_def del: linked_in_sel vmm_sel)
  qed
  have F': "F' \<subseteq> G" using cp(4) by (simp add: pages_copied_def)
  have vm3: "vm_ok inv R cs F' ?s3" using vm1 heap_inv_mono [OF _ F'] cp(2) by (simp add: vm_ok_def)
  have u3: "unused cs F' ?s3 \<subseteq> unused cs G (with_heap h s)" by (rule unused_mono [OF _ F']) simp
  have D3: "dup_inv inv R to frm tp fp cs F' ?s3 us (x # zs) (v # ws)"
  proof -
    have "mm_ok ?s3 frm ?vs" by (rule mm_ok_cong [OF mf2]) simp_all
    moreover have "mm_ok ?s3 to (v # ws)" by (rule mm_ok_cong [OF mt2]) simp_all
    moreover have "area ?s3 v = area ?s3 x" "map (area ?s3) ws = map (area s) ws" "map (area ?s3) zs = map (area s) zs"
      using vn by (auto simp: area_def)
    moreover have "v \<notin> unused cs F' ?s3" using new v u3 by auto
    moreover have "set (?vs @ ws) \<inter> unused cs F' ?s3 = {}" using live u3 uu by blast
    moreover have "pgdir (mms ?s3 to) = Some tp" "pgdir (mms ?s3 frm) = Some fp" using pg ne(1) by simp_all
    ultimately show ?thesis using vm3 ar dis vn unfolding dup_inv_def by (simp del: linked_in_sel vmm_sel)
  qed
  have "\<forall>w \<in> set ?vs. vmas ?s3 w = vmas s w" using vn(1) by auto
  moreover have "card F \<le> card F' + (3 * card (area_pages ?q) + 1)" using cG cp(3) by linarith
  moreover have "pages_copied R tp fp F (words (vmem s)) F' (words (vmem ?s3)) (area_pages ?q)"
    using pages_copied_mono [OF cp(4) G] by simp
  moreover have "unused cs F' ?s3 \<subseteq> unused bs F s" "v \<in> unused bs F s" using u3 uu new v by auto
  moreover have "beside to (insert v (set ws)) s ?s3"
    unfolding beside_def
  proof (intro conjI allI impI)
    show "vmas ?s3 w = vmas s w" if "w \<notin> insert v (set ws)" for w using that by simp
    show "mms ?s3 k = mms s k" if "k \<noteq> to" for k using that by simp
    show "mm_ok ?s3 n xs" if n: "n \<noteq> to" "set xs \<inter> insert v (set ws) = {}" "mm_ok s n xs" for n xs
    proof -
      have "mm_ok ?s1 n xs" by (rule mm_ok_cong [OF n(3)]) (use n(2) in auto)
      from linked_in_other [OF mt1 this] n have "mm_ok ?s2 n xs" by auto
      then show ?thesis by (rule mm_ok_cong) simp_all
    qed
  qed
  ultimately show ?thesis using run D3 by (intro exI [of _ ?s3] exI [of _ cs] exI [of _ F'] exI [of _ v] conjI)
qed

lemma dup_loop_ok:
  assumes "dup_inv inv R to frm tp fp bs F s us zs ws" and "to \<noteq> frm" "tp \<noteq> fp" "tp \<in> R" "fp \<in> R"
    and "\<forall>v \<in> set us. user_area (vmas s v)" and "\<forall>u \<in> pages_of s us. \<not> pte_valid (pte (words (vmem s)) tp u)"
    and "(\<Sum>v\<leftarrow>us. 3 * card (area_pages (vmas s v)) + 1) \<le> card F"
  shows "\<exists>s' cs G ws'. dup_loop alloc free to frm (first_ent frm zs) s = Some (0, s') \<and>
    dup_inv inv R to frm tp fp cs G s' [] (us @ zs) ws' \<and> (\<forall>w \<in> set (us @ zs). vmas s' w = vmas s w) \<and>
    pages_copied R tp fp F (words (vmem s)) G (words (vmem s')) (pages_of s us) \<and>
    beside to (unused bs F s \<union> set ws) s s'"
  using assms(1,6,7,8)
proof (induction us arbitrary: bs F s zs ws rule: rev_induct)
  case Nil
  have "list_prev (first_ent frm zs) (vlinks s) = MmapList frm"
    using mm_prev [of s frm "[]" zs] Nil.prems(1) by (simp add: first_ent_def dup_inv_def mm_ok_def)
  then have "dup_loop alloc free to frm (first_ent frm zs) s = Some (0, s)" by (subst dup_loop.simps) simp
  then show ?case using Nil.prems(1) pages_copied_none [of R tp fp F "words (vmem s)"] beside_refl
    by (intro exI [of _ s] exI [of _ bs] exI [of _ F] exI [of _ ws]) (simp add: pages_of_def)
next
  case (snoc x us)
  note D = snoc.prems(1)
  have q: "user_area (vmas s x)" using snoc.prems(2) by simp
  have fx: "\<forall>u \<in> area_pages (vmas s x). \<not> pte_valid (pte (words (vmem s)) tp u)"
    using snoc.prems(3) by (simp add: pages_of_def)
  have rx: "3 * card (area_pages (vmas s x)) + 1 \<le> card F" using snoc.prems(4) by simp
  obtain s1 cs F1 v where
    1: "dup_loop alloc free to frm (first_ent frm zs) s = dup_loop alloc free to frm (VmaLink x) s1"
      "dup_inv inv R to frm tp fp cs F1 s1 us (x # zs) (v # ws)" "\<forall>w \<in> set (us @ x # zs). vmas s1 w = vmas s w"
      "card F \<le> card F1 + (3 * card (area_pages (vmas s x)) + 1)"
      "pages_copied R tp fp F (words (vmem s)) F1 (words (vmem s1)) (area_pages (vmas s x))"
      "unused cs F1 s1 \<subseteq> unused bs F s" "v \<in> unused bs F s" "beside to (insert v (set ws)) s s1"
    using dup_step [OF D assms(2-5) q fx rx] by (elim exE conjE) (rule that)
  have V: "vmas s1 w = vmas s w" if "w \<in> set us" for w using 1(3) that by simp
  have po: "pages_of s1 us = pages_of s us" by (simp add: pages_of_def V)
  have dj: "area_pages (vmas s x) \<inter> pages_of s us = {}"
  proof -
    have a: "areas_ok (vmas s) (us @ x # zs)" and dst: "distinct (us @ x # zs)"
      using D mm_ok_distinct [of s frm "us @ x # zs"] by (simp_all add: dup_inv_def mm_ok_def)
    have "False" if "in_vma (va u) (vmas s x)" "w \<in> set us" "in_vma (va u) (vmas s w)" for u w
      using areas_disjoint [OF a _ _ that(1,3)] that(2) dst by auto
    then show ?thesis by (auto simp: pages_of_def area_pages_def)
  qed
  have ub: "area_pages (vmas s x) \<union> pages_of s us \<subseteq> {..<UPAGES}" by (auto simp: pages_of_def area_pages_def)
  have f1: "\<forall>u \<in> pages_of s1 us. \<not> pte_valid (pte (words (vmem s1)) tp u)"
  proof
    fix u assume u: "u \<in> pages_of s1 us"
    then have u': "u \<in> pages_of s us" "u \<notin> area_pages (vmas s x)" "u < UPAGES" using po dj ub by auto
    then have "pte (words (vmem s1)) tp u = pte (words (vmem s)) tp u"
      using 1(5) assms(4) unfolding pages_copied_def by blast
    then show "\<not> pte_valid (pte (words (vmem s1)) tp u)" using snoc.prems(3) u'(1) by (simp add: pages_of_def)
  qed
  have u1: "\<forall>v \<in> set us. user_area (vmas s1 v)" using snoc.prems(2) V by simp
  have r1: "(\<Sum>v\<leftarrow>us. 3 * card (area_pages (vmas s1 v)) + 1) \<le> card F1"
  proof -
    have e: "map (\<lambda>v. 3 * card (area_pages (vmas s1 v)) + 1) us = map (\<lambda>v. 3 * card (area_pages (vmas s v)) + 1) us"
      using V by simp
    show ?thesis unfolding e using snoc.prems(4) 1(4) by simp
  qed
  obtain s2 ds G ws' where 2: "dup_loop alloc free to frm (first_ent frm (x # zs)) s1 = Some (0, s2)"
      "dup_inv inv R to frm tp fp ds G s2 [] (us @ x # zs) ws'" "\<forall>w \<in> set (us @ x # zs). vmas s2 w = vmas s1 w"
      "pages_copied R tp fp F1 (words (vmem s1)) G (words (vmem s2)) (pages_of s1 us)"
      "beside to (unused cs F1 s1 \<union> set (v # ws)) s1 s2"
    using snoc.IH [OF 1(2) u1 f1 r1] by (elim exE conjE) (rule that)
  have sp: "space_ok inv (\<lambda>_. 0) R F (vmem s)" "space_ok inv (\<lambda>_. 0) R F1 (vmem s1)"
    using D 1(2) by (simp_all add: dup_inv_def vm_ok_def)
  have "pages_copied R tp fp F (words (vmem s)) G (words (vmem s2)) (area_pages (vmas s x) \<union> pages_of s us)"
    by (rule pages_copied_trans [OF sp assms(4,5,3) 1(5) 2(4) [unfolded po] ub dj])
  moreover have "area_pages (vmas s x) \<union> pages_of s us = pages_of s (us @ [x])" by (auto simp: pages_of_def)
  moreover have "beside to (unused bs F s \<union> set ws) s s2"
    by (rule beside_trans [OF 1(8) 2(5)]) (use 1(6,7) in auto)
  ultimately show ?case
    using 1(1,3) 2(1,2,3) by (intro exI [of _ s2] exI [of _ ds] exI [of _ G] exI [of _ ws']) simp
qed

end

section \<open>The properties\<close>

text \<open>
  A small address space: \<open>mm_struct\<close> 17 with the areas 18 (pages 1024 to 1027, writable) and 19 (pages 1040 to
  1043, read only) over root 20 of \<open>demo_pmem\<close>, and the empty \<open>mm_struct\<close> 15 over root 21.
\<close>

definition demo_vma :: "nat \<Rightarrow> vma_struct" where
  "demo_vma v = (if v = 19 then \<lparr>vm_mm = 17, vm_start = va 1040, vm_end = va 1044, vm_flags = VM_READ\<rparr>
     else \<lparr>vm_mm = 17, vm_start = va 1024, vm_end = va 1028, vm_flags = VM_READ OR VM_WRITE\<rparr>)"

definition demo_vmm :: vmm where
  "demo_vmm = \<lparr>swst = demo_swap\<lparr>smem := demo_pmem\<rparr>, heap = demo_heap,
     vlinks = \<lparr>lprev = (\<lambda>e. if e = MmapList 17 then VmaLink 19 else if e = VmaLink 19 then VmaLink 18
         else if e = VmaLink 18 then MmapList 17 else e),
       lnext = (\<lambda>e. if e = MmapList 17 then VmaLink 18 else if e = VmaLink 18 then VmaLink 19
         else if e = VmaLink 19 then MmapList 17 else e)\<rparr>,
     mms = (\<lambda>m. \<lparr>mmap_cache = None, pgdir = Some (if m = 17 then 20 else 21), map_count = (if m = 17 then 2 else 0),
       sm_priv = Some PraHead, mm_count = 1\<rparr>),
     vmas = demo_vma\<rparr>"

lemma demo_order: "va 1024 < va 1028" "va 1028 \<le> va 1040" "va 1040 < va 1044"
  by (simp_all add: va_def)

lemma demo_mm_ok: "mm_ok demo_vmm 17 [18, 19]" "mm_ok demo_vmm 15 []"
  using demo_order
  by (simp_all add: mm_ok_def mm_list_def areas_ok_def before_def demo_vmm_def demo_vma_def dlist_def)

lemma demo_vm_ok: "vm_ok pmm_inv {20, 21} [20] {2..<10} demo_vmm" "{18, 19} \<inter> unused [20] {2..<10} demo_vmm = {}"
proof -
  show "vm_ok pmm_inv {20, 21} [20] {2..<10} demo_vmm"
    using demo_heap_inv(1) demo_space by (simp add: vm_ok_def demo_vmm_def vmem_def)
  show "{18, 19} \<inter> unused [20] {2..<10} demo_vmm = {}"
    by (auto simp: unused_def slob_free_units_def blk_def page_units_def demo_vmm_def demo_heap_def page2kva_unit_def)
qed

text \<open>
  C31: \<open>insert_vma_struct\<close> keeps an address space well formed. It returns exactly when the new area is not
  empty and shares no address with the areas of the list (although it only looks at the two neighbours), and
  panics otherwise; afterwards the list holds the new area besides the old ones, in address order and
  disjoint, with the count increased, and no area has changed its range or flags.
\<close>

theorem insert_vma_keeps_well_formed:
  assumes "mm_ok s m vs" and "v \<notin> set vs"
  shows "if vm_start (vmas s v) < vm_end (vmas s v) \<and> (\<forall>a. in_vma a (vmas s v) \<longrightarrow> \<not> covered s vs a)
    then \<exists>s' us ys. insert_vma_struct m v s = Some s' \<and> vs = us @ ys \<and> mm_ok s' m (us @ v # ys) \<and>
      (\<forall>w. area s' w = area s w)
    else insert_vma_struct m v s = None"
proof (cases "vm_start (vmas s v) < vm_end (vmas s v)")
  case True
  have "areas_ok (vmas s) vs" using assms(1) by (simp add: mm_ok_def)
  from free_range_in [OF this True] have
    f: "free_range (vmas s) vs (vmas s v) \<longleftrightarrow> (\<forall>a. in_vma a (vmas s v) \<longrightarrow> \<not> covered s vs a)"
    by (simp add: covered_def)
  show ?thesis
  proof (cases "free_range (vmas s) vs (vmas s v)")
    case fr: True
    let ?s' = "linked_in m v (last_ent m (below (vmas s) (vmas s v) vs)) s"
    have "insert_vma_struct m v s = Some ?s'" using insert_vma_struct_eq [OF assms] True fr by simp
    moreover have "\<forall>w. area ?s' w = area s w" by (simp add: area_def)
    ultimately show ?thesis
      using linked_in_ok [OF assms True fr] True f fr below_above [of "vmas s" "vmas s v" vs]
      by (simp only: simp_thms if_True) metis
  qed (use True f insert_vma_struct_eq [OF assms] in auto)
qed (simp add: insert_vma_struct_eq [OF assms])

theorem insert_vma_keeps_well_formed_witness:
  "\<exists>s' us ys. insert_vma_struct 15 18 demo_vmm = Some s' \<and> mm_ok s' 15 (us @ 18 # ys)"
proof -
  have "vm_start (vmas demo_vmm 18) < vm_end (vmas demo_vmm 18)" using demo_order by (simp add: demo_vmm_def demo_vma_def)
  then show ?thesis using insert_vma_keeps_well_formed [OF demo_mm_ok(2), of 18]
    by (simp add: covered_def del: append_Cons) (metis append_Nil)
qed

text \<open>
  C33: \<open>mm_map\<close> of a range of user addresses whose first address lies in no area. If no address of the range
  is covered, it adds an area with the rounded range and the flags, made of memory no other object uses, and
  keeps the rest, or fails with \<open>E_NO_MEM\<close> when no page is left. If the range runs into a later area, it does
  not refuse: the lookup of the first address found nothing, and the insertion panics.
\<close>

theorem mm_map_adds_area:
  assumes "mm_ok s m vs" and "vm_ok pmm_inv R bs F s" and "set vs \<inter> unused bs F s = {}"
    and "st = ROUNDDOWN addr PGSIZE" and "fi = ROUNDUP (addr + len) PGSIZE"
    and "USER_ACCESS st fi" and "\<not> covered s vs st"
  shows "if \<forall>a. st \<le> a \<and> a < fi \<longrightarrow> \<not> covered s vs a
    then \<exists>ret r s' cs G. mm_map default_alloc_pages (Some m) addr len fl s = Some (ret, r, s') \<and> vm_ok pmm_inv R cs G s' \<and> G \<subseteq> F \<and>
      (case r of
         None \<Rightarrow> ret = - E_NO_MEM \<and> F = {} \<and> mm_ok s' m vs \<and> map (area s') vs = map (area s) vs
       | Some v \<Rightarrow> ret = 0 \<and> v \<in> unused bs F s \<and> v \<notin> unused cs G s' \<and> area s' v = (st, fi, fl) \<and>
           (\<exists>us ys. vs = us @ ys \<and> mm_ok s' m (us @ v # ys) \<and> map (area s') vs = map (area s) vs))
    else F \<noteq> {} \<longrightarrow> mm_map default_alloc_pages (Some m) addr len fl s = None"
  by (rule ff.mm_map_ok [OF assms])

theorem mm_map_adds_area_witness:
  "mm_map default_alloc_pages (Some 17) (va 1036) 0x8000 VM_READ demo_vmm = None"
proof -
  have st: "va 1036 = ROUNDDOWN (va 1036) PGSIZE" and fi: "va 1044 = ROUNDUP (va 1036 + 0x8000) PGSIZE"
    by (simp_all add: va_def ROUNDDOWN_def ROUNDUP_def PGSIZE_def)
  have ua: "USER_ACCESS (va 1036) (va 1044)" using user_access [of 1036 1044] by (simp add: UPAGES_def)
  have no: "\<not> covered demo_vmm [18, 19] (va 1036)"
    by (simp add: covered_def demo_vmm_def demo_vma_def in_vma_def va_def)
  have yes: "\<not> (\<forall>a. va 1036 \<le> a \<and> a < va 1044 \<longrightarrow> \<not> covered demo_vmm [18, 19] a)"
    by (intro notI, drule spec [of _ "va 1040"]) (simp add: covered_def demo_vmm_def demo_vma_def in_vma_def va_def)
  show ?thesis
    using mm_map_adds_area [OF demo_mm_ok(1) demo_vm_ok(1) _ st fi ua no, of VM_READ] demo_vm_ok(2) yes by simp
qed

text \<open>
  C30: \<open>user_mem_check\<close>, which hops from area to area, agrees with the check of every single byte: it accepts
  a range of user memory if and only if the range is a user range and each of its bytes lies in an area with
  the right permission, and for a write not in the guard page of a stack. It always returns, and changes
  nothing but the cache of the lookup.
\<close>

theorem user_mem_check_per_byte:
  assumes "mm_ok s m vs"
  shows "\<exists>s'. user_mem_check (Some m) addr len write s =
      Some (USER_ACCESS addr (addr + len) \<and> (\<forall>a. addr \<le> a \<and> a < addr + len \<longrightarrow> byte_ok s vs write a), s') \<and>
    mm_ok s' m vs \<and> cache_only m s s'"
proof (cases "USER_ACCESS addr (addr + len)")
  case True
  then show ?thesis using mem_check_loop_ok [OF assms, of addr "addr + len" "write"] by (simp add: user_mem_check_def)
next
  case False
  then show ?thesis using assms cache_only_refl [of m s] by (auto simp: user_mem_check_def)
qed

theorem user_mem_check_per_byte_witness: "\<exists>s'. user_mem_check (Some 17) (va 1040) 8 True demo_vmm = Some (False, s')"
proof -
  have "\<not> byte_ok demo_vmm [18, 19] True (va 1040)"
    by (simp add: byte_ok_def demo_vmm_def demo_vma_def in_vma_def va_def VM_READ_def VM_WRITE_def)
  moreover have "va 1040 < va 1040 + 8" by (simp add: va_def)
  ultimately have "\<not> (\<forall>a. va 1040 \<le> a \<and> a < va 1040 + 8 \<longrightarrow> byte_ok demo_vmm [18, 19] True a)" by blast
  then show ?thesis using user_mem_check_per_byte [OF demo_mm_ok(1), of "va 1040" 8 True] by auto
qed

text \<open>
  C32: \<open>do_pgfault\<close> at an address of an area whose page has no entry yet, with at least three free frames (two
  may go into page tables), returns 0 and maps a frame there that was free, and changes no other translation of
  any address space. The new entry is valid and for user mode; it allows reading and writing when the area is
  writable, and no access at all when it is not, whether or not the area is readable or executable (C34).
\<close>

theorem pgfault_maps_new_page:
  assumes "mm_ok s m vs" and "space_ok pmm_inv (\<lambda>_. 0) R F (vmem s)" and "pgdir (mms s m) = Some r" and "r \<in> R"
    and "v \<in> set vs" and "in_vma addr (vmas s v)" and "ROUNDDOWN addr PGSIZE = va u" and "u < UPAGES"
    and "pte (words (vmem s)) r u = 0" and "3 \<le> card F"
  shows "\<exists>s' p F'. do_pgfault sm default_alloc_pages default_free_pages m addr s = Some (0, s') \<and> mm_ok s' m vs \<and>
    space_ok pmm_inv (\<lambda>_. 0) R F' (vmem s') \<and> p \<in> F \<and> F' \<subseteq> F - {p} \<and>
    (\<forall>r' \<in> R. \<forall>u' < UPAGES. pte (words (vmem s')) r' u' =
      (if r' = r \<and> u' = u then pte_create (page2ppn p)
         (if vm_flags (vmas s v) AND VM_WRITE \<noteq> 0 then PTE_V OR PTE_U OR PTE_R OR PTE_W else PTE_V OR PTE_U) else pte (words (vmem s)) r' u'))"
  using ff.do_pgfault_new [OF assms, of sm] by metis

theorem pgfault_maps_new_page_witness:
  "\<exists>s' p. do_pgfault swap_manager_fifo default_alloc_pages default_free_pages 17 (va 1025 + 8) demo_vmm = Some (0, s') \<and>
     p \<in> {2..<10} \<and> pte (words (vmem s')) 20 1025 = pte_create (page2ppn p) (PTE_V OR PTE_U OR PTE_R OR PTE_W)"
proof -
  have w: "vmem demo_vmm = demo_pmem" "words demo_pmem = demo_word"
    by (simp_all add: vmem_def demo_vmm_def demo_pmem_def demo_word_def demo_pmem_at_def)
  have u: "1025 < UPAGES" by (simp add: UPAGES_def)
  have i: "in_vma (va 1025 + 8) (vmas demo_vmm 18)" by (simp add: in_vma_def demo_vmm_def demo_vma_def va_def)
  have rd: "ROUNDDOWN (va 1025 + 8) PGSIZE = va 1025" by (simp add: ROUNDDOWN_def PGSIZE_def va_def)
  have pd: "pgdir (mms demo_vmm 17) = Some 20" by (simp add: demo_vmm_def)
  have fp: "vm_flags (vmas demo_vmm 18) AND VM_WRITE \<noteq> 0"
    by (simp add: demo_vmm_def demo_vma_def VM_READ_def VM_WRITE_def)
  have "pte (words (vmem demo_vmm)) 20 1025 = 0" using demo_pte(2) [OF u] w by simp
  from pgfault_maps_new_page [OF demo_mm_ok(1) _ pd _ _ i rd u this, of "{20, 21}" "{2..<10}" swap_manager_fifo]
  show ?thesis using demo_space w u fp by fastforce
qed

text \<open>
  C34: A fault in an area that is not writable: the handler maps a page with neither of the bits R, W and X, which
  the hardware does not take for a page, so the access faults again; and this second fault finds a valid entry,
  takes it for a swap entry, and panics.
\<close>

theorem pgfault_readonly_panics:
  assumes "mm_ok s m vs" and "space_ok pmm_inv (\<lambda>_. 0) R F (vmem s)" and "pgdir (mms s m) = Some r" and "r \<in> R"
    and "v \<in> set vs" and "in_vma addr (vmas s v)" and "ROUNDDOWN addr PGSIZE = va u" and "u < UPAGES"
    and "pte (words (vmem s)) r u = 0" and "3 \<le> card F" and "vm_flags (vmas s v) AND VM_WRITE = 0" and "swap_init_ok (vmem s)"
  shows "\<exists>s' p. do_pgfault sm default_alloc_pages default_free_pages m addr s = Some (0, s') \<and>
    pte (words (vmem s')) r u = pte_create (page2ppn p) (PTE_V OR PTE_U) \<and>
    do_pgfault sm default_alloc_pages default_free_pages m addr s' = None"
proof -
  obtain s' p F' where 1: "do_pgfault sm default_alloc_pages default_free_pages m addr s = Some (0, s')"
    "mm_ok s' m vs" "pgdir (mms s' m) = Some r" "vmas s' = vmas s" "swap_init_ok (vmem s') = swap_init_ok (vmem s)"
    "space_ok pmm_inv (\<lambda>_. 0) R F' (vmem s')" and p: "p \<in> F"
    and e: "pte (words (vmem s')) r u = pte_create (page2ppn p)
         (if vm_flags (vmas s v) AND VM_WRITE \<noteq> 0 then PTE_V OR PTE_U OR PTE_R OR PTE_W else PTE_V OR PTE_U)"
    using ff.do_pgfault_new [OF assms(1-10), of sm] assms(4,8) by metis
  have pb: "p < npage - nbase" using assms(2) p by (simp add: space_ok_def)
  have "take_bit 10 (PTE_V OR PTE_U) = PTE_V OR PTE_U" by (simp add: PTE_V_def PTE_U_def)
  note c = pte_create(1) [OF pb this]
  have e': "pte (words (vmem s')) r u = pte_create (page2ppn p) (PTE_V OR PTE_U)"
    using e assms(11) by simp
  then have "pte_valid (pte (words (vmem s')) r u)" using c by simp
  from ff.do_pgfault_valid [OF 1(2,6,3) assms(4,5) _ assms(7,8) this, of sm] assms(6,12) 1(4,5)
  have "do_pgfault sm default_alloc_pages default_free_pages m addr s' = None" by simp
  then show ?thesis using 1(1) e' by metis
qed

theorem pgfault_readonly_panics_witness:
  "\<exists>s'. do_pgfault swap_manager_fifo default_alloc_pages default_free_pages 17 (va 1041) demo_vmm = Some (0, s') \<and>
     do_pgfault swap_manager_fifo default_alloc_pages default_free_pages 17 (va 1041) s' = None"
proof -
  have w: "vmem demo_vmm = demo_pmem" "words demo_pmem = demo_word" "swap_init_ok demo_pmem"
    by (simp_all add: vmem_def demo_vmm_def demo_pmem_def demo_word_def demo_pmem_at_def)
  have u: "1041 < UPAGES" by (simp add: UPAGES_def)
  have i: "in_vma (va 1041) (vmas demo_vmm 19)" by (simp add: in_vma_def demo_vmm_def demo_vma_def va_def)
  have rd: "ROUNDDOWN (va 1041) PGSIZE = va 1041" by (simp add: ROUNDDOWN_def PGSIZE_def va_def)
  have pd: "pgdir (mms demo_vmm 17) = Some 20" by (simp add: demo_vmm_def)
  have ro: "vm_flags (vmas demo_vmm 19) AND VM_WRITE = 0"
    by (simp add: demo_vmm_def demo_vma_def VM_READ_def VM_WRITE_def)
  have "pte (words (vmem demo_vmm)) 20 1041 = 0" using demo_pte(2) [OF u] w by simp
  from pgfault_readonly_panics [OF demo_mm_ok(1) _ pd _ _ i rd u this _ ro, of "{20, 21}" "{2..<10}" swap_manager_fifo]
  show ?thesis using demo_space w by fastforce
qed

text \<open>
  C29: \<open>dup_mmap\<close>, the address space copy of \<open>fork\<close>, into an empty address space in which none of these pages is
  mapped, with one free frame for every area and three for every page of it (with less \<open>copy_range\<close> may
  panic). It returns 0; the new address space has the same areas in the same order; every page that is mapped in
  an area of the parent is mapped in the child at the same address with the same access bits and contents, in a
  frame of its own that was free. All other translations stay; no frame is written but the page tables and
  frames that were free, so that every frame mapped before keeps its contents; the areas that were in use, the
  parent's among them, and all other address spaces are as they were, and the heap and the page tables stay
  intact.
\<close>

theorem dup_mmap_duplicates:
  assumes "vm_ok pmm_inv R bs F s" and "mm_ok s frm vs" and "mm_ok s to []" and "to \<noteq> frm"
    and "set vs \<inter> unused bs F s = {}" and "pgdir (mms s to) = Some tp" and "pgdir (mms s frm) = Some fp"
    and "tp \<in> R" and "fp \<in> R" and "tp \<noteq> fp" and "\<forall>v \<in> set vs. user_area (vmas s v)"
    and "\<forall>u \<in> pages_of s vs. \<not> pte_valid (pte (words (vmem s)) tp u)"
    and "(\<Sum>v\<leftarrow>vs. 3 * card (area_pages (vmas s v)) + 1) \<le> card F"
  shows "\<exists>s' cs G ws. dup_mmap default_alloc_pages default_free_pages to frm s = Some (0, s') \<and> vm_ok pmm_inv R cs G s' \<and>
    mm_ok s' frm vs \<and> mm_ok s' to ws \<and> map (area s') vs = map (area s) vs \<and> map (area s') ws = map (area s) vs \<and>
    (\<forall>u \<in> pages_of s vs. pte_valid (pte (words (vmem s)) fp u) \<longrightarrow>
       page_copied (words (vmem s)) (words (vmem s')) R tp fp u \<and> pte_frame (pte (words (vmem s')) tp u) \<in> F) \<and>
    (\<forall>r \<in> R. \<forall>u < UPAGES. \<not> (r = tp \<and> u \<in> pages_of s vs \<and> pte_valid (pte (words (vmem s)) fp u)) \<longrightarrow>
       pte (words (vmem s')) r u = pte (words (vmem s)) r u) \<and>
    (\<forall>x. x \<notin> R \<union> kids (words (vmem s)) R \<union> F \<longrightarrow> words (vmem s') x = words (vmem s) x) \<and>
    (\<forall>x \<in> data (words (vmem s)) R. words (vmem s') x = words (vmem s) x) \<and>
    (\<forall>w. w \<notin> unused bs F s \<longrightarrow> vmas s' w = vmas s w) \<and> (\<forall>k. k \<noteq> to \<longrightarrow> mms s' k = mms s k) \<and>
    (\<forall>n xs. n \<noteq> to \<and> mm_ok s n xs \<and> set xs \<inter> unused bs F s = {} \<longrightarrow> mm_ok s' n xs)"
proof -
  have D: "dup_inv pmm_inv R to frm tp fp bs F s vs [] []" using assms(1-3,5-7) by (simp add: dup_inv_def)
  obtain s' cs G ws where 1: "dup_loop default_alloc_pages default_free_pages to frm (first_ent frm []) s = Some (0, s')"
      "dup_inv pmm_inv R to frm tp fp cs G s' [] (vs @ []) ws" "\<forall>w \<in> set (vs @ []). vmas s' w = vmas s w"
      "pages_copied R tp fp F (words (vmem s)) G (words (vmem s')) (pages_of s vs)"
      "beside to (unused bs F s \<union> set []) s s'"
    using ff.dup_loop_ok [OF D assms(4,10,8,9,11-13)] by (elim exE conjE) (rule that)
  have run: "dup_mmap default_alloc_pages default_free_pages to frm s = Some (0, s')"
    using 1(1) by (simp add: dup_mmap_def first_ent_def)
  have a: "map (area s') vs = map (area s) vs" using 1(3) by (simp add: area_def)
  have inv: "vm_ok pmm_inv R cs G s'" "mm_ok s' frm vs" "mm_ok s' to ws" "map (area s') ws = map (area s') vs"
    using 1(2) by (simp_all add: dup_inv_def)
  have cp: "\<forall>u \<in> pages_of s vs. pte_valid (pte (words (vmem s)) fp u) \<longrightarrow>
       page_copied (words (vmem s)) (words (vmem s')) R tp fp u \<and> pte_frame (pte (words (vmem s')) tp u) \<in> F"
    and pt: "\<forall>r \<in> R. \<forall>u < UPAGES. \<not> (r = tp \<and> u \<in> pages_of s vs \<and> pte_valid (pte (words (vmem s)) fp u)) \<longrightarrow>
       pte (words (vmem s')) r u = pte (words (vmem s)) r u"
    and fr: "\<forall>x. x \<notin> R \<union> kids (words (vmem s)) R \<union> F \<longrightarrow> words (vmem s') x = words (vmem s) x"
    using 1(4) unfolding pages_copied_def by blast+
  have da: "words (vmem s') x = words (vmem s) x" if "x \<in> data (words (vmem s)) R" for x
  proof -
    have "space_ok pmm_inv (\<lambda>_. 0) R F (vmem s)" using assms(1) by (simp add: vm_ok_def)
    then have "x \<notin> R \<union> kids (words (vmem s)) R \<union> F" using that unfolding space_ok_def by blast
    then show ?thesis using fr by blast
  qed
  have ot: "\<forall>w. w \<notin> unused bs F s \<longrightarrow> vmas s' w = vmas s w" "\<forall>k. k \<noteq> to \<longrightarrow> mms s' k = mms s k"
    "\<forall>n xs. n \<noteq> to \<and> mm_ok s n xs \<and> set xs \<inter> unused bs F s = {} \<longrightarrow> mm_ok s' n xs"
    using besideD [OF 1(5)] by simp_all
  show ?thesis
    by (intro exI [of _ s'] exI [of _ cs] exI [of _ G] exI [of _ ws] conjI run inv(1-3) a cp pt fr ot ballI da)
      (simp_all only: inv(4) a)
qed

text \<open>For the example, an address space of one area of two pages.\<close>

definition demo_small :: vmm where
  "demo_small = demo_vmm\<lparr>vmas := demo_vma(18 := (demo_vma 18)\<lparr>vm_end := va 1026\<rparr>),
     mms := (mms demo_vmm)(17 := (mms demo_vmm 17)\<lparr>map_count := 1\<rparr>),
     vlinks := \<lparr>lprev = (\<lambda>e. if e = MmapList 17 then VmaLink 18 else if e = VmaLink 18 then MmapList 17 else e),
       lnext = (\<lambda>e. if e = MmapList 17 then VmaLink 18 else if e = VmaLink 18 then MmapList 17 else e)\<rparr>\<rparr>"

theorem dup_mmap_duplicates_witness:
  "\<exists>s'. dup_mmap default_alloc_pages default_free_pages 15 17 demo_small = Some (0, s') \<and>
     page_copied demo_word (words (vmem s')) {20, 21} 21 20 1024"
proof -
  have w: "vmem demo_small = demo_pmem" "words demo_pmem = demo_word" "heap demo_small = heap demo_vmm"
    by (simp_all add: vmem_def demo_small_def demo_vmm_def demo_pmem_def demo_word_def demo_pmem_at_def)
  have q: "vmas demo_small 18 = \<lparr>vm_mm = 17, vm_start = va 1024, vm_end = va 1026, vm_flags = VM_READ OR VM_WRITE\<rparr>"
    by (simp add: demo_small_def demo_vma_def)
  have ua: "user_area (vmas demo_small 18)" unfolding user_area_def q
    by (rule exI [of _ 1024], rule exI [of _ 1026]) (simp add: UPAGES_def)
  have ap: "area_pages (vmas demo_small 18) = {1024..<1026}" by (rule area_pages_eq) (simp_all add: q UPAGES_def)
  have po: "pages_of demo_small [18] = {1024..<1026}" by (simp add: pages_of_def ap)
  have vm: "vm_ok pmm_inv {20, 21} [20] {2..<10} demo_small" by (rule vm_ok_cong [OF demo_vm_ok(1)]) (use w in \<open>simp_all add: vmem_def demo_vmm_def\<close>)
  have mf: "mm_ok demo_small 17 [18]" and mt: "mm_ok demo_small 15 []"
    by (simp_all add: mm_ok_def mm_list_def areas_ok_def q dlist_def) (simp_all add: demo_small_def demo_vmm_def va_def)
  have live: "set [18] \<inter> unused [20] {2..<10} demo_small = {}"
    using demo_vm_ok(2) unused_cong [OF w(3), of "[20]" "{2..<10}"] by simp
  have pg: "pgdir (mms demo_small 15) = Some 21" "pgdir (mms demo_small 17) = Some 20"
    by (simp_all add: demo_small_def demo_vmm_def)
  have fr: "\<forall>u \<in> pages_of demo_small [18]. \<not> pte_valid (pte (words (vmem demo_small)) 21 u)"
    using demo_pte(1) w by (auto simp: po UPAGES_def)
  have room: "(\<Sum>v\<leftarrow>[18]. 3 * card (area_pages (vmas demo_small v)) + 1) \<le> card {2..<10::nat}" by (simp add: ap)
  have "pte_valid (pte demo_word 20 1024)" using demo_pte(2) [of 1024] demo_entries(7) by (simp add: UPAGES_def)
  then show ?thesis
    using dup_mmap_duplicates [OF vm mf mt _ live pg _ _ _ _ fr room] ua w po by auto
qed

end
