(* ===== verification/Proc.thy ===== *)
theory Proc
  imports AddrSpace Stride
begin

text \<open>
  Processes, \<open>lab6/kern/process/proc.c\<close>: creating them (\<open>do_fork\<close>), their numbers (\<open>get_pid\<close>), the process list,
  the hash table and the tree of parents and children, and \<open>do_exit\<close>, \<open>do_wait\<close> and \<open>do_kill\<close>. The state
  composes the scheduler (\<open>Sched\<close>) and the memory of processes (\<open>Vmm\<close>); a process is named by the address of its
  \<open>proc_struct\<close> in both. \<open>ProcTree\<close> proves the properties.
\<close>

unbundle bit_operations_syntax

section \<open>State\<close>

text \<open>The registers of a trap frame are numbered as in RISC-V: 2 is \<open>sp\<close>, 8 and 9 are \<open>s0\<close> and \<open>s1\<close>, 10 is \<open>a0\<close>.\<close>

record trapframe =
  gpr :: "nat \<Rightarrow> u64"
  tf_status :: u64
  tf_epc :: u64
  tf_tval :: u64
  tf_cause :: u64

record kcontext =
  ctx_ra :: u64
  ctx_sp :: u64
  ctx_s :: "nat \<Rightarrow> u64"

text \<open>
  The fields of \<open>proc_struct\<close> that \<open>Sched\<close> does not have. A kernel stack is named by its first page, a page
  directory by its frame.
\<close>

record pcb =
  pid :: int
  kstack :: "nat option"
  proc_parent :: "nat option"
  proc_mm :: "nat option"
  ctx :: kcontext
  tf :: "trapframe option"
  cr3 :: nat
  proc_flags :: u32
  proc_name :: "nat \<Rightarrow> 8 word"
  exit_code :: int
  cptr :: "nat option"
  yptr :: "nat option"
  optr :: "nat option"

text \<open>The entries of \<open>proc_list\<close> and of the 1024 lists of \<open>hash_list\<close>.\<close>

datatype proc_ent = ProcList | ListLink nat
datatype hash_ent = HashList nat | HashLink nat

fun le2list :: "proc_ent \<Rightarrow> nat" where
  "le2list (ListLink p) = p"
| "le2list ProcList = 0"

fun le2hash :: "hash_ent \<Rightarrow> nat" where
  "le2hash (HashLink p) = p"
| "le2hash (HashList b) = 0"

text \<open>\<open>satp\<close> is the page directory the processor uses (\<open>lcr3\<close>); \<open>next_safe\<close> and \<open>last_pid\<close> are static in \<open>get_pid\<close>.\<close>

record kern =
  kvm :: vmm
  sch :: sched
  pcbs :: "nat \<Rightarrow> pcb"
  proc_links :: "proc_ent links"
  hash_links :: "hash_ent links"
  initproc :: "nat option"
  nr_process :: int
  next_safe :: int
  last_pid :: int
  boot_pgdir :: nat
  satp :: nat

definition upd_pcb :: "nat \<Rightarrow> (pcb \<Rightarrow> pcb) \<Rightarrow> kern \<Rightarrow> kern" where
  "upd_pcb p f k = k\<lparr>pcbs := (pcbs k)(p := f (pcbs k p))\<rparr>"

definition cur :: "kern \<Rightarrow> nat" where "cur k = current (sch k)"

definition upd_cur :: "(proc_struct \<Rightarrow> proc_struct) \<Rightarrow> kern \<Rightarrow> kern" where
  "upd_cur f k = k\<lparr>sch := upd_proc (cur k) f (sch k)\<rparr>"

lemma upd_pcb_sel [simp]:
  "kvm (upd_pcb p f k) = kvm k" "sch (upd_pcb p f k) = sch k" "pcbs (upd_pcb p f k) = (pcbs k)(p := f (pcbs k p))"
  "proc_links (upd_pcb p f k) = proc_links k" "hash_links (upd_pcb p f k) = hash_links k"
  "initproc (upd_pcb p f k) = initproc k" "nr_process (upd_pcb p f k) = nr_process k"
  "next_safe (upd_pcb p f k) = next_safe k" "last_pid (upd_pcb p f k) = last_pid k"
  "boot_pgdir (upd_pcb p f k) = boot_pgdir k" "satp (upd_pcb p f k) = satp k" "cur (upd_pcb p f k) = cur k"
  by (simp_all add: upd_pcb_def cur_def)

lemma cur_upd [simp]:
  "cur (k\<lparr>kvm := v\<rparr>) = cur k" "cur (k\<lparr>pcbs := f\<rparr>) = cur k" "cur (k\<lparr>proc_links := pl\<rparr>) = cur k"
  "cur (k\<lparr>hash_links := hl\<rparr>) = cur k" "cur (k\<lparr>nr_process := i\<rparr>) = cur k" "cur (k\<lparr>next_safe := i\<rparr>) = cur k"
  "cur (k\<lparr>last_pid := i\<rparr>) = cur k" "cur (k\<lparr>satp := n\<rparr>) = cur k" "cur (k\<lparr>sch := s\<rparr>) = current s"
  by (simp_all add: cur_def)

definition MAX_PROCESS :: int where "MAX_PROCESS = 4096"
definition MAX_PID :: int where "MAX_PID = MAX_PROCESS * 2"
definition PF_EXITING :: u32 where "PF_EXITING = 0x00000001"
definition CLONE_VM :: u32 where "CLONE_VM = 0x00000100"
definition KSTACKPAGE :: nat where "KSTACKPAGE = 2"
definition KSTACKSIZE :: u64 where "KSTACKSIZE = of_nat KSTACKPAGE * PGSIZE"
definition PROC_NAME_LEN :: nat where "PROC_NAME_LEN = 15"
definition sizeof_proc_struct :: nat where "sizeof_proc_struct = 328"
definition sizeof_trapframe :: u64 where "sizeof_trapframe = 288"

text \<open>\<open>page2kva\<close> as an address.\<close>

definition page2kva :: "nat \<Rightarrow> u64" where
  "page2kva p = of_nat (4096 * page2ppn p) + 0xFFFFFFFF40000000"

section \<open>Process structures, names, links\<close>

text \<open>
  \<open>alloc_proc\<close>. The fields of the scheduler that it leaves out (\<open>run_link\<close>, \<open>time_slice\<close>, stride and priority)
  keep whatever the memory held.
\<close>

definition alloc_proc :: "pmm_alloc \<Rightarrow> kern \<Rightarrow> (nat option \<times> kern) option" where
  "alloc_proc al k = do {
     (r, v) \<leftarrow> kalloc al sizeof_proc_struct (kvm k);
     let k1 = k\<lparr>kvm := v\<rparr>;
     (case r of
        None \<Rightarrow> Some (None, k1)
      | Some p \<Rightarrow>
          let k2 = k1\<lparr>sch := upd_proc p (\<lambda>q. q\<lparr>state := PROC_UNINIT, runs := 0, need_resched := False, wait_state := 0\<rparr>) (sch k1)\<rparr>
          in Some (Some p, upd_pcb p (\<lambda>q. q\<lparr>pid := - 1, kstack := None, proc_parent := None, proc_mm := None,
               ctx := \<lparr>ctx_ra = 0, ctx_sp = 0, ctx_s = (\<lambda>_. 0)\<rparr>, tf := None, cr3 := boot_pgdir k2, proc_flags := 0,
               proc_name := (\<lambda>_. 0), cptr := None, optr := None, yptr := None\<rparr>) k2))
   }"

definition set_proc_name :: "nat \<Rightarrow> (nat \<Rightarrow> 8 word) \<Rightarrow> kern \<Rightarrow> kern" where
  "set_proc_name p name = upd_pcb p (\<lambda>q. q\<lparr>proc_name := (\<lambda>i. if i < PROC_NAME_LEN then name i else 0)\<rparr>)"

definition get_proc_name :: "nat \<Rightarrow> kern \<Rightarrow> nat \<Rightarrow> 8 word" where
  "get_proc_name p k = (\<lambda>i. if i < PROC_NAME_LEN then proc_name (pcbs k p) i else 0)"

text \<open>A process without a parent has its links set through \<open>NULL\<close>.\<close>

definition set_links :: "nat \<Rightarrow> kern \<Rightarrow> kern option" where
  "set_links p k = do {
     let k1 = k\<lparr>proc_links := list_add ProcList (ListLink p) (proc_links k)\<rparr>;
     let k2 = upd_pcb p (\<lambda>q. q\<lparr>yptr := None\<rparr>) k1;
     par \<leftarrow> proc_parent (pcbs k2 p);
     let k3 = upd_pcb p (\<lambda>q. q\<lparr>optr := cptr (pcbs k2 par)\<rparr>) k2;
     let k4 = (case optr (pcbs k3 p) of Some c \<Rightarrow> upd_pcb c (\<lambda>q. q\<lparr>yptr := Some p\<rparr>) k3 | None \<Rightarrow> k3);
     let k5 = upd_pcb par (\<lambda>q. q\<lparr>cptr := Some p\<rparr>) k4;
     Some (k5\<lparr>nr_process := nr_process k5 + 1\<rparr>)
   }"

definition remove_links :: "nat \<Rightarrow> kern \<Rightarrow> kern option" where
  "remove_links p k = do {
     let k1 = k\<lparr>proc_links := list_del (ListLink p) (proc_links k)\<rparr>;
     let k2 = (case optr (pcbs k1 p) of Some c \<Rightarrow> upd_pcb c (\<lambda>q. q\<lparr>yptr := yptr (pcbs k1 p)\<rparr>) k1 | None \<Rightarrow> k1);
     k3 \<leftarrow> (case yptr (pcbs k2 p) of
         Some c \<Rightarrow> Some (upd_pcb c (\<lambda>q. q\<lparr>optr := optr (pcbs k2 p)\<rparr>) k2)
       | None \<Rightarrow> do { par \<leftarrow> proc_parent (pcbs k2 p); Some (upd_pcb par (\<lambda>q. q\<lparr>cptr := optr (pcbs k2 p)\<rparr>) k2) });
     Some (k3\<lparr>nr_process := nr_process k3 - 1\<rparr>)
   }"

section \<open>Process numbers\<close>

text \<open>The loop from the label \<open>repeat\<close>, behind the entry \<open>le\<close>.\<close>

partial_function (option) pid_scan :: "proc_ent \<Rightarrow> kern \<Rightarrow> kern option" where
  "pid_scan le k =
     (let le = list_next le (proc_links k) in
      if le = ProcList then Some k
      else let q = pid (pcbs k (le2list le)) in
        if q = last_pid k then
          let k1 = k\<lparr>last_pid := last_pid k + 1\<rparr> in
          if last_pid k1 \<ge> next_safe k1 then
            pid_scan ProcList (k1\<lparr>last_pid := (if last_pid k1 \<ge> MAX_PID then 1 else last_pid k1), next_safe := MAX_PID\<rparr>)
          else pid_scan le k1
        else if q > last_pid k \<and> next_safe k > q then pid_scan le (k\<lparr>next_safe := q\<rparr>)
        else pid_scan le k)"

declare pid_scan.simps [code]

definition get_pid :: "kern \<Rightarrow> (int \<times> kern) option" where
  "get_pid k = do {
     let k1 = k\<lparr>last_pid := last_pid k + 1\<rparr>;
     k2 \<leftarrow> (if last_pid k1 \<ge> MAX_PID then pid_scan ProcList (k1\<lparr>last_pid := 1, next_safe := MAX_PID\<rparr>)
           else if last_pid k1 \<ge> next_safe k1 then pid_scan ProcList (k1\<lparr>next_safe := MAX_PID\<rparr>)
           else Some k1);
     Some (last_pid k2, k2)
   }"

definition hash32 :: "u32 \<Rightarrow> nat \<Rightarrow> u32" where
  "hash32 val bits = drop_bit (32 - bits) (val * 0x9e370001)"

definition pid_hashfn :: "int \<Rightarrow> nat" where
  "pid_hashfn x = unat (hash32 (of_int x) 10)"

definition hash_proc :: "nat \<Rightarrow> kern \<Rightarrow> kern" where
  "hash_proc p k = k\<lparr>hash_links := list_add (HashList (pid_hashfn (pid (pcbs k p)))) (HashLink p) (hash_links k)\<rparr>"

definition unhash_proc :: "nat \<Rightarrow> kern \<Rightarrow> kern" where
  "unhash_proc p k = k\<lparr>hash_links := list_del (HashLink p) (hash_links k)\<rparr>"

partial_function (option) find_proc_loop :: "int \<Rightarrow> hash_ent \<Rightarrow> hash_ent \<Rightarrow> kern \<Rightarrow> nat option option" where
  "find_proc_loop n lst le k =
     (let le = list_next le (hash_links k) in
      if le = lst then Some None
      else if pid (pcbs k (le2hash le)) = n then Some (Some (le2hash le))
      else find_proc_loop n lst le k)"

declare find_proc_loop.simps [code]

definition find_proc :: "int \<Rightarrow> kern \<Rightarrow> nat option option" where
  "find_proc n k =
     (if 0 < n \<and> n < MAX_PID then
        let lst = HashList (pid_hashfn n) in find_proc_loop n lst lst k
      else Some None)"

section \<open>Stacks, page directories, address spaces\<close>

definition setup_kstack :: "pmm_alloc \<Rightarrow> nat \<Rightarrow> kern \<Rightarrow> (int \<times> kern) option" where
  "setup_kstack al p k = do {
     (r, m) \<leftarrow> alloc_pages al KSTACKPAGE (vmem (kvm k));
     let k1 = k\<lparr>kvm := set_vmem m (kvm k)\<rparr>;
     Some (case r of Some pg \<Rightarrow> (0, upd_pcb p (\<lambda>q. q\<lparr>kstack := Some pg\<rparr>) k1) | None \<Rightarrow> (- E_NO_MEM, k1))
   }"

definition put_kstack :: "pmm_free \<Rightarrow> nat \<Rightarrow> kern \<Rightarrow> kern option" where
  "put_kstack fr p k = do {
     pg \<leftarrow> kstack (pcbs k p);
     m \<leftarrow> free_pages fr pg KSTACKPAGE (vmem (kvm k));
     Some (k\<lparr>kvm := set_vmem m (kvm k)\<rparr>)
   }"

definition setup_pgdir :: "pmm_alloc \<Rightarrow> nat \<Rightarrow> kern \<Rightarrow> (int \<times> kern) option" where
  "setup_pgdir al mm k = do {
     (r, m) \<leftarrow> alloc_pages al 1 (vmem (kvm k));
     (case r of
        None \<Rightarrow> Some (- E_NO_MEM, k\<lparr>kvm := set_vmem m (kvm k)\<rparr>)
      | Some pg \<Rightarrow>
          let v = set_vmem (set_frame pg (words m (boot_pgdir k)) m) (kvm k)
          in Some (0, k\<lparr>kvm := upd_mm mm (\<lambda>q. q\<lparr>pgdir := Some pg\<rparr>) v\<rparr>))
   }"

definition put_pgdir :: "pmm_free \<Rightarrow> nat \<Rightarrow> kern \<Rightarrow> kern option" where
  "put_pgdir fr mm k = do {
     pg \<leftarrow> pgdir (mms (kvm k) mm);
     m \<leftarrow> free_pages fr pg 1 (vmem (kvm k));
     Some (k\<lparr>kvm := set_vmem m (kvm k)\<rparr>)
   }"

definition kexit_mmap :: "pmm_alloc \<Rightarrow> pmm_free \<Rightarrow> nat \<Rightarrow> kern \<Rightarrow> kern option" where
  "kexit_mmap al fr mm k = do { v \<leftarrow> exit_mmap al fr mm (kvm k); Some (k\<lparr>kvm := v\<rparr>) }"

definition kmm_destroy :: "pmm_free \<Rightarrow> nat \<Rightarrow> kern \<Rightarrow> kern option" where
  "kmm_destroy fr mm k = do { v \<leftarrow> mm_destroy fr mm (kvm k); Some (k\<lparr>kvm := v\<rparr>) }"

text \<open>The part of \<open>copy_mm\<close> from the label \<open>good_mm\<close>.\<close>

definition good_mm :: "nat \<Rightarrow> nat \<Rightarrow> kern \<Rightarrow> (int \<times> kern) option" where
  "good_mm p mm k = do {
     pg \<leftarrow> pgdir (mms (kvm k) mm);
     Some (0, upd_pcb p (\<lambda>q. q\<lparr>proc_mm := Some mm, cr3 := pg\<rparr>) (k\<lparr>kvm := mm_count_inc mm (kvm k)\<rparr>))
   }"

definition copy_mm ::
  "swap_manager \<Rightarrow> pmm_alloc \<Rightarrow> pmm_free \<Rightarrow> u32 \<Rightarrow> nat \<Rightarrow> kern \<Rightarrow> (int \<times> kern) option" where
  "copy_mm sm al fr clone_flags p k =
     (case proc_mm (pcbs k (cur k)) of
        None \<Rightarrow> Some (0, k)
      | Some oldmm \<Rightarrow>
          if clone_flags AND CLONE_VM \<noteq> 0 then good_mm p oldmm k
          else do {
            (r, v) \<leftarrow> mm_create sm al (kvm k);
            let k1 = k\<lparr>kvm := v\<rparr>;
            (case r of
               None \<Rightarrow> Some (- E_NO_MEM, k1)
             | Some mm \<Rightarrow> do {
                 (ret, k2) \<leftarrow> setup_pgdir al mm k1;
                 if ret \<noteq> 0 then do { k3 \<leftarrow> kmm_destroy fr mm k2; Some (- E_NO_MEM, k3) }
                 else do {
                   (ret, v) \<leftarrow> dup_mmap al fr mm oldmm (kvm k2);
                   let k3 = k2\<lparr>kvm := v\<rparr>;
                   if ret \<noteq> 0 then do {
                     k4 \<leftarrow> kexit_mmap al fr mm k3; k5 \<leftarrow> put_pgdir fr mm k4; k6 \<leftarrow> kmm_destroy fr mm k5; Some (ret, k6)
                   }
                   else good_mm p mm k3
                 }
               })
          })"

text \<open>
  \<open>copy_thread\<close>; the trap frame lies at the top of the kernel stack, \<open>forkret\<close> is the address of this function.
\<close>

definition copy_thread :: "u64 \<Rightarrow> nat \<Rightarrow> u64 \<Rightarrow> trapframe \<Rightarrow> kern \<Rightarrow> kern option" where
  "copy_thread forkret p esp frame k = do {
     pg \<leftarrow> kstack (pcbs k p);
     let top_frame = page2kva pg + KSTACKSIZE - sizeof_trapframe;
     let f = frame\<lparr>gpr := (gpr frame)(10 := 0, 2 := (if esp = 0 then top_frame else esp))\<rparr>;
     Some (upd_pcb p (\<lambda>q. q\<lparr>tf := Some f, ctx := (ctx q)\<lparr>ctx_ra := forkret, ctx_sp := top_frame\<rparr>\<rparr>) k)
   }"

definition kwakeup :: "sched_class \<Rightarrow> nat \<Rightarrow> kern \<Rightarrow> kern option" where
  "kwakeup sc p k = do { s \<leftarrow> wakeup_proc sc p (sch k); Some (k\<lparr>sch := s\<rparr>) }"

definition kfree_proc :: "pmm_free \<Rightarrow> nat \<Rightarrow> kern \<Rightarrow> kern option" where
  "kfree_proc fr p k = do { v \<leftarrow> krelease fr p (kvm k); Some (k\<lparr>kvm := v\<rparr>) }"

section \<open>fork\<close>

text \<open>
  \<open>do_fork\<close>. When the first \<open>alloc_proc\<close> fails, the cleanup reads \<open>kstack\<close> of \<open>NULL\<close>; when it succeeds, a second call
  replaces its result.
\<close>

definition do_fork ::
  "sched_class \<Rightarrow> swap_manager \<Rightarrow> pmm_alloc \<Rightarrow> pmm_free \<Rightarrow> u64 \<Rightarrow> u32 \<Rightarrow> u64 \<Rightarrow> trapframe \<Rightarrow> kern \<Rightarrow> (int \<times> kern) option" where
  "do_fork sc sm al fr forkret clone_flags stack frame k =
     (if nr_process k \<ge> MAX_PROCESS then Some (- E_NO_FREE_PROC, k)
      else do {
        (r, k1) \<leftarrow> alloc_proc al k;
        first \<leftarrow> r;
        (r, k2) \<leftarrow> alloc_proc al k1;
        p \<leftarrow> r;
        let k3 = upd_pcb p (\<lambda>q. q\<lparr>proc_parent := Some (cur k2)\<rparr>) k2;
        c_assert (wait_state (procs (sch k3) (cur k3)) = 0);
        (ret, k4) \<leftarrow> setup_kstack al p k3;
        if ret \<noteq> 0 then do { k5 \<leftarrow> kfree_proc fr p k4; Some (- E_NO_MEM, k5) }
        else do {
          (ret, k5) \<leftarrow> copy_mm sm al fr clone_flags p k4;
          if ret \<noteq> 0 then do { k6 \<leftarrow> put_kstack fr p k5; k7 \<leftarrow> kfree_proc fr p k6; Some (- E_NO_MEM, k7) }
          else do {
            k6 \<leftarrow> copy_thread forkret p stack frame k5;
            (n, k7) \<leftarrow> get_pid k6;
            let k8 = hash_proc p (upd_pcb p (\<lambda>q. q\<lparr>pid := n\<rparr>) k7);
            k9 \<leftarrow> set_links p k8;
            k10 \<leftarrow> kwakeup sc p k9;
            Some (pid (pcbs k10 p), k10)
          }
        }
      })"

definition SSTATUS_SIE :: u64 where "SSTATUS_SIE = 0x00000002"
definition SSTATUS_SPIE :: u64 where "SSTATUS_SPIE = 0x00000020"
definition SSTATUS_SPP :: u64 where "SSTATUS_SPP = 0x00000100"

text \<open>The addresses of \<open>kernel_thread_entry\<close> and \<open>forkret\<close> and the value of \<open>sstatus\<close> are arguments.\<close>

definition kernel_thread ::
  "sched_class \<Rightarrow> swap_manager \<Rightarrow> pmm_alloc \<Rightarrow> pmm_free \<Rightarrow> u64 \<Rightarrow> u64 \<Rightarrow> u64 \<Rightarrow> u64 \<Rightarrow> u64 \<Rightarrow> u32 \<Rightarrow> kern \<Rightarrow> (int \<times> kern) option" where
  "kernel_thread sc sm al fr forkret entry sstatus fn arg clone_flags k =
     do_fork sc sm al fr forkret (clone_flags OR CLONE_VM) 0
       \<lparr>gpr = (\<lambda>_. 0)(8 := fn, 9 := arg), tf_status = (sstatus OR SSTATUS_SPP OR SSTATUS_SPIE) AND NOT SSTATUS_SIE,
        tf_epc = entry, tf_tval = 0, tf_cause = 0\<rparr> k"

section \<open>exit, wait, kill\<close>

text \<open>\<open>schedule\<close>, where \<open>proc_run\<close> loads the page directory of the process it switches to.\<close>

definition schedule_run :: "sched_class \<Rightarrow> kern \<Rightarrow> kern option" where
  "schedule_run sc k = do {
     s \<leftarrow> schedule sc (sch k);
     Some (k\<lparr>sch := s, satp := (if current s \<noteq> cur k then cr3 (pcbs k (current s)) else satp k)\<rparr>)
   }"

text \<open>The release of the address space, the same in \<open>do_exit\<close> and \<open>do_execve\<close>.\<close>

definition release_mm :: "pmm_alloc \<Rightarrow> pmm_free \<Rightarrow> kern \<Rightarrow> kern option" where
  "release_mm al fr k =
     (case proc_mm (pcbs k (cur k)) of
        None \<Rightarrow> Some k
      | Some mm \<Rightarrow> do {
          let k1 = k\<lparr>satp := boot_pgdir k\<rparr>;
          let (c, v) = mm_count_dec mm (kvm k1);
          let k2 = k1\<lparr>kvm := v\<rparr>;
          k3 \<leftarrow> (if c = 0 then do { a \<leftarrow> kexit_mmap al fr mm k2; b \<leftarrow> put_pgdir fr mm a; kmm_destroy fr mm b } else Some k2);
          Some (upd_pcb (cur k3) (\<lambda>q. q\<lparr>proc_mm := None\<rparr>) k3)
        })"

text \<open>One round of the loop that hands the children over to \<open>initproc\<close>: the links.\<close>

definition adopt :: "nat \<Rightarrow> nat \<Rightarrow> kern \<Rightarrow> kern" where
  "adopt i p k =
     (let k1 = upd_pcb (cur k) (\<lambda>q. q\<lparr>cptr := optr (pcbs k p)\<rparr>) k;
          k2 = upd_pcb p (\<lambda>q. q\<lparr>yptr := None, optr := cptr (pcbs k1 i)\<rparr>) k1;
          k3 = (case cptr (pcbs k2 i) of Some c \<Rightarrow> upd_pcb c (\<lambda>q. q\<lparr>yptr := Some p\<rparr>) k2 | None \<Rightarrow> k2);
          k4 = upd_pcb p (\<lambda>q. q\<lparr>proc_parent := Some i\<rparr>) k3
      in upd_pcb i (\<lambda>q. q\<lparr>cptr := Some p\<rparr>) k4)"

partial_function (option) reparent_loop :: "sched_class \<Rightarrow> kern \<Rightarrow> kern option" where
  "reparent_loop sc k =
     (case cptr (pcbs k (cur k)) of
        None \<Rightarrow> Some k
      | Some p \<Rightarrow> do {
          i \<leftarrow> initproc k;
          let k1 = adopt i p k;
          k2 \<leftarrow> (if state (procs (sch k1) p) = PROC_ZOMBIE \<and> wait_state (procs (sch k1) i) = WT_CHILD
                then kwakeup sc i k1 else Some k1);
          reparent_loop sc k2
        })"

declare reparent_loop.simps [code]

text \<open>The state that \<open>do_exit\<close> leaves, in which another process runs.\<close>

definition do_exit :: "sched_class \<Rightarrow> pmm_alloc \<Rightarrow> pmm_free \<Rightarrow> int \<Rightarrow> kern \<Rightarrow> kern option" where
  "do_exit sc al fr code k = do {
     c_assert (cur k \<noteq> idleproc (sch k));
     c_assert (Some (cur k) \<noteq> initproc k);
     k1 \<leftarrow> release_mm al fr k;
     let k2 = upd_pcb (cur k1) (\<lambda>q. q\<lparr>exit_code := code\<rparr>) (upd_cur (\<lambda>q. q\<lparr>state := PROC_ZOMBIE\<rparr>) k1);
     par \<leftarrow> proc_parent (pcbs k2 (cur k2));
     k3 \<leftarrow> (if wait_state (procs (sch k2) par) = WT_CHILD then kwakeup sc par k2 else Some k2);
     k4 \<leftarrow> reparent_loop sc k3;
     schedule_run sc k4
   }"

definition do_yield :: "kern \<Rightarrow> kern" where
  "do_yield = upd_cur (\<lambda>q. q\<lparr>need_resched := True\<rparr>)"

text \<open>
  \<open>do_wait\<close> is split where it gives up the processor: \<open>Waiting\<close> means that the caller sleeps and another process
  runs; \<open>wait_resume\<close> is what the caller does when it runs again. The store \<open>*code_store = proc->exit_code\<close>, to an
  address of the caller, is part of the result (address and value) and not made through the page tables;
  \<open>code_store\<close> is \<open>None\<close> for \<open>NULL\<close>, and then nothing is stored.
\<close>

datatype wait_result = Waited int "(u64 \<times> int) option" | Waiting

partial_function (option) find_zombie :: "nat option \<Rightarrow> bool \<Rightarrow> kern \<Rightarrow> (bool \<times> nat option) option" where
  "find_zombie c haskid k =
     (case c of
        None \<Rightarrow> Some (haskid, None)
      | Some p \<Rightarrow> if state (procs (sch k) p) = PROC_ZOMBIE then Some (True, Some p)
          else find_zombie (optr (pcbs k p)) True k)"

declare find_zombie.simps [code]

definition wait_search :: "int \<Rightarrow> kern \<Rightarrow> (bool \<times> nat option) option" where
  "wait_search n k =
     (if n \<noteq> 0 then do {
        r \<leftarrow> find_proc n k;
        Some (case r of
            Some p \<Rightarrow> if proc_parent (pcbs k p) = Some (cur k)
              then (True, if state (procs (sch k) p) = PROC_ZOMBIE then Some p else None) else (False, None)
          | None \<Rightarrow> (False, None))
      } else find_zombie (cptr (pcbs k (cur k))) False k)"

definition reap :: "pmm_free \<Rightarrow> nat \<Rightarrow> kern \<Rightarrow> kern option" where
  "reap fr p k = do {
     k1 \<leftarrow> remove_links p (unhash_proc p k);
     k2 \<leftarrow> put_kstack fr p k1;
     kfree_proc fr p k2
   }"

definition wait_repeat :: "sched_class \<Rightarrow> pmm_free \<Rightarrow> int \<Rightarrow> u64 option \<Rightarrow> kern \<Rightarrow> (wait_result \<times> kern) option" where
  "wait_repeat sc fr n code_store k = do {
     (haskid, r) \<leftarrow> wait_search n k;
     (case r of
        Some p \<Rightarrow> do {
          c_assert (p \<noteq> idleproc (sch k) \<and> Some p \<noteq> initproc k);
          let stored = (case code_store of None \<Rightarrow> None | Some a \<Rightarrow> Some (a, exit_code (pcbs k p)));
          k1 \<leftarrow> reap fr p k;
          Some (Waited 0 stored, k1)
        }
      | None \<Rightarrow>
          if haskid then do {
            k1 \<leftarrow> schedule_run sc (upd_cur (\<lambda>q. q\<lparr>state := PROC_SLEEPING, wait_state := WT_CHILD\<rparr>) k);
            Some (Waiting, k1)
          }
          else Some (Waited (- E_BAD_PROC) None, k))
   }"

definition do_wait :: "sched_class \<Rightarrow> pmm_free \<Rightarrow> int \<Rightarrow> u64 option \<Rightarrow> kern \<Rightarrow> (wait_result \<times> kern) option" where
  "do_wait sc fr n code_store k = do {
     (valid, v) \<leftarrow> (case code_store of None \<Rightarrow> Some (True, kvm k)
       | Some a \<Rightarrow> user_mem_check (proc_mm (pcbs k (cur k))) a 4 True (kvm k));
     let k1 = k\<lparr>kvm := v\<rparr>;
     if \<not> valid then Some (Waited (- E_INVAL) None, k1) else wait_repeat sc fr n code_store k1
   }"

definition wait_resume ::
  "sched_class \<Rightarrow> pmm_alloc \<Rightarrow> pmm_free \<Rightarrow> int \<Rightarrow> u64 option \<Rightarrow> kern \<Rightarrow> (wait_result \<times> kern) option" where
  "wait_resume sc al fr n code_store k =
     (if proc_flags (pcbs k (cur k)) AND PF_EXITING \<noteq> 0 then do { k1 \<leftarrow> do_exit sc al fr (- E_KILLED) k; Some (Waiting, k1) }
      else wait_repeat sc fr n code_store k)"

definition do_kill :: "sched_class \<Rightarrow> int \<Rightarrow> kern \<Rightarrow> (int \<times> kern) option" where
  "do_kill sc n k = do {
     r \<leftarrow> find_proc n k;
     (case r of
        None \<Rightarrow> Some (- E_INVAL, k)
      | Some p \<Rightarrow>
          if proc_flags (pcbs k p) AND PF_EXITING = 0 then do {
            let k1 = upd_pcb p (\<lambda>q. q\<lparr>proc_flags := proc_flags q OR PF_EXITING\<rparr>) k;
            k2 \<leftarrow> (if wait_state (procs (sch k1) p) AND WT_INTERRUPTED \<noteq> 0 then kwakeup sc p k1 else Some k1);
            Some (0, k2)
          }
          else Some (- E_KILLED, k))
   }"

definition lab6_set_priority :: "u32 \<Rightarrow> kern \<Rightarrow> kern" where
  "lab6_set_priority priority = upd_cur (\<lambda>q. q\<lparr>lab6_priority := (if priority = 0 then 1 else priority)\<rparr>)"

section \<open>Start\<close>

primrec init_hash :: "nat \<Rightarrow> kern \<Rightarrow> kern" where
  "init_hash 0 k = k"
| "init_hash (Suc n) k = (let k1 = init_hash n k in k1\<lparr>hash_links := list_init (HashList n) (hash_links k1)\<rparr>)"

text \<open>\<open>proc_init\<close>; \<open>bootstack\<close> is the page of the stack the kernel starts on, \<open>init_main\<close> the address of this function.\<close>

definition proc_init ::
  "sched_class \<Rightarrow> swap_manager \<Rightarrow> pmm_alloc \<Rightarrow> pmm_free \<Rightarrow> u64 \<Rightarrow> u64 \<Rightarrow> u64 \<Rightarrow> u64 \<Rightarrow> nat \<Rightarrow>
   (nat \<Rightarrow> 8 word) \<Rightarrow> (nat \<Rightarrow> 8 word) \<Rightarrow> kern \<Rightarrow> kern option" where
  "proc_init sc sm al fr forkret entry sstatus init_main bootstack idle_name init_name k = do {
     let k1 = init_hash 1024 (k\<lparr>proc_links := list_init ProcList (proc_links k)\<rparr>);
     (r, k2) \<leftarrow> alloc_proc al k1;
     idle \<leftarrow> r;
     let k3 = upd_pcb idle (\<lambda>q. q\<lparr>pid := 0, kstack := Some bootstack\<rparr>) k2;
     let k4 = k3\<lparr>sch := (upd_proc idle (\<lambda>q. q\<lparr>state := PROC_RUNNABLE, need_resched := True\<rparr>) (sch k3))\<lparr>idleproc := idle\<rparr>\<rparr>;
     let k5 = set_proc_name idle idle_name k4;
     let k6 = k5\<lparr>nr_process := nr_process k5 + 1, sch := (sch k5)\<lparr>current := idle\<rparr>\<rparr>;
     (n, k7) \<leftarrow> kernel_thread sc sm al fr forkret entry sstatus init_main 0 0 k6;
     c_assert (n > 0);
     r \<leftarrow> find_proc n k7;
     ini \<leftarrow> r;
     let k8 = set_proc_name ini init_name (k7\<lparr>initproc := Some ini\<rparr>);
     c_assert (pid (pcbs k8 idle) = 0);
     c_assert (pid (pcbs k8 ini) = 1);
     Some k8
   }"

end
