(* ===== verification/ProcTree.thy ===== *)
theory ProcTree
  imports Proc
begin

text \<open>
  Properties of the processes of \<open>Proc\<close>: process numbers are unique and always found, the hash table agrees
  with the process list, the tree of parents and children is kept when processes are created and exit.
\<close>

unbundle bit_operations_syntax

section \<open>The process list and process numbers\<close>

definition proc_list :: "kern \<Rightarrow> nat list \<Rightarrow> bool" where
  "proc_list k ps \<longleftrightarrow> dlist (proc_links k) ProcList (map ListLink ps)"

abbreviation pid_of :: "kern \<Rightarrow> nat \<Rightarrow> int" where
  "pid_of k p \<equiv> pid (pcbs k p)"

text \<open>The static variables of \<open>get_pid\<close>: no process has a number strictly between \<open>last_pid\<close> and \<open>next_safe\<close>.\<close>

definition pids_ok :: "kern \<Rightarrow> nat list \<Rightarrow> bool" where
  "pids_ok k ps \<longleftrightarrow> proc_list k ps \<and> 1 \<le> last_pid k \<and> last_pid k \<le> MAX_PID \<and> next_safe k \<le> MAX_PID \<and>
     (\<forall>p \<in> set ps. \<not> (last_pid k < pid_of k p \<and> pid_of k p < next_safe k))"

definition set_pids :: "int \<Rightarrow> int \<Rightarrow> kern \<Rightarrow> kern" where
  "set_pids l n k = k\<lparr>last_pid := l, next_safe := n\<rparr>"

lemma set_pids_sel [simp]:
  "kvm (set_pids l n k) = kvm k" "sch (set_pids l n k) = sch k" "pcbs (set_pids l n k) = pcbs k"
  "proc_links (set_pids l n k) = proc_links k" "hash_links (set_pids l n k) = hash_links k"
  "initproc (set_pids l n k) = initproc k" "nr_process (set_pids l n k) = nr_process k"
  "next_safe (set_pids l n k) = n" "last_pid (set_pids l n k) = l" "cur (set_pids l n k) = cur k"
  "boot_pgdir (set_pids l n k) = boot_pgdir k" "satp (set_pids l n k) = satp k"
  by (simp_all add: set_pids_def cur_def)

lemma set_pids_upd [simp]:
  "(set_pids l n k)\<lparr>last_pid := l'\<rparr> = set_pids l' n k" "(set_pids l n k)\<lparr>next_safe := n'\<rparr> = set_pids l n' k"
  "set_pids l n (set_pids l' n' k) = set_pids l n k"
  by (simp_all add: set_pids_def)

definition behind :: "nat list \<Rightarrow> proc_ent" where
  "behind us = last (ProcList # map ListLink us)"

lemma behind_simps [simp]: "behind [] = ProcList" "behind (us @ [u]) = ListLink u"
  by (simp_all add: behind_def)

lemma proc_next:
  "proc_list k (us @ ys) \<Longrightarrow> list_next (behind us) (proc_links k) = (case ys of [] \<Rightarrow> ProcList | y # _ \<Rightarrow> ListLink y)"
proof (cases us rule: rev_cases)
  case Nil
  assume "proc_list k (us @ ys)"
  then show ?thesis
    using Nil list_next_head_dlist [of "proc_links k" ProcList "map ListLink ys"] by (cases ys) (auto simp: proc_list_def)
next
  case (snoc us' u)
  assume "proc_list k (us @ ys)"
  then show ?thesis
    using snoc list_next_elem_dlist [of "proc_links k" ProcList "map ListLink us'" "ListLink u" "map ListLink ys"]
    by (cases ys) (auto simp: proc_list_def)
qed

text \<open>The way from number \<open>l\<close> up to number \<open>f\<close>, round the end.\<close>

definition pid_dist :: "int \<Rightarrow> int \<Rightarrow> nat" where
  "pid_dist f l = nat (if l \<le> f then f - l else f - l + (MAX_PID - 1))"

lemma pid_dist_next:
  assumes "1 \<le> f" "f < MAX_PID" "1 \<le> l" "l < MAX_PID" "l \<noteq> f"
  shows "pid_dist f (if l + 1 \<ge> MAX_PID then 1 else l + 1) < pid_dist f l"
  using assms by (auto simp: pid_dist_def MAX_PID_def MAX_PROCESS_def)

lemma pid_scan_ok:
  assumes f: "1 \<le> f" "f < MAX_PID" "\<forall>p \<in> set ps. pid_of k p \<noteq> f" and pl: "proc_list k ps"
    and "ps = us @ ys" and "1 \<le> l" "l < n" "n \<le> MAX_PID" and "\<forall>p \<in> set us. \<not> (l \<le> pid_of k p \<and> pid_of k p < n)"
  shows "\<exists>l' n'. pid_scan (behind us) (set_pids l n k) = Some (set_pids l' n' k) \<and> 1 \<le> l' \<and> l' < n' \<and> n' \<le> MAX_PID \<and>
    (\<forall>p \<in> set ps. \<not> (l' \<le> pid_of k p \<and> pid_of k p < n'))"
  using assms(5-)
proof (induction "pid_dist f l * (length ps + 1) + length ys" arbitrary: us ys l n rule: less_induct)
  case less
  have nx: "list_next (behind us) (proc_links k) = (case ys of [] \<Rightarrow> ProcList | y # _ \<Rightarrow> ListLink y)"
    by (rule proc_next) (use pl less.prems(1) in simp)
  show ?case
  proof (cases ys)
    case Nil
    then show ?thesis using nx less.prems by (subst pid_scan.simps) auto
  next
    case (Cons y zs)
    have len: "length ps = length us + length ys" using less.prems(1) by simp
    have step: "pid_scan (behind us) (set_pids l n k) =
       (if pid_of k y = l then
          if l + 1 \<ge> n then pid_scan ProcList (set_pids (if l + 1 \<ge> MAX_PID then 1 else l + 1) MAX_PID k)
          else pid_scan (behind (us @ [y])) (set_pids (l + 1) n k)
        else if pid_of k y > l \<and> n > pid_of k y then pid_scan (behind (us @ [y])) (set_pids l (pid_of k y) k)
        else pid_scan (behind (us @ [y])) (set_pids l n k))"
      using nx Cons by (subst pid_scan.simps) (simp add: Let_def)
    have ps': "ps = (us @ [y]) @ zs" using less.prems(1) Cons by simp
    show ?thesis
    proof (cases "pid_of k y = l")
      case True
      then have lf: "l \<noteq> f" using f(3) less.prems(1) Cons by auto
      have lm: "l < MAX_PID" using less.prems(3,4) by simp
      have d: "pid_dist f (if l + 1 \<ge> MAX_PID then 1 else l + 1) < pid_dist f l"
        by (rule pid_dist_next [OF f(1,2) less.prems(2) lm lf])
      have mul: "a * (length ps + 1) + b < pid_dist f l * (length ps + 1) + length ys"
        if "a < pid_dist f l" "b \<le> length ps" for a b
      proof -
        have "(a + 1) * (length ps + 1) \<le> pid_dist f l * (length ps + 1)" using that(1) by (intro mult_le_mono1) simp
        then show ?thesis using that(2) by simp
      qed
      show ?thesis
      proof (cases "l + 1 \<ge> n")
        case again: True
        have "\<exists>l' n'. pid_scan (behind []) (set_pids (if l + 1 \<ge> MAX_PID then 1 else l + 1) MAX_PID k) = Some (set_pids l' n' k) \<and>
            1 \<le> l' \<and> l' < n' \<and> n' \<le> MAX_PID \<and> (\<forall>p \<in> set ps. \<not> (l' \<le> pid_of k p \<and> pid_of k p < n'))"
          by (rule less.hyps [OF mul [OF d order_refl]]) (use less.prems(2) in \<open>auto simp: MAX_PID_def MAX_PROCESS_def\<close>)
        then show ?thesis using step True again by simp
      next
        case False
        then have d': "pid_dist f (l + 1) < pid_dist f l" using d less.prems(4) by simp
        have zl: "length zs \<le> length ps" using len Cons by simp
        have "\<exists>l' n'. pid_scan (behind (us @ [y])) (set_pids (l + 1) n k) = Some (set_pids l' n' k) \<and>
            1 \<le> l' \<and> l' < n' \<and> n' \<le> MAX_PID \<and> (\<forall>p \<in> set ps. \<not> (l' \<le> pid_of k p \<and> pid_of k p < n'))"
          by (rule less.hyps [OF mul [OF d' zl] ps']) (use less.prems False True in auto)
        then show ?thesis using step True False by simp
      qed
    next
      case False
      define n2 where "n2 = (if pid_of k y > l \<and> n > pid_of k y then pid_of k y else n)"
      have sm: "pid_dist f l * (length ps + 1) + length zs < pid_dist f l * (length ps + 1) + length ys" using Cons by simp
      have "\<exists>l' n'. pid_scan (behind (us @ [y])) (set_pids l n2 k) = Some (set_pids l' n' k) \<and>
          1 \<le> l' \<and> l' < n' \<and> n' \<le> MAX_PID \<and> (\<forall>p \<in> set ps. \<not> (l' \<le> pid_of k p \<and> pid_of k p < n'))"
        by (rule less.hyps [OF sm ps']) (use less.prems False in \<open>auto simp: n2_def\<close>)
      moreover have "pid_scan (behind us) (set_pids l n k) = pid_scan (behind (us @ [y])) (set_pids l n2 k)"
        using step False by (simp add: n2_def)
      ultimately show ?thesis by simp
    qed
  qed
qed

lemma free_pid:
  assumes "int (length ps) < MAX_PID - 1"
  obtains f where "1 \<le> f" "f < MAX_PID" "\<forall>p \<in> set ps. pid_of k p \<noteq> f"
proof -
  have "card (pid_of k ` set ps) \<le> length ps" using card_image_le [of "set ps" "pid_of k"] card_length [of ps] by simp
  then have "card (pid_of k ` set ps) < card {1..<MAX_PID}" using assms by (simp add: MAX_PID_def MAX_PROCESS_def)
  then have "\<not> {1..<MAX_PID} \<subseteq> pid_of k ` set ps" by (meson card_mono finite_imageI finite_set not_less)
  then obtain f where "f \<in> {1..<MAX_PID}" "f \<notin> pid_of k ` set ps" by blast
  then show ?thesis using that [of f] by (simp add: image_iff) metis
qed

lemma get_pid_ok:
  assumes "pids_ok k ps" and "int (length ps) < MAX_PID - 1"
  shows "\<exists>l n. get_pid k = Some (l, set_pids l n k) \<and> 1 \<le> l \<and> l < MAX_PID \<and> n \<le> MAX_PID \<and>
    (\<forall>p \<in> set ps. pid_of k p \<noteq> l) \<and> (\<forall>p \<in> set ps. \<not> (l < pid_of k p \<and> pid_of k p < n))"
proof -
  have pl: "proc_list k ps" and lo: "1 \<le> last_pid k" "last_pid k \<le> MAX_PID" "next_safe k \<le> MAX_PID"
    and gap: "\<forall>p \<in> set ps. \<not> (last_pid k < pid_of k p \<and> pid_of k p < next_safe k)"
    using assms(1) by (simp_all add: pids_ok_def)
  obtain f where f: "1 \<le> f" "f < MAX_PID" "\<forall>p \<in> set ps. pid_of k p \<noteq> f" using free_pid [OF assms(2)] .
  have scan: "\<exists>l' n'. pid_scan ProcList (set_pids l MAX_PID k) = Some (set_pids l' n' k) \<and> 1 \<le> l' \<and> l' < n' \<and> n' \<le> MAX_PID \<and>
    (\<forall>p \<in> set ps. \<not> (l' \<le> pid_of k p \<and> pid_of k p < n'))" if "1 \<le> l" "l < MAX_PID" for l
    using pid_scan_ok [OF f pl, of "[]" ps l MAX_PID] that by simp
  have k1: "k\<lparr>last_pid := l\<rparr> = set_pids l (next_safe k) k" for l by (cases k) (simp add: set_pids_def)
  show ?thesis
  proof (cases "last_pid k + 1 < MAX_PID \<and> last_pid k + 1 < next_safe k")
    case True
    then have "get_pid k = Some (last_pid k + 1, set_pids (last_pid k + 1) (next_safe k) k)"
      by (simp add: get_pid_def k1 Let_def)
    moreover have "\<forall>p \<in> set ps. pid_of k p \<noteq> last_pid k + 1" using gap True by force
    moreover have "\<forall>p \<in> set ps. \<not> (last_pid k + 1 < pid_of k p \<and> pid_of k p < next_safe k)" using gap by force
    ultimately show ?thesis using True lo by (intro exI [of _ "last_pid k + 1"] exI [of _ "next_safe k"]) simp
  next
    case False
    let ?l = "if last_pid k + 1 \<ge> MAX_PID then 1 else last_pid k + 1"
    have "1 \<le> ?l" "?l < MAX_PID" using lo by (auto simp: MAX_PID_def MAX_PROCESS_def)
    from scan [OF this] obtain l' n' where s: "pid_scan ProcList (set_pids ?l MAX_PID k) = Some (set_pids l' n' k)"
      "1 \<le> l'" "l' < n'" "n' \<le> MAX_PID" "\<forall>p \<in> set ps. \<not> (l' \<le> pid_of k p \<and> pid_of k p < n')" by blast
    have "get_pid k = Some (l', set_pids l' n' k)"
      using False s(1) by (cases "last_pid k + 1 \<ge> MAX_PID") (simp_all add: get_pid_def k1 Let_def)
    moreover have "\<forall>p \<in> set ps. pid_of k p \<noteq> l'" "\<forall>p \<in> set ps. \<not> (l' < pid_of k p \<and> pid_of k p < n')"
      using s(3,5) by force+
    ultimately show ?thesis using s(2,3,4) by (intro exI [of _ l'] exI [of _ n']) simp
  qed
qed

section \<open>The hash table\<close>

lemma pid_hashfn_less: "pid_hashfn n < 1024"
proof -
  have "unat (drop_bit 22 x) < 1024" for x :: u32
  proof -
    have "unat x < 2 ^ 32" by (rule order_less_le_trans [OF unsigned_less]) simp
    then show ?thesis unfolding unat_drop_bit_eq by (simp add: drop_bit_eq_div less_mult_imp_div_less)
  qed
  then show ?thesis by (simp add: pid_hashfn_def hash32_def)
qed

text \<open>Each list holds the processes whose number has its hash.\<close>

definition hash_ok :: "kern \<Rightarrow> nat list \<Rightarrow> bool" where
  "hash_ok k ps \<longleftrightarrow> (\<exists>hs. \<forall>b < 1024. dlist (hash_links k) (HashList b) (map HashLink (hs b)) \<and>
     set (hs b) = {p \<in> set ps. pid_hashfn (pid_of k p) = b})"

definition hash_ent_behind :: "nat \<Rightarrow> nat list \<Rightarrow> hash_ent" where
  "hash_ent_behind b us = last (HashList b # map HashLink us)"

lemma hash_ent_behind_simps [simp]: "hash_ent_behind b [] = HashList b" "hash_ent_behind b (us @ [u]) = HashLink u"
  by (simp_all add: hash_ent_behind_def)

lemma find_proc_loop_ok:
  "dlist (hash_links k) (HashList b) (map HashLink (us @ ys)) \<Longrightarrow>
   find_proc_loop n (HashList b) (hash_ent_behind b us) k = Some (find (\<lambda>p. pid_of k p = n) ys)"
proof (induction ys arbitrary: us)
  case Nil
  then have "list_next (hash_ent_behind b us) (hash_links k) = HashList b"
    using list_next_head_dlist [of "hash_links k" "HashList b" "[]"] list_next_elem_dlist [of "hash_links k" "HashList b"]
    by (cases us rule: rev_cases) auto
  then show ?case by (subst find_proc_loop.simps) simp
next
  case (Cons y ys)
  have "list_next (hash_ent_behind b us) (hash_links k) = HashLink y"
    using list_next_head_dlist [of "hash_links k" "HashList b" "map HashLink (y # ys)"]
      list_next_elem_dlist [of "hash_links k" "HashList b"] Cons.prems
    by (cases us rule: rev_cases) auto
  moreover have "dlist (hash_links k) (HashList b) (map HashLink ((us @ [y]) @ ys))" using Cons.prems by simp
  from Cons.IH [OF this] have "find_proc_loop n (HashList b) (HashLink y) k = Some (find (\<lambda>p. pid_of k p = n) ys)" by simp
  ultimately show ?case by (subst find_proc_loop.simps) simp
qed

lemma find_same:
  assumes "\<And>p q. p \<in> set xs \<union> set ys \<Longrightarrow> q \<in> set xs \<union> set ys \<Longrightarrow> P p \<Longrightarrow> P q \<Longrightarrow> p = q"
    and "\<And>p. P p \<Longrightarrow> p \<in> set xs \<longleftrightarrow> p \<in> set ys"
  shows "find P xs = find P ys"
proof (cases "find P xs")
  case None
  then have "find P ys = None" using assms(2) by (auto simp: find_None_iff)
  then show ?thesis using None by simp
next
  case (Some p)
  then have p: "P p" "p \<in> set xs" by (auto simp: find_Some_iff)
  then have "find P ys \<noteq> None" using assms(2) by (auto simp: find_None_iff)
  then obtain q where q: "find P ys = Some q" by blast
  then have "P q" "q \<in> set ys" by (auto simp: find_Some_iff)
  then have "p = q" using p assms(1) by blast
  then show ?thesis using Some q by simp
qed

lemma find_proc_ok:
  assumes "hash_ok k ps" and "inj_on (pid_of k) (set ps)" and "\<forall>p \<in> set ps. 1 \<le> pid_of k p \<and> pid_of k p < MAX_PID"
  shows "find_proc n k = Some (find (\<lambda>p. pid_of k p = n) ps)"
proof (cases "0 < n \<and> n < MAX_PID")
  case True
  let ?b = "pid_hashfn n"
  obtain hs where hs: "dlist (hash_links k) (HashList ?b) (map HashLink (hs ?b))"
    "set (hs ?b) = {p \<in> set ps. pid_hashfn (pid_of k p) = ?b}"
    using assms(1) pid_hashfn_less [of n] unfolding hash_ok_def by blast
  have "find (\<lambda>p. pid_of k p = n) (hs ?b) = find (\<lambda>p. pid_of k p = n) ps"
    by (rule find_same) (use assms(2) hs(2) in \<open>auto simp: inj_on_def\<close>)
  then show ?thesis using find_proc_loop_ok [of k ?b "[]" "hs ?b" n] hs(1) True by (simp add: find_proc_def Let_def)
next
  case False
  then have "find (\<lambda>p. pid_of k p = n) ps = None" using assms(3) by (force simp: find_None_iff)
  then show ?thesis unfolding find_proc_def by (simp only: False if_False)
qed

lemma hash_proc_ok:
  assumes "hash_ok k ps" and "p \<notin> set ps"
  shows "hash_ok (hash_proc p k) (p # ps)"
proof -
  let ?b = "pid_hashfn (pid_of k p)"
  obtain hs where hs: "\<forall>b < 1024. dlist (hash_links k) (HashList b) (map HashLink (hs b)) \<and>
     set (hs b) = {p \<in> set ps. pid_hashfn (pid_of k p) = b}" using assms(1) by (auto simp: hash_ok_def)
  have b: "?b < 1024" by (rule pid_hashfn_less)
  let ?hs = "hs(?b := p # hs ?b)"
  have nin: "p \<notin> set (hs b)" if "b < 1024" for b using hs assms(2) that by auto
  have "dlist (hash_links (hash_proc p k)) (HashList b) (map HashLink (?hs b)) \<and>
     set (?hs b) = {q \<in> set (p # ps). pid_hashfn (pid_of (hash_proc p k) q) = b}" if c: "b < 1024" for b
  proof (cases "b = ?b")
    case True
    then show ?thesis using hs c nin [OF c] list_add_dlist [of "hash_links k" "HashList b" "map HashLink (hs b)" "HashLink p"]
      by (auto simp: hash_proc_def)
  next
    case False
    have ap: "apart (HashList ?b) (map HashLink (hs ?b)) (HashList b) (map HashLink (hs b))"
      using hs b c False by (auto simp: apart_def)
    have "dlist (list_add (HashList ?b) (HashLink p) (hash_links k)) (HashList b) (map HashLink (hs b))"
      by (rule list_add_other [OF _ _ ap]) (use hs b c nin [OF c] in auto)
    then show ?thesis using hs c False by (auto simp: hash_proc_def)
  qed
  then show ?thesis unfolding hash_ok_def by (intro exI [of _ ?hs]) blast
qed

lemma unhash_proc_ok:
  assumes "hash_ok k (us @ p # ys)" and "p \<notin> set (us @ ys)"
  shows "hash_ok (unhash_proc p k) (us @ ys)"
proof -
  let ?b = "pid_hashfn (pid_of k p)" and ?ps = "us @ p # ys"
  obtain hs where hs: "\<forall>b < 1024. dlist (hash_links k) (HashList b) (map HashLink (hs b)) \<and>
     set (hs b) = {q \<in> set ?ps. pid_hashfn (pid_of k q) = b}" using assms(1) by (auto simp: hash_ok_def)
  have b: "?b < 1024" by (rule pid_hashfn_less)
  then have pin: "p \<in> set (hs ?b)" using hs by auto
  then obtain xs zs where h: "hs ?b = xs @ p # zs" by (meson split_list)
  have dst: "distinct (hs ?b)" using hs b dlist_distinct [of "hash_links k" "HashList ?b" "map HashLink (hs ?b)"]
    by (simp add: distinct_map)
  let ?hs = "hs(?b := xs @ zs)"
  have "dlist (hash_links (unhash_proc p k)) (HashList b) (map HashLink (?hs b)) \<and>
     set (?hs b) = {q \<in> set (us @ ys). pid_hashfn (pid_of (unhash_proc p k) q) = b}" if c: "b < 1024" for b
  proof (cases "b = ?b")
    case True
    have "dlist (hash_links k) (HashList ?b) (map HashLink xs @ HashLink p # map HashLink zs)"
      using hs [rule_format, OF b] h by simp
    from list_del_dlist [OF this] have 1: "dlist (hash_links (unhash_proc p k)) (HashList b) (map HashLink (xs @ zs))"
      using True by (simp add: unhash_proc_def)
    have "set (xs @ zs) = set (hs ?b) - {p}" using dst unfolding h by auto
    also have "\<dots> = {q \<in> set (us @ ys). pid_hashfn (pid_of k q) = b}" using hs b True assms(2) by auto
    finally show ?thesis using 1 True by (simp add: unhash_proc_def)
  next
    case False
    have ap: "apart (HashList ?b) (map HashLink (hs ?b)) (HashList b) (map HashLink (hs b))"
      using hs b c False by (auto simp: apart_def)
    have "dlist (list_del (HashLink p) (hash_links k)) (HashList b) (map HashLink (hs b))"
      by (rule list_del_other [OF _ _ ap]) (use hs b c pin in auto)
    then show ?thesis using hs c False by (auto simp: unhash_proc_def)
  qed
  then show ?thesis unfolding hash_ok_def by (intro exI [of _ ?hs]) blast
qed

section \<open>Parents and children\<close>

text \<open>
  The children of a process are threaded by \<open>optr\<close> and \<open>yptr\<close>: \<open>sibs k y cs z\<close> is the part \<open>cs\<close> of such a list
  between \<open>y\<close> and \<open>z\<close>.
\<close>

definition fst_or :: "nat list \<Rightarrow> nat option \<Rightarrow> nat option" where
  "fst_or cs z = (case cs of [] \<Rightarrow> z | c # _ \<Rightarrow> Some c)"

definition lst_or :: "nat option \<Rightarrow> nat list \<Rightarrow> nat option" where
  "lst_or y cs = (if cs = [] then y else Some (last cs))"

lemma fst_lst_or [simp]:
  "fst_or [] z = z" "fst_or (c # cs) z = Some c" "lst_or y [] = y" "lst_or y (cs @ [c]) = Some c"
  "lst_or y (c # cs) = lst_or (Some c) cs"
  by (simp_all add: fst_or_def lst_or_def)

fun sibs :: "kern \<Rightarrow> nat option \<Rightarrow> nat list \<Rightarrow> nat option \<Rightarrow> bool" where
  "sibs k y [] z = True"
| "sibs k y (c # cs) z \<longleftrightarrow> yptr (pcbs k c) = y \<and> optr (pcbs k c) = fst_or cs z \<and> sibs k (Some c) cs z"

lemma fst_or_append [simp]: "fst_or (us @ ys) z = fst_or us (fst_or ys z)"
  by (cases us) simp_all

lemma sibs_append [simp]: "sibs k y (us @ ys) z \<longleftrightarrow> sibs k y us (fst_or ys z) \<and> sibs k (lst_or y us) ys z"
  by (induction us arbitrary: y) auto

lemma sibs_cong:
  "(\<And>c. c \<in> set cs \<Longrightarrow> yptr (pcbs k' c) = yptr (pcbs k c) \<and> optr (pcbs k' c) = optr (pcbs k c)) \<Longrightarrow>
   sibs k' y cs z = sibs k y cs z"
  by (induction cs arbitrary: y) auto

text \<open>The family of the processes \<open>S\<close>; \<open>Y x\<close> is what the eldest entry of the list of \<open>x\<close> has before it.\<close>

definition kin_ok :: "kern \<Rightarrow> nat set \<Rightarrow> (nat \<Rightarrow> nat list) \<Rightarrow> (nat \<Rightarrow> nat option) \<Rightarrow> bool" where
  "kin_ok k S ch Y \<longleftrightarrow> (\<forall>x \<in> S. cptr (pcbs k x) = fst_or (ch x) None \<and> sibs k (Y x) (ch x) None \<and> distinct (ch x) \<and>
       set (ch x) = {c \<in> S. proc_parent (pcbs k c) = Some x}) \<and>
     (\<forall>c \<in> S. \<forall>x. proc_parent (pcbs k c) = Some x \<longrightarrow> x \<in> S)"

lemma kin_okD:
  assumes "kin_ok k S ch Y" and "x \<in> S"
  shows "cptr (pcbs k x) = fst_or (ch x) None" "sibs k (Y x) (ch x) None" "distinct (ch x)"
    "set (ch x) = {c \<in> S. proc_parent (pcbs k c) = Some x}"
  using assms by (simp_all add: kin_ok_def)

lemma kin_okI:
  "(\<And>x. x \<in> S \<Longrightarrow> cptr (pcbs k x) = fst_or (ch x) None \<and> sibs k (Y x) (ch x) None \<and> distinct (ch x) \<and>
       set (ch x) = {c \<in> S. proc_parent (pcbs k c) = Some x}) \<Longrightarrow>
   (\<And>c x. c \<in> S \<Longrightarrow> proc_parent (pcbs k c) = Some x \<Longrightarrow> x \<in> S) \<Longrightarrow> kin_ok k S ch Y"
  by (simp add: kin_ok_def)

lemma kin_disjoint: "kin_ok k S ch Y \<Longrightarrow> x \<in> S \<Longrightarrow> y \<in> S \<Longrightarrow> c \<in> set (ch x) \<Longrightarrow> c \<in> set (ch y) \<Longrightarrow> x = y"
  by (simp add: kin_ok_def)

lemma kin_cong:
  assumes "kin_ok k S ch Y" and "\<And>x. x \<in> S \<Longrightarrow> cptr (pcbs k' x) = cptr (pcbs k x) \<and> yptr (pcbs k' x) = yptr (pcbs k x) \<and>
      optr (pcbs k' x) = optr (pcbs k x) \<and> proc_parent (pcbs k' x) = proc_parent (pcbs k x)"
  shows "kin_ok k' S ch Y"
proof -
  have "sibs k' (Y x) (ch x) None = sibs k (Y x) (ch x) None" if "x \<in> S" for x
    by (rule sibs_cong) (use assms kin_okD(4) [OF assms(1) that] in auto)
  then show ?thesis using assms unfolding kin_ok_def by auto
qed

text \<open>The fields of a process that the links are not.\<close>

definition no_links :: "pcb \<Rightarrow> pcb" where
  "no_links q = q\<lparr>proc_parent := None, cptr := None, yptr := None, optr := None\<rparr>"

lemma no_links_upd [simp]:
  "no_links (q\<lparr>cptr := a\<rparr>) = no_links q" "no_links (q\<lparr>yptr := a\<rparr>) = no_links q"
  "no_links (q\<lparr>optr := a\<rparr>) = no_links q" "no_links (q\<lparr>proc_parent := a\<rparr>) = no_links q"
  by (cases q; simp add: no_links_def)+

lemma no_links_eqD:
  assumes "no_links q = no_links p"
  shows "pid q = pid p" "kstack q = kstack p" "proc_mm q = proc_mm p" "tf q = tf p" "cr3 q = cr3 p"
    "proc_flags q = proc_flags p" "exit_code q = exit_code p" "ctx q = ctx p"
  using assms by (cases q; cases p; simp add: no_links_def)+

text \<open>What the operations on the links leave alone.\<close>

definition links_only :: "kern \<Rightarrow> kern \<Rightarrow> bool" where
  "links_only k k' \<longleftrightarrow> kvm k' = kvm k \<and> sch k' = sch k \<and> hash_links k' = hash_links k \<and> initproc k' = initproc k \<and>
     next_safe k' = next_safe k \<and> last_pid k' = last_pid k \<and> boot_pgdir k' = boot_pgdir k \<and> satp k' = satp k \<and>
     (\<forall>x. no_links (pcbs k' x) = no_links (pcbs k x))"

lemma links_only_refl [simp]: "links_only k k"
  by (simp add: links_only_def)

lemma links_only_upd:
  "links_only k k' \<Longrightarrow> (\<And>q. no_links (f q) = no_links q) \<Longrightarrow> links_only k (upd_pcb p f k')"
  by (simp add: links_only_def)

lemma links_only_trans: "links_only k k1 \<Longrightarrow> links_only k1 k2 \<Longrightarrow> links_only k k2"
  by (simp add: links_only_def)

lemma set_links_ok:
  assumes kin: "kin_ok k S ch (\<lambda>_. None)" and par: "par \<in> S" "proc_parent (pcbs k p) = Some par"
    and p: "p \<notin> S" "cptr (pcbs k p) = None"
  shows "\<exists>k'. set_links p k = Some k' \<and> kin_ok k' (insert p S) (ch(par := p # ch par, p := [])) (\<lambda>_. None) \<and>
    links_only k k' \<and> (\<forall>x. proc_parent (pcbs k' x) = proc_parent (pcbs k x)) \<and> nr_process k' = nr_process k + 1 \<and>
    proc_links k' = list_add ProcList (ListLink p) (proc_links k)"
proof -
  have pp: "p \<noteq> par" using par p by auto
  let ?c = "cptr (pcbs k par)"
  let ?f = "(pcbs k)(p := (pcbs k p)\<lparr>yptr := None, optr := ?c\<rparr>)"
  let ?g = "(case ?c of Some c \<Rightarrow> ?f(c := (?f c)\<lparr>yptr := Some p\<rparr>) | None \<Rightarrow> ?f)"
  define h where "h = ?g(par := (?g par)\<lparr>cptr := Some p\<rparr>)"
  let ?k = "k\<lparr>proc_links := list_add ProcList (ListLink p) (proc_links k), pcbs := h, nr_process := nr_process k + 1\<rparr>"
  have run: "set_links p k = Some ?k"
    using par(2) pp by (simp add: set_links_def upd_pcb_def Let_def h_def split: option.splits)
  have c: "?c = fst_or (ch par) None" by (rule kin_okD(1) [OF kin par(1)])
  have mem: "x \<in> S" if "y \<in> S" "x \<in> set (ch y)" for x y using that kin_okD(4) [OF kin] by auto
  have yp: "yptr (h x) = (if x = p then None else if Some x = ?c then Some p else yptr (pcbs k x))"
    if "x = p \<or> x \<in> S" for x
    using c mem [OF par(1)] p(1) by (cases "ch par") (auto simp: h_def)
  have op: "optr (h x) = (if x = p then ?c else optr (pcbs k x))" for x by (auto simp: h_def split: option.splits)
  have cp: "cptr (h x) = (if x = par then Some p else cptr (pcbs k x))" for x by (auto simp: h_def split: option.splits)
  have pr: "proc_parent (h x) = proc_parent (pcbs k x)" for x by (auto simp: h_def split: option.splits)
  have nl: "no_links (h x) = no_links (pcbs k x)" for x by (auto simp: h_def split: option.splits)
  have other: "sibs ?k None (ch x) None" if x: "x \<in> S" "x \<noteq> par" for x
  proof -
    have "Some y \<noteq> ?c \<and> y \<noteq> p" if "y \<in> set (ch x)" for y
      using that x kin_disjoint [OF kin x(1) par(1)] c mem [OF x(1)] p(1) by (cases "ch par") auto
    then have "sibs ?k None (ch x) None = sibs k None (ch x) None"
      by (intro sibs_cong) (use mem [OF x(1)] yp op in auto)
    then show ?thesis using kin_okD(2) [OF kin x(1)] by simp
  qed
  have own: "sibs ?k None (p # ch par) None"
  proof (cases "ch par")
    case Nil
    then show ?thesis using yp op c by simp
  next
    case (Cons d ds)
    have d: "d \<in> S" "d \<noteq> p" "d \<notin> set ds" "p \<notin> set ds" using mem [OF par(1)] Cons kin_okD(3) [OF kin par(1)] p(1) by auto
    have "sibs ?k (Some d) ds None = sibs k (Some d) ds None"
      by (rule sibs_cong) (use mem [OF par(1)] Cons yp op c d in auto)
    then show ?thesis using kin_okD(2) [OF kin par(1)] Cons yp op c d by auto
  qed
  have clo: "x \<in> S" if "c \<in> S" "proc_parent (pcbs k c) = Some x" for c x using kin that by (simp add: kin_ok_def)
  let ?ch = "ch(par := p # ch par, p := [])"
  have node: "cptr (h x) = fst_or (?ch x) None \<and> sibs ?k None (?ch x) None \<and> distinct (?ch x) \<and>
      set (?ch x) = {c \<in> insert p S. proc_parent (pcbs k c) = Some x}" if x: "x \<in> insert p S" for x
  proof -
    consider "x = p" | "x = par" | "x \<in> S" "x \<noteq> par" "x \<noteq> p" using x by blast
    then show ?thesis
    proof cases
      case 1
      then show ?thesis using cp p pp par clo by auto
    next
      case 2
      have "p \<notin> set (ch par)" using mem [OF par(1)] p(1) by blast
      then show ?thesis using 2 cp own pp par kin_okD(3,4) [OF kin par(1)] by auto
    next
      case 3
      then show ?thesis using cp other [OF 3(1,2)] kin_okD [OF kin 3(1)] par(2) by auto
    qed
  qed
  have "kin_ok ?k (insert p S) ?ch (\<lambda>_. None)"
    unfolding kin_ok_def using node pr clo par by (simp del: fun_upd_apply)
  then show ?thesis using run nl pr by (intro exI [of _ ?k]) (simp add: links_only_def)
qed

lemma sibs_first: "sibs k y (d # ds) z \<Longrightarrow> d \<notin> set ds \<Longrightarrow> yptr (pcbs k' d) = y' \<Longrightarrow> optr (pcbs k' d) = optr (pcbs k d) \<Longrightarrow>
   (\<And>x. x \<in> set ds \<Longrightarrow> yptr (pcbs k' x) = yptr (pcbs k x) \<and> optr (pcbs k' x) = optr (pcbs k x)) \<Longrightarrow> sibs k' y' (d # ds) z"
  using sibs_cong [of ds k' k "Some d" z] by simp

lemma sibs_last: "sibs k y (us @ [u]) z \<Longrightarrow> u \<notin> set us \<Longrightarrow> optr (pcbs k' u) = z' \<Longrightarrow> yptr (pcbs k' u) = yptr (pcbs k u) \<Longrightarrow>
   (\<And>x. x \<in> set us \<Longrightarrow> yptr (pcbs k' x) = yptr (pcbs k x) \<and> optr (pcbs k' x) = optr (pcbs k x)) \<Longrightarrow> sibs k' y (us @ [u]) z'"
  using sibs_cong [of us k' k y "Some u"] by simp

lemma remove_links_ok:
  assumes kin: "kin_ok k S ch (\<lambda>_. None)" and p: "p \<in> S" "ch p = []" "proc_parent (pcbs k p) = Some par"
  shows "\<exists>k'. remove_links p k = Some k' \<and> kin_ok k' (S - {p}) (ch(par := remove1 p (ch par))) (\<lambda>_. None) \<and>
    links_only k k' \<and> (\<forall>x. proc_parent (pcbs k' x) = proc_parent (pcbs k x)) \<and> nr_process k' = nr_process k - 1 \<and>
    proc_links k' = list_del (ListLink p) (proc_links k)"
proof -
  have par: "par \<in> S" using kin p by (simp add: kin_ok_def)
  have pin: "p \<in> set (ch par)" using kin_okD(4) [OF kin par] p by simp
  then have pp: "p \<noteq> par" using p(2) by auto
  obtain us ys where uy: "ch par = us @ p # ys" using pin by (meson split_list)
  note sb = kin_okD(2) [OF kin par, unfolded uy]
  have dst: "distinct (us @ p # ys)" using kin_okD(3) [OF kin par] uy by simp
  have o: "optr (pcbs k p) = fst_or ys None" and y: "yptr (pcbs k p) = lst_or None us"
    and s1: "sibs k None us (Some p)" and s2: "sibs k (Some p) ys None" using sb by simp_all
  define g where "g = (case fst_or ys None of Some c \<Rightarrow> (pcbs k)(c := (pcbs k c)\<lparr>yptr := lst_or None us\<rparr>) | None \<Rightarrow> pcbs k)"
  define h where "h = (case lst_or None us of Some c \<Rightarrow> g(c := (g c)\<lparr>optr := fst_or ys None\<rparr>)
    | None \<Rightarrow> g(par := (g par)\<lparr>cptr := fst_or ys None\<rparr>))"
  let ?k = "k\<lparr>proc_links := list_del (ListLink p) (proc_links k), pcbs := h, nr_process := nr_process k - 1\<rparr>"
  have fy: "fst_or ys None \<noteq> Some p" using dst by (cases ys) auto
  have ly: "lst_or None us \<noteq> Some p" using dst by (cases us rule: rev_cases) auto
  have gp: "yptr (g p) = lst_or None us" "optr (g p) = fst_or ys None" "proc_parent (g p) = Some par"
    using o y fy p(3) by (auto simp: g_def split: option.splits)
  have run: "remove_links p k = Some ?k"
  proof -
    let ?k1 = "k\<lparr>proc_links := list_del (ListLink p) (proc_links k)\<rparr>"
    have "(case optr (pcbs ?k1 p) of Some c \<Rightarrow> upd_pcb c (\<lambda>q. q\<lparr>yptr := yptr (pcbs ?k1 p)\<rparr>) ?k1 | None \<Rightarrow> ?k1) = ?k1\<lparr>pcbs := g\<rparr>"
      using o y by (auto simp: g_def upd_pcb_def split: option.splits)
    then show ?thesis
      using gp by (simp add: remove_links_def Let_def h_def upd_pcb_def split: option.splits)
  qed
  have mem: "x \<in> S" if "z \<in> S" "x \<in> set (ch z)" for x z using that kin_okD(4) [OF kin] by auto
  have yp: "yptr (h x) = (if fst_or ys None = Some x then lst_or None us else yptr (pcbs k x))" for x
    by (auto simp: h_def g_def split: option.splits)
  have op: "optr (h x) = (if lst_or None us = Some x then fst_or ys None else optr (pcbs k x))" for x
    by (auto simp: h_def g_def split: option.splits)
  have cp: "cptr (h x) = (if us = [] \<and> x = par then fst_or ys None else cptr (pcbs k x))" for x
    by (auto simp: h_def g_def lst_or_def split: option.splits)
  have pr: "proc_parent (h x) = proc_parent (pcbs k x)" for x by (auto simp: h_def g_def split: option.splits)
  have nl: "no_links (h x) = no_links (pcbs k x)" for x by (auto simp: h_def g_def split: option.splits)
  have in_us: "x \<in> set us" if "lst_or None us = Some x" for x using that by (cases us rule: rev_cases) auto
  have in_ys: "x \<in> set ys" if "fst_or ys None = Some x" for x using that by (cases ys) auto
  have other: "sibs ?k None (ch x) None" if x: "x \<in> S" "x \<noteq> par" for x
  proof -
    have "fst_or ys None \<noteq> Some z \<and> lst_or None us \<noteq> Some z" if z: "z \<in> set (ch x)" for z
    proof -
      have "z \<notin> set (ch par)" using z x kin_disjoint [OF kin x(1) par] by blast
      then show ?thesis using in_us [of z] in_ys [of z] uy by auto
    qed
    then have "sibs ?k None (ch x) None = sibs k None (ch x) None" by (intro sibs_cong) (simp add: yp op)
    then show ?thesis using kin_okD(2) [OF kin x(1)] by simp
  qed
  have own: "sibs ?k None (us @ ys) None"
  proof -
    have "sibs ?k None us (fst_or ys None)"
    proof (cases us rule: rev_cases)
      case (snoc vs v)
      have nv: "v \<notin> set vs" "fst_or ys None \<noteq> Some v" using dst in_ys [of v] snoc by auto
      have "sibs ?k None (vs @ [v]) (fst_or ys None)"
        by (rule sibs_last [OF s1 [unfolded snoc] nv(1)]) (use dst snoc nv in_ys in \<open>auto simp: yp op\<close>)
      then show ?thesis using snoc by simp
    qed simp
    moreover have "sibs ?k (lst_or None us) ys None"
    proof (cases ys)
      case (Cons d ds)
      have nd: "d \<notin> set ds" "lst_or None us \<noteq> Some d" using dst in_us [of d] Cons by auto
      have "lst_or None us \<noteq> Some x" if "x \<in> set ds" for x using in_us [of x] that dst Cons by auto
      then have "sibs ?k (lst_or None us) (d # ds) None"
        by (intro sibs_first [OF s2 [unfolded Cons] nd(1)]) (use dst Cons nd in \<open>auto simp: yp op\<close>)
      then show ?thesis using Cons by simp
    qed simp
    ultimately show ?thesis by simp
  qed
  have clo: "x \<in> S" if "c \<in> S" "proc_parent (pcbs k c) = Some x" for c x using kin that by (simp add: kin_ok_def)
  have rm: "remove1 p (ch par) = us @ ys" using uy dst by (simp add: remove1_append)
  let ?ch = "ch(par := remove1 p (ch par))"
  have node: "cptr (h x) = fst_or (?ch x) None \<and> sibs ?k None (?ch x) None \<and> distinct (?ch x) \<and>
      set (?ch x) = {c \<in> S - {p}. proc_parent (pcbs k c) = Some x}" if x: "x \<in> S - {p}" for x
  proof (cases "x = par")
    case True
    have "set (us @ ys) = set (ch par) - {p}" using uy dst by auto
    also have "\<dots> = {c \<in> S - {p}. proc_parent (pcbs k c) = Some par}" using kin_okD(4) [OF kin par] by auto
    finally have st: "set (us @ ys) = {c \<in> S - {p}. proc_parent (pcbs k c) = Some par}" .
    have "cptr (h par) = fst_or (us @ ys) None" using kin_okD(1) [OF kin par] uy by (cases us) (simp_all add: cp)
    then show ?thesis using True own st dst by (simp add: rm)
  next
    case False
    have "p \<notin> set (ch x)" using kin_disjoint [OF kin _ par _ pin] x False by blast
    then have "set (ch x) = {c \<in> S - {p}. proc_parent (pcbs k c) = Some x}" using kin_okD(4) [OF kin, of x] x by auto
    then show ?thesis using False x other [of x] kin_okD [OF kin, of x] by (simp add: cp)
  qed
  have clo': "x \<in> S - {p}" if "c \<in> S - {p}" "proc_parent (pcbs k c) = Some x" for c x
    using clo that kin_okD(4) [OF kin p(1)] p(2) by auto
  have kk: "pcbs ?k = h" by simp
  have "kin_ok ?k (S - {p}) ?ch (\<lambda>_. None)"
    by (rule kin_okI) (unfold kk pr, erule node, erule (1) clo')
  then show ?thesis using run nl pr by (intro exI [of _ ?k]) (simp add: links_only_def)
qed

text \<open>One child handed over: it leaves the head of the list of the process that exits, which keeps a dangling \<open>yptr\<close>.\<close>

lemma adopt_ok:
  assumes kin: "kin_ok k S ch Y" and c: "cur k \<in> S" "ch (cur k) = p # cs" "cur k \<notin> set (ch (cur k))"
    and i: "i \<in> S" "i \<noteq> cur k" "i \<notin> set (ch (cur k))" "Y i = None"
  shows "kin_ok (adopt i p k) S (ch(cur k := cs, i := p # ch i)) (Y(cur k := Some p))"
    "links_only k (adopt i p k)" "proc_links (adopt i p k) = proc_links k" "nr_process (adopt i p k) = nr_process k"
    "\<And>x. proc_parent (pcbs (adopt i p k) x) = (if x = p then Some i else proc_parent (pcbs k x))"
proof -
  let ?c = "cur k" and ?d = "cptr (pcbs k i)"
  define g where "g = (pcbs k)(?c := (pcbs k ?c)\<lparr>cptr := optr (pcbs k p)\<rparr>, p := (pcbs k p)\<lparr>yptr := None, optr := ?d\<rparr>)"
  define f where "f = (case ?d of Some d \<Rightarrow> g(d := (g d)\<lparr>yptr := Some p\<rparr>) | None \<Rightarrow> g)"
  define h where "h = f(p := (f p)\<lparr>proc_parent := Some i\<rparr>, i := (f i)\<lparr>cptr := Some p\<rparr>)"
  have mem: "x \<in> S" if "z \<in> S" "x \<in> set (ch z)" for x z using that kin_okD(4) [OF kin] by auto
  have ne: "p \<noteq> ?c" "p \<noteq> i" "p \<in> S" using c i mem [OF c(1), of p] by auto
  have dp: "?d \<noteq> Some p"
  proof
    assume "?d = Some p"
    then have "p \<in> set (ch i)" using kin_okD(1) [OF kin i(1)] by (cases "ch i") auto
    then show False using kin_disjoint [OF kin c(1) i(1), of p] c(2) i(2) by simp
  qed
  have run: "adopt i p k = k\<lparr>pcbs := h\<rparr>"
    using ne i(2) by (auto simp: adopt_def upd_pcb_def Let_def h_def f_def g_def split: option.splits)
  have yp: "yptr (h x) = (if x = p then None else if ?d = Some x then Some p else yptr (pcbs k x))" for x
    using dp by (auto simp: h_def f_def g_def split: option.splits)
  have op: "optr (h x) = (if x = p then ?d else optr (pcbs k x))" for x
    by (auto simp: h_def f_def g_def split: option.splits)
  have cp: "cptr (h x) = (if x = i then Some p else if x = ?c then optr (pcbs k p) else cptr (pcbs k x))" for x
    using ne by (auto simp: h_def f_def g_def split: option.splits)
  have pr: "proc_parent (h x) = (if x = p then Some i else proc_parent (pcbs k x))" for x
    using ne by (auto simp: h_def f_def g_def split: option.splits)
  have nl: "no_links (h x) = no_links (pcbs k x)" for x by (auto simp: h_def f_def g_def split: option.splits)
  have di: "?d = fst_or (ch i) None" by (rule kin_okD(1) [OF kin i(1)])
  have d_in: "x \<in> set (ch i)" if "?d = Some x" for x using that di by (cases "ch i") auto
  note sc = kin_okD(2,3) [OF kin c(1), unfolded c(2)]
  have p_out: "p \<notin> set (ch x)" if "x \<in> S" "x \<noteq> ?c" for x
    using kin_disjoint [OF kin that(1) c(1)] that(2) c(2) by auto
  let ?k = "k\<lparr>pcbs := h\<rparr>"
  have same: "sibs ?k y xs z = sibs k y xs z" if "set xs \<inter> set (ch i) = {}" "p \<notin> set xs" for y xs z
    by (rule sibs_cong) (use that d_in in \<open>auto simp: yp op\<close>)
  have rest: "sibs ?k (Some p) cs None"
    using sc same [of cs] kin_disjoint [OF kin c(1) i(1)] i(2) c(2) by auto
  have own: "sibs ?k None (p # ch i) None"
  proof (cases "ch i")
    case Nil
    then show ?thesis using di by (simp add: yp op)
  next
    case (Cons d ds)
    note si = kin_okD(2,3) [OF kin i(1), unfolded Cons]
    have nd: "d \<notin> set ds" "p \<notin> set (d # ds)" using si(2) p_out [OF i(1,2)] Cons by auto
    have "sibs ?k (Some p) (d # ds) None"
      by (rule sibs_first [OF si(1) nd(1)]) (use nd di Cons in \<open>auto simp: yp op\<close>)
    then show ?thesis using di Cons by (simp add: yp op)
  qed
  have clo: "x \<in> S" if "z \<in> S" "proc_parent (pcbs k z) = Some x" for z x using kin that by (simp add: kin_ok_def)
  let ?ch = "ch(?c := cs, i := p # ch i)" and ?Y = "Y(?c := Some p)"
  have node: "cptr (h x) = fst_or (?ch x) None \<and> sibs ?k (?Y x) (?ch x) None \<and> distinct (?ch x) \<and>
      set (?ch x) = {z \<in> S. proc_parent (h z) = Some x}" if x: "x \<in> S" for x
  proof -
    consider "x = i" | "x = ?c" | "x \<noteq> i" "x \<noteq> ?c" by blast
    then show ?thesis
    proof cases
      case 1
      have "set (p # ch i) = {z \<in> S. proc_parent (h z) = Some i}" using kin_okD(4) [OF kin i(1)] ne(3) by (auto simp: pr)
      then show ?thesis using 1 own p_out [OF i(1,2)] kin_okD(3) [OF kin i(1)] i(2,4) by (simp add: cp)
    next
      case 2
      have "set cs = {z \<in> S. proc_parent (h z) = Some ?c}"
        using kin_okD(4) [OF kin c(1)] sc(2) i(2) c(2) by (auto simp: pr)
      then show ?thesis using 2 rest sc i(2) by (simp add: cp)
    next
      case 3
      have "set (ch x) \<inter> set (ch i) = {}" using kin_disjoint [OF kin x i(1)] 3 by blast
      then have "sibs ?k (Y x) (ch x) None" using same [of "ch x"] p_out [OF x 3(2)] kin_okD(2) [OF kin x] by blast
      moreover have "set (ch x) = {z \<in> S. proc_parent (h z) = Some x}"
        using kin_okD(4) [OF kin x] p_out [OF x 3(2)] 3(1) ne(3) by (auto simp: pr)
      ultimately show ?thesis using 3 kin_okD(1,3) [OF kin x] by (simp add: cp)
    qed
  qed
  have clo': "x \<in> S" if "z \<in> S" "proc_parent (h z) = Some x" for z x
    using that clo i(1) by (auto simp: pr split: if_splits)
  have kk: "pcbs ?k = h" by simp
  show "kin_ok (adopt i p k) S ?ch ?Y"
    unfolding run by (rule kin_okI) (unfold kk, erule node, erule (1) clo')
  show "links_only k (adopt i p k)" "proc_links (adopt i p k) = proc_links k" "nr_process (adopt i p k) = nr_process k"
    "\<And>x. proc_parent (pcbs (adopt i p k) x) = (if x = p then Some i else proc_parent (pcbs k x))"
    using nl unfolding run by (simp_all add: links_only_def pr)
qed

section \<open>Exit\<close>

text \<open>What the loop of \<open>do_exit\<close> leaves alone: everything but the links of the family and the scheduler.\<close>

definition fam_frame :: "kern \<Rightarrow> kern \<Rightarrow> bool" where
  "fam_frame k k' \<longleftrightarrow> kvm k' = kvm k \<and> hash_links k' = hash_links k \<and> proc_links k' = proc_links k \<and>
     nr_process k' = nr_process k \<and> initproc k' = initproc k \<and> next_safe k' = next_safe k \<and> last_pid k' = last_pid k \<and>
     boot_pgdir k' = boot_pgdir k \<and> satp k' = satp k \<and> cur k' = cur k \<and> idleproc (sch k') = idleproc (sch k) \<and>
     (\<forall>x. no_links (pcbs k' x) = no_links (pcbs k x))"

lemma fam_frame_refl [simp]: "fam_frame k k" by (simp add: fam_frame_def)

lemma fam_frame_trans: "fam_frame k k1 \<Longrightarrow> fam_frame k1 k2 \<Longrightarrow> fam_frame k k2"
  by (simp add: fam_frame_def)

text \<open>
  The invariant of the processes \<open>ps\<close> with their children \<open>ch\<close>. The idle process is in no list and its only child is
  \<open>initproc\<close>; a process that has exited has no children.
\<close>

definition procs_ok :: "kern \<Rightarrow> nat list \<Rightarrow> (nat \<Rightarrow> nat list) \<Rightarrow> nat \<Rightarrow> bool" where
  "procs_ok k ps ch i \<longleftrightarrow> pids_ok k ps \<and> hash_ok k ps \<and> inj_on (pid_of k) (set ps) \<and>
     (\<forall>p \<in> set ps. 1 \<le> pid_of k p \<and> pid_of k p < MAX_PID) \<and> nr_process k = int (length ps) + 1 \<and>
     idleproc (sch k) \<notin> set ps \<and> initproc k = Some i \<and> i \<in> set ps \<and> ch (idleproc (sch k)) = [i] \<and>
     proc_parent (pcbs k (idleproc (sch k))) = None \<and> state (procs (sch k) i) \<noteq> PROC_ZOMBIE \<and>
     kin_ok k (insert (idleproc (sch k)) (set ps)) ch (\<lambda>_. None) \<and>
     (\<forall>p \<in> set ps. proc_parent (pcbs k p) \<noteq> None \<and> proc_parent (pcbs k p) \<noteq> Some p \<and>
        (state (procs (sch k) p) = PROC_ZOMBIE \<longrightarrow> ch p = []))"

lemma procs_ok_cong:
  assumes "procs_ok k ps ch i" and "proc_links k' = proc_links k" and "last_pid k' = last_pid k" and "next_safe k' = next_safe k"
    and "hash_links k' = hash_links k" and "nr_process k' = nr_process k" and "initproc k' = initproc k"
    and "idleproc (sch k') = idleproc (sch k)" and "\<And>x. pid_of k' x = pid_of k x"
    and "ch' (idleproc (sch k)) = [i]" and "proc_parent (pcbs k' (idleproc (sch k))) = None"
    and "state (procs (sch k') i) \<noteq> PROC_ZOMBIE" and "kin_ok k' (insert (idleproc (sch k)) (set ps)) ch' (\<lambda>_. None)"
    and "\<And>p. p \<in> set ps \<Longrightarrow> proc_parent (pcbs k' p) \<noteq> None \<and> proc_parent (pcbs k' p) \<noteq> Some p \<and>
      (state (procs (sch k') p) = PROC_ZOMBIE \<longrightarrow> ch' p = [])"
  shows "procs_ok k' ps ch' i"
proof -
  have "pids_ok k' ps" "hash_ok k' ps" "inj_on (pid_of k') (set ps)"
    using assms(1-9) by (simp_all add: procs_ok_def pids_ok_def proc_list_def hash_ok_def inj_on_def)
  then show ?thesis using assms unfolding procs_ok_def by simp
qed

text \<open>Whatever \<open>release_mm\<close> frees, of the processes only the caller's reference to its address space changes.\<close>

definition let_go :: "kern \<Rightarrow> kern \<Rightarrow> bool" where
  "let_go k k1 \<longleftrightarrow> sch k1 = sch k \<and> proc_links k1 = proc_links k \<and> hash_links k1 = hash_links k \<and>
    nr_process k1 = nr_process k \<and> initproc k1 = initproc k \<and> next_safe k1 = next_safe k \<and> last_pid k1 = last_pid k \<and>
    pcbs k1 = (pcbs k)(cur k := (pcbs k (cur k))\<lparr>proc_mm := None\<rparr>)"

lemma release_mm_frame:
  assumes "release_mm al fr k = Some k1"
  shows "let_go k k1"
proof (cases "proc_mm (pcbs k (cur k))")
  case None
  then have "(pcbs k (cur k))\<lparr>proc_mm := None\<rparr> = pcbs k (cur k)" by (cases "pcbs k (cur k)") simp
  then have e: "pcbs k = (pcbs k)(cur k := (pcbs k (cur k))\<lparr>proc_mm := None\<rparr>)" by (rule fun_upd_idem [symmetric, OF sym])
  have "k1 = k" using assms None by (simp add: release_mm_def)
  then show ?thesis unfolding let_go_def using e by blast
next
  case (Some mm)
  then show ?thesis using assms
    by (auto simp: let_go_def release_mm_def mm_count_dec_def Let_def upd_pcb_def cur_def kexit_mmap_def put_pgdir_def kmm_destroy_def
        bind_eq_Some_conv split: if_splits)
qed

text \<open>A kernel thread has no address space, and one that other processes use stays.\<close>

lemma release_mm_shared:
  assumes "case proc_mm (pcbs k (cur k)) of None \<Rightarrow> True | Some mm \<Rightarrow> mm_count (mms (kvm k) mm) \<noteq> 1"
  shows "\<exists>k1. release_mm al fr k = Some k1 \<and>
    kvm k1 = (case proc_mm (pcbs k (cur k)) of None \<Rightarrow> kvm k | Some mm \<Rightarrow> snd (mm_count_dec mm (kvm k)))"
  using assms by (cases "proc_mm (pcbs k (cur k))") (simp_all add: release_mm_def mm_count_dec_def Let_def upd_pcb_def cur_def)

context scheduler
begin

lemma upd_cur_ok:
  assumes "ok (sch k)" and "\<And>q. on_rq (f q) = on_rq q \<and> lab6_priority (f q) = lab6_priority q"
  shows "ok (sch (upd_cur f k))"
proof -
  have "ready (sch (upd_cur f k)) = ready (sch k)" by (auto simp: ready_def upd_cur_def cur_def)
  moreover have "same_queue (sch k) (sch (upd_cur f k))" using assms(2) by (simp add: same_queue_def upd_cur_def)
  moreover have "rep (sch k) (ready (sch k))" "current (sch k) \<in> insert (idleproc (sch k)) P" using assms(1) by (simp_all add: ok_def)
  ultimately show ?thesis using rep_cong [of "sch k" "ready (sch k)" "sch (upd_cur f k)"] unfolding ok_def by (simp add: upd_cur_def)
qed

lemma schedule_run_ok:
  assumes "ok (sch k)" and "state (procs (sch k) (cur k)) \<noteq> PROC_RUNNABLE" and "cur k \<noteq> idleproc (sch k)"
  shows "\<exists>k'. schedule_run sc k = Some k' \<and> ok (sch k') \<and> cur k' \<noteq> cur k \<and> satp k' = cr3 (pcbs k' (cur k')) \<and>
    idleproc (sch k') = idleproc (sch k) \<and> (\<forall>q. state (procs (sch k') q) = state (procs (sch k) q)) \<and>
    (\<forall>q. wait_state (procs (sch k') q) = wait_state (procs (sch k) q)) \<and>
    (\<exists>s t. k' = k\<lparr>sch := s, satp := t\<rparr>)"
proof -
  from schedule_ok [OF assms(1)] obtain s where s: "schedule sc (sch k) = Some s" "ok s"
    "\<forall>q. state (procs s q) = state (procs (sch k) q)" "idleproc s = idleproc (sch k)"
    "\<forall>q. wait_state (procs s q) = wait_state (procs (sch k) q)"
    "let Q = ready (sch k) \<union> (if state (procs (sch k) (current (sch k))) = PROC_RUNNABLE then {current (sch k)} else {})
             - {idleproc (sch k)}
     in if Q = {} then current s = idleproc (sch k) else current s \<in> Q" by blast
  have "current s \<noteq> cur k"
    using s(6) assms(2,3) by (auto simp: Let_def cur_def ready_def split: if_splits)
  then show ?thesis
    using s(1-5) by (intro exI [of _ "k\<lparr>sch := s, satp := cr3 (pcbs k (current s))\<rparr>"]) (auto simp: schedule_run_def cur_def)
qed

lemma kwakeup_ok:
  assumes "ok (sch k)" and "p \<in> P" and "state (procs (sch k) p) \<noteq> PROC_ZOMBIE"
  shows "\<exists>k'. kwakeup sc p k = Some k' \<and> fam_frame k k' \<and> pcbs k' = pcbs k \<and> ok (sch k') \<and>
    state (procs (sch k') p) = PROC_RUNNABLE \<and> (\<forall>q. q \<noteq> p \<longrightarrow> state (procs (sch k') q) = state (procs (sch k) q)) \<and>
    (\<forall>q. q \<noteq> p \<longrightarrow> wait_state (procs (sch k') q) = wait_state (procs (sch k) q))"
proof -
  from wakeup_proc_ok [OF assms] obtain s where s: "wakeup_proc sc p (sch k) = Some s" "ok s" "state (procs s p) = PROC_RUNNABLE"
    "current s = current (sch k)" "idleproc s = idleproc (sch k)"
    "\<forall>q. q \<noteq> p \<longrightarrow> state (procs s q) = state (procs (sch k) q)"
    "\<forall>q. wait_state (procs s q) = (if state (procs (sch k) p) \<noteq> PROC_RUNNABLE \<and> q = p then 0 else wait_state (procs (sch k) q))"
    by blast
  have "kwakeup sc p k = Some (k\<lparr>sch := s\<rparr>)" using s(1) by (simp add: kwakeup_def)
  then show ?thesis using s by (intro exI [of _ "k\<lparr>sch := s\<rparr>"]) (simp add: fam_frame_def cur_def)
qed

lemma reparent_ok:
  assumes "kin_ok k S ch Y" and "cur k \<in> S" and "cur k \<notin> set (ch (cur k))" and "i \<in> S" and "i \<noteq> cur k"
    and "i \<notin> set (ch (cur k))" and "Y i = None" and "initproc k = Some i" and "ok (sch k)" and "i \<in> P"
    and "state (procs (sch k) i) \<noteq> PROC_ZOMBIE"
  shows "\<exists>k'. reparent_loop sc k = Some k' \<and> fam_frame k k' \<and> ok (sch k') \<and>
    kin_ok k' S (ch(cur k := [], i := rev (ch (cur k)) @ ch i)) (Y(cur k := None)) \<and>
    (\<forall>x. proc_parent (pcbs k' x) = (if x \<in> set (ch (cur k)) then Some i else proc_parent (pcbs k x))) \<and>
    (\<forall>q. q \<noteq> i \<longrightarrow> state (procs (sch k') q) = state (procs (sch k) q)) \<and> state (procs (sch k') i) \<noteq> PROC_ZOMBIE \<and>
    (state (procs (sch k) i) = PROC_RUNNABLE \<or>
     wait_state (procs (sch k) i) = WT_CHILD \<and> (\<exists>c \<in> set (ch (cur k)). state (procs (sch k) c) = PROC_ZOMBIE)
       \<longrightarrow> state (procs (sch k') i) = PROC_RUNNABLE)"
  using assms
proof (induction "ch (cur k)" arbitrary: k ch Y)
  case Nil
  have "cptr (pcbs k (cur k)) = None" using kin_okD(1) [OF Nil.prems(1,2)] Nil.hyps by simp
  then have run: "reparent_loop sc k = Some k" by (subst reparent_loop.simps) simp
  have "ch(cur k := [], i := rev (ch (cur k)) @ ch i) = ch" using Nil.hyps by (auto simp: fun_eq_iff)
  moreover have "kin_ok k S ch (Y(cur k := None))"
    by (rule kin_okI) (use Nil.prems(1) Nil.hyps in \<open>auto simp: kin_ok_def\<close>)
  ultimately have kin: "kin_ok k S (ch(cur k := [], i := rev (ch (cur k)) @ ch i)) (Y(cur k := None))" by (simp only:)
  show ?case
    by (intro exI [of _ k] conjI run kin fam_frame_refl Nil.prems(9,11)) (use Nil.hyps in simp_all)
next
  case (Cons p cs)
  note pr = Cons.prems
  have chc: "ch (cur k) = p # cs" using Cons.hyps(2) by simp
  have cp: "cptr (pcbs k (cur k)) = Some p" using kin_okD(1) [OF pr(1,2)] chc by simp
  let ?k1 = "adopt i p k" and ?ch = "ch(cur k := cs, i := p # ch i)" and ?Y = "Y(cur k := Some p)"
  note ad = adopt_ok [OF pr(1,2) chc pr(3,4,5,6,7)]
  have lo: "fam_frame k ?k1" using ad(2-4) by (simp add: fam_frame_def links_only_def cur_def)
  have sch1: "sch ?k1 = sch k" using ad(2) by (simp add: links_only_def)
  let ?wake = "state (procs (sch k) p) = PROC_ZOMBIE \<and> wait_state (procs (sch k) i) = WT_CHILD"
  obtain k2 where k2: "(if ?wake then kwakeup sc i ?k1 else Some ?k1) = Some k2" "fam_frame ?k1 k2" "pcbs k2 = pcbs ?k1"
    "ok (sch k2)" "\<forall>q. q \<noteq> i \<longrightarrow> state (procs (sch k2) q) = state (procs (sch k) q)" "state (procs (sch k2) i) \<noteq> PROC_ZOMBIE"
    "?wake \<or> state (procs (sch k) i) = PROC_RUNNABLE \<longrightarrow> state (procs (sch k2) i) = PROC_RUNNABLE"
    "\<not> ?wake \<longrightarrow> wait_state (procs (sch k2) i) = wait_state (procs (sch k) i)"
  proof (cases ?wake)
    case True
    have "ok (sch ?k1)" "state (procs (sch ?k1) i) \<noteq> PROC_ZOMBIE" using sch1 pr by simp_all
    from kwakeup_ok [OF this(1) pr(10) this(2)] True sch1 that show ?thesis by auto
  next
    case False
    show ?thesis by (rule that [of ?k1]) (use False sch1 pr in auto)
  qed
  have cur2: "cur k2 = cur k" and ini2: "initproc k2 = Some i" using lo k2(2) pr(8) by (simp_all add: fam_frame_def)
  have step: "reparent_loop sc k = reparent_loop sc k2"
    using cp pr(8) sch1 k2(1) by (subst reparent_loop.simps) (simp add: Let_def)
  have ci: "?ch (cur k2) = cs" using cur2 pr(5) by simp
  have kin2: "kin_ok k2 S ?ch ?Y" by (rule kin_cong [OF ad(1)]) (simp add: k2(3))
  have dst: "p \<notin> set cs" using kin_okD(3) [OF pr(1,2)] chc by simp
  have "\<exists>k'. reparent_loop sc k2 = Some k' \<and> fam_frame k2 k' \<and> ok (sch k') \<and>
    kin_ok k' S (?ch(cur k2 := [], i := rev (?ch (cur k2)) @ ?ch i)) (?Y(cur k2 := None)) \<and>
    (\<forall>x. proc_parent (pcbs k' x) = (if x \<in> set (?ch (cur k2)) then Some i else proc_parent (pcbs k2 x))) \<and>
    (\<forall>q. q \<noteq> i \<longrightarrow> state (procs (sch k') q) = state (procs (sch k2) q)) \<and> state (procs (sch k') i) \<noteq> PROC_ZOMBIE \<and>
    (state (procs (sch k2) i) = PROC_RUNNABLE \<or>
     wait_state (procs (sch k2) i) = WT_CHILD \<and> (\<exists>c \<in> set (?ch (cur k2)). state (procs (sch k2) c) = PROC_ZOMBIE)
       \<longrightarrow> state (procs (sch k') i) = PROC_RUNNABLE)"
    by (rule Cons.hyps(1)) (use kin2 ci cur2 ini2 pr k2(4,6) chc in auto)
  from this [unfolded ci] obtain k' where k': "reparent_loop sc k2 = Some k'" "fam_frame k2 k'" "ok (sch k')"
    "kin_ok k' S (?ch(cur k2 := [], i := rev cs @ ?ch i)) (?Y(cur k2 := None))"
    "\<forall>x. proc_parent (pcbs k' x) = (if x \<in> set cs then Some i else proc_parent (pcbs k2 x))"
    "\<forall>q. q \<noteq> i \<longrightarrow> state (procs (sch k') q) = state (procs (sch k2) q)" "state (procs (sch k') i) \<noteq> PROC_ZOMBIE"
    "state (procs (sch k2) i) = PROC_RUNNABLE \<or>
     wait_state (procs (sch k2) i) = WT_CHILD \<and> (\<exists>c \<in> set cs. state (procs (sch k2) c) = PROC_ZOMBIE)
       \<longrightarrow> state (procs (sch k') i) = PROC_RUNNABLE" by (elim exE conjE) (rule that)
  have fin: "?ch(cur k2 := [], i := rev cs @ ?ch i) = ch(cur k := [], i := rev (ch (cur k)) @ ch i)"
    "?Y(cur k2 := None) = Y(cur k := None)"
    using pr(5) chc unfolding cur2 by (auto simp: fun_eq_iff)
  have par: "proc_parent (pcbs k' x) = (if x \<in> set (ch (cur k)) then Some i else proc_parent (pcbs k x))" for x
    using k'(5) ad(5) k2(3) chc by simp
  have st: "state (procs (sch k') q) = state (procs (sch k) q)" if "q \<noteq> i" for q using k'(6) k2(5) that by simp
  have wk: "state (procs (sch k') i) = PROC_RUNNABLE"
    if w: "state (procs (sch k) i) = PROC_RUNNABLE \<or>
      wait_state (procs (sch k) i) = WT_CHILD \<and> (\<exists>c \<in> set (ch (cur k)). state (procs (sch k) c) = PROC_ZOMBIE)"
  proof (cases "state (procs (sch k2) i) = PROC_RUNNABLE")
    case True
    then show ?thesis using k'(8) by blast
  next
    case False
    then have nw: "\<not> ?wake" "state (procs (sch k) i) \<noteq> PROC_RUNNABLE" using k2(7) by blast+
    then have "wait_state (procs (sch k2) i) = WT_CHILD" using w k2(8) by simp
    moreover obtain c where c: "c \<in> set (ch (cur k))" "state (procs (sch k) c) = PROC_ZOMBIE" using w nw(2) by blast
    moreover have "c \<in> set cs" using c nw(1) w nw(2) chc by auto
    moreover have "c \<noteq> i" using c(1) pr(6) by blast
    ultimately show ?thesis using k'(8) k2(5) by auto
  qed
  show ?case
    unfolding step using k'(1,3,7) k'(4) [unfolded fin] fam_frame_trans [OF lo fam_frame_trans [OF k2(2) k'(2)]] par st wk
    by (intro exI [of _ k']) blast
qed

lemma do_exit_ok:
  assumes pk: "procs_ok k ps ch i" and okk: "ok (sch k)" and P: "set ps \<subseteq> P" and c: "cur k \<in> set ps" "cur k \<noteq> i"
    and run: "state (procs (sch k) (cur k)) = PROC_RUNNABLE"
    and rel: "release_mm al fr k = Some k1"
    and par: "proc_parent (pcbs k (cur k)) = Some par"
  shows "\<exists>k'. do_exit sc al fr code k = Some k' \<and> kvm k' = kvm k1 \<and>
    procs_ok k' ps (ch(cur k := [], i := rev (ch (cur k)) @ ch i)) i \<and> ok (sch k') \<and>
    cur k' \<noteq> cur k \<and> satp k' = cr3 (pcbs k' (cur k')) \<and>
    state (procs (sch k') (cur k)) = PROC_ZOMBIE \<and> exit_code (pcbs k' (cur k)) = code \<and>
    (wait_state (procs (sch k) par) = WT_CHILD \<longrightarrow> state (procs (sch k') par) = PROC_RUNNABLE) \<and>
    (wait_state (procs (sch k) i) = WT_CHILD \<and> (\<exists>z \<in> set (ch (cur k)). state (procs (sch k) z) = PROC_ZOMBIE)
       \<longrightarrow> state (procs (sch k') i) = PROC_RUNNABLE) \<and>
    (\<forall>q. q \<noteq> cur k \<longrightarrow> no_links (pcbs k' q) = no_links (pcbs k q) \<and>
       (q \<noteq> par \<longrightarrow> q \<noteq> i \<longrightarrow> state (procs (sch k') q) = state (procs (sch k) q)))"
proof -
  let ?c = "cur k" and ?S = "insert (idleproc (sch k)) (set ps)"
  have kin: "kin_ok k ?S ch (\<lambda>_. None)" and iP: "i \<in> set ps" and ini: "initproc k = Some i"
    and idle: "idleproc (sch k) \<notin> set ps" "ch (idleproc (sch k)) = [i]" "proc_parent (pcbs k (idleproc (sch k))) = None"
    and iz: "state (procs (sch k) i) \<noteq> PROC_ZOMBIE"
    and each: "\<And>p. p \<in> set ps \<Longrightarrow> proc_parent (pcbs k p) \<noteq> None \<and> proc_parent (pcbs k p) \<noteq> Some p \<and>
        (state (procs (sch k) p) = PROC_ZOMBIE \<longrightarrow> ch p = [])"
    using pk by (simp_all add: procs_ok_def)
  have parS: "par \<in> ?S" using kin c(1) par by (simp add: kin_ok_def)
  have cpar: "?c \<in> set (ch par)" using kin_okD(4) [OF kin parS] c(1) par by simp
  have pari: "par \<in> set ps" "par \<noteq> ?c" "state (procs (sch k) par) \<noteq> PROC_ZOMBIE"
    using parS cpar idle(2) c each [OF c(1)] each [of par] par by auto
  have ni: "i \<notin> set (ch ?c)" "?c \<notin> set (ch ?c)"
  proof -
    have "i \<in> set (ch (idleproc (sch k)))" using idle(2) by simp
    then show "i \<notin> set (ch ?c)" using kin_disjoint [OF kin, of "idleproc (sch k)" ?c i] c(1) idle(1) by auto
    show "?c \<notin> set (ch ?c)" using kin_okD(4) [OF kin, of ?c] each [OF c(1)] c(1) by auto
  qed
  have k1: "release_mm al fr k = Some k1" "sch k1 = sch k" "proc_links k1 = proc_links k" "hash_links k1 = hash_links k"
    "nr_process k1 = nr_process k" "initproc k1 = initproc k" "next_safe k1 = next_safe k" "last_pid k1 = last_pid k"
    "pcbs k1 = (pcbs k)(?c := (pcbs k ?c)\<lparr>proc_mm := None\<rparr>)"
    using rel release_mm_frame [OF rel] by (simp_all add: let_go_def)
  have c1: "cur k1 = ?c" using k1(2) by (simp add: cur_def)
  define k2 where "k2 = upd_pcb ?c (\<lambda>q. q\<lparr>exit_code := code\<rparr>) (upd_cur (\<lambda>q. q\<lparr>state := PROC_ZOMBIE\<rparr>) k1)"
  have c2: "cur k2 = ?c" using c1 by (simp add: k2_def upd_cur_def cur_def)
  have sch2: "sch k2 = upd_proc ?c (\<lambda>q. q\<lparr>state := PROC_ZOMBIE\<rparr>) (sch k)" using k1(2) c1 by (simp add: k2_def upd_cur_def)
  have pc2: "pcbs k2 = (pcbs k)(?c := (pcbs k ?c)\<lparr>proc_mm := None, exit_code := code\<rparr>)"
    using k1(9) by (simp add: k2_def upd_cur_def)
  have ok2: "ok (sch k2)"
  proof -
    have "ok (sch (upd_cur (\<lambda>q. q\<lparr>state := PROC_ZOMBIE\<rparr>) k))" by (rule upd_cur_ok [OF okk]) simp
    then show ?thesis unfolding sch2 by (simp add: upd_cur_def)
  qed
  have kin2: "kin_ok k2 ?S ch (\<lambda>_. None)" by (rule kin_cong [OF kin]) (simp add: pc2)
  obtain k3 where k3: "(if wait_state (procs (sch k2) par) = WT_CHILD then kwakeup sc par k2 else Some k2) = Some k3"
    "fam_frame k2 k3" "pcbs k3 = pcbs k2" "ok (sch k3)"
    "\<forall>q. q \<noteq> par \<longrightarrow> state (procs (sch k3) q) = state (procs (sch k2) q)" "state (procs (sch k3) par) \<noteq> PROC_ZOMBIE"
    "wait_state (procs (sch k) par) = WT_CHILD \<longrightarrow> state (procs (sch k3) par) = PROC_RUNNABLE"
    "\<forall>q. q \<noteq> par \<longrightarrow> wait_state (procs (sch k3) q) = wait_state (procs (sch k) q)"
    "wait_state (procs (sch k) par) \<noteq> WT_CHILD \<longrightarrow> k3 = k2"
  proof (cases "wait_state (procs (sch k2) par) = WT_CHILD")
    case True
    have "par \<in> P" "state (procs (sch k2) par) \<noteq> PROC_ZOMBIE" using pari P sch2 by auto
    from kwakeup_ok [OF ok2 this] True sch2 pari(2) that show ?thesis by auto
  next
    case False
    show ?thesis by (rule that [of k2]) (use False sch2 ok2 pari in auto)
  qed
  have c3: "cur k3 = ?c" using k3(2) c2 by (simp add: fam_frame_def)
  have ini3: "initproc k3 = Some i" using k3(2) k1(6) ini by (simp add: fam_frame_def k2_def upd_cur_def)
  have kin3: "kin_ok k3 ?S ch (\<lambda>_. None)" by (rule kin_cong [OF kin2]) (simp add: k3(3))
  have st3: "state (procs (sch k3) q) = (if q = ?c then PROC_ZOMBIE else state (procs (sch k) q))" if "q \<noteq> par" for q
    using k3(5) that sch2 by simp
  have i3: "state (procs (sch k3) i) \<noteq> PROC_ZOMBIE" using k3(6) st3 [of i] iz c(2) by (cases "i = par") auto
  have cS: "?c \<in> ?S" "i \<in> ?S" "i \<in> P" using c(1) iP P by auto
  from reparent_ok [OF kin3 _ _ _ _ _ _ ini3 k3(4) cS(3) i3] cS ni c(2) c3
  obtain k4 where k4: "reparent_loop sc k3 = Some k4" "fam_frame k3 k4" "ok (sch k4)"
    "kin_ok k4 ?S (ch(?c := [], i := rev (ch ?c) @ ch i)) ((\<lambda>_. None)(?c := None))"
    "\<forall>x. proc_parent (pcbs k4 x) = (if x \<in> set (ch ?c) then Some i else proc_parent (pcbs k3 x))"
    "\<forall>q. q \<noteq> i \<longrightarrow> state (procs (sch k4) q) = state (procs (sch k3) q)" "state (procs (sch k4) i) \<noteq> PROC_ZOMBIE"
    "state (procs (sch k3) i) = PROC_RUNNABLE \<or>
     wait_state (procs (sch k3) i) = WT_CHILD \<and> (\<exists>z \<in> set (ch ?c). state (procs (sch k3) z) = PROC_ZOMBIE)
       \<longrightarrow> state (procs (sch k4) i) = PROC_RUNNABLE" by auto
  have c4: "cur k4 = ?c" "idleproc (sch k4) = idleproc (sch k)"
    using k4(2) k3(2) c2 sch2 by (simp_all add: fam_frame_def)
  have z4: "state (procs (sch k4) ?c) = PROC_ZOMBIE" using k4(6) c(2) st3 [of ?c] pari(2) by auto
  obtain k5 s t where k5: "schedule_run sc k4 = Some k5" "ok (sch k5)" "cur k5 \<noteq> ?c" "satp k5 = cr3 (pcbs k5 (cur k5))"
    "idleproc (sch k5) = idleproc (sch k)" "\<forall>q. state (procs (sch k5) q) = state (procs (sch k4) q)" "k5 = k4\<lparr>sch := s, satp := t\<rparr>"
  proof -
    have "state (procs (sch k4) (cur k4)) \<noteq> PROC_RUNNABLE" "cur k4 \<noteq> idleproc (sch k4)" using z4 c4 c(1) idle(1) by auto
    from schedule_run_ok [OF k4(3) this] show ?thesis unfolding c4 by (elim exE conjE) (rule that)
  qed
  have "do_exit sc al fr code k = Some k5"
  proof -
    have "proc_parent (pcbs k2 (cur k2)) = Some par" using c2 par by (simp add: pc2)
    moreover have "?c \<noteq> idleproc (sch k)" "Some ?c \<noteq> initproc k" using c idle(1) ini by auto
    then have a: "c_assert (?c \<noteq> idleproc (sch k)) = Some ()" "c_assert (Some ?c \<noteq> initproc k) = Some ()" by simp_all
    ultimately show ?thesis
      using k3(1) k4(1) k5(1)
      unfolding do_exit_def a k1(1) bind.bind_lunit Let_def c1 k2_def [symmetric] by simp
  qed
  moreover have "procs_ok k5 ps (ch(?c := [], i := rev (ch ?c) @ ch i)) i"
  proof (rule procs_ok_cong [OF pk])
    have f: "fam_frame k2 k4" by (rule fam_frame_trans [OF k3(2) k4(2)])
    show "proc_links k5 = proc_links k" "last_pid k5 = last_pid k" "next_safe k5 = next_safe k" "hash_links k5 = hash_links k"
      "nr_process k5 = nr_process k" "initproc k5 = initproc k"
      using f k1 k5(7) by (simp_all add: fam_frame_def k2_def upd_cur_def)
    show "idleproc (sch k5) = idleproc (sch k)" by (rule k5(5))
    have "pid_of k4 x = pid_of k2 x" for x using f no_links_eqD(1) unfolding fam_frame_def by blast
    then show "pid_of k5 x = pid_of k x" for x by (simp add: k5(7) pc2)
    show "(ch(?c := [], i := rev (ch ?c) @ ch i)) (idleproc (sch k)) = [i]" using idle(1,2) c(1) iP by auto
    have pp: "proc_parent (pcbs k5 x) = (if x \<in> set (ch ?c) then Some i else proc_parent (pcbs k x))" for x
      using k4(5) by (simp add: k5(7) k3(3) pc2)
    have sub: "set (ch ?c) \<subseteq> ?S - {idleproc (sch k)}" using kin_okD(4) [OF kin cS(1)] idle(3) by auto
    then show "proc_parent (pcbs k5 (idleproc (sch k))) = None" using idle(3) pp by auto
    show "state (procs (sch k5) i) \<noteq> PROC_ZOMBIE" using k4(7) k5(6) by simp
    have "kin_ok k4 ?S (ch(?c := [], i := rev (ch ?c) @ ch i)) (\<lambda>_. None)" using k4(4) by simp
    then show "kin_ok k5 ?S (ch(?c := [], i := rev (ch ?c) @ ch i)) (\<lambda>_. None)" by (rule kin_cong) (simp add: k5(7))
    fix p assume p: "p \<in> set ps"
    have "state (procs (sch k5) p) = PROC_ZOMBIE \<Longrightarrow> p \<noteq> i" using k4(7) k5(6) by auto
    moreover have "state (procs (sch k5) p) = PROC_ZOMBIE \<Longrightarrow> p \<noteq> ?c \<Longrightarrow> state (procs (sch k) p) = PROC_ZOMBIE"
      using k4(6,7) k3(6) k5(6) st3 [of p] by (cases "p = par"; cases "p = i") auto
    ultimately show "proc_parent (pcbs k5 p) \<noteq> None \<and> proc_parent (pcbs k5 p) \<noteq> Some p \<and>
      (state (procs (sch k5) p) = PROC_ZOMBIE \<longrightarrow> (ch(?c := [], i := rev (ch ?c) @ ch i)) p = [])"
      using each [OF p] pp [of p] ni(1) by auto
  qed
  moreover have "kvm k5 = kvm k1"
  proof -
    have "fam_frame k2 k4" by (rule fam_frame_trans [OF k3(2) k4(2)])
    then have "kvm k4 = kvm k2" by (simp add: fam_frame_def)
    then show ?thesis by (simp add: k5(7) k2_def upd_cur_def)
  qed
  moreover have "no_links (pcbs k5 q) = no_links (pcbs k q) \<and> (q \<noteq> par \<longrightarrow> q \<noteq> i \<longrightarrow> state (procs (sch k5) q) = state (procs (sch k) q))"
    if q: "q \<noteq> ?c" for q
  proof -
    have "fam_frame k2 k4" by (rule fam_frame_trans [OF k3(2) k4(2)])
    then have "no_links (pcbs k4 q) = no_links (pcbs k2 q)" by (simp add: fam_frame_def)
    then show ?thesis using q k4(6) k5(6) st3 [of q] by (simp add: k5(7) pc2)
  qed
  moreover have "exit_code (pcbs k5 ?c) = code"
  proof -
    have "fam_frame k2 k4" by (rule fam_frame_trans [OF k3(2) k4(2)])
    then have "exit_code (pcbs k4 ?c) = exit_code (pcbs k2 ?c)" using no_links_eqD(7) unfolding fam_frame_def by blast
    then show ?thesis by (simp add: k5(7) pc2)
  qed
  moreover have "wait_state (procs (sch k) par) = WT_CHILD \<longrightarrow> state (procs (sch k5) par) = PROC_RUNNABLE"
    using k3(7) k4(6,8) k5(6) by (cases "par = i") auto
  moreover have "wait_state (procs (sch k) i) = WT_CHILD \<and> (\<exists>z \<in> set (ch ?c). state (procs (sch k) z) = PROC_ZOMBIE)
       \<longrightarrow> state (procs (sch k5) i) = PROC_RUNNABLE"
  proof
    assume w: "wait_state (procs (sch k) i) = WT_CHILD \<and> (\<exists>z \<in> set (ch ?c). state (procs (sch k) z) = PROC_ZOMBIE)"
    then obtain z where z: "z \<in> set (ch ?c)" "state (procs (sch k) z) = PROC_ZOMBIE" by blast
    show "state (procs (sch k5) i) = PROC_RUNNABLE"
    proof (cases "par = i")
      case True
      then show ?thesis using w k3(7) k4(8) k5(6) by simp
    next
      case False
      have "z \<noteq> ?c" "z \<noteq> par" using z ni(2) pari(3) by auto
      then have "state (procs (sch k3) z) = PROC_ZOMBIE" using st3 z(2) by simp
      then show ?thesis using w z(1) k3(8) False k4(8) k5(6) by auto
    qed
  qed
  ultimately show ?thesis using k5 z4 by (intro exI [of _ k5]) simp
qed

end

end
