(* ===== verification/ProcLife.thy ===== *)
theory ProcLife
  imports ProcTree
begin

text \<open>
  \<open>do_kill\<close> and \<open>do_wait\<close> over the invariant of \<open>ProcTree\<close>, and the properties of the processes at a small
  family.
\<close>

unbundle bit_operations_syntax

section \<open>The search of wait\<close>

abbreviation zombie :: "kern \<Rightarrow> nat \<Rightarrow> bool" where
  "zombie k p \<equiv> state (procs (sch k) p) = PROC_ZOMBIE"

lemma find_zombie_ok:
  "sibs k y cs None \<Longrightarrow> find_zombie (fst_or cs None) b k = Some (b \<or> cs \<noteq> [], find (zombie k) cs)"
proof (induction cs arbitrary: y b)
  case Nil
  show ?case by (subst find_zombie.simps) simp
next
  case (Cons c cs)
  then have "optr (pcbs k c) = fst_or cs None" "sibs k (Some c) cs None" by simp_all
  then show ?case using Cons.IH [of "Some c" True] by (subst find_zombie.simps) simp
qed

text \<open>The children that a call for number \<open>n\<close> asks for; 0 stands for all.\<close>

definition waited_for :: "int \<Rightarrow> kern \<Rightarrow> nat list \<Rightarrow> nat list" where
  "waited_for n k cs = (if n = 0 then cs else filter (\<lambda>p. pid_of k p = n) cs)"

lemma filter_single:
  assumes "distinct cs" and "c \<in> set cs" and "P c" and "\<And>x. x \<in> set cs \<Longrightarrow> P x \<Longrightarrow> x = c"
  shows "filter P cs = [c]"
proof -
  obtain us ys where cs: "cs = us @ c # ys" using assms(2) by (meson split_list)
  have "filter P us = []" "filter P ys = []" using assms cs by (force simp: filter_empty_conv)+
  then show ?thesis using cs assms(3) by simp
qed

lemma wait_search_ok:
  assumes pk: "procs_ok k ps ch i" and c: "cur k \<in> insert (idleproc (sch k)) (set ps)"
  shows "wait_search n k = Some (waited_for n k (ch (cur k)) \<noteq> [], find (zombie k) (waited_for n k (ch (cur k))))"
proof -
  have kin: "kin_ok k (insert (idleproc (sch k)) (set ps)) ch (\<lambda>_. None)" and h: "hash_ok k ps"
    and inj: "inj_on (pid_of k) (set ps)" and rng: "\<forall>p \<in> set ps. 1 \<le> pid_of k p \<and> pid_of k p < MAX_PID"
    and idle: "proc_parent (pcbs k (idleproc (sch k))) = None"
    using pk by (simp_all add: procs_ok_def)
  note kc = kin_okD [OF kin c]
  show ?thesis
  proof (cases "n = 0")
    case True
    then show ?thesis using find_zombie_ok [OF kc(2), of False] kc(1) by (simp add: wait_search_def waited_for_def)
  next
    case False
    have sub: "set (ch (cur k)) \<subseteq> set ps" using kc(4) idle by auto
    have f: "find_proc n k = Some (find (\<lambda>p. pid_of k p = n) ps)" by (rule find_proc_ok [OF h inj rng])
    show ?thesis
    proof (cases "find (\<lambda>p. pid_of k p = n) ps")
      case None
      then have "filter (\<lambda>p. pid_of k p = n) (ch (cur k)) = []" using sub by (auto simp: find_None_iff filter_empty_conv)
      then show ?thesis using f None False by (simp add: wait_search_def waited_for_def)
    next
      case (Some p)
      then have p: "p \<in> set ps" "pid_of k p = n" by (auto simp: find_Some_iff)
      have uniq: "x = p" if "x \<in> set (ch (cur k))" "pid_of k x = n" for x
        
        by (rule inj_onD [OF inj]) (use that sub p in auto)
      have "filter (\<lambda>p. pid_of k p = n) (ch (cur k)) = (if proc_parent (pcbs k p) = Some (cur k) then [p] else [])"
      proof (cases "proc_parent (pcbs k p) = Some (cur k)")
        case True
        then have pin: "p \<in> set (ch (cur k))" using kc(4) p(1) by simp
        have "filter (\<lambda>p. pid_of k p = n) (ch (cur k)) = [p]" 
          by (rule filter_single [OF kc(3) pin]) (rule p(2), rule uniq)
        then show ?thesis using True by simp
      next
        case no: False
        then have "p \<notin> set (ch (cur k))" using kc(4) by simp
        then have "pid_of k x \<noteq> n" if "x \<in> set (ch (cur k))" for x using uniq [OF that] that by blast
        then show ?thesis using no by (simp add: filter_empty_conv)
      qed
      then show ?thesis using f Some False by (simp add: wait_search_def waited_for_def)
    qed
  qed
qed

section \<open>Kill\<close>

context scheduler
begin

lemma do_kill_ok:
  assumes pk: "procs_ok k ps ch i" and okk: "ok (sch k)" and P: "set ps \<subseteq> P"
    and z: "\<forall>p \<in> set ps. zombie k p \<longrightarrow> wait_state (procs (sch k) p) AND WT_INTERRUPTED = 0"
  shows "case find (\<lambda>p. pid_of k p = n) ps of
      None \<Rightarrow> do_kill sc n k = Some (- E_INVAL, k)
    | Some p \<Rightarrow> if proc_flags (pcbs k p) AND PF_EXITING \<noteq> 0 then do_kill sc n k = Some (- E_KILLED, k)
        else \<exists>k'. do_kill sc n k = Some (0, k') \<and> procs_ok k' ps ch i \<and> ok (sch k') \<and> cur k' = cur k \<and>
          pcbs k' = (pcbs k)(p := (pcbs k p)\<lparr>proc_flags := proc_flags (pcbs k p) OR PF_EXITING\<rparr>) \<and>
          proc_flags (pcbs k' p) AND PF_EXITING \<noteq> 0 \<and>
          (\<forall>q. state (procs (sch k') q) = (if q = p \<and> wait_state (procs (sch k) p) AND WT_INTERRUPTED \<noteq> 0
             then PROC_RUNNABLE else state (procs (sch k) q)))"
proof -
  have h: "hash_ok k ps" "inj_on (pid_of k) (set ps)" "\<forall>p \<in> set ps. 1 \<le> pid_of k p \<and> pid_of k p < MAX_PID"
    using pk by (simp_all add: procs_ok_def)
  note f = find_proc_ok [OF h, of n]
  show ?thesis
  proof (cases "find (\<lambda>p. pid_of k p = n) ps")
    case None
    then show ?thesis using f by (simp add: do_kill_def)
  next
    case (Some p)
    then have p: "p \<in> set ps" by (auto simp: find_Some_iff)
    show ?thesis
    proof (cases "proc_flags (pcbs k p) AND PF_EXITING = 0")
      case False
      then show ?thesis using f Some by (simp add: do_kill_def)
    next
      case True
      define k1 where "k1 = upd_pcb p (\<lambda>q. q\<lparr>proc_flags := proc_flags q OR PF_EXITING\<rparr>) k"
      let ?w = "wait_state (procs (sch k) p) AND WT_INTERRUPTED \<noteq> 0"
      have s1: "sch k1 = sch k" "cur k1 = cur k" by (simp_all add: k1_def)
      obtain k2 where k2: "(if ?w then kwakeup sc p k1 else Some k1) = Some k2" "fam_frame k1 k2" "pcbs k2 = pcbs k1" "ok (sch k2)"
        "\<forall>q. state (procs (sch k2) q) = (if q = p \<and> ?w then PROC_RUNNABLE else state (procs (sch k) q))"
      proof (cases ?w)
        case w: True
        have "ok (sch k1)" "p \<in> P" "state (procs (sch k1) p) \<noteq> PROC_ZOMBIE" using okk p P z w s1 by auto
        from kwakeup_ok [OF this] obtain k2 where *: "kwakeup sc p k1 = Some k2" "fam_frame k1 k2" "pcbs k2 = pcbs k1" "ok (sch k2)"
          "state (procs (sch k2) p) = PROC_RUNNABLE" "\<forall>q. q \<noteq> p \<longrightarrow> state (procs (sch k2) q) = state (procs (sch k1) q)"
          by blast
        show ?thesis by (rule that [of k2]) (use w * s1 in auto)
      next
        case False
        show ?thesis by (rule that [of k1]) (use False okk s1 in auto)
      qed
      have "PF_EXITING \<noteq> 0" by (simp add: PF_EXITING_def)
      then have set: "proc_flags (pcbs k2 p) AND PF_EXITING \<noteq> 0" using k2(3) by (simp add: k1_def bit.conj_disj_distrib2)
      have run: "do_kill sc n k = Some (0, k2)"
        using f Some True k2(1) s1 unfolding k1_def [symmetric] by (simp add: do_kill_def Let_def flip: k1_def)
      have links: "cptr (pcbs k2 x) = cptr (pcbs k x)" "yptr (pcbs k2 x) = yptr (pcbs k x)" "optr (pcbs k2 x) = optr (pcbs k x)"
        "proc_parent (pcbs k2 x) = proc_parent (pcbs k x)" "pid_of k2 x = pid_of k x" for x
        using k2(3) by (simp_all add: k1_def)
      have "procs_ok k2 ps ch i"
      proof (rule procs_ok_cong [OF pk])
        show "proc_links k2 = proc_links k" "last_pid k2 = last_pid k" "next_safe k2 = next_safe k" "hash_links k2 = hash_links k"
          "nr_process k2 = nr_process k" "initproc k2 = initproc k" "idleproc (sch k2) = idleproc (sch k)"
          using k2(2) by (simp_all add: fam_frame_def k1_def)
      qed (use pk links k2(5) kin_cong [of k _ ch _ k2] in \<open>auto simp: procs_ok_def split: if_splits\<close>)
      moreover have "pcbs k2 = (pcbs k)(p := (pcbs k p)\<lparr>proc_flags := proc_flags (pcbs k p) OR PF_EXITING\<rparr>)"
        using k2(3) by (simp add: k1_def upd_pcb_def)
      ultimately show ?thesis using Some True run k2(2,4,5) set s1 by (simp add: fam_frame_def)
    qed
  qed
qed

end

section \<open>Giving memory back\<close>

text \<open>
  What a block of pages and an object of \<open>n\<close> bytes that are in use must be for their release to work: apart from
  everything free, from the tables and from the mapped pages.
\<close>

definition pages_held :: "nat set \<Rightarrow> nat list \<Rightarrow> nat set \<Rightarrow> vmm \<Rightarrow> nat \<Rightarrow> nat \<Rightarrow> bool" where
  "pages_held R bs F s pg n \<longleftrightarrow> 0 < n \<and>
     {pg..<pg + n} \<inter> (F \<union> R \<union> kids (words (vmem s)) R \<union> data (words (vmem s)) R) = {} \<and>
     (\<forall>q \<in> {pg..<pg + n}. q < npage - nbase \<and> page_clean (pages (parea (vmem s)) q)) \<and>
     not_at_end F pg \<and> slob_free_units (vmm.heap s) bs \<inter> page_units {pg..<pg + n} = {}"

definition object_held :: "nat list \<Rightarrow> nat set \<Rightarrow> vmm \<Rightarrow> nat \<Rightarrow> nat \<Rightarrow> bool" where
  "object_held bs F s obj n \<longleftrightarrow> arena (vmm.heap s) + 2 < obj \<and> sunits (vmm.heap s) (obj - 1) = SLOB_UNITS n + 1 \<and>
     {obj - 1..<obj + SLOB_UNITS n} \<inter> unused bs F s = {} \<and> (bigblocks (vmm.heap s) = None \<or> obj mod 256 \<noteq> 0)"

lemma page_units_Un: "page_units (F \<union> G) = page_units F \<union> page_units G"
  by (auto simp: page_units_def)

context pmm_manager
begin

lemma free_block_ok:
  assumes sp: "space_ok inv (\<lambda>_. 0) R F m" and n: "0 < n"
    and dis: "{pg..<pg + n} \<inter> (F \<union> R \<union> kids (words m) R \<union> data (words m) R) = {}"
    and cl: "\<forall>q \<in> {pg..<pg + n}. q < npage - nbase \<and> page_clean (pages (parea m) q)" and top: "not_at_end F pg"
  shows "\<exists>a. free_pages free pg n m = Some (m\<lparr>parea := a\<rparr>) \<and> space_ok inv (\<lambda>_. 0) R (F \<union> {pg..<pg + n}) (m\<lparr>parea := a\<rparr>) \<and>
    (\<forall>q. q \<notin> F \<union> {pg..<pg + n} \<longrightarrow> pages a q = pages (parea m) q)"
proof -
  let ?G = "{pg..<pg + n}"
  note o = sp [unfolded space_ok_def]
  have "inv (parea m) F" "releasable (parea m) F pg n" using o n dis cl top by (auto simp: releasable_def)
  from free_returns [OF this] obtain a where a: "free pg n (parea m) = Some a" "inv a (F \<union> ?G)"
    "\<forall>q. q \<notin> F \<union> ?G \<longrightarrow> pages a q = pages (parea m) q" by blast
  let ?t = "m\<lparr>parea := a\<rparr>"
  have rf: "page_ref q ?t = (if q \<in> ?G then 0 else page_ref q m)" for q
    using free_ref [OF a(1), of q] by (simp add: page_ref_def)
  have apart: "q \<notin> F \<union> ?G" if "q \<in> R \<union> kids (words m) R \<union> data (words m) R" for q
    using that o dis by blast
  have keep: "pages a q = pages (parea m) q" "page_ref q ?t = page_ref q m"
    if "q \<in> kids (words m) R \<union> data (words m) R" for q
    using apart [of q] that a(3) rf [of q] by (auto simp: page_ref_def)
  have "space_ok inv (\<lambda>_. 0) R (F \<union> ?G) ?t"
    unfolding space_ok_def
  proof (intro conjI)
    show "inv (parea ?t) (F \<union> ?G)" using a(2) by simp
    show "tree_ok (words ?t) R" using o by simp
    show "\<forall>q \<in> F \<union> ?G. q < npage - nbase \<and> page_ref q ?t = 0" using o cl rf by auto
    show "(R \<union> kids (words ?t) R) \<inter> (F \<union> ?G) = {}" using apart by auto
    show "data (words ?t) R \<inter> (R \<union> kids (words ?t) R \<union> (F \<union> ?G)) = {}" using apart o by auto
    show "\<forall>r \<in> R. \<forall>v < UPAGES. pte_valid (pte (words ?t) r v) \<longrightarrow> frame_ok (pte (words ?t) r v)" using o by simp
    show "\<forall>p \<in> data (words ?t) R \<union> {p. (0::int) \<noteq> 0}. page_ref p ?t = int (card (mapped (words ?t) R p)) + 0"
      using o keep by auto
    show "\<forall>p \<in> data (words ?t) R \<union> kids (words ?t) R. page_clean (pages (parea ?t) p)" using o keep by auto
  qed
  then show ?thesis using a(1,3) by (intro exI [of _ a]) (simp add: free_pages_def)
qed

lemma free_pages_ok:
  assumes ok: "vm_ok inv R bs F s" and h: "pages_held R bs F s pg n"
  shows "\<exists>a. free_pages free pg n (vmem s) = Some ((vmem s)\<lparr>parea := a\<rparr>) \<and>
    vm_ok inv R bs (F \<union> {pg..<pg + n}) (set_vmem ((vmem s)\<lparr>parea := a\<rparr>) s)"
proof -
  have hi: "heap_inv (vmm.heap s) bs F" using ok by (simp add: vm_ok_def)
  have "space_ok inv (\<lambda>_. 0) R F (vmem s)" "0 < n"
    "{pg..<pg + n} \<inter> (F \<union> R \<union> kids (words (vmem s)) R \<union> data (words (vmem s)) R) = {}"
    "\<forall>q \<in> {pg..<pg + n}. q < npage - nbase \<and> page_clean (pages (parea (vmem s)) q)" "not_at_end F pg"
    using ok h by (simp_all add: vm_ok_def pages_held_def)
  from free_block_ok [OF this] obtain a where a: "free_pages free pg n (vmem s) = Some ((vmem s)\<lparr>parea := a\<rparr>)"
    "space_ok inv (\<lambda>_. 0) R (F \<union> {pg..<pg + n}) ((vmem s)\<lparr>parea := a\<rparr>)" by blast
  moreover have "heap_inv (vmm.heap s) bs (F \<union> {pg..<pg + n})"
    using hi h unfolding heap_inv_def pages_held_def page_units_Un by blast
  ultimately show ?thesis by (intro exI [of _ a]) (simp add: vm_ok_def)
qed

lemma krelease_ok:
  assumes ok: "vm_ok inv R bs F s" and ob: "object_held bs F s obj n"
  shows "\<exists>h cs. krelease free obj s = Some (with_heap h s) \<and> vm_ok inv R cs F (with_heap h s) \<and> vmem (with_heap h s) = vmem s \<and>
    slob_free_units h cs = slob_free_units (vmm.heap s) bs \<union> {obj - 1..<obj + SLOB_UNITS n}"
proof -
  let ?h = "(vmm.heap s)\<lparr>pmm := parea (vmem s)\<rparr>" and ?B = "{obj - 1..<obj + SLOB_UNITS n}"
  have hi: "heap_inv ?h bs F" using ok by (simp add: vm_ok_def heap_inv_pmm)
  have u: "slob_free_units ?h bs = slob_free_units (vmm.heap s) bs" by (simp add: slob_free_units_def)
  have o: "arena ?h + 2 < obj" "sunits ?h (obj - 1) = SLOB_UNITS n + 1" "?B \<inter> slob_free_units (vmm.heap s) bs = {}"
    "?B \<inter> page_units F = {}"
    using ob by (auto simp: object_held_def unused_def)
  have b: "blk (sunits ?h) (obj - 1) = ?B" using o(1,2) by (auto simp: blk_def)
  have 1: "arena ?h + 1 < obj - 1" and z: "sized (obj - 1) 0 ?h = ?h" using o(1) by (simp_all add: sized_def)
  have i: "slob_inv ?h bs" using hi by (simp add: heap_inv_def)
  from slob_free_ok [OF i 1, of 0, unfolded z b u] o(2,3) obtain h cs where
    f: "slob_free (obj - 1) 0 ?h = Some h" "slob_inv h cs" "arena h = arena ?h" "pmm h = pmm ?h"
    "slob_free_units h cs = slob_free_units (vmm.heap s) bs \<union> ?B" by fastforce
  have "kfree free obj ?h = Some h"
    using ob f(1) find_big.simps [of ?h obj None None] by (auto simp: kfree_def object_held_def)
  then have "krelease free obj s = Some (with_heap h s)" by (simp add: krelease_def)
  moreover have "heap_inv h cs F"
    using f(2,3,5) hi o(4) unfolding heap_inv_def u by fastforce
  moreover have same: "vmem (with_heap h s) = vmem s" using f(4) by simp
  ultimately show ?thesis
    using f(5) ok by (intro exI [of _ h] exI [of _ cs]) (simp add: vm_ok_def same del: with_heap_sel(1))
qed

end

section \<open>Reaping\<close>

lemma procs_ok_distinct: "procs_ok k ps ch i \<Longrightarrow> distinct ps"
  using dlist_distinct [of "proc_links k" ProcList "map ListLink ps"]
  by (simp add: procs_ok_def pids_ok_def proc_list_def distinct_map)

text \<open>A process that has exited leaves the list, the hash table and the family.\<close>

lemma unlink_proc_ok:
  assumes pk: "procs_ok k ps ch i" and p: "p \<in> set ps" "zombie k p" and par: "proc_parent (pcbs k p) = Some par"
  shows "\<exists>k'. remove_links p (unhash_proc p k) = Some k' \<and> procs_ok k' (remove1 p ps) (ch(par := remove1 p (ch par))) i \<and>
    kvm k' = kvm k \<and> sch k' = sch k \<and> (\<forall>x. no_links (pcbs k' x) = no_links (pcbs k x))"
proof -
  let ?I = "idleproc (sch k)" and ?u = "unhash_proc p k" and ?ch = "ch(par := remove1 p (ch par))"
  obtain us ys where uy: "ps = us @ p # ys" using p(1) by (meson split_list)
  have dst: "p \<notin> set (us @ ys)" "remove1 p ps = us @ ys" "set (us @ ys) \<subseteq> set ps" "set (us @ ys) = set ps - {p}"
    using procs_ok_distinct [OF pk] uy by (auto simp: remove1_append)
  note o = pk [unfolded procs_ok_def]
  have kin: "kin_ok k (insert ?I (set ps)) ch (\<lambda>_. None)" and idle: "?I \<notin> set ps" "ch ?I = [i]"
    and chp: "ch p = []" and pi: "p \<noteq> i" using o p by auto
  have u: "kvm ?u = kvm k" "sch ?u = sch k" "pcbs ?u = pcbs k" "proc_links ?u = proc_links k" "nr_process ?u = nr_process k"
    "initproc ?u = initproc k" "next_safe ?u = next_safe k" "last_pid ?u = last_pid k" by (simp_all add: unhash_proc_def)
  have kinu: "kin_ok ?u (insert ?I (set ps)) ch (\<lambda>_. None)" by (rule kin_cong [OF kin]) (simp add: u)
  have "p \<in> insert ?I (set ps)" "proc_parent (pcbs ?u p) = Some par" using p(1) par u by simp_all
  from remove_links_ok [OF kinu this(1) chp this(2)] obtain k' where k': "remove_links p ?u = Some k'"
    "kin_ok k' (insert ?I (set ps) - {p}) ?ch (\<lambda>_. None)" "links_only ?u k'"
    "\<forall>x. proc_parent (pcbs k' x) = proc_parent (pcbs ?u x)" "nr_process k' = nr_process ?u - 1"
    "proc_links k' = list_del (ListLink p) (proc_links ?u)" by blast
  note lo = k'(3) [unfolded links_only_def]
  have pid: "pid_of k' x = pid_of k x" for x using lo no_links_eqD(1) u(3) by metis
  have parI: "par \<noteq> ?I"
  proof
    assume "par = ?I"
    then have "p \<in> set (ch ?I)" using kin_okD(4) [OF kin, of ?I] par p(1) by simp
    then show False using idle(2) pi by simp
  qed
  have "dlist (proc_links k) ProcList (map ListLink us @ ListLink p # map ListLink ys)"
    using o uy by (simp add: pids_ok_def proc_list_def)
  from list_del_dlist [OF this] have "proc_list k' (us @ ys)" using k'(6) u by (simp add: proc_list_def)
  then have "pids_ok k' (us @ ys)"
    using o lo u dst(3) pid unfolding pids_ok_def by (metis subsetD)
  moreover have "hash_ok k' (us @ ys)"
  proof -
    have "hash_ok ?u (us @ ys)" by (rule unhash_proc_ok [OF _ dst(1)]) (use o uy in simp)
    then show ?thesis using lo pid u(3) unfolding hash_ok_def by simp
  qed
  moreover have "inj_on (pid_of k') (set (us @ ys))" using o dst(3) pid by (simp add: inj_on_def) blast
  moreover have "kin_ok k' (insert ?I (set (us @ ys))) ?ch (\<lambda>_. None)"
    using k'(2) idle(1) p(1) dst(4) by (metis insert_Diff_if singletonD)
  moreover have "nr_process k' = int (length (us @ ys)) + 1" using k'(5) o uy u by simp
  moreover have "proc_parent (pcbs k' x) = proc_parent (pcbs k x)" for x using k'(4) u by simp
  moreover have "sch k' = sch k" "initproc k' = initproc k" using lo u by simp_all
  moreover have "i \<in> set (us @ ys)" "?ch ?I = [i]" "?I \<notin> set (us @ ys)" using o dst(4) pi parI idle by auto
  moreover have "zombie k q \<Longrightarrow> q \<in> set (us @ ys) \<Longrightarrow> ?ch q = []" for q using o dst(3) by auto
  ultimately have "procs_ok k' (us @ ys) ?ch i"
    using o dst(3) pid unfolding procs_ok_def by (auto dest: subsetD)
  then show ?thesis using k'(1) lo u dst(2) by auto
qed

context pmm_manager
begin

lemma reap_ok:
  assumes pk: "procs_ok k ps ch i" and p: "p \<in> set ps" "zombie k p" and par: "proc_parent (pcbs k p) = Some par"
    and vm: "vm_ok inv R bs F (kvm k)" and st: "kstack (pcbs k p) = Some pg" "pages_held R bs F (kvm k) pg KSTACKPAGE"
    and ob: "object_held bs F (kvm k) p sizeof_proc_struct"
      "{p - 1..<p + SLOB_UNITS sizeof_proc_struct} \<inter> page_units {pg..<pg + KSTACKPAGE} = {}"
  shows "\<exists>k' cs. reap free p k = Some k' \<and> procs_ok k' (remove1 p ps) (ch(par := remove1 p (ch par))) i \<and> sch k' = sch k \<and>
    vm_ok inv R cs (F \<union> {pg..<pg + KSTACKPAGE}) (kvm k') \<and>
    unused cs (F \<union> {pg..<pg + KSTACKPAGE}) (kvm k') = unused bs F (kvm k) \<union> page_units {pg..<pg + KSTACKPAGE} \<union>
      {p - 1..<p + SLOB_UNITS sizeof_proc_struct}"
proof -
  let ?G = "{pg..<pg + KSTACKPAGE}"
  from unlink_proc_ok [OF pk p par] obtain k1 where k1: "remove_links p (unhash_proc p k) = Some k1"
    "procs_ok k1 (remove1 p ps) (ch(par := remove1 p (ch par))) i" "kvm k1 = kvm k" "sch k1 = sch k"
    "\<forall>x. no_links (pcbs k1 x) = no_links (pcbs k x)" by blast
  have ks: "kstack (pcbs k1 p) = Some pg" using k1(5) st(1) no_links_eqD(2) by metis
  from free_pages_ok [OF vm st(2)] obtain a where a: "free_pages free pg KSTACKPAGE (vmem (kvm k)) = Some ((vmem (kvm k))\<lparr>parea := a\<rparr>)"
    "vm_ok inv R bs (F \<union> ?G) (set_vmem ((vmem (kvm k))\<lparr>parea := a\<rparr>) (kvm k))" by blast
  let ?v = "set_vmem ((vmem (kvm k))\<lparr>parea := a\<rparr>) (kvm k)"
  have "object_held bs (F \<union> ?G) ?v p sizeof_proc_struct"
    using ob unfolding object_held_def unused_def page_units_Un vmm_sel by blast
  from krelease_ok [OF a(2) this] obtain h cs where h: "krelease free p ?v = Some (with_heap h ?v)"
    "vm_ok inv R cs (F \<union> ?G) (with_heap h ?v)"
    "slob_free_units h cs = slob_free_units (vmm.heap ?v) bs \<union> {p - 1..<p + SLOB_UNITS sizeof_proc_struct}" by blast
  let ?k = "k1\<lparr>kvm := with_heap h ?v\<rparr>"
  have "reap free p k = Some ?k"
    using k1(1,3) ks a(1) h(1) by (simp add: reap_def put_kstack_def kfree_proc_def)
  moreover have "procs_ok ?k (remove1 p ps) (ch(par := remove1 p (ch par))) i"
    by (rule procs_ok_cong [OF k1(2)])
      (use k1(2) kin_cong [of k1 _ "ch(par := remove1 p (ch par))" _ ?k] in \<open>simp_all add: procs_ok_def\<close>)
  moreover have "unused cs (F \<union> ?G) (with_heap h ?v) = unused bs F (kvm k) \<union> page_units ?G \<union>
      {p - 1..<p + SLOB_UNITS sizeof_proc_struct}"
    unfolding unused_def page_units_Un with_heap_sel h(3) vmm_sel by blast
  ultimately show ?thesis using h(2) k1(4) by (intro exI [of _ ?k] exI [of _ cs]) simp
qed

end

section \<open>Wait\<close>

text \<open>
  Where the caller may have the exit code stored: a kernel thread in kernel memory, a user process, with the areas
  \<open>vs\<close>, in user memory it may write, byte for byte.
\<close>

definition store_ok :: "kern \<Rightarrow> nat list \<Rightarrow> u64 \<Rightarrow> bool" where
  "store_ok k vs a \<longleftrightarrow> (case proc_mm (pcbs k (cur k)) of
       None \<Rightarrow> KERN_ACCESS a (a + 4)
     | Some mm \<Rightarrow> USER_ACCESS a (a + 4) \<and> (\<forall>x. a \<le> x \<and> x < a + 4 \<longrightarrow> byte_ok (kvm k) vs True x))"

lemma store_check:
  assumes "\<forall>mm. proc_mm (pcbs k (cur k)) = Some mm \<longrightarrow> mm_ok (kvm k) mm vs"
  shows "\<exists>v. (case code_store of None \<Rightarrow> Some (True, kvm k)
      | Some a \<Rightarrow> user_mem_check (proc_mm (pcbs k (cur k))) a 4 True (kvm k)) =
        Some (\<forall>a. code_store = Some a \<longrightarrow> store_ok k vs a, v) \<and> (v = kvm k \<or> (\<exists>mm. cache_only mm (kvm k) v))"
proof (cases code_store)
  case (Some a)
  show ?thesis
  proof (cases "proc_mm (pcbs k (cur k))")
    case None
    then show ?thesis using Some by (simp add: user_mem_check_def store_ok_def)
  next
    case mm: (Some m)
    then have "mm_ok (kvm k) m vs" using assms by simp
    from mem_check_loop_ok [OF this, of a "a + 4" True] show ?thesis
      using Some mm by (cases "USER_ACCESS a (a + 4)") (auto simp: user_mem_check_def store_ok_def)
  qed
qed simp

text \<open>What a process that has exited still holds: its kernel stack and its \<open>proc_struct\<close>.\<close>

definition remains_held :: "nat set \<Rightarrow> nat list \<Rightarrow> nat set \<Rightarrow> kern \<Rightarrow> nat \<Rightarrow> nat \<Rightarrow> bool" where
  "remains_held R bs F k p pg \<longleftrightarrow> kstack (pcbs k p) = Some pg \<and> pages_held R bs F (kvm k) pg KSTACKPAGE \<and>
     object_held bs F (kvm k) p sizeof_proc_struct \<and>
     {p - 1..<p + SLOB_UNITS sizeof_proc_struct} \<inter> page_units {pg..<pg + KSTACKPAGE} = {}"

locale processes = scheduler sc P rep + pmm_manager alloc free nr_free_pages inv
  for sc :: sched_class and P :: "nat set" and rep :: "sched \<Rightarrow> nat set \<Rightarrow> bool"
    and alloc :: "nat \<Rightarrow> free_area \<Rightarrow> (nat option \<times> free_area) option"
    and free :: "nat \<Rightarrow> nat \<Rightarrow> free_area \<Rightarrow> free_area option"
    and nr_free_pages :: "free_area \<Rightarrow> nat"
    and inv :: "free_area \<Rightarrow> nat set \<Rightarrow> bool"
begin

lemma wait_repeat_reaps_ok:
  assumes pk: "procs_ok k ps ch i" and c: "cur k \<in> insert (idleproc (sch k)) (set ps)" and vm: "vm_ok inv R bs F (kvm k)"
    and f: "find (zombie k) (waited_for n k (ch (cur k))) = Some p" and r: "remains_held R bs F k p pg"
  shows "\<exists>k' cs. wait_repeat sc free n code_store k =
      Some (Waited 0 (map_option (\<lambda>a. (a, exit_code (pcbs k p))) code_store), k') \<and>
    procs_ok k' (remove1 p ps) (ch(cur k := remove1 p (ch (cur k)))) i \<and> sch k' = sch k \<and>
    vm_ok inv R cs (F \<union> {pg..<pg + KSTACKPAGE}) (kvm k') \<and>
    unused cs (F \<union> {pg..<pg + KSTACKPAGE}) (kvm k') = unused bs F (kvm k) \<union> page_units {pg..<pg + KSTACKPAGE} \<union>
      {p - 1..<p + SLOB_UNITS sizeof_proc_struct}"
proof -
  let ?I = "idleproc (sch k)"
  have kin: "kin_ok k (insert ?I (set ps)) ch (\<lambda>_. None)" and i: "state (procs (sch k) i) \<noteq> PROC_ZOMBIE"
    and ini: "initproc k = Some i" and idle: "?I \<notin> set ps" "proc_parent (pcbs k ?I) = None"
    using pk by (simp_all add: procs_ok_def)
  have p: "zombie k p" "p \<in> set (ch (cur k))" using f by (auto simp: find_Some_iff waited_for_def split: if_splits)
      (metis filter_is_subset nth_mem subsetD)
  have pp: "p \<in> set ps" "proc_parent (pcbs k p) = Some (cur k)" using kin_okD(4) [OF kin c] p(2) idle by auto
  have ne: "p \<noteq> ?I" "Some p \<noteq> initproc k" using pp(1) idle(1) p(1) i ini by auto
  note ws = wait_search_ok [OF pk c, of n, unfolded f]
  from r have st: "kstack (pcbs k p) = Some pg" "pages_held R bs F (kvm k) pg KSTACKPAGE"
    "object_held bs F (kvm k) p sizeof_proc_struct"
    "{p - 1..<p + SLOB_UNITS sizeof_proc_struct} \<inter> page_units {pg..<pg + KSTACKPAGE} = {}"
    by (simp_all add: remains_held_def)
  from reap_ok [OF pk pp(1) p(1) pp(2) vm st] obtain k' cs where k': "reap free p k = Some k'"
    "procs_ok k' (remove1 p ps) (ch(cur k := remove1 p (ch (cur k)))) i" "sch k' = sch k"
    "vm_ok inv R cs (F \<union> {pg..<pg + KSTACKPAGE}) (kvm k')"
    "unused cs (F \<union> {pg..<pg + KSTACKPAGE}) (kvm k') = unused bs F (kvm k) \<union> page_units {pg..<pg + KSTACKPAGE} \<union>
      {p - 1..<p + SLOB_UNITS sizeof_proc_struct}" by blast
  have "wait_repeat sc free n code_store k =
      Some (Waited 0 (map_option (\<lambda>a. (a, exit_code (pcbs k p))) code_store), k')"
    using ws ne k'(1) by (cases code_store) (simp_all add: wait_repeat_def Let_def)
  then show ?thesis using k'(2-5) by blast
qed

lemma do_wait_reaps_ok:
  assumes pk: "procs_ok k ps ch i" and c: "cur k \<in> insert (idleproc (sch k)) (set ps)" and vm: "vm_ok inv R bs F (kvm k)"
    and mm: "\<forall>mm. proc_mm (pcbs k (cur k)) = Some mm \<longrightarrow> mm_ok (kvm k) mm vs"
    and f: "find (zombie k) (waited_for n k (ch (cur k))) = Some p" and r: "remains_held R bs F k p pg"
  shows "if \<forall>a. code_store = Some a \<longrightarrow> store_ok k vs a
    then \<exists>k' cs. do_wait sc free n code_store k =
        Some (Waited 0 (map_option (\<lambda>a. (a, exit_code (pcbs k p))) code_store), k') \<and>
      procs_ok k' (remove1 p ps) (ch(cur k := remove1 p (ch (cur k)))) i \<and> sch k' = sch k \<and>
      vm_ok inv R cs (F \<union> {pg..<pg + KSTACKPAGE}) (kvm k') \<and>
      unused cs (F \<union> {pg..<pg + KSTACKPAGE}) (kvm k') = unused bs F (kvm k) \<union> page_units {pg..<pg + KSTACKPAGE} \<union>
        {p - 1..<p + SLOB_UNITS sizeof_proc_struct}
    else \<exists>v. do_wait sc free n code_store k = Some (Waited (- E_INVAL) None, k\<lparr>kvm := v\<rparr>) \<and>
      (v = kvm k \<or> (\<exists>mm. cache_only mm (kvm k) v))"
proof -
  obtain v where v: "(case code_store of None \<Rightarrow> Some (True, kvm k)
      | Some a \<Rightarrow> user_mem_check (proc_mm (pcbs k (cur k))) a 4 True (kvm k)) =
        Some (\<forall>a. code_store = Some a \<longrightarrow> store_ok k vs a, v)"
    and co: "v = kvm k \<or> (\<exists>mm. cache_only mm (kvm k) v)"
    using store_check [OF mm, of code_store] by blast
  have same: "vmem v = vmem (kvm k)" "vmm.heap v = vmm.heap (kvm k)" using co cache_only_sel by auto
  let ?k = "k\<lparr>kvm := v\<rparr>"
  show ?thesis
  proof (cases "\<forall>a. code_store = Some a \<longrightarrow> store_ok k vs a")
    case False
    then have "do_wait sc free n code_store k = Some (Waited (- E_INVAL) None, ?k)"
      using v by (simp add: do_wait_def)
    then show ?thesis using False co by (simp only: if_False) blast
  next
    case True
    then have run: "do_wait sc free n code_store k = wait_repeat sc free n code_store ?k" using v by (simp add: do_wait_def)
    have 1: "procs_ok ?k ps ch i"
      by (rule procs_ok_cong [OF pk]) (use pk kin_cong [of k _ ch _ ?k] in \<open>simp_all add: procs_ok_def\<close>)
    have 2: "vm_ok inv R bs F (kvm ?k)" by (rule vm_ok_cong [OF vm]) (simp_all add: same)
    have cur: "cur ?k = cur k" by (simp add: cur_def)
    have 3: "cur ?k \<in> insert (idleproc (sch ?k)) (set ps)" using c cur by simp
    have w: "waited_for n ?k cs = waited_for n k cs" for cs by (simp add: waited_for_def)
    have 4: "find (zombie ?k) (waited_for n ?k (ch (cur ?k))) = Some p" unfolding w cur using f by simp
    have un: "unused bs F v = unused bs F (kvm k)" by (rule unused_cong) (simp add: same)
    have 5: "remains_held R bs F ?k p pg"
      using r by (simp add: remains_held_def pages_held_def object_held_def same un)
    from wait_repeat_reaps_ok [OF 1 3 2 4 5, of code_store] show ?thesis
      using True run cur un by simp
  qed
qed

end

context scheduler
begin

lemma do_wait_sleeps_ok:
  assumes pk: "procs_ok k ps ch i" and okk: "ok (sch k)" and c: "cur k \<in> set ps"
    and none: "find (zombie k) (waited_for n k (ch (cur k))) = None"
  shows "if waited_for n k (ch (cur k)) = [] then do_wait sc free n None k = Some (Waited (- E_BAD_PROC) None, k)
    else \<exists>k'. do_wait sc free n None k = Some (Waiting, k') \<and> procs_ok k' ps ch i \<and> ok (sch k') \<and> cur k' \<noteq> cur k \<and>
      state (procs (sch k') (cur k)) = PROC_SLEEPING \<and> wait_state (procs (sch k') (cur k)) = WT_CHILD \<and>
      (\<forall>q. q \<noteq> cur k \<longrightarrow> state (procs (sch k') q) = state (procs (sch k) q))"
proof -
  let ?I = "idleproc (sch k)" and ?u = "upd_cur (\<lambda>q. q\<lparr>state := PROC_SLEEPING, wait_state := WT_CHILD\<rparr>) k"
  have c': "cur k \<in> insert ?I (set ps)" using c by simp
  note ws = wait_search_ok [OF pk c', of n, unfolded none]
  have idle: "?I \<notin> set ps" using pk by (simp add: procs_ok_def)
  have u: "cur ?u = cur k" "sch ?u = upd_proc (cur k) (\<lambda>q. q\<lparr>state := PROC_SLEEPING, wait_state := WT_CHILD\<rparr>) (sch k)"
    by (simp_all add: upd_cur_def cur_def)
  have "ok (sch ?u)" by (rule upd_cur_ok [OF okk]) simp
  moreover have "state (procs (sch ?u) (cur ?u)) \<noteq> PROC_RUNNABLE" "cur ?u \<noteq> idleproc (sch ?u)"
    using u c idle by (auto simp: cur_def)
  ultimately obtain k' s t where k': "schedule_run sc ?u = Some k'" "ok (sch k')" "cur k' \<noteq> cur k" "idleproc (sch k') = ?I"
    "\<forall>q. state (procs (sch k') q) = state (procs (sch ?u) q)" "\<forall>q. wait_state (procs (sch k') q) = wait_state (procs (sch ?u) q)"
    "k' = ?u\<lparr>sch := s, satp := t\<rparr>"
    using schedule_run_ok [of ?u] u by auto
  have pc: "pcbs k' = pcbs k" using k'(7) by (simp add: upd_cur_def)
  have "procs_ok k' ps ch i"
  proof (rule procs_ok_cong [OF pk])
    show "proc_links k' = proc_links k" "last_pid k' = last_pid k" "next_safe k' = next_safe k" "hash_links k' = hash_links k"
      "nr_process k' = nr_process k" "initproc k' = initproc k" using k'(7) by (simp_all add: upd_cur_def)
  qed (use pk k'(4,5) u pc kin_cong [of k _ ch _ k'] in \<open>auto simp: procs_ok_def\<close>)
  then show ?thesis using ws k' u by (auto simp: do_wait_def wait_repeat_def Let_def)
qed

end

end
