(* ===== verification/ProcFork.thy ===== *)
theory ProcFork
  imports ProcLife
begin

text \<open>
  \<open>do_fork\<close>: what the allocations take, the new address space, and the new process in the list, the hash table
  and the family.
\<close>

unbundle bit_operations_syntax

section \<open>Allocations\<close>

lemma kalloc_big: "kalloc al n s = Some (r, with_heap h s) \<Longrightarrow> n < 4064 \<Longrightarrow> bigblocks h = bigblocks (vmm.heap s)"
  unfolding kalloc_def
  by (auto simp: bind_eq_Some_conv same_big_def dest!: kmalloc_small_big arg_cong [of "with_heap _ s" _ vmm.heap])

lemma SLOB_UNITS_proc: "SLOB_UNITS sizeof_proc_struct = 21" "1 \<le> sizeof_proc_struct" "sizeof_proc_struct < 4064"
  by (simp_all add: SLOB_UNITS_def SLOB_UNIT_def sizeof_proc_struct_def)

text \<open>The fields \<open>alloc_proc\<close> sets.\<close>

definition blank_proc :: "proc_struct \<Rightarrow> proc_struct" where
  "blank_proc q = q\<lparr>state := PROC_UNINIT, runs := 0, need_resched := False, wait_state := 0\<rparr>"

definition blank_pcb :: "nat \<Rightarrow> pcb \<Rightarrow> pcb" where
  "blank_pcb rt q = q\<lparr>pid := - 1, kstack := None, proc_parent := None, proc_mm := None,
     ctx := \<lparr>ctx_ra = 0, ctx_sp = 0, ctx_s = (\<lambda>_. 0)\<rparr>, tf := None, cr3 := rt, proc_flags := 0,
     proc_name := (\<lambda>_. 0), cptr := None, optr := None, yptr := None\<rparr>"

text \<open>
  The memory that is not in use: no process lies in it, and what a future \<open>proc_struct\<close> there holds by chance is
  a priority (the scheduler divides by it) and no runnable state (only the invariant of the queue reads it).
\<close>

definition spare_ok :: "nat set \<Rightarrow> nat list \<Rightarrow> nat set \<Rightarrow> kern \<Rightarrow> nat set \<Rightarrow> bool" where
  "spare_ok P bs F k S \<longleftrightarrow> unused bs F (kvm k) \<subseteq> P \<and> S \<inter> unused bs F (kvm k) = {} \<and>
     bigblocks (vmm.heap (kvm k)) = None \<and> (\<forall>x \<in> unused bs F (kvm k). state (procs (sch k) x) \<noteq> PROC_RUNNABLE)"

lemma spare_ok_mono:
  assumes "spare_ok P bs F k S" and "unused cs G (kvm k') \<subseteq> unused bs F (kvm k)"
    and "bigblocks (vmm.heap (kvm k')) = bigblocks (vmm.heap (kvm k))" and "S' \<inter> unused cs G (kvm k') = {}"
    and "\<And>x. x \<in> unused cs G (kvm k') \<Longrightarrow> state (procs (sch k') x) = state (procs (sch k) x)"
  shows "spare_ok P cs G k' S'"
  using assms unfolding spare_ok_def by (metis (no_types, lifting) subset_iff)

context processes
begin

lemma blank_ok:
  assumes "ok s" and "state (procs s p) \<noteq> PROC_RUNNABLE"
  shows "ok (upd_proc p blank_proc s)"
proof -
  have "ready (upd_proc p blank_proc s) = ready s" using assms(2) by (auto simp: ready_def blank_proc_def)
  moreover have "same_queue s (upd_proc p blank_proc s)" by (simp add: same_queue_def blank_proc_def)
  ultimately show ?thesis using assms(1) rep_cong [of s "ready s" "upd_proc p blank_proc s"] by (simp add: ok_def)
qed

lemma alloc_proc_ok:
  assumes vm: "vm_ok inv R bs F (kvm k)" and F: "F \<noteq> {}" and okk: "ok (sch k)" and sp: "spare_ok P bs F k S"
  shows "\<exists>p h cs G k'. alloc_proc alloc k = Some (Some p, k') \<and>
    k' = upd_pcb p (blank_pcb (boot_pgdir k)) (k\<lparr>kvm := with_heap h (kvm k), sch := upd_proc p blank_proc (sch k)\<rparr>) \<and>
    vm_ok inv R cs G (kvm k') \<and> ok (sch k') \<and> G \<subseteq> F \<and> card F \<le> card G + 1 \<and> p \<in> P \<and> p \<notin> S \<and>
    unused cs G (kvm k') \<subseteq> unused bs F (kvm k) \<and> spare_ok P cs G k' (insert p S) \<and>
    object_held cs G (kvm k') p sizeof_proc_struct"
proof -
  from kalloc_ok [OF vm SLOB_UNITS_proc(2,3)] obtain r h cs G where a: "kalloc alloc sizeof_proc_struct (kvm k) = Some (r, with_heap h (kvm k))"
    "vm_ok inv R cs G (with_heap h (kvm k))" "G \<subseteq> F" "card F \<le> card G + 1" "r = None \<longrightarrow> F = {}"
    "unused cs G (with_heap h (kvm k)) \<subseteq> unused bs F (kvm k)"
    "\<forall>a. r = Some a \<longrightarrow> a \<in> unused bs F (kvm k) \<and> a \<notin> unused cs G (with_heap h (kvm k))"
    "\<forall>a. r = Some a \<longrightarrow> arena h + 2 < a \<and> sunits h (a - 1) = SLOB_UNITS sizeof_proc_struct + 1 \<and>
       {a - 1..<a + SLOB_UNITS sizeof_proc_struct} \<subseteq> unused bs F (kvm k) \<and>
       {a - 1..<a + SLOB_UNITS sizeof_proc_struct} \<inter> unused cs G (with_heap h (kvm k)) = {}" by blast
  from a(5) F obtain p where r: "r = Some p" by blast
  have p: "p \<in> unused bs F (kvm k)" "p \<notin> unused cs G (with_heap h (kvm k))" using a(7) r by blast+
  have big: "bigblocks h = None" using kalloc_big [OF a(1) SLOB_UNITS_proc(3)] sp by (simp add: spare_ok_def)
  define k' where "k' = upd_pcb p (blank_pcb (boot_pgdir k)) (k\<lparr>kvm := with_heap h (kvm k), sch := upd_proc p blank_proc (sch k)\<rparr>)"
  have k': "kvm k' = with_heap h (kvm k)" "sch k' = upd_proc p blank_proc (sch k)" by (simp_all add: k'_def)
  have run: "alloc_proc alloc k = Some (Some p, k')"
    using a(1) r by (simp add: alloc_proc_def Let_def k'_def upd_pcb_def upd_proc_def blank_proc_def blank_pcb_def)
  have np: "state (procs (sch k) p) \<noteq> PROC_RUNNABLE" "p \<in> P" "p \<notin> S" using sp p(1) by (auto simp: spare_ok_def)
  have "spare_ok P cs G k' (insert p S)"
  proof (rule spare_ok_mono [OF sp])
    show "insert p S \<inter> unused cs G (kvm k') = {}" using p(2) a(6) sp unfolding k'(1) spare_ok_def by blast
    show "bigblocks (vmm.heap (kvm k')) = bigblocks (vmm.heap (kvm k))" using big sp k' by (simp add: spare_ok_def)
    show "state (procs (sch k') x) = state (procs (sch k) x)" if "x \<in> unused cs G (kvm k')" for x
      using that p(2) unfolding k' by auto
  qed (use a(6) k' in simp)
  moreover have "object_held cs G (kvm k') p sizeof_proc_struct"
    using a(8) r big unfolding object_held_def k'(1) with_heap_sel by blast
  moreover have "ok (sch k')" unfolding k'(2) by (rule blank_ok [OF okk np(1)])
  ultimately show ?thesis
    using run a(2-4,6) np(2,3) unfolding k'(1) [symmetric]
    by (intro exI [of _ p] exI [of _ h] exI [of _ cs] exI [of _ G] exI [of _ k']) (simp add: k'_def)
qed

text \<open>A block of \<open>n\<close> pages that is handed out, or nothing changes as no \<open>n\<close> adjacent frames are free.\<close>

lemma alloc_block_ok:
  assumes vm: "vm_ok inv R bs F s" and n: "1 < n"
  shows "alloc_pages alloc n (vmem s) = Some (None, vmem s) \<and> (\<forall>q. \<not> {q..<q + n} \<subseteq> F) \<or>
    (\<exists>pg a. alloc_pages alloc n (vmem s) = Some (Some pg, (vmem s)\<lparr>parea := a\<rparr>) \<and> {pg..<pg + n} \<subseteq> F \<and>
      (\<forall>q \<in> {pg..<pg + n}. page_clean (pages a q)) \<and>
      vm_ok inv R bs (F - {pg..<pg + n}) (set_vmem ((vmem s)\<lparr>parea := a\<rparr>) s))"
proof -
  let ?m = "vmem s"
  have sp: "space_ok inv (\<lambda>_. 0) R F ?m" and hi: "heap_inv (vmm.heap s) bs F" using vm by (simp_all add: vm_ok_def)
  note o = sp [unfolded space_ok_def]
  have i: "inv (parea ?m) F" using o by simp
  have "0 < n" using n by simp
  from alloc_returns [OF i this] obtain r a where a: "alloc n (parea ?m) = Some (r, a)" by blast
  show ?thesis
  proof (cases r)
    case None
    then have "a = parea ?m" using a alloc_null by blast
    moreover have "\<not> {q..<q + n} \<subseteq> F" for q using alloc_fits [OF i _ a] None by blast
    ultimately show ?thesis using a None n by (simp add: alloc_pages_def)
  next
    case (Some pg)
    let ?G = "{pg..<pg + n}" and ?t = "?m\<lparr>parea := a\<rparr>"
    note a' = a [unfolded Some]
    have s: "?G \<subseteq> F" "inv a (F - ?G)" using alloc_some [OF i a'] by simp_all
    have c: "\<forall>q \<in> ?G. page_clean (pages a q)" "\<forall>q. q \<notin> F \<longrightarrow> pages a q = pages (parea ?m) q" using alloc_clean [OF i a'] by simp_all
    have rf: "page_ref q ?t = page_ref q ?m" for q using alloc_ref [OF a'] by (simp add: page_ref_def)
    have apart: "q \<notin> F" if "q \<in> data (words ?m) R \<union> kids (words ?m) R" for q using o that by blast
    have "space_ok inv (\<lambda>_. 0) R (F - ?G) ?t"
      unfolding space_ok_def
    proof (intro conjI)
      show "inv (parea ?t) (F - ?G)" using s(2) by simp
      show "tree_ok (words ?t) R" using o by simp
      show "\<forall>q \<in> F - ?G. q < npage - nbase \<and> page_ref q ?t = 0" using o unfolding rf by blast
      show "(R \<union> kids (words ?t) R) \<inter> (F - ?G) = {}" using o by auto
      show "data (words ?t) R \<inter> (R \<union> kids (words ?t) R \<union> (F - ?G)) = {}" using o by auto
      show "\<forall>r \<in> R. \<forall>v < UPAGES. pte_valid (pte (words ?t) r v) \<longrightarrow> frame_ok (pte (words ?t) r v)" using o by simp
      show "\<forall>p \<in> data (words ?t) R \<union> {p. (0::int) \<noteq> 0}. page_ref p ?t = int (card (mapped (words ?t) R p)) + 0"
        using o unfolding rf by simp
      show "\<forall>p \<in> data (words ?t) R \<union> kids (words ?t) R. page_clean (pages (parea ?t) p)"
        using o c(2) apart by simp
    qed
    moreover have "heap_inv (vmm.heap s) bs (F - ?G)" by (rule heap_inv_mono [OF hi]) blast
    ultimately have "vm_ok inv R bs (F - ?G) (set_vmem ?t s)" by (simp add: vm_ok_def)
    then show ?thesis using a' s(1) c(1) by (intro disjI2 exI [of _ pg] exI [of _ a]) (simp add: alloc_pages_def)
  qed
qed

end

section \<open>A new member of the family\<close>

lemma procs_ok_local:
  assumes pk: "procs_ok k ps ch i" and "proc_links k' = proc_links k" and "last_pid k' = last_pid k" and "next_safe k' = next_safe k"
    and "hash_links k' = hash_links k" and "nr_process k' = nr_process k" and "initproc k' = initproc k"
    and "idleproc (sch k') = idleproc (sch k)" and p: "\<And>x. x \<in> insert (idleproc (sch k)) (set ps) \<Longrightarrow> pcbs k' x = pcbs k x"
    and st: "\<And>x. x \<in> set ps \<Longrightarrow> state (procs (sch k') x) = state (procs (sch k) x)"
  shows "procs_ok k' ps ch i"
proof -
  note o = pk [unfolded procs_ok_def]
  have "kin_ok k' (insert (idleproc (sch k)) (set ps)) ch (\<lambda>_. None)"
    by (rule kin_cong [of k]) (use o p in auto)
  moreover have "pids_ok k' ps" "inj_on (pid_of k') (set ps)"
    using o assms(2-4) p by (auto simp: pids_ok_def proc_list_def inj_on_def)
  moreover have "hash_ok k' ps"
  proof -
    have "{q \<in> set ps. pid_hashfn (pid_of k' q) = b} = {q \<in> set ps. pid_hashfn (pid_of k q) = b}" for b using p by auto
    then show ?thesis using o assms(5) unfolding hash_ok_def by simp
  qed
  ultimately show ?thesis using o assms(6-8) p st unfolding procs_ok_def by simp
qed

lemma enlist_ok:
  assumes pk: "procs_ok k ps ch i" and c: "c \<in> set ps" "\<not> zombie k c" and p: "p \<notin> insert (idleproc (sch k)) (set ps)"
    and par: "proc_parent (pcbs k p) = Some c" and cp: "cptr (pcbs k p) = None" and len: "int (length ps) < MAX_PID - 1"
  shows "\<exists>n k1 k2. get_pid k = Some (n, k1) \<and> set_links p (hash_proc p (upd_pcb p (\<lambda>q. q\<lparr>pid := n\<rparr>) k1)) = Some k2 \<and>
    procs_ok k2 (p # ps) (ch(c := p # ch c, p := [])) i \<and> pid_of k2 p = n \<and> 1 \<le> n \<and> n \<notin> pid_of k ` set ps \<and>
    kvm k2 = kvm k \<and> sch k2 = sch k \<and> boot_pgdir k2 = boot_pgdir k \<and> satp k2 = satp k \<and>
    (\<forall>x. no_links (pcbs k2 x) = no_links (if x = p then (pcbs k p)\<lparr>pid := n\<rparr> else pcbs k x))"
proof -
  let ?I = "idleproc (sch k)" and ?ch = "ch(c := p # ch c, p := [])"
  note o = pk [unfolded procs_ok_def]
  have kin: "kin_ok k (insert ?I (set ps)) ch (\<lambda>_. None)" and idle: "?I \<notin> set ps" "ch ?I = [i]" using o by blast+
  obtain n m where g: "get_pid k = Some (n, set_pids n m k)" "1 \<le> n" "n < MAX_PID" "m \<le> MAX_PID" "\<forall>q \<in> set ps. pid_of k q \<noteq> n"
    "\<forall>q \<in> set ps. \<not> (n < pid_of k q \<and> pid_of k q < m)" using get_pid_ok [OF _ len] o by blast
  define u where "u = upd_pcb p (\<lambda>q. q\<lparr>pid := n\<rparr>) (set_pids n m k)"
  have up: "pcbs u = (pcbs k)(p := (pcbs k p)\<lparr>pid := n\<rparr>)" by (simp add: u_def)
  have same: "pcbs u x = pcbs k x" if "x \<in> insert ?I (set ps)" for x using that p up by auto
  have hu: "hash_ok u ps"
  proof -
    have "{q \<in> set ps. pid_hashfn (pid_of u q) = b} = {q \<in> set ps. pid_hashfn (pid_of k q) = b}" for b using same by auto
    moreover have "hash_links u = hash_links k" by (simp add: u_def)
    ultimately show ?thesis using o unfolding hash_ok_def by simp
  qed
  let ?h = "hash_proc p u"
  have hp: "pcbs ?h = pcbs u" "kvm ?h = kvm k" "sch ?h = sch k" "proc_links ?h = proc_links k" "nr_process ?h = nr_process k"
    "initproc ?h = initproc k" "next_safe ?h = m" "last_pid ?h = n" "boot_pgdir ?h = boot_pgdir k" "satp ?h = satp k"
    by (simp_all add: hash_proc_def u_def)
  have kh: "kin_ok ?h (insert ?I (set ps)) ch (\<lambda>_. None)" by (rule kin_cong [OF kin]) (simp add: hp(1) same)
  have "c \<in> insert ?I (set ps)" "proc_parent (pcbs ?h p) = Some c" "cptr (pcbs ?h p) = None"
    using c par cp by (simp_all add: hp(1) up)
  from set_links_ok [OF kh this(1,2) p this(3)] obtain k2 where k2: "set_links p ?h = Some k2"
    "kin_ok k2 (insert p (insert ?I (set ps))) ?ch (\<lambda>_. None)" "links_only ?h k2"
    "\<forall>x. proc_parent (pcbs k2 x) = proc_parent (pcbs ?h x)" "nr_process k2 = nr_process ?h + 1"
    "proc_links k2 = list_add ProcList (ListLink p) (proc_links ?h)" by blast
  note lo = k2(3) [unfolded links_only_def]
  have pidh: "pid_of k2 x = pid_of ?h x" for x using lo no_links_eqD(1) by blast
  then have pid: "pid_of k2 x = (if x = p then n else pid_of k x)" for x by (simp add: hp(1) up)
  have dl: "dlist (proc_links k2) ProcList (map ListLink (p # ps))"
  proof -
    have "dlist (proc_links k) ProcList (map ListLink ps)" using o by (simp add: pids_ok_def proc_list_def)
    moreover have "ListLink p \<notin> set (ProcList # map ListLink ps)" using p by auto
    ultimately show ?thesis unfolding k2(6) hp(4) using list_add_dlist by fastforce
  qed
  have stat: "last_pid k2 = n" "next_safe k2 = m" "initproc k2 = initproc k" "sch k2 = sch k" "nr_process k2 = nr_process k + 1"
    using lo hp k2(5) by simp_all
  have pin: "q \<noteq> p" if "q \<in> set ps" for q using that p by auto
  have 1: "pids_ok k2 (p # ps)"
    unfolding pids_ok_def proc_list_def stat using dl g(2-4,6) pid pin by simp
  have 2: "hash_ok k2 (p # ps)"
  proof -
    have "hash_ok ?h (p # ps)" by (rule hash_proc_ok [OF hu]) (use p in simp)
    then show ?thesis using lo pidh unfolding hash_ok_def by simp
  qed
  have 3: "inj_on (pid_of k2) (set (p # ps))"
  proof -
    have "inj_on (pid_of k2) (set ps)" using o pin pid by (simp add: inj_on_def)
    then show ?thesis using g(5) pid pin by auto
  qed
  have 4: "\<forall>q \<in> set (p # ps). 1 \<le> pid_of k2 q \<and> pid_of k2 q < MAX_PID" using o g(2,3) pid by simp
  have 5: "kin_ok k2 (insert ?I (set (p # ps))) ?ch (\<lambda>_. None)" using k2(2) by (simp add: insert_commute)
  have pr: "proc_parent (pcbs k2 x) = (if x = p then Some c else proc_parent (pcbs k x))" for x
    using k2(4) hp(1) up par by simp
  have ne: "?ch ?I = [i]" "p \<noteq> c" "p \<noteq> i" "p \<noteq> ?I" "?I \<notin> set (p # ps)" "i \<in> set (p # ps)" using idle c p o by auto
  have 6: "proc_parent (pcbs k2 q) \<noteq> None \<and> proc_parent (pcbs k2 q) \<noteq> Some q \<and> (zombie k2 q \<longrightarrow> ?ch q = [])"
    if "q \<in> set (p # ps)" for q
  proof (cases "q = p")
    case True
    then show ?thesis using pr ne(2) by simp
  next
    case False
    then have q: "q \<in> set ps" using that by simp
    then have "proc_parent (pcbs k q) \<noteq> None \<and> proc_parent (pcbs k q) \<noteq> Some q \<and> (zombie k q \<longrightarrow> ch q = [])" using o by blast
    then show ?thesis using False c(2) pr [of q] unfolding stat by auto
  qed
  have 7: "nr_process k2 = int (length (p # ps)) + 1" using stat(5) o by simp
  have 8: "proc_parent (pcbs k2 ?I) = None" "initproc k2 = Some i" "\<not> zombie k2 i"
    using pr [of ?I] ne(4) o unfolding stat by auto
  have "procs_ok k2 (p # ps) ?ch i"
    unfolding procs_ok_def stat(4) by (intro conjI 1 2 3 4 7 ne(5) ne(6) ne(1) 8 [unfolded stat(4)] 5 ballI 6 [unfolded stat(4)])
  moreover have "set_links p (hash_proc p (upd_pcb p (\<lambda>q. q\<lparr>pid := n\<rparr>) (set_pids n m k))) = Some k2"
    using k2(1) by (simp add: u_def)
  moreover have "\<forall>x. no_links (pcbs k2 x) = no_links (if x = p then (pcbs k p)\<lparr>pid := n\<rparr> else pcbs k x)"
    using lo hp(1) up by simp
  moreover have "n \<notin> pid_of k ` set ps" using g(5) by auto
  ultimately show ?thesis using g(1,2) lo hp pid by (intro exI [of _ n] exI [of _ "set_pids n m k"] exI [of _ k2]) simp
qed

section \<open>A new address space\<close>

context pmm_manager
begin

text \<open>A frame becomes the root of an empty address space.\<close>

lemma new_root:
  assumes ok: "space_ok inv ex R F m" and p: "pg \<notin> R \<union> kids (words m) R \<union> data (words m) R \<union> F"
    and c: "\<forall>i < 2. \<not> pte_valid (c i)"
  shows "space_ok inv ex (insert pg R) F (set_frame pg c m)"
    "\<And>r v. r \<in> R \<Longrightarrow> v < UPAGES \<Longrightarrow> pte (words (set_frame pg c m)) r v = pte (words m) r v"
    "\<And>v. v < UPAGES \<Longrightarrow> pte (words (set_frame pg c m)) pg v = 0"
    "kids (words (set_frame pg c m)) (insert pg R) = kids (words m) R"
    "data (words (set_frame pg c m)) (insert pg R) = data (words m) R"
proof -
  let ?m = "set_frame pg c m" and ?w = "words (set_frame pg c m)" and ?R = "insert pg R"
  have "pg \<notin> R \<union> kids (words m) R" using p by blast
  note fr = space_ok_frame [OF ok this, where c = c]
  note o = fr(1) [unfolded space_ok_def]
  have none: "child ?w (pg, i) = None" if "i < 2" for i using c that by (simp add: child_def)
  have dirs: "dirs ?w ?R = dirs ?w R" using none by (auto simp: dirs_def)
  have slots: "slots ?w ?R = slots ?w R \<union> {pg} \<times> {..<2}" unfolding slots_def dirs by blast
  have kids: "kids ?w ?R = kids ?w R" unfolding kids_def slots using none by auto
  show pg0: "pte ?w pg v = 0" if "v < UPAGES" for v
    using none [OF user_index [OF that]] by (simp add: pte_def leaf_def)
  have map: "mapped ?w ?R q = mapped ?w R q" for q
    using pg0 by (auto simp: mapped_def)
  have data: "data ?w ?R = data ?w R" unfolding data_def map ..
  show k: "kids ?w ?R = kids (words m) R" using kids fr(4) by simp
  show p1: "\<And>r v. r \<in> R \<Longrightarrow> v < UPAGES \<Longrightarrow> pte ?w r v = pte (words m) r v" by (rule fr(2))
  have d0: "data ?w R = data (words m) R" by (rule data_pte_cong) (rule fr(2))
  then show d: "data ?w ?R = data (words m) R" using data by simp
  have tree: "tree_ok ?w ?R"
    unfolding tree_ok_def
  proof (intro conjI ballI impI)
    show "finite ?R" using o by (simp add: tree_ok_def)
    have t: "R \<inter> kids ?w R = {}" "\<forall>s \<in> slots ?w R. pte_valid (?w (fst s) (snd s)) \<longrightarrow> frame_ok (?w (fst s) (snd s))"
      using o unfolding tree_ok_def by blast+
    have "pg \<notin> kids ?w R" using p fr(4) by simp
    then show "?R \<inter> kids ?w ?R = {}" using t(1) unfolding kids by blast
    show "frame_ok (?w (fst s) (snd s))" if "s \<in> slots ?w ?R" "pte_valid (?w (fst s) (snd s))" for s
    proof (cases "s \<in> slots ?w R")
      case True
      then show ?thesis using that(2) t(2) by blast
    next
      case False
      then have "fst s = pg" "snd s < 2" using that(1) unfolding slots by auto
      then show ?thesis using that(2) c by simp
    qed
    show "s = t" if "s \<in> slots ?w ?R" "t \<in> slots ?w ?R" "child ?w s = child ?w t" "child ?w s \<noteq> None" for s t
    proof -
      have "s \<in> slots ?w R" "t \<in> slots ?w R" using that none unfolding slots by auto
      moreover have "tree_ok ?w R" using o by blast
      ultimately show ?thesis using that(3,4) slot_inj by (metis option.exhaust)
    qed
  qed
  show "space_ok inv ex ?R F ?m"
    unfolding space_ok_def
  proof (intro conjI)
    show "inv (parea ?m) F" "tree_ok ?w ?R" "\<forall>q \<in> F. q < npage - nbase \<and> page_ref q ?m = 0" using o tree by blast+
    show "(?R \<union> kids ?w ?R) \<inter> F = {}" using o p unfolding kids by blast
    show "data ?w ?R \<inter> (?R \<union> kids ?w ?R \<union> F) = {}" using o p unfolding kids data d0 by blast
    show "\<forall>r \<in> ?R. \<forall>v < UPAGES. pte_valid (pte ?w r v) \<longrightarrow> frame_ok (pte ?w r v)" using o pg0 by simp
    show "\<forall>q \<in> data ?w ?R \<union> {q. ex q \<noteq> 0}. page_ref q ?m = int (card (mapped ?w ?R q)) + ex q"
      using o unfolding data map by blast
    show "\<forall>q \<in> data ?w ?R \<union> kids ?w ?R. page_clean (pages (parea ?m) q)" using o unfolding data kids by blast
  qed
qed

end

lemma mm_ok_count: "mm_ok (mm_count_inc m v) x vs = mm_ok v x vs"
  by (simp add: mm_ok_def mm_list_def mm_count_inc_def)

context pmm_manager
begin

lemma mm_create_ok:
  assumes vm: "vm_ok inv R bs F s" and F: "F \<noteq> {}"
  shows "\<exists>m s' cs G. mm_create sm alloc s = Some (Some m, s') \<and> vm_ok inv R cs G s' \<and> G \<subseteq> F \<and> card F \<le> card G + 1 \<and>
    unused cs G s' \<subseteq> unused bs F s \<and> m \<in> unused bs F s \<and> words (vmem s') = words (vmem s) \<and> vmas s' = vmas s \<and>
    (\<forall>x. x \<noteq> m \<longrightarrow> mms s' x = mms s x) \<and> mm_ok s' m [] \<and> vlinks s' = list_init (MmapList m) (vlinks s)"
proof -
  have "1 \<le> sizeof_mm_struct" "sizeof_mm_struct < 4064" by (simp_all add: sizeof_mm_struct_def)
  from kalloc_ok [OF vm this] obtain r h cs G where a: "kalloc alloc sizeof_mm_struct s = Some (r, with_heap h s)"
    "vm_ok inv R cs G (with_heap h s)" "G \<subseteq> F" "card F \<le> card G + 1" "r = None \<longrightarrow> F = {}"
    "unused cs G (with_heap h s) \<subseteq> unused bs F s" "\<forall>a. r = Some a \<longrightarrow> a \<in> unused bs F s \<and> a \<notin> unused cs G (with_heap h s)" by blast
  from a(5) F obtain m where m: "r = Some m" by blast
  let ?s = "with_heap h s"
  obtain priv q where pq: "(if swap_init_ok (vmem ?s) then let (hd', q) = sm_init_mm sm (spra (swst ?s)) in (Some hd', q)
      else (None, spra (swst ?s))) = (priv, q)" by fastforce
  define t where "t = upd_mm m (\<lambda>_. \<lparr>mmap_cache = None, pgdir = None, map_count = 0, sm_priv = priv, mm_count = 0\<rparr>)
      (?s\<lparr>vlinks := list_init (MmapList m) (vlinks ?s), swst := (swst ?s)\<lparr>spra := q\<rparr>\<rparr>)"
  have sel: "vmem t = vmem ?s" "vmm.heap t = h" "vmas t = vmas s" "vlinks t = list_init (MmapList m) (vlinks s)"
    by (simp_all add: t_def vmem_def)
  have run: "mm_create sm alloc s = Some (Some m, t)"
    using a(1) m pq by (simp add: mm_create_def Let_def t_def vmem_def split: if_splits prod.splits)
  have "vm_ok inv R cs G t" by (rule vm_ok_cong [OF a(2)]) (simp_all add: sel)
  moreover have "unused cs G t = unused cs G ?s" by (rule unused_cong) (simp add: sel)
  moreover have "words (vmem t) = words (vmem s)" unfolding sel by simp
  moreover have "\<forall>x. x \<noteq> m \<longrightarrow> mms t x = mms s x" by (simp add: t_def)
  moreover have "mm_ok t m []"
    using list_init_dlist [of "MmapList m" "vlinks s"] sel(4) by (simp add: mm_ok_def mm_list_def areas_ok_def t_def)
  ultimately show ?thesis using run a(3,4,6,7) m sel(3,4) by (intro exI [of _ m] exI [of _ t] exI [of _ cs] exI [of _ G]) simp
qed

lemma setup_pgdir_ok:
  assumes vm: "vm_ok inv R bs F (kvm k)" and F: "F \<noteq> {}" and b: "\<forall>i < 2. \<not> pte_valid (words (vmem (kvm k)) (boot_pgdir k) i)"
  shows "\<exists>tp a v. setup_pgdir alloc m k = Some (0, k\<lparr>kvm := v\<rparr>) \<and> v = upd_mm m (\<lambda>q. q\<lparr>pgdir := Some tp\<rparr>) (set_vmem a (kvm k)) \<and>
    tp \<in> F \<and> tp \<notin> R \<and> vm_ok inv (insert tp R) bs (F - {tp}) v \<and>
    words a = (words (vmem (kvm k)))(tp := words (vmem (kvm k)) (boot_pgdir k)) \<and>
    (\<forall>r \<in> R. \<forall>u < UPAGES. pte (words a) r u = pte (words (vmem (kvm k))) r u) \<and>
    (\<forall>u < UPAGES. pte (words a) tp u = 0) \<and> data (words a) (insert tp R) = data (words (vmem (kvm k))) R"
proof -
  let ?m = "vmem (kvm k)"
  have sp: "space_ok inv (\<lambda>_. 0) R F ?m" and hi: "heap_inv (vmm.heap (kvm k)) bs F" using vm by (simp_all add: vm_ok_def)
  have "F \<noteq> {} \<or> \<not> swap_init_ok ?m" using F by simp
  from alloc_page [OF sp this] F obtain tp s where al: "alloc_pages alloc 1 ?m = Some (Some tp, ?m\<lparr>parea := s\<rparr>)" "tp \<in> F"
    "inv s (F - {tp})" "\<And>q. ref (pages s q) = ref (pages (parea ?m) q)" "\<And>q. q \<notin> F \<Longrightarrow> pages s q = pages (parea ?m) q" by metis
  have s1: "space_ok inv (\<lambda>_. 0) R (F - {tp}) (?m\<lparr>parea := s\<rparr>)" by (rule space_ok_alloc [OF sp al(2,3,4,5)])
  have np: "tp \<notin> R \<union> kids (words (?m\<lparr>parea := s\<rparr>)) R \<union> data (words (?m\<lparr>parea := s\<rparr>)) R \<union> (F - {tp})"
    using sp al(2) unfolding space_ok_def by auto
  let ?c = "words ?m (boot_pgdir k)"
  note nr = new_root [OF s1 np, of ?c, simplified]
  let ?a = "set_frame tp ?c (?m\<lparr>parea := s\<rparr>)"
  let ?v = "upd_mm m (\<lambda>q. q\<lparr>pgdir := Some tp\<rparr>) (set_vmem ?a (kvm k))"
  have "heap_inv (vmm.heap (kvm k)) bs (F - {tp})" by (rule heap_inv_mono [OF hi]) blast
  then have "vm_ok inv (insert tp R) bs (F - {tp}) ?v" using nr(1) b by (simp add: vm_ok_def)
  moreover have "setup_pgdir alloc m k = Some (0, k\<lparr>kvm := ?v\<rparr>)" using al(1) by (simp add: setup_pgdir_def)
  moreover have "tp \<notin> R" using np by blast
  ultimately show ?thesis
    using al(2) nr(2,3,5) b by (intro exI [of _ tp] exI [of _ ?a] exI [of _ ?v]) simp
qed

end

text \<open>What the child's address space has from the parent's, where the parent's areas are \<open>vs\<close>.\<close>

definition space_copied ::
  "vmm \<Rightarrow> nat set \<Rightarrow> nat \<Rightarrow> nat list \<Rightarrow> nat \<Rightarrow> vmm \<Rightarrow> nat \<Rightarrow> nat list \<Rightarrow> nat \<Rightarrow> bool" where
  "space_copied s R o' vs fp v m ws tp \<longleftrightarrow> m \<noteq> o' \<and> tp \<notin> R \<and> mm_ok v o' vs \<and> mm_ok v m ws \<and> pgdir (mms v m) = Some tp \<and>
     map (area v) vs = map (area s) vs \<and> map (area v) ws = map (area s) vs \<and>
     (\<forall>u \<in> pages_of s vs. pte_valid (pte (words (vmem s)) fp u) \<longrightarrow>
        page_copied (words (vmem s)) (words (vmem v)) (insert tp R) tp fp u) \<and>
     (\<forall>u < UPAGES. \<not> (u \<in> pages_of s vs \<and> pte_valid (pte (words (vmem s)) fp u)) \<longrightarrow> pte (words (vmem v)) tp u = 0) \<and>
     (\<forall>r \<in> R. \<forall>u < UPAGES. pte (words (vmem v)) r u = pte (words (vmem s)) r u)"

context pmm_manager
begin

lemma copy_mm_dup_ok:
  assumes vm: "vm_ok inv R bs F (kvm k)" and old: "proc_mm (pcbs k (cur k)) = Some o'" and cl: "fl AND CLONE_VM = 0"
    and mf: "mm_ok (kvm k) o' vs" and live: "insert o' (set vs) \<inter> unused bs F (kvm k) = {}"
    and fp: "pgdir (mms (kvm k) o') = Some fp" "fp \<in> R" and ua: "\<forall>v \<in> set vs. user_area (vmas (kvm k) v)"
    and b: "\<forall>i < 2. \<not> pte_valid (words (vmem (kvm k)) (boot_pgdir k) i)"
    and room: "(\<Sum>v\<leftarrow>vs. 3 * card (area_pages (vmas (kvm k) v)) + 1) + 2 \<le> card F"
  shows "\<exists>v m tp cs G ws. copy_mm sm alloc free fl p k = Some (0, upd_pcb p (\<lambda>q. q\<lparr>proc_mm := Some m, cr3 := tp\<rparr>) (k\<lparr>kvm := v\<rparr>)) \<and>
    vm_ok inv (insert tp R) cs G v \<and> space_copied (kvm k) R o' vs fp v m ws tp"
proof -
  let ?s = "kvm k" and ?w = "words (vmem (kvm k))"
  have F: "F \<noteq> {}" using room by auto
  from mm_create_ok [OF vm F, of sm] obtain m s1 cs1 G1 where c: "mm_create sm alloc ?s = Some (Some m, s1)" "vm_ok inv R cs1 G1 s1"
    "G1 \<subseteq> F" "card F \<le> card G1 + 1" "unused cs1 G1 s1 \<subseteq> unused bs F ?s" "m \<in> unused bs F ?s" "words (vmem s1) = ?w" "vmas s1 = vmas ?s"
    "\<forall>x. x \<noteq> m \<longrightarrow> mms s1 x = mms ?s x" "mm_ok s1 m []" "vlinks s1 = list_init (MmapList m) (vlinks ?s)" by blast
  have mo: "m \<noteq> o'" "m \<notin> set vs" using c(6) live by auto
  let ?k1 = "k\<lparr>kvm := s1\<rparr>"
  have G1: "G1 \<noteq> {}" using room c(4) by auto
  have b1: "\<forall>i < 2. \<not> pte_valid (words (vmem (kvm ?k1)) (boot_pgdir ?k1) i)" "vm_ok inv R cs1 G1 (kvm ?k1)" using b c(2,7) by simp_all
  obtain tp a v2 where d0: "setup_pgdir alloc m ?k1 = Some (0, ?k1\<lparr>kvm := v2\<rparr>)"
    "v2 = upd_mm m (\<lambda>q. q\<lparr>pgdir := Some tp\<rparr>) (set_vmem a (kvm ?k1))" "tp \<in> G1" "tp \<notin> R" "vm_ok inv (insert tp R) cs1 (G1 - {tp}) v2"
    "words a = (words (vmem (kvm ?k1)))(tp := words (vmem (kvm ?k1)) (boot_pgdir ?k1))"
    "\<forall>r \<in> R. \<forall>u < UPAGES. pte (words a) r u = pte (words (vmem (kvm ?k1))) r u"
    "\<forall>u < UPAGES. pte (words a) tp u = 0" "data (words a) (insert tp R) = data (words (vmem (kvm ?k1))) R"
    using setup_pgdir_ok [OF b1(2) G1 b1(1), of m] by (elim exE conjE) (rule that)
  have k1: "kvm ?k1 = s1" "boot_pgdir ?k1 = boot_pgdir k" by simp_all
  note d = d0 [unfolded k1 c(7)]
  have v2: "vmem v2 = a" "vmas v2 = vmas ?s" "vlinks v2 = list_init (MmapList m) (vlinks ?s)" "mms v2 o' = mms ?s o'"
    "pgdir (mms v2 m) = Some tp" "vmm.heap v2 = vmm.heap s1" unfolding d(2) using c(8,9,11) mo(1) by simp_all
  have fin: "finite G1" using space_ok_free_bound c(2) unfolding vm_ok_def by blast
  have mm2: "mm_ok v2 o' vs" "mm_ok v2 m []"
  proof -
    have "MmapList m \<notin> set (MmapList o' # map VmaLink vs)" using mo(1) by auto
    moreover have "dlist (vlinks ?s) (MmapList o') (map VmaLink vs)" using mf by (simp add: mm_ok_def mm_list_def)
    ultimately have "dlist (vlinks v2) (MmapList o') (map VmaLink vs)" unfolding v2(3) by (simp add: list_init_other)
    then show "mm_ok v2 o' vs" using mf v2(2,4) by (simp add: mm_ok_def mm_list_def)
    show "mm_ok v2 m []" using c(10) d(2) by (simp add: mm_ok_def mm_list_def areas_ok_def)
  qed
  have live2: "set vs \<inter> unused cs1 (G1 - {tp}) v2 = {}"
    using live c(5) unused_mono [of v2 s1 "G1 - {tp}" G1 cs1] v2(6) by auto
  have D: "dup_inv inv (insert tp R) m o' tp fp cs1 (G1 - {tp}) v2 vs [] []"
    using d(5) mm2 live2 v2(4,5) fp(1) by (simp add: dup_inv_def)
  have pages: "pages_of v2 vs = pages_of ?s vs" by (simp add: pages_of_def v2(2))
  have lt: "u < UPAGES" if "u \<in> pages_of ?s vs" for u using that by (auto simp: pages_of_def area_pages_def)
  have none: "\<forall>u \<in> pages_of v2 vs. \<not> pte_valid (pte (words (vmem v2)) tp u)" using d(8) lt unfolding pages v2(1) by simp
  have tf: "tp \<noteq> fp" using d(4) fp(2) by blast
  have ua2: "\<forall>v \<in> set vs. user_area (vmas v2 v)" using ua v2(2) by simp
  have room2: "(\<Sum>v\<leftarrow>vs. 3 * card (area_pages (vmas v2 v)) + 1) \<le> card (G1 - {tp})"
    using room c(4) d(3) fin v2(2) by simp
  obtain s' cs G ws where 1: "dup_loop alloc free m o' (first_ent o' []) v2 = Some (0, s')"
      "dup_inv inv (insert tp R) m o' tp fp cs G s' [] (vs @ []) ws" "\<forall>w \<in> set (vs @ []). vmas s' w = vmas v2 w"
      "pages_copied (insert tp R) tp fp (G1 - {tp}) (words (vmem v2)) G (words (vmem s')) (pages_of v2 vs)"
      "beside m (unused cs1 (G1 - {tp}) v2 \<union> set []) v2 s'"
    using dup_loop_ok [OF D mo(1) tf insertI1 insertI2 [OF fp(2)] ua2 none room2] by (elim exE conjE) (rule that)
  have dup: "dup_mmap alloc free m o' v2 = Some (0, s')" using 1(1) by (simp add: dup_mmap_def first_ent_def)
  let ?v = "mm_count_inc m s'"
  note D' = 1(2) [unfolded dup_inv_def]
  have vv: "vmem ?v = vmem s'" "vmas ?v = vmas s'" "vmm.heap ?v = vmm.heap s'" "pgdir (mms ?v m) = Some tp"
    using D' by (simp_all add: mm_count_inc_def)
  have run: "copy_mm sm alloc free fl p k = Some (0, upd_pcb p (\<lambda>q. q\<lparr>proc_mm := Some m, cr3 := tp\<rparr>) (k\<lparr>kvm := ?v\<rparr>))"
    using old cl c(1) d(1) dup D' by (simp add: copy_mm_def Let_def good_mm_def upd_pcb_def)
  have ar: "map (area ?v) vs = map (area ?s) vs" using 1(3) v2(2) vv(2) by (simp add: area_def)
  have aw: "map (area ?v) ws = map (area ?s) vs"
  proof -
    have "map (area s') ws = map (area s') vs" using D' by simp
    moreover have "area ?v = area s'" by (rule ext) (simp add: area_def vv(2))
    ultimately have "map (area ?v) ws = map (area ?v) vs" by (simp only:)
    then show ?thesis using ar by (simp only:)
  qed
  have fr: "pte_frame (pte ?w fp u) \<noteq> tp" if "u < UPAGES" "pte_valid (pte ?w fp u)" for u
  proof -
    have "pte_frame (pte ?w fp u) \<in> data ?w R" by (rule in_data [OF fp(2) that])
    moreover have "tp \<notin> data ?w R" using vm d(3) c(3) unfolding vm_ok_def space_ok_def by blast
    ultimately show ?thesis by blast
  qed
  have same: "pte (words (vmem v2)) fp u = pte ?w fp u" if "u < UPAGES" for u using d(7) fp(2) that v2(1) by simp
  have cp: "page_copied ?w (words (vmem ?v)) (insert tp R) tp fp u"
    if "u \<in> pages_of ?s vs" "pte_valid (pte ?w fp u)" for u
  proof -
    have "page_copied (words (vmem v2)) (words (vmem s')) (insert tp R) tp fp u"
      using 1(4) that same [OF lt [OF that(1)]] unfolding pages_copied_def pages by simp
    then show ?thesis
      using same [OF lt [OF that(1)]] fr [OF lt [OF that(1)] that(2)] d(6) unfolding page_copied_def vv(1) v2(1) by simp
  qed
  have other: "pte (words (vmem ?v)) r u = pte (words (vmem v2)) r u"
    if "r \<in> insert tp R" "u < UPAGES" "\<not> (r = tp \<and> u \<in> pages_of ?s vs \<and> pte_valid (pte ?w fp u))" for r u
  proof -
    have "\<forall>r \<in> insert tp R. \<forall>u < UPAGES. \<not> (r = tp \<and> u \<in> pages_of ?s vs \<and> pte_valid (pte (words (vmem v2)) fp u)) \<longrightarrow>
        pte (words (vmem s')) r u = pte (words (vmem v2)) r u" using 1(4) unfolding pages_copied_def pages by blast
    then show ?thesis using that same [OF that(2)] unfolding vv(1) by metis
  qed
  have "space_copied ?s R o' vs fp ?v m ws tp"
    unfolding space_copied_def
  proof (intro conjI ballI allI impI)
    show "m \<noteq> o'" "tp \<notin> R" "pgdir (mms ?v m) = Some tp" by (rule mo(1) d(4) vv(4))+
    show "mm_ok ?v o' vs" "mm_ok ?v m ws" using D' by (simp_all add: mm_ok_count)
    show "map (area ?v) vs = map (area ?s) vs" "map (area ?v) ws = map (area ?s) vs" by (rule ar aw)+
    show "pte (words (vmem ?v)) tp u = 0" if "u < UPAGES" "\<not> (u \<in> pages_of ?s vs \<and> pte_valid (pte ?w fp u))" for u
      using other [of tp u] that d(8) v2(1) by simp
    show "pte (words (vmem ?v)) r u = pte ?w r u" if "r \<in> R" "u < UPAGES" for r u
      using other [of r u] that d(4,7) v2(1) by auto
  qed (rule cp)
  moreover have "vm_ok inv (insert tp R) cs G ?v"
    by (rule vm_ok_cong [of _ _ _ _ s']) (use D' vv in simp_all)
  ultimately show ?thesis using run by blast
qed

end

section \<open>Fork\<close>

text \<open>The registers a child starts with: those of \<open>frame\<close>, but 0 in \<open>a0\<close> and its own stack pointer.\<close>

definition starts_as :: "u64 \<Rightarrow> u64 \<Rightarrow> trapframe \<Rightarrow> nat \<Rightarrow> pcb \<Rightarrow> bool" where
  "starts_as forkret stack frame pg q \<longleftrightarrow> (\<exists>f. tf q = Some f \<and> gpr f 10 = 0 \<and>
     gpr f 2 = (if stack = 0 then page2kva pg + KSTACKSIZE - sizeof_trapframe else stack) \<and>
     (\<forall>x. x \<noteq> 2 \<longrightarrow> x \<noteq> 10 \<longrightarrow> gpr f x = gpr frame x) \<and> tf_epc f = tf_epc frame \<and> tf_status f = tf_status frame) \<and>
     ctx_ra (ctx q) = forkret \<and> ctx_sp (ctx q) = page2kva pg + KSTACKSIZE - sizeof_trapframe"

lemma no_links_proc: "no_links q = no_links r \<Longrightarrow> starts_as fk st fr pg q = starts_as fk st fr pg r"
proof -
  assume "no_links q = no_links r"
  note e = no_links_eqD(4,8) [OF this]
  show ?thesis unfolding starts_as_def e ..
qed

context scheduler
begin

lemma finish_fork:
  assumes pk: "procs_ok k ps ch i" and okk: "ok (sch k)" and c: "c \<in> set ps" "\<not> zombie k c"
    and p: "p \<notin> insert (idleproc (sch k)) (set ps)" "p \<in> P" and par: "proc_parent (pcbs k p) = Some c"
    and cp: "cptr (pcbs k p) = None" and len: "int (length ps) < MAX_PID - 1" and ks: "kstack (pcbs k p) = Some pg"
    and st: "state (procs (sch k) p) = PROC_UNINIT"
  shows "\<exists>k6 n k7 k9 k10. copy_thread forkret p stack frame k = Some k6 \<and> get_pid k6 = Some (n, k7) \<and>
    set_links p (hash_proc p (upd_pcb p (\<lambda>q. q\<lparr>pid := n\<rparr>) k7)) = Some k9 \<and> kwakeup sc p k9 = Some k10 \<and>
    procs_ok k10 (p # ps) (ch(c := p # ch c, p := [])) i \<and> ok (sch k10) \<and> cur k10 = cur k \<and> kvm k10 = kvm k \<and>
    pid_of k10 p = n \<and> 1 \<le> n \<and> n \<notin> pid_of k ` set ps \<and> state (procs (sch k10) p) = PROC_RUNNABLE \<and>
    (\<forall>q. q \<noteq> p \<longrightarrow> state (procs (sch k10) q) = state (procs (sch k) q)) \<and>
    proc_mm (pcbs k10 p) = proc_mm (pcbs k p) \<and> cr3 (pcbs k10 p) = cr3 (pcbs k p) \<and> kstack (pcbs k10 p) = Some pg \<and>
    starts_as forkret stack frame pg (pcbs k10 p) \<and> (\<forall>x. x \<noteq> p \<longrightarrow> no_links (pcbs k10 x) = no_links (pcbs k x))"
proof -
  define tfr where "tfr = page2kva pg + KSTACKSIZE - sizeof_trapframe"
  define f where "f = frame\<lparr>gpr := (gpr frame)(10 := 0, 2 := (if stack = 0 then tfr else stack))\<rparr>"
  define k6 where "k6 = upd_pcb p (\<lambda>q. q\<lparr>tf := Some f, ctx := (ctx q)\<lparr>ctx_ra := forkret, ctx_sp := tfr\<rparr>\<rparr>) k"
  have ct: "copy_thread forkret p stack frame k = Some k6"
    using ks by (simp add: copy_thread_def Let_def k6_def f_def tfr_def)
  have pc: "pcbs k6 x = pcbs k x" if "x \<noteq> p" for x using that by (simp add: k6_def)
  have s6: "sch k6 = sch k" "kvm k6 = kvm k" "cur k6 = cur k" by (simp_all add: k6_def)
  have nx: "x \<noteq> p" if "x \<in> insert (idleproc (sch k)) (set ps)" for x using that p by blast
  have pk6: "procs_ok k6 ps ch i" by (rule procs_ok_local [OF pk]) (use nx pc s6 in \<open>auto simp: k6_def\<close>)
  have q6: "proc_parent (pcbs k6 p) = Some c" "cptr (pcbs k6 p) = None" "p \<notin> insert (idleproc (sch k6)) (set ps)" "\<not> zombie k6 c"
    using par cp p c(2) s6 by (simp_all add: k6_def)
  from enlist_ok [OF pk6 c(1) q6(4,3,1,2) len] obtain n k7 k9 where e: "get_pid k6 = Some (n, k7)"
    "set_links p (hash_proc p (upd_pcb p (\<lambda>q. q\<lparr>pid := n\<rparr>) k7)) = Some k9" "procs_ok k9 (p # ps) (ch(c := p # ch c, p := [])) i"
    "pid_of k9 p = n" "1 \<le> n" "n \<notin> pid_of k6 ` set ps" "kvm k9 = kvm k6" "sch k9 = sch k6"
    "\<forall>x. no_links (pcbs k9 x) = no_links (if x = p then (pcbs k6 p)\<lparr>pid := n\<rparr> else pcbs k6 x)" by blast
  have s9: "ok (sch k9)" "state (procs (sch k9) p) \<noteq> PROC_ZOMBIE" using okk st e(8) s6 by simp_all
  from kwakeup_ok [OF s9(1) p(2) s9(2)] obtain k10 where w: "kwakeup sc p k9 = Some k10" "fam_frame k9 k10" "pcbs k10 = pcbs k9"
    "ok (sch k10)" "state (procs (sch k10) p) = PROC_RUNNABLE" "\<forall>q. q \<noteq> p \<longrightarrow> state (procs (sch k10) q) = state (procs (sch k9) q)" by blast
  have pk10: "procs_ok k10 (p # ps) (ch(c := p # ch c, p := [])) i"
  proof (rule procs_ok_cong [OF e(3)])
    note o = e(3) [unfolded procs_ok_def]
    show "proc_links k10 = proc_links k9" "last_pid k10 = last_pid k9" "next_safe k10 = next_safe k9" "hash_links k10 = hash_links k9"
      "nr_process k10 = nr_process k9" "initproc k10 = initproc k9" "idleproc (sch k10) = idleproc (sch k9)"
      using w(2) by (simp_all add: fam_frame_def)
    show "pid_of k10 x = pid_of k9 x" for x by (simp add: w(3))
    show "(ch(c := p # ch c, p := [])) (idleproc (sch k9)) = [i]" "proc_parent (pcbs k10 (idleproc (sch k9))) = None"
      using o unfolding w(3) by blast+
    show "\<not> zombie k10 i" using o w(5,6) by (cases "i = p") auto
    show "kin_ok k10 (insert (idleproc (sch k9)) (set (p # ps))) (ch(c := p # ch c, p := [])) (\<lambda>_. None)"
      by (rule kin_cong [of k9]) (use o w(3) in simp_all)
    show "proc_parent (pcbs k10 x) \<noteq> None \<and> proc_parent (pcbs k10 x) \<noteq> Some x \<and> (zombie k10 x \<longrightarrow> (ch(c := p # ch c, p := [])) x = [])"
      if "x \<in> set (p # ps)" for x
    proof -
      have "proc_parent (pcbs k9 x) \<noteq> None \<and> proc_parent (pcbs k9 x) \<noteq> Some x \<and> (zombie k9 x \<longrightarrow> (ch(c := p # ch c, p := [])) x = [])"
        using o that by blast
      moreover have "zombie k10 x \<Longrightarrow> zombie k9 x" using w(5,6) by (cases "x = p") auto
      ultimately show ?thesis unfolding w(3) by blast
    qed
  qed
  have nl: "no_links (pcbs k10 p) = no_links ((pcbs k6 p)\<lparr>pid := n\<rparr>)" using e(9) w(3) by simp
  note nle = no_links_eqD [OF nl]
  have sa: "starts_as forkret stack frame pg ((pcbs k6 p)\<lparr>pid := n\<rparr>)"
    by (simp add: starts_as_def k6_def f_def tfr_def)
  have "starts_as forkret stack frame pg (pcbs k10 p)" using no_links_proc [OF nl] sa by blast
  moreover have "proc_mm (pcbs k10 p) = proc_mm (pcbs k p)" "cr3 (pcbs k10 p) = cr3 (pcbs k p)" "kstack (pcbs k10 p) = Some pg"
    using nle ks by (simp_all add: k6_def)
  moreover have "pid_of k6 ` set ps = pid_of k ` set ps" by (rule image_cong) (use nx pc in auto)
  then have "n \<notin> pid_of k ` set ps" using e(6) by simp
  moreover have "kvm k10 = kvm k" "cur k10 = cur k" using w(2) e(7,8) s6 by (simp_all add: fam_frame_def cur_def)
  moreover have "\<forall>q. q \<noteq> p \<longrightarrow> state (procs (sch k10) q) = state (procs (sch k) q)" using w(6) e(8) s6 by simp
  moreover have "pid_of k10 p = n" using e(4) w(3) by simp
  moreover have "\<forall>x. x \<noteq> p \<longrightarrow> no_links (pcbs k10 x) = no_links (pcbs k x)" using e(9) pc unfolding w(3) by simp
  ultimately show ?thesis using ct e(1,2,5) w(1,4,5) pk10 by blast
qed

end

text \<open>
  When the copy of the address space can be made, with \<open>e\<close> frames to spare, and what the child has then: nothing for
  a kernel thread, the same \<open>mm_struct\<close> with \<open>CLONE_VM\<close>, a copy else.
\<close>

definition can_copy :: "nat set \<Rightarrow> nat list \<Rightarrow> nat set \<Rightarrow> nat \<Rightarrow> u32 \<Rightarrow> kern \<Rightarrow> bool" where
  "can_copy R bs F e fl k \<longleftrightarrow> (case proc_mm (pcbs k (cur k)) of None \<Rightarrow> True
     | Some o' \<Rightarrow> if fl AND CLONE_VM \<noteq> 0 then pgdir (mms (kvm k) o') \<noteq> None
       else \<exists>vs fp. mm_ok (kvm k) o' vs \<and> insert o' (set vs) \<inter> unused bs F (kvm k) = {} \<and> pgdir (mms (kvm k) o') = Some fp \<and>
         fp \<in> R \<and> (\<forall>v \<in> set vs. user_area (vmas (kvm k) v)) \<and>
         (\<forall>i < 2. \<not> pte_valid (words (vmem (kvm k)) (boot_pgdir k) i)) \<and>
         (\<Sum>v\<leftarrow>vs. 3 * card (area_pages (vmas (kvm k) v)) + 1) + 2 + e \<le> card F)"

definition mm_inherited :: "kern \<Rightarrow> nat set \<Rightarrow> u32 \<Rightarrow> vmm \<Rightarrow> nat set \<Rightarrow> nat option \<Rightarrow> bool" where
  "mm_inherited k R fl v R' r \<longleftrightarrow> (case proc_mm (pcbs k (cur k)) of None \<Rightarrow> r = None \<and> R' = R
     | Some o' \<Rightarrow> if fl AND CLONE_VM \<noteq> 0 then r = Some o' \<and> R' = R \<and> mm_count (mms v o') = mm_count (mms (kvm k) o') + 1
       else \<exists>vs fp m ws tp. r = Some m \<and> R' = insert tp R \<and> pgdir (mms (kvm k) o') = Some fp \<and> mm_ok (kvm k) o' vs \<and>
         space_copied (kvm k) R o' vs fp v m ws tp)"

lemma upd_pcb_idem: "f (pcbs k p) = pcbs k p \<Longrightarrow> upd_pcb p f k = k"
  unfolding upd_pcb_def by (simp only: fun_upd_triv) (cases k; simp)

text \<open>The allocations before the copy leave the address spaces alone.\<close>

definition same_spaces :: "kern \<Rightarrow> kern \<Rightarrow> bool" where
  "same_spaces k k' \<longleftrightarrow> vmas (kvm k') = vmas (kvm k) \<and> mms (kvm k') = mms (kvm k) \<and> vlinks (kvm k') = vlinks (kvm k) \<and>
     words (vmem (kvm k')) = words (vmem (kvm k)) \<and> boot_pgdir k' = boot_pgdir k \<and>
     proc_mm (pcbs k' (cur k')) = proc_mm (pcbs k (cur k))"

lemma same_spaces_mm: "same_spaces k k' \<Longrightarrow> mm_ok (kvm k') m vs = mm_ok (kvm k) m vs"
  by (simp add: same_spaces_def mm_ok_def mm_list_def)

lemma space_copied_cong: "same_spaces k k' \<Longrightarrow> space_copied (kvm k') = space_copied (kvm k)"
proof -
  assume s: "same_spaces k k'"
  have 1: "area (kvm k') = area (kvm k)" using s by (intro ext) (simp add: area_def same_spaces_def)
  have 2: "pages_of (kvm k') = pages_of (kvm k)" using s by (intro ext) (simp add: pages_of_def same_spaces_def)
  have 3: "words (vmem (kvm k')) = words (vmem (kvm k))" using s by (simp add: same_spaces_def)
  show ?thesis unfolding space_copied_def fun_eq_iff 1 2 3 by blast
qed

lemma mm_inherited_cong:
  assumes s: "same_spaces k k'"
  shows "mm_inherited k' R fl v R' r = mm_inherited k R fl v R' r"
proof -
  have e: "mms (kvm k') = mms (kvm k)" "proc_mm (pcbs k' (cur k')) = proc_mm (pcbs k (cur k))" using s by (simp_all add: same_spaces_def)
  show ?thesis unfolding mm_inherited_def space_copied_cong [OF s] same_spaces_mm [OF s] e ..
qed

lemma can_copy_mono:
  assumes cc: "can_copy R bs F e fl k" and s: "same_spaces k k'" and u: "unused cs G (kvm k') \<subseteq> unused bs F (kvm k)"
    and card: "card F \<le> card G + e"
  shows "can_copy R cs G 0 fl k'"
proof (cases "proc_mm (pcbs k (cur k))")
  case None
  then show ?thesis using s by (simp add: can_copy_def same_spaces_def)
next
  case (Some o')
  note ss = s [unfolded same_spaces_def]
  show ?thesis
  proof (cases "fl AND CLONE_VM = 0")
    case False
    then show ?thesis using cc ss Some by (simp add: can_copy_def)
  next
    case True
    then obtain vs fp where v: "mm_ok (kvm k) o' vs" "insert o' (set vs) \<inter> unused bs F (kvm k) = {}" "pgdir (mms (kvm k) o') = Some fp"
      "fp \<in> R" "\<forall>v \<in> set vs. user_area (vmas (kvm k) v)" "\<forall>i < 2. \<not> pte_valid (words (vmem (kvm k)) (boot_pgdir k) i)"
      "(\<Sum>v\<leftarrow>vs. 3 * card (area_pages (vmas (kvm k) v)) + 1) + 2 + e \<le> card F"
      using cc Some by (auto simp: can_copy_def)
    have "insert o' (set vs) \<inter> unused cs G (kvm k') = {}" using v(2) u by blast
    moreover have "(\<Sum>v\<leftarrow>vs. 3 * card (area_pages (vmas (kvm k') v)) + 1) + 2 + 0 \<le> card G" using v(7) card ss by simp
    moreover have "mm_ok (kvm k') o' vs" using v(1) same_spaces_mm [OF s] by simp
    ultimately have "\<exists>vs fp. mm_ok (kvm k') o' vs \<and> insert o' (set vs) \<inter> unused cs G (kvm k') = {} \<and> pgdir (mms (kvm k') o') = Some fp \<and>
         fp \<in> R \<and> (\<forall>v \<in> set vs. user_area (vmas (kvm k') v)) \<and>
         (\<forall>i < 2. \<not> pte_valid (words (vmem (kvm k')) (boot_pgdir k') i)) \<and>
         (\<Sum>v\<leftarrow>vs. 3 * card (area_pages (vmas (kvm k') v)) + 1) + 2 + 0 \<le> card G"
      using v(3-6) ss by (intro exI [of _ vs] exI [of _ fp]) simp
    then show ?thesis using Some True ss unfolding can_copy_def by simp
  qed
qed

context pmm_manager
begin

lemma copy_mm_ok:
  assumes vm: "vm_ok inv R bs F (kvm k)" and cc: "can_copy R bs F 0 fl k" and np: "proc_mm (pcbs k p) = None"
  shows "\<exists>v r c R' cs G. copy_mm sm alloc free fl p k = Some (0, upd_pcb p (\<lambda>q. q\<lparr>proc_mm := r, cr3 := c\<rparr>) (k\<lparr>kvm := v\<rparr>)) \<and>
    vm_ok inv R' cs G v \<and> mm_inherited k R fl v R' r"
proof (cases "proc_mm (pcbs k (cur k))")
  case None
  have "(pcbs k p)\<lparr>proc_mm := None, cr3 := cr3 (pcbs k p)\<rparr> = pcbs k p" using np by (cases "pcbs k p") simp
  then have "upd_pcb p (\<lambda>q. q\<lparr>proc_mm := None, cr3 := cr3 (pcbs k p)\<rparr>) k = k" by (rule upd_pcb_idem)
  moreover have "k\<lparr>kvm := kvm k\<rparr> = k" by (cases k) simp
  ultimately have e: "upd_pcb p (\<lambda>q. q\<lparr>proc_mm := None, cr3 := cr3 (pcbs k p)\<rparr>) (k\<lparr>kvm := kvm k\<rparr>) = k" by (simp only:)
  have "copy_mm sm alloc free fl p k = Some (0, k)" using None by (simp add: copy_mm_def)
  then have "copy_mm sm alloc free fl p k = Some (0, upd_pcb p (\<lambda>q. q\<lparr>proc_mm := None, cr3 := cr3 (pcbs k p)\<rparr>) (k\<lparr>kvm := kvm k\<rparr>))"
    unfolding e .
  moreover have "mm_inherited k R fl (kvm k) R None" using None by (simp add: mm_inherited_def)
  ultimately show ?thesis using vm
    by (intro exI [of _ "kvm k"] exI [of _ None] exI [of _ "cr3 (pcbs k p)"] exI [of _ R] exI [of _ bs] exI [of _ F]) (intro conjI)
next
  case (Some o')
  show ?thesis
  proof (cases "fl AND CLONE_VM = 0")
    case False
    then obtain fp where fp: "pgdir (mms (kvm k) o') = Some fp" using cc Some by (auto simp: can_copy_def)
    have "copy_mm sm alloc free fl p k =
        Some (0, upd_pcb p (\<lambda>q. q\<lparr>proc_mm := Some o', cr3 := fp\<rparr>) (k\<lparr>kvm := mm_count_inc o' (kvm k)\<rparr>))"
      using Some False fp by (simp add: copy_mm_def good_mm_def)
    moreover have "vm_ok inv R bs F (mm_count_inc o' (kvm k))" by (rule vm_ok_cong [OF vm]) (simp_all add: mm_count_inc_def)
    moreover have "mm_inherited k R fl (mm_count_inc o' (kvm k)) R (Some o')"
      using Some False by (simp add: mm_inherited_def mm_count_inc_def)
    ultimately show ?thesis by blast
  next
    case True
    then obtain vs fp where v: "mm_ok (kvm k) o' vs" "insert o' (set vs) \<inter> unused bs F (kvm k) = {}" "pgdir (mms (kvm k) o') = Some fp"
      "fp \<in> R" "\<forall>v \<in> set vs. user_area (vmas (kvm k) v)" "\<forall>i < 2. \<not> pte_valid (words (vmem (kvm k)) (boot_pgdir k) i)"
      "(\<Sum>v\<leftarrow>vs. 3 * card (area_pages (vmas (kvm k) v)) + 1) + 2 \<le> card F"
      using cc Some by (auto simp: can_copy_def)
    from copy_mm_dup_ok [OF vm Some True v, of sm p] obtain w m tp cs G ws where
      "copy_mm sm alloc free fl p k = Some (0, upd_pcb p (\<lambda>q. q\<lparr>proc_mm := Some m, cr3 := tp\<rparr>) (k\<lparr>kvm := w\<rparr>))"
      "vm_ok inv (insert tp R) cs G w" "space_copied (kvm k) R o' vs fp w m ws tp" by blast
    moreover from this(3) have "mm_inherited k R fl w (insert tp R) (Some m)"
      using Some True v(1,3) unfolding mm_inherited_def by auto
    ultimately show ?thesis by blast
  qed
qed

end

text \<open>What the new process \<open>p\<close> is, with its stack at the pages from \<open>pg\<close>.\<close>

definition forked ::
  "kern \<Rightarrow> nat list \<Rightarrow> (nat \<Rightarrow> nat list) \<Rightarrow> nat \<Rightarrow> nat set \<Rightarrow> nat set \<Rightarrow> u64 \<Rightarrow> u32 \<Rightarrow> u64 \<Rightarrow> trapframe \<Rightarrow> kern \<Rightarrow> nat \<Rightarrow> nat \<Rightarrow> nat set \<Rightarrow> bool" where
  "forked k ps ch i R F forkret fl stack frame k' p pg R' \<longleftrightarrow> p \<notin> insert (idleproc (sch k)) (set ps) \<and>
     procs_ok k' (p # ps) (ch(cur k := p # ch (cur k), p := [])) i \<and> 1 \<le> pid_of k' p \<and> pid_of k' p \<notin> pid_of k ` set ps \<and>
     state (procs (sch k') p) = PROC_RUNNABLE \<and> kstack (pcbs k' p) = Some pg \<and> {pg..<pg + KSTACKPAGE} \<subseteq> F \<and>
     mm_inherited k R fl (kvm k') R' (proc_mm (pcbs k' p)) \<and> starts_as forkret stack frame pg (pcbs k' p)"

text \<open>
  What is left for a stack when it is asked for: the two \<open>proc_struct\<close>s before it may have taken a frame each for the
  heap, and then no two adjacent frames of the others are free.
\<close>

definition no_stack_room :: "nat set \<Rightarrow> nat set \<Rightarrow> bool" where
  "no_stack_room F G \<longleftrightarrow> G \<subseteq> F \<and> card F \<le> card G + 2 \<and> (\<forall>q. \<not> {q..<q + KSTACKPAGE} \<subseteq> G)"

context processes
begin

lemma do_fork_ok:
  assumes pk: "procs_ok k ps ch i" and okk: "ok (sch k)" and c: "cur k \<in> set ps" "\<not> zombie k (cur k)"
    and wait: "wait_state (procs (sch k) (cur k)) = 0"
    and vm: "vm_ok inv R bs F (kvm k)" and sp: "spare_ok P bs F k (insert (idleproc (sch k)) (set ps))"
    and room: "4 \<le> card F" and cc: "can_copy R bs F 4 fl k"
  shows "if MAX_PROCESS \<le> nr_process k then do_fork sc sm alloc free forkret fl stack frame k = Some (- E_NO_FREE_PROC, k)
    else \<exists>ret k' R' cs G. do_fork sc sm alloc free forkret fl stack frame k = Some (ret, k') \<and>
      ok (sch k') \<and> cur k' = cur k \<and> vm_ok inv R' cs G (kvm k') \<and>
      (\<forall>q \<in> set ps. state (procs (sch k') q) = state (procs (sch k) q) \<and> no_links (pcbs k' q) = no_links (pcbs k q)) \<and>
      (ret = - E_NO_MEM \<and> no_stack_room F G \<and> procs_ok k' ps ch i \<and> R' = R \<or>
       (\<exists>p pg. ret = pid_of k' p \<and> forked k ps ch i R F forkret fl stack frame k' p pg R'))"
proof (cases "MAX_PROCESS \<le> nr_process k")
  case True
  then show ?thesis by (simp add: do_fork_def)
next
  case cnt: False
  let ?I = "idleproc (sch k)"
  have F0: "F \<noteq> {}" using room by auto
  from alloc_proc_ok [OF vm F0 okk sp] obtain p1 h1 cs1 G1 k1 where a1: "alloc_proc alloc k = Some (Some p1, k1)"
    "k1 = upd_pcb p1 (blank_pcb (boot_pgdir k)) (k\<lparr>kvm := with_heap h1 (kvm k), sch := upd_proc p1 blank_proc (sch k)\<rparr>)"
    "vm_ok inv R cs1 G1 (kvm k1)" "ok (sch k1)" "G1 \<subseteq> F" "card F \<le> card G1 + 1" "p1 \<notin> insert ?I (set ps)"
    "unused cs1 G1 (kvm k1) \<subseteq> unused bs F (kvm k)" "spare_ok P cs1 G1 k1 (insert p1 (insert ?I (set ps)))" by blast
  have G0: "G1 \<noteq> {}" using room a1(6) by auto
  from alloc_proc_ok [OF a1(3) G0 a1(4,9)] obtain p h2 cs2 G2 k2 where a2: "alloc_proc alloc k1 = Some (Some p, k2)"
    "k2 = upd_pcb p (blank_pcb (boot_pgdir k1)) (k1\<lparr>kvm := with_heap h2 (kvm k1), sch := upd_proc p blank_proc (sch k1)\<rparr>)"
    "vm_ok inv R cs2 G2 (kvm k2)" "ok (sch k2)" "G2 \<subseteq> G1" "card G1 \<le> card G2 + 1" "p \<in> P" "p \<notin> insert p1 (insert ?I (set ps))"
    "unused cs2 G2 (kvm k2) \<subseteq> unused cs1 G1 (kvm k1)" "object_held cs2 G2 (kvm k2) p sizeof_proc_struct" by blast
  have cn: "cur k \<noteq> p1" "cur k \<noteq> p" using c(1) a1(7) a2(8) by auto
  have k2: "proc_links k2 = proc_links k" "hash_links k2 = hash_links k" "initproc k2 = initproc k" "nr_process k2 = nr_process k"
    "next_safe k2 = next_safe k" "last_pid k2 = last_pid k" "boot_pgdir k2 = boot_pgdir k" "cur k2 = cur k" "idleproc (sch k2) = ?I"
    unfolding a2(2) a1(2) by (simp_all add: cur_def)
  have pc2: "pcbs k2 x = pcbs k x" "procs (sch k2) x = procs (sch k) x" if "x \<noteq> p1" "x \<noteq> p" for x
    using that unfolding a2(2) a1(2) by simp_all
  have fld: "proc_mm (pcbs k2 p) = None" "cptr (pcbs k2 p) = None" "state (procs (sch k2) p) = PROC_UNINIT"
    unfolding a2(2) by (simp_all add: blank_pcb_def blank_proc_def)
  define k3 where "k3 = upd_pcb p (\<lambda>q. q\<lparr>proc_parent := Some (cur k2)\<rparr>) k2"
  have k3: "kvm k3 = kvm k2" "sch k3 = sch k2" "cur k3 = cur k2" "boot_pgdir k3 = boot_pgdir k" by (simp_all add: k3_def k2)
  have pc3: "pcbs k3 x = pcbs k x" if "x \<noteq> p1" "x \<noteq> p" for x using that pc2 by (simp add: k3_def)
  have out: "x \<noteq> p1" "x \<noteq> p" if "x \<in> insert ?I (set ps)" for x using that a1(7) a2(8) by auto
  have pk3: "procs_ok k3 ps ch i"
    by (rule procs_ok_local [OF pk]) (use k2 out pc3 pc2 in \<open>auto simp: k3_def\<close>)
  have w3: "c_assert (wait_state (procs (sch k3) (cur k3)) = 0) = Some ()"
    using wait k2(8) pc2(2) [OF cn] k3 by simp
  have ncnt: "\<not> nr_process k \<ge> MAX_PROCESS" using cnt by simp
  have start: "do_fork sc sm alloc free forkret fl stack frame k = do {
        (ret, k4) \<leftarrow> setup_kstack alloc p k3;
        if ret \<noteq> 0 then do { k5 \<leftarrow> kfree_proc free p k4; Some (- E_NO_MEM, k5) }
        else do {
          (ret, k5) \<leftarrow> copy_mm sm alloc free fl p k4;
          if ret \<noteq> 0 then do { k6 \<leftarrow> put_kstack free p k5; k7 \<leftarrow> kfree_proc free p k6; Some (- E_NO_MEM, k7) }
          else do {
            k6 \<leftarrow> copy_thread forkret p stack frame k5;
            (n, k7) \<leftarrow> get_pid k6;
            k9 \<leftarrow> set_links p (hash_proc p (upd_pcb p (\<lambda>q. q\<lparr>pid := n\<rparr>) k7));
            k10 \<leftarrow> kwakeup sc p k9;
            Some (pid (pcbs k10 p), k10)
          }
        }
      }"
    unfolding do_fork_def a1(1) a2(1) bind.bind_lunit prod.case Let_def k3_def [symmetric] w3 using ncnt by simp
  have vm3: "vm_ok inv R cs2 G2 (kvm k3)" using a2(3) k3 by simp
  have KS: "1 < KSTACKPAGE" by (simp add: KSTACKPAGE_def)
  have stp: "\<forall>q \<in> set ps. state (procs (sch k3) q) = state (procs (sch k) q)" using out pc2 k3 by simp
  have "\<exists>ret k' R' cs G. do_fork sc sm alloc free forkret fl stack frame k = Some (ret, k') \<and>
      ok (sch k') \<and> cur k' = cur k \<and> vm_ok inv R' cs G (kvm k') \<and>
      (\<forall>q \<in> set ps. state (procs (sch k') q) = state (procs (sch k) q) \<and> no_links (pcbs k' q) = no_links (pcbs k q)) \<and>
      (ret = - E_NO_MEM \<and> no_stack_room F G \<and> procs_ok k' ps ch i \<and> R' = R \<or>
       (\<exists>p pg. ret = pid_of k' p \<and> forked k ps ch i R F forkret fl stack frame k' p pg R'))"
    using alloc_block_ok [OF vm3 KS]
  proof
    assume "alloc_pages alloc KSTACKPAGE (vmem (kvm k3)) = Some (None, vmem (kvm k3)) \<and> (\<forall>q. \<not> {q..<q + KSTACKPAGE} \<subseteq> G2)"
    then have none: "alloc_pages alloc KSTACKPAGE (vmem (kvm k3)) = Some (None, vmem (kvm k3))"
      "\<forall>q. \<not> {q..<q + KSTACKPAGE} \<subseteq> G2" by blast+
    have "k3\<lparr>kvm := kvm k3\<rparr> = k3" by (cases k3) simp
    then have sk: "setup_kstack alloc p k3 = Some (- E_NO_MEM, k3)"
      using none(1) by (simp add: setup_kstack_def set_vmem_same)
    have "object_held cs2 G2 (kvm k3) p sizeof_proc_struct" using a2(10) k3 by simp
    from krelease_ok [OF vm3 this] obtain h cs where r: "krelease free p (kvm k3) = Some (with_heap h (kvm k3))"
      "vm_ok inv R cs G2 (with_heap h (kvm k3))" by blast
    let ?k = "k3\<lparr>kvm := with_heap h (kvm k3)\<rparr>"
    have "do_fork sc sm alloc free forkret fl stack frame k = Some (- E_NO_MEM, ?k)"
      unfolding start sk using r(1) by (simp add: kfree_proc_def E_NO_MEM_def)
    moreover have "procs_ok ?k ps ch i" by (rule procs_ok_local [OF pk3]) simp_all
    moreover have "ok (sch ?k)" "cur ?k = cur k" using a2(4) k3 k2 by simp_all
    moreover have "\<forall>q \<in> set ps. state (procs (sch ?k) q) = state (procs (sch k) q) \<and> no_links (pcbs ?k q) = no_links (pcbs k q)"
      using stp out pc3 by simp
    moreover have "no_stack_room F G2" using none(2) a1(5,6) a2(5,6) by (auto simp: no_stack_room_def)
    ultimately show ?thesis using r(2) by (intro exI [of _ "- E_NO_MEM"] exI [of _ ?k] exI [of _ R] exI [of _ cs] exI [of _ G2]) simp
  next
    assume "\<exists>pg a. alloc_pages alloc KSTACKPAGE (vmem (kvm k3)) = Some (Some pg, (vmem (kvm k3))\<lparr>parea := a\<rparr>) \<and>
      {pg..<pg + KSTACKPAGE} \<subseteq> G2 \<and> (\<forall>q \<in> {pg..<pg + KSTACKPAGE}. page_clean (pages a q)) \<and>
      vm_ok inv R cs2 (G2 - {pg..<pg + KSTACKPAGE}) (set_vmem ((vmem (kvm k3))\<lparr>parea := a\<rparr>) (kvm k3))"
    then obtain pg a where al: "alloc_pages alloc KSTACKPAGE (vmem (kvm k3)) = Some (Some pg, (vmem (kvm k3))\<lparr>parea := a\<rparr>)"
      "{pg..<pg + KSTACKPAGE} \<subseteq> G2"
      "vm_ok inv R cs2 (G2 - {pg..<pg + KSTACKPAGE}) (set_vmem ((vmem (kvm k3))\<lparr>parea := a\<rparr>) (kvm k3))" by blast
    let ?G = "G2 - {pg..<pg + KSTACKPAGE}"
    define v4 where "v4 = set_vmem ((vmem (kvm k3))\<lparr>parea := a\<rparr>) (kvm k3)"
    define k4 where "k4 = upd_pcb p (\<lambda>q. q\<lparr>kstack := Some pg\<rparr>) (k3\<lparr>kvm := v4\<rparr>)"
    have sk: "setup_kstack alloc p k3 = Some (0, k4)" using al(1) by (simp add: setup_kstack_def k4_def v4_def)
    have k4: "kvm k4 = v4" "sch k4 = sch k3" "cur k4 = cur k" by (simp_all add: k4_def k3 k2 cur_def)
      (use k2(8) k3(2) in \<open>simp add: cur_def\<close>)
    have ss: "same_spaces k k4"
    proof -
      have "pcbs k4 (cur k4) = pcbs k (cur k)" using cn pc3 unfolding k4(3) by (simp add: k4_def)
      moreover have "vmas v4 = vmas (kvm k)" "mms v4 = mms (kvm k)" "vlinks v4 = vlinks (kvm k)" "words (vmem v4) = words (vmem (kvm k))"
        unfolding v4_def k3 a2(2) a1(2) by simp_all
      moreover have "boot_pgdir k4 = boot_pgdir k" by (simp add: k4_def k3)
      ultimately show ?thesis unfolding same_spaces_def k4(1) by simp
    qed
    have vm4: "vm_ok inv R cs2 ?G (kvm k4)" using al(3) by (simp add: k4 v4_def)
    have uu: "unused cs2 ?G (kvm k4) \<subseteq> unused bs F (kvm k)"
    proof -
      have "vmm.heap (kvm k4) = vmm.heap (kvm k2)" by (simp add: k4 v4_def k3)
      then have "unused cs2 ?G (kvm k4) \<subseteq> unused cs2 G2 (kvm k2)" by (rule unused_mono) blast
      then show ?thesis using a2(9) a1(8) by blast
    qed
    have fin: "finite G2" using space_ok_free_bound a2(3) unfolding vm_ok_def by blast
    have "card {pg..<pg + KSTACKPAGE} = 2" by (simp add: KSTACKPAGE_def)
    then have "card ?G = card G2 - 2" using card_Diff_subset [OF _ al(2)] by simp
    then have card: "card F \<le> card ?G + 4" using a1(6) a2(6) by linarith
    have cc4: "can_copy R cs2 ?G 0 fl k4" by (rule can_copy_mono [OF cc ss uu card])
    have np4: "proc_mm (pcbs k4 p) = None" using fld(1) by (simp add: k4_def k3_def)
    from copy_mm_ok [OF vm4 cc4 np4, of sm] obtain v r cr R' cs G where
      cm: "copy_mm sm alloc free fl p k4 = Some (0, upd_pcb p (\<lambda>q. q\<lparr>proc_mm := r, cr3 := cr\<rparr>) (k4\<lparr>kvm := v\<rparr>))"
        "vm_ok inv R' cs G v" "mm_inherited k4 R fl v R' r" by blast
    define k5 where "k5 = upd_pcb p (\<lambda>q. q\<lparr>proc_mm := r, cr3 := cr\<rparr>) (k4\<lparr>kvm := v\<rparr>)"
    have k5: "kvm k5 = v" "sch k5 = sch k3" "cur k5 = cur k" by (simp_all add: k5_def k4)
    have pc5: "pcbs k5 x = pcbs k3 x" if "x \<noteq> p" for x using that by (simp add: k5_def k4_def)
    have pk5: "procs_ok k5 ps ch i"
      by (rule procs_ok_local [OF pk3]) (use pc5 out k2(9) k3(2) in \<open>auto simp: k5_def k4_def\<close>)
    have f5: "ok (sch k5)" "\<not> zombie k5 (cur k)" "p \<notin> insert (idleproc (sch k5)) (set ps)" "proc_parent (pcbs k5 p) = Some (cur k)"
      "cptr (pcbs k5 p) = None" "kstack (pcbs k5 p) = Some pg" "state (procs (sch k5) p) = PROC_UNINIT"
      using a2(4,8) k5(2) k3(2) c(2) pc2(2) [OF cn] k2(8,9) fld by (simp_all add: k5_def k4_def k3_def)
    have len: "int (length ps) < MAX_PID - 1" using pk cnt by (simp add: procs_ok_def MAX_PID_def MAX_PROCESS_def)
    from finish_fork [OF pk5 f5(1) c(1) f5(2,3) a2(7) f5(4,5) len f5(6,7), of forkret stack frame] obtain k6 n k7 k9 k10 where
      t: "copy_thread forkret p stack frame k5 = Some k6" "get_pid k6 = Some (n, k7)"
        "set_links p (hash_proc p (upd_pcb p (\<lambda>q. q\<lparr>pid := n\<rparr>) k7)) = Some k9" "kwakeup sc p k9 = Some k10"
        "procs_ok k10 (p # ps) (ch(cur k := p # ch (cur k), p := [])) i" "ok (sch k10)" "cur k10 = cur k5" "kvm k10 = kvm k5"
        "pid_of k10 p = n" "1 \<le> n" "n \<notin> pid_of k5 ` set ps" "state (procs (sch k10) p) = PROC_RUNNABLE"
        "\<forall>q. q \<noteq> p \<longrightarrow> state (procs (sch k10) q) = state (procs (sch k5) q)" "proc_mm (pcbs k10 p) = proc_mm (pcbs k5 p)"
        "kstack (pcbs k10 p) = Some pg" "starts_as forkret stack frame pg (pcbs k10 p)"
        "\<forall>x. x \<noteq> p \<longrightarrow> no_links (pcbs k10 x) = no_links (pcbs k5 x)" by blast
    have "do_fork sc sm alloc free forkret fl stack frame k = Some (pid_of k10 p, k10)"
      unfolding start sk bind.bind_lunit prod.case cm(1) k5_def [symmetric] t(1) using t(2-4) by simp
    moreover have "forked k ps ch i R F forkret fl stack frame k10 p pg R'"
    proof -
      have "pid_of k5 ` set ps = pid_of k ` set ps" by (rule image_cong) (use pc5 pc3 out in auto)
      moreover have "mm_inherited k R fl (kvm k10) R' (proc_mm (pcbs k10 p))"
        using cm(3) unfolding mm_inherited_cong [OF ss] t(8,14) k5(1) by (simp add: k5_def)
      ultimately show ?thesis using a2(5,8) a1(5) al(2) t by (auto simp: forked_def)
    qed
    moreover have "\<forall>q \<in> set ps. state (procs (sch k10) q) = state (procs (sch k) q) \<and> no_links (pcbs k10 q) = no_links (pcbs k q)"
      using t(13,17) stp out k5(2) pc5 pc3 by simp
    moreover have "vm_ok inv R' cs G (kvm k10)" using cm(2) t(8) k5(1) by simp
    ultimately show ?thesis using t(6,7) k5(3)
      by (intro exI [of _ "pid_of k10 p"] exI [of _ k10] exI [of _ R'] exI [of _ cs] exI [of _ G]) auto
  qed
  then show ?thesis using cnt by simp
qed

end

end
