(* ===== verification/ProcExit.thy ===== *)
theory ProcExit
  imports ProcLife
begin

text \<open>
  The release of an address space that no other process uses, as \<open>do_exit\<close> makes it: \<open>exit_mmap\<close> unmaps every
  area and frees the page tables, \<open>put_pgdir\<close> frees the root, \<open>mm_destroy\<close> the areas and the \<open>mm_struct\<close>.
\<close>

unbundle bit_operations_syntax

section \<open>Taking a table out of the tree\<close>

text \<open>The address space with root \<open>r\<close> maps no page.\<close>

definition bare :: "frames \<Rightarrow> nat \<Rightarrow> bool" where
  "bare w r \<longleftrightarrow> (\<forall>v < UPAGES. \<not> pte_valid (pte w r v))"

lemma slots_mono: "R \<subseteq> R' \<Longrightarrow> slots w R \<subseteq> slots w R'"
  by (auto simp: slots_def dirs_def)

lemma kids_mono: "R \<subseteq> R' \<Longrightarrow> kids w R \<subseteq> kids w R'"
  using slots_mono unfolding kids_def by blast

text \<open>Clearing a slot in the tree of a bare root \<open>r\<close>.\<close>

lemma clear_slot:
  assumes t: "tree_ok w R" and r: "r \<in> R" and b: "bare w r" and s: "(f, i) \<in> slots w {r}"
    and c: "child w (f, i) = Some c" and w': "w' = w(f := (w f)(i := 0))"
  shows "\<And>x. child w' x = (if x = (f, i) then None else child w x)"
    "dirs w' R \<subseteq> dirs w R" "slots w' R \<subseteq> slots w R" "slots w' {r} \<subseteq> slots w {r}"
    "kids w' R \<subseteq> kids w R - {c}" "kids w' {r} \<subseteq> kids w {r}" "c \<in> kids w {r}" "bare w' r"
    "\<And>r' v. r' \<in> R \<Longrightarrow> v < UPAGES \<Longrightarrow> r' \<noteq> r \<Longrightarrow> pte w' r' v = pte w r' v" "tree_ok w' R"
proof -
  show ch: "child w' x = (if x = (f, i) then None else child w x)" for x
    by (cases x) (auto simp: child_def w')
  have d: "dirs w' S \<subseteq> dirs w S" for S
  proof
    fix x assume "x \<in> dirs w' S"
    then obtain a j where "a \<in> S" "j < 2" "child w' (a, j) = Some x" by (auto simp: dirs_def)
    then show "x \<in> dirs w S" unfolding ch by (auto simp: dirs_def split: if_splits)
  qed
  have sl: "slots w' S \<subseteq> slots w S" for S using d [of S] by (auto simp: slots_def)
  have kd: "kids w' S \<subseteq> kids w S" for S
  proof
    fix x assume "x \<in> kids w' S"
    then obtain y where "y \<in> slots w' S" "child w' y = Some x" by (auto simp: kids_def)
    then have "y \<in> slots w S" "child w y = Some x" using sl [of S] unfolding ch by (auto split: if_splits)
    then show "x \<in> kids w S" by (auto simp: kids_def)
  qed
  have sR: "(f, i) \<in> slots w R" using s slots_mono [of "{r}" R w] r by blast
  show "dirs w' R \<subseteq> dirs w R" "slots w' R \<subseteq> slots w R" "slots w' {r} \<subseteq> slots w {r}" "kids w' {r} \<subseteq> kids w {r}"
    by (rule d sl kd)+
  show "c \<in> kids w {r}" using s c by (auto simp: kids_def)
  have "c \<notin> kids w' R"
  proof
    assume "c \<in> kids w' R"
    then obtain y where y: "y \<in> slots w' R" "child w' y = Some c" by (auto simp: kids_def)
    then have "y \<noteq> (f, i)" "child w y = Some c" "y \<in> slots w R" using sl [of R] unfolding ch by (auto split: if_splits)
    then show False using slot_inj [OF t _ sR _ c] by blast
  qed
  then show "kids w' R \<subseteq> kids w R - {c}" using kd [of R] by blast
  have disj: "R \<inter> kids w R = {}" using t by (simp add: tree_ok_def)
  have fd: "f = r \<or> f \<in> dirs w {r}" using s by (auto simp: slots_def)
  have fR: "f \<in> R \<or> f \<in> dirs w R" using fd r by (auto simp: dirs_def)
  have tab: "fst q \<noteq> f" if "leaf w r' v = Some q" "r' \<in> R" "v < UPAGES" for r' v q
    using leaf_table [OF t, of r' v "fst q" "snd q"] that fR by auto
  have lf: "leaf w' r' v = leaf w r' v \<or> leaf w' r' v = None" for r' v
    unfolding leaf_def ch by (auto split: option.splits if_splits)
  have pt: "pte w' r' v = pte w r' v \<or> pte w' r' v = 0" if "r' \<in> R" "v < UPAGES" for r' v
  proof (cases "leaf w' r' v")
    case (Some q)
    then have "leaf w r' v = Some q" using lf [of r' v] by auto
    moreover from tab [OF this that] have "w' (fst q) = w (fst q)" by (simp add: w')
    ultimately show ?thesis using Some by (simp add: pte_def)
  qed (simp add: pte_def)
  show "bare w' r" using b pt r pte_valid_simps unfolding bare_def by metis
  show "pte w' r' v = pte w r' v" if r': "r' \<in> R" "v < UPAGES" "r' \<noteq> r" for r' v
  proof -
    have 1: "(r', v div 0x40000) \<noteq> (f, i)"
    proof
      assume "(r', v div 0x40000) = (f, i)"
      then have "f \<in> R" "f \<noteq> r" using r' by auto
      then have "f \<in> kids w {r}" using fd dirs_kids by blast
      then show False using \<open>f \<in> R\<close> disj kids_mono [of "{r}" R w] r by blast
    qed
    have 2: "(x, v div 512 mod 512) \<noteq> (f, i)" if x: "child w (r', v div 0x40000) = Some x" for x
    proof
      assume "(x, v div 512 mod 512) = (f, i)"
      then have xf: "x = f" by simp
      have sl': "(r', v div 0x40000) \<in> slots w R" using r'(1) user_index [OF r'(2)] by (simp add: slots_def)
      have "x \<in> kids w R" using sl' x by (auto simp: kids_def)
      then have "f \<noteq> r" using xf disj r by blast
      then obtain j where j: "j < 2" "child w (r, j) = Some f" using fd by (auto simp: dirs_def)
      have "(r, j) \<in> slots w R" using r j(1) by (simp add: slots_def)
      from slot_inj [OF t sl' this x] j(2) xf show False using r'(3) by simp
    qed
    have "leaf w' r' v = leaf w r' v" unfolding leaf_def ch using 1 2 by (auto split: option.splits)
    moreover have "w' (fst q) = w (fst q)" if "leaf w r' v = Some q" for q using tab [OF that r'(1,2)] by (simp add: w')
    ultimately show ?thesis by (auto simp: pte_def split: option.splits)
  qed
  show "tree_ok w' R"
    unfolding tree_ok_def
  proof (intro conjI ballI impI)
    show "finite R" using t by (simp add: tree_ok_def)
    show "R \<inter> kids w' R = {}" using disj kd [of R] by blast
    show "frame_ok (w' (fst y) (snd y))" if "y \<in> slots w' R" "pte_valid (w' (fst y) (snd y))" for y
    proof -
      have "y \<noteq> (f, i)" using that(2) by (auto simp: w')
      then have "w' (fst y) (snd y) = w (fst y) (snd y)" by (cases y) (auto simp: w')
      moreover have "y \<in> slots w R" using that(1) sl by blast
      ultimately show ?thesis using that(2) t by (simp add: tree_ok_def)
    qed
    show "y = z" if yz: "y \<in> slots w' R" "z \<in> slots w' R" "child w' y = child w' z" "child w' y \<noteq> None" for y z
    proof -
      obtain x where x: "child w' y = Some x" "child w' z = Some x" using yz(3,4) by (cases "child w' z") auto
      then have "child w y = Some x" "child w z = Some x" unfolding ch by (auto split: if_splits)
      moreover have "y \<in> slots w R" "z \<in> slots w R" using yz(1,2) sl by blast+
      ultimately show ?thesis using slot_inj [OF t] by blast
    qed
  qed
qed

text \<open>What the release of tables of the bare root \<open>r\<close> may do: give tables of its tree back, and nothing else.\<close>

definition pruned ::
  "(free_area \<Rightarrow> nat set \<Rightarrow> bool) \<Rightarrow> nat set \<Rightarrow> nat \<Rightarrow> nat set \<Rightarrow> pmem \<Rightarrow> nat set \<Rightarrow> pmem \<Rightarrow> bool" where
  "pruned I R r F m F' m' \<longleftrightarrow> space_ok I (\<lambda>_. 0) R F' m' \<and> bare (words m') r \<and> F \<subseteq> F' \<and> F' \<subseteq> F \<union> kids (words m) {r} \<and>
     kids (words m') {r} \<subseteq> kids (words m) {r} \<and> kids (words m') R \<subseteq> kids (words m) R \<and> data (words m') R = data (words m) R \<and>
     (\<forall>r' \<in> R. r' \<noteq> r \<longrightarrow> (\<forall>v < UPAGES. pte (words m') r' v = pte (words m) r' v)) \<and>
     (\<forall>q. q \<notin> insert r (kids (words m) {r}) \<longrightarrow> words m' q = words m q) \<and>
     (\<forall>q. q \<notin> F \<union> kids (words m) {r} \<longrightarrow> pages (parea m') q = pages (parea m) q) \<and> swap_init_ok m' = swap_init_ok m"

lemma prunedD:
  assumes "pruned I R r F m F' m'"
  shows "space_ok I (\<lambda>_. 0) R F' m'" "bare (words m') r" "F \<subseteq> F'" "F' \<subseteq> F \<union> kids (words m) {r}"
    "kids (words m') {r} \<subseteq> kids (words m) {r}" "kids (words m') R \<subseteq> kids (words m) R" "data (words m') R = data (words m) R"
    "\<And>r' v. r' \<in> R \<Longrightarrow> r' \<noteq> r \<Longrightarrow> v < UPAGES \<Longrightarrow> pte (words m') r' v = pte (words m) r' v"
    "\<And>q. q \<notin> insert r (kids (words m) {r}) \<Longrightarrow> words m' q = words m q"
    "\<And>q. q \<notin> F \<union> kids (words m) {r} \<Longrightarrow> pages (parea m') q = pages (parea m) q" "swap_init_ok m' = swap_init_ok m"
  using assms unfolding pruned_def by blast+

lemma pruned_refl: "space_ok I (\<lambda>_. 0) R F m \<Longrightarrow> bare (words m) r \<Longrightarrow> pruned I R r F m F m"
  by (simp add: pruned_def)

lemma pruned_trans:
  assumes "pruned I R r F m F1 m1" and "pruned I R r F1 m1 F2 m2"
  shows "pruned I R r F m F2 m2"
proof -
  note a = prunedD [OF assms(1)] and b = prunedD [OF assms(2)]
  have w: "words m2 q = words m q" if q: "q \<notin> insert r (kids (words m) {r})" for q
    using b(9) [of q] a(9) [OF q] q a(5) by auto
  have p: "pages (parea m2) q = pages (parea m) q" if q: "q \<notin> F \<union> kids (words m) {r}" for q
  proof -
    have "q \<notin> F1 \<union> kids (words m1) {r}" using q a(4,5) by blast
    from b(10) [OF this] a(10) [OF q] show ?thesis by (rule trans)
  qed
  have t: "pte (words m2) r' v = pte (words m) r' v" if "r' \<in> R" "r' \<noteq> r" "v < UPAGES" for r' v
    using b(8) [OF that] a(8) [OF that] by (rule trans)
  have f: "F2 \<subseteq> F \<union> kids (words m) {r}" using a(4,5) b(4) by blast
  have d: "data (words m2) R = data (words m) R" using b(7) a(7) by (rule trans)
  have sw: "swap_init_ok m2 = swap_init_ok m" using b(11) a(11) by (rule trans)
  show ?thesis
    unfolding pruned_def
    by (intro conjI allI ballI impI b(1,2) subset_trans [OF a(3) b(3)] f subset_trans [OF b(5) a(5)] subset_trans [OF b(6) a(6)] d t w p sw)
qed

context pmm_manager
begin

text \<open>A table of a bare root is freed, and its slot cleared.\<close>

lemma free_table_ok:
  assumes ok: "space_ok inv (\<lambda>_. 0) R F m" and r: "r \<in> R" and b: "bare (words m) r" and s: "(f, i) \<in> slots (words m) {r}"
    and c: "child (words m) (f, i) = Some c" and y: "y \<in> F" "c < y"
  shows "\<exists>a. free_pages free c 1 m = Some (m\<lparr>parea := a\<rparr>) \<and>
    pruned inv R r F m (F \<union> {c}) (set_word (f, i) 0 (m\<lparr>parea := a\<rparr>))"
proof -
  let ?w = "words m" and ?m = "set_word (f, i) 0 m"
  note o = ok [unfolded space_ok_def]
  have t: "tree_ok ?w R" using o by blast
  have w: "words ?m = ?w(f := (?w f)(i := 0))" by simp
  note cs = clear_slot [OF t r b s c w]
  have pt: "pte_valid (pte (words ?m) r' v) = pte_valid (pte ?w r' v) \<and> (pte_valid (pte ?w r' v) \<longrightarrow> pte (words ?m) r' v = pte ?w r' v)"
    if "r' \<in> R" "v < UPAGES" for r' v
    using cs(8,9) b that unfolding bare_def by metis
  have mp: "mapped (words ?m) R p = mapped ?w R p" for p
    using pt unfolding mapped_def by (auto simp del: pmem_sel)
  then have d: "data (words ?m) R = data ?w R" by (simp add: data_def)
  have sp: "space_ok inv (\<lambda>_. 0) R F ?m"
    unfolding space_ok_def
  proof (intro conjI)
    show "inv (parea ?m) F" "\<forall>q \<in> F. q < npage - nbase \<and> page_ref q ?m = 0" using o by simp_all
    show "tree_ok (words ?m) R" by (rule cs(10))
    show "(R \<union> kids (words ?m) R) \<inter> F = {}" "data (words ?m) R \<inter> (R \<union> kids (words ?m) R \<union> F) = {}"
      using o cs(5) unfolding d by blast+
    show "\<forall>r \<in> R. \<forall>v < UPAGES. pte_valid (pte (words ?m) r v) \<longrightarrow> frame_ok (pte (words ?m) r v)"
      using o pt by metis
    show "\<forall>p \<in> data (words ?m) R \<union> {p. (0::int) \<noteq> 0}. page_ref p ?m = int (card (mapped (words ?m) R p)) + 0"
      using o unfolding d mp by simp
    show "\<forall>p \<in> data (words ?m) R \<union> kids (words ?m) R. page_clean (pages (parea ?m) p)"
      using o cs(5) unfolding d by auto
  qed
  have cR: "c \<in> kids ?w R" using cs(7) kids_mono [of "{r}" R ?w] r by blast
  have one: "{c..<c + 1} = {c}" by auto
  have dis: "{c..<c + 1} \<inter> (F \<union> R \<union> kids (words ?m) R \<union> data (words ?m) R) = {}"
    unfolding one d using o cR cs(5) t unfolding tree_ok_def by blast
  have v: "pte_valid (?w f i)" "c = pte_frame (?w f i)" using c by (simp_all add: child_def split: if_splits)
  have "(f, i) \<in> slots ?w R" using s slots_mono [of "{r}" R ?w] r by blast
  then have "frame_ok (?w f i)" using t v(1) unfolding tree_ok_def by fastforce
  with v have "c < npage - nbase" by (auto simp: frame_ok_def pte_frame_def)
  then have cl: "\<forall>q \<in> {c..<c + 1}. q < npage - nbase \<and> page_clean (pages (parea ?m) q)"
    unfolding one using o cR by simp
  have "not_at_end F c" using y by (auto simp: not_at_end_def)
  from free_block_ok [OF sp zero_less_one dis cl this] obtain a where a: "free_pages free c 1 ?m = Some (?m\<lparr>parea := a\<rparr>)"
    "space_ok inv (\<lambda>_. 0) R (F \<union> {c}) (?m\<lparr>parea := a\<rparr>)" "\<forall>q. q \<notin> F \<union> {c} \<longrightarrow> pages a q = pages (parea ?m) q"
    unfolding one by blast
  have e: "?m\<lparr>parea := a\<rparr> = set_word (f, i) 0 (m\<lparr>parea := a\<rparr>)" by (simp add: set_word_def)
  have "free_pages free c 1 m = Some (m\<lparr>parea := a\<rparr>)" using a(1)
    by (auto simp: free_pages_def bind_eq_Some_conv set_word_def dest: arg_cong [of "pmem.parea_update _ _" _ parea])
  moreover have "pruned inv R r F m (F \<union> {c}) (set_word (f, i) 0 (m\<lparr>parea := a\<rparr>))"
    unfolding pruned_def e [symmetric]
  proof (intro conjI ballI allI impI)
    let ?M = "?m\<lparr>parea := a\<rparr>"
    have M: "words ?M = words ?m" "parea ?M = a" "swap_init_ok ?M = swap_init_ok m" by simp_all
    have f: "f \<in> insert r (kids ?w {r})" using s dirs_kids [of ?w "{r}"] by (auto simp: slots_def)
    show "space_ok inv (\<lambda>_. 0) R (F \<union> {c}) ?M" by (rule a(2))
    show "bare (words ?M) r" unfolding M by (rule cs(8))
    show "F \<subseteq> F \<union> {c}" "F \<union> {c} \<subseteq> F \<union> kids ?w {r}" using cs(7) by blast+
    show "kids (words ?M) {r} \<subseteq> kids ?w {r}" "kids (words ?M) R \<subseteq> kids ?w R" unfolding M using cs(5,6) by blast+
    show "data (words ?M) R = data ?w R" unfolding M by (rule d)
    show "swap_init_ok ?M = swap_init_ok m" by (rule M)
    show "pte (words ?M) r' v = pte ?w r' v" if "r' \<in> R" "r' \<noteq> r" "v < UPAGES" for r' v
      unfolding M using cs(9) that by blast
    show "words ?M q = ?w q" if "q \<notin> insert r (kids ?w {r})" for q using that f unfolding M w by auto
    show "pages (parea ?M) q = pages (parea m) q" if "q \<notin> F \<union> kids ?w {r}" for q
      using that a(3) cs(7) unfolding M by auto
  qed
  ultimately show ?thesis by blast
qed

text \<open>The loop over one second-level directory returns, and leaves its slot in the root.\<close>

lemma exit_pd0_ok:
  assumes "space_ok inv (\<lambda>_. 0) R F m" and r: "r \<in> R" and "bare (words m) r" and j: "j < 2"
    and "child (words m) (r, j) = Some d" and "y \<in> F" and "\<forall>x \<in> kids (words m) {r}. x < y"
    and "512 * a < UPAGES" and d1: "c < 2" and e: "e \<le> UPAGES"
  shows "\<exists>fp m' F'. exit_pd0_loop free d (va (0x40000 * c)) (va (512 * a)) (va e) fl m = Some (fp, m') \<and>
    pruned inv R r F m F' m' \<and> child (words m') (r, j) = Some d"
  using assms(1,3,5-8)
proof (induction "UPAGES - a" arbitrary: a F m fl rule: less_induct)
  case less
  let ?i = "PDX0 (va (512 * a))"
  note ok = less.prems(1) and ch = less.prems(3)
  have t: "tree_ok (words m) R" using ok by (simp add: space_ok_def)
  have dd: "d \<in> dirs (words m) {r}" using ch j by (auto simp: dirs_def)
  have i: "?i < 512" using index_va(2) [OF less.prems(6)] by simp
  have s: "(d, ?i) \<in> slots (words m) {r}" using dd i by (simp add: slots_def)
  have dr: "d \<noteq> r" using dd dirs_kids [of "words m" "{r}"] kids_mono [of "{r}" R "words m"] r t by (auto simp: tree_ok_def)
  \<comment> \<open>one slot\<close>
  obtain fp m1 F1 where st: "(if words m d ?i AND PTE_V \<noteq> 0 then do {
         pt \<leftarrow> pde2page (words m d ?i);
         if pt_empty pt m then do { m' \<leftarrow> free_pages free pt 1 m; Some (fl, set_word (d, ?i) 0 m') } else Some (fl, m)
       } else Some (False, m)) = Some (fp, m1)"
    and pr: "pruned inv R r F m F1 m1" and c1: "child (words m1) (r, j) = Some d"
  proof (cases "pte_valid (words m d ?i)")
    case False
    then show ?thesis using that [of False m F] pruned_refl [OF ok less.prems(2)] ch by (simp add: pte_valid_def)
  next
    case True
    let ?c = "pte_frame (words m d ?i)"
    have cc: "child (words m) (d, ?i) = Some ?c" using True by (simp add: child_def)
    have "(d, ?i) \<in> slots (words m) R" using s slots_mono [of "{r}" R "words m"] r by blast
    then have fo: "frame_ok (words m d ?i)" using t True unfolding tree_ok_def by fastforce
    have pg: "pde2page (words m d ?i) = Some ?c" using pa2page_ok [OF fo] by (simp add: pde2page_def)
    show ?thesis
    proof (cases "pt_empty ?c m")
      case False
      then show ?thesis using that [of fl m F] pruned_refl [OF ok less.prems(2)] ch True pg by (simp add: pte_valid_def)
    next
      case em: True
      have "?c \<in> kids (words m) {r}" using s cc by (auto simp: kids_def)
      then have "?c < y" using less.prems(5) by blast
      from free_table_ok [OF ok r less.prems(2) s cc less.prems(4) this] obtain b where
        b: "free_pages free ?c 1 m = Some (m\<lparr>parea := b\<rparr>)" "pruned inv R r F m (F \<union> {?c}) (set_word (d, ?i) 0 (m\<lparr>parea := b\<rparr>))" by blast
      have "child (words (set_word (d, ?i) 0 (m\<lparr>parea := b\<rparr>))) (r, j) = Some d"
        using ch dr by (auto simp: child_def split: if_splits)
      then show ?thesis using that [of fl _ "F \<union> {?c}"] b True pg em by (simp add: pte_valid_def)
    qed
  qed
  let ?n = "va (512 * a) + PTSIZE"
  have n: "?n = va (512 * (a + 1))" by (simp add: va_def PTSIZE_def)
  have step: "exit_pd0_loop free d (va (0x40000 * c)) (va (512 * a)) (va e) fl m =
      (if ?n \<noteq> 0 \<and> ?n < va (0x40000 * c) + PDSIZE \<and> ?n < va e
       then exit_pd0_loop free d (va (0x40000 * c)) ?n (va e) fp m1 else Some (fp, m1))"
    by (subst exit_pd0_loop.simps) (simp only: st bind.bind_lunit case_prod_conv Let_def)
  show ?case
  proof (cases "?n \<noteq> 0 \<and> ?n < va (0x40000 * c) + PDSIZE \<and> ?n < va e")
    case False
    then show ?thesis using step pr c1 by auto
  next
    case True
    note pd = prunedD [OF pr]
    have "512 * (a + 1) \<le> UPAGES" using less.prems(6) by (simp add: UPAGES_def)
    then have lt: "512 * (a + 1) < UPAGES" using True e va_order(1) [of "512 * (a + 1)" e] unfolding n by simp
    have ys: "y \<in> F1" "\<forall>x \<in> kids (words m1) {r}. x < y" using less.prems(4,5) pd(3,5) by blast+
    have "UPAGES - (a + 1) < UPAGES - a" using less.prems(6) by simp
    from less.hyps [OF this pd(1,2) c1 ys lt] obtain fp' m' F' where
      "exit_pd0_loop free d (va (0x40000 * c)) (va (512 * (a + 1))) (va e) fp m1 = Some (fp', m')"
      "pruned inv R r F1 m1 F' m'" "child (words m') (r, j) = Some d" by blast
    then show ?thesis using step True n pruned_trans [OF pr] by auto
  qed
qed

lemma exit_loop_ok:
  assumes "space_ok inv (\<lambda>_. 0) R F m" and r: "r \<in> R" and "bare (words m) r" and "y \<in> F"
    and "\<forall>x \<in> kids (words m) {r}. x < y" and "512 * a < UPAGES" and "c < 2" and e: "e \<le> UPAGES"
  shows "\<exists>m' F'. exit_loop free r (va (0x40000 * c)) (va (512 * a)) (va e) m = Some m' \<and> pruned inv R r F m F' m'"
  using assms(1,3-7)
proof (induction "2 - c" arbitrary: a c F m rule: less_induct)
  case less
  let ?i = "PDX1 (va (0x40000 * c))"
  note ok = less.prems(1)
  have t: "tree_ok (words m) R" using ok by (simp add: space_ok_def)
  have "0x40000 * c < UPAGES" using less.prems(6) by (simp add: UPAGES_def)
  from index_va(1) [OF this] have i: "?i = c" by simp
  have s: "(r, c) \<in> slots (words m) {r}" using less.prems(6) by (simp add: slots_def)
  obtain m1 F1 where st: "(if words m r ?i AND PTE_V \<noteq> 0 then do {
         pd0 \<leftarrow> pde2page (words m r ?i);
         (fp, m') \<leftarrow> exit_pd0_loop free pd0 (va (0x40000 * c)) (va (512 * a)) (va e) True m;
         if fp then do { m'' \<leftarrow> free_pages free pd0 1 m'; Some (set_word (r, ?i) 0 m'') } else Some m'
       } else Some m) = Some m1" and pr: "pruned inv R r F m F1 m1"
  proof (cases "pte_valid (words m r c)")
    case False
    then show ?thesis using that [of m F] pruned_refl [OF ok less.prems(2)] i by (simp add: pte_valid_def)
  next
    case True
    let ?d = "pte_frame (words m r c)"
    have ch: "child (words m) (r, c) = Some ?d" using True by (simp add: child_def)
    have "(r, c) \<in> slots (words m) R" using s slots_mono [of "{r}" R "words m"] r by blast
    then have fo: "frame_ok (words m r c)" using t True unfolding tree_ok_def by fastforce
    have pg: "pde2page (words m r c) = Some ?d" using pa2page_ok [OF fo] by (simp add: pde2page_def)
    from exit_pd0_ok [OF ok r less.prems(2,6) ch less.prems(3-6) e] obtain fp m' F' where
      p: "exit_pd0_loop free ?d (va (0x40000 * c)) (va (512 * a)) (va e) True m = Some (fp, m')"
        "pruned inv R r F m F' m'" "child (words m') (r, c) = Some ?d" by blast
    note pd = prunedD [OF p(2)]
    show ?thesis
    proof (cases fp)
      case False
      then show ?thesis using that [of m' F'] p True pg i by (simp add: pte_valid_def)
    next
      case fp: True
      have s': "(r, c) \<in> slots (words m') {r}" using less.prems(6) by (simp add: slots_def)
      have "?d \<in> kids (words m') {r}" using s' p(3) by (auto simp: kids_def)
      then have "?d < y" "y \<in> F'" using less.prems(3,4) pd(3,5) by blast+
      from free_table_ok [OF pd(1) r pd(2) s' p(3) this(2,1)] obtain b where
        b: "free_pages free ?d 1 m' = Some (m'\<lparr>parea := b\<rparr>)" "pruned inv R r F' m' (F' \<union> {?d}) (set_word (r, c) 0 (m'\<lparr>parea := b\<rparr>))" by blast
      then show ?thesis using that [OF _ pruned_trans [OF p(2) b(2)]] p(1) fp True pg i by (simp add: pte_valid_def)
    qed
  qed
  let ?n = "va (0x40000 * c) + PDSIZE"
  have n: "?n = va (0x40000 * (c + 1))" by (simp add: va_def PDSIZE_def)
  have step: "exit_loop free r (va (0x40000 * c)) (va (512 * a)) (va e) m =
      (if ?n \<noteq> 0 \<and> ?n < va e then exit_loop free r ?n ?n (va e) m1 else Some m1)"
    by (subst exit_loop.simps) (simp only: st bind.bind_lunit Let_def)
  show ?case
  proof (cases "?n \<noteq> 0 \<and> ?n < va e")
    case False
    then show ?thesis using step pr by auto
  next
    case True
    note pd = prunedD [OF pr]
    have "0x40000 * (c + 1) \<le> UPAGES" using less.prems(6) by (simp add: UPAGES_def)
    then have lt: "0x40000 * (c + 1) < UPAGES" using True e va_order(1) [of "0x40000 * (c + 1)" e] unfolding n by simp
    have c2: "c + 1 < 2" "512 * (512 * (c + 1)) < UPAGES" using lt by (simp_all add: UPAGES_def)
    have ys: "y \<in> F1" "\<forall>x \<in> kids (words m1) {r}. x < y" using less.prems(3,4) pd(3,5) by blast+
    have "2 - (c + 1) < 2 - c" using less.prems(6) by simp
    from less.hyps [OF this pd(1,2) ys c2(2,1)] obtain m' F' where
      2: "exit_loop free r (va (0x40000 * (c + 1))) (va (512 * (512 * (c + 1)))) (va e) m1 = Some m'" "pruned inv R r F1 m1 F' m'" by blast
    have "512 * (512 * (c + 1)) = 0x40000 * (c + 1)" by simp
    then have "exit_loop free r ?n ?n (va e) m1 = Some m'" using 2(1) n by (simp only:)
    then show ?thesis using step True pruned_trans [OF pr 2(2)] by auto
  qed
qed

lemma exit_range_ok:
  assumes "space_ok inv (\<lambda>_. 0) R F m" and "r \<in> R" and "bare (words m) r" and "y \<in> F"
    and "\<forall>x \<in> kids (words m) {r}. x < y" and v: "512 \<le> v" "v < w" "w \<le> UPAGES"
  shows "\<exists>m' F'. exit_range free r (va v) (va w) m = Some m' \<and> pruned inv R r F m F' m'"
proof -
  have lt: "v < UPAGES" using v by simp
  have u: "unat (va v) = 4096 * v" using unat_va lt by simp
  have down: "ROUNDDOWN (va v) n = va (k * (v div k))"
    if "0 < k" "unat n = 4096 * k" for n k
  proof -
    have l: "k * (v div k) \<le> UPAGES" using lt by (meson le_trans less_imp_le times_div_less_eq_dividend)
    have "unat (va v - va v mod n) = unat (va v) - unat (va v) mod unat n"
      using word_le_nat_alt [of "va v mod n" "va v"] by (simp add: unat_sub unat_mod)
    also have "\<dots> = unat (va (k * (v div k)))"
      unfolding u that(2) unat_va [OF l] using minus_mod_eq_mult_div [of "4096 * v" "4096 * k"] that(1) by simp
    finally show ?thesis by (simp only: ROUNDDOWN_def word_unat_eq_iff)
  qed
  have pd: "ROUNDDOWN (va v) PDSIZE = va (0x40000 * (v div 0x40000))" by (rule down) (simp_all add: PDSIZE_def)
  have pt: "ROUNDDOWN (va v) PTSIZE = va (512 * (v div 512))" by (rule down) (simp_all add: PTSIZE_def)
  have "512 * (v div 512) < UPAGES" "v div 0x40000 < 2" using lt user_index [OF lt] by simp_all
  from exit_loop_ok [OF assms(1-5) this v(3)] obtain m' F' where
    "exit_loop free r (va (0x40000 * (v div 0x40000))) (va (512 * (v div 512))) (va w) m = Some m'" "pruned inv R r F m F' m'" by blast
  moreover have "USER_ACCESS (va v) (va w)" using user_access [of v w] v lt by simp
  ultimately show ?thesis using va_aligned [of v] va_aligned [of w] v lt by (auto simp: exit_range_def pd pt)
qed

end

section \<open>exit\_mmap\<close>

lemma set_vmem_twice [simp]: "set_vmem a (set_vmem b s) = set_vmem a s"
  by (simp add: set_vmem_def)

lemma vmm_same_areas: "mm_list (set_vmem p s) m vs = mm_list s m vs" "pages_of (set_vmem p s) vs = pages_of s vs"
  by (simp_all add: mm_list_def pages_of_def)

context pmm_manager
begin

lemma exit_unmap_ok:
  assumes "space_ok inv (\<lambda>_. 0) R F (vmem s)" and r: "r \<in> R" and "mm_list s m (us @ ys)"
    and "\<forall>v \<in> set ys. user_area (vmas s v)" and "y \<in> F" and "\<forall>x \<in> data (words (vmem s)) R. x < y"
  shows "\<exists>p F'. exit_unmap_loop alloc free r m (last_ent m us) s = Some (set_vmem p s) \<and> shrunk inv (\<lambda>_. 0) R F (vmem s) F' p \<and>
    (\<forall>r' \<in> R. \<forall>u < UPAGES. pte (words p) r' u =
       (if r' = r \<and> u \<in> pages_of s ys \<and> pte_valid (pte (words (vmem s)) r u) then 0 else pte (words (vmem s)) r' u))"
  using assms(1,3-6)
proof (induction ys arbitrary: us s F)
  case Nil
  have "exit_unmap_loop alloc free r m (last_ent m us) s = Some (set_vmem (vmem s) s)"
    using mm_next [OF Nil.prems(2)] by (subst exit_unmap_loop.simps) (simp add: set_vmem_same)
  then show ?case using shrunk_refl [OF Nil.prems(1)] by (intro exI [of _ "vmem s"] exI [of _ F]) (simp add: pages_of_def)
next
  case (Cons v ys)
  have ml: "mm_list s m ((us @ [v]) @ ys)" using Cons.prems(2) by simp
  have "user_area (vmas s v)" using Cons.prems(3) by simp
  then obtain lo hi where b: "vm_start (vmas s v) = va lo" "vm_end (vmas s v) = va hi" "512 \<le> lo" "lo < hi" "hi \<le> UPAGES"
    "area_pages (vmas s v) = {lo..<hi}" by (rule user_areaE)
  from unmap_loop_ok [OF Cons.prems(1) r b(4,5) Cons.prems(4,5)] obtain p1 F1 where
    1: "unmap_loop alloc free r (va lo) (va hi) (vmem s) = Some p1" "shrunk inv (\<lambda>_. 0) R F (vmem s) F1 p1"
      "\<forall>r' \<in> R. \<forall>u < UPAGES. pte (words p1) r' u =
        (if r' = r \<and> lo \<le> u \<and> u < hi \<and> pte_valid (pte (words (vmem s)) r u) then 0 else pte (words (vmem s)) r' u)" by blast
  have un: "unmap_range alloc free r (va lo) (va hi) (vmem s) = Some p1"
    using 1(1) user_access [of lo hi] va_aligned [of lo] va_aligned [of hi] b(3-5) by (simp add: unmap_range_def)
  let ?s = "set_vmem p1 s"
  have step: "exit_unmap_loop alloc free r m (last_ent m us) s = exit_unmap_loop alloc free r m (last_ent m (us @ [v])) ?s"
    using mm_next [OF Cons.prems(2)] un b(1,2) by (subst exit_unmap_loop.simps) simp
  note sd = shrunkD [OF 1(2)]
  have "space_ok inv (\<lambda>_. 0) R F1 (vmem ?s)" "mm_list ?s m ((us @ [v]) @ ys)" "\<forall>v \<in> set ys. user_area (vmas ?s v)"
    "y \<in> F1" "\<forall>x \<in> data (words (vmem ?s)) R. x < y"
    using sd(1,3,4) ml Cons.prems(3-5) by (auto simp: vmm_same_areas)
  from Cons.IH [OF this] obtain p F' where
    2: "exit_unmap_loop alloc free r m (last_ent m (us @ [v])) ?s = Some (set_vmem p ?s)" "shrunk inv (\<lambda>_. 0) R F1 p1 F' p"
      "\<forall>r' \<in> R. \<forall>u < UPAGES. pte (words p) r' u =
        (if r' = r \<and> u \<in> pages_of s ys \<and> pte_valid (pte (words p1) r u) then 0 else pte (words p1) r' u)"
    by (auto simp: vmm_same_areas)
  have "pte (words p) r' u = (if r' = r \<and> u \<in> pages_of s (v # ys) \<and> pte_valid (pte (words (vmem s)) r u) then 0
      else pte (words (vmem s)) r' u)" if "r' \<in> R" "u < UPAGES" for r' u
  proof -
    have in_v: "u \<in> area_pages (vmas s v) \<longleftrightarrow> lo \<le> u \<and> u < hi" by (simp add: b(6))
    have "u \<in> pages_of s (v # ys) \<longleftrightarrow> lo \<le> u \<and> u < hi \<or> u \<in> pages_of s ys" by (simp add: pages_of_def in_v)
    moreover have "pte (words p1) r' u = (if r' = r \<and> lo \<le> u \<and> u < hi \<and> pte_valid (pte (words (vmem s)) r u) then 0
        else pte (words (vmem s)) r' u)" "pte (words p1) r u = (if lo \<le> u \<and> u < hi \<and> pte_valid (pte (words (vmem s)) r u) then 0
        else pte (words (vmem s)) r u)" using 1(3) that r by simp_all
    moreover have "pte (words p) r' u = (if r' = r \<and> u \<in> pages_of s ys \<and> pte_valid (pte (words p1) r u) then 0
        else pte (words p1) r' u)" using 2(3) that by blast
    ultimately show ?thesis by auto
  qed
  then show ?case using step 2(1) shrunk_trans [OF 1(2) 2(2)] by (intro exI [of _ p] exI [of _ F']) simp
qed

lemma exit_tables_ok:
  assumes "space_ok inv (\<lambda>_. 0) R F (vmem s)" and r: "r \<in> R" and "bare (words (vmem s)) r" and "mm_list s m (us @ ys)"
    and "\<forall>v \<in> set ys. user_area (vmas s v)" and "y \<in> F" and "\<forall>x \<in> kids (words (vmem s)) {r}. x < y"
  shows "\<exists>p F'. exit_tables_loop free r m (last_ent m us) s = Some (set_vmem p s) \<and> pruned inv R r F (vmem s) F' p"
  using assms(1,3-7)
proof (induction ys arbitrary: us s F)
  case Nil
  have "exit_tables_loop free r m (last_ent m us) s = Some (set_vmem (vmem s) s)"
    using mm_next [OF Nil.prems(3)] by (subst exit_tables_loop.simps) (simp add: set_vmem_same)
  then show ?case using pruned_refl [OF Nil.prems(1,2)] by blast
next
  case (Cons v ys)
  have ml: "mm_list s m ((us @ [v]) @ ys)" using Cons.prems(3) by simp
  have "user_area (vmas s v)" using Cons.prems(4) by simp
  then obtain lo hi where b: "vm_start (vmas s v) = va lo" "vm_end (vmas s v) = va hi" "512 \<le> lo" "lo < hi" "hi \<le> UPAGES"
    by (rule user_areaE)
  from exit_range_ok [OF Cons.prems(1) r Cons.prems(2,5,6) b(3-5)] obtain p1 F1 where
    1: "exit_range free r (va lo) (va hi) (vmem s) = Some p1" "pruned inv R r F (vmem s) F1 p1" by blast
  let ?s = "set_vmem p1 s"
  have step: "exit_tables_loop free r m (last_ent m us) s = exit_tables_loop free r m (last_ent m (us @ [v])) ?s"
    using mm_next [OF Cons.prems(3)] 1(1) b(1,2) by (subst exit_tables_loop.simps) simp
  note pd = prunedD [OF 1(2)]
  have "space_ok inv (\<lambda>_. 0) R F1 (vmem ?s)" "bare (words (vmem ?s)) r" "mm_list ?s m ((us @ [v]) @ ys)"
    "\<forall>v \<in> set ys. user_area (vmas ?s v)" "y \<in> F1" "\<forall>x \<in> kids (words (vmem ?s)) {r}. x < y"
    using pd(1-3,5) ml Cons.prems(4-6) by (auto simp: vmm_same_areas)
  from Cons.IH [OF this] obtain p F' where
    "exit_tables_loop free r m (last_ent m (us @ [v])) ?s = Some (set_vmem p ?s)" "pruned inv R r F1 p1 F' p" by auto
  then show ?case using step pruned_trans [OF 1(2)] by auto
qed

end

text \<open>A root that maps nothing is no root any more.\<close>

lemma bare_data: "bare w r \<Longrightarrow> mapped w (R - {r}) p = mapped w R p"
  by (auto simp: mapped_def bare_def)

lemma space_ok_drop:
  assumes "space_ok I (\<lambda>_. 0) R F m" and "bare (words m) r"
  shows "space_ok I (\<lambda>_. 0) (R - {r}) F m"
proof -
  let ?w = "words m" and ?S = "R - {r}"
  note o = assms(1) [unfolded space_ok_def]
  have k: "kids ?w ?S \<subseteq> kids ?w R" and sl: "slots ?w ?S \<subseteq> slots ?w R" by (rule kids_mono slots_mono, blast)+
  have d: "data ?w ?S = data ?w R" unfolding data_def bare_data [OF assms(2)] ..
  have "tree_ok ?w ?S"
    using o k sl unfolding tree_ok_def by (meson Diff_subset disjoint_iff finite_Diff subsetD)
  then show ?thesis
    using o k unfolding space_ok_def d bare_data [OF assms(2)] by blast
qed

section \<open>Objects in use\<close>

lemma free_point_in:
  assumes "free_point h b c = Some x" and "c \<in> S" and "\<forall>z \<in> S. snext h z \<in> S"
  shows "x \<in> S"
  using assms
  by (induction rule: free_point.raw_induct [rotated, consumes 1]) (auto split: if_splits)

lemma sseg_closed: "sseg h p xs q \<Longrightarrow> z \<in> set (p # xs) \<Longrightarrow> snext h z \<in> set (xs @ [q])"
  by (induction xs arbitrary: p) auto

text \<open>Giving a block back changes the size of no other block that is in use.\<close>

lemma slob_free_sizes:
  assumes "slob_inv h bs" and "slob_free b 0 h = Some h'" and "x \<noteq> b" and "x \<notin> set (arena h # bs)"
  shows "sunits h' x = sunits h x"
proof -
  obtain c where c: "free_point h b (slobfree h) = Some c" "h' = slob_insert b c h"
    using assms(2) by (auto simp: slob_free_def bind_eq_Some_conv)
  have "c \<in> set (arena h # bs)"
  proof (rule free_point_in [OF c(1)])
    show "slobfree h \<in> set (arena h # bs)" using assms(1) by (simp add: slob_inv_def)
    show "\<forall>z \<in> set (arena h # bs). snext h z \<in> set (arena h # bs)"
      using sseg_closed [of h "arena h" bs "arena h"] assms(1) by (fastforce simp: slob_inv_def)
  qed
  then have "x \<noteq> c" using assms(4) by blast
  then show ?thesis using assms(3) by (simp add: c(2) slob_insert_def join_next_def join_prev_def)
qed

lemma slob_free_arena: "slob_free b sz h = Some h' \<Longrightarrow> arena h' = arena h"
  by (auto simp: slob_free_def slob_insert_def join_prev_def join_next_def set_units_def set_snext_def Let_def
      bind_eq_Some_conv split: if_splits)

text \<open>Objects, with their sizes, that are all in use and apart from each other.\<close>

definition obj_units :: "nat \<times> nat \<Rightarrow> nat set" where
  "obj_units x = {fst x - 1..<fst x + SLOB_UNITS (snd x)}"

definition objects_held :: "nat list \<Rightarrow> nat set \<Rightarrow> vmm \<Rightarrow> (nat \<times> nat) list \<Rightarrow> bool" where
  "objects_held bs F s os \<longleftrightarrow> (\<forall>x \<in> set os. object_held bs F s (fst x) (snd x)) \<and>
     sorted_wrt (\<lambda>x y. obj_units x \<inter> obj_units y = {}) os"

context pmm_manager
begin

lemma krelease_objects_ok:
  assumes ok: "vm_ok inv R bs F s" and ob: "objects_held bs F s ((obj, n) # os)"
  shows "\<exists>h cs. krelease free obj s = Some (with_heap h s) \<and> vm_ok inv R cs F (with_heap h s) \<and> vmem (with_heap h s) = vmem s \<and>
    unused cs F (with_heap h s) = unused bs F s \<union> obj_units (obj, n) \<and> objects_held cs F (with_heap h s) os"
proof -
  have o: "object_held bs F s obj n" "\<forall>x \<in> set os. object_held bs F s (fst x) (snd x)"
    "\<forall>x \<in> set os. obj_units (obj, n) \<inter> obj_units x = {}" "sorted_wrt (\<lambda>x y. obj_units x \<inter> obj_units y = {}) os"
    using ob by (simp_all add: objects_held_def)
  from krelease_ok [OF ok o(1)] obtain h cs where r: "krelease free obj s = Some (with_heap h s)"
    "vm_ok inv R cs F (with_heap h s)" "vmem (with_heap h s) = vmem s"
    "slob_free_units h cs = slob_free_units (vmm.heap s) bs \<union> {obj - 1..<obj + SLOB_UNITS n}" by blast
  let ?h = "(vmm.heap s)\<lparr>pmm := parea (vmem s)\<rparr>"
  have un: "unused cs F (with_heap h s) = unused bs F s \<union> obj_units (obj, n)"
    unfolding unused_def with_heap_sel r(4) obj_units_def by auto
  have "heap_inv ?h bs F" using ok by (simp add: vm_ok_def heap_inv_pmm)
  then have hi: "slob_inv ?h bs" by (simp add: heap_inv_def)
  have "kfree free obj ?h = Some h"
  proof -
    obtain h' where "kfree free obj ?h = Some h'" "with_heap h' s = with_heap h s" using r(1) by (auto simp: krelease_def bind_eq_Some_conv)
    moreover from this(2) have "h' = h" by (metis with_heap_sel(2))
    ultimately show ?thesis by simp
  qed
  then have sf: "slob_free (obj - 1) 0 ?h = Some h"
    using o(1) find_big.simps [of ?h obj None None] by (auto simp: kfree_def object_held_def split: if_splits)
  have keep: "object_held cs F (with_heap h s) (fst x) (snd x)" if x: "x \<in> set os" for x
  proof -
    have h: "object_held bs F s (fst x) (snd x)" and d: "obj_units (obj, n) \<inter> obj_units x = {}" using o(2,3) x by blast+
    note hx = h [unfolded object_held_def]
    have "0 < fst x" "0 < obj" using hx o(1) by (auto simp: object_held_def)
    then have in_x: "fst x - 1 \<in> obj_units x" and "obj - 1 \<in> obj_units (obj, n)" by (simp_all add: obj_units_def)
    then have ne: "fst x - 1 \<noteq> obj - 1" using d in_x by auto
    have "fst x - 1 \<notin> set (arena ?h # bs)"
    proof
      assume a: "fst x - 1 \<in> set (arena ?h # bs)"
      have "fst x - 1 \<noteq> arena ?h" using hx by auto
      then have "fst x - 1 \<in> set bs" using a by simp
      moreover have "0 < sunits ?h b" if "b \<in> set bs" for b
        using that hi ordered_pos [of "sunits ?h" "arena ?h # bs"] by (auto simp: slob_inv_def)
      ultimately have "fst x - 1 \<in> slob_free_units (vmm.heap s) bs" by (force simp: slob_free_units_def blk_def)
      then show False using hx in_x by (auto simp: unused_def obj_units_def)
    qed
    from slob_free_sizes [OF hi sf ne this] have su: "sunits h (fst x - 1) = sunits (vmm.heap s) (fst x - 1)" by simp
    have "arena h = arena (vmm.heap s)" "bigblocks h = bigblocks (vmm.heap s)"
      using slob_free_big [OF sf] slob_free_arena [OF sf] by (simp_all add: same_big_def)
    then show ?thesis
      using hx su d unfolding object_held_def un with_heap_sel by (auto simp: obj_units_def)
  qed
  show ?thesis using r(1-3) un keep o(4) by (intro exI [of _ h] exI [of _ cs]) (simp add: objects_held_def)
qed

lemma objects_held_cong: "vmm.heap t = vmm.heap s \<Longrightarrow> objects_held bs F t os = objects_held bs F s os"
  by (simp add: objects_held_def object_held_def unused_def)

lemma objects_held_more:
  assumes "objects_held bs F s os" and "vmm.heap t = vmm.heap s" and "\<forall>x \<in> set os. obj_units x \<inter> page_units G = {}" and "F' \<subseteq> F \<union> G"
  shows "objects_held bs F' t os"
proof -
  have "unused bs F' t \<subseteq> unused bs F s \<union> page_units G"
    using assms(2,4) unfolding unused_def page_units_def by auto
  then have "obj_units x \<inter> unused bs F' t = {}" if "x \<in> set os" for x
    using assms(1,3) that unfolding objects_held_def object_held_def obj_units_def by blast
  then show ?thesis
    using assms(1,2) unfolding objects_held_def object_held_def obj_units_def by simp
qed

lemma destroy_loop_ok:
  assumes "vm_ok inv R bs F s" and "mm_list s m vs" and "objects_held bs F s (map (\<lambda>v. (v, sizeof_vma_struct)) vs @ os)"
  shows "\<exists>s' cs. destroy_loop free m s = Some s' \<and> vm_ok inv R cs F s' \<and> vmem s' = vmem s \<and> mms s' = mms s \<and> vmas s' = vmas s \<and>
    unused cs F s' = unused bs F s \<union> (\<Union>v \<in> set vs. obj_units (v, sizeof_vma_struct)) \<and> objects_held cs F s' os"
  using assms
proof (induction vs arbitrary: s bs)
  case Nil
  have "destroy_loop free m s = Some s"
    using mm_next [of s m "[]" "[]"] Nil.prems(2) by (subst destroy_loop.simps) (simp add: Let_def)
  then show ?case using Nil.prems by (intro exI [of _ s] exI [of _ bs]) simp
next
  case (Cons v vs)
  have nx: "list_next (MmapList m) (vlinks s) = VmaLink v" using mm_next [of s m "[]" "v # vs"] Cons.prems(2) by simp
  let ?s = "s\<lparr>vlinks := list_del (VmaLink v) (vlinks s)\<rparr>"
  have same: "vmem ?s = vmem s" "vmm.heap ?s = vmm.heap s" by (simp_all add: vmem_def)
  have ml: "mm_list ?s m vs"
    using list_del_dlist [of "vlinks s" "MmapList m" "[]" "VmaLink v" "map VmaLink vs"] Cons.prems(2) by (simp add: mm_list_def)
  have vm: "vm_ok inv R bs F ?s" by (rule vm_ok_cong [OF Cons.prems(1) same])
  have ob: "objects_held bs F ?s ((v, sizeof_vma_struct) # map (\<lambda>v. (v, sizeof_vma_struct)) vs @ os)"
    using Cons.prems(3) objects_held_cong [OF same(2)] by simp
  from krelease_objects_ok [OF vm ob] obtain h ds where r: "krelease free v ?s = Some (with_heap h ?s)"
    "vm_ok inv R ds F (with_heap h ?s)" "vmem (with_heap h ?s) = vmem ?s"
    "unused ds F (with_heap h ?s) = unused bs F ?s \<union> obj_units (v, sizeof_vma_struct)"
    "objects_held ds F (with_heap h ?s) (map (\<lambda>v. (v, sizeof_vma_struct)) vs @ os)" by blast
  have step: "destroy_loop free m s = destroy_loop free m (with_heap h ?s)"
    using nx r(1) by (subst destroy_loop.simps) (simp add: Let_def)
  have "mm_list (with_heap h ?s) m vs" using ml by (simp add: mm_list_def)
  from Cons.IH [OF r(2) this r(5)] obtain s' cs where i: "destroy_loop free m (with_heap h ?s) = Some s'" "vm_ok inv R cs F s'"
    "vmem s' = vmem (with_heap h ?s)" "mms s' = mms (with_heap h ?s)" "vmas s' = vmas (with_heap h ?s)"
    "unused cs F s' = unused ds F (with_heap h ?s) \<union> (\<Union>v \<in> set vs. obj_units (v, sizeof_vma_struct))" "objects_held cs F s' os" by blast
  have "vmem s' = vmem s" unfolding i(3) r(3) same ..
  moreover have "mms s' = mms s" "vmas s' = vmas s" using i(4,5) by simp_all
  moreover have "unused bs F ?s = unused bs F s" by (rule unused_cong) (rule same)
  then have "unused cs F s' = unused bs F s \<union> (\<Union>v \<in> set (v # vs). obj_units (v, sizeof_vma_struct))"
    unfolding i(6) r(4) by auto
  ultimately show ?case using step i(1,2,7) by (intro exI [of _ s'] exI [of _ cs]) simp
qed

lemma mm_destroy_ok:
  assumes "vm_ok inv R bs F s" and "mm_list s m vs" and "mm_count (mms s m) = 0"
    and "objects_held bs F s (map (\<lambda>v. (v, sizeof_vma_struct)) vs @ [(m, sizeof_mm_struct)])"
  shows "\<exists>s' cs. mm_destroy free m s = Some s' \<and> vm_ok inv R cs F s' \<and> vmem s' = vmem s \<and> mms s' = mms s \<and> vmas s' = vmas s \<and>
    unused cs F s' = unused bs F s \<union> (\<Union>v \<in> set vs. obj_units (v, sizeof_vma_struct)) \<union> obj_units (m, sizeof_mm_struct)"
proof -
  from destroy_loop_ok [OF assms(1,2,4)] obtain s1 cs where d: "destroy_loop free m s = Some s1" "vm_ok inv R cs F s1" "vmem s1 = vmem s"
    "mms s1 = mms s" "vmas s1 = vmas s" "unused cs F s1 = unused bs F s \<union> (\<Union>v \<in> set vs. obj_units (v, sizeof_vma_struct))"
    "objects_held cs F s1 [(m, sizeof_mm_struct)]" by blast
  from krelease_objects_ok [OF d(2,7)] obtain h ds where r: "krelease free m s1 = Some (with_heap h s1)" "vm_ok inv R ds F (with_heap h s1)"
    "vmem (with_heap h s1) = vmem s1" "unused ds F (with_heap h s1) = unused cs F s1 \<union> obj_units (m, sizeof_mm_struct)" by blast
  have "mm_destroy free m s = Some (with_heap h s1)" using assms(3) d(1) r(1) by (simp add: mm_destroy_def)
  moreover have "vmem (with_heap h s1) = vmem s" using r(3) d(3) by (rule trans)
  ultimately show ?thesis
    using r(2,4) d(4-6) by (intro exI [of _ "with_heap h s1"] exI [of _ ds]) simp
qed

end

section \<open>An address space of one process\<close>

abbreviation in_use :: "vmm \<Rightarrow> nat set \<Rightarrow> nat set" where
  "in_use s R \<equiv> R \<union> kids (words (vmem s)) R \<union> data (words (vmem s)) R"

definition mm_objects :: "nat \<Rightarrow> nat list \<Rightarrow> (nat \<times> nat) list" where
  "mm_objects m vs = map (\<lambda>v. (v, sizeof_vma_struct)) vs @ [(m, sizeof_mm_struct)]"

text \<open>
  The address space \<open>m\<close> with the areas \<open>vs\<close> and the root \<open>r\<close>, as the operations on it leave it: all it maps lies in
  its areas, its objects and frames are in use and apart, and a free frame lies above all frames in use (without one,
  \<open>default_free_pages\<close> damages the free list).
\<close>

definition space_held :: "nat set \<Rightarrow> nat list \<Rightarrow> nat set \<Rightarrow> vmm \<Rightarrow> nat \<Rightarrow> nat list \<Rightarrow> nat \<Rightarrow> bool" where
  "space_held R bs F s m vs r \<longleftrightarrow> mm_list s m vs \<and> pgdir (mms s m) = Some r \<and> r \<in> R \<and>
     (\<forall>v \<in> set vs. user_area (vmas s v)) \<and> (\<forall>u < UPAGES. pte_valid (pte (words (vmem s)) r u) \<longrightarrow> u \<in> pages_of s vs) \<and>
     r < npage - nbase \<and> page_clean (pages (parea (vmem s)) r) \<and> (\<exists>y \<in> F. \<forall>x \<in> in_use s R. x < y) \<and>
     slob_free_units (vmm.heap s) bs \<inter> page_units (in_use s R) = {} \<and> objects_held bs F s (mm_objects m vs) \<and>
     (\<forall>x \<in> set (mm_objects m vs). obj_units x \<inter> page_units (in_use s R) = {})"

text \<open>
  It is gone: its root, every frame that no other space maps and its objects are free, and the other spaces have
  what they had.
\<close>

definition space_gone :: "nat set \<Rightarrow> nat list \<Rightarrow> nat set \<Rightarrow> vmm \<Rightarrow> nat \<Rightarrow> nat list \<Rightarrow> nat \<Rightarrow> nat list \<Rightarrow> nat set \<Rightarrow> vmm \<Rightarrow> bool" where
  "space_gone R bs F s m vs r cs G s' \<longleftrightarrow>
     F \<union> {r} \<union> (data (words (vmem s)) R - data (words (vmem s)) (R - {r})) \<subseteq> G \<and> G \<subseteq> F \<union> in_use s R \<and>
     unused bs F s \<union> (\<Union>x \<in> set (mm_objects m vs). obj_units x) \<subseteq> unused cs G s' \<and>
     (\<forall>r' \<in> R. r' \<noteq> r \<longrightarrow> (\<forall>u < UPAGES. pte (words (vmem s')) r' u = pte (words (vmem s)) r' u)) \<and>
     (\<forall>q. q \<notin> R \<union> kids (words (vmem s)) R \<longrightarrow> words (vmem s') q = words (vmem s) q) \<and>
     (\<forall>x. x \<noteq> m \<longrightarrow> mms s' x = mms s x) \<and> vmas s' = vmas s"

context pmm_manager
begin

lemma exit_mmap_ok:
  assumes vm: "vm_ok inv R bs F s" and h: "space_held R bs F s m vs r" and c: "mm_count (mms s m) = 0"
  shows "\<exists>p G. exit_mmap alloc free m s = Some (set_vmem p s) \<and> space_ok inv (\<lambda>_. 0) R G p \<and> bare (words p) r \<and>
    kids (words p) R \<subseteq> kids (words (vmem s)) R \<and> data (words p) R = data (words (vmem s)) (R - {r}) \<and>
    F \<union> (data (words (vmem s)) R - data (words (vmem s)) (R - {r})) \<subseteq> G \<and>
    G \<subseteq> F \<union> kids (words (vmem s)) R \<union> data (words (vmem s)) R \<and>
    (\<forall>r' \<in> R. r' \<noteq> r \<longrightarrow> (\<forall>u < UPAGES. pte (words p) r' u = pte (words (vmem s)) r' u)) \<and>
    (\<forall>q. q \<notin> R \<union> kids (words (vmem s)) R \<longrightarrow> words p q = words (vmem s) q) \<and>
    (\<forall>q. q \<notin> F \<union> kids (words (vmem s)) R \<union> data (words (vmem s)) R \<longrightarrow> pages (parea p) q = pages (parea (vmem s)) q)"
proof -
  let ?w = "words (vmem s)"
  have sp: "space_ok inv (\<lambda>_. 0) R F (vmem s)" using vm by (simp add: vm_ok_def)
  note sh = h [unfolded space_held_def]
  have rR: "r \<in> R" and ml: "mm_list s m ([] @ vs)" and ua: "\<forall>v \<in> set vs. user_area (vmas s v)"
    and cov: "\<forall>u < UPAGES. pte_valid (pte ?w r u) \<longrightarrow> u \<in> pages_of s vs" using sh by simp_all
  obtain y where y: "y \<in> F" "\<forall>x \<in> R \<union> kids ?w R \<union> data ?w R. x < y" using sh by blast
  have "\<forall>x \<in> data ?w R. x < y" using y(2) by blast
  from exit_unmap_ok [OF sp rR ml ua y(1) this] obtain p1 F1 where
    1: "exit_unmap_loop alloc free r m (MmapList m) s = Some (set_vmem p1 s)" "shrunk inv (\<lambda>_. 0) R F (vmem s) F1 p1"
      "\<forall>r' \<in> R. \<forall>u < UPAGES. pte (words p1) r' u =
        (if r' = r \<and> u \<in> pages_of s vs \<and> pte_valid (pte ?w r u) then 0 else pte ?w r' u)" by auto
  note sd = shrunkD [OF 1(2)]
  have bare: "bare (words p1) r"
    unfolding bare_def using 1(3) cov rR pte_valid_simps by (metis (no_types, lifting))
  have other: "pte (words p1) r' u = pte ?w r' u" if "r' \<in> R" "r' \<noteq> r" "u < UPAGES" for r' u using 1(3) that by simp
  have sub: "kids (words p1) {r} \<subseteq> kids ?w R" using kids_mono [of "{r}" R "words p1"] rR sd(2) by blast
  have "space_ok inv (\<lambda>_. 0) R F1 (vmem (set_vmem p1 s))" "bare (words (vmem (set_vmem p1 s))) r"
    "mm_list (set_vmem p1 s) m ([] @ vs)" "\<forall>v \<in> set vs. user_area (vmas (set_vmem p1 s) v)" "y \<in> F1"
    "\<forall>x \<in> kids (words (vmem (set_vmem p1 s))) {r}. x < y"
    using sd(1,4) bare ml ua y sub by (auto simp: vmm_same_areas)
  from exit_tables_ok [OF this(1) rR this(2-6)] obtain p G where
    2: "exit_tables_loop free r m (MmapList m) (set_vmem p1 s) = Some (set_vmem p s)" "pruned inv R r F1 p1 G p" by auto
  note pd = prunedD [OF 2(2)]
  have ex: "exit_mmap alloc free m s = Some (set_vmem p s)" using c sh 1(1) 2(1) by (simp add: exit_mmap_def)
  have pt: "pte (words p) r' u = pte ?w r' u" if "r' \<in> R" "r' \<noteq> r" "u < UPAGES" for r' u
    using pd(8) [OF that] other [OF that] by (rule trans)
  have dat: "data (words p) R = data ?w (R - {r})"
  proof -
    have "data (words p) R = data (words p) (R - {r})" unfolding data_def bare_data [OF pd(2)] ..
    also have "\<dots> = data ?w (R - {r})" by (rule data_pte_cong) (use pt in simp)
    finally show ?thesis .
  qed
  then have dat1: "data (words p1) R = data ?w (R - {r})" using pd(7) by simp
  have F1: "F1 = F \<union> (data ?w R - data ?w (R - {r}))" using sd(4) dat1 by simp
  have "words p q = ?w q" if "q \<notin> R \<union> kids ?w R" for q
    using pd(9) [of q] sd(6) [of q] that sub rR by auto
  moreover have "pages (parea p) q = pages (parea (vmem s)) q" if "q \<notin> F \<union> kids ?w R \<union> data ?w R" for q
    using pd(10) [of q] sd(7) [of q] that sub F1 by auto
  moreover have "kids (words p) R \<subseteq> kids ?w R" using pd(6) sd(2) by simp
  moreover have "G \<subseteq> F \<union> kids ?w R \<union> data ?w R" using pd(4) F1 sub by blast
  moreover have "F \<union> (data ?w R - data ?w (R - {r})) \<subseteq> G" using pd(3) F1 by simp
  ultimately show ?thesis using ex pd(1,2) dat pt by blast
qed

lemma release_space_ok:
  assumes vm: "vm_ok inv R bs F s" and h: "space_held R bs F s m vs r" and c: "mm_count (mms s m) = 0"
  shows "\<exists>s1 p2 s3 cs G. exit_mmap alloc free m s = Some s1 \<and> pgdir (mms s1 m) = Some r \<and> free_pages free r 1 (vmem s1) = Some p2 \<and>
    mm_destroy free m (set_vmem p2 s1) = Some s3 \<and> vm_ok inv (R - {r}) cs G s3 \<and> space_gone R bs F s m vs r cs G s3"
proof -
  let ?w = "words (vmem s)" and ?U = "in_use s R"
  have sp: "space_ok inv (\<lambda>_. 0) R F (vmem s)" and hi: "heap_inv (vmm.heap s) bs F" using vm by (simp_all add: vm_ok_def)
  note sh = h [unfolded space_held_def]
  note o = sp [unfolded space_ok_def]
  have rR: "r \<in> R" using sh by simp
  obtain y where y: "y \<in> F" "\<forall>x \<in> ?U. x < y" using sh by blast
  obtain p G where p: "exit_mmap alloc free m s = Some (set_vmem p s)" "space_ok inv (\<lambda>_. 0) R G p" "bare (words p) r"
    "kids (words p) R \<subseteq> kids ?w R" "data (words p) R = data ?w (R - {r})" "F \<union> (data ?w R - data ?w (R - {r})) \<subseteq> G"
    "G \<subseteq> F \<union> kids ?w R \<union> data ?w R" "\<forall>r' \<in> R. r' \<noteq> r \<longrightarrow> (\<forall>u < UPAGES. pte (words p) r' u = pte ?w r' u)"
    "\<forall>q. q \<notin> R \<union> kids ?w R \<longrightarrow> words p q = ?w q"
    "\<forall>q. q \<notin> F \<union> kids ?w R \<union> data ?w R \<longrightarrow> pages (parea p) q = pages (parea (vmem s)) q"
    using exit_mmap_ok [OF assms] by (elim exE conjE) (rule that)
  have one: "{r..<r + 1} = {r}" by auto
  have rn: "r \<notin> F \<union> kids ?w R \<union> data ?w R" using o rR unfolding tree_ok_def by blast
  note d = space_ok_drop [OF p(2,3)]
  have dj: "{r..<r + 1} \<inter> (G \<union> (R - {r}) \<union> kids (words p) (R - {r}) \<union> data (words p) (R - {r})) = {}"
  proof -
    have "kids (words p) (R - {r}) \<subseteq> kids ?w R" using kids_mono [of "R - {r}" R "words p"] p(4) by blast
    moreover have "data (words p) (R - {r}) = data ?w (R - {r})" using p(5) unfolding data_def bare_data [OF p(3)] .
    moreover have "data ?w (R - {r}) \<subseteq> data ?w R" unfolding data_def mapped_def by blast
    ultimately show ?thesis using rn p(7) unfolding one by blast
  qed
  have cl: "\<forall>q \<in> {r..<r + 1}. q < npage - nbase \<and> page_clean (pages (parea p) q)"
    unfolding one using sh p(10) rn by simp
  have ne: "not_at_end G r" using y p(6) rR by (auto simp: not_at_end_def)
  obtain a where a: "free_pages free r 1 p = Some (p\<lparr>parea := a\<rparr>)"
    "space_ok inv (\<lambda>_. 0) (R - {r}) (G \<union> {r}) (p\<lparr>parea := a\<rparr>)"
    using free_block_ok [OF d zero_less_one dj cl ne] unfolding one by (elim exE conjE) (rule that)
  let ?p = "p\<lparr>parea := a\<rparr>" and ?s = "set_vmem (p\<lparr>parea := a\<rparr>) s"
  have sub: "G \<union> {r} \<subseteq> F \<union> ?U" using p(7) rR by blast
  have hi2: "heap_inv (vmm.heap ?s) bs (G \<union> {r})"
  proof -
    have "page_units (G \<union> {r}) \<subseteq> page_units F \<union> page_units ?U" using sub unfolding page_units_def by blast
    moreover have "slob_free_units (vmm.heap s) bs \<inter> page_units F = {}" using hi by (simp add: heap_inv_def)
    moreover have "slob_free_units (vmm.heap s) bs \<inter> page_units ?U = {}" using sh by blast
    ultimately have "slob_free_units (vmm.heap s) bs \<inter> page_units (G \<union> {r}) = {}" by blast
    then show ?thesis using hi unfolding heap_inv_def vmm_sel by blast
  qed
  have vm2: "vm_ok inv (R - {r}) bs (G \<union> {r}) ?s" using a(2) hi2 by (simp add: vm_ok_def)
  have ob: "objects_held bs (G \<union> {r}) ?s (map (\<lambda>v. (v, sizeof_vma_struct)) vs @ [(m, sizeof_mm_struct)])"
    by (rule objects_held_more [OF _ _ _ sub, of bs s]) (use sh in \<open>simp_all add: mm_objects_def\<close>)
  have ml: "mm_list ?s m vs" "mm_count (mms ?s m) = 0" using sh c by (simp_all add: vmm_same_areas)
  from mm_destroy_ok [OF vm2 ml ob] obtain s3 cs where e: "mm_destroy free m ?s = Some s3" "vm_ok inv (R - {r}) cs (G \<union> {r}) s3"
    "vmem s3 = ?p" "mms s3 = mms s" "vmas s3 = vmas s"
    "unused cs (G \<union> {r}) s3 = unused bs (G \<union> {r}) ?s \<union> (\<Union>v \<in> set vs. obj_units (v, sizeof_vma_struct)) \<union> obj_units (m, sizeof_mm_struct)"
    by auto
  have "unused bs F s \<subseteq> unused bs (G \<union> {r}) ?s" by (rule unused_mono) (use p(6) in auto)
  then have "space_gone R bs F s m vs r cs (G \<union> {r}) s3"
    unfolding space_gone_def e(3-6) using p(6,8,9) sub by (auto simp: mm_objects_def)
  moreover have "free_pages free r 1 (vmem (set_vmem p s)) = Some ?p" "pgdir (mms (set_vmem p s) m) = Some r" using a(1) sh by simp_all
  moreover have "mm_destroy free m (set_vmem ?p (set_vmem p s)) = Some s3" using e(1) by simp
  ultimately show ?thesis using p(1) e(2) by blast
qed

end

text \<open>
  What \<open>release_mm\<close> needs, and what it does to memory: nothing for a kernel thread, one reference less while other
  processes use the address space, and the last one gives it back.
\<close>

definition may_release :: "(free_area \<Rightarrow> nat set \<Rightarrow> bool) \<Rightarrow> nat set \<Rightarrow> nat list \<Rightarrow> nat set \<Rightarrow> kern \<Rightarrow> nat list \<Rightarrow> nat \<Rightarrow> bool" where
  "may_release I R bs F k vs r \<longleftrightarrow> (case proc_mm (pcbs k (cur k)) of None \<Rightarrow> True
     | Some m \<Rightarrow> mm_count (mms (kvm k) m) = 1 \<longrightarrow> vm_ok I R bs F (kvm k) \<and> space_held R bs F (kvm k) m vs r)"

definition mm_released ::
  "(free_area \<Rightarrow> nat set \<Rightarrow> bool) \<Rightarrow> nat set \<Rightarrow> nat list \<Rightarrow> nat set \<Rightarrow> kern \<Rightarrow> nat list \<Rightarrow> nat \<Rightarrow> nat list \<Rightarrow> nat set \<Rightarrow> vmm \<Rightarrow> bool" where
  "mm_released I R bs F k vs r cs G v \<longleftrightarrow> (case proc_mm (pcbs k (cur k)) of None \<Rightarrow> v = kvm k
     | Some m \<Rightarrow> if mm_count (mms (kvm k) m) = 1 then vm_ok I (R - {r}) cs G v \<and> space_gone R bs F (kvm k) m vs r cs G v
         else v = upd_mm m (\<lambda>q. q\<lparr>mm_count := mm_count q - 1\<rparr>) (kvm k))"

context pmm_manager
begin

lemma release_mm_ok:
  assumes "may_release inv R bs F k vs r"
  shows "\<exists>k1 cs G. release_mm alloc free k = Some k1 \<and> mm_released inv R bs F k vs r cs G (kvm k1)"
proof (cases "\<exists>m. proc_mm (pcbs k (cur k)) = Some m \<and> mm_count (mms (kvm k) m) = 1")
  case False
  then have "case proc_mm (pcbs k (cur k)) of None \<Rightarrow> True | Some mm \<Rightarrow> mm_count (mms (kvm k) mm) \<noteq> 1"
    by (auto split: option.splits)
  from release_mm_shared [OF this, of alloc free] obtain k1 where "release_mm alloc free k = Some k1"
    "kvm k1 = (case proc_mm (pcbs k (cur k)) of None \<Rightarrow> kvm k | Some mm \<Rightarrow> snd (mm_count_dec mm (kvm k)))" by blast
  then show ?thesis
    using False by (cases "proc_mm (pcbs k (cur k))") (auto simp: mm_released_def mm_count_dec_def Let_def)
next
  case True
  then obtain m where m: "proc_mm (pcbs k (cur k)) = Some m" "mm_count (mms (kvm k) m) = 1" by blast
  then have vm: "vm_ok inv R bs F (kvm k)" and h: "space_held R bs F (kvm k) m vs r" using assms by (simp_all add: may_release_def)
  let ?v = "upd_mm m (\<lambda>q. q\<lparr>mm_count := mm_count q - 1\<rparr>) (kvm k)"
  have vm1: "vm_ok inv R bs F ?v" by (rule vm_ok_cong [OF vm]) simp_all
  have "unused bs F ?v = unused bs F (kvm k)" by (rule unused_cong) simp
  then have h1: "space_held R bs F ?v m vs r"
    using h objects_held_cong [of ?v "kvm k"] by (simp add: space_held_def mm_list_def pages_of_def)
  have c: "mm_count (mms ?v m) = 0" using m(2) by simp
  obtain s1 p2 s3 cs G where x: "exit_mmap alloc free m ?v = Some s1" "pgdir (mms s1 m) = Some r" "free_pages free r 1 (vmem s1) = Some p2"
    "mm_destroy free m (set_vmem p2 s1) = Some s3" "vm_ok inv (R - {r}) cs G s3" "space_gone R bs F ?v m vs r cs G s3"
    using release_space_ok [OF vm1 h1 c] by blast
  have "space_gone R bs F (kvm k) m vs r cs G s3"
    using x(6) unfolding space_gone_def unused_def by simp
  moreover obtain k1 where "release_mm alloc free k = Some k1" "kvm k1 = s3"
    using m x(1-4) by (simp add: release_mm_def mm_count_dec_def Let_def kexit_mmap_def put_pgdir_def kmm_destroy_def)
  ultimately show ?thesis using m x(5) by (auto simp: mm_released_def)
qed

end

context processes
begin

lemma do_exit_releases_ok:
  assumes "procs_ok k ps ch i" and "ok (sch k)" and "set ps \<subseteq> P" and "cur k \<in> set ps" and "cur k \<noteq> i"
    and "state (procs (sch k) (cur k)) = PROC_RUNNABLE" and "proc_parent (pcbs k (cur k)) = Some par"
    and "may_release inv R bs F k vs r"
  shows "\<exists>k' cs G. do_exit sc alloc free code k = Some k' \<and> mm_released inv R bs F k vs r cs G (kvm k') \<and>
    procs_ok k' ps (ch(cur k := [], i := rev (ch (cur k)) @ ch i)) i \<and> ok (sch k') \<and>
    cur k' \<noteq> cur k \<and> satp k' = cr3 (pcbs k' (cur k')) \<and>
    state (procs (sch k') (cur k)) = PROC_ZOMBIE \<and> exit_code (pcbs k' (cur k)) = code \<and>
    (wait_state (procs (sch k) par) = WT_CHILD \<longrightarrow> state (procs (sch k') par) = PROC_RUNNABLE) \<and>
    (wait_state (procs (sch k) i) = WT_CHILD \<and> (\<exists>z \<in> set (ch (cur k)). state (procs (sch k) z) = PROC_ZOMBIE)
       \<longrightarrow> state (procs (sch k') i) = PROC_RUNNABLE) \<and>
    (\<forall>q. q \<noteq> cur k \<longrightarrow> no_links (pcbs k' q) = no_links (pcbs k q) \<and>
       (q \<noteq> par \<longrightarrow> q \<noteq> i \<longrightarrow> state (procs (sch k') q) = state (procs (sch k) q)))"
proof -
  from release_mm_ok [OF assms(8)] obtain k1 cs G where
    1: "release_mm alloc free k = Some k1" "mm_released inv R bs F k vs r cs G (kvm k1)" by blast
  from do_exit_ok [OF assms(1-6) 1(1) assms(7), of code] obtain k' where "do_exit sc alloc free code k = Some k'" "kvm k' = kvm k1"
    "procs_ok k' ps (ch(cur k := [], i := rev (ch (cur k)) @ ch i)) i \<and> ok (sch k') \<and>
    cur k' \<noteq> cur k \<and> satp k' = cr3 (pcbs k' (cur k')) \<and>
    state (procs (sch k') (cur k)) = PROC_ZOMBIE \<and> exit_code (pcbs k' (cur k)) = code \<and>
    (wait_state (procs (sch k) par) = WT_CHILD \<longrightarrow> state (procs (sch k') par) = PROC_RUNNABLE) \<and>
    (wait_state (procs (sch k) i) = WT_CHILD \<and> (\<exists>z \<in> set (ch (cur k)). state (procs (sch k) z) = PROC_ZOMBIE)
       \<longrightarrow> state (procs (sch k') i) = PROC_RUNNABLE) \<and>
    (\<forall>q. q \<noteq> cur k \<longrightarrow> no_links (pcbs k' q) = no_links (pcbs k q) \<and>
       (q \<noteq> par \<longrightarrow> q \<noteq> i \<longrightarrow> state (procs (sch k') q) = state (procs (sch k) q)))"
    by (elim exE conjE) (rule that, assumption, assumption, intro conjI; assumption)
  then show ?thesis using 1(2) by (intro exI [of _ k'] exI [of _ cs] exI [of _ G]) simp
qed

end

end
