(* ===== verification/Processes.thy ===== *)
theory Processes
  imports ProcFork ProcExit
begin

text \<open>
  The properties of the processes of \<open>lab6/kern/process/proc.c\<close>, with the stride scheduler and the first fit
  manager, at a small family of kernel threads.
\<close>

unbundle bit_operations_syntax

interpretation kernel: processes stride_class P "stride_rep P" default_alloc_pages default_free_pages default_nr_free_pages pmm_inv
  for P
  by unfold_locales

section \<open>A small family\<close>

text \<open>
  The idle process 100, \<open>initproc\<close> 130, which waits for a child, its child 160, which runs, and the child 190 of
  160, which has exited; its kernel stack is at page 0. The frames 2 to 9 are free.
\<close>

definition demo_state :: "nat \<Rightarrow> proc_state" where
  "demo_state p = (if p = 100 \<or> p = 160 then PROC_RUNNABLE else if p = 130 then PROC_SLEEPING
     else if p = 190 then PROC_ZOMBIE else PROC_UNINIT)"

definition demo_sched :: sched where
  "demo_sched = \<lparr>procs = (\<lambda>p. \<lparr>state = demo_state p, runs = 0, need_resched = False,
       wait_state = (if p = 130 then WT_CHILD else 0), on_rq = False, time_slice = 0, lab6_stride = 0, lab6_priority = 1\<rparr>),
     current = 160, idleproc = 100, run_links = \<lparr>lprev = id, lnext = id\<rparr>,
     run_pool = None, pool = \<lparr>parent = (\<lambda>_. None), left = (\<lambda>_. None), right = (\<lambda>_. None)\<rparr>,
     proc_num = 0, max_time_slice = MAX_TIME_SLICE\<rparr>"

definition demo_pcb :: "nat \<Rightarrow> pcb" where
  "demo_pcb p = \<lparr>pid = (if p = 130 then 1 else if p = 160 then 2 else if p = 190 then 3 else 0),
     kstack = (if p = 190 then Some 0 else Some 30),
     proc_parent = (if p = 130 then Some 100 else if p = 160 then Some 130 else if p = 190 then Some 160 else None),
     proc_mm = None, ctx = \<lparr>ctx_ra = 0, ctx_sp = 0, ctx_s = (\<lambda>_. 0)\<rparr>, tf = None, cr3 = 40, proc_flags = 0,
     proc_name = (\<lambda>_. 0), exit_code = (if p = 190 then 7 else 0),
     cptr = (if p = 100 then Some 130 else if p = 130 then Some 160 else if p = 160 then Some 190 else None),
     yptr = None, optr = None\<rparr>"

definition demo_kheap :: slob where
  "demo_kheap = set_units 189 (SLOB_UNITS sizeof_proc_struct + 1) demo_heap"

definition demo_kern :: kern where
  "demo_kern = \<lparr>kvm = demo_vmm\<lparr>heap := demo_kheap\<rparr>, sch = demo_sched, pcbs = demo_pcb,
     proc_links = \<lparr>lprev = (\<lambda>e. if e = ProcList then ListLink 130 else if e = ListLink 130 then ListLink 160
           else if e = ListLink 160 then ListLink 190 else if e = ListLink 190 then ProcList else e),
         lnext = (\<lambda>e. if e = ProcList then ListLink 190 else if e = ListLink 190 then ListLink 160
           else if e = ListLink 160 then ListLink 130 else if e = ListLink 130 then ProcList else e)\<rparr>,
     hash_links = (let f = (\<lambda>e. if e = HashList 632 then HashLink 130 else if e = HashLink 130 then HashList 632
           else if e = HashList 241 then HashLink 160 else if e = HashLink 160 then HashList 241
           else if e = HashList 874 then HashLink 190 else if e = HashLink 190 then HashList 874 else e)
       in \<lparr>lprev = f, lnext = f\<rparr>),
     initproc = Some 130, nr_process = 4, next_safe = MAX_PID, last_pid = 3, boot_pgdir = 40, satp = 40\<rparr>"

definition demo_children :: "nat \<Rightarrow> nat list" where
  "demo_children p = (if p = 100 then [130] else if p = 130 then [160] else if p = 160 then [190] else [])"

lemma demo_kern_sel [simp]:
  "kvm demo_kern = demo_vmm\<lparr>heap := demo_kheap\<rparr>" "sch demo_kern = demo_sched" "pcbs demo_kern = demo_pcb" "cur demo_kern = 160"
  "initproc demo_kern = Some 130" "nr_process demo_kern = 4" "next_safe demo_kern = MAX_PID" "last_pid demo_kern = 3"
  "idleproc demo_sched = 100" "current demo_sched = 160" "state (procs demo_sched p) = demo_state p"
  "wait_state (procs demo_sched p) = (if p = 130 then WT_CHILD else 0)"
  by (simp_all add: demo_kern_def demo_sched_def cur_def)

lemma demo_hash: "pid_hashfn 1 = 632" "pid_hashfn 2 = 241" "pid_hashfn 3 = 874"
  by (simp_all add: pid_hashfn_def hash32_def)

lemma demo_kin: "kin_ok demo_kern {100, 190, 160, 130} demo_children (\<lambda>_. None)"
  by (simp add: kin_ok_def demo_children_def demo_pcb_def) auto

lemma demo_hash_ok: "hash_ok demo_kern [190, 160, 130]"
proof -
  define hs :: "nat \<Rightarrow> nat list" where "hs b = (if b = 632 then [130] else if b = 241 then [160] else if b = 874 then [190] else [])" for b
  have "dlist (hash_links demo_kern) (HashList b) (map HashLink (hs b)) \<and>
     set (hs b) = {p \<in> set [190, 160, 130]. pid_hashfn (pid_of demo_kern p) = b}" for b
  proof
    show "dlist (hash_links demo_kern) (HashList b) (map HashLink (hs b))"
      by (simp add: hs_def demo_kern_def dlist_def Let_def)
    show "set (hs b) = {p \<in> set [190, 160, 130]. pid_hashfn (pid_of demo_kern p) = b}"
      by (auto simp: hs_def demo_pcb_def demo_hash)
  qed
  then show ?thesis unfolding hash_ok_def by blast
qed

lemma demo_pids: "pids_ok demo_kern [190, 160, 130]"
  by (simp add: pids_ok_def proc_list_def MAX_PID_def MAX_PROCESS_def demo_pcb_def) (simp add: demo_kern_def dlist_def)

lemma demo_procs_ok: "procs_ok demo_kern [190, 160, 130] demo_children 130"
  unfolding procs_ok_def
proof (intro conjI)
  show "inj_on (pid_of demo_kern) (set [190, 160, 130])" by (simp add: inj_on_def demo_pcb_def)
qed (use demo_pids demo_hash_ok demo_kin in \<open>simp_all add: demo_pcb_def demo_children_def demo_state_def MAX_PID_def MAX_PROCESS_def\<close>)

lemma demo_sched_ok: "stride.ok UNIV demo_sched"
proof -
  have "stride.ready UNIV demo_sched = {}" by (auto simp: stride.ready_def demo_state_def)
  moreover have "stride_rep UNIV demo_sched {}"
    unfolding stride_rep_def by (rule exI [of _ Leaf]) (simp add: stride_pool_def sk_queue_def sk_heap_def root_par_def demo_sched_def)
  ultimately show ?thesis by (simp add: stride.ok_def)
qed

section \<open>The properties\<close>

text \<open>
  C36: \<open>get_pid\<close>, with its two nested loops over a list that it starts again at every collision, always returns
  while a number is left. The number is between 1 and \<open>MAX_PID - 1\<close>, no process has it, and only the two static
  variables change, which again bound a range that no process uses.
\<close>

theorem get_pid_unique:
  assumes "pids_ok k ps" and "int (length ps) < MAX_PID - 1"
  shows "\<exists>n k'. get_pid k = Some (n, k') \<and> 1 \<le> n \<and> n < MAX_PID \<and> n \<notin> pid_of k ` set ps \<and> pids_ok k' ps \<and>
    (\<exists>m. k' = k\<lparr>last_pid := n, next_safe := m\<rparr>)"
proof -
  obtain l n where g: "get_pid k = Some (l, set_pids l n k)" "1 \<le> l" "l < MAX_PID" "n \<le> MAX_PID"
    "\<forall>p \<in> set ps. pid_of k p \<noteq> l" "\<forall>p \<in> set ps. \<not> (l < pid_of k p \<and> pid_of k p < n)"
    using get_pid_ok [OF assms] by blast
  have "pids_ok (set_pids l n k) ps" using g(2-4,6) assms(1) by (simp add: pids_ok_def proc_list_def)
  then show ?thesis using g by (intro exI [of _ l] exI [of _ "set_pids l n k"]) (auto simp: set_pids_def)
qed

theorem get_pid_unique_witness: "\<exists>n k'. get_pid demo_kern = Some (n, k') \<and> n \<notin> {1, 2, 3} \<and> pids_ok k' [190, 160, 130]"
  using get_pid_unique [OF demo_pids] by (simp add: MAX_PID_def MAX_PROCESS_def demo_pcb_def) blast

text \<open>
  C37: looking a process up by its number in the hash table gives the same as searching the whole process list,
  for every number, also 0, negative ones and those nobody has.
\<close>

theorem find_proc_finds:
  assumes "hash_ok k ps" and "inj_on (pid_of k) (set ps)" and "\<forall>p \<in> set ps. 1 \<le> pid_of k p \<and> pid_of k p < MAX_PID"
  shows "find_proc n k = Some (find (\<lambda>p. pid_of k p = n) ps)"
  by (rule find_proc_ok [OF assms])

theorem find_proc_finds_witness: "find_proc 2 demo_kern = Some (Some 160) \<and> find_proc 4 demo_kern = Some None"
proof -
  have "inj_on (pid_of demo_kern) (set [190, 160, 130])" by (simp add: inj_on_def demo_pcb_def)
  from find_proc_finds [OF demo_hash_ok this] show ?thesis by (simp add: demo_pcb_def MAX_PID_def MAX_PROCESS_def)
qed

text \<open>
  For the next example, process 160 is the last one in the address space 700, whose root is frame 0 and whose only
  area, 800, is the pages 1024 to 1027, none of them mapped yet.
\<close>

definition demo_low :: pmem where
  "demo_low = \<lparr>parea = demo_area, words = (\<lambda>_ _. 0), swap_init_ok = True\<rparr>"

definition demo_own :: vmm where
  "demo_own = \<lparr>swst = (swst demo_vmm)\<lparr>smem := demo_low\<rparr>, heap = set_units 699 5 (set_units 799 4 demo_heap),
     vlinks = \<lparr>lprev = (\<lambda>e. if e = MmapList 700 then VmaLink 800 else if e = VmaLink 800 then MmapList 700 else e),
       lnext = (\<lambda>e. if e = MmapList 700 then VmaLink 800 else if e = VmaLink 800 then MmapList 700 else e)\<rparr>,
     mms = (\<lambda>_. \<lparr>mmap_cache = None, pgdir = Some 0, map_count = 1, sm_priv = Some PraHead, mm_count = 1\<rparr>),
     vmas = (\<lambda>_. \<lparr>vm_mm = 700, vm_start = va 1024, vm_end = va 1028, vm_flags = VM_READ OR VM_WRITE\<rparr>)\<rparr>"

definition demo_last :: kern where
  "demo_last = upd_pcb 160 (\<lambda>q. q\<lparr>proc_mm := Some 700\<rparr>) (demo_kern\<lparr>kvm := demo_own\<rparr>)"

lemma demo_last_sel [simp]:
  "kvm demo_last = demo_own" "sch demo_last = demo_sched" "cur demo_last = 160" "proc_mm (pcbs demo_last 160) = Some 700"
  "proc_parent (pcbs demo_last 160) = Some 130" "mm_count (mms demo_own 700) = 1"
  by (simp_all add: demo_last_def demo_pcb_def demo_own_def cur_def)

lemma demo_own_heap: "slob_inv (vmm.heap demo_own) [20]" "slob_free_units (vmm.heap demo_own) [20] = {20..<70}"
  "bigblocks (vmm.heap demo_own) = None" "arena (vmm.heap demo_own) = 16"
  "sunits (vmm.heap demo_own) 699 = 5" "sunits (vmm.heap demo_own) 799 = 4"
proof -
  have i: "slob_inv demo_heap [20]" using demo_heap_inv(1) by (simp add: heap_inv_def)
  have n: "799 \<notin> set (arena demo_heap # [20])" "699 \<notin> set (arena (set_units 799 4 demo_heap) # [20])" by (simp_all add: demo_heap_def)
  note a = slob_inv_frame [OF i n(1), of 4]
  note b = slob_inv_frame [OF a(1) n(2), of 5]
  show "slob_inv (vmm.heap demo_own) [20]" using b(1) by (simp add: demo_own_def)
  have "slob_free_units demo_heap [20] = {20..<70}" by (simp add: slob_free_units_def blk_def demo_heap_def)
  then show "slob_free_units (vmm.heap demo_own) [20] = {20..<70}" using a(2) b(2) by (simp add: demo_own_def)
qed (simp_all add: demo_own_def demo_heap_def)

lemma demo_low_tree: "kids (\<lambda>_ _. 0) R = {}" "data (\<lambda>_ _. 0) R = {}" "pte (\<lambda>_ _. 0) r v = 0"
  by (simp_all add: kids_def child_def data_def mapped_def pte_def leaf_def)

lemma demo_own_ok: "vm_ok pmm_inv {0} [20] {2..<10} demo_own"
proof -
  have v: "vmem demo_own = demo_low" by (simp add: vmem_def demo_own_def)
  have "pmm_inv demo_area {2..<10}" using demo_area_inv demo_area_frames by (auto simp: pmm_inv_def)
  then have "space_ok pmm_inv (\<lambda>_. 0) {0} {2..<10} demo_low"
    unfolding space_ok_def by (simp add: demo_low_def demo_low_tree tree_ok_def slots_def dirs_def child_def page_ref_def)
      (simp add: demo_area_def npage_def nbase_def)
  moreover have "{20..<70} \<inter> page_units {2..<10} = {}" by (auto simp: page_units_def page2kva_unit_def)
  then have "heap_inv (vmm.heap demo_own) [20] {2..<10}"
    using demo_own_heap demo_heap_inv(1) by (simp add: heap_inv_def demo_heap_def)
  ultimately show ?thesis by (simp add: vm_ok_def v)
qed

lemma low_not_page: "x < 1000 \<Longrightarrow> x \<notin> page_units G"
  by (auto simp: page_units_def page2kva_unit_def)

lemma demo_own_held: "space_held {0} [20] {2..<10} demo_own 700 [800] 0"
proof -
  have v: "vmem demo_own = demo_low" by (simp add: vmem_def demo_own_def)
  have w: "words demo_low = (\<lambda>_ _. 0)" "parea demo_low = demo_area" by (simp_all add: demo_low_def)
  have u: "SLOB_UNITS sizeof_vma_struct = 3" "SLOB_UNITS sizeof_mm_struct = 4"
    by (simp_all add: SLOB_UNITS_def sizeof_vma_struct_def sizeof_mm_struct_def SLOB_UNIT_def)
  have ou: "obj_units (800, sizeof_vma_struct) = {799..<803}" "obj_units (700, sizeof_mm_struct) = {699..<704}"
    by (simp_all add: obj_units_def u)
  have un: "unused [20] {2..<10} demo_own = {20..<70} \<union> page_units {2..<10}" using demo_own_heap(2) by (simp add: unused_def)
  have low: "{799..<803} \<inter> page_units G = {}" "{699..<704} \<inter> page_units G = {}" "{20..<70} \<inter> page_units G = {}" for G
    using low_not_page [of _ G] by auto
  have iu: "in_use demo_own {0} = {0}" by (simp add: v w demo_low_tree)
  show ?thesis
    unfolding space_held_def iu
  proof (intro conjI)
    show "mm_list demo_own 700 [800]" by (simp add: mm_list_def dlist_def demo_own_def)
    show "pgdir (mms demo_own 700) = Some 0" by (simp add: demo_own_def)
    show "\<forall>v \<in> set [800]. user_area (vmas demo_own v)"
      unfolding user_area_def by (intro ballI exI [of _ 1024] exI [of _ 1028]) (simp add: demo_own_def UPAGES_def)
    show "page_clean (pages (parea (vmem demo_own)) 0)"
      by (simp add: v w page_clean_def demo_area_def PageReserved_def PageProperty_def)
    show "objects_held [20] {2..<10} demo_own (mm_objects 700 [800])"
      using demo_own_heap low ou by (simp add: objects_held_def object_held_def mm_objects_def un u Int_Un_distrib)
    show "\<forall>x \<in> set (mm_objects 700 [800]). obj_units x \<inter> page_units {0} = {}" using low ou by (simp add: mm_objects_def)
  qed (use low demo_own_heap(2) in \<open>auto simp: v w demo_low_tree npage_def nbase_def\<close>)
qed

lemma demo_last_ok: "procs_ok demo_last [190, 160, 130] demo_children 130"
proof (rule procs_ok_cong [OF demo_procs_ok])
  note o = demo_procs_ok [unfolded procs_ok_def]
  show "kin_ok demo_last (insert (idleproc (sch demo_kern)) (set [190, 160, 130])) demo_children (\<lambda>_. None)"
    by (rule kin_cong [of demo_kern]) (use o in \<open>auto simp: demo_last_def\<close>)
  show "proc_parent (pcbs demo_last p) \<noteq> None \<and> proc_parent (pcbs demo_last p) \<noteq> Some p \<and>
      (zombie demo_last p \<longrightarrow> demo_children p = [])" if "p \<in> set [190, 160, 130]" for p
    using that by (auto simp: demo_last_def demo_pcb_def demo_children_def demo_state_def)
qed (auto simp: demo_last_def demo_children_def demo_pcb_def demo_state_def)

text \<open>
  C38: \<open>do_exit\<close> of a process other than the idle process and \<open>initproc\<close> keeps the invariant of the processes: its
  children, whatever their number, become the first children of \<open>initproc\<close>, in reverse order, and it becomes a
  zombie with the exit code. Another process runs, on its own page directory. A parent that waits for a child is
  made runnable, and so is \<open>initproc\<close> when it waits and receives a child that has already exited; every other process
  keeps its state. As to memory (\<open>mm_released\<close>): a kernel thread frees nothing; an address space that others use
  only loses one reference; the last process in it gives it back, that is, \<open>exit_mmap\<close>, \<open>put_pgdir\<close> and \<open>mm_destroy\<close>
  return, and its root, every frame that no other space maps, its areas and its \<open>mm_struct\<close> are free afterwards,
  while every other space keeps its translations and the contents of its pages. The last case (\<open>space_held\<close>) needs
  whole pages in the areas, no page mapped outside of them, and a free frame above all frames in use, without which
  \<open>default_free_pages\<close> damages the free list.
\<close>

theorem do_exit_reparents:
  assumes "procs_ok k ps ch i" and "stride.ok P (sch k)" and "set ps \<subseteq> P" and "cur k \<in> set ps" and "cur k \<noteq> i"
    and "state (procs (sch k) (cur k)) = PROC_RUNNABLE" and "proc_parent (pcbs k (cur k)) = Some par"
    and "may_release pmm_inv R bs F k vs r"
  shows "\<exists>k' cs G. do_exit stride_class default_alloc_pages default_free_pages code k = Some k' \<and>
    mm_released pmm_inv R bs F k vs r cs G (kvm k') \<and>
    procs_ok k' ps (ch(cur k := [], i := rev (ch (cur k)) @ ch i)) i \<and> stride.ok P (sch k') \<and>
    cur k' \<noteq> cur k \<and> satp k' = cr3 (pcbs k' (cur k')) \<and>
    state (procs (sch k') (cur k)) = PROC_ZOMBIE \<and> exit_code (pcbs k' (cur k)) = code \<and>
    (wait_state (procs (sch k) par) = WT_CHILD \<longrightarrow> state (procs (sch k') par) = PROC_RUNNABLE) \<and>
    (wait_state (procs (sch k) i) = WT_CHILD \<and> (\<exists>z \<in> set (ch (cur k)). state (procs (sch k) z) = PROC_ZOMBIE)
       \<longrightarrow> state (procs (sch k') i) = PROC_RUNNABLE) \<and>
    (\<forall>q. q \<noteq> cur k \<longrightarrow> no_links (pcbs k' q) = no_links (pcbs k q) \<and>
       (q \<noteq> par \<longrightarrow> q \<noteq> i \<longrightarrow> state (procs (sch k') q) = state (procs (sch k) q)))"
  by (rule kernel.do_exit_releases_ok [OF assms])

theorem do_exit_reparents_witness:
  "\<exists>k' cs G. do_exit stride_class default_alloc_pages default_free_pages 5 demo_last = Some k' \<and>
     procs_ok k' [190, 160, 130] (demo_children(160 := [], 130 := [190, 160])) 130 \<and> state (procs (sch k') 130) = PROC_RUNNABLE \<and>
     vm_ok pmm_inv {} cs G (kvm k') \<and> {0} \<union> {2..<10} \<subseteq> G"
proof -
  have ok: "stride.ok UNIV (sch demo_last)" using demo_sched_ok by simp
  have mr: "may_release pmm_inv {0} [20] {2..<10} demo_last [800] 0"
    using demo_own_ok demo_own_held by (simp add: may_release_def)
  have c: "cur demo_last \<in> set [190, 160, 130]" "cur demo_last \<noteq> 130" "state (procs (sch demo_last) (cur demo_last)) = PROC_RUNNABLE"
    "proc_parent (pcbs demo_last (cur demo_last)) = Some 130" by (simp_all add: demo_state_def)
  obtain k' cs G where x: "do_exit stride_class default_alloc_pages default_free_pages 5 demo_last = Some k'"
    "mm_released pmm_inv {0} [20] {2..<10} demo_last [800] 0 cs G (kvm k')"
    "procs_ok k' [190, 160, 130] (demo_children(cur demo_last := [], 130 := rev (demo_children (cur demo_last)) @ demo_children 130)) 130"
    "wait_state (procs (sch demo_last) 130) = WT_CHILD \<longrightarrow> state (procs (sch k') 130) = PROC_RUNNABLE"
    using do_exit_reparents [OF demo_last_ok ok subset_UNIV c mr, of 5] by blast
  have "vm_ok pmm_inv {} cs G (kvm k') \<and> {0} \<union> {2..<10} \<subseteq> G" using x(2) by (simp add: mm_released_def space_gone_def)
  then show ?thesis using x by (auto simp: demo_children_def)
qed










text \<open>Process 160 with the empty address space 15.\<close>

definition demo_user :: kern where
  "demo_user = upd_pcb 160 (\<lambda>q. q\<lparr>proc_mm := Some 15\<rparr>) demo_kern"


lemma demo_user_sel [simp]:
  "kvm demo_user = demo_vmm\<lparr>heap := demo_kheap\<rparr>" "sch demo_user = demo_sched" "cur demo_user = 160" "nr_process demo_user = 4"
  "proc_mm (pcbs demo_user 160) = Some 15" "boot_pgdir demo_user = 40"
  by (simp_all add: demo_user_def) (simp add: demo_kern_def)



end
