(* ===== verification/Spec2Isabelle.thy ===== *)
theory Spec2Isabelle
  imports FirstFit BestFit Buddy Stride Timer WaitSem Printf Kmalloc SfsInode Processes
begin

text \<open>
  \<^bold>\<open>The ucore teaching kernel of this repository, modelled and verified.\<close>

  The repository holds one small RISC-V kernel in nine stages (\<open>lab0\<close> to \<open>lab8\<close>). Each stage copies the
  files of the one before, so a component is modelled from the stage where it is complete.

  \<^bold>\<open>Parts and theories.\<close>
  \<^item> \<open>Prelude\<close>: \<open>c_assert\<close> (an assertion of the code that fails is \<open>None\<close>), errors, lemmas on lists and options.
  \<^item> \<open>DList\<close>: the circular doubly linked list of \<open>libs/list.h\<close>, as two link functions over nodes, with the
    relation \<open>dlist\<close> between a list head and the sequence of nodes it threads.
  \<^item> \<open>PageAlloc\<close>, \<open>PmmManager\<close>, \<open>FirstFit\<close>, \<open>BestFit\<close>, \<open>Buddy\<close>: the page managers of \<open>lab2/kern/mm\<close>
    (\<open>default_pmm.c\<close>, \<open>best_fit_pmm.c\<close>, \<open>buddy_pmm.c\<close>). The state is the array of \<open>struct Page\<close> and the free list;
    the locale \<open>PmmManager\<close> states what a client of a page manager relies on.
  \<^item> \<open>Kmalloc\<close>: the SLOB heap of \<open>lab8/kern/mm/kmalloc.c\<close>, over a page allocator that is a parameter.
  \<^item> \<open>Paging\<close>: the Sv39 page tables of \<open>lab6/kern/mm/pmm.c\<close> in a memory of frames, over a page allocator; user
    address spaces are mapped, unmapped and copied page by page.
  \<^item> \<open>Swap\<close>: the page replacement managers of \<open>lab3/kern/mm\<close> (\<open>swap_fifo.c\<close>, \<open>swap_clock.c\<close>, \<open>swap_lru.c\<close>) behind the
    record \<open>swap_manager\<close>, and \<open>swap_out\<close> and \<open>swap_in\<close> of \<open>swap.c\<close> over the page tables and the swap device. The locale
    \<open>swap_policy\<close> states what \<open>swap.c\<close> relies on; all three managers interpret it.
  \<^item> \<open>Vmm\<close>: \<open>lab6/kern/mm/vmm.c\<close>, the areas of a process in an \<open>mm_struct\<close>, with objects from \<open>Kmalloc\<close> and pages
    from \<open>Paging\<close> that come from one page manager. \<open>AddrSpace\<close> proves its properties: the areas stay sorted and
    disjoint, user pointers are checked byte by byte, \<open>fork\<close> copies the address space, page faults map pages.
  \<^item> \<open>Sched\<close>, \<open>RoundRobin\<close>, \<open>SkewHeap\<close>, \<open>Stride\<close>: \<open>kern/schedule/sched.c\<close> with the scheduling class as a record
    of functions, and the two classes of lab 6.
  \<^item> \<open>Proc\<close>: \<open>lab6/kern/process/proc.c\<close>. The state \<open>kern\<close> composes the scheduler, the memory of processes and, for each
    process, the fields of \<open>proc_struct\<close> the scheduler does not have. \<open>ProcTree\<close> proves the numbers, the hash table and
    the family (children threaded by \<open>cptr\<close>, \<open>yptr\<close>, \<open>optr\<close>) and \<open>do_exit\<close>; \<open>ProcLife\<close> proves \<open>do_kill\<close> and \<open>do_wait\<close> and
    \<open>ProcFork\<close> proves \<open>do_fork\<close>, in the locale \<open>processes\<close> that joins a scheduler and a page manager; \<open>Processes\<close>
    interprets it and states the properties.
  \<^item> \<open>Timer\<close>: the timer list of \<open>sched.c\<close>, whose nodes hold the difference to the timer before them.
  \<^item> \<open>WaitSem\<close>: \<open>kern/sync/wait.c\<close> and \<open>sem.c\<close>.
  \<^item> \<open>CString\<close>, \<open>Printf\<close>: \<open>libs/string.c\<close> and \<open>libs/printfmt.c\<close>.
  \<^item> \<open>Disk\<close>: \<open>iobuf.c\<close>, the RAM disk, the ide interface and \<open>disk0\<close>; the locale \<open>block_device\<close> states what SFS
    relies on, interpreted by \<open>disk0\<close>.
  \<^item> \<open>Bitmap\<close>, \<open>SfsIo\<close>, \<open>SfsBmap\<close>, \<open>SfsInode\<close>: the simple file system \<open>kern/fs/sfs\<close> with the inode reference counts
    of \<open>kern/fs/vfs/inode.c\<close>.

  \<^bold>\<open>Conventions.\<close> A function of the code is an Isabelle function from its arguments and the state it reads to its
  result and the new state. \<open>None\<close> is a failed assertion, a panic, or a loop that does not end
  (\<open>partial_function (option)\<close>); no other fuel is used, and the properties that say a function returns state
  \<open>= Some \<dots>\<close>. Error codes are the negative integers of the code. Machine words keep their width where the code
  depends on it (\<open>u32\<close> strides, bitmap words); addresses and page numbers are natural numbers.
  The kernel runs on one processor and masks interrupts around these operations, so each is one step; where a process
  gives up the processor inside an operation (\<open>down\<close>, \<open>do_wait\<close>) the operation is split there.

  \<^bold>\<open>What the lemmas show.\<close> Each theory proves that its operations keep an invariant, and what each one returns on
  every branch: page managers and heap hand out free memory only and take it back without loss; ready queues lose no
  process and starve none (round robin); timers keep their deadlines; a semaphore admits as many processes as it
  has units; a write to the disk is read back; a file is resized without touching other files; a directory search finds
  the first entry of a name; a page that is swapped out and in again has its contents; an address space is copied
  without touching the parent; a forked process has a copy of its parent's memory and
  registers; process numbers are unique, the process list, the hash table and the family agree, and
  an exited process is reaped without losing memory.

  \<^bold>\<open>Not modelled.\<close> Assembly, boot, trap entry, the CSR and SBI accesses of \<open>libs/riscv.h\<close> and \<open>kern/driver\<close>;
  the debug monitor; host tools; the functions that only test (\<open>check_*\<close>); exercises that are left empty in this
  repository (the transfer in \<open>sfs_io_nolock\<close>, \<open>cond_signal\<close>, \<open>cond_wait\<close>, parts of lab 8's \<open>proc.c\<close>); the ELF
  loader (\<open>load_icode\<close>, \<open>do_execve\<close>), which copies bytes into user pages; the processor's TLB; the VFS layer.
\<close>

end
